(* ===== verification/Prelude.thy ===== *)
theory Prelude
  imports Main "HOL-Library.Word" "HOL-Library.AList" "HOL-Library.List_Lexorder"
    "HOL-Library.Product_Lexorder" "HOL-Library.Multiset"
begin

text \<open>
  Shared vocabulary of the development. A Python \<open>str\<close> is the list of its code points
  (\<open>pystr\<close>), so that lengths, comparisons and \<open>sorted\<close> are those of the source; a Python
  \<open>bytes\<close> object is a list of 8-bit words. A Python \<open>dict\<close> is an association list in
  insertion order: \<open>AList.update\<close> replaces a value in place or appends a new key, as
  \<open>d[k] = v\<close> does, and \<open>AList.delete\<close> is \<open>d.pop(k, None)\<close>.
  The string operations of the source (\<open>startswith\<close>, \<open>split\<close>, \<open>join\<close>, \<open>rindex\<close>)
  are defined once, over lists of any type, with the lemmas the components share.
\<close>

section \<open>Strings and bytes\<close>

type_synonym pystr = "int list"
type_synonym bytes = "8 word list"
type_synonym ('k, 'v) dict = "('k \<times> 'v) list"

text \<open>The code points of a literal: \<open>u ''abc''\<close> is the Python literal \<open>"abc"\<close>.\<close>

definition u :: "string \<Rightarrow> pystr" where
  "u s = map of_char s"

text \<open>The lemma collections: \<open>pystr_eval\<close> unfolds literals to code points, \<open>split_facts\<close> and
  \<open>dict_facts\<close> are the facts on splitting and on dictionaries.\<close>

named_theorems pystr_eval
named_theorems split_facts
named_theorems dict_facts

declare u_def [pystr_eval]

lemma u_Nil [simp]: "u [] = []"
  by (simp add: u_def)

lemma u_eq_Nil [simp]: "u s = [] \<longleftrightarrow> s = []"
  by (simp add: u_def)

lemma length_u [simp]: "length (u s) = length s"
  by (simp add: u_def)

lemma u_inject [simp]: "u s = u t \<longleftrightarrow> s = t"
proof -
  have "inj (of_char :: char \<Rightarrow> int)"
    by (rule injI) simp
  then show ?thesis by (simp add: u_def inj_map_eq_map)
qed

lemma u_append: "u (s @ t) = u s @ u t"
  by (simp add: u_def)

section \<open>Prefixes, suffixes, substrings\<close>

definition startswith :: "'a list \<Rightarrow> 'a list \<Rightarrow> bool" where
  "startswith s p \<longleftrightarrow> take (length p) s = p"

definition endswith :: "'a list \<Rightarrow> 'a list \<Rightarrow> bool" where
  "endswith s p \<longleftrightarrow> length p \<le> length s \<and> drop (length s - length p) s = p"

lemma startswith_iff: "startswith s p \<longleftrightarrow> (\<exists>t. s = p @ t)"
proof
  assume "startswith s p"
  then have "s = p @ drop (length p) s"
    by (metis append_take_drop_id startswith_def)
  then show "\<exists>t. s = p @ t" by blast
qed (auto simp: startswith_def)

lemma endswith_iff: "endswith s p \<longleftrightarrow> (\<exists>t. s = t @ p)"
proof
  assume "endswith s p"
  then have "s = take (length s - length p) s @ p"
    by (metis append_take_drop_id endswith_def)
  then show "\<exists>t. s = t @ p" by blast
qed (auto simp: endswith_def)

lemma startswith_append [simp]: "startswith (p @ t) p"
  by (simp add: startswith_def)

lemma endswith_append [simp]: "endswith (t @ p) p"
  by (simp add: endswith_def)

lemma startswith_Nil [simp]: "startswith s []"
  by (simp add: startswith_def)

lemma startswith_Cons [simp]:
  "startswith [] (c # p) \<longleftrightarrow> False"
  "startswith (d # s) (c # p) \<longleftrightarrow> d = c \<and> startswith s p"
  by (simp_all add: startswith_def)

text \<open>\<open>s.find(pat)\<close> and \<open>s.rfind(pat)\<close>: the first and the last index, \<open>None\<close> for -1.\<close>

fun find_sub :: "'a list \<Rightarrow> 'a list \<Rightarrow> nat option" where
  "find_sub pat [] = (if pat = [] then Some 0 else None)"
| "find_sub pat (x # xs) =
     (if startswith (x # xs) pat then Some 0 else map_option Suc (find_sub pat xs))"

fun rfind_sub :: "'a list \<Rightarrow> 'a list \<Rightarrow> nat option" where
  "rfind_sub pat [] = (if pat = [] then Some 0 else None)"
| "rfind_sub pat (x # xs) =
     (case rfind_sub pat xs of
        Some i \<Rightarrow> Some (Suc i)
      | None \<Rightarrow> (if startswith (x # xs) pat then Some 0 else None))"

definition contains :: "'a list \<Rightarrow> 'a list \<Rightarrow> bool" where
  "contains s pat \<longleftrightarrow> find_sub pat s \<noteq> None"

lemma find_sub_None_iff: "find_sub pat s = None \<longleftrightarrow> \<not> (\<exists>a b. s = a @ pat @ b)"
proof (induction s)
  case Nil
  then show ?case by auto
next
  case (Cons x xs)
  show ?case
  proof (cases "startswith (x # xs) pat")
    case True
    then obtain b where "x # xs = [] @ pat @ b" by (auto simp: startswith_iff)
    with True show ?thesis by (metis find_sub.simps(2) option.distinct(1))
  next
    case False
    have "(\<exists>a b. x # xs = a @ pat @ b) \<longleftrightarrow> (\<exists>a b. xs = a @ pat @ b)"
    proof
      assume "\<exists>a b. x # xs = a @ pat @ b"
      then obtain a b where ab: "x # xs = a @ pat @ b" by blast
      with False have "a \<noteq> []" by (auto simp: startswith_iff)
      with ab show "\<exists>a b. xs = a @ pat @ b" by (cases a) auto
    qed (metis append_Cons)
    with False Cons show ?thesis by simp
  qed
qed

lemma contains_iff: "contains s pat \<longleftrightarrow> (\<exists>a b. s = a @ pat @ b)"
  by (simp add: contains_def find_sub_None_iff)

lemma rfind_sub_None_iff: "rfind_sub pat s = None \<longleftrightarrow> \<not> contains s pat"
proof (induction s)
  case Nil
  then show ?case by (auto simp: contains_iff)
next
  case (Cons x xs)
  have "contains (x # xs) pat \<longleftrightarrow> startswith (x # xs) pat \<or> contains xs pat"
    by (simp add: contains_def)
  with Cons show ?case by (auto split: option.splits)
qed

lemma rfind_sub_Some:
  "rfind_sub pat s = Some i \<Longrightarrow> s = take i s @ pat @ drop (i + length pat) s \<and> i + length pat \<le> length s"
proof (induction s arbitrary: i)
  case Nil
  then show ?case by (auto split: if_splits)
next
  case (Cons x xs)
  show ?case
  proof (cases "rfind_sub pat xs")
    case None
    with Cons.prems have i: "i = 0" and st: "startswith (x # xs) pat"
      by (auto split: if_splits)
    from st obtain t where "x # xs = pat @ t" by (auto simp: startswith_iff)
    then show ?thesis using i by simp
  next
    case (Some j)
    with Cons.prems have "i = Suc j" by simp
    with Cons.IH [OF Some] show ?thesis by simp
  qed
qed

text \<open>The last occurrence: if \<open>pat\<close> cannot start later, its position is found.\<close>

lemma rfind_sub_append:
  assumes "pat \<noteq> []" and "\<not> contains (tl (pat @ b)) pat"
  shows "rfind_sub pat (a @ pat @ b) = Some (length a)"
proof (induction a)
  case Nil
  from assms(1) obtain p ps where p: "pat = p # ps" by (cases pat) auto
  with assms(2) have "rfind_sub pat (ps @ b) = None" by (simp add: rfind_sub_None_iff)
  moreover have "startswith (p # ps @ b) pat" using p by simp
  ultimately show ?case using p by simp
next
  case (Cons x a)
  then show ?case by simp
qed

section \<open>Splitting and joining\<close>

text \<open>\<open>s.split(sep)\<close> for a one-character separator, and \<open>sep.join(parts)\<close>.\<close>

fun split_on :: "'a \<Rightarrow> 'a list \<Rightarrow> 'a list list" where
  "split_on d [] = [[]]"
| "split_on d (x # xs) =
     (if x = d then [] # split_on d xs
      else (case split_on d xs of [] \<Rightarrow> [[x]] | w # ws \<Rightarrow> (x # w) # ws))"

fun join_with :: "'a list \<Rightarrow> 'a list list \<Rightarrow> 'a list" where
  "join_with sep [] = []"
| "join_with sep [w] = w"
| "join_with sep (w # v # ws) = w @ sep @ join_with sep (v # ws)"

lemma split_on_ne [simp]: "split_on d s \<noteq> []"
  by (induction s) (auto split: list.splits)

lemma join_split [split_facts]: "join_with [d] (split_on d s) = s"
proof (induction s)
  case Nil
  then show ?case by simp
next
  case (Cons x xs)
  obtain w ws where w: "split_on d xs = w # ws"
    by (cases "split_on d xs") auto
  with Cons show ?case by (cases ws) auto
qed

lemma split_on_no_sep [split_facts]: "w \<in> set (split_on d s) \<Longrightarrow> d \<notin> set w"
proof (induction s arbitrary: w)
  case Nil
  then show ?case by simp
next
  case (Cons x xs)
  obtain v vs where v: "split_on d xs = v # vs"
    by (cases "split_on d xs") auto
  from Cons.IH [unfolded v] have "d \<notin> set v" and "\<And>w. w \<in> set vs \<Longrightarrow> d \<notin> set w"
    by auto
  with Cons.prems v show ?case by (auto split: if_splits)
qed

lemma split_on_id [split_facts]: "d \<notin> set s \<Longrightarrow> split_on d s = [s]"
  by (induction s) auto

lemma split_on_append [split_facts]:
  "split_on d (a @ d # b) = split_on d a @ split_on d b"
proof (induction a)
  case Nil
  then show ?case by simp
next
  case (Cons x a)
  obtain w ws where "split_on d a = w # ws"
    by (cases "split_on d a") auto
  with Cons show ?case by simp
qed

lemma split_join [split_facts]:
  "ws \<noteq> [] \<Longrightarrow> \<forall>w \<in> set ws. d \<notin> set w \<Longrightarrow> split_on d (join_with [d] ws) = ws"
proof (induction "[d]" ws rule: join_with.induct)
  case 1
  then show ?case by simp
next
  case (2 w)
  then show ?case by (simp add: split_on_id)
next
  case (3 w v ws)
  then show ?case by (simp add: split_on_append split_on_id)
qed

lemma set_join_with: "set (join_with sep ws) \<subseteq> (\<Union>w \<in> set ws. set w) \<union> set sep"
  by (induction sep ws rule: join_with.induct) auto

text \<open>\<open>Path(base / rel).relative_to(base).parts\<close>: empty and \<open>.\<close> components disappear.\<close>

definition path_parts :: "pystr \<Rightarrow> pystr list" where
  "path_parts rel = filter (\<lambda>p. p \<noteq> [] \<and> p \<noteq> u ''.'') (split_on 47 rel)"

lemma path_parts_no_sep: "p \<in> set (path_parts rel) \<Longrightarrow> p \<noteq> [] \<and> p \<noteq> u ''.'' \<and> 47 \<notin> set p"
  by (auto simp: path_parts_def split_on_no_sep)

lemma path_parts_join:
  assumes "\<forall>p \<in> set ps. p \<noteq> [] \<and> p \<noteq> u ''.'' \<and> 47 \<notin> set p"
  shows "path_parts (join_with [47] ps) = ps"
proof (cases "ps = []")
  case True
  then show ?thesis by (simp add: path_parts_def)
next
  case False
  with assms have "split_on 47 (join_with [47] ps) = ps" by (intro split_join) auto
  with assms show ?thesis by (auto simp: path_parts_def intro: filter_True)
qed

lemma path_parts_id: "\<forall>p \<in> set (split_on 47 k). p \<noteq> [] \<and> p \<noteq> u ''.'' \<Longrightarrow> path_parts k = split_on 47 k"
  by (simp add: path_parts_def)

section \<open>Dictionaries\<close>

text \<open>\<open>distinct_keys\<close> is the invariant of every Python dict; every operation keeps it.\<close>

definition distinct_keys :: "('k, 'v) dict \<Rightarrow> bool" where
  "distinct_keys d \<longleftrightarrow> distinct (map fst d)"

definition dkeys :: "('k, 'v) dict \<Rightarrow> 'k list" where
  "dkeys d = map fst d"

definition dict_filter :: "('k \<Rightarrow> 'v \<Rightarrow> bool) \<Rightarrow> ('k, 'v) dict \<Rightarrow> ('k, 'v) dict" where
  "dict_filter P d = filter (\<lambda>(k, v). P k v) d"

text \<open>\<open>d.update(e)\<close>: the entries of \<open>e\<close>, one after the other.\<close>

definition dict_update :: "('k, 'v) dict \<Rightarrow> ('k, 'v) dict \<Rightarrow> ('k, 'v) dict" where
  "dict_update d e = fold (\<lambda>(k, v). AList.update k v) e d"

lemma set_dkeys [simp]: "set (dkeys d) = dom (map_of d)"
  by (simp add: dkeys_def dom_map_of_conv_image_fst)

lemma distinct_keys_Cons [simp]: "distinct_keys ((k, v) # d) \<longleftrightarrow> map_of d k = None \<and> distinct_keys d"
  by (auto simp: distinct_keys_def map_of_eq_None_iff)

lemma distinct_keys_Nil [simp]: "distinct_keys []"
  by (simp add: distinct_keys_def)

lemma map_of_alist_update [simp]:
  "map_of (AList.update k v d) k' = (if k' = k then Some v else map_of d k')"
  by (simp add: update_conv')

lemma distinct_keys_filter [dict_facts]: "distinct_keys d \<Longrightarrow> distinct_keys (dict_filter P d)"
  by (simp add: distinct_keys_def dict_filter_def distinct_map_filter)

lemma distinct_keys_update [dict_facts]:
  "distinct_keys d \<Longrightarrow> distinct_keys (AList.update k v d)"
  by (simp add: distinct_keys_def distinct_update)

lemma map_of_dict_filter [dict_facts]:
  "distinct_keys d \<Longrightarrow>
     map_of (dict_filter P d) k = (case map_of d k of None \<Rightarrow> None | Some v \<Rightarrow> if P k v then Some v else None)"
proof (induction d)
  case Nil
  then show ?case by (simp add: dict_filter_def)
next
  case (Cons kv d)
  obtain k' v' where kv: "kv = (k', v')" by (cases kv)
  from Cons.prems have d: "distinct_keys d" and k': "k' \<notin> fst ` set d"
    by (auto simp: distinct_keys_def kv)
  from k' have none: "map_of d k' = None" by (simp add: map_of_eq_None_iff)
  show ?case
    using Cons.IH [OF d] none
    by (auto simp: dict_filter_def kv split: option.splits)
qed

lemma set_dict_filter [simp]: "kv \<in> set (dict_filter P d) \<longleftrightarrow> kv \<in> set d \<and> P (fst kv) (snd kv)"
  by (auto simp: dict_filter_def)

lemma dict_filter_True [simp]: "dict_filter (\<lambda>_ _. True) d = d"
  by (simp add: dict_filter_def)

lemma dict_filter_dict_filter [simp]:
  "dict_filter P (dict_filter Q d) = dict_filter (\<lambda>k v. P k v \<and> Q k v) d"
  by (auto simp: dict_filter_def intro!: filter_cong)

lemma map_of_dict_update [dict_facts]:
  "map_of (dict_update d e) k = (case map_of (rev e) k of Some v \<Rightarrow> Some v | None \<Rightarrow> map_of d k)"
proof (induction e arbitrary: d)
  case Nil
  then show ?case by (simp add: dict_update_def)
next
  case (Cons kv e)
  obtain k' v' where kv: "kv = (k', v')" by (cases kv)
  have "map_of (dict_update d (kv # e)) k = map_of (dict_update (AList.update k' v' d) e) k"
    by (simp add: dict_update_def kv)
  also have "\<dots> = (case map_of (rev e) k of Some v \<Rightarrow> Some v
                    | None \<Rightarrow> map_of (AList.update k' v' d) k)"
    by (rule Cons.IH)
  finally show ?case
    by (auto simp: kv update_conv' map_add_def split: option.splits)
qed

lemma distinct_keys_dict_update [dict_facts]:
  "distinct_keys d \<Longrightarrow> distinct_keys (dict_update d e)"
proof (induction e arbitrary: d)
  case Nil
  then show ?case by (simp add: dict_update_def)
next
  case (Cons kv e)
  obtain k v where kv: "kv = (k, v)" by (cases kv)
  from Cons.IH [OF distinct_keys_update [OF Cons.prems]]
  show ?case by (simp add: dict_update_def kv)
qed

lemma map_of_rev_distinct [dict_facts]:
  "distinct_keys d \<Longrightarrow> map_of (rev d) = map_of d"
  by (simp add: map_of_inject_set distinct_keys_def rev_map [symmetric])

section \<open>Results\<close>

text \<open>A result is \<open>Inl e\<close> for a raised exception and \<open>Inr x\<close> for a returned value. \<open>try_map\<close>
  runs a loop body over a list and stops at the first exception.\<close>

fun try_each :: "('a \<Rightarrow> 'e + 'b) \<Rightarrow> 'a list \<Rightarrow> 'e + 'b list" where
  "try_each f [] = Inr []"
| "try_each f (x # xs) =
     (case f x of Inl e \<Rightarrow> Inl e
      | Inr y \<Rightarrow> (case try_each f xs of Inl e \<Rightarrow> Inl e | Inr ys \<Rightarrow> Inr (y # ys)))"

lemma try_each_Inr_iff:
  "try_each f xs = Inr ys \<longleftrightarrow> list_all2 (\<lambda>x y. f x = Inr y) xs ys"
proof (induction xs arbitrary: ys)
  case Nil
  then show ?case by auto
next
  case (Cons x xs)
  show ?case
  proof (cases "try_each f xs")
    case (Inl e)
    with Cons.IH have "\<not> list_all2 (\<lambda>x y. f x = Inr y) xs zs" for zs
      by (metis sum.distinct(1))
    with Inl show ?thesis by (auto simp: list_all2_Cons1 split: sum.splits)
  next
    case (Inr zs)
    with Cons.IH have "list_all2 (\<lambda>x y. f x = Inr y) xs vs \<longleftrightarrow> zs = vs" for vs
      by (metis sum.inject(2))
    with Inr show ?thesis by (auto simp: list_all2_Cons1 split: sum.splits)
  qed
qed

end
