(* ===== verification/Json.thy ===== *)
theory Json
  imports Prelude
begin

text \<open>
  The JSON values a manifest, a sidecar or a JSONL line decodes to, and \<open>json.loads\<close> on a
  \<open>str\<close>: the scanner of CPython's json module, with its three ways to fail
  (\<open>JSONDecodeError\<close>, the plain \<open>ValueError\<close> of an integer literal over the interpreter's
  digit limit, and \<open>RecursionError\<close> on deep nesting). The nesting limit is the argument
  \<open>lim\<close>: the interpreter's remaining recursion depth.
\<close>

section \<open>Values\<close>

text \<open>\<open>JFloat\<close> carries the literal as written: no code modelled here reads its value.\<close>

datatype json =
    JNull
  | JBool bool
  | JInt int
  | JFloat pystr
  | JStr pystr
  | JList "json list"
  | JObj "(pystr \<times> json) list"

text \<open>\<open>isinstance(v, str)\<close> and \<open>d.get(key)\<close> on a decoded value.\<close>

fun as_str :: "json \<Rightarrow> pystr option" where
  "as_str (JStr s) = Some s"
| "as_str _ = None"

fun as_obj :: "json \<Rightarrow> (pystr, json) dict option" where
  "as_obj (JObj d) = Some d"
| "as_obj _ = None"

lemma as_str_Some [simp]: "as_str v = Some s \<longleftrightarrow> v = JStr s"
  by (cases v) auto

lemma as_obj_Some [simp]: "as_obj v = Some d \<longleftrightarrow> v = JObj d"
  by (cases v) auto

lemma as_str_None [simp]: "as_str v = None \<longleftrightarrow> (\<forall>s. v \<noteq> JStr s)"
  by (cases v) auto

lemma as_obj_None [simp]: "as_obj v = None \<longleftrightarrow> (\<forall>d. v \<noteq> JObj d)"
  by (cases v) auto

section \<open>The scanner\<close>

datatype json_error = JSONDecodeError | JSONValueError | JSONRecursionError

definition json_ws :: "int \<Rightarrow> bool" where
  "json_ws c \<longleftrightarrow> c = 32 \<or> c = 9 \<or> c = 10 \<or> c = 13"

definition skip_ws :: "pystr \<Rightarrow> pystr" where
  "skip_ws s = dropWhile json_ws s"

definition is_digit :: "int \<Rightarrow> bool" where
  "is_digit c \<longleftrightarrow> 48 \<le> c \<and> c \<le> 57"

definition hex_val :: "int \<Rightarrow> int option" where
  "hex_val c =
     (if is_digit c then Some (c - 48)
      else if 97 \<le> c \<and> c \<le> 102 then Some (c - 87)
      else if 65 \<le> c \<and> c \<le> 70 then Some (c - 55)
      else None)"

fun hex4 :: "pystr \<Rightarrow> (int \<times> pystr) option" where
  "hex4 (a # b # c # d # s) =
     (case (hex_val a, hex_val b, hex_val c, hex_val d) of
        (Some a', Some b', Some c', Some d') \<Rightarrow> Some (4096 * a' + 256 * b' + 16 * c' + d', s)
      | _ \<Rightarrow> None)"
| "hex4 _ = None"

definition unescape :: "int \<Rightarrow> int option" where
  "unescape c =
     map_of [(34, 34), (92, 92), (47, 47), (98, 8), (102, 12), (110, 10), (114, 13), (116, 9)] c"

text \<open>A \<open>\uXXXX\<close> escape, joined with a low surrogate that follows it.\<close>

definition u_escape :: "pystr \<Rightarrow> (int \<times> pystr) option" where
  "u_escape s =
     (case hex4 s of
        None \<Rightarrow> None
      | Some (h, r) \<Rightarrow>
          (if 55296 \<le> h \<and> h \<le> 56319 \<and> take 2 r = [92, 117] then
             (case hex4 (drop 2 r) of
                Some (l, r') \<Rightarrow>
                  (if 56320 \<le> l \<and> l \<le> 57343
                   then Some (65536 + (h - 55296) * 1024 + (l - 56320), r')
                   else Some (h, r))
              | None \<Rightarrow> Some (h, r))
           else Some (h, r)))"

lemma hex4_length: "hex4 s = Some (h, r) \<Longrightarrow> length s = length r + 4"
  by (cases s rule: hex4.cases) (auto split: option.splits)

lemma u_escape_length: "u_escape s = Some (h, r) \<Longrightarrow> length r < length s"
  by (auto simp: u_escape_def split: option.splits if_splits dest!: hex4_length)

text \<open>\<open>scanstring\<close> after the opening quote, in strict mode: a control character is an error.\<close>

function scan_string :: "pystr \<Rightarrow> (pystr \<times> pystr) option" where
  "scan_string s =
     (case s of
        [] \<Rightarrow> None
      | c # r \<Rightarrow>
          (if c = 34 then Some ([], r)
           else if c = 92 then
             (case r of
                [] \<Rightarrow> None
              | e # r' \<Rightarrow>
                  (if e = 117 then
                     (case u_escape r' of
                        None \<Rightarrow> None
                      | Some (x, r'') \<Rightarrow> map_option (\<lambda>(t, z). (x # t, z)) (scan_string r''))
                   else
                     (case unescape e of
                        None \<Rightarrow> None
                      | Some x \<Rightarrow> map_option (\<lambda>(t, z). (x # t, z)) (scan_string r'))))
           else if c \<le> 31 then None
           else map_option (\<lambda>(t, z). (c # t, z)) (scan_string r)))"
  by pat_completeness auto
termination
  by (relation "measure length") (auto dest: u_escape_length)

declare scan_string.simps [simp del]

text \<open>\<open>_match_number\<close>: the literal and the rest, with whether it is an integer.\<close>

definition digits_of :: "pystr \<Rightarrow> pystr" where
  "digits_of s = takeWhile is_digit s"

definition scan_frac :: "pystr \<Rightarrow> pystr" where
  "scan_frac s =
     (if startswith s [46] \<and> digits_of (tl s) \<noteq> [] then 46 # digits_of (tl s) else [])"

definition scan_exp :: "pystr \<Rightarrow> pystr" where
  "scan_exp s =
     (case s of
        [] \<Rightarrow> []
      | e # r \<Rightarrow>
          (if e = 101 \<or> e = 69 then
             (let sign = (case r of [] \<Rightarrow> [] | c # _ \<Rightarrow> if c = 43 \<or> c = 45 then [c] else []);
                  ds = digits_of (drop (length sign) r)
              in if ds = [] then [] else e # sign @ ds)
           else []))"

definition scan_int :: "pystr \<Rightarrow> pystr option" where
  "scan_int s =
     (let sign = (if startswith s [45] then [45] else []); r = drop (length sign) s
      in case r of
           [] \<Rightarrow> None
         | c # _ \<Rightarrow>
             (if c = 48 then Some (sign @ [48])
              else if is_digit c then Some (sign @ digits_of r)
              else None))"

definition digit_value :: "pystr \<Rightarrow> int" where
  "digit_value ds = foldl (\<lambda>n d. 10 * n + (d - 48)) 0 ds"

definition int_value :: "pystr \<Rightarrow> int" where
  "int_value s = (if startswith s [45] then - digit_value (tl s) else digit_value s)"

text \<open>\<open>sys.int_info.default_max_str_digits\<close>.\<close>

definition MAX_STR_DIGITS :: nat where
  "MAX_STR_DIGITS = 4300"

definition scan_number :: "pystr \<Rightarrow> json_error + json \<times> pystr" where
  "scan_number s =
     (case scan_int s of
        None \<Rightarrow> Inl JSONDecodeError
      | Some i \<Rightarrow>
          (let r = drop (length i) s; f = scan_frac r; r' = drop (length f) r;
               e = scan_exp r'; lit = i @ f @ e
           in if f = [] \<and> e = [] then
                (if length (filter is_digit i) > MAX_STR_DIGITS then Inl JSONValueError
                 else Inr (JInt (int_value i), r))
              else Inr (JFloat lit, drop (length e) r')))"

definition scan_const :: "pystr \<Rightarrow> (json \<times> pystr) option" where
  "scan_const s =
     (if startswith s (u ''null'') then Some (JNull, drop 4 s)
      else if startswith s (u ''true'') then Some (JBool True, drop 4 s)
      else if startswith s (u ''false'') then Some (JBool False, drop 5 s)
      else if startswith s (u ''NaN'') then Some (JFloat (u ''NaN''), drop 3 s)
      else if startswith s (u ''Infinity'') then Some (JFloat (u ''Infinity''), drop 8 s)
      else if startswith s (u ''-Infinity'') then Some (JFloat (u ''-Infinity''), drop 9 s)
      else None)"

text \<open>
  \<open>scan_once\<close>, \<open>JSONObject\<close> and \<open>JSONArray\<close>. Every loop continues on a strictly shorter
  rest; the guards \<open>length r < length s\<close> only make this visible to the termination proof.
\<close>

function scan_value :: "nat \<Rightarrow> pystr \<Rightarrow> json_error + json \<times> pystr"
  and scan_elems :: "nat \<Rightarrow> pystr \<Rightarrow> json list \<Rightarrow> json_error + json \<times> pystr"
  and scan_pairs :: "nat \<Rightarrow> pystr \<Rightarrow> (pystr \<times> json) list \<Rightarrow> json_error + json \<times> pystr" where
  "scan_value lim s =
     (case s of
        [] \<Rightarrow> Inl JSONDecodeError
      | c # r \<Rightarrow>
          (if c = 34 then
             (case scan_string r of None \<Rightarrow> Inl JSONDecodeError | Some (t, z) \<Rightarrow> Inr (JStr t, z))
           else if c = 123 then
             (case lim of
                0 \<Rightarrow> Inl JSONRecursionError
              | Suc lim' \<Rightarrow>
                  (if startswith (skip_ws r) [125] then Inr (JObj [], tl (skip_ws r))
                   else scan_pairs lim' (skip_ws r) []))
           else if c = 91 then
             (case lim of
                0 \<Rightarrow> Inl JSONRecursionError
              | Suc lim' \<Rightarrow>
                  (if startswith (skip_ws r) [93] then Inr (JList [], tl (skip_ws r))
                   else scan_elems lim' (skip_ws r) []))
           else (case scan_const s of Some vz \<Rightarrow> Inr vz | None \<Rightarrow> scan_number s)))"
| "scan_elems lim s acc =
     (case scan_value lim s of
        Inl e \<Rightarrow> Inl e
      | Inr (v, z) \<Rightarrow>
          (case skip_ws z of
             [] \<Rightarrow> Inl JSONDecodeError
           | c # r \<Rightarrow>
               (if c = 93 then Inr (JList (acc @ [v]), r)
                else if c = 44 \<and> length (skip_ws r) < length s
                then scan_elems lim (skip_ws r) (acc @ [v])
                else Inl JSONDecodeError)))"
| "scan_pairs lim s acc =
     (if \<not> startswith s [34] then Inl JSONDecodeError
      else
        (case scan_string (tl s) of
           None \<Rightarrow> Inl JSONDecodeError
         | Some (k, z) \<Rightarrow>
             (if \<not> startswith (skip_ws z) [58] \<or> \<not> length (skip_ws (tl (skip_ws z))) < length s
              then Inl JSONDecodeError
              else
                (case scan_value lim (skip_ws (tl (skip_ws z))) of
                   Inl e \<Rightarrow> Inl e
                 | Inr (v, z') \<Rightarrow>
                     (case skip_ws z' of
                        [] \<Rightarrow> Inl JSONDecodeError
                      | c # r \<Rightarrow>
                          (if c = 125 then Inr (JObj (AList.update k v acc), r)
                           else if c = 44 \<and> length (skip_ws r) < length s
                           then scan_pairs lim (skip_ws r) (AList.update k v acc)
                           else Inl JSONDecodeError))))))"
  by pat_completeness auto
termination
proof (relation "measures
    [\<lambda>x. case x of Inl (_, s) \<Rightarrow> length s | Inr (Inl (_, s, _)) \<Rightarrow> length s
                 | Inr (Inr (_, s, _)) \<Rightarrow> length s,
     \<lambda>x. case x of Inl _ \<Rightarrow> 0 | Inr _ \<Rightarrow> (1 :: nat)]", goal_cases)
  case 1
  then show ?case by simp
qed (auto simp: skip_ws_def less_Suc_eq_le length_dropWhile_le)

declare scan_value.simps [simp del] scan_elems.simps [simp del] scan_pairs.simps [simp del]

text \<open>\<open>json.loads(s)\<close> on a \<open>str\<close>.\<close>

definition json_loads :: "nat \<Rightarrow> pystr \<Rightarrow> json_error + json" where
  "json_loads lim s =
     (if startswith s [65279] then Inl JSONDecodeError
      else
        (case scan_value lim (skip_ws s) of
           Inl e \<Rightarrow> Inl e
         | Inr (v, z) \<Rightarrow> (if skip_ws z = [] then Inr v else Inl JSONDecodeError)))"


section \<open>Decoded values are well formed\<close>

text \<open>\<open>d.get(key, default)\<close>.\<close>

definition dget :: "('k, 'v) dict \<Rightarrow> 'k \<Rightarrow> 'v \<Rightarrow> 'v" where
  "dget d k v = (case map_of d k of Some x \<Rightarrow> x | None \<Rightarrow> v)"

text \<open>Every object of a decoded value, at any depth, has distinct keys.\<close>

fun json_ok :: "json \<Rightarrow> bool" where
  "json_ok (JList vs) = list_all json_ok vs"
| "json_ok (JObj d) = (distinct_keys d \<and> list_all (\<lambda>(k, v). json_ok v) d)"
| "json_ok _ = True"

lemma json_ok_update:
  assumes "json_ok (JObj d)" and "json_ok v"
  shows "json_ok (JObj (AList.update k v d))"
proof -
  have "set (AList.update k v d) \<subseteq> insert (k, v) (set d)"
    by (induction d) auto
  with assms show ?thesis
    by (force simp: list_all_iff intro: distinct_keys_update)
qed

lemma scan_const_ok: "scan_const s = Some (v, z) \<Longrightarrow> json_ok v"
  by (auto simp: scan_const_def split: if_splits)

lemma scan_number_ok: "scan_number s = Inr (v, z) \<Longrightarrow> json_ok v"
  by (auto simp: scan_number_def Let_def split: if_splits option.splits)

lemma scan_ok:
  "scan_value lim s = Inr (v, z) \<Longrightarrow> json_ok v"
  "scan_elems lim s acc = Inr (v, z) \<Longrightarrow> list_all json_ok acc \<Longrightarrow> json_ok v"
  "scan_pairs lim s d = Inr (v, z) \<Longrightarrow> json_ok (JObj d) \<Longrightarrow> json_ok v"
proof (induction lim s and lim s acc and lim s d arbitrary: v z and v z and v z
    rule: scan_value_scan_elems_scan_pairs.induct)
  case (1 lim s)
  note IH = "1.IH"
  show ?case
    using "1.prems" unfolding scan_value.simps [of lim s]
    using IH
    by (auto simp: distinct_keys_def split: list.splits if_splits option.splits nat.splits prod.splits
        dest: scan_const_ok scan_number_ok)
next
  case (2 lim s acc)
  from "2.prems"(1) obtain w y where w: "scan_value lim s = Inr (w, y)"
    by (subst (asm) scan_elems.simps) (auto split: sum.splits)
  from "2.IH"(1) [OF this] have ok: "json_ok w" .
  from "2.prems" w ok "2.IH"(2) [OF w] show ?case
    by (subst (asm) scan_elems.simps) (auto split: list.splits if_splits)
next
  case (3 lim s d)
  from "3.prems"(1) obtain k y where k: "startswith s [34]" "scan_string (tl s) = Some (k, y)"
    and g: "startswith (skip_ws y) [58]" "length (skip_ws (tl (skip_ws y))) < length s"
    by (subst (asm) scan_pairs.simps) (auto split: if_splits option.splits)
  from "3.prems"(1) k g obtain w x where w: "scan_value lim (skip_ws (tl (skip_ws y))) = Inr (w, x)"
    by (subst (asm) scan_pairs.simps) (auto split: if_splits option.splits sum.splits)
  have ok: "json_ok w" using "3.IH"(1) [OF _ k(2) refl _ w] k g by simp
  have upd: "json_ok (JObj (AList.update k w d))" by (rule json_ok_update [OF "3.prems"(2) ok])
  from "3.prems"(1) k g w obtain c r where cr: "skip_ws x = c # r"
    and res: "(c = 125 \<and> v = JObj (AList.update k w d)) \<or>
      (c = 44 \<and> length (skip_ws r) < length s \<and> scan_pairs lim (skip_ws r) (AList.update k w d) = Inr (v, z))"
    by (subst (asm) scan_pairs.simps) (auto split: if_splits option.splits sum.splits list.splits)
  from res show ?case
  proof
    assume "c = 125 \<and> v = JObj (AList.update k w d)"
    with upd show ?thesis by simp
  next
    assume r: "c = 44 \<and> length (skip_ws r) < length s \<and>
      scan_pairs lim (skip_ws r) (AList.update k w d) = Inr (v, z)"
    show ?thesis
      using "3.IH"(2) [OF _ k(2) refl _ w refl cr] k g r upd by simp
  qed
qed

lemma json_loads_ok: "json_loads lim s = Inr v \<Longrightarrow> json_ok v"
  by (auto simp: json_loads_def split: if_splits sum.splits intro: scan_ok)

end
