(* ===== verification/Keys.thy ===== *)
theory Keys
  imports Json
begin

text \<open>
  \<open>storage/keys.py\<close>: the four shapes of a storage key, the validation of their components
  and the parsers. A key is a \<open>str\<close> with \<open>/\<close>-separated components. The content hash of a
  blob key comes from a decoded manifest, so it is a JSON value that may fail to be a string.
\<close>

section \<open>Validation\<close>

definition MANIFESTS_PREFIX :: pystr where
  "MANIFESTS_PREFIX = u ''manifests/''"

definition DATA_PREFIX :: pystr where
  "DATA_PREFIX = u ''data/''"

definition DEVICES_PREFIX :: pystr where
  "DEVICES_PREFIX = u ''devices/''"

text \<open>The \<open>ValueError\<close>s of the module, by what was wrong.\<close>

datatype key_error = BadSha | EmptyComponent | DotComponent | SeparatorComponent | NullComponent

definition is_hex_lower :: "int \<Rightarrow> bool" where
  "is_hex_lower c \<longleftrightarrow> (48 \<le> c \<and> c \<le> 57) \<or> (97 \<le> c \<and> c \<le> 102)"

text \<open>\<open>_SHA256_RE.fullmatch\<close>: exactly 64 lowercase hexadecimal characters.\<close>

definition sha_shape :: "pystr \<Rightarrow> bool" where
  "sha_shape s \<longleftrightarrow> length s = 64 \<and> list_all is_hex_lower s"

definition validate_hex_sha :: "json \<Rightarrow> key_error + pystr" where
  "validate_hex_sha v =
     (case as_str v of
        None \<Rightarrow> Inl BadSha
      | Some s \<Rightarrow> (if sha_shape s then Inr s else Inl BadSha))"

definition validate_component :: "pystr \<Rightarrow> key_error + unit" where
  "validate_component v =
     (if v = [] then Inl EmptyComponent
      else if v = u ''.'' \<or> v = u ''..'' then Inl DotComponent
      else if 47 \<in> set v \<or> 92 \<in> set v then Inl SeparatorComponent
      else if 0 \<in> set v then Inl NullComponent
      else Inr ())"

section \<open>Constructors\<close>

definition manifest_key :: "pystr \<Rightarrow> key_error + pystr" where
  "manifest_key device_id =
     (case validate_component device_id of
        Inl e \<Rightarrow> Inl e
      | Inr _ \<Rightarrow> Inr (MANIFESTS_PREFIX @ device_id @ u ''/manifest.json.enc''))"

definition blob_key :: "pystr \<Rightarrow> json \<Rightarrow> key_error + pystr" where
  "blob_key device_id sha =
     (case validate_component device_id of
        Inl e \<Rightarrow> Inl e
      | Inr _ \<Rightarrow>
          (case validate_hex_sha sha of
             Inl e \<Rightarrow> Inl e
           | Inr s \<Rightarrow> Inr (DATA_PREFIX @ device_id @ u ''/'' @ s @ u ''.enc'')))"

definition data_prefix :: "pystr \<Rightarrow> key_error + pystr" where
  "data_prefix device_id =
     (case validate_component device_id of
        Inl e \<Rightarrow> Inl e
      | Inr _ \<Rightarrow> Inr (DATA_PREFIX @ device_id @ u ''/''))"

definition device_key :: "pystr \<Rightarrow> key_error + pystr" where
  "device_key device_id =
     (case validate_component device_id of
        Inl e \<Rightarrow> Inl e
      | Inr _ \<Rightarrow> Inr (DEVICES_PREFIX @ device_id @ u ''.json''))"

section \<open>Parsers\<close>

text \<open>\<open>key[len(prefix) : -len(suffix)]\<close>, on a key that has both.\<close>

definition between :: "'a list \<Rightarrow> 'a list \<Rightarrow> 'a list \<Rightarrow> 'a list" where
  "between p q s = take (length s - length q - length p) (drop (length p) s)"

definition parse_device_key :: "pystr \<Rightarrow> pystr option" where
  "parse_device_key key =
     (if \<not> startswith key DEVICES_PREFIX \<or> \<not> endswith key (u ''.json'') then None
      else
        (let device_id = between DEVICES_PREFIX (u ''.json'') key
         in case validate_component device_id of Inl _ \<Rightarrow> None | Inr _ \<Rightarrow> Some device_id))"

definition parse_blob_key :: "pystr \<Rightarrow> (pystr \<times> pystr) option" where
  "parse_blob_key key =
     (if \<not> startswith key DATA_PREFIX \<or> \<not> endswith key (u ''.enc'') then None
      else
        (case split_on 47 key of
           [_, device_id, leaf] \<Rightarrow>
             (if device_id = [] then None
              else
                (let sha = take (length leaf - 4) leaf
                 in if sha_shape sha then Some (device_id, sha) else None))
         | _ \<Rightarrow> None))"

section \<open>Laws\<close>

named_theorems key_defs

declare MANIFESTS_PREFIX_def [key_defs] DATA_PREFIX_def [key_defs] DEVICES_PREFIX_def [key_defs]

lemma validate_component_Inr_iff:
  "validate_component v = Inr () \<longleftrightarrow>
     v \<noteq> [] \<and> v \<noteq> u ''.'' \<and> v \<noteq> u ''..'' \<and> 47 \<notin> set v \<and> 92 \<notin> set v \<and> 0 \<notin> set v"
  by (auto simp: validate_component_def)

lemma validate_component_cases:
  "(\<exists>e. validate_component v = Inl e) \<or> validate_component v = Inr ()"
  by (cases "validate_component v") auto

lemma sha_shape_no_sep: "sha_shape s \<Longrightarrow> 47 \<notin> set s"
  by (auto simp: sha_shape_def list_all_iff is_hex_lower_def)

lemma sha_shape_ne: "sha_shape s \<Longrightarrow> s \<noteq> []"
  by (auto simp: sha_shape_def)

lemma blob_key_Inr_iff:
  "blob_key d v = Inr k \<longleftrightarrow>
     validate_component d = Inr () \<and> (\<exists>s. v = JStr s \<and> sha_shape s \<and>
       k = DATA_PREFIX @ d @ u ''/'' @ s @ u ''.enc'')"
  by (auto simp: blob_key_def validate_hex_sha_def split: sum.splits option.splits if_splits)

lemma data_prefix_Inr_iff:
  "data_prefix d = Inr k \<longleftrightarrow> validate_component d = Inr () \<and> k = DATA_PREFIX @ d @ u ''/''"
  by (auto simp: data_prefix_def split: sum.splits)

lemma manifest_key_Inr_iff:
  "manifest_key d = Inr k \<longleftrightarrow>
     validate_component d = Inr () \<and> k = MANIFESTS_PREFIX @ d @ u ''/manifest.json.enc''"
  by (auto simp: manifest_key_def split: sum.splits)

lemma device_key_Inr_iff:
  "device_key d = Inr k \<longleftrightarrow>
     validate_component d = Inr () \<and> k = DEVICES_PREFIX @ d @ u ''.json''"
  by (auto simp: device_key_def split: sum.splits)

lemma between_append [simp]: "between p q (p @ x @ q) = x"
  by (simp add: between_def)

lemma data_key_sep:
  "DATA_PREFIX @ d @ u ''/'' @ leaf = u ''data'' @ 47 # d @ 47 # leaf"
  by (simp add: DATA_PREFIX_def u_def)

lemma split_data_key:
  assumes "47 \<notin> set d" and "47 \<notin> set leaf"
  shows "split_on 47 (DATA_PREFIX @ d @ u ''/'' @ leaf) = [u ''data'', d, leaf]"
proof -
  have "split_on 47 (u ''data'') = [u ''data'']"
    by (rule split_on_id) (simp add: u_def)
  then show ?thesis
    unfolding data_key_sep using assms by (simp add: split_on_append split_on_id)
qed

text \<open>A parsed blob key is the constructor's key for the same device and hash.\<close>

lemma parse_blob_key_shape:
  assumes "parse_blob_key k = Some (d, s)"
  shows "k = DATA_PREFIX @ d @ u ''/'' @ s @ u ''.enc'' \<and> d \<noteq> [] \<and> 47 \<notin> set d \<and> sha_shape s"
proof -
  from assms have pre: "startswith k DATA_PREFIX" and suf: "endswith k (u ''.enc'')"
    by (auto simp: parse_blob_key_def split: if_splits)
  from assms obtain x leaf where sp: "split_on 47 k = [x, d, leaf]" and d: "d \<noteq> []"
    and s: "s = take (length leaf - 4) leaf" and sh: "sha_shape s"
    by (auto simp: parse_blob_key_def Let_def split: if_splits list.splits)
  have k: "k = x @ 47 # d @ 47 # leaf"
    using join_split [of 47 k] by (simp add: sp)
  have nosep: "47 \<notin> set x" "47 \<notin> set d" "47 \<notin> set leaf"
    using split_on_no_sep [of _ 47 k] by (auto simp: sp)
  from pre obtain t where t: "k = u ''data'' @ 47 # t"
    by (auto simp: startswith_iff DATA_PREFIX_def u_def)
  have "split_on 47 k = u ''data'' # split_on 47 t"
    unfolding t by (simp add: split_on_append split_on_id u_def)
  with sp have x: "x = u ''data''" by simp
  from suf obtain y where y: "k = y @ u ''.enc''" by (auto simp: endswith_iff)
  have "length leaf - 4 = 64" using sh s by (simp add: sha_shape_def)
  then have len: "length leaf = 68" by arith
  then have s64: "s = take 64 leaf" using s by simp
  define w where "w = drop 64 leaf"
  have leaf: "leaf = s @ w" using s64 by (simp add: w_def)
  have "length w = length (u ''.enc'')" using len by (simp add: w_def)
  moreover have "(x @ 47 # d @ 47 # s) @ w = y @ u ''.enc''" using k y leaf by simp
  ultimately have "w = u ''.enc''" by (metis append_eq_append_conv)
  then show ?thesis
    using k x d nosep(2) sh leaf data_key_sep by simp
qed

lemma parse_blob_key_blob_key:
  assumes "blob_key d (JStr s) = Inr k"
  shows "parse_blob_key k = Some (d, s)"
proof -
  from assms have d: "validate_component d = Inr ()" and s: "sha_shape s"
    and k: "k = DATA_PREFIX @ d @ u ''/'' @ s @ u ''.enc''"
    by (auto simp: blob_key_Inr_iff)
  have "47 \<notin> set (s @ u ''.enc'')" using sha_shape_no_sep [OF s] by (simp add: u_def)
  moreover have "47 \<notin> set d" and "d \<noteq> []" using d by (auto simp: validate_component_Inr_iff)
  ultimately have "split_on 47 k = [u ''data'', d, s @ u ''.enc'']"
    unfolding k by (simp add: split_data_key)
  moreover have "endswith k (u ''.enc'')"
    unfolding k endswith_iff by (intro exI [of _ "DATA_PREFIX @ d @ u ''/'' @ s"]) simp
  moreover have "startswith k DATA_PREFIX" unfolding k by simp
  ultimately show ?thesis using s \<open>d \<noteq> []\<close> by (simp add: parse_blob_key_def)
qed

lemma parse_device_key_device_key:
  assumes "device_key d = Inr k"
  shows "parse_device_key k = Some d"
proof -
  from assms have d: "validate_component d = Inr ()"
    and k: "k = DEVICES_PREFIX @ d @ u ''.json''"
    by (auto simp: device_key_Inr_iff)
  have "endswith k (u ''.json'')"
    unfolding k endswith_iff by (intro exI [of _ "DEVICES_PREFIX @ d"]) simp
  with d show ?thesis by (simp add: parse_device_key_def k)
qed

lemma endswith_startswith_between:
  assumes "startswith k p" and "endswith k q" and "length p + length q \<le> length k"
  shows "k = p @ between p q k @ q"
proof -
  from assms(1) obtain t where t: "k = p @ t" by (auto simp: startswith_iff)
  from assms(2) obtain y where y: "k = y @ q" by (auto simp: endswith_iff)
  have "length q \<le> length t" using assms(3) t by simp
  then have "t = take (length t - length q) t @ drop (length t - length q) t" by simp
  moreover have "drop (length t - length q) t = q"
  proof -
    have "drop (length k - length q) k = q" using y by simp
    then show ?thesis using t \<open>length q \<le> length t\<close> by simp
  qed
  ultimately have "t = take (length t - length q) t @ q" by simp
  moreover have "between p q k = take (length t - length q) t"
    by (simp add: between_def t)
  ultimately show ?thesis using t by simp
qed

text \<open>\<open>devices/\<close> and \<open>.json\<close> cannot overlap: the shorter key ends in a slash.\<close>

lemma device_key_long:
  assumes "startswith k DEVICES_PREFIX" and "endswith k (u ''.json'')"
  shows "length DEVICES_PREFIX + length (u ''.json'') \<le> length k"
proof (rule ccontr)
  assume short: "\<not> ?thesis"
  from assms(1) obtain t where t: "k = DEVICES_PREFIX @ t" by (auto simp: startswith_iff)
  from assms(2) obtain y where y: "k = y @ u ''.json''" by (auto simp: endswith_iff)
  have lt: "length t < 5" using short t by simp
  have "k ! 7 = 47" using t by (simp add: DEVICES_PREFIX_def u_def nth_append)
  moreover have "k ! 7 = u ''.json'' ! (7 - length y)"
  proof -
    have "length y = 3 + length t"
      using arg_cong [OF y, of length] t by (simp add: DEVICES_PREFIX_def)
    then show ?thesis using lt y by (simp add: nth_append)
  qed
  moreover have "u ''.json'' ! i \<noteq> 47" if "i < 5" for i
  proof -
    have "u ''.json'' ! i \<in> set (u ''.json'')" using that by (intro nth_mem) simp
    then show ?thesis by (auto simp: u_def)
  qed
  moreover have "7 - length y < 5"
    using arg_cong [OF y, of length] t by (simp add: DEVICES_PREFIX_def)
  ultimately show False by metis
qed

lemma parse_device_key_iff:
  "parse_device_key k = Some d \<longleftrightarrow> device_key d = Inr k"
proof
  assume p: "parse_device_key k = Some d"
  then have pre: "startswith k DEVICES_PREFIX" and suf: "endswith k (u ''.json'')"
    and d: "d = between DEVICES_PREFIX (u ''.json'') k" and v: "validate_component d = Inr ()"
    by (auto simp: parse_device_key_def Let_def split: if_splits sum.splits)
  have "k = DEVICES_PREFIX @ d @ u ''.json''"
    unfolding d by (rule endswith_startswith_between [OF pre suf device_key_long [OF pre suf]])
  with v show "device_key d = Inr k" by (simp add: device_key_Inr_iff)
qed (rule parse_device_key_device_key)

section \<open>Properties\<close>

text \<open>A blob key round-trips: the parser accepts exactly the keys the constructor mints, for
  every device id the constructor accepts, and returns the id and the hash the key was built
  from.\<close>

theorem blob_key_roundtrip:
  assumes "validate_component d = Inr ()"
  shows "parse_blob_key k = Some (d, s) \<longleftrightarrow> blob_key d (JStr s) = Inr k"
proof
  assume "parse_blob_key k = Some (d, s)"
  from parse_blob_key_shape [OF this] assms show "blob_key d (JStr s) = Inr k"
    by (simp add: blob_key_Inr_iff)
qed (rule parse_blob_key_blob_key)

theorem blob_key_roundtrip_witness:
  "parse_blob_key (u ''data/mac1/'' @ replicate 64 97 @ u ''.enc'') = Some (u ''mac1'', replicate 64 97)"
  by (subst blob_key_roundtrip)
    (simp_all add: blob_key_Inr_iff validate_component_def sha_shape_def is_hex_lower_def
      DATA_PREFIX_def u_def list_all_iff)

text \<open>C5. No component a key is built from escapes its place: a minted key splits at \<open>/\<close> into
  exactly its namespace, the one device component (neither empty, \<open>.\<close> nor \<open>..\<close>, and without
  a separator of either kind or a NUL) and its leaf.\<close>

theorem minted_keys_confined:
  "(blob_key d v = Inr k \<longrightarrow>
      (\<exists>s. split_on 47 k = [u ''data'', d, s @ u ''.enc''] \<and> sha_shape s)) \<and>
   (manifest_key d = Inr k \<longrightarrow> split_on 47 k = [u ''manifests'', d, u ''manifest.json.enc'']) \<and>
   (device_key d = Inr k \<longrightarrow> split_on 47 k = [u ''devices'', d @ u ''.json'']) \<and>
   (blob_key d v = Inr k \<or> manifest_key d = Inr k \<or> device_key d = Inr k \<longrightarrow>
      d \<noteq> [] \<and> d \<noteq> u ''.'' \<and> d \<noteq> u ''..'' \<and> 92 \<notin> set d \<and> 0 \<notin> set d)"
proof -
  have nosep: "47 \<notin> set d" if "validate_component d = Inr ()"
    using that by (simp add: validate_component_Inr_iff)
  have 1: "\<exists>s. split_on 47 k = [u ''data'', d, s @ u ''.enc''] \<and> sha_shape s"
    if b: "blob_key d v = Inr k"
  proof -
    from b obtain s where d: "validate_component d = Inr ()" and s: "sha_shape s"
      and k: "k = DATA_PREFIX @ d @ u ''/'' @ s @ u ''.enc''"
      by (auto simp: blob_key_Inr_iff)
    have "47 \<notin> set (s @ u ''.enc'')" using sha_shape_no_sep [OF s] by (simp add: u_def)
    with s nosep [OF d] show ?thesis unfolding k by (intro exI [of _ s]) (simp add: split_data_key)
  qed
  have 2: "split_on 47 k = [u ''manifests'', d, u ''manifest.json.enc'']" if m: "manifest_key d = Inr k"
  proof -
    from m have d: "validate_component d = Inr ()"
      and k: "k = u ''manifests'' @ 47 # d @ 47 # u ''manifest.json.enc''"
      by (auto simp: manifest_key_Inr_iff MANIFESTS_PREFIX_def u_def)
    have "47 \<notin> set (u ''manifests'')" "47 \<notin> set (u ''manifest.json.enc'')" by (simp_all add: u_def)
    with nosep [OF d] show ?thesis unfolding k by (simp add: split_on_append split_on_id)
  qed
  have 3: "split_on 47 k = [u ''devices'', d @ u ''.json'']" if m: "device_key d = Inr k"
  proof -
    from m have d: "validate_component d = Inr ()"
      and k: "k = u ''devices'' @ 47 # d @ u ''.json''"
      by (auto simp: device_key_Inr_iff DEVICES_PREFIX_def u_def)
    have "47 \<notin> set (u ''devices'')" "47 \<notin> set (d @ u ''.json'')"
      using nosep [OF d] by (simp_all add: u_def)
    then show ?thesis unfolding k by (simp add: split_on_append split_on_id)
  qed
  show ?thesis using 1 2 3
    by (auto simp: blob_key_Inr_iff manifest_key_Inr_iff device_key_Inr_iff validate_component_Inr_iff)
qed

theorem minted_keys_confined_witness:
  "split_on 47 (u ''manifests/mac1/manifest.json.enc'')
     = [u ''manifests'', u ''mac1'', u ''manifest.json.enc'']"
proof -
  have "manifest_key (u ''mac1'') = Inr (u ''manifests/mac1/manifest.json.enc'')"
    by (simp add: manifest_key_Inr_iff validate_component_def MANIFESTS_PREFIX_def u_def)
  with minted_keys_confined [of "u ''mac1''"] show ?thesis by blast
qed

text \<open>Devices do not share blobs: a listing under the data prefix of one device returns a
  minted blob key only when the key is that device's, even where one id is a prefix of the other.\<close>

theorem data_prefix_separates:
  assumes "data_prefix d = Inr p" and "blob_key d' v = Inr k"
  shows "startswith k p \<longleftrightarrow> d' = d"
proof
  assume st: "startswith k p"
  from assms obtain s where p: "p = DATA_PREFIX @ d @ u ''/''"
    and k: "k = DATA_PREFIX @ d' @ u ''/'' @ s @ u ''.enc''" and s: "sha_shape s"
    and v: "validate_component d = Inr ()" "validate_component d' = Inr ()"
    by (auto simp: data_prefix_Inr_iff blob_key_Inr_iff)
  have ns: "47 \<notin> set d" "47 \<notin> set d'" using v by (simp_all add: validate_component_Inr_iff)
  from st p obtain t where t: "k = DATA_PREFIX @ d @ u ''/'' @ t" by (auto simp: startswith_iff)
  have "d' @ 47 # (s @ u ''.enc'') = d @ 47 # t" using k t by (simp add: u_def)
  then have "takeWhile (\<lambda>c. c \<noteq> 47) (d' @ 47 # (s @ u ''.enc'')) = takeWhile (\<lambda>c. c \<noteq> 47) (d @ 47 # t)"
    by simp
  moreover have "takeWhile (\<lambda>c. c \<noteq> 47) (x @ 47 # y) = x" if "47 \<notin> set x" for x y :: pystr
    using that by (induction x) auto
  ultimately show "d' = d" using ns by metis
next
  assume "d' = d"
  with assms show "startswith k p"
    by (auto simp: data_prefix_Inr_iff blob_key_Inr_iff startswith_iff)
qed

theorem data_prefix_separates_witness:
  "\<not> startswith (u ''data/mac10/'' @ replicate 64 97 @ u ''.enc'') (u ''data/mac1/'')"
proof -
  have 1: "data_prefix (u ''mac1'') = Inr (u ''data/mac1/'')"
    by (simp add: data_prefix_Inr_iff validate_component_def DATA_PREFIX_def u_def)
  have 2: "blob_key (u ''mac10'') (JStr (replicate 64 97))
      = Inr (u ''data/mac10/'' @ replicate 64 97 @ u ''.enc'')"
    by (simp add: blob_key_Inr_iff validate_component_def sha_shape_def is_hex_lower_def
        DATA_PREFIX_def u_def list_all_iff)
  from data_prefix_separates [OF 1 2] show ?thesis by simp
qed

end
