(* ===== verification/Utf8.thy ===== *)
theory Utf8
  imports Prelude
begin

text \<open>
  The UTF-8 codec of the interpreter, as the source uses it: \<open>str.encode("utf-8")\<close>, which
  refuses surrogates; the strict decoder, with the \<open>surrogatepass\<close> variant of
  \<open>json.loads\<close>; and the \<open>errors="replace"\<close> decoder, which turns every maximal ill-formed
  prefix into one U+FFFD. All decoders run the same scanning step. Laws: encoding is inverse
  to strict decoding both ways, and the replacing decoder agrees with the strict one on
  well-formed input.
\<close>

section \<open>One step of the decoder\<close>

definition cont_byte :: "int \<Rightarrow> bool" where
  "cont_byte b \<longleftrightarrow> 128 \<le> b \<and> b \<le> 191"

text \<open>The range of the second byte depends on the lead byte: no overlong forms, nothing above
  U+10FFFF, and no surrogates unless they are passed.\<close>

definition second_byte :: "bool \<Rightarrow> int \<Rightarrow> int \<Rightarrow> bool" where
  "second_byte pass lead b \<longleftrightarrow>
     (if lead = 224 then 160 \<le> b \<and> b \<le> 191
      else if lead = 237 \<and> \<not> pass then 128 \<le> b \<and> b \<le> 159
      else if lead = 240 then 144 \<le> b \<and> b \<le> 191
      else if lead = 244 then 128 \<le> b \<and> b \<le> 143
      else cont_byte b)"

text \<open>The step on a non-empty input: how many bytes it consumes and the code point, or \<open>None\<close>
  for an ill-formed prefix of that length.\<close>

definition step2 :: "int \<Rightarrow> int list \<Rightarrow> nat \<times> int option" where
  "step2 a s =
     (case s of
        b # _ \<Rightarrow> (if cont_byte b then (2, Some ((a - 192) * 64 + (b - 128))) else (1, None))
      | [] \<Rightarrow> (1, None))"

definition step3 :: "bool \<Rightarrow> int \<Rightarrow> int list \<Rightarrow> nat \<times> int option" where
  "step3 pass a s =
     (case s of
        [] \<Rightarrow> (1, None)
      | b # r \<Rightarrow>
          (if \<not> second_byte pass a b then (1, None)
           else
             (case r of
                c # _ \<Rightarrow>
                  (if cont_byte c
                   then (3, Some ((a - 224) * 4096 + (b - 128) * 64 + (c - 128)))
                   else (2, None))
              | [] \<Rightarrow> (2, None))))"

definition step4 :: "int \<Rightarrow> int list \<Rightarrow> nat \<times> int option" where
  "step4 a s =
     (case s of
        [] \<Rightarrow> (1, None)
      | b # r \<Rightarrow>
          (if \<not> second_byte True a b then (1, None)
           else
             (case r of
                [] \<Rightarrow> (2, None)
              | c # r' \<Rightarrow>
                  (if \<not> cont_byte c then (2, None)
                   else
                     (case r' of
                        d # _ \<Rightarrow>
                          (if cont_byte d
                           then (4, Some ((a - 240) * 262144 + (b - 128) * 4096 + (c - 128) * 64 + (d - 128)))
                           else (3, None))
                      | [] \<Rightarrow> (3, None))))))"

definition utf8_step :: "bool \<Rightarrow> int \<Rightarrow> int list \<Rightarrow> nat \<times> int option" where
  "utf8_step pass a s =
     (if a \<le> 127 then (1, Some a)
      else if 194 \<le> a \<and> a \<le> 223 then step2 a s
      else if 224 \<le> a \<and> a \<le> 239 then step3 pass a s
      else if 240 \<le> a \<and> a \<le> 244 then step4 a s
      else (1, None))"

lemma utf8_step_pos: "0 < fst (utf8_step pass a s)"
  by (auto simp: utf8_step_def step2_def step3_def step4_def split: list.splits)

section \<open>The decoders\<close>

function decode_strict_ints :: "bool \<Rightarrow> int list \<Rightarrow> pystr option" where
  "decode_strict_ints pass [] = Some []"
| "decode_strict_ints pass (a # s) =
     (case utf8_step pass a s of
        (n, Some c) \<Rightarrow> map_option ((#) c) (decode_strict_ints pass (drop (n - 1) s))
      | (_, None) \<Rightarrow> None)"
  by pat_completeness auto
termination
  by (relation "measure (\<lambda>(_, s). length s)") auto

function decode_replace_ints :: "int list \<Rightarrow> pystr" where
  "decode_replace_ints [] = []"
| "decode_replace_ints (a # s) =
     (case utf8_step False a s of
        (n, c) \<Rightarrow> (case c of Some x \<Rightarrow> x | None \<Rightarrow> 65533) # decode_replace_ints (drop (n - 1) s))"
  by pat_completeness auto
termination
  by (relation "measure length") auto

definition byte_ints :: "bytes \<Rightarrow> int list" where
  "byte_ints b = map uint b"

text \<open>\<open>b.decode("utf-8")\<close>, \<open>b.decode("utf-8", "surrogatepass")\<close> and
  \<open>b.decode("utf-8", errors="replace")\<close>.\<close>

definition decode_utf8 :: "bytes \<Rightarrow> pystr option" where
  "decode_utf8 b = decode_strict_ints False (byte_ints b)"

definition decode_utf8_pass :: "bytes \<Rightarrow> pystr option" where
  "decode_utf8_pass b = decode_strict_ints True (byte_ints b)"

definition decode_utf8_replace :: "bytes \<Rightarrow> pystr" where
  "decode_utf8_replace b = decode_replace_ints (byte_ints b)"

section \<open>The encoder\<close>

definition is_scalar :: "int \<Rightarrow> bool" where
  "is_scalar c \<longleftrightarrow> 0 \<le> c \<and> c \<le> 1114111 \<and> \<not> (55296 \<le> c \<and> c \<le> 57343)"

definition encode_char :: "int \<Rightarrow> int list" where
  "encode_char c =
     (if c \<le> 127 then [c]
      else if c \<le> 2047 then [192 + c div 64, 128 + c mod 64]
      else if c \<le> 65535 then [224 + c div 4096, 128 + (c div 64) mod 64, 128 + c mod 64]
      else [240 + c div 262144, 128 + (c div 4096) mod 64, 128 + (c div 64) mod 64, 128 + c mod 64])"

definition encode_ints :: "pystr \<Rightarrow> int list" where
  "encode_ints s = concat (map encode_char s)"

text \<open>\<open>s.encode("utf-8")\<close>; \<open>None\<close> is \<open>UnicodeEncodeError\<close>.\<close>

definition encode_utf8 :: "pystr \<Rightarrow> bytes option" where
  "encode_utf8 s = (if list_all is_scalar s then Some (map of_int (encode_ints s)) else None)"

section \<open>Laws\<close>

lemma encode_char_ne [simp]: "encode_char c \<noteq> []"
  by (simp add: encode_char_def)

lemma encode_char_byte: "is_scalar c \<Longrightarrow> b \<in> set (encode_char c) \<Longrightarrow> 0 \<le> b \<and> b < 256"
  by (auto simp: encode_char_def is_scalar_def split: if_splits)

lemma digit64:
  fixes q r :: int
  assumes "0 \<le> r" "r < 64"
  shows "(q * 64 + r) div 64 = q" and "(q * 64 + r) mod 64 = r"
  using assms by simp_all

lemma div_chain:
  fixes c :: int
  shows "c div 4096 = c div 64 div 64" and "c div 262144 = c div 64 div 64 div 64"
  by (simp_all add: zdiv_zmult2_eq [symmetric])

lemma mod64: "0 \<le> (c :: int) mod 64" "c mod 64 \<le> 63" "c = 64 * (c div 64) + c mod 64"
  by (simp, presburger, simp)

text \<open>The step reads back one encoded character, whatever follows.\<close>

lemma utf8_step_encode:
  assumes "is_scalar c"
  shows "utf8_step False (hd (encode_char c)) (tl (encode_char c) @ s) = (length (encode_char c), Some c)"
proof -
  have c: "0 \<le> c" "c \<le> 1114111" "\<not> (55296 \<le> c \<and> c \<le> 57343)"
    using assms by (auto simp: is_scalar_def)
  consider (1) "c \<le> 127" | (2) "127 < c" "c \<le> 2047" | (3) "2047 < c" "c \<le> 65535" | (4) "65535 < c"
    by linarith
  then show ?thesis
  proof cases
    case 1
    then show ?thesis by (simp add: encode_char_def utf8_step_def)
  next
    case 2
    define p r where "p = c div 64" and "r = c mod 64"
    have cc: "c = 64 * p + r" unfolding p_def r_def by presburger
    have "2 \<le> p" "p \<le> 31" "0 \<le> r" "r \<le> 63" using 2 unfolding p_def r_def by presburger+
    moreover have "encode_char c = [192 + p, 128 + r]" using 2 by (simp add: encode_char_def p_def r_def)
    ultimately show ?thesis
      using 2 cc by (simp add: utf8_step_def step2_def cont_byte_def)
  next
    case 3
    define p q r where "p = c div 4096" and "q = (c div 64) mod 64" and "r = c mod 64"
    have cc: "c = 4096 * p + 64 * q + r"
      unfolding p_def q_def r_def div_chain using mod64 [of c] mod64 [of "c div 64"] by linarith
    have b0: "0 \<le> q" "q \<le> 63" "0 \<le> r" "r \<le> 63"
      unfolding q_def r_def using mod64 by blast+
    then have b: "0 \<le> p" "p \<le> 15" "0 \<le> q" "q \<le> 63" "0 \<le> r" "r \<le> 63"
      using 3 cc by linarith+
    have "second_byte False (224 + p) (128 + q)"
      using cc b 3 c(3) by (auto simp: second_byte_def cont_byte_def)
    moreover have "encode_char c = [224 + p, 128 + q, 128 + r]"
      using 3 by (simp add: encode_char_def p_def q_def r_def)
    ultimately show ?thesis
      using b cc by (simp add: utf8_step_def step3_def cont_byte_def)
  next
    case 4
    define p q r t where "p = c div 262144" and "q = (c div 4096) mod 64"
      and "r = (c div 64) mod 64" and "t = c mod 64"
    have cc: "c = 262144 * p + 4096 * q + 64 * r + t"
      unfolding p_def q_def r_def t_def div_chain
      using mod64 [of c] mod64 [of "c div 64"] mod64 [of "c div 64 div 64"] by linarith
    have b0: "0 \<le> q" "q \<le> 63" "0 \<le> r" "r \<le> 63" "0 \<le> t" "t \<le> 63"
      unfolding q_def r_def t_def using mod64 by blast+
    then have b: "0 \<le> p" "p \<le> 4" "0 \<le> q" "q \<le> 63" "0 \<le> r" "r \<le> 63" "0 \<le> t" "t \<le> 63"
      using 4 c cc by linarith+
    have "second_byte True (240 + p) (128 + q)"
      using cc b 4 c(2) by (auto simp: second_byte_def cont_byte_def)
    moreover have "encode_char c = [240 + p, 128 + q, 128 + r, 128 + t]"
      using 4 by (simp add: encode_char_def p_def q_def r_def t_def)
    ultimately show ?thesis
      using b cc by (simp add: utf8_step_def step4_def cont_byte_def)
  qed
qed

lemma encode_char_split: "encode_char c @ s = hd (encode_char c) # (tl (encode_char c) @ s)"
  by (cases "encode_char c") auto

lemma decode_strict_encode:
  "list_all is_scalar s \<Longrightarrow> decode_strict_ints False (encode_ints s) = Some s"
proof (induction s)
  case Nil
  then show ?case by (simp add: encode_ints_def)
next
  case (Cons c s)
  have "encode_ints (c # s) = hd (encode_char c) # (tl (encode_char c) @ encode_ints s)"
    by (simp add: encode_ints_def encode_char_split [symmetric])
  with Cons utf8_step_encode [of c "encode_ints s"] show ?case by simp
qed

lemma decode_replace_strict:
  "decode_strict_ints False b = Some s \<Longrightarrow> decode_replace_ints b = s"
proof (induction False b arbitrary: s rule: decode_strict_ints.induct)
  case 1
  then show ?case by simp
next
  case (2 a t)
  obtain n c where st: "utf8_step False a t = (n, c)" by (cases "utf8_step False a t")
  from 2 st show ?case by (cases c) auto
qed

text \<open>Conversely, a successful step consumed the encoding of its code point.\<close>

lemma code2:
  fixes a b c :: int
  assumes a: "194 \<le> a" "a \<le> 223" and b: "128 \<le> b" "b \<le> 191"
    and c: "c = (a - 192) * 64 + (b - 128)"
  shows "is_scalar c" and "encode_char c = [a, b]"
proof -
  have r: "127 < c" "c \<le> 2047" using a b c by simp_all
  have d: "c div 64 = a - 192" "c mod 64 = b - 128"
    unfolding c using b by ((intro digit64; simp)+)
  show "is_scalar c" using r by (simp add: is_scalar_def)
  show "encode_char c = [a, b]" using r d by (simp add: encode_char_def)
qed

lemma code3:
  fixes a b d c :: int
  assumes a: "224 \<le> a" "a \<le> 239" and b: "second_byte False a b" and d: "cont_byte d"
    and c: "c = (a - 224) * 4096 + (b - 128) * 64 + (d - 128)"
  shows "is_scalar c" and "encode_char c = [a, b, d]"
proof -
  have bb: "128 \<le> b" "b \<le> 191" "a = 224 \<longrightarrow> 160 \<le> b" "a = 237 \<longrightarrow> b \<le> 159"
    using b by (auto simp: second_byte_def cont_byte_def split: if_splits)
  have dd: "128 \<le> d" "d \<le> 191" using d by (auto simp: cont_byte_def)
  have c': "c = ((a - 224) * 64 + (b - 128)) * 64 + (d - 128)" unfolding c by simp
  have d1: "c div 64 = (a - 224) * 64 + (b - 128)" "c mod 64 = d - 128"
    unfolding c' using dd by (intro digit64; simp)+
  have d2: "c div 64 div 64 = a - 224" "c div 64 mod 64 = b - 128"
    unfolding d1 using bb by (intro digit64; simp)+
  have r1: "2047 < c" using bb dd a c by (cases "a = 224") auto
  have r2: "c \<le> 65535" using bb dd a c by auto
  consider "a \<le> 236" | "a = 237" | "238 \<le> a" by linarith
  then have r3: "c < 55296 \<or> 57343 < c"
    using bb dd c by cases auto
  show "is_scalar c" using r1 r2 r3 by (auto simp: is_scalar_def)
  have "224 + c div 4096 = a" unfolding div_chain d2 by simp
  then show "encode_char c = [a, b, d]" using r1 r2 d1(2) d2(2) by (simp add: encode_char_def)
qed

lemma code4:
  fixes a b d e c :: int
  assumes a: "240 \<le> a" "a \<le> 244" and b: "second_byte True a b" and d: "cont_byte d"
    and e: "cont_byte e"
    and c: "c = (a - 240) * 262144 + (b - 128) * 4096 + (d - 128) * 64 + (e - 128)"
  shows "is_scalar c" and "encode_char c = [a, b, d, e]"
proof -
  have bb: "128 \<le> b" "b \<le> 191" "a = 240 \<longrightarrow> 144 \<le> b" "a = 244 \<longrightarrow> b \<le> 143"
    using b a by (auto simp: second_byte_def cont_byte_def split: if_splits)
  have dd: "128 \<le> d" "d \<le> 191" "128 \<le> e" "e \<le> 191"
    using d e by (auto simp: cont_byte_def)
  have c': "c = (((a - 240) * 64 + (b - 128)) * 64 + (d - 128)) * 64 + (e - 128)" unfolding c by simp
  have d1: "c div 64 = ((a - 240) * 64 + (b - 128)) * 64 + (d - 128)" "c mod 64 = e - 128"
    unfolding c' using dd by (intro digit64; simp)+
  have d2: "c div 64 div 64 = (a - 240) * 64 + (b - 128)" "c div 64 mod 64 = d - 128"
    unfolding d1 using dd by (intro digit64; simp)+
  have d3: "c div 64 div 64 div 64 = a - 240" "c div 64 div 64 mod 64 = b - 128"
    unfolding d2 using bb by (intro digit64; simp)+
  have ce: "c = 262144 * a + 4096 * b + 64 * d + e - 63447168" unfolding c by simp
  have r1: "65535 < c"
  proof (cases "a = 240")
    case True
    with bb(3) have "144 \<le> b" by simp
    with True dd ce show ?thesis by linarith
  next
    case False
    with a have "241 \<le> a" by linarith
    with bb(1) dd ce show ?thesis by linarith
  qed
  have r2: "c \<le> 1114111"
  proof (cases "a = 244")
    case True
    with bb(4) have "b \<le> 143" by simp
    with True dd ce show ?thesis by linarith
  next
    case False
    with a have "a \<le> 243" by linarith
    with bb(2) dd ce show ?thesis by linarith
  qed
  show "is_scalar c" using r1 r2 by (simp add: is_scalar_def)
  have n: "\<not> c \<le> 127" "\<not> c \<le> 2047" "\<not> c \<le> 65535" using r1 by linarith+
  have "240 + c div 262144 = a" "128 + c div 4096 mod 64 = b" unfolding div_chain d3 by simp_all
  moreover have "128 + c div 64 mod 64 = d" "128 + c mod 64 = e" unfolding d2(2) d1(2) by simp_all
  ultimately show "encode_char c = [a, b, d, e]" by (simp only: encode_char_def n if_False)
qed

lemma utf8_step_Some:
  assumes "utf8_step False a s = (n, Some c)" and "0 \<le> a"
  shows "is_scalar c \<and> a # s = encode_char c @ drop (n - 1) s"
proof -
  consider (1) "a \<le> 127" | (2) "194 \<le> a" "a \<le> 223" | (3) "224 \<le> a" "a \<le> 239" | (4) "240 \<le> a" "a \<le> 244"
    using assms(1) by (auto simp: utf8_step_def split: if_splits)
  then show ?thesis
  proof cases
    case 1
    with assms show ?thesis by (simp add: utf8_step_def encode_char_def is_scalar_def)
  next
    case 2
    with assms(1) obtain b r where s: "s = b # r" and b: "cont_byte b"
      and n: "n = 2" and c: "c = (a - 192) * 64 + (b - 128)"
      by (auto simp: utf8_step_def step2_def split: list.splits if_splits)
    from b have "128 \<le> b" "b \<le> 191" by (auto simp: cont_byte_def)
    from code2 [OF 2 this c] s n show ?thesis by simp
  next
    case 3
    with assms(1) obtain b d r where s: "s = b # d # r" and b: "second_byte False a b"
      and d: "cont_byte d" and n: "n = 3" and c: "c = (a - 224) * 4096 + (b - 128) * 64 + (d - 128)"
      by (auto simp: utf8_step_def step3_def split: list.splits if_splits)
    from code3 [OF 3 b d c] s n show ?thesis by simp
  next
    case 4
    with assms(1) obtain b d e r where s: "s = b # d # e # r" and b: "second_byte True a b"
      and d: "cont_byte d" and e: "cont_byte e" and n: "n = 4"
      and c: "c = (a - 240) * 262144 + (b - 128) * 4096 + (d - 128) * 64 + (e - 128)"
      by (auto simp: utf8_step_def step4_def split: list.splits if_splits)
    from code4 [OF 4 b d e c] s n show ?thesis by simp
  qed
qed

lemma encode_decode_strict:
  assumes "decode_strict_ints False b = Some s" and "\<forall>x \<in> set b. 0 \<le> x"
  shows "list_all is_scalar s \<and> encode_ints s = b"
  using assms
proof (induction False b arbitrary: s rule: decode_strict_ints.induct)
  case 1
  then show ?case by (simp add: encode_ints_def)
next
  case (2 a t)
  from "2.prems"(1) obtain n c s' where st: "utf8_step False a t = (n, Some c)"
    and r: "decode_strict_ints False (drop (n - 1) t) = Some s'" and s: "s = c # s'"
    by (auto split: prod.splits option.splits)
  have "\<forall>x \<in> set (drop (n - 1) t). 0 \<le> x" using "2.prems"(2) by (auto dest: in_set_dropD)
  with "2.hyps" [OF st [symmetric] refl r] have "list_all is_scalar s' \<and> encode_ints s' = drop (n - 1) t"
    by blast
  with utf8_step_Some [OF st] "2.prems"(2) show ?case
    by (simp add: s encode_ints_def)
qed

lemma byte_ints_nonneg: "\<forall>x \<in> set (byte_ints b). 0 \<le> x"
  by (simp add: byte_ints_def)

lemma byte_ints_of_int:
  assumes "\<forall>x \<in> set xs. 0 \<le> x \<and> x < 256"
  shows "byte_ints (map of_int xs) = xs"
  using assms by (auto simp: byte_ints_def unsigned_of_int take_bit_int_eq_self intro!: map_idI)

lemma byte_ints_encode:
  assumes "list_all is_scalar s"
  shows "byte_ints (map of_int (encode_ints s)) = encode_ints s"
  using assms encode_char_byte
  by (intro byte_ints_of_int) (fastforce simp: encode_ints_def list_all_iff)

lemma map_of_int_byte_ints: "map of_int (byte_ints b) = b"
  by (simp add: byte_ints_def o_def map_idI)

lemma decode_encode_utf8: "encode_utf8 s = Some b \<Longrightarrow> decode_utf8 b = Some s"
  by (auto simp: encode_utf8_def decode_utf8_def byte_ints_encode decode_strict_encode split: if_splits)

lemma decode_utf8_replace_encode: "encode_utf8 s = Some b \<Longrightarrow> decode_utf8_replace b = s"
  by (auto simp: encode_utf8_def decode_utf8_replace_def byte_ints_encode
      decode_replace_strict [OF decode_strict_encode] split: if_splits)

lemma encode_decode_utf8: "decode_utf8 b = Some s \<Longrightarrow> encode_utf8 s = Some b"
  using encode_decode_strict [OF _ byte_ints_nonneg [of b]]
  by (auto simp: decode_utf8_def encode_utf8_def map_of_int_byte_ints)

lemma utf8_step_scalar:
  assumes "utf8_step False a s = (n, Some c)" and "0 \<le> a"
  shows "is_scalar c"
  using utf8_step_Some [OF assms] by simp

text \<open>The replacing decoder only produces scalar values, so its result encodes.\<close>

lemma decode_replace_scalar:
  "\<forall>x \<in> set b. 0 \<le> x \<Longrightarrow> list_all is_scalar (decode_replace_ints b)"
proof (induction b rule: decode_replace_ints.induct)
  case 1
  then show ?case by simp
next
  case (2 a s)
  obtain n c where st: "utf8_step False a s = (n, c)" by (cases "utf8_step False a s")
  have "\<forall>x \<in> set (drop (n - 1) s). 0 \<le> x" using "2.prems" by (auto dest: in_set_dropD)
  with "2.IH" [OF st [symmetric]] have "list_all is_scalar (decode_replace_ints (drop (n - 1) s))"
    by blast
  moreover have "is_scalar (case c of Some x \<Rightarrow> x | None \<Rightarrow> 65533)"
    using utf8_step_scalar st "2.prems" by (cases c) (auto simp: is_scalar_def)
  ultimately show ?case using st by simp
qed

lemma decode_utf8_replace_scalar: "list_all is_scalar (decode_utf8_replace b)"
  unfolding decode_utf8_replace_def by (rule decode_replace_scalar [OF byte_ints_nonneg])

end
