(* ===== verification/Datetime.thy ===== *)
theory Datetime
  imports Json
begin

text \<open>
  The part of the \<open>datetime\<close> module the source uses: the proleptic Gregorian calendar with
  CPython's ordinal arithmetic, UTC instants in microseconds, \<open>isoformat\<close> of an aware UTC
  datetime, and the extended format of \<open>fromisoformat\<close> (a date, any separator, a time with an
  optional fraction of three or six digits, and no offset, \<open>Z\<close> or \<open>+HH:MM\<close>). Laws: the
  calendar conversion is inverse, and every instant in range round-trips through its text.
\<close>

section \<open>The calendar\<close>

record civil =
  c_year :: int
  c_month :: int
  c_day :: int
  c_hour :: int
  c_minute :: int
  c_second :: int
  c_micro :: int

definition is_leap :: "int \<Rightarrow> bool" where
  "is_leap y \<longleftrightarrow> y mod 4 = 0 \<and> (y mod 100 \<noteq> 0 \<or> y mod 400 = 0)"

definition days_before_year :: "int \<Rightarrow> int" where
  "days_before_year y = (let z = y - 1 in z * 365 + z div 4 - z div 100 + z div 400)"

definition month_table :: "int list" where
  "month_table = [31, 28, 31, 30, 31, 30, 31, 31, 30, 31, 30, 31]"

definition days_in_month :: "bool \<Rightarrow> int \<Rightarrow> int" where
  "days_in_month leap m = (if m = 2 \<and> leap then 29 else month_table ! nat (m - 1))"

definition days_before_month :: "bool \<Rightarrow> int \<Rightarrow> int" where
  "days_before_month leap m =
     sum_list (take (nat (m - 1)) month_table) + (if m > 2 \<and> leap then 1 else 0)"

definition ymd2ord :: "int \<Rightarrow> int \<Rightarrow> int \<Rightarrow> int" where
  "ymd2ord y m d = days_before_year y + days_before_month (is_leap y) m + d"

text \<open>\<open>_ord2ymd\<close>: the day within a year, then the whole ordinal.\<close>

definition month_day :: "bool \<Rightarrow> int \<Rightarrow> int \<times> int" where
  "month_day leap n =
     (let m = (n + 50) div 32; p = days_before_month leap m
      in if p > n then (m - 1, n - (p - days_in_month leap (m - 1)) + 1)
         else (m, n - p + 1))"

definition ord2ymd :: "int \<Rightarrow> int \<times> int \<times> int" where
  "ord2ymd n =
     (let z = n - 1; n400 = z div 146097; z = z mod 146097;
          n100 = z div 36524; z = z mod 36524;
          n4 = z div 1461; z = z mod 1461;
          n1 = z div 365; z = z mod 365;
          y = n400 * 400 + 1 + n100 * 100 + n4 * 4 + n1
      in if n1 = 4 \<or> n100 = 4 then (y - 1, 12, 31)
         else (y, month_day (n1 = 3 \<and> (n4 \<noteq> 24 \<or> n100 = 3)) z))"

definition date_ok :: "int \<Rightarrow> int \<Rightarrow> int \<Rightarrow> bool" where
  "date_ok y m d \<longleftrightarrow> 1 \<le> y \<and> y \<le> 9999 \<and> 1 \<le> m \<and> m \<le> 12 \<and> 1 \<le> d \<and> d \<le> days_in_month (is_leap y) m"

definition time_ok :: "int \<Rightarrow> int \<Rightarrow> int \<Rightarrow> int \<Rightarrow> bool" where
  "time_ok h mi s us \<longleftrightarrow>
     0 \<le> h \<and> h \<le> 23 \<and> 0 \<le> mi \<and> mi \<le> 59 \<and> 0 \<le> s \<and> s \<le> 59 \<and> 0 \<le> us \<and> us \<le> 999999"

definition civil_ok :: "civil \<Rightarrow> bool" where
  "civil_ok c \<longleftrightarrow> date_ok (c_year c) (c_month c) (c_day c) \<and>
     time_ok (c_hour c) (c_minute c) (c_second c) (c_micro c)"

text \<open>Microseconds since the start of ordinal day 0, and back.\<close>

definition instant_of :: "civil \<Rightarrow> int" where
  "instant_of c =
     (((ymd2ord (c_year c) (c_month c) (c_day c) * 24 + c_hour c) * 60 + c_minute c) * 60 + c_second c)
       * 1000000 + c_micro c"

definition civil_of :: "int \<Rightarrow> civil" where
  "civil_of t =
     (let us = t mod 1000000; t = t div 1000000; s = t mod 60; t = t div 60;
          mi = t mod 60; t = t div 60; h = t mod 24; o' = t div 24
      in case ord2ymd o' of (y, m, d) \<Rightarrow>
           \<lparr>c_year = y, c_month = m, c_day = d, c_hour = h, c_minute = mi, c_second = s, c_micro = us\<rparr>)"

text \<open>The instants of the years 1 to 9999.\<close>

definition instant_ok :: "int \<Rightarrow> bool" where
  "instant_ok t \<longleftrightarrow> 86400000000 \<le> t \<and> t < 3652060 * 86400000000"

definition month_day_good :: "bool \<Rightarrow> int \<Rightarrow> bool" where
  "month_day_good leap n \<longleftrightarrow>
     (case month_day leap n of (m, d) \<Rightarrow>
        1 \<le> m \<and> m \<le> 12 \<and> 1 \<le> d \<and> d \<le> days_in_month leap m \<and> days_before_month leap m + d = n + 1)"

lemma month_day_all:
  "list_all (month_day_good False) (map int [0..<365])"
  "list_all (month_day_good True) (map int [0..<366])"
  by code_simp+

lemma month_day_ok:
  assumes "0 \<le> n" "n \<le> 365" "n < 365 \<or> leap" "month_day leap n = (m, d)"
  shows "1 \<le> m \<and> m \<le> 12 \<and> 1 \<le> d \<and> d \<le> days_in_month leap m \<and> days_before_month leap m + d = n + 1"
proof -
  have mem: "n < int k \<Longrightarrow> n \<in> set (map int [0..<k])" for k
    unfolding set_map using assms(1) by (intro image_eqI [of _ _ "nat n"]) auto
  have "month_day_good leap n"
  proof (cases leap)
    case True
    have "n < int 366" using assms(2) by simp
    from bspec [OF month_day_all(2) [unfolded list_all_iff] mem [OF this]] True show ?thesis by simp
  next
    case False
    have "n < int 365" using assms(3) False by simp
    from bspec [OF month_day_all(1) [unfolded list_all_iff] mem [OF this]] False show ?thesis by simp
  qed
  with assms(4) show ?thesis by (simp add: month_day_good_def)
qed

lemma mod_succ_zero:
  fixes x n q r :: int
  assumes "x = n * q + r" "0 \<le> r" "r < n"
  shows "(x + 1) mod n = 0 \<longleftrightarrow> r = n - 1"
proof (cases "r = n - 1")
  case True
  then have "x + 1 = n * (q + 1)" using assms(1) by (simp add: algebra_simps)
  with True show ?thesis by simp
next
  case False
  then have "(x + 1) mod n = r + 1" using assms by (intro int_mod_pos_eq [of _ _ q]) auto
  with assms(2) False show ?thesis by simp
qed

lemma year_digits:
  fixes a b c d :: int
  assumes bb: "0 \<le> b" "b \<le> 3" "0 \<le> c" "c \<le> 24" "0 \<le> d" "d \<le> 3"
  defines "y \<equiv> a * 400 + 1 + b * 100 + c * 4 + d"
  shows "days_before_year y = 146097 * a + 36524 * b + 1461 * c + 365 * d"
    and "is_leap y \<longleftrightarrow> d = 3 \<and> (c \<noteq> 24 \<or> b = 3)"
proof -
  have z: "y - 1 = 400 * a + 100 * b + 4 * c + d" by (simp add: y_def)
  have z4: "y - 1 = 4 * (100 * a + 25 * b + c) + d" and z100: "y - 1 = 100 * (4 * a + b) + (4 * c + d)"
    and z400: "y - 1 = 400 * a + (100 * b + 4 * c + d)" unfolding z by simp_all
  have "(y - 1) div 4 = 100 * a + 25 * b + c" using assms by (intro int_div_pos_eq [OF z4]) auto
  moreover have "(y - 1) div 100 = 4 * a + b" using assms by (intro int_div_pos_eq [OF z100]) auto
  moreover have "(y - 1) div 400 = a" using assms by (intro int_div_pos_eq [OF z400]) auto
  ultimately show "days_before_year y = 146097 * a + 36524 * b + 1461 * c + 365 * d"
    unfolding days_before_year_def Let_def z by simp
  have "y mod 4 = 0 \<longleftrightarrow> d = 3" using mod_succ_zero [OF z4] bb by simp
  moreover have "y mod 100 = 0 \<longleftrightarrow> d = 3 \<and> c = 24"
    using mod_succ_zero [OF z100] bb by (simp, linarith)
  moreover have "y mod 400 = 0 \<longleftrightarrow> d = 3 \<and> c = 24 \<and> b = 3"
    using mod_succ_zero [OF z400] bb by (simp, linarith)
  ultimately show "is_leap y \<longleftrightarrow> d = 3 \<and> (c \<noteq> 24 \<or> b = 3)" by (auto simp: is_leap_def)
qed

lemma ord2ymd_ok:
  assumes "ord2ymd n = (y, m, d)"
  shows "ymd2ord y m d = n \<and> 1 \<le> m \<and> m \<le> 12 \<and> 1 \<le> d \<and> d \<le> days_in_month (is_leap y) m"
proof -
  define z0 where "z0 = n - 1"
  define n400 where "n400 = z0 div 146097"
  define z1 where "z1 = z0 mod 146097"
  define n100 where "n100 = z1 div 36524"
  define z2 where "z2 = z1 mod 36524"
  define n4 where "n4 = z2 div 1461"
  define z3 where "z3 = z2 mod 1461"
  define n1 where "n1 = z3 div 365"
  define z4 where "z4 = z3 mod 365"
  note defs = z0_def n400_def z1_def n100_def z2_def n4_def z3_def n1_def z4_def
  have e0: "z0 = 146097 * n400 + z1" by (simp add: n400_def z1_def)
  have e1: "z1 = 36524 * n100 + z2" by (simp add: n100_def z2_def)
  have e2: "z2 = 1461 * n4 + z3" by (simp add: n4_def z3_def)
  have e3: "z3 = 365 * n1 + z4" by (simp add: n1_def z4_def)
  have b1: "0 \<le> z1" "z1 < 146097" by (simp_all add: z1_def)
  have b2: "0 \<le> z2" "z2 < 36524" by (simp_all add: z2_def)
  have b3: "0 \<le> z3" "z3 < 1461" by (simp_all add: z3_def)
  have b4: "0 \<le> z4" "z4 < 365" by (simp_all add: z4_def)
  have r100: "0 \<le> n100" "n100 \<le> 4" using e1 b1 b2 by linarith+
  have r4: "0 \<le> n4" "n4 \<le> 24" using e2 b2 b3 by linarith+
  have r1: "0 \<le> n1" "n1 \<le> 4" using e3 b3 b4 by linarith+
  define yy where "yy = n400 * 400 + 1 + n100 * 100 + n4 * 4 + n1"
  have o: "ord2ymd n = (if n1 = 4 \<or> n100 = 4 then (yy - 1, 12, 31)
      else (yy, month_day (n1 = 3 \<and> (n4 \<noteq> 24 \<or> n100 = 3)) z4))"
    by (simp add: ord2ymd_def Let_def yy_def defs)
  have dec31: "days_before_month True 12 = 335" "days_in_month True 12 = 31" by code_simp+
  show ?thesis
  proof (cases "n1 = 4 \<or> n100 = 4")
    case True
    have y: "y = yy - 1" "m = 12" "d = 31" using assms o True by auto
    show ?thesis
    proof (cases "n100 = 4")
      case True
      have "z2 = 0" using True e1 b1 b2 by linarith
      then have "n4 = 0" "n1 = 0" "z4 = 0" using e2 e3 r1 r4 b3 b4 by linarith+
      then have yv: "y = n400 * 400 + 1 + 3 * 100 + 24 * 4 + 3" using y True by (simp add: yy_def)
      have "n = 146097 * (n400 + 1)" using e0 e1 True \<open>z2 = 0\<close> by (simp add: z0_def)
      with year_digits [of 3 24 3 n400] yv y dec31 show ?thesis by (simp add: ymd2ord_def)
    next
      case False
      with True have n1: "n1 = 4" by simp
      then have z4: "z4 = 0" using e3 b3 b4 by linarith
      have b100: "n100 \<le> 3" using False r100 by linarith
      have c24: "n4 \<noteq> 24 \<or> n100 = 3"
      proof (rule ccontr)
        assume "\<not> ?thesis"
        with n1 z4 e2 e3 b2 show False by linarith
      qed
      have yv: "y = n400 * 400 + 1 + n100 * 100 + n4 * 4 + 3" using y n1 by (simp add: yy_def)
      have "n = 146097 * n400 + 36524 * n100 + 1461 * n4 + 1461"
        using e0 e1 e2 e3 n1 z4 by (simp add: z0_def)
      with year_digits [of n100 n4 3 n400] r100 b100 r4 yv y c24 dec31 show ?thesis
        by (simp add: ymd2ord_def)
    qed
  next
    case False
    define leap where "leap = (n1 = 3 \<and> (n4 \<noteq> 24 \<or> n100 = 3))"
    have y: "y = yy" and md: "month_day leap z4 = (m, d)" using assms o False by (auto simp: leap_def)
    have rr: "n100 \<le> 3" "n1 \<le> 3" using False r100 r1 by linarith+
    have yd: "days_before_year y = 146097 * n400 + 36524 * n100 + 1461 * n4 + 365 * n1"
      "is_leap y = leap"
      unfolding y yy_def leap_def using year_digits [of n100 n4 n1 n400] r100 rr r4 r1 by auto
    have nn: "n = 146097 * n400 + 36524 * n100 + 1461 * n4 + 365 * n1 + z4 + 1"
      using e0 e1 e2 e3 by (simp add: z0_def)
    from month_day_ok [OF b4(1) _ _ md] b4(2) yd nn show ?thesis by (simp add: ymd2ord_def)
  qed
qed

lemma days_before_year_mono: "y \<le> y' \<Longrightarrow> days_before_year y \<le> days_before_year y'"
proof -
  assume le: "y \<le> y'"
  have step: "days_before_year z \<le> days_before_year (z + 1)" for z
  proof -
    have "(z - 1) div 4 \<le> z div 4" "(z - 1) div 400 \<le> z div 400" by (rule zdiv_mono1; simp)+
    moreover have "z div 100 \<le> (z - 1 + 100) div 100" by (rule zdiv_mono1; simp)
    then have "z div 100 \<le> (z - 1) div 100 + 1" by simp
    ultimately show ?thesis by (simp add: days_before_year_def Let_def)
  qed
  from le show ?thesis
    by (induction rule: int_ge_induct) (use step order_trans in blast)+
qed

lemma ymd2ord_bounds:
  assumes "1 \<le> m" "m \<le> 12" "1 \<le> d" "d \<le> days_in_month (is_leap y) m"
  shows "days_before_year y < ymd2ord y m d \<and> ymd2ord y m d \<le> days_before_year y + 366"
proof -
  have "m = 1 \<or> m = 2 \<or> m = 3 \<or> m = 4 \<or> m = 5 \<or> m = 6 \<or> m = 7 \<or> m = 8 \<or> m = 9 \<or> m = 10 \<or>
      m = 11 \<or> m = 12" using assms(1,2) by presburger
  then have "0 \<le> days_before_month leap m \<and> days_before_month leap m + days_in_month leap m \<le> 366" for leap
    by (auto simp: days_before_month_def days_in_month_def month_table_def)
  with assms(3,4) show ?thesis by (smt (verit) ymd2ord_def)
qed

lemma ord2ymd_range:
  assumes "1 \<le> n" "n < 3652060" "ord2ymd n = (y, m, d)"
  shows "date_ok y m d"
proof -
  note ok = ord2ymd_ok [OF assms(3)]
  then have b: "days_before_year y < n" "n \<le> days_before_year y + 366"
    using ymd2ord_bounds [of m d y] by auto
  have "1 \<le> y"
  proof (rule ccontr)
    assume "\<not> 1 \<le> y"
    then have "days_before_year y \<le> days_before_year 0" by (intro days_before_year_mono) simp
    then have "days_before_year y \<le> - 366" by (simp add: days_before_year_def)
    with b assms(1) show False by linarith
  qed
  moreover have "y \<le> 9999"
  proof (rule ccontr)
    assume "\<not> y \<le> 9999"
    then have "days_before_year 10000 \<le> days_before_year y" by (intro days_before_year_mono) simp
    then have "3652059 \<le> days_before_year y" by (simp add: days_before_year_def)
    with b(1) assms(2) show False by linarith
  qed
  ultimately show ?thesis using ok by (simp add: date_ok_def)
qed

lemma civil_of_ok:
  assumes "instant_ok t"
  shows "civil_ok (civil_of t) \<and> instant_of (civil_of t) = t"
proof -
  define t1 t2 t3 o' where "t1 = t div 1000000" and "t2 = t1 div 60" and "t3 = t2 div 60" and "o' = t3 div 24"
  obtain y m d where y: "ord2ymd o' = (y, m, d)" by (metis prod_cases3)
  have c: "civil_of t = \<lparr>c_year = y, c_month = m, c_day = d, c_hour = t3 mod 24, c_minute = t2 mod 60,
      c_second = t1 mod 60, c_micro = t mod 1000000\<rparr>"
    using y by (simp add: civil_of_def Let_def t1_def t2_def t3_def o'_def)
  have e: "t = t1 * 1000000 + t mod 1000000" "t1 = t2 * 60 + t1 mod 60" "t2 = t3 * 60 + t2 mod 60"
    "t3 = o' * 24 + t3 mod 24"
    by (simp_all add: t1_def t2_def t3_def o'_def)
  have b: "0 \<le> t mod 1000000" "t mod 1000000 < 1000000" "0 \<le> t1 mod 60" "t1 mod 60 < 60"
    "0 \<le> t2 mod 60" "t2 mod 60 < 60" "0 \<le> t3 mod 24" "t3 mod 24 < 24" by simp_all
  have "1 \<le> o'" "o' < 3652060"
    using assms e b unfolding instant_ok_def by linarith+
  then have dok: "date_ok y m d" using y ord2ymd_range by blast
  have "time_ok (t3 mod 24) (t2 mod 60) (t1 mod 60) (t mod 1000000)"
    unfolding time_ok_def using b by (intro conjI) linarith+
  with dok have "civil_ok (civil_of t)" by (simp add: civil_ok_def c)
  moreover have "instant_of (civil_of t) = t"
    using ord2ymd_ok [OF y] e by (simp add: instant_of_def c)
  ultimately show ?thesis ..
qed


section \<open>Text\<close>

text \<open>\<open>%02d\<close>, \<open>%04d\<close> and \<open>%06d\<close>: fixed-width decimals.\<close>

fun pad :: "nat \<Rightarrow> int \<Rightarrow> pystr" where
  "pad 0 n = []"
| "pad (Suc w) n = pad w (n div 10) @ [48 + n mod 10]"

text \<open>A fixed-width field read back: digits only.\<close>

definition num :: "pystr \<Rightarrow> int option" where
  "num s = (if s \<noteq> [] \<and> list_all is_digit s then Some (digit_value s) else None)"

lemma digit_value_snoc: "digit_value (s @ [c]) = 10 * digit_value s + (c - 48)"
  by (simp add: digit_value_def)

lemma length_pad [simp]: "length (pad w n) = w"
  by (induction w arbitrary: n) auto

lemma pad_digits: "list_all is_digit (pad w n)"
proof (induction w arbitrary: n)
  case (Suc w)
  have "0 \<le> n mod 10" "n mod 10 < 10" by simp_all
  then have "is_digit (48 + n mod 10)" unfolding is_digit_def by linarith
  with Suc show ?case by simp
qed simp

lemma digit_value_pad: "0 \<le> n \<Longrightarrow> n < 10 ^ w \<Longrightarrow> digit_value (pad w n) = n"
proof (induction w arbitrary: n)
  case 0
  then show ?case by (simp add: digit_value_def)
next
  case (Suc w)
  have "n div 10 < 10 ^ w" using Suc.prems by (simp add: div_less_iff_less_mult mult.commute)
  with Suc show ?case by (simp add: digit_value_snoc)
qed

lemma num_pad: "0 < w \<Longrightarrow> 0 \<le> n \<Longrightarrow> n < 10 ^ w \<Longrightarrow> num (pad w n) = Some n"
  using pad_digits [of w n] length_pad [of w n]
  by (auto simp: num_def digit_value_pad simp del: length_pad)

definition isoformat_utc :: "civil \<Rightarrow> pystr" where
  "isoformat_utc c =
     pad 4 (c_year c) @ [45] @ pad 2 (c_month c) @ [45] @ pad 2 (c_day c) @ [84] @
     pad 2 (c_hour c) @ [58] @ pad 2 (c_minute c) @ [58] @ pad 2 (c_second c) @
     (if c_micro c = 0 then [] else [46] @ pad 6 (c_micro c)) @ u ''+00:00''"

text \<open>\<open>datetime.now(timezone.utc).isoformat()\<close> at an instant.\<close>

definition show_instant :: "int \<Rightarrow> pystr" where
  "show_instant t = isoformat_utc (civil_of t)"

text \<open>\<open>fromisoformat\<close>. The offset part starts at the first sign or \<open>Z\<close> after the time.\<close>

definition parse_offset :: "pystr \<Rightarrow> int option option" where
  "parse_offset s =
     (if s = [] then Some None
      else if s = [90] then Some (Some 0)
      else if length s = 6 \<and> (s ! 0 = 43 \<or> s ! 0 = 45) \<and> s ! 3 = 58 then
        (case (num (take 2 (drop 1 s)), num (drop 4 s)) of
           (Some h, Some m) \<Rightarrow>
             (if h \<le> 23 \<and> m \<le> 59
              then Some (Some ((if s ! 0 = 45 then - 1 else 1) * (h * 60 + m) * 60000000))
              else None)
         | _ \<Rightarrow> None)
      else None)"

definition parse_fraction :: "pystr \<Rightarrow> int option" where
  "parse_fraction s =
     (if s = [] then Some 0
      else if s ! 0 = 46 \<and> length s = 7 then num (drop 1 s)
      else if s ! 0 = 46 \<and> length s = 4 then map_option (\<lambda>n. n * 1000) (num (drop 1 s))
      else None)"

definition parse_time :: "pystr \<Rightarrow> (int \<times> int \<times> int \<times> int) option" where
  "parse_time s =
     (if length s < 8 \<or> s ! 2 \<noteq> 58 \<or> s ! 5 \<noteq> 58 then None
      else
        (case (num (take 2 s), num (take 2 (drop 3 s)), num (take 2 (drop 6 s)), parse_fraction (drop 8 s)) of
           (Some h, Some m, Some sec, Some us) \<Rightarrow> Some (h, m, sec, us)
         | _ \<Rightarrow> None))"

definition parse_date :: "pystr \<Rightarrow> (int \<times> int \<times> int) option" where
  "parse_date s =
     (if length s \<noteq> 10 \<or> s ! 4 \<noteq> 45 \<or> s ! 7 \<noteq> 45 then None
      else
        (case (num (take 4 s), num (take 2 (drop 5 s)), num (drop 8 s)) of
           (Some y, Some m, Some d) \<Rightarrow> Some (y, m, d)
         | _ \<Rightarrow> None))"

definition starts_offset :: "int \<Rightarrow> bool" where
  "starts_offset c \<longleftrightarrow> c = 43 \<or> c = 45 \<or> c = 90"

text \<open>The result: an aware instant, or a naive one read off its own fields.\<close>

datatype py_dt = Aware int | Naive int

text \<open>\<open>ts.replace(tzinfo=timezone.utc)\<close> where it is naive.\<close>

fun utc_of :: "py_dt \<Rightarrow> int" where
  "utc_of (Aware t) = t"
| "utc_of (Naive t) = t"

definition parse_iso :: "pystr \<Rightarrow> py_dt option" where
  "parse_iso s =
     (case (parse_date (take 10 s),
            parse_time (takeWhile (\<lambda>c. \<not> starts_offset c) (drop 11 s)),
            parse_offset (dropWhile (\<lambda>c. \<not> starts_offset c) (drop 11 s))) of
        (Some (y, m, d), Some (h, mi, sec, us), Some off) \<Rightarrow>
          (if date_ok y m d \<and> time_ok h mi sec us then
             (let t = instant_of \<lparr>c_year = y, c_month = m, c_day = d, c_hour = h, c_minute = mi,
                                   c_second = sec, c_micro = us\<rparr>
              in case off of None \<Rightarrow> Some (Naive t) | Some z \<Rightarrow> Some (Aware (t - z)))
           else None)
      | _ \<Rightarrow> None)"

lemma days_in_month_le: "1 \<le> m \<Longrightarrow> m \<le> 12 \<Longrightarrow> days_in_month leap m \<le> 31"
proof -
  assume "1 \<le> m" "m \<le> 12"
  then have "m = 1 \<or> m = 2 \<or> m = 3 \<or> m = 4 \<or> m = 5 \<or> m = 6 \<or> m = 7 \<or> m = 8 \<or> m = 9 \<or> m = 10 \<or>
      m = 11 \<or> m = 12" by presburger
  then show ?thesis by (auto simp: days_in_month_def month_table_def)
qed

lemma digit_no_offset: "is_digit c \<Longrightarrow> \<not> starts_offset c"
  by (auto simp: is_digit_def starts_offset_def)

lemma parse_date_pad:
  assumes "date_ok y m d"
  shows "parse_date (pad 4 y @ [45] @ pad 2 m @ [45] @ pad 2 d) = Some (y, m, d)"
proof -
  have "0 \<le> y" "y < 10 ^ 4" "0 \<le> m" "m < 10 ^ 2" "0 \<le> d" "d < 10 ^ 2"
    using assms days_in_month_le [of m "is_leap y"] by (auto simp: date_ok_def)
  then have n: "num (pad 4 y) = Some y" "num (pad 2 m) = Some m" "num (pad 2 d) = Some d"
    by (simp_all add: num_pad del: power.simps)
  define a b c where "a = pad 4 y" and "b = pad 2 m" and "c = pad 2 d"
  have l: "length a = 4" "length b = 2" "length c = 2" by (simp_all add: a_def b_def c_def)
  have "take 4 (a @ [45] @ b @ [45] @ c) = a" "take 2 (drop 5 (a @ [45] @ b @ [45] @ c)) = b"
    "drop 8 (a @ [45] @ b @ [45] @ c) = c" "(a @ [45] @ b @ [45] @ c) ! 4 = 45"
    "(a @ [45] @ b @ [45] @ c) ! 7 = 45" "length (a @ [45] @ b @ [45] @ c) = 10"
    using l by (simp_all add: nth_append)
  then show ?thesis using n unfolding parse_date_def a_def [symmetric] b_def [symmetric] c_def [symmetric]
    by simp
qed

lemma parse_time_pad:
  assumes "time_ok h mi sec us"
  shows "parse_time (pad 2 h @ [58] @ pad 2 mi @ [58] @ pad 2 sec @ (if us = 0 then [] else [46] @ pad 6 us))
     = Some (h, mi, sec, us)"
proof -
  have "0 \<le> h" "h < 10 ^ 2" "0 \<le> mi" "mi < 10 ^ 2" "0 \<le> sec" "sec < 10 ^ 2" "0 \<le> us" "us < 10 ^ 6"
    using assms by (auto simp: time_ok_def)
  then have n: "num (pad 2 h) = Some h" "num (pad 2 mi) = Some mi" "num (pad 2 sec) = Some sec"
    "num (pad 6 us) = Some us"
    by (simp_all add: num_pad del: power.simps)
  define a b c f where "a = pad 2 h" and "b = pad 2 mi" and "c = pad 2 sec"
    and "f = (if us = 0 then [] else [46] @ pad 6 us)"
  have l: "length a = 2" "length b = 2" "length c = 2" by (simp_all add: a_def b_def c_def)
  have f: "parse_fraction f = Some us" using n(4) by (simp add: f_def parse_fraction_def)
  have "take 2 (a @ [58] @ b @ [58] @ c @ f) = a" "take 2 (drop 3 (a @ [58] @ b @ [58] @ c @ f)) = b"
    "take 2 (drop 6 (a @ [58] @ b @ [58] @ c @ f)) = c" "drop 8 (a @ [58] @ b @ [58] @ c @ f) = f"
    "(a @ [58] @ b @ [58] @ c @ f) ! 2 = 58" "(a @ [58] @ b @ [58] @ c @ f) ! 5 = 58"
    "\<not> length (a @ [58] @ b @ [58] @ c @ f) < 8"
    using l by (simp_all add: nth_append)
  then show ?thesis using n f
    unfolding parse_time_def a_def [symmetric] b_def [symmetric] c_def [symmetric] f_def [symmetric]
    by simp
qed

lemma pad_no_offset: "x \<in> set (pad w n) \<Longrightarrow> \<not> starts_offset x"
  using pad_digits [of w n] by (auto simp: list_all_iff dest: digit_no_offset)

lemma parse_iso_isoformat:
  assumes "civil_ok c"
  shows "parse_iso (isoformat_utc c) = Some (Aware (instant_of c))"
proof -
  define dt where "dt = pad 4 (c_year c) @ [45] @ pad 2 (c_month c) @ [45] @ pad 2 (c_day c)"
  define tm where "tm = pad 2 (c_hour c) @ [58] @ pad 2 (c_minute c) @ [58] @ pad 2 (c_second c) @
      (if c_micro c = 0 then [] else [46] @ pad 6 (c_micro c))"
  have iso: "isoformat_utc c = dt @ [84] @ tm @ u ''+00:00''"
    by (simp add: isoformat_utc_def dt_def tm_def)
  have ldt: "length dt = 10" by (simp add: dt_def)
  have tmno: "\<forall>x \<in> set tm. \<not> starts_offset x"
    by (auto simp: tm_def starts_offset_def dest: pad_no_offset [unfolded starts_offset_def])
  have plus: "starts_offset 43" "u ''+00:00'' = 43 # u ''00:00''" by (simp_all add: starts_offset_def u_def)
  have tk: "takeWhile (\<lambda>c. \<not> starts_offset c) (drop 11 (isoformat_utc c)) = tm"
    and dw: "dropWhile (\<lambda>c. \<not> starts_offset c) (drop 11 (isoformat_utc c)) = u ''+00:00''"
    using ldt tmno plus by (simp_all add: iso takeWhile_append2 dropWhile_append2)
  have d: "parse_date (take 10 (isoformat_utc c)) = Some (c_year c, c_month c, c_day c)"
    using ldt parse_date_pad assms by (simp add: iso civil_ok_def dt_def)
  have t: "parse_time tm = Some (c_hour c, c_minute c, c_second c, c_micro c)"
    unfolding tm_def by (rule parse_time_pad) (use assms in \<open>simp add: civil_ok_def\<close>)
  have o: "parse_offset (u ''+00:00'') = Some (Some 0)" by code_simp
  show ?thesis
    using assms by (simp add: parse_iso_def tk dw d t o civil_ok_def Let_def instant_of_def)
qed

lemma parse_show_instant: "instant_ok t \<Longrightarrow> parse_iso (show_instant t) = Some (Aware t)"
  using civil_of_ok parse_iso_isoformat by (simp add: show_instant_def)

end
