(* ===== verification/ManifestLoad.thy ===== *)
theory ManifestLoad
  imports Json Utf8
begin

text \<open>
  The load boundary of \<open>manifest.py\<close>: from the bytes of a decrypted manifest to a JSON object
  of the v2 shape (\<open>deserialize_manifest\<close>, \<open>normalize_manifest\<close>, \<open>_validate_rel_path\<close>,
  \<open>load_manifest\<close>). \<open>wide\<close> stands for the UTF-16 and UTF-32 codecs \<open>json.loads\<close> may pick,
  \<open>lim\<close> for the remaining recursion depth and \<open>alpha\<close> for \<open>str.isalpha\<close> of one character;
  nothing is assumed of them.
\<close>

section \<open>Decoding\<close>

text \<open>\<open>json.detect_encoding\<close>: whether the bytes are read as UTF-8, and after how many bytes of
  byte-order mark; \<open>None\<close> picks a UTF-16 or UTF-32 codec.\<close>

definition detect_utf8 :: "int list \<Rightarrow> nat option" where
  "detect_utf8 b =
     (if startswith b [0, 0, 254, 255] \<or> startswith b [255, 254] \<or> startswith b [254, 255] then None
      else if startswith b [239, 187, 191] then Some 3
      else if length b \<ge> 4 \<or> length b = 2 then
        (if b ! 0 = 0 \<or> b ! 1 = 0 then None else Some 0)
      else Some 0)"

text \<open>\<open>b.decode(detect_encoding(b), "surrogatepass")\<close>; \<open>None\<close> is \<open>UnicodeDecodeError\<close>.\<close>

definition decode_json_bytes :: "(bytes \<Rightarrow> pystr option) \<Rightarrow> bytes \<Rightarrow> pystr option" where
  "decode_json_bytes wide b =
     (case detect_utf8 (byte_ints b) of
        Some n \<Rightarrow> decode_utf8_pass (drop n b)
      | None \<Rightarrow> wide b)"

text \<open>What leaves \<open>load_manifest\<close>: its own error, or one of the two decoder failures that
  \<open>deserialize_manifest\<close> does not catch.\<close>

datatype load_error = ManifestError | EscapedValueError | EscapedRecursionError

definition deserialize_manifest ::
  "(bytes \<Rightarrow> pystr option) \<Rightarrow> nat \<Rightarrow> bytes \<Rightarrow> load_error + json" where
  "deserialize_manifest wide lim data =
     (case decode_json_bytes wide data of
        None \<Rightarrow> Inl ManifestError
      | Some s \<Rightarrow>
          (case json_loads lim s of
             Inr v \<Rightarrow> Inr v
           | Inl JSONDecodeError \<Rightarrow> Inl ManifestError
           | Inl JSONValueError \<Rightarrow> Inl EscapedValueError
           | Inl JSONRecursionError \<Rightarrow> Inl EscapedRecursionError))"

section \<open>Normalization\<close>

type_synonym jdict = "(pystr, json) dict"

text \<open>\<open>d.pop(key, None)\<close> is \<open>AList.delete\<close>; the migration of bare tombstone keys rebuilds the
  dictionary in order.\<close>

definition migrate_key :: "pystr \<Rightarrow> pystr" where
  "migrate_key k = (if 58 \<in> set k then k else u ''claude:'' @ k)"

definition migrate_tombstones :: "jdict \<Rightarrow> jdict" where
  "migrate_tombstones t = fold (\<lambda>(k, info). AList.update (migrate_key k) info) t []"

definition promote_v1 :: "jdict \<Rightarrow> jdict" where
  "promote_v1 m =
     AList.update (u ''sources'')
       (JObj [(u ''claude'',
               JObj [(u ''base_path'', dget m (u ''base_path'') (JStr [])),
                     (u ''files'', dget m (u ''files'') (JObj []))])]) m"

definition normalize_manifest :: "jdict \<Rightarrow> jdict" where
  "normalize_manifest m =
     (let v1 = (map_of m (u ''sources'') = None);
          m1 = (if v1 then promote_v1 m else m);
          m2 = AList.delete (u ''files'') m1
      in case map_of m2 (u ''tombstones'') of
           None \<Rightarrow> AList.update (u ''tombstones'') (JObj []) m2
         | Some t \<Rightarrow>
             (if v1 then
                (case t of
                   JObj td \<Rightarrow> AList.update (u ''tombstones'') (JObj (migrate_tombstones td)) m2
                 | _ \<Rightarrow> m2)
              else m2))"

section \<open>Path confinement\<close>

definition path_segments :: "pystr \<Rightarrow> pystr list" where
  "path_segments rel = split_on 47 (map (\<lambda>c. if c = 92 then 47 else c) rel)"

definition validate_rel_path :: "(int \<Rightarrow> bool) \<Rightarrow> pystr \<Rightarrow> load_error + unit" where
  "validate_rel_path alpha rel =
     (if rel = [] then Inl ManifestError
      else if 0 \<in> set rel then Inl ManifestError
      else if startswith rel [47] \<or> startswith rel [92] then Inl ManifestError
      else if length rel \<ge> 2 \<and> rel ! 1 = 58 \<and> alpha (rel ! 0) then Inl ManifestError
      else if u ''..'' \<in> set (path_segments rel) then Inl ManifestError
      else Inr ())"

section \<open>The load boundary\<close>

text \<open>One file entry: the path, the shape of the value, and the coercion of a non-string
  \<open>mtime\<close> to \<open>None\<close>.\<close>

definition check_file :: "(int \<Rightarrow> bool) \<Rightarrow> pystr \<times> json \<Rightarrow> load_error + pystr \<times> json" where
  "check_file alpha e =
     (case e of (rel, info) \<Rightarrow>
        (case validate_rel_path alpha rel of
           Inl x \<Rightarrow> Inl x
         | Inr _ \<Rightarrow>
             (case as_obj info of
                None \<Rightarrow> Inl ManifestError
              | Some d \<Rightarrow>
                  (if as_str (dget d (u ''sha256'') JNull) = None then Inl ManifestError
                   else if as_str (dget d (u ''mtime'') JNull) = None
                   then Inr (rel, JObj (AList.update (u ''mtime'') JNull d))
                   else Inr (rel, info)))))"

definition check_source :: "(int \<Rightarrow> bool) \<Rightarrow> pystr \<times> json \<Rightarrow> load_error + pystr \<times> json" where
  "check_source alpha e =
     (case e of (name, src) \<Rightarrow>
        (case as_obj src of
           None \<Rightarrow> Inl ManifestError
         | Some d \<Rightarrow>
             (case map_of d (u ''files'') of
                None \<Rightarrow> Inr (name, src)
              | Some f \<Rightarrow>
                  (case as_obj f of
                     None \<Rightarrow> Inl ManifestError
                   | Some files \<Rightarrow>
                       (case try_each (check_file alpha) files of
                          Inl x \<Rightarrow> Inl x
                        | Inr files' \<Rightarrow>
                            Inr (name, JObj (AList.update (u ''files'') (JObj files') d)))))))"

text \<open>\<open>key.partition(":")[2]\<close>: what follows the first colon.\<close>

definition after_colon :: "pystr \<Rightarrow> pystr" where
  "after_colon k = drop 1 (dropWhile (\<lambda>c. c \<noteq> 58) k)"

definition check_tombstone :: "(int \<Rightarrow> bool) \<Rightarrow> pystr \<times> json \<Rightarrow> load_error + pystr \<times> json" where
  "check_tombstone alpha e =
     (case e of (key, info) \<Rightarrow>
        (if as_obj info = None then Inl ManifestError
         else if 58 \<in> set key \<and> after_colon key \<noteq> [] then
           (case validate_rel_path alpha (after_colon key) of
              Inl x \<Rightarrow> Inl x
            | Inr _ \<Rightarrow> Inr (key, info))
         else Inr (key, info)))"

definition load_manifest ::
  "(bytes \<Rightarrow> pystr option) \<Rightarrow> nat \<Rightarrow> (int \<Rightarrow> bool) \<Rightarrow> bytes \<Rightarrow> load_error + jdict" where
  "load_manifest wide lim alpha data =
     (case deserialize_manifest wide lim data of
        Inl e \<Rightarrow> Inl e
      | Inr v \<Rightarrow>
          (case as_obj v of
             None \<Rightarrow> Inl ManifestError
           | Some d \<Rightarrow>
               (let n = normalize_manifest d
                in case (as_obj (dget n (u ''sources'') JNull), as_obj (dget n (u ''tombstones'') JNull)) of
                     (Some srcs, Some tombs) \<Rightarrow>
                       (case try_each (check_source alpha) srcs of
                          Inl e \<Rightarrow> Inl e
                        | Inr srcs' \<Rightarrow>
                            (case try_each (check_tombstone alpha) tombs of
                               Inl e \<Rightarrow> Inl e
                             | Inr _ \<Rightarrow> Inr (AList.update (u ''sources'') (JObj srcs') n)))
                   | _ \<Rightarrow> Inl ManifestError)))"

section \<open>What confinement means\<close>

text \<open>\<open>Path(base) / rel\<close>, with the components of \<open>base\<close> and lexical \<open>..\<close>: an absolute
  right-hand side replaces the base, empty and \<open>.\<close> components vanish.\<close>

definition path_step :: "pystr \<Rightarrow> pystr list \<Rightarrow> pystr list" where
  "path_step seg acc =
     (if seg = [] \<or> seg = u ''.'' then acc
      else if seg = u ''..'' then butlast acc
      else acc @ [seg])"

definition resolve_under :: "pystr list \<Rightarrow> pystr \<Rightarrow> pystr list" where
  "resolve_under base rel =
     fold path_step (split_on 47 rel) (if startswith rel [47] then [] else base)"

lemma fold_path_step_keeps:
  "u ''..'' \<notin> set segs \<Longrightarrow> take (length base) acc = base \<Longrightarrow>
     take (length base) (fold path_step segs acc) = base"
proof (induction segs arbitrary: acc)
  case Nil
  then show ?case by simp
next
  case (Cons s segs)
  have "length base \<le> length acc" using Cons.prems(2) by (metis length_take min_def nat_le_linear)
  then have "take (length base) (path_step s acc) = base"
    using Cons.prems by (auto simp: path_step_def)
  with Cons show ?case by simp
qed

text \<open>Mapping backslashes to slashes only refines the split: a \<open>..\<close> component stays one.\<close>

lemma dotdot_segment_refines:
  assumes "u ''..'' \<in> set (split_on 47 s)"
  shows "u ''..'' \<in> set (path_segments s)"
proof -
  define f where "f = (\<lambda>c :: int. if c = 92 then 47 else c)"
  from assms obtain a b where ab: "split_on 47 s = a @ u ''..'' # b" by (meson split_list)
  have mid: "u ''..'' \<in> set (split_on 47 (x @ 47 # u ''..'' @ 47 # y))"
    "u ''..'' \<in> set (split_on 47 (u ''..'' @ 47 # y))"
    "u ''..'' \<in> set (split_on 47 (x @ 47 # u ''..''))"
    "u ''..'' \<in> set (split_on 47 (u ''..''))" for x y
    by (simp_all add: split_on_append split_on_id u_def)
  have map_dd: "map f (u ''..'') = u ''..''" by (simp add: f_def u_def)
  have j: "s = join_with [47] (a @ u ''..'' # b)" using join_split [of 47 s] ab by simp
  have join_app: "join_with [47] (v @ w # vs) =
      (if v = [] then [] else join_with [47] v @ [47]) @ w @ (if vs = [] then [] else 47 # join_with [47] vs)"
    for v w and vs :: "pystr list"
  proof (induction v)
    case Nil
    then show ?case by (cases vs) auto
  next
    case (Cons x v)
    then show ?case by (cases v) auto
  qed
  have "map f s = (if a = [] then [] else map f (join_with [47] a) @ [47]) @ u ''..'' @
      (if b = [] then [] else 47 # map f (join_with [47] b))"
    unfolding j join_app by (simp add: map_dd) (simp add: f_def)
  moreover have "path_segments s = split_on 47 (map f s)" by (simp add: path_segments_def f_def)
  ultimately show ?thesis using mid by (auto split: if_splits)
qed

lemma validate_rel_path_confines:
  assumes "validate_rel_path alpha rel = Inr ()"
  shows "take (length base) (resolve_under base rel) = base"
proof -
  from assms have "\<not> startswith rel [47]" and dd: "u ''..'' \<notin> set (path_segments rel)"
    by (auto simp: validate_rel_path_def split: if_splits)
  then have "resolve_under base rel = fold path_step (split_on 47 rel) base"
    by (simp add: resolve_under_def)
  moreover have "u ''..'' \<notin> set (split_on 47 rel)" using dd dotdot_segment_refines by blast
  ultimately show ?thesis by (simp add: fold_path_step_keeps)
qed


section \<open>The shape a loaded manifest has\<close>

definition file_shape :: "json \<Rightarrow> bool" where
  "file_shape info \<longleftrightarrow>
     (\<exists>d s. info = JObj d \<and> map_of d (u ''sha256'') = Some (JStr s) \<and>
        (map_of d (u ''mtime'') = Some JNull \<or> (\<exists>t. map_of d (u ''mtime'') = Some (JStr t))))"

definition stays_inside :: "pystr \<Rightarrow> bool" where
  "stays_inside rel \<longleftrightarrow> (\<forall>base. take (length base) (resolve_under base rel) = base)"

definition source_shape :: "json \<Rightarrow> bool" where
  "source_shape src \<longleftrightarrow>
     (\<exists>d. src = JObj d \<and>
        (\<forall>f. map_of d (u ''files'') = Some f \<longrightarrow>
           (\<exists>files. f = JObj files \<and>
              (\<forall>(rel, info) \<in> set files. file_shape info \<and> stays_inside rel \<and> rel \<noteq> [] \<and> 0 \<notin> set rel))))"

definition tombstone_shape :: "pystr \<times> json \<Rightarrow> bool" where
  "tombstone_shape e \<longleftrightarrow>
     (\<exists>d. snd e = JObj d) \<and> (58 \<in> set (fst e) \<longrightarrow> stays_inside (after_colon (fst e)))"

definition loaded_shape :: "jdict \<Rightarrow> bool" where
  "loaded_shape n \<longleftrightarrow>
     (\<exists>srcs tombs. map_of n (u ''sources'') = Some (JObj srcs) \<and>
        map_of n (u ''tombstones'') = Some (JObj tombs) \<and>
        (\<forall>(name, src) \<in> set srcs. source_shape src) \<and>
        (\<forall>e \<in> set tombs. tombstone_shape e)) \<and>
     map_of n (u ''files'') = None \<and> json_ok (JObj n)"

lemma stays_inside_Nil: "stays_inside []"
  by (simp add: stays_inside_def resolve_under_def path_step_def)

lemma validate_rel_path_ok:
  "validate_rel_path alpha rel = Inr x \<Longrightarrow> stays_inside rel \<and> rel \<noteq> [] \<and> 0 \<notin> set rel"
  using validate_rel_path_confines
  by (cases "validate_rel_path alpha rel")
    (auto simp: stays_inside_def validate_rel_path_def split: if_splits)

lemma check_file_shape:
  assumes "check_file alpha (rel, info) = Inr (rel', info')"
  shows "rel' = rel \<and> file_shape info' \<and> stays_inside rel \<and> rel \<noteq> [] \<and> 0 \<notin> set rel"
  using assms
  by (auto simp: check_file_def file_shape_def dget_def dest: validate_rel_path_ok
      split: sum.splits option.splits if_splits)

lemma check_file_ok:
  "check_file alpha (rel, info) = Inr (rel', info') \<Longrightarrow> json_ok info \<Longrightarrow> json_ok info'"
  by (auto simp: check_file_def simp del: json_ok.simps intro!: json_ok_update
      split: sum.splits option.splits if_splits) simp_all

lemma try_each_keys:
  assumes "try_each f xs = Inr ys" and "\<And>x y. f x = Inr y \<Longrightarrow> fst y = fst x"
  shows "map fst ys = map fst xs"
proof -
  from assms(1) have "list_all2 (\<lambda>x y. f x = Inr y) xs ys" by (simp add: try_each_Inr_iff)
  then show ?thesis
    by (induction rule: list_all2_induct) (auto dest: assms(2))
qed

lemma try_each_mem:
  assumes "try_each f xs = Inr ys" and "y \<in> set ys"
  shows "\<exists>x \<in> set xs. f x = Inr y"
  using assms by (induction xs arbitrary: ys) (auto split: sum.splits)

lemma try_each_dom:
  assumes "try_each f xs = Inr ys" and "x \<in> set xs"
  shows "\<exists>y \<in> set ys. f x = Inr y"
  using assms by (induction xs arbitrary: ys) (auto split: sum.splits)

lemma check_file_fst: "check_file alpha x = Inr y \<Longrightarrow> fst y = fst x"
  using check_file_shape [of alpha "fst x" "snd x" "fst y" "snd y"] by simp

lemma check_files_ok:
  assumes "try_each (check_file alpha) files = Inr files'" and "json_ok (JObj files)"
  shows "json_ok (JObj files')"
proof -
  have "distinct_keys files'"
    using try_each_keys [OF assms(1) check_file_fst] assms(2) by (simp add: distinct_keys_def)
  moreover have "json_ok v" if "(k, v) \<in> set files'" for k v
  proof -
    from try_each_mem [OF assms(1) that] obtain x
      where x: "x \<in> set files" "check_file alpha x = Inr (k, v)" by blast
    obtain rel info where "x = (rel, info)" by (cases x)
    with x have m: "(rel, info) \<in> set files" and c: "check_file alpha (rel, info) = Inr (k, v)"
      by simp_all
    from m assms(2) have "json_ok info" by (auto simp: list_all_iff)
    from check_file_ok [OF c this] show ?thesis .
  qed
  ultimately show ?thesis by (auto simp: list_all_iff)
qed

lemma json_ok_member: "json_ok (JObj d) \<Longrightarrow> map_of d k = Some v \<Longrightarrow> json_ok v"
  by (auto simp: list_all_iff dest!: map_of_SomeD)

lemma check_source_shape:
  assumes "check_source alpha (name, src) = Inr (name', src')"
  shows "name' = name \<and> source_shape src'"
  using assms
proof (cases src)
  case (JObj d)
  show ?thesis
  proof (cases "map_of d (u ''files'')")
    case None
    with assms JObj show ?thesis by (auto simp: check_source_def source_shape_def)
  next
    case (Some f)
    with assms JObj obtain files files' where f: "f = JObj files"
      and t: "try_each (check_file alpha) files = Inr files'"
      and r: "name' = name" "src' = JObj (AList.update (u ''files'') (JObj files') d)"
      by (auto simp: check_source_def split: option.splits sum.splits)
    have "file_shape info \<and> stays_inside rel \<and> rel \<noteq> [] \<and> 0 \<notin> set rel"
      if m: "(rel, info) \<in> set files'" for rel info
    proof -
      from try_each_mem [OF t m] obtain x where "check_file alpha (fst x, snd x) = Inr (rel, info)"
        by auto
      from check_file_shape [OF this] show ?thesis by simp
    qed
    with r show ?thesis by (auto simp: source_shape_def)
  qed
qed (simp_all add: check_source_def)

lemma check_source_ok:
  assumes "check_source alpha (name, src) = Inr (name', src')" and "json_ok src"
  shows "json_ok src'"
  using assms
proof (cases src)
  case (JObj d)
  show ?thesis
  proof (cases "map_of d (u ''files'')")
    case None
    with assms JObj show ?thesis by (simp add: check_source_def)
  next
    case (Some f)
    with assms JObj obtain files files' where f: "f = JObj files"
      and t: "try_each (check_file alpha) files = Inr files'"
      and r: "src' = JObj (AList.update (u ''files'') (JObj files') d)"
      by (auto simp: check_source_def split: option.splits sum.splits)
    have "json_ok (JObj files)"
      using json_ok_member [of d "u ''files''" f] Some assms(2) JObj f by blast
    from check_files_ok [OF t this] r assms(2) JObj show ?thesis
      using json_ok_update by blast
  qed
qed (simp_all add: check_source_def)

lemma check_source_fst: "check_source alpha x = Inr y \<Longrightarrow> fst y = fst x"
  using check_source_shape [of alpha "fst x" "snd x" "fst y" "snd y"] by simp

lemma check_sources_ok:
  assumes "try_each (check_source alpha) srcs = Inr srcs'" and "json_ok (JObj srcs)"
  shows "json_ok (JObj srcs')"
proof -
  have "distinct_keys srcs'"
    using try_each_keys [OF assms(1) check_source_fst] assms(2) by (simp add: distinct_keys_def)
  moreover have "json_ok v" if "(k, v) \<in> set srcs'" for k v
  proof -
    from try_each_mem [OF assms(1) that] obtain x
      where x: "x \<in> set srcs" "check_source alpha x = Inr (k, v)" by blast
    obtain name src where "x = (name, src)" by (cases x)
    with x have m: "(name, src) \<in> set srcs" and c: "check_source alpha (name, src) = Inr (k, v)"
      by simp_all
    from m assms(2) have "json_ok src" by (auto simp: list_all_iff)
    from check_source_ok [OF c this] show ?thesis .
  qed
  ultimately show ?thesis by (auto simp: list_all_iff)
qed

lemma check_tombstone_shape: "check_tombstone alpha e = Inr e' \<Longrightarrow> tombstone_shape e"
  by (cases e)
    (auto simp: check_tombstone_def tombstone_shape_def stays_inside_Nil dest: validate_rel_path_ok
      split: if_splits sum.splits)

subsection \<open>Normalization keeps well-formedness\<close>

lemma json_ok_delete: "json_ok (JObj d) \<Longrightarrow> json_ok (JObj (AList.delete k d))"
  by (auto simp: distinct_keys_def list_all_iff AList.delete_eq distinct_map_filter)

lemma json_ok_dget: "json_ok (JObj d) \<Longrightarrow> json_ok v \<Longrightarrow> json_ok (dget d k v)"
  by (auto simp: dget_def simp del: json_ok.simps split: option.split dest: json_ok_member)

lemma json_ok_migrate: "json_ok (JObj t) \<Longrightarrow> json_ok (JObj (migrate_tombstones t))"
proof -
  assume t: "json_ok (JObj t)"
  have "json_ok (JObj (fold (\<lambda>(k, info). AList.update (migrate_key k) info) xs acc))"
    if "\<forall>(k, v) \<in> set xs. json_ok v" "json_ok (JObj acc)" for xs acc
    using that
  proof (induction xs arbitrary: acc)
    case Nil
    then show ?case by simp
  next
    case (Cons x xs)
    then show ?case by (auto simp: json_ok_update simp del: json_ok.simps)
  qed
  moreover have "\<forall>(k, v) \<in> set t. json_ok v" using t by (auto simp: list_all_iff)
  ultimately show ?thesis unfolding migrate_tombstones_def by (simp add: distinct_keys_def)
qed

lemma json_ok_promote: "json_ok (JObj m) \<Longrightarrow> json_ok (JObj (promote_v1 m))"
proof -
  assume m: "json_ok (JObj m)"
  have "json_ok (dget m (u ''base_path'') (JStr []))" "json_ok (dget m (u ''files'') (JObj []))"
    by (rule json_ok_dget [OF m], simp add: distinct_keys_def)+
  then show ?thesis unfolding promote_v1_def
    by (intro json_ok_update m) (simp add: distinct_keys_def)
qed

lemma json_ok_normalize:
  assumes "json_ok (JObj m)"
  shows "json_ok (JObj (normalize_manifest m))"
proof -
  define m2 where "m2 = AList.delete (u ''files'')
    (if map_of m (u ''sources'') = None then promote_v1 m else m)"
  have m2: "json_ok (JObj m2)"
    unfolding m2_def using assms by (auto intro: json_ok_delete json_ok_promote simp del: json_ok.simps)
  have nil: "json_ok (JObj [])" by (simp add: distinct_keys_def)
  show ?thesis
  proof (cases "map_of m2 (u ''tombstones'')")
    case None
    then have "normalize_manifest m = AList.update (u ''tombstones'') (JObj []) m2"
      unfolding normalize_manifest_def Let_def m2_def [symmetric] by simp
    with json_ok_update [OF m2 nil] show ?thesis by simp
  next
    case (Some t)
    then have "normalize_manifest m = m2 \<or> (\<exists>td. t = JObj td \<and>
        normalize_manifest m = AList.update (u ''tombstones'') (JObj (migrate_tombstones td)) m2)"
      unfolding normalize_manifest_def Let_def m2_def [symmetric]
      by (auto split: json.split)
    with json_ok_update [OF m2 json_ok_migrate] json_ok_member [OF m2 Some] m2 show ?thesis by metis
  qed
qed

lemma map_of_normalize:
  "map_of (normalize_manifest m) (u ''files'') = None"
  "map_of (normalize_manifest m) (u ''sources'') \<noteq> None"
  "map_of (normalize_manifest m) (u ''tombstones'') \<noteq> None"
proof -
  define m2 where "m2 = AList.delete (u ''files'')
    (if map_of m (u ''sources'') = None then promote_v1 m else m)"
  have f: "map_of m2 (u ''files'') = None" by (simp add: m2_def AList.delete_conv')
  have s: "map_of m2 (u ''sources'') \<noteq> None"
    by (simp add: m2_def AList.delete_conv' promote_v1_def)
  have n: "normalize_manifest m = m2 \<and> map_of m2 (u ''tombstones'') \<noteq> None \<or>
      (\<exists>t. normalize_manifest m = AList.update (u ''tombstones'') t m2)"
    unfolding normalize_manifest_def Let_def m2_def [symmetric]
    by (auto split: option.split json.split)
  show "map_of (normalize_manifest m) (u ''files'') = None"
    "map_of (normalize_manifest m) (u ''sources'') \<noteq> None"
    "map_of (normalize_manifest m) (u ''tombstones'') \<noteq> None"
    using n f s by auto
qed

lemma map_of_normalize_sources:
  "map_of (normalize_manifest m) (u ''sources'') =
     (case map_of m (u ''sources'') of
        Some s \<Rightarrow> Some s
      | None \<Rightarrow> Some (JObj [(u ''claude'',
                  JObj [(u ''base_path'', dget m (u ''base_path'') (JStr [])),
                        (u ''files'', dget m (u ''files'') (JObj []))])]))"
proof -
  define m2 where "m2 = AList.delete (u ''files'')
    (if map_of m (u ''sources'') = None then promote_v1 m else m)"
  have "normalize_manifest m = m2 \<or> (\<exists>t. normalize_manifest m = AList.update (u ''tombstones'') t m2)"
    unfolding normalize_manifest_def Let_def m2_def [symmetric]
    by (auto split: option.split json.split)
  then have "map_of (normalize_manifest m) (u ''sources'') = map_of m2 (u ''sources'')" by auto
  then show ?thesis by (auto simp: m2_def AList.delete_conv' promote_v1_def split: option.split)
qed

lemma delete_id: "map_of d k = None \<Longrightarrow> AList.delete k d = d"
  by (simp add: AList.delete_eq map_of_eq_None_iff filter_id_conv) force

lemma load_manifest_Inr:
  assumes "load_manifest wide lim alpha data = Inr n'"
  obtains d srcs tombs srcs' tombs' where
    "deserialize_manifest wide lim data = Inr (JObj d)"
    "map_of (normalize_manifest d) (u ''sources'') = Some (JObj srcs)"
    "map_of (normalize_manifest d) (u ''tombstones'') = Some (JObj tombs)"
    "try_each (check_source alpha) srcs = Inr srcs'"
    "try_each (check_tombstone alpha) tombs = Inr tombs'"
    "n' = AList.update (u ''sources'') (JObj srcs') (normalize_manifest d)"
  using assms
  by (auto simp: load_manifest_def Let_def dget_def split: sum.splits option.splits)

lemma deserialize_ok: "deserialize_manifest wide lim data = Inr v \<Longrightarrow> json_ok v"
  unfolding deserialize_manifest_def
  by (auto dest: json_loads_ok split: option.split_asm sum.split_asm json_error.split_asm)

lemma load_manifest_loaded_shape:
  assumes "load_manifest wide lim alpha data = Inr n"
  shows "loaded_shape n"
proof -
  from assms obtain d srcs tombs srcs' tombs' where
    d: "deserialize_manifest wide lim data = Inr (JObj d)" and
    s: "map_of (normalize_manifest d) (u ''sources'') = Some (JObj srcs)" and
    t: "map_of (normalize_manifest d) (u ''tombstones'') = Some (JObj tombs)" and
    s': "try_each (check_source alpha) srcs = Inr srcs'" and
    t': "try_each (check_tombstone alpha) tombs = Inr tombs'" and
    n: "n = AList.update (u ''sources'') (JObj srcs') (normalize_manifest d)"
    by (rule load_manifest_Inr)
  have ok: "json_ok (JObj (normalize_manifest d))"
    by (rule json_ok_normalize [OF deserialize_ok [OF d]])
  have "json_ok (JObj srcs')" by (rule check_sources_ok [OF s' json_ok_member [OF ok s]])
  then have okn: "json_ok (JObj n)" unfolding n by (rule json_ok_update [OF ok])
  have src: "source_shape src" if m: "(name, src) \<in> set srcs'" for name src
  proof -
    from try_each_mem [OF s' m] obtain x where "check_source alpha (fst x, snd x) = Inr (name, src)"
      by auto
    from check_source_shape [OF this] show ?thesis by simp
  qed
  have tmb: "tombstone_shape e" if m: "e \<in> set tombs" for e
  proof -
    from try_each_dom [OF t' m] obtain e' where "check_tombstone alpha e = Inr e'" by blast
    then show ?thesis by (rule check_tombstone_shape)
  qed
  show ?thesis
    unfolding loaded_shape_def using okn src tmb t map_of_normalize(1) [of d]
    by (auto simp: n simp del: json_ok.simps)
qed

text \<open>A sample, with backquotes standing for the double quotes of the JSON text.\<close>

definition json_text :: "string \<Rightarrow> bytes" where
  "json_text s = map (\<lambda>c. if c = CHR 0x60 then 34 else of_char c) s"

definition sample_manifest :: bytes where
  "sample_manifest = json_text
     ''{`sources`:{`claude`:{`files`:{`a.md`:{`sha256`:`0f`,`mtime`:7}}}},`files`:{}}''"

section \<open>Properties\<close>

text \<open>C1. The load boundary guarantees the documented shape: a manifest it returns has object-typed
  sources and tombstones and no top-level file list, every file value has a string hash and a
  string or null mtime, every tombstone is an object, all keys at every depth are distinct, and
  every file path and tombstone path resolves inside whatever base directory it is joined to.\<close>

theorem load_manifest_shape:
  assumes "load_manifest wide lim alpha data = Inr n"
  shows "loaded_shape n"
  using assms by (rule load_manifest_loaded_shape)

theorem load_manifest_shape_witness:
  "\<exists>n. load_manifest (\<lambda>_. None) 10 (\<lambda>_. False) sample_manifest = Inr n \<and> loaded_shape n"
proof -
  have "\<not> isl (load_manifest (\<lambda>_. None) 10 (\<lambda>_. False) sample_manifest)" by code_simp
  then obtain n where "load_manifest (\<lambda>_. None) 10 (\<lambda>_. False) sample_manifest = Inr n"
    by (cases "load_manifest (\<lambda>_. None) 10 (\<lambda>_. False) sample_manifest") auto
  with load_manifest_shape [OF this] show ?thesis by blast
qed

text \<open>C8. Normalization is idempotent, on v1 and v2 input alike, always leaves a v2 shape (sources
  and tombstones present, no top-level file list), and the promotion of a v1 manifest keeps its
  file list, under the claude source.\<close>

theorem normalize_manifest_idempotent:
  "normalize_manifest (normalize_manifest m) = normalize_manifest m \<and>
   map_of (normalize_manifest m) (u ''files'') = None \<and>
   map_of (normalize_manifest m) (u ''tombstones'') \<noteq> None \<and>
   map_of (normalize_manifest m) (u ''sources'') =
     (case map_of m (u ''sources'') of
        Some s \<Rightarrow> Some s
      | None \<Rightarrow> Some (JObj [(u ''claude'',
                  JObj [(u ''base_path'', dget m (u ''base_path'') (JStr [])),
                        (u ''files'', dget m (u ''files'') (JObj []))])]))"
proof (intro conjI map_of_normalize map_of_normalize_sources)
  obtain s t where "map_of (normalize_manifest m) (u ''sources'') = Some s"
    and "map_of (normalize_manifest m) (u ''tombstones'') = Some t"
    using map_of_normalize(2,3) [of m] by blast
  moreover from map_of_normalize(1) [of m]
  have "AList.delete (u ''files'') (normalize_manifest m) = normalize_manifest m" by (rule delete_id)
  ultimately show "normalize_manifest (normalize_manifest m) = normalize_manifest m"
    by (subst normalize_manifest_def) (simp add: Let_def)
qed

text \<open>Hostile bytes can leave the load boundary with an exception it does not declare: an
  integer literal longer than the interpreter's digit limit is a plain \<open>ValueError\<close>, which
  \<open>deserialize_manifest\<close> does not turn into \<open>ManifestError\<close>.\<close>

theorem long_integer_escapes:
  "load_manifest wide lim alpha (replicate 4301 49) = Inl EscapedValueError"
proof -
  have b: "byte_ints (replicate n 49) = replicate n 49" for n
    by (simp add: byte_ints_def)
  have "decode_strict_ints True (replicate n 49) = Some (replicate n 49)" for n
    by (induction n) (auto simp: utf8_step_def)
  then have dec: "decode_json_bytes wide (replicate 4301 49) = Some (replicate 4301 49)"
    unfolding decode_json_bytes_def b
    by (simp add: detect_utf8_def startswith_def decode_utf8_pass_def b)
  have rep: "replicate 4301 49 = 49 # replicate 4300 (49 :: int)"
    by (metis Suc_numeral replicate_Suc semiring_norm(5))
  have ds: "digits_of (replicate n 49) = replicate n 49" for n
    by (simp add: digits_of_def takeWhile_eq_all_conv is_digit_def)
  have si: "scan_int (replicate 4301 49) = Some (replicate 4301 49)"
    using ds [of 4301] unfolding rep by (simp add: scan_int_def is_digit_def)
  have "scan_number (replicate 4301 49) = Inl JSONValueError"
    unfolding scan_number_def si
    by (simp add: Let_def scan_frac_def scan_exp_def is_digit_def MAX_STR_DIGITS_def)
  moreover have "scan_const (replicate 4301 49) = None"
    unfolding rep by (simp add: scan_const_def u_def)
  ultimately have "scan_value lim (replicate 4301 49) = Inl JSONValueError"
    by (subst scan_value.simps) (simp add: rep)
  moreover have "skip_ws (replicate 4301 49) = replicate 4301 49"
    unfolding rep by (simp add: skip_ws_def json_ws_def)
  moreover have "\<not> startswith (replicate 4301 49) [65279 :: int]" unfolding rep by simp
  ultimately have "json_loads lim (replicate 4301 49) = Inl JSONValueError"
    by (simp add: json_loads_def)
  then show ?thesis by (simp add: load_manifest_def deserialize_manifest_def dec)
qed

end
