(* ===== verification/Manifest.thy ===== *)
theory Manifest
  imports ManifestLoad Datetime
begin

text \<open>
  The manifest as the program uses it after the load boundary: sources, files and tombstones as
  records over dictionaries, the conversion from a loaded JSON object, and the pure comparisons
  of \<open>manifest.py\<close> -- \<open>diff_files\<close>, \<open>generate_tombstones\<close>, \<open>collect_tombstones\<close>,
  \<open>is_tombstoned\<close>. A tombstone stays a JSON object, because its \<open>deleted_at\<close> is not
  type-checked at the boundary. \<open>datetime.fromisoformat\<close> is the argument \<open>fromiso\<close>; an instant is
  a number of microseconds.
\<close>

section \<open>Data\<close>

text \<open>An absent \<open>files\<close> key reads as the empty dictionary everywhere. \<open>m_sources = None\<close> is a
  dictionary without a \<open>sources\<close> key, which one guard distinguishes from an empty one.\<close>

record file_info =
  fi_sha256 :: pystr
  fi_mtime :: "pystr option"
  fi_rest :: jdict

type_synonym files = "(pystr, file_info) dict"
type_synonym tombstones = "(pystr, jdict) dict"

record source_data =
  sd_base_path :: json
  sd_files :: files

record manifest =
  m_timestamp :: pystr
  m_rest :: jdict
  m_sources :: "(pystr, source_data) dict option"
  m_tombstones :: tombstones

definition sources_of :: "manifest \<Rightarrow> (pystr, source_data) dict" where
  "sources_of m = (case m_sources m of None \<Rightarrow> [] | Some s \<Rightarrow> s)"

text \<open>\<open>manifest.get("sources", {}).get(name, {}).get("files", {})\<close>.\<close>

definition files_in :: "(pystr, source_data) dict \<Rightarrow> pystr \<Rightarrow> files" where
  "files_in srcs name = (case map_of srcs name of None \<Rightarrow> [] | Some sd \<Rightarrow> sd_files sd)"

text \<open>\<open>f"{source}:{path}"\<close>.\<close>

definition tomb_key :: "pystr \<Rightarrow> pystr \<Rightarrow> pystr" where
  "tomb_key name path = name @ 58 # path"

definition wf_sources :: "(pystr, source_data) dict \<Rightarrow> bool" where
  "wf_sources srcs \<longleftrightarrow> distinct_keys srcs \<and> (\<forall>(name, sd) \<in> set srcs. distinct_keys (sd_files sd))"

definition wf_manifest :: "manifest \<Rightarrow> bool" where
  "wf_manifest m \<longleftrightarrow> wf_sources (sources_of m) \<and> distinct_keys (m_tombstones m)"

text \<open>The keys of the files a manifest lists.\<close>

definition listed_keys :: "(pystr, source_data) dict \<Rightarrow> pystr list" where
  "listed_keys srcs = concat (map (\<lambda>(name, sd). map (tomb_key name) (dkeys (sd_files sd))) srcs)"

section \<open>From a loaded object\<close>

definition file_of :: "json \<Rightarrow> file_info option" where
  "file_of v =
     (case as_obj v of
        None \<Rightarrow> None
      | Some d \<Rightarrow>
          (case map_of d (u ''sha256'') of
             Some (JStr s) \<Rightarrow>
               Some \<lparr>fi_sha256 = s, fi_mtime = as_str (dget d (u ''mtime'') JNull),
                     fi_rest = AList.delete (u ''sha256'') (AList.delete (u ''mtime'') d)\<rparr>
           | _ \<Rightarrow> None))"

definition pair_with :: "('b \<Rightarrow> 'c option) \<Rightarrow> 'a \<times> 'b \<Rightarrow> ('a \<times> 'c) option" where
  "pair_with f e = map_option (Pair (fst e)) (f (snd e))"

definition dict_of :: "('v \<Rightarrow> 'w option) \<Rightarrow> (pystr, 'v) dict \<Rightarrow> (pystr, 'w) dict option" where
  "dict_of f d = those (map (pair_with f) d)"

definition source_of :: "json \<Rightarrow> source_data option" where
  "source_of v =
     (case as_obj v of
        None \<Rightarrow> None
      | Some d \<Rightarrow>
          (case as_obj (dget d (u ''files'') (JObj [])) of
             None \<Rightarrow> None
           | Some fs \<Rightarrow>
               map_option (\<lambda>files. \<lparr>sd_base_path = dget d (u ''base_path'') (JStr []), sd_files = files\<rparr>)
                 (dict_of file_of fs)))"

definition manifest_of :: "jdict \<Rightarrow> manifest option" where
  "manifest_of d =
     (case (as_obj (dget d (u ''sources'') (JObj [])), as_obj (dget d (u ''tombstones'') (JObj [])),
            as_str (dget d (u ''timestamp'') (JStr []))) of
        (Some ss, Some ts, Some stamp) \<Rightarrow>
          (case (dict_of source_of ss, dict_of as_obj ts) of
             (Some srcs, Some tombs) \<Rightarrow>
               Some \<lparr>m_timestamp = stamp,
                     m_rest = AList.delete (u ''sources'') (AList.delete (u ''tombstones'')
                       (AList.delete (u ''timestamp'') d)),
                     m_sources = (if map_of d (u ''sources'') = None then None else Some srcs),
                     m_tombstones = tombs\<rparr>
           | _ \<Rightarrow> None)
      | _ \<Rightarrow> None)"

section \<open>Comparing file lists\<close>

record diff_result =
  d_new :: files
  d_modified :: files
  d_deleted :: "pystr list"
  d_unchanged :: "pystr list"

definition diff_step :: "files \<Rightarrow> pystr \<times> file_info \<Rightarrow> diff_result \<Rightarrow> diff_result" where
  "diff_step remote e r =
     (case e of (path, info) \<Rightarrow>
        (case map_of remote path of
           None \<Rightarrow> r\<lparr>d_new := AList.update path info (d_new r)\<rparr>
         | Some rinfo \<Rightarrow>
             (if fi_sha256 info \<noteq> fi_sha256 rinfo
              then r\<lparr>d_modified := AList.update path info (d_modified r)\<rparr>
              else r\<lparr>d_unchanged := d_unchanged r @ [path]\<rparr>)))"

definition diff_files :: "files \<Rightarrow> files option \<Rightarrow> diff_result" where
  "diff_files local_files remote =
     (let remote_files = (case remote of None \<Rightarrow> [] | Some r \<Rightarrow> r);
          r = fold (diff_step remote_files) local_files
                \<lparr>d_new = [], d_modified = [], d_deleted = [], d_unchanged = []\<rparr>
      in r\<lparr>d_deleted := filter (\<lambda>p. map_of local_files p = None) (dkeys remote_files)\<rparr>)"

definition has_changes :: "diff_result \<Rightarrow> bool" where
  "has_changes r \<longleftrightarrow> d_new r \<noteq> [] \<or> d_modified r \<noteq> [] \<or> d_deleted r \<noteq> []"

section \<open>Tombstones\<close>

definition TOMBSTONE_TTL_DAYS :: int where
  "TOMBSTONE_TTL_DAYS = 30"

definition days :: "int \<Rightarrow> int" where
  "days n = n * 86400000000"

definition cutoff_at :: "int \<Rightarrow> int" where
  "cutoff_at now = now - days TOMBSTONE_TTL_DAYS"

definition is_active_tombstone :: "(pystr \<Rightarrow> py_dt option) \<Rightarrow> int \<Rightarrow> jdict \<Rightarrow> bool" where
  "is_active_tombstone fromiso cutoff info =
     (case as_str (dget info (u ''deleted_at'') (JStr [])) of
        None \<Rightarrow> False
      | Some s \<Rightarrow> (case fromiso s of None \<Rightarrow> False | Some dt \<Rightarrow> cutoff < utc_of dt))"

definition new_tombstone :: "pystr \<Rightarrow> pystr \<Rightarrow> jdict" where
  "new_tombstone now_iso device_id =
     [(u ''deleted_at'', JStr now_iso), (u ''device_id'', JStr device_id)]"

text \<open>The inner loop over the paths of one source of the prior manifest.\<close>

definition bury_source ::
  "jdict \<Rightarrow> (pystr, source_data) dict \<Rightarrow> pystr \<times> source_data \<Rightarrow> tombstones \<Rightarrow> tombstones" where
  "bury_source tomb local_sources e acc =
     (case e of (name, remote_src) \<Rightarrow>
        (let local_files = files_in local_sources name
         in fold (\<lambda>path acc.
                let key = tomb_key name path
                in if map_of local_files path = None \<and> map_of acc key = None
                   then AList.update key tomb acc else acc)
              (dkeys (sd_files remote_src)) acc))"

definition generate_tombstones ::
  "(pystr \<Rightarrow> py_dt option) \<Rightarrow> int \<Rightarrow> pystr \<Rightarrow> manifest \<Rightarrow> manifest option \<Rightarrow> pystr \<Rightarrow>
     load_error + tombstones" where
  "generate_tombstones fromiso now now_iso local_m remote device_id =
     (case remote of
        None \<Rightarrow> Inr []
      | Some r \<Rightarrow>
          (if m_sources r = None then Inl ManifestError
           else
             (let cutoff = cutoff_at now;
                  carried = dict_filter (\<lambda>_ info. is_active_tombstone fromiso cutoff info) (m_tombstones r);
                  buried = fold (bury_source (new_tombstone now_iso device_id) (sources_of local_m))
                             (sources_of r) carried;
                  live = listed_keys (sources_of local_m)
              in Inr (dict_filter (\<lambda>key _. key \<notin> set live) buried))))"

text \<open>\<open>deleted_at > existing.get("deleted_at", "")\<close>, where both parsed as instants and so are
  strings.\<close>

definition deleted_at_gt :: "jdict \<Rightarrow> jdict \<Rightarrow> bool" where
  "deleted_at_gt a b =
     (case (as_str (dget a (u ''deleted_at'') (JStr [])), as_str (dget b (u ''deleted_at'') (JStr []))) of
        (Some x, Some y) \<Rightarrow> y < x
      | _ \<Rightarrow> False)"

definition collect_one :: "(pystr \<Rightarrow> py_dt option) \<Rightarrow> int \<Rightarrow> pystr \<times> jdict \<Rightarrow> tombstones \<Rightarrow> tombstones" where
  "collect_one fromiso cutoff e acc =
     (case e of (path, info) \<Rightarrow>
        (if \<not> is_active_tombstone fromiso cutoff info then acc
         else
           (case map_of acc path of
              None \<Rightarrow> AList.update path info acc
            | Some old \<Rightarrow> (if deleted_at_gt info old then AList.update path info acc else acc))))"

definition collect_tombstones ::
  "(pystr \<Rightarrow> py_dt option) \<Rightarrow> int \<Rightarrow> pystr list \<Rightarrow> (pystr \<Rightarrow> manifest option) \<Rightarrow> tombstones" where
  "collect_tombstones fromiso now device_ids fetch_manifest =
     fold (\<lambda>did acc.
         case fetch_manifest did of
           None \<Rightarrow> acc
         | Some m \<Rightarrow> fold (collect_one fromiso (cutoff_at now)) (m_tombstones m) acc)
       device_ids []"

definition is_tombstoned :: "pystr \<Rightarrow> pystr \<Rightarrow> tombstones \<Rightarrow> bool" where
  "is_tombstoned source rel_path tombs \<longleftrightarrow> map_of tombs (tomb_key source rel_path) \<noteq> None"

section \<open>Laws of the data\<close>

named_theorems manifest_facts

lemma tomb_key_inject:
  assumes "58 \<notin> set s" and "58 \<notin> set s'" and "tomb_key s p = tomb_key s' p'"
  shows "s = s' \<and> p = p'"
proof -
  have "takeWhile (\<lambda>c. c \<noteq> 58) (x @ 58 # y) = x" if "58 \<notin> set x" for x y :: pystr
    using that by (induction x) auto
  with assms have "s = s'" unfolding tomb_key_def by metis
  with assms(3) show ?thesis by (simp add: tomb_key_def)
qed

lemma set_listed_keys:
  "set (listed_keys srcs) = {tomb_key name p | name sd p. (name, sd) \<in> set srcs \<and> p \<in> dom (map_of (sd_files sd))}"
  by (force simp: listed_keys_def)

lemma files_in_mem:
  "wf_sources srcs \<Longrightarrow> (name, sd) \<in> set srcs \<Longrightarrow> files_in srcs name = sd_files sd"
  by (simp add: files_in_def wf_sources_def distinct_keys_def)

lemma set_listed_keys_files_in:
  assumes "wf_sources srcs"
  shows "set (listed_keys srcs) = {tomb_key name p | name p. map_of (files_in srcs name) p \<noteq> None}"
proof -
  have "(\<exists>sd. (name, sd) \<in> set srcs \<and> p \<in> dom (map_of (sd_files sd))) \<longleftrightarrow>
      map_of (files_in srcs name) p \<noteq> None" for name p
  proof
    assume "\<exists>sd. (name, sd) \<in> set srcs \<and> p \<in> dom (map_of (sd_files sd))"
    with files_in_mem [OF assms] show "map_of (files_in srcs name) p \<noteq> None" by auto
  next
    assume "map_of (files_in srcs name) p \<noteq> None"
    then obtain sd where "map_of srcs name = Some sd" "map_of (sd_files sd) p \<noteq> None"
      by (auto simp: files_in_def split: option.splits)
    then show "\<exists>sd. (name, sd) \<in> set srcs \<and> p \<in> dom (map_of (sd_files sd))"
      by (auto dest: map_of_SomeD)
  qed
  then show ?thesis unfolding set_listed_keys by blast
qed

text \<open>A path under a source name without a colon is listed exactly by its key.\<close>

lemma listed_iff:
  assumes "wf_sources srcs" and "\<forall>n \<in> set (dkeys srcs). 58 \<notin> set n" and "58 \<notin> set name"
  shows "tomb_key name p \<in> set (listed_keys srcs) \<longleftrightarrow> map_of (files_in srcs name) p \<noteq> None"
proof
  assume "tomb_key name p \<in> set (listed_keys srcs)"
  then obtain n q where eq: "tomb_key name p = tomb_key n q" and q: "map_of (files_in srcs n) q \<noteq> None"
    by (auto simp: set_listed_keys_files_in [OF assms(1)])
  from q have "n \<in> set (dkeys srcs)" by (auto simp: files_in_def split: option.splits)
  with assms(2,3) tomb_key_inject [OF _ _ eq] q show "map_of (files_in srcs name) p \<noteq> None" by blast
qed (use assms(1) in \<open>auto simp: set_listed_keys_files_in\<close>)


subsection \<open>diff_files\<close>

lemma update_fresh: "map_of d k = None \<Longrightarrow> AList.update k v d = d @ [(k, v)]"
  by (induction d) auto

lemma dict_empty_iff: "d = [] \<longleftrightarrow> (\<forall>k v. map_of d k \<noteq> Some v)"
  by (cases d) auto

text \<open>On distinct keys the loop is three filters.\<close>

lemma diff_fold:
  assumes "distinct_keys xs"
    and "\<forall>p. map_of xs p \<noteq> None \<longrightarrow> map_of (d_new r) p = None \<and> map_of (d_modified r) p = None"
  shows "fold (diff_step remote) xs r =
     r\<lparr>d_new := d_new r @ dict_filter (\<lambda>p _. map_of remote p = None) xs,
       d_modified := d_modified r @
         dict_filter (\<lambda>p i. \<exists>j. map_of remote p = Some j \<and> fi_sha256 i \<noteq> fi_sha256 j) xs,
       d_unchanged := d_unchanged r @
         dkeys (dict_filter (\<lambda>p i. \<exists>j. map_of remote p = Some j \<and> fi_sha256 i = fi_sha256 j) xs)\<rparr>"
  using assms
proof (induction xs arbitrary: r)
  case Nil
  then show ?case by (simp add: dict_filter_def dkeys_def)
next
  case (Cons e xs)
  obtain p i where e: "e = (p, i)" by (cases e)
  define r' where "r' = diff_step remote e r"
  have fresh: "map_of (d_new r) p = None" "map_of (d_modified r) p = None"
    using Cons.prems(2) e by auto
  have dk: "distinct_keys xs" and none: "map_of xs p = None" using Cons.prems(1) e by auto
  have "\<forall>q. map_of xs q \<noteq> None \<longrightarrow> map_of (d_new r') q = None \<and> map_of (d_modified r') q = None"
    using Cons.prems(2) none unfolding r'_def e
    by (auto simp: diff_step_def split: option.splits if_splits)
  with dk have IH: "fold (diff_step remote) xs r' =
     r'\<lparr>d_new := d_new r' @ dict_filter (\<lambda>p _. map_of remote p = None) xs,
       d_modified := d_modified r' @
         dict_filter (\<lambda>p i. \<exists>j. map_of remote p = Some j \<and> fi_sha256 i \<noteq> fi_sha256 j) xs,
       d_unchanged := d_unchanged r' @
         dkeys (dict_filter (\<lambda>p i. \<exists>j. map_of remote p = Some j \<and> fi_sha256 i = fi_sha256 j) xs)\<rparr>"
    by (rule Cons.IH)
  have step: "fold (diff_step remote) (e # xs) r = fold (diff_step remote) xs r'" by (simp add: r'_def)
  show ?case
    unfolding step IH using fresh unfolding r'_def e
    by (auto simp: diff_step_def dict_filter_def dkeys_def update_fresh split: option.splits)
qed

lemma diff_files_eq:
  assumes "distinct_keys xs"
  shows "diff_files xs remote =
    (let r = (case remote of None \<Rightarrow> [] | Some r \<Rightarrow> r) in
     \<lparr>d_new = dict_filter (\<lambda>p _. map_of r p = None) xs,
      d_modified = dict_filter (\<lambda>p i. \<exists>j. map_of r p = Some j \<and> fi_sha256 i \<noteq> fi_sha256 j) xs,
      d_deleted = filter (\<lambda>p. map_of xs p = None) (dkeys r),
      d_unchanged = dkeys (dict_filter (\<lambda>p i. \<exists>j. map_of r p = Some j \<and> fi_sha256 i = fi_sha256 j) xs)\<rparr>)"
  using diff_fold [OF assms, of "\<lparr>d_new = [], d_modified = [], d_deleted = [], d_unchanged = []\<rparr>"]
  by (simp add: diff_files_def Let_def)

subsection \<open>generate_tombstones\<close>

text \<open>What one source of the prior manifest adds, and what the whole loop adds.\<close>

lemma bury_paths_map_of:
  "map_of (fold (\<lambda>path acc. let key = tomb_key name path
       in if P path \<and> map_of acc key = None then AList.update key t acc else acc) ps acc) k =
   (case map_of acc k of
      Some i \<Rightarrow> Some i
    | None \<Rightarrow> if \<exists>p \<in> set ps. P p \<and> k = tomb_key name p then Some t else None)"
proof (induction ps arbitrary: acc)
  case Nil
  then show ?case by (auto split: option.split)
next
  case (Cons p ps)
  show ?case
    by (simp only: fold_Cons o_apply Cons.IH) (auto simp: Let_def split: option.splits)
qed

lemma bury_source_map_of:
  "map_of (bury_source t srcs (name, sd) acc) k =
   (case map_of acc k of
      Some i \<Rightarrow> Some i
    | None \<Rightarrow> if \<exists>p. map_of (sd_files sd) p \<noteq> None \<and> map_of (files_in srcs name) p = None \<and> k = tomb_key name p
              then Some t else None)"
  unfolding bury_source_def prod.case Let_def bury_paths_map_of [unfolded Let_def]
  by (auto split: option.split)

lemma case_if_merge:
  "(case (case x of Some i \<Rightarrow> Some i | None \<Rightarrow> if A then Some t else None) of
      Some i \<Rightarrow> Some i | None \<Rightarrow> if B then Some t else None) =
   (case x of Some i \<Rightarrow> Some i | None \<Rightarrow> if A \<or> B then Some t else None)"
  by (auto split: option.split)

lemma bury_sources_map_of:
  "map_of (fold (bury_source t srcs) rs acc) k =
   (case map_of acc k of
      Some i \<Rightarrow> Some i
    | None \<Rightarrow> if \<exists>name sd p. (name, sd) \<in> set rs \<and> map_of (sd_files sd) p \<noteq> None \<and>
                   map_of (files_in srcs name) p = None \<and> k = tomb_key name p
              then Some t else None)"
proof (induction rs arbitrary: acc)
  case Nil
  then show ?case by (auto split: option.split)
next
  case (Cons e rs)
  obtain name sd where e: "e = (name, sd)" by (cases e)
  have split: "(\<exists>n s p. (n, s) \<in> set (e # rs) \<and> R n s p) \<longleftrightarrow>
      (\<exists>p. R name sd p) \<or> (\<exists>n s p. (n, s) \<in> set rs \<and> R n s p)" for R
    by (auto simp: e)
  show ?case
    unfolding fold_Cons o_apply Cons.IH split unfolding e bury_source_map_of case_if_merge ..
qed

lemma bury_source_distinct: "distinct_keys acc \<Longrightarrow> distinct_keys (bury_source t srcs e acc)"
proof (cases e)
  case (Pair name sd)
  have "distinct_keys acc \<Longrightarrow> distinct_keys (fold (\<lambda>path acc. let key = tomb_key name path
       in if P path \<and> map_of acc key = None then AList.update key t acc else acc) ps acc)" for P ps acc
    by (induction ps arbitrary: acc) (auto simp: Let_def distinct_keys_update)
  then show "distinct_keys acc \<Longrightarrow> ?thesis" by (simp add: bury_source_def Pair Let_def)
qed

lemma bury_sources_distinct: "distinct_keys acc \<Longrightarrow> distinct_keys (fold (bury_source t srcs) rs acc)"
  by (induction rs arbitrary: acc) (auto simp: bury_source_distinct)

definition vanished_keys :: "(pystr, source_data) dict \<Rightarrow> (pystr, source_data) dict \<Rightarrow> pystr set" where
  "vanished_keys now_srcs prior_srcs =
     {tomb_key name p | name p. map_of (files_in prior_srcs name) p \<noteq> None \<and>
                                map_of (files_in now_srcs name) p = None}"

lemma generate_tombstones_map_of:
  assumes "generate_tombstones fromiso now now_iso local_m (Some r) device_id = Inr ts"
    and "wf_manifest r" and "wf_manifest local_m"
  shows "map_of ts k =
    (if k \<in> set (listed_keys (sources_of local_m)) then None
     else
       (case map_of (m_tombstones r) k of
          Some info \<Rightarrow>
            if is_active_tombstone fromiso (cutoff_at now) info then Some info
            else if k \<in> vanished_keys (sources_of local_m) (sources_of r)
            then Some (new_tombstone now_iso device_id) else None
        | None \<Rightarrow>
            if k \<in> vanished_keys (sources_of local_m) (sources_of r)
            then Some (new_tombstone now_iso device_id) else None))"
proof -
  define carried where
    "carried = dict_filter (\<lambda>_ info. is_active_tombstone fromiso (cutoff_at now) info) (m_tombstones r)"
  define buried where
    "buried = fold (bury_source (new_tombstone now_iso device_id) (sources_of local_m)) (sources_of r) carried"
  have ts: "ts = dict_filter (\<lambda>key _. key \<notin> set (listed_keys (sources_of local_m))) buried"
    using assms(1) by (simp add: generate_tombstones_def Let_def carried_def buried_def split: if_splits)
  have dt: "distinct_keys (m_tombstones r)" and wr: "wf_sources (sources_of r)"
    using assms(2) by (auto simp: wf_manifest_def)
  have dc: "distinct_keys carried" unfolding carried_def by (rule distinct_keys_filter [OF dt])
  have db: "distinct_keys buried" unfolding buried_def by (rule bury_sources_distinct [OF dc])
  have v: "(\<exists>name sd p. (name, sd) \<in> set (sources_of r) \<and> map_of (sd_files sd) p \<noteq> None \<and>
        map_of (files_in (sources_of local_m) name) p = None \<and> k = tomb_key name p) \<longleftrightarrow>
      k \<in> vanished_keys (sources_of local_m) (sources_of r)"
  proof
    assume "\<exists>name sd p. (name, sd) \<in> set (sources_of r) \<and> map_of (sd_files sd) p \<noteq> None \<and>
        map_of (files_in (sources_of local_m) name) p = None \<and> k = tomb_key name p"
    with files_in_mem [OF wr] show "k \<in> vanished_keys (sources_of local_m) (sources_of r)"
      unfolding vanished_keys_def by fastforce
  next
    assume "k \<in> vanished_keys (sources_of local_m) (sources_of r)"
    then obtain name p where k: "k = tomb_key name p"
      and p: "map_of (files_in (sources_of r) name) p \<noteq> None" "map_of (files_in (sources_of local_m) name) p = None"
      unfolding vanished_keys_def by blast
    from p(1) obtain sd where "(name, sd) \<in> set (sources_of r)" "map_of (sd_files sd) p \<noteq> None"
      by (auto simp: files_in_def split: option.splits dest: map_of_SomeD)
    with k p(2) show "\<exists>name sd p. (name, sd) \<in> set (sources_of r) \<and> map_of (sd_files sd) p \<noteq> None \<and>
        map_of (files_in (sources_of local_m) name) p = None \<and> k = tomb_key name p" by blast
  qed
  have mb: "map_of buried k = (case map_of carried k of Some i \<Rightarrow> Some i
      | None \<Rightarrow> if k \<in> vanished_keys (sources_of local_m) (sources_of r)
                then Some (new_tombstone now_iso device_id) else None)"
    unfolding buried_def bury_sources_map_of v ..
  show ?thesis
    unfolding ts map_of_dict_filter [OF db] mb carried_def map_of_dict_filter [OF dt]
    by (auto split: option.split)
qed

subsection \<open>collect_tombstones\<close>

text \<open>All active entries the loop sees, in order.\<close>

definition active_entries ::
  "(pystr \<Rightarrow> py_dt option) \<Rightarrow> int \<Rightarrow> pystr list \<Rightarrow> (pystr \<Rightarrow> manifest option) \<Rightarrow> (pystr \<times> jdict) list" where
  "active_entries fromiso cutoff dids fetch =
     filter (\<lambda>(_, info). is_active_tombstone fromiso cutoff info)
       (concat (map (\<lambda>did. case fetch did of None \<Rightarrow> [] | Some m \<Rightarrow> m_tombstones m) dids))"

definition tomb_stamp :: "jdict \<Rightarrow> pystr" where
  "tomb_stamp info = (case as_str (dget info (u ''deleted_at'') (JStr [])) of Some s \<Rightarrow> s | None \<Rightarrow> [])"

lemma active_stamp:
  "is_active_tombstone fromiso c i \<Longrightarrow> dget i (u ''deleted_at'') (JStr []) = JStr (tomb_stamp i)"
  by (auto simp: is_active_tombstone_def tomb_stamp_def split: option.splits)

lemma deleted_at_gt_active:
  "is_active_tombstone fromiso c a \<Longrightarrow> is_active_tombstone fromiso c b \<Longrightarrow>
     deleted_at_gt a b \<longleftrightarrow> tomb_stamp b < tomb_stamp a"
  by (auto dest!: active_stamp simp: deleted_at_gt_def)

definition keep_newest :: "pystr \<times> jdict \<Rightarrow> tombstones \<Rightarrow> tombstones" where
  "keep_newest e acc =
     (case map_of acc (fst e) of
        None \<Rightarrow> AList.update (fst e) (snd e) acc
      | Some old \<Rightarrow> if tomb_stamp old < tomb_stamp (snd e) then AList.update (fst e) (snd e) acc else acc)"

lemma keep_newest_invariant:
  "\<forall>k v. map_of (fold keep_newest es acc) k = Some v \<longrightarrow>
     ((k, v) \<in> set es \<or> map_of acc k = Some v) \<and>
     (\<forall>w. (k, w) \<in> set es \<or> map_of acc k = Some w \<longrightarrow> tomb_stamp w \<le> tomb_stamp v)"
  and keep_newest_dom:
  "map_of (fold keep_newest es acc) k = None \<longleftrightarrow> map_of acc k = None \<and> k \<notin> fst ` set es"
proof (induction es arbitrary: acc)
  case Nil
  { case 1 show ?case by auto }
  { case 2 show ?case by auto }
next
  case (Cons e es)
  obtain p i where e: "e = (p, i)" by (cases e)
  { case 1
    show ?case
    proof (intro allI impI)
      fix k v
      assume v: "map_of (fold keep_newest (e # es) acc) k = Some v"
      define acc' where "acc' = keep_newest e acc"
      from v have "map_of (fold keep_newest es acc') k = Some v" by (simp add: acc'_def)
      with Cons.IH(1) [of acc'] have a: "(k, v) \<in> set es \<or> map_of acc' k = Some v"
        and b: "\<And>w. (k, w) \<in> set es \<or> map_of acc' k = Some w \<Longrightarrow> tomb_stamp w \<le> tomb_stamp v"
        by blast+
      have step: "map_of acc' k = Some w \<Longrightarrow> (k, w) = e \<or> map_of acc k = Some w" for w
        by (auto simp: acc'_def keep_newest_def e split: option.splits if_splits)
      have ge: "(k, w) = e \<or> map_of acc k = Some w \<Longrightarrow>
          \<exists>x. map_of acc' k = Some x \<and> tomb_stamp w \<le> tomb_stamp x" for w
        by (auto simp: acc'_def keep_newest_def e split: option.splits if_splits)
      have "tomb_stamp w \<le> tomb_stamp v" if "(k, w) \<in> set (e # es) \<or> map_of acc k = Some w" for w
        using that ge [of w] b order_trans by (metis set_ConsD)
      moreover have "(k, v) \<in> set (e # es) \<or> map_of acc k = Some v" using a step by auto
      ultimately show "((k, v) \<in> set (e # es) \<or> map_of acc k = Some v) \<and>
        (\<forall>w. (k, w) \<in> set (e # es) \<or> map_of acc k = Some w \<longrightarrow> tomb_stamp w \<le> tomb_stamp v)" by blast
    qed }
  { case 2
    show ?case
      using Cons.IH(2) [of "keep_newest e acc"]
      by (auto simp: keep_newest_def e split: option.splits if_splits) }
qed

definition all_values :: "('v \<Rightarrow> bool) \<Rightarrow> ('k, 'v) dict \<Rightarrow> bool" where
  "all_values P d \<longleftrightarrow> list_all (\<lambda>(_, v). P v) d"

lemma all_values_update: "all_values P d \<Longrightarrow> P v \<Longrightarrow> all_values P (AList.update k v d)"
  by (induction d) (auto simp: all_values_def)

lemma all_values_get: "all_values P d \<Longrightarrow> map_of d k = Some v \<Longrightarrow> P v"
  by (auto simp: all_values_def list_all_iff dest!: map_of_SomeD)

lemma collect_one_active:
  assumes "all_values (is_active_tombstone fromiso c) acc"
  shows "collect_one fromiso c (p, i) acc =
    (if is_active_tombstone fromiso c i then keep_newest (p, i) acc else acc)"
proof (cases "map_of acc p")
  case None
  then show ?thesis by (simp add: collect_one_def keep_newest_def)
next
  case (Some old)
  from all_values_get [OF assms Some] Some show ?thesis
    by (simp add: collect_one_def keep_newest_def deleted_at_gt_active)
qed

lemma keep_newest_active:
  "all_values P acc \<Longrightarrow> P i \<Longrightarrow> all_values P (keep_newest (p, i) acc)"
  by (simp add: keep_newest_def all_values_update split: option.split)

lemma fold_collect_one:
  assumes "all_values (is_active_tombstone fromiso c) acc"
  shows "fold (collect_one fromiso c) es acc =
      fold keep_newest (filter (\<lambda>(_, i). is_active_tombstone fromiso c i) es) acc \<and>
    all_values (is_active_tombstone fromiso c) (fold (collect_one fromiso c) es acc)"
  using assms
proof (induction es arbitrary: acc)
  case Nil
  then show ?case by simp
next
  case (Cons e es)
  obtain p i where e: "e = (p, i)" by (cases e)
  show ?case
  proof (cases "is_active_tombstone fromiso c i")
    case True
    note IH = Cons.IH [OF keep_newest_active [where p = p, OF Cons.prems True]]
    show ?thesis
      using conjunct2 [OF IH] by (simp add: e collect_one_active Cons.prems True conjunct1 [OF IH])
  next
    case False
    note IH = Cons.IH [OF Cons.prems]
    show ?thesis
      using conjunct2 [OF IH] by (simp add: e collect_one_active Cons.prems False conjunct1 [OF IH])
  qed
qed

lemma collect_tombstones_eq:
  "collect_tombstones fromiso now dids fetch =
     fold keep_newest (active_entries fromiso (cutoff_at now) dids fetch) []"
proof -
  have "fold (\<lambda>did acc. case fetch did of None \<Rightarrow> acc
            | Some m \<Rightarrow> fold (collect_one fromiso c) (m_tombstones m) acc) dids acc =
        fold keep_newest (active_entries fromiso c dids fetch) acc"
    if "all_values (is_active_tombstone fromiso c) acc" for c acc
    using that
  proof (induction dids arbitrary: acc)
    case Nil
    then show ?case by (simp add: active_entries_def)
  next
    case (Cons d dids)
    show ?case
    proof (cases "fetch d")
      case None
      with Cons.IH [OF Cons.prems] show ?thesis by (simp add: active_entries_def)
    next
      case (Some m)
      from fold_collect_one [OF Cons.prems, of "m_tombstones m"]
      have f: "fold (collect_one fromiso c) (m_tombstones m) acc =
          fold keep_newest (filter (\<lambda>(_, i). is_active_tombstone fromiso c i) (m_tombstones m)) acc"
        and a: "all_values (is_active_tombstone fromiso c) (fold (collect_one fromiso c) (m_tombstones m) acc)"
        by blast+
      from Cons.IH [OF a] show ?thesis by (simp add: active_entries_def Some f)
    qed
  qed
  then show ?thesis by (simp add: collect_tombstones_def all_values_def)
qed


subsection \<open>Publishing over time\<close>

text \<open>What a push leaves as the next prior manifest: the scanned sources, and the tombstones
  generated against the prior one. \<open>show\<close> renders an instant.\<close>

definition publish ::
  "(pystr \<Rightarrow> py_dt option) \<Rightarrow> (int \<Rightarrow> pystr) \<Rightarrow> pystr \<Rightarrow> int \<times> (pystr, source_data) dict \<Rightarrow>
     manifest option \<Rightarrow> manifest option" where
  "publish fromiso show device_id push prior =
     (case push of (now, srcs) \<Rightarrow>
        (let local_m = \<lparr>m_timestamp = show now, m_rest = [], m_sources = Some srcs, m_tombstones = []\<rparr>
         in case generate_tombstones fromiso now (show now) local_m prior device_id of
              Inl _ \<Rightarrow> None
            | Inr ts \<Rightarrow> Some (local_m\<lparr>m_tombstones := ts\<rparr>)))"

lemma generate_tombstones_total:
  assumes "case prior of None \<Rightarrow> True | Some r \<Rightarrow> m_sources r \<noteq> None"
  shows "\<exists>ts. generate_tombstones fromiso now now_iso local_m prior device_id = Inr ts"
  using assms by (auto simp: generate_tombstones_def Let_def split: option.splits)

lemma generate_tombstones_distinct:
  assumes "generate_tombstones fromiso now now_iso local_m (Some r) device_id = Inr ts"
    and "distinct_keys (m_tombstones r)"
  shows "distinct_keys ts"
  using assms
  by (auto simp: generate_tombstones_def Let_def bury_sources_distinct distinct_keys_filter split: if_splits)

lemma publish_Some:
  assumes "m_sources r \<noteq> None" "wf_manifest r" "wf_sources srcs"
  obtains m where "publish fromiso show device_id (now, srcs) (Some r) = Some m"
    "m_sources m = Some srcs" "wf_manifest m"
    "generate_tombstones fromiso now (show now)
       \<lparr>m_timestamp = show now, m_rest = [], m_sources = Some srcs, m_tombstones = []\<rparr> (Some r) device_id
     = Inr (m_tombstones m)"
proof -
  define l where "l = \<lparr>m_timestamp = show now, m_rest = [], m_sources = Some srcs, m_tombstones = []\<rparr>"
  obtain ts where ts: "generate_tombstones fromiso now (show now) l (Some r) device_id = Inr ts"
    using generate_tombstones_total [of "Some r" fromiso now "show now" l device_id] assms(1) by auto
  have "distinct_keys ts"
    by (rule generate_tombstones_distinct [OF ts]) (use assms(2) in \<open>simp add: wf_manifest_def\<close>)
  then show thesis
    using that [of "l\<lparr>m_tombstones := ts\<rparr>"] ts assms(3)
    by (simp add: publish_def Let_def l_def wf_manifest_def sources_of_def)
qed

text \<open>One push keeps an active tombstone that it does not list, and drops an expired one that the
  prior manifest does not list.\<close>

lemma publish_tombstone_step:
  assumes "m_sources r \<noteq> None" "wf_manifest r" "wf_sources srcs"
    and "publish fromiso show device_id (now, srcs) (Some r) = Some m"
    and "k \<notin> set (listed_keys srcs)"
  shows "map_of (m_tombstones m) k =
    (case map_of (m_tombstones r) k of
       Some info \<Rightarrow>
         if is_active_tombstone fromiso (cutoff_at now) info then Some info
         else if k \<in> set (listed_keys (sources_of r)) then Some (new_tombstone (show now) device_id)
         else None
     | None \<Rightarrow> if k \<in> set (listed_keys (sources_of r)) then Some (new_tombstone (show now) device_id)
              else None)"
proof -
  from publish_Some [OF assms(1-3), of fromiso "show" device_id now] obtain m' where
    m': "publish fromiso show device_id (now, srcs) (Some r) = Some m'" and
    g: "generate_tombstones fromiso now (show now)
       \<lparr>m_timestamp = show now, m_rest = [], m_sources = Some srcs, m_tombstones = []\<rparr> (Some r) device_id
     = Inr (m_tombstones m')" by blast
  have mm: "m' = m" using m' assms(4) by simp
  have wl: "wf_manifest \<lparr>m_timestamp = show now, m_rest = [], m_sources = Some srcs, m_tombstones = []\<rparr>"
    using assms(3) by (simp add: wf_manifest_def sources_of_def)
  have wr: "wf_sources (sources_of r)" using assms(2) by (simp add: wf_manifest_def)
  have v: "k \<in> vanished_keys srcs (sources_of r) \<longleftrightarrow> k \<in> set (listed_keys (sources_of r))"
    using assms(5) unfolding vanished_keys_def set_listed_keys_files_in [OF wr]
      set_listed_keys_files_in [OF assms(3)] by blast
  show ?thesis
    using generate_tombstones_map_of [OF g assms(2) wl, of k] assms(5) v
    by (simp add: mm sources_of_def)
qed

fun publish_all ::
  "(pystr \<Rightarrow> py_dt option) \<Rightarrow> (int \<Rightarrow> pystr) \<Rightarrow> pystr \<Rightarrow> (int \<times> (pystr, source_data) dict) list \<Rightarrow>
     manifest option \<Rightarrow> manifest option" where
  "publish_all fromiso show device_id [] prior = prior"
| "publish_all fromiso show device_id (p # ps) prior =
     (case publish fromiso show device_id p prior of
        None \<Rightarrow> None
      | Some m \<Rightarrow> publish_all fromiso show device_id ps (Some m))"

lemma publish_all_keeps:
  assumes "m_sources r \<noteq> None" "wf_manifest r"
    and "map_of (m_tombstones r) k = Some info"
    and "\<forall>(now, srcs) \<in> set pushes. wf_sources srcs \<and> k \<notin> set (listed_keys srcs) \<and>
           is_active_tombstone fromiso (cutoff_at now) info"
  shows "\<exists>m. publish_all fromiso show device_id pushes (Some r) = Some m \<and>
           map_of (m_tombstones m) k = Some info"
  using assms
proof (induction pushes arbitrary: r)
  case Nil
  then show ?case by simp
next
  case (Cons p ps)
  obtain now srcs where p: "p = (now, srcs)" by (cases p)
  from Cons.prems(4) have ws: "wf_sources srcs" and nl: "k \<notin> set (listed_keys srcs)"
    and act: "is_active_tombstone fromiso (cutoff_at now) info" by (auto simp: p)
  from publish_Some [OF Cons.prems(1,2) ws] obtain m where
    m: "publish fromiso show device_id (now, srcs) (Some r) = Some m"
    and s: "m_sources m = Some srcs" and w: "wf_manifest m" by metis
  have "map_of (m_tombstones m) k = Some info"
    using publish_tombstone_step [OF Cons.prems(1,2) ws m nl] Cons.prems(3) act by simp
  with Cons.IH [of m] s w Cons.prems(4) show ?case by (simp add: p m)
qed

section \<open>The clock\<close>

text \<open>What tombstones need of the calendar: an instant rendered into a manifest parses back.\<close>

locale clock =
  fixes fromiso :: "pystr \<Rightarrow> py_dt option"
    and render :: "int \<Rightarrow> pystr"
    and in_range :: "int \<Rightarrow> bool"
  assumes roundtrip: "in_range t \<Longrightarrow> fromiso (render t) = Some (Aware t)"
begin

lemma fresh_tombstone_active:
  assumes "in_range t"
  shows "is_active_tombstone fromiso c (new_tombstone (render t) dev) \<longleftrightarrow> c < t"
  by (simp add: is_active_tombstone_def new_tombstone_def dget_def roundtrip [OF assms])

lemma buried_by_push:
  assumes "m_sources r \<noteq> None" "wf_manifest r" "wf_sources srcs"
    and "k \<in> set (listed_keys (sources_of r))" and "k \<notin> set (listed_keys srcs)"
    and "map_of (m_tombstones r) k = None" and "in_range t"
    and "\<forall>(now, s) \<in> set later. wf_sources s \<and> k \<notin> set (listed_keys s) \<and> now < t + days TOMBSTONE_TTL_DAYS"
  shows "\<exists>m. publish_all fromiso render dev ((t, srcs) # later) (Some r) = Some m \<and>
           map_of (m_tombstones m) k = Some (new_tombstone (render t) dev)"
proof -
  from publish_Some [OF assms(1-3)] obtain m where
    m: "publish fromiso render dev (t, srcs) (Some r) = Some m"
    and s: "m_sources m = Some srcs" and w: "wf_manifest m" by metis
  have "map_of (m_tombstones m) k = Some (new_tombstone (render t) dev)"
    using publish_tombstone_step [OF assms(1-3) m assms(5)] assms(4,6) by simp
  moreover have "\<forall>(now, srcs) \<in> set later. wf_sources srcs \<and> k \<notin> set (listed_keys srcs) \<and>
      is_active_tombstone fromiso (cutoff_at now) (new_tombstone (render t) dev)"
    using assms(8) unfolding fresh_tombstone_active [OF assms(7)] cutoff_at_def by fastforce
  ultimately show ?thesis
    using publish_all_keeps [of m k _ later fromiso render dev] s w by (simp add: m)
qed

end

interpretation utc_clock: clock parse_iso show_instant instant_ok
  by unfold_locales (rule parse_show_instant)

section \<open>Properties\<close>

text \<open>The diff classifies every path exactly once and by content hash alone: new, modified,
  unchanged and deleted are what their names say, nothing changed means equal path-to-hash maps,
  and swapping the arguments, as pull does, exchanges new and deleted.\<close>

theorem diff_files_classifies:
  assumes "distinct_keys xs" and "distinct_keys ys"
  defines "r \<equiv> diff_files xs (Some ys)"
  shows "(\<forall>p i. map_of (d_new r) p = Some i \<longleftrightarrow> map_of xs p = Some i \<and> map_of ys p = None) \<and>
    (\<forall>p i. map_of (d_modified r) p = Some i \<longleftrightarrow>
       map_of xs p = Some i \<and> (\<exists>j. map_of ys p = Some j \<and> fi_sha256 i \<noteq> fi_sha256 j)) \<and>
    (\<forall>p. p \<in> set (d_unchanged r) \<longleftrightarrow>
       (\<exists>i j. map_of xs p = Some i \<and> map_of ys p = Some j \<and> fi_sha256 i = fi_sha256 j)) \<and>
    set (d_deleted r) = set (dkeys (d_new (diff_files ys (Some xs)))) \<and>
    (\<not> has_changes r \<longleftrightarrow> map_option fi_sha256 \<circ> map_of xs = map_option fi_sha256 \<circ> map_of ys)"
proof -
  have r: "r = \<lparr>d_new = dict_filter (\<lambda>p _. map_of ys p = None) xs,
      d_modified = dict_filter (\<lambda>p i. \<exists>j. map_of ys p = Some j \<and> fi_sha256 i \<noteq> fi_sha256 j) xs,
      d_deleted = filter (\<lambda>p. map_of xs p = None) (dkeys ys),
      d_unchanged = dkeys (dict_filter (\<lambda>p i. \<exists>j. map_of ys p = Some j \<and> fi_sha256 i = fi_sha256 j) xs)\<rparr>"
    unfolding r_def diff_files_eq [OF assms(1)] by simp
  have n: "d_new (diff_files ys (Some xs)) = dict_filter (\<lambda>p _. map_of xs p = None) ys"
    unfolding diff_files_eq [OF assms(2)] by simp
  have 1: "\<forall>p i. map_of (d_new r) p = Some i \<longleftrightarrow> map_of xs p = Some i \<and> map_of ys p = None"
    by (auto simp: r map_of_dict_filter [OF assms(1)] split: option.splits)
  have 2: "\<forall>p i. map_of (d_modified r) p = Some i \<longleftrightarrow>
       map_of xs p = Some i \<and> (\<exists>j. map_of ys p = Some j \<and> fi_sha256 i \<noteq> fi_sha256 j)"
    by (auto simp: r map_of_dict_filter [OF assms(1)] split: option.splits if_splits)
  have 3: "\<forall>p. p \<in> set (d_unchanged r) \<longleftrightarrow>
       (\<exists>i j. map_of xs p = Some i \<and> map_of ys p = Some j \<and> fi_sha256 i = fi_sha256 j)"
    by (auto simp: r dom_def map_of_dict_filter [OF assms(1)] split: option.splits if_splits)
  have 4: "set (d_deleted r) = set (dkeys (d_new (diff_files ys (Some xs))))"
    by (auto simp: r n dom_def map_of_dict_filter [OF assms(2)] split: option.splits if_splits)
  have new: "d_new r = [] \<longleftrightarrow> (\<forall>p i. map_of xs p = Some i \<longrightarrow> map_of ys p \<noteq> None)"
    unfolding dict_empty_iff using 1 by auto
  have mdf: "d_modified r = [] \<longleftrightarrow>
      (\<forall>p i j. map_of xs p = Some i \<and> map_of ys p = Some j \<longrightarrow> fi_sha256 i = fi_sha256 j)"
    unfolding dict_empty_iff using 2 by auto
  have dlt: "d_deleted r = [] \<longleftrightarrow> (\<forall>p. map_of ys p \<noteq> None \<longrightarrow> map_of xs p \<noteq> None)"
    by (auto simp: r filter_empty_conv)
  have 5: "\<not> has_changes r \<longleftrightarrow> map_option fi_sha256 \<circ> map_of xs = map_option fi_sha256 \<circ> map_of ys"
  proof
    assume "\<not> has_changes r"
    then have z: "d_new r = []" "d_modified r = []" "d_deleted r = []" by (simp_all add: has_changes_def)
    note h1 = z(1) [unfolded new, rule_format] and h2 = z(2) [unfolded mdf, rule_format]
      and h3 = z(3) [unfolded dlt, rule_format]
    show "map_option fi_sha256 \<circ> map_of xs = map_option fi_sha256 \<circ> map_of ys"
    proof (rule ext)
      fix p
      show "(map_option fi_sha256 \<circ> map_of xs) p = (map_option fi_sha256 \<circ> map_of ys) p"
      proof (cases "map_of xs p")
        case None
        with h3 [of p] have "map_of ys p = None" by (cases "map_of ys p") simp_all
        with None show ?thesis by simp
      next
        case (Some i)
        with h1 [OF Some] h2 [of p i] show ?thesis by auto
      qed
    qed
  next
    assume eq: "map_option fi_sha256 \<circ> map_of xs = map_option fi_sha256 \<circ> map_of ys"
    have e: "map_option fi_sha256 (map_of xs p) = map_option fi_sha256 (map_of ys p)" for p
      using fun_cong [OF eq, of p] by simp
    have "map_of ys p \<noteq> None" if "map_of xs p = Some i" for p i
      using e [of p] that by (cases "map_of ys p") simp_all
    then have "d_new r = []" unfolding new by blast
    moreover have "fi_sha256 i = fi_sha256 j" if "map_of xs p = Some i" "map_of ys p = Some j" for p i j
      using e [of p] that by simp
    then have "d_modified r = []" unfolding mdf by blast
    moreover have "map_of xs p \<noteq> None" if "map_of ys p \<noteq> None" for p
      using e [of p] that by (cases "map_of xs p") auto
    then have "d_deleted r = []" unfolding dlt by blast
    ultimately show "\<not> has_changes r" by (simp add: has_changes_def)
  qed
  from 1 2 3 4 5 show ?thesis by blast
qed

definition sample_file :: "pystr \<Rightarrow> file_info" where
  "sample_file sha = \<lparr>fi_sha256 = sha, fi_mtime = None, fi_rest = []\<rparr>"

definition sample_source :: "(pystr \<times> pystr) list \<Rightarrow> source_data" where
  "sample_source fs = \<lparr>sd_base_path = JNull, sd_files = map (\<lambda>(p, h). (p, sample_file h)) fs\<rparr>"

definition sample_prior :: manifest where
  "sample_prior = \<lparr>m_timestamp = [], m_rest = [],
     m_sources = Some [(u ''claude'', sample_source [(u ''a.md'', u ''0f''), (u ''b.md'', u ''1e'')])],
     m_tombstones = []\<rparr>"

theorem diff_files_classifies_witness:
  "has_changes (diff_files [(u ''a'', sample_file [1])] (Some [(u ''a'', sample_file [2])]))"
proof -
  have d: "distinct_keys [(u ''a'', sample_file [1])]" "distinct_keys [(u ''a'', sample_file [2])]" by simp_all
  have "map_option fi_sha256 (map_of [(u ''a'', sample_file [1])] (u ''a'')) \<noteq>
      map_option fi_sha256 (map_of [(u ''a'', sample_file [2])] (u ''a''))"
    by (simp add: sample_file_def)
  then have "map_option fi_sha256 \<circ> map_of [(u ''a'', sample_file [1])] \<noteq>
      map_option fi_sha256 \<circ> map_of [(u ''a'', sample_file [2])]" by (metis comp_apply)
  with diff_files_classifies [OF d] show ?thesis by blast
qed

text \<open>C2. The tombstones of a push, key by key: a listed file never has one; an active prior
  tombstone is carried unchanged; a key the prior manifest listed and this scan does not gets a
  new one stamped now; nothing else is buried, and an expired tombstone is dropped.\<close>

theorem generate_tombstones_spec:
  assumes "generate_tombstones fromiso now now_iso local_m (Some r) device_id = Inr ts"
    and "wf_manifest r" and "wf_manifest local_m"
  shows "distinct_keys ts \<and>
    map_of ts k =
      (if k \<in> set (listed_keys (sources_of local_m)) then None
       else if \<exists>info. map_of (m_tombstones r) k = Some info \<and> is_active_tombstone fromiso (cutoff_at now) info
       then map_of (m_tombstones r) k
       else if k \<in> set (listed_keys (sources_of r)) then Some (new_tombstone now_iso device_id)
       else None)"
proof -
  have w: "wf_sources (sources_of r)" "wf_sources (sources_of local_m)" "distinct_keys (m_tombstones r)"
    using assms(2,3) by (simp_all add: wf_manifest_def)
  have v: "k \<notin> set (listed_keys (sources_of local_m)) \<Longrightarrow>
      k \<in> vanished_keys (sources_of local_m) (sources_of r) \<longleftrightarrow> k \<in> set (listed_keys (sources_of r))"
    unfolding vanished_keys_def set_listed_keys_files_in [OF w(1)] set_listed_keys_files_in [OF w(2)]
    by blast
  show ?thesis
    using generate_tombstones_distinct [OF assms(1) w(3)] v
    by (auto simp: generate_tombstones_map_of [OF assms] split: option.split)
qed

theorem generate_tombstones_spec_witness:
  "\<exists>ts. generate_tombstones parse_iso 0 [] (sample_prior\<lparr>m_sources := Some []\<rparr>) (Some sample_prior) (u ''d'') = Inr ts \<and>
     map_of ts (u ''claude:b.md'') = Some (new_tombstone [] (u ''d''))"
proof -
  obtain ts where ts: "generate_tombstones parse_iso 0 [] (sample_prior\<lparr>m_sources := Some []\<rparr>)
      (Some sample_prior) (u ''d'') = Inr ts"
    using generate_tombstones_total [of "Some sample_prior" parse_iso 0 "[]" "sample_prior\<lparr>m_sources := Some []\<rparr>"]
    by (auto simp: sample_prior_def)
  have w: "wf_manifest sample_prior" "wf_manifest (sample_prior\<lparr>m_sources := Some []\<rparr>)"
    by (simp_all add: wf_manifest_def wf_sources_def sources_of_def sample_prior_def sample_source_def)
  have "u ''claude:b.md'' \<in> set (listed_keys (sources_of sample_prior))" by code_simp
  then have "map_of ts (u ''claude:b.md'') = Some (new_tombstone [] (u ''d''))"
    using generate_tombstones_spec [OF ts w, of "u ''claude:b.md''"]
    by (simp add: sources_of_def sample_prior_def listed_keys_def)
  with ts show ?thesis by blast
qed



text \<open>C4. Aggregating the fleet's tombstones keeps, for every key some reachable device holds an
  active tombstone for, one of those with the greatest deletion stamp, and nothing else.\<close>

theorem collect_tombstones_newest:
  "case map_of (collect_tombstones fromiso now dids fetch) k of
     None \<Rightarrow> k \<notin> fst ` set (active_entries fromiso (cutoff_at now) dids fetch)
   | Some v \<Rightarrow> (k, v) \<in> set (active_entries fromiso (cutoff_at now) dids fetch) \<and>
       (\<forall>(k', w) \<in> set (active_entries fromiso (cutoff_at now) dids fetch).
          k' = k \<longrightarrow> tomb_stamp w \<le> tomb_stamp v)"
proof (cases "map_of (collect_tombstones fromiso now dids fetch) k")
  case None
  then show ?thesis
    using keep_newest_dom [of "active_entries fromiso (cutoff_at now) dids fetch" "[]" k]
    by (simp add: collect_tombstones_eq)
next
  case (Some v)
  then show ?thesis
    using keep_newest_invariant [of "active_entries fromiso (cutoff_at now) dids fetch" "[]"]
    by (auto simp: collect_tombstones_eq)
qed

definition sample_fleet :: "pystr \<Rightarrow> manifest option" where
  "sample_fleet d = Some (sample_prior\<lparr>m_tombstones :=
     [(u ''claude:x'', new_tombstone (show_instant (days (739000 + int (length d)))) d)]\<rparr>)"

lemma sample_fleet_entries:
  "active_entries parse_iso (cutoff_at (days 739002)) [u ''i'', u ''ii''] sample_fleet =
     [(u ''claude:x'', new_tombstone (u ''2024-04-25T00:00:00+00:00'') (u ''i'')),
      (u ''claude:x'', new_tombstone (u ''2024-04-26T00:00:00+00:00'') (u ''ii''))]"
  by code_simp

theorem collect_tombstones_newest_witness:
  "map_of (collect_tombstones parse_iso (days 739002) [u ''i'', u ''ii''] sample_fleet) (u ''claude:x'') =
     Some (new_tombstone (u ''2024-04-26T00:00:00+00:00'') (u ''ii''))"
proof -
  have lt: "\<not> tomb_stamp (new_tombstone (u ''2024-04-26T00:00:00+00:00'') (u ''ii'')) \<le>
      tomb_stamp (new_tombstone (u ''2024-04-25T00:00:00+00:00'') (u ''i''))"
    by code_simp
  show ?thesis
    using collect_tombstones_newest [of "u ''claude:x''" parse_iso "days 739002" "[u ''i'', u ''ii'']" sample_fleet]
      lt unfolding sample_fleet_entries
    by (auto split: option.splits)
qed

end
