(* ===== verification/Patterns.thy ===== *)
theory Patterns
  imports Json
begin

text \<open>
  The two pattern languages of \<open>manifest.py\<close>. Exclude globs are \<open>fnmatch.fnmatch\<close>: the
  translation of the standard library is followed token by token, with its treatment of
  unclosed brackets, negated and empty sets and reversed ranges. Include patterns are the
  source's own: a pattern is compiled segment by segment to a small regular expression
  (\<open>include_pattern_body\<close>), and for patterns and paths without empty segments that expression
  is shown to mean what the documentation says, segment by segment.
\<close>

section \<open>fnmatch\<close>

text \<open>A set is negated or not, and lists its ranges.\<close>

datatype ftok = FStar | FAny | FLit int | FSet bool "(int \<times> int) list" | FNever

definition in_ranges :: "int \<Rightarrow> (int \<times> int) list \<Rightarrow> bool" where
  "in_ranges c rs \<longleftrightarrow> list_ex (\<lambda>(lo, hi). lo \<le> c \<and> c \<le> hi) rs"

fun tok_char :: "ftok \<Rightarrow> int \<Rightarrow> bool" where
  "tok_char FAny c \<longleftrightarrow> True"
| "tok_char (FLit d) c \<longleftrightarrow> c = d"
| "tok_char (FSet neg rs) c \<longleftrightarrow> in_ranges c rs \<noteq> neg"
| "tok_char _ c \<longleftrightarrow> False"

fun fmatch :: "ftok list \<Rightarrow> pystr \<Rightarrow> bool" where
  "fmatch [] s \<longleftrightarrow> s = []"
| "fmatch (FStar # ts) [] \<longleftrightarrow> fmatch ts []"
| "fmatch (FStar # ts) (c # s) \<longleftrightarrow> fmatch ts (c # s) \<or> fmatch (FStar # ts) s"
| "fmatch (t # ts) [] \<longleftrightarrow> False"
| "fmatch (t # ts) (c # s) \<longleftrightarrow> tok_char t c \<and> fmatch ts s"

text \<open>The bracket expression: its body up to the closing bracket, and the chunks of the body
  around range hyphens. \<open>k\<close> is where the search for the next hyphen starts.\<close>

definition bracket_body :: "pystr \<Rightarrow> (pystr \<times> pystr) option" where
  "bracket_body p =
     (let j0 = (if startswith p [33] then 1 else 0);
          j1 = (if startswith (drop j0 p) [93] then j0 + 1 else j0);
          body = take j1 p @ takeWhile (\<lambda>c. c \<noteq> 93) (drop j1 p)
      in if length body < length p then Some (body, drop (length body + 1) p) else None)"

lemma bracket_body_length: "bracket_body p = Some (b, r) \<Longrightarrow> length r < length p"
  by (auto simp: bracket_body_def Let_def split: if_splits)

definition hyphen_from :: "nat \<Rightarrow> pystr \<Rightarrow> nat option" where
  "hyphen_from k s =
     (if k \<le> length s \<and> 45 \<in> set (drop k s)
      then Some (k + length (takeWhile (\<lambda>c. c \<noteq> 45) (drop k s))) else None)"

lemma hyphen_from_less: "hyphen_from k s = Some j \<Longrightarrow> j < length s"
proof -
  assume h: "hyphen_from k s = Some j"
  then have m: "45 \<in> set (drop k s)" and j: "j = k + length (takeWhile (\<lambda>c. c \<noteq> 45) (drop k s))"
    by (auto simp: hyphen_from_def split: if_splits)
  have "dropWhile (\<lambda>c. c \<noteq> 45) (drop k s) \<noteq> []" using m by (auto simp: dropWhile_eq_Nil_conv)
  then have "0 < length (dropWhile (\<lambda>c. c \<noteq> 45) (drop k s))" by blast
  moreover have "length (takeWhile (\<lambda>c. c \<noteq> 45) (drop k s)) + length (dropWhile (\<lambda>c. c \<noteq> 45) (drop k s)) =
      length (drop k s)" by (metis length_append takeWhile_dropWhile_id)
  ultimately have "length (takeWhile (\<lambda>c. c \<noteq> 45) (drop k s)) < length (drop k s)" by linarith
  then show ?thesis using j by simp
qed

function chunks :: "nat \<Rightarrow> pystr \<Rightarrow> pystr list" where
  "chunks k s =
     (case hyphen_from k s of
        None \<Rightarrow> [s]
      | Some j \<Rightarrow> take j s # chunks 2 (drop (j + 1) s))"
  by pat_completeness auto
termination
  by (relation "measure (\<lambda>(_, s). length s)") (auto dest: hyphen_from_less)

declare chunks.simps [simp del]

text \<open>An empty last chunk turns into a hyphen at the end of the one before it; then reversed
  ranges are removed from the right.\<close>

fun close_chunks :: "pystr list \<Rightarrow> pystr list" where
  "close_chunks [c] = [c]"
| "close_chunks [c, d] = (if d = [] then [c @ [45]] else [c, d])"
| "close_chunks (c # cs) = c # close_chunks cs"
| "close_chunks [] = []"

fun drop_reversed :: "pystr list \<Rightarrow> pystr list" where
  "drop_reversed [] = []"
| "drop_reversed (c # cs) =
     (case drop_reversed cs of
        [] \<Rightarrow> [c]
      | d # ds \<Rightarrow> (if c \<noteq> [] \<and> d \<noteq> [] \<and> last c > hd d then (butlast c @ tl d) # ds else c # d # ds))"

definition single :: "int \<Rightarrow> int \<times> int" where
  "single c = (c, c)"

fun chunk_ranges :: "pystr list \<Rightarrow> (int \<times> int) list" where
  "chunk_ranges [] = []"
| "chunk_ranges [c] = map single c"
| "chunk_ranges (c # d # cs) =
     (if c = [] \<or> d = [] then map single c @ single 45 # chunk_ranges (d # cs)
      else map single (butlast c) @ (last c, hd d) # chunk_ranges (tl d # cs))"

definition bracket_token :: "pystr \<Rightarrow> ftok" where
  "bracket_token body =
     (let cs = (if 45 \<in> set body
                then drop_reversed (close_chunks (chunks (if startswith body [33] then 2 else 1) body))
                else [body]);
          joined = join_with [45] cs
      in if joined = [] then FNever
         else if joined = [33] then FAny
         else if hd joined = 33 then FSet True (chunk_ranges (tl (hd cs) # tl cs))
         else FSet False (chunk_ranges cs))"

function translate :: "pystr \<Rightarrow> ftok list" where
  "translate [] = []"
| "translate (c # p) =
     (if c = 42 then FStar # translate p
      else if c = 63 then FAny # translate p
      else if c = 91 then
        (case bracket_body p of
           None \<Rightarrow> FLit 91 # translate p
         | Some (body, rest) \<Rightarrow> bracket_token body # translate rest)
      else FLit c # translate p)"
  by pat_completeness auto
termination
  by (relation "measure length") (auto dest: bracket_body_length)

definition fnmatch :: "pystr \<Rightarrow> pystr \<Rightarrow> bool" where
  "fnmatch name pat \<longleftrightarrow> fmatch (translate pat) name"

section \<open>What a glob matches\<close>

named_theorems glob_facts

lemma fmatch_FStar: "fmatch (FStar # ts) s \<longleftrightarrow> (\<exists>a b. s = a @ b \<and> fmatch ts b)"
proof (induction s)
  case Nil
  then show ?case by simp
next
  case (Cons c s)
  show ?case
  proof
    assume "fmatch (FStar # ts) (c # s)"
    then consider "fmatch ts (c # s)" | "fmatch (FStar # ts) s" by auto
    then show "\<exists>a b. c # s = a @ b \<and> fmatch ts b"
    proof cases
      case 1
      then show ?thesis by (intro exI [of _ "[]"] exI [of _ "c # s"]) simp
    next
      case 2
      with Cons obtain a b where "s = a @ b" "fmatch ts b" by blast
      then show ?thesis by (intro exI [of _ "c # a"] exI [of _ b]) simp
    qed
  next
    assume "\<exists>a b. c # s = a @ b \<and> fmatch ts b"
    then obtain a b where ab: "c # s = a @ b" "fmatch ts b" by blast
    show "fmatch (FStar # ts) (c # s)"
    proof (cases a)
      case Nil
      with ab have "fmatch ts (c # s)" by simp
      then show ?thesis by simp
    next
      case (Cons x a')
      with ab Cons.IH show ?thesis by auto
    qed
  qed
qed

lemma fmatch_star_only [glob_facts]: "fmatch [FStar] s"
  unfolding fmatch_FStar by (intro exI [of _ s] exI [of _ "[]"]) simp

lemma fmatch_char:
  "t \<noteq> FStar \<Longrightarrow> fmatch (t # ts) s \<longleftrightarrow> (\<exists>c r. s = c # r \<and> tok_char t c \<and> fmatch ts r)"
  by (cases s; cases t) auto

lemma fmatch_lits: "fmatch (map FLit w @ ts) s \<longleftrightarrow> (\<exists>r. s = w @ r \<and> fmatch ts r)"
proof (induction w arbitrary: s)
  case Nil
  then show ?case by simp
next
  case (Cons c w)
  then show ?case by (auto simp: fmatch_char)
qed

lemma fmatch_replicate:
  assumes "t \<noteq> FStar"
  shows "fmatch (replicate n t @ ts) s \<longleftrightarrow>
    (\<exists>w r. s = w @ r \<and> length w = n \<and> list_all (tok_char t) w \<and> fmatch ts r)"
proof (induction n arbitrary: s)
  case 0
  then show ?case by simp
next
  case (Suc n)
  show ?case
  proof
    assume "fmatch (replicate (Suc n) t @ ts) s"
    then obtain c r where "s = c # r" "tok_char t c" "fmatch (replicate n t @ ts) r"
      using assms by (auto simp: fmatch_char)
    with Suc obtain w r' where "s = (c # w) @ r'" "length w = n" "list_all (tok_char t) (c # w)" "fmatch ts r'"
      by auto
    then show "\<exists>w r. s = w @ r \<and> length w = Suc n \<and> list_all (tok_char t) w \<and> fmatch ts r"
      by (intro exI [of _ "c # w"] exI [of _ r']) simp
  next
    assume "\<exists>w r. s = w @ r \<and> length w = Suc n \<and> list_all (tok_char t) w \<and> fmatch ts r"
    then obtain w r where w: "s = w @ r" "length w = Suc n" "list_all (tok_char t) w" "fmatch ts r" by blast
    then obtain c w' where "w = c # w'" by (cases w) auto
    with w Suc assms show "fmatch (replicate (Suc n) t @ ts) s" by (auto simp: fmatch_char)
  qed
qed

text \<open>A pattern without \<open>*\<close>, \<open>?\<close> and \<open>[\<close> is literal.\<close>

lemma translate_literal:
  "\<forall>c \<in> set p. c \<noteq> 42 \<and> c \<noteq> 63 \<and> c \<noteq> 91 \<Longrightarrow> translate p = map FLit p"
  by (induction p) auto

lemma fmatch_literal: "fmatch (map FLit w) s \<longleftrightarrow> s = w"
  using fmatch_lits [of w "[]" s] by auto

lemma fnmatch_literal [glob_facts]:
  "\<forall>c \<in> set p. c \<noteq> 42 \<and> c \<noteq> 63 \<and> c \<noteq> 91 \<Longrightarrow> fnmatch s p \<longleftrightarrow> s = p"
  by (simp add: fnmatch_def translate_literal fmatch_literal)

lemma fnmatch_star_suffix [glob_facts]:
  "\<forall>c \<in> set p. c \<noteq> 42 \<and> c \<noteq> 63 \<and> c \<noteq> 91 \<Longrightarrow> fnmatch s (42 # p) \<longleftrightarrow> endswith s p"
  by (auto simp: fnmatch_def translate_literal fmatch_FStar fmatch_literal endswith_iff)

section \<open>Include patterns\<close>

text \<open>The pieces of the compiled expression: a literal, \<open>[^/]*\<close>, \<open>[^/]\<close>, \<open>(?:/.*)?\<close>, \<open>.*\<close> and
  \<open>(?:[^/]+/)*\<close>.\<close>

datatype ritem = RLit int | RSegStar | RSegAny | ROptTail | RAll | RDirs

text \<open>The rest after a first non-empty directory component and its slash.\<close>

definition after_dir :: "pystr \<Rightarrow> pystr option" where
  "after_dir s =
     (case dropWhile (\<lambda>c. c \<noteq> 47) s of
        [] \<Rightarrow> None
      | _ # t \<Rightarrow> (if startswith s [47] then None else Some t))"

lemma after_dir_length: "after_dir s = Some t \<Longrightarrow> length t < length s"
proof -
  assume "after_dir s = Some t"
  then obtain x where "dropWhile (\<lambda>c. c \<noteq> 47) s = x # t"
    unfolding after_dir_def by (cases "dropWhile (\<lambda>c. c \<noteq> 47) s") (simp_all split: if_splits)
  then have "length (x # t) \<le> length s" by (metis length_dropWhile_le)
  then show ?thesis by simp
qed

function dir_suffixes :: "pystr \<Rightarrow> pystr list" where
  "dir_suffixes s = s # (case after_dir s of None \<Rightarrow> [] | Some t \<Rightarrow> dir_suffixes t)"
  by pat_completeness auto
termination
  by (relation "measure length") (auto dest: after_dir_length)

declare dir_suffixes.simps [simp del]

fun all_suffixes :: "pystr \<Rightarrow> pystr list" where
  "all_suffixes [] = [[]]"
| "all_suffixes (c # t) = (c # t) # all_suffixes t"

fun seg_suffixes :: "pystr \<Rightarrow> pystr list" where
  "seg_suffixes [] = [[]]"
| "seg_suffixes (c # t) = (c # t) # (if c = 47 then [] else seg_suffixes t)"

text \<open>What may be left of a string after one piece has matched a prefix of it; an expression
  matches a string in full when some way through its pieces leaves nothing.\<close>

fun rests :: "ritem \<Rightarrow> pystr \<Rightarrow> pystr list" where
  "rests (RLit d) s = (if s \<noteq> [] \<and> hd s = d then [tl s] else [])"
| "rests RSegAny s = (if s \<noteq> [] \<and> hd s \<noteq> 47 then [tl s] else [])"
| "rests RSegStar s = seg_suffixes s"
| "rests RAll s = all_suffixes s"
| "rests ROptTail s = s # (if s \<noteq> [] \<and> hd s = 47 then all_suffixes (tl s) else [])"
| "rests RDirs s = dir_suffixes s"

fun rmatch :: "ritem list \<Rightarrow> pystr \<Rightarrow> bool" where
  "rmatch [] s \<longleftrightarrow> s = []"
| "rmatch (i # r) s \<longleftrightarrow> list_ex (rmatch r) (rests i s)"

text \<open>\<open>out\<close> is the list of pieces; an empty piece is the marker that the next segment needs no
  slash, and also what an empty segment appends.\<close>

definition seg_char :: "int \<Rightarrow> ritem" where
  "seg_char c = (if c = 42 then RSegStar else if c = 63 then RSegAny else RLit c)"

definition STAR2 :: pystr where
  "STAR2 = [42, 42]"

definition body_step :: "bool \<Rightarrow> pystr \<Rightarrow> ritem list list \<Rightarrow> ritem list list" where
  "body_step is_last seg out =
     (if seg = STAR2 then
        (if is_last then out @ [if out \<noteq> [] then [ROptTail] else [RAll]]
         else out @ [if out = [] then [RDirs] else [RLit 47, RDirs], []])
      else
        (let out' = (if out \<noteq> [] \<and> last out \<noteq> [] then out @ [[RLit 47]]
                     else if out \<noteq> [] then butlast out else out)
         in out' @ [map seg_char seg]))"

fun body_loop :: "pystr list \<Rightarrow> ritem list list \<Rightarrow> ritem list list" where
  "body_loop [] out = out"
| "body_loop (seg # segs) out = body_loop segs (body_step (segs = []) seg out)"

text \<open>The comprehension that drops a \<open>**\<close> right after another one.\<close>

fun dedup_stars :: "pystr list \<Rightarrow> pystr list" where
  "dedup_stars (a # b # segs) =
     (if a = STAR2 \<and> b = STAR2 then dedup_stars (b # segs) else a # dedup_stars (b # segs))"
| "dedup_stars segs = segs"

definition include_pattern_body :: "pystr \<Rightarrow> ritem list" where
  "include_pattern_body pattern = concat (body_loop (dedup_stars (split_on 47 pattern)) [])"

definition matches_include_patterns :: "pystr \<Rightarrow> pystr list \<Rightarrow> bool" where
  "matches_include_patterns rel_path pats \<longleftrightarrow>
     list_ex (\<lambda>p. rmatch (include_pattern_body p) rel_path) pats"


section \<open>Include patterns, segment by segment\<close>

text \<open>The documented meaning: a plain segment matches one path component, with \<open>*\<close> and \<open>?\<close>
  inside it; a \<open>**\<close> segment matches any number of components.\<close>

fun glob_seg :: "pystr \<Rightarrow> pystr \<Rightarrow> bool" where
  "glob_seg [] w \<longleftrightarrow> w = []"
| "glob_seg (c # g) [] \<longleftrightarrow> c = 42 \<and> glob_seg g []"
| "glob_seg (c # g) (d # w) \<longleftrightarrow>
     (if c = 42 then glob_seg g (d # w) \<or> glob_seg (c # g) w
      else (c = 63 \<or> c = d) \<and> glob_seg g w)"

fun path_matches :: "pystr list \<Rightarrow> pystr list \<Rightarrow> bool" where
  "path_matches [] ps \<longleftrightarrow> ps = []"
| "path_matches (g # gs) [] \<longleftrightarrow> g = STAR2 \<and> path_matches gs []"
| "path_matches (g # gs) (p # ps) \<longleftrightarrow>
     (if g = STAR2 then path_matches gs (p # ps) \<or> path_matches (g # gs) ps
      else glob_seg g p \<and> path_matches gs ps)"

lemma path_matches_star_star: "path_matches (STAR2 # STAR2 # gs) ps \<longleftrightarrow> path_matches (STAR2 # gs) ps"
  by (induction ps) auto

lemma path_matches_star_cong:
  assumes "\<And>qs. path_matches gs qs \<longleftrightarrow> path_matches hs qs"
  shows "path_matches (g # gs) ps \<longleftrightarrow> path_matches (g # hs) ps"
  by (induction ps) (auto simp: assms)

lemma path_matches_dedup: "path_matches (dedup_stars gs) ps \<longleftrightarrow> path_matches gs ps"
proof (induction gs arbitrary: ps rule: dedup_stars.induct)
  case (1 a b segs)
  show ?case
  proof (cases "a = STAR2 \<and> b = STAR2")
    case True
    with 1 show ?thesis by (simp add: path_matches_star_star)
  next
    case False
    then have "dedup_stars (a # b # segs) = a # dedup_stars (b # segs)" by auto
    with 1(2) [OF False] path_matches_star_cong [of "dedup_stars (b # segs)" "b # segs"]
    show ?thesis by metis
  qed
qed auto

fun no_adjacent :: "pystr list \<Rightarrow> bool" where
  "no_adjacent (a # b # segs) \<longleftrightarrow> \<not> (a = STAR2 \<and> b = STAR2) \<and> no_adjacent (b # segs)"
| "no_adjacent segs \<longleftrightarrow> True"

lemma hd_dedup: "gs \<noteq> [] \<Longrightarrow> dedup_stars gs \<noteq> [] \<and> hd (dedup_stars gs) = hd gs"
  by (induction gs rule: dedup_stars.induct) auto

lemma no_adjacent_Cons: "no_adjacent (a # gs) \<longleftrightarrow> no_adjacent gs \<and> \<not> (a = STAR2 \<and> gs \<noteq> [] \<and> hd gs = STAR2)"
  by (cases gs) auto

lemma no_adjacent_dedup: "no_adjacent (dedup_stars gs)"
proof (induction gs rule: dedup_stars.induct)
  case (1 a b segs)
  show ?case
  proof (cases "a = STAR2 \<and> b = STAR2")
    case True
    with 1 show ?thesis by simp
  next
    case False
    then have "dedup_stars (a # b # segs) = a # dedup_stars (b # segs)" by auto
    with 1(2) [OF False] hd_dedup [of "b # segs"] False show ?thesis
      by (simp add: no_adjacent_Cons)
  qed
qed auto

lemma set_dedup: "set (dedup_stars gs) \<subseteq> set gs"
  by (induction gs rule: dedup_stars.induct) auto

text \<open>The compiled expression without its bookkeeping; the flag says that no slash is due.\<close>

fun items :: "bool \<Rightarrow> pystr list \<Rightarrow> ritem list" where
  "items b [] = []"
| "items b (g # gs) =
     (if g = STAR2 then
        (if gs = [] then (if b then [RAll] else [ROptTail])
         else (if b then [RDirs] else [RLit 47, RDirs]) @ items True gs)
      else (if b then [] else [RLit 47]) @ map seg_char g @ items False gs)"

lemma body_loop_items:
  assumes "no_adjacent gs" "[] \<notin> set gs"
    and "\<not> (out \<noteq> [] \<and> last out = [] \<and> gs \<noteq> [] \<and> hd gs = STAR2)"
  shows "concat (body_loop gs out) = concat out @ items (out = [] \<or> last out = []) gs"
  using assms
proof (induction gs arbitrary: out)
  case Nil
  then show ?case by simp
next
  case (Cons g gs)
  have na: "no_adjacent gs" and ne: "[] \<notin> set gs" "g \<noteq> []"
    and nx: "\<not> (g = STAR2 \<and> gs \<noteq> [] \<and> hd gs = STAR2)"
    using Cons.prems(1,2) by (auto simp: no_adjacent_Cons)
  define out' where "out' = body_step (gs = []) g out"
  have body: "body_loop (g # gs) out = body_loop gs out'" by (simp add: out'_def)
  show ?case
  proof (cases "g = STAR2")
    case True
    show ?thesis
    proof (cases "gs = []")
      case True
      with \<open>g = STAR2\<close> Cons.prems(3) show ?thesis by (auto simp: body_step_def)
    next
      case False
      have o: "out' = out @ [if out = [] then [RDirs] else [RLit 47, RDirs], []]"
        using True False by (simp add: out'_def body_step_def)
      have "concat (body_loop gs out') = concat out' @ items True gs"
        using Cons.IH [OF na ne(1), of out'] nx True False by (simp add: o)
      moreover have "out \<noteq> [] \<Longrightarrow> last out \<noteq> []" using Cons.prems(3) True by auto
      ultimately show ?thesis unfolding body using True False by (auto simp: o)
    qed
  next
    case False
    have l: "out' \<noteq> []" "last out' = map seg_char g" by (simp_all add: out'_def body_step_def False Let_def)
    have c: "concat out' = concat out @ (if out = [] \<or> last out = [] then [] else [RLit 47]) @ map seg_char g"
    proof -
      have "out \<noteq> [] \<Longrightarrow> last out = [] \<Longrightarrow> concat (butlast out) = concat out"
        by (metis append_butlast_last_id append_Nil2 concat.simps concat_append)
      then show ?thesis by (auto simp: out'_def body_step_def False Let_def)
    qed
    have "concat (body_loop gs out') = concat out' @ items False gs"
      using Cons.IH [OF na ne(1), of out'] l ne(2) by simp
    with False c show ?thesis unfolding body by simp
  qed
qed

text \<open>The rest of a path after a component: each further component with its slash.\<close>

definition tail_str :: "pystr list \<Rightarrow> pystr" where
  "tail_str ps = concat (map (\<lambda>p. 47 # p) ps)"

lemma tail_str_simps [simp]: "tail_str [] = []" "tail_str (p # ps) = 47 # p @ tail_str ps"
  by (simp_all add: tail_str_def)

lemma join_tail: "join_with [47] (p # ps) = p @ tail_str ps"
  by (induction ps arbitrary: p) auto

lemma tail_str_head: "tail_str ps = [] \<or> hd (tail_str ps) = 47"
  by (cases ps) auto

lemma items_False_slash: "rmatch (items False gs) s \<Longrightarrow> s = [] \<or> hd s = 47"
  by (cases gs) (auto split: if_splits)

lemma ex_append_Cons: "(\<exists>a b. c # w = a @ b \<and> Q b) \<longleftrightarrow> Q (c # w) \<or> (\<exists>a b. w = a @ b \<and> Q b)"
proof
  assume "\<exists>a b. c # w = a @ b \<and> Q b"
  then obtain a b where ab: "c # w = a @ b" "Q b" by blast
  then show "Q (c # w) \<or> (\<exists>a b. w = a @ b \<and> Q b)" by (cases a) auto
next
  assume "Q (c # w) \<or> (\<exists>a b. w = a @ b \<and> Q b)"
  then show "\<exists>a b. c # w = a @ b \<and> Q b" by (metis append_Cons append_Nil)
qed

lemma seg_suffixes_append:
  assumes "47 \<notin> set w" and "t = [] \<or> hd t = 47"
  shows "list_ex P (seg_suffixes (w @ t)) \<longleftrightarrow> (\<exists>a b. w = a @ b \<and> P (b @ t))"
  using assms(1)
proof (induction w)
  case Nil
  from assms(2) show ?case by (cases t) auto
next
  case (Cons c w)
  with ex_append_Cons [of c w "\<lambda>b. P (b @ t)"] show ?case by simp
qed

lemma glob_seg_star: "glob_seg (42 # g) w \<longleftrightarrow> (\<exists>a b. w = a @ b \<and> glob_seg g b)"
proof (induction w)
  case Nil
  then show ?case by simp
next
  case (Cons d w)
  with ex_append_Cons [of d w "glob_seg g"] show ?case by simp
qed

lemma rmatch_segment:
  assumes "47 \<notin> set w" "t = [] \<or> hd t = 47" "47 \<notin> set g"
    and slash: "\<And>x. rmatch r x \<Longrightarrow> x = [] \<or> hd x = 47"
  shows "rmatch (map seg_char g @ r) (w @ t) \<longleftrightarrow> glob_seg g w \<and> rmatch r t"
  using assms(1,3)
proof (induction g arbitrary: w)
  case Nil
  show ?case
  proof (cases w)
    case Nil
    then show ?thesis by simp
  next
    case (Cons c v)
    then have "\<not> rmatch r (w @ t)" using slash [of "w @ t"] Nil.prems by auto
    with Cons show ?thesis by simp
  qed
next
  case (Cons c g)
  then have g: "47 \<notin> set g" and c: "c \<noteq> 47" by auto
  show ?case
  proof (cases "c = 42")
    case True
    have "rmatch (map seg_char (c # g) @ r) (w @ t) \<longleftrightarrow>
        (\<exists>a b. w = a @ b \<and> rmatch (map seg_char g @ r) (b @ t))"
      using seg_suffixes_append [OF Cons.prems(1) assms(2)] True by (simp add: seg_char_def)
    also have "\<dots> \<longleftrightarrow> (\<exists>a b. w = a @ b \<and> glob_seg g b \<and> rmatch r t)"
      using Cons.IH g Cons.prems(1) by (metis Un_iff set_append)
    finally show ?thesis unfolding True glob_seg_star by blast
  next
    case False
    show ?thesis
    proof (cases w)
      case Nil
      have "\<not> rmatch (map seg_char (c # g) @ r) t"
        using False c assms(2) by (auto simp: seg_char_def)
      with Nil False show ?thesis by simp
    next
      case (Cons d v)
      then show ?thesis using Cons.IH [of v] Cons.prems(1) g False by (auto simp: seg_char_def)
    qed
  qed
qed

lemma after_dir_append:
  assumes "47 \<notin> set p" "p \<noteq> []"
  shows "after_dir (p @ tail_str ps) = (if ps = [] then None else Some (join_with [47] ps))"
proof -
  have dw: "dropWhile (\<lambda>c. c \<noteq> 47) (p @ tail_str ps) = tail_str ps"
    using assms(1) by (induction p) (cases ps; simp)+
  have "\<not> startswith (p @ tail_str ps) [47]" using assms by (cases p) auto
  then show ?thesis
    unfolding after_dir_def dw by (cases ps) (simp_all add: join_tail)
qed

definition clean_segs :: "pystr list \<Rightarrow> bool" where
  "clean_segs ps \<longleftrightarrow> [] \<notin> set ps \<and> (\<forall>p \<in> set ps. 47 \<notin> set p)"

lemma all_suffixes_ends: "list_ex (rmatch []) (all_suffixes s)"
  by (induction s) auto

lemma rmatch_dirs:
  assumes "clean_segs ps" "ps \<noteq> []"
    and "\<And>qs. qs \<noteq> [] \<Longrightarrow> clean_segs qs \<Longrightarrow> rmatch r (join_with [47] qs) \<longleftrightarrow> path_matches gs qs"
    and "\<not> path_matches gs []"
  shows "rmatch (RDirs # r) (join_with [47] ps) \<longleftrightarrow> path_matches (STAR2 # gs) ps"
  using assms(1,2)
proof (induction ps)
  case Nil
  then show ?case by simp
next
  case (Cons p ps)
  have p: "47 \<notin> set p" "p \<noteq> []" "clean_segs ps" using Cons.prems(1) by (auto simp: clean_segs_def)
  have "rmatch (RDirs # r) (join_with [47] (p # ps)) \<longleftrightarrow>
      rmatch r (join_with [47] (p # ps)) \<or> (ps \<noteq> [] \<and> rmatch (RDirs # r) (join_with [47] ps))"
    using after_dir_append [OF p(1,2), of ps]
    by (simp add: dir_suffixes.simps [of "p @ tail_str ps"] join_tail)
  also have "\<dots> \<longleftrightarrow> path_matches gs (p # ps) \<or> (ps \<noteq> [] \<and> path_matches (STAR2 # gs) ps)"
    using Cons.IH p(3) assms(3) [of "p # ps"] Cons.prems by blast
  also have "\<dots> \<longleftrightarrow> path_matches (STAR2 # gs) (p # ps)"
    using assms(4) by (cases ps) auto
  finally show ?case .
qed

lemma items_match:
  assumes "no_adjacent gs" "clean_segs gs"
  shows "clean_segs ps \<Longrightarrow> rmatch (items False gs) (tail_str ps) \<longleftrightarrow> path_matches gs ps"
    and "clean_segs ps \<Longrightarrow> ps \<noteq> [] \<Longrightarrow> rmatch (items True gs) (join_with [47] ps) \<longleftrightarrow> path_matches gs ps"
  using assms
proof (induction gs arbitrary: ps)
  case Nil
  { case 1 show ?case by (cases ps) auto }
  { case 2
    then obtain p qs where "ps = p # qs" "p \<noteq> []" by (cases ps) (auto simp: clean_segs_def)
    then show ?case by (simp add: join_tail) }
next
  case (Cons g gs)
  { fix ps
    assume prems: "no_adjacent (g # gs)" "clean_segs (g # gs)"
    have g: "no_adjacent gs" "clean_segs gs" "47 \<notin> set g"
      and nx: "\<not> (g = STAR2 \<and> gs \<noteq> [] \<and> hd gs = STAR2)"
      using prems by (auto simp: no_adjacent_Cons clean_segs_def)
    have IH: "clean_segs qs \<Longrightarrow> rmatch (items False gs) (tail_str qs) \<longleftrightarrow> path_matches gs qs"
      "clean_segs qs \<Longrightarrow> qs \<noteq> [] \<Longrightarrow> rmatch (items True gs) (join_with [47] qs) \<longleftrightarrow> path_matches gs qs"
      for qs using Cons.IH g(1,2) by blast+
    have seg: "rmatch (map seg_char g @ items False gs) (p @ tail_str qs) \<longleftrightarrow>
        glob_seg g p \<and> path_matches gs qs" if "clean_segs (p # qs)" for p qs
    proof -
      have p: "47 \<notin> set p" "clean_segs qs" using that by (auto simp: clean_segs_def)
      have "rmatch (map seg_char g @ items False gs) (p @ tail_str qs) \<longleftrightarrow>
          glob_seg g p \<and> rmatch (items False gs) (tail_str qs)"
        by (rule rmatch_segment [OF p(1) tail_str_head g(3)]) (rule items_False_slash)
      then show ?thesis unfolding IH(1) [OF p(2)] .
    qed
    have nonil: "\<not> path_matches gs []" if "g = STAR2" "gs \<noteq> []"
    proof -
      from that nx have "hd gs \<noteq> STAR2" by blast
      with that(2) show ?thesis by (cases gs) auto
    qed
    have all: "path_matches [STAR2] qs" for qs by (induction qs) auto
    have dirs: "rmatch (RDirs # items True gs) (join_with [47] qs) \<longleftrightarrow> path_matches (STAR2 # gs) qs"
      if "clean_segs qs" "qs \<noteq> []" "g = STAR2" "gs \<noteq> []" for qs
      by (rule rmatch_dirs [OF that(1,2) IH(2) nonil]) (use that in auto)
    have star: "rmatch (items True (g # gs)) (join_with [47] qs) \<longleftrightarrow> path_matches (g # gs) qs"
      if "clean_segs qs" "qs \<noteq> []" for qs
    proof (cases "g = STAR2")
      case True
      with that dirs all show ?thesis by (cases "gs = []") (simp_all add: all_suffixes_ends)
    next
      case False
      from that obtain p rs where "qs = p # rs" by (cases qs) auto
      with seg that False show ?thesis by (simp add: join_tail)
    qed
    have False_step: "rmatch (items False (g # gs)) (tail_str ps) \<longleftrightarrow> path_matches (g # gs) ps"
      if "clean_segs ps"
    proof (cases "g = STAR2 \<and> gs = []")
      case True
      with all [of ps] show ?thesis by (cases ps) (simp_all add: all_suffixes_ends)
    next
      case False
      show ?thesis
      proof (cases ps)
        case Nil
        have "\<not> path_matches (g # gs) []" using False nonil by auto
        with Nil False show ?thesis by (cases "g = STAR2") auto
      next
        case (Cons p qs)
        with that star [of ps] False show ?thesis
          by (cases "g = STAR2") (auto simp: join_tail)
      qed
    qed
    note False_step star }
  note both = this
  { case 1 then show ?case using both(1) by blast }
  { case 2 then show ?case using both(2) by blast }
qed

lemma include_pattern_body_match:
  assumes "clean_segs (split_on 47 pattern)" "clean_segs (split_on 47 rel)"
  shows "rmatch (include_pattern_body pattern) rel \<longleftrightarrow> path_matches (split_on 47 pattern) (split_on 47 rel)"
proof -
  define gs where "gs = dedup_stars (split_on 47 pattern)"
  have c: "clean_segs gs" using assms(1) set_dedup [of "split_on 47 pattern"]
    by (auto simp: clean_segs_def gs_def)
  have n: "no_adjacent gs" unfolding gs_def by (rule no_adjacent_dedup)
  have "[] \<notin> set gs" using c by (simp add: clean_segs_def)
  then have "include_pattern_body pattern = items True gs"
    using body_loop_items [OF n, of "[]"] by (simp add: include_pattern_body_def gs_def)
  moreover have "rel = join_with [47] (split_on 47 rel)" by (simp add: join_split)
  ultimately show ?thesis
    using items_match(2) [OF n c assms(2)] path_matches_dedup by (metis gs_def split_on_ne)
qed


section \<open>Properties\<close>

text \<open>C9. Include patterns mean what their documentation says: on patterns and paths without empty
  components, the compiled alternation accepts exactly the paths some pattern accepts component by
  component, where a star never crosses a slash and a double star spans any number of components.\<close>

theorem include_patterns_by_segment:
  assumes "\<forall>p \<in> set pats. clean_segs (split_on 47 p)" and "clean_segs (split_on 47 rel)"
  shows "matches_include_patterns rel pats \<longleftrightarrow>
    (\<exists>p \<in> set pats. path_matches (split_on 47 p) (split_on 47 rel))"
  using assms include_pattern_body_match
  by (auto simp: matches_include_patterns_def list_ex_iff)

theorem include_patterns_by_segment_witness:
  "matches_include_patterns (u ''projects/x/checkpoints/a/b.md'') [u ''projects/*/checkpoints/**''] \<and>
   \<not> matches_include_patterns (u ''projects/x/y/review.md'') [u ''projects/*/review.md'']"
proof -
  have c: "clean_segs (split_on 47 (u ''projects/*/checkpoints/**''))"
    "clean_segs (split_on 47 (u ''projects/*/review.md''))"
    "clean_segs (split_on 47 (u ''projects/x/checkpoints/a/b.md''))"
    "clean_segs (split_on 47 (u ''projects/x/y/review.md''))"
    by (simp_all add: clean_segs_def u_def)
  have "path_matches (split_on 47 (u ''projects/*/checkpoints/**'')) (split_on 47 (u ''projects/x/checkpoints/a/b.md''))"
    "\<not> path_matches (split_on 47 (u ''projects/*/review.md'')) (split_on 47 (u ''projects/x/y/review.md''))"
    by code_simp+
  with c show ?thesis
    using include_patterns_by_segment [of "[u ''projects/*/checkpoints/**'']" "u ''projects/x/checkpoints/a/b.md''"]
      include_patterns_by_segment [of "[u ''projects/*/review.md'']" "u ''projects/x/y/review.md''"]
    by simp
qed

end
