(* ===== verification/ConflictName.thy ===== *)
theory ConflictName
  imports Patterns Datetime
begin

text \<open>
  Names of conflict copies: the shape test and the parsers of \<open>manifest.py\<close>, the minting of
  \<open>pullflow.conflict_filename\<close>, the canonical sibling a copy belongs to, and the renaming of
  pre-inversion copies in \<open>resolveflow.py\<close>. A path is its final component here; the directory
  part is never touched. Digits are ASCII digits, and \<open>strftime\<close> years have four of them.
\<close>

section \<open>Constants and the shape test\<close>

definition CONFLICT_INFIX :: pystr where
  "CONFLICT_INFIX = u ''.sync-conflict-''"

definition CONFLICT_V0_PREFIX :: pystr where
  "CONFLICT_V0_PREFIX = u ''v0-''"

definition CONFLICT_V1_MARKER :: pystr where
  "CONFLICT_V1_MARKER = u ''v1''"

definition DIGIT_GLOB :: pystr where
  "DIGIT_GLOB = u ''[0-9]''"

definition CONFLICT_PATTERN :: pystr where
  "CONFLICT_PATTERN = u ''*'' @ CONFLICT_INFIX @ concat (replicate 8 DIGIT_GLOB) @ u ''-'' @
     concat (replicate 6 DIGIT_GLOB) @ u ''-*''"

definition CONFLICT_PATTERN_V0 :: pystr where
  "CONFLICT_PATTERN_V0 = u ''*'' @ CONFLICT_INFIX @ CONFLICT_V0_PREFIX @ concat (replicate 8 DIGIT_GLOB) @
     u ''-'' @ concat (replicate 6 DIGIT_GLOB) @ u ''-*''"

definition is_conflict_filename :: "pystr \<Rightarrow> bool" where
  "is_conflict_filename name \<longleftrightarrow>
     name \<noteq> [] \<and> (fnmatch name CONFLICT_PATTERN \<or> fnmatch name CONFLICT_PATTERN_V0)"

definition is_pre_inversion_conflict_filename :: "pystr \<Rightarrow> bool" where
  "is_pre_inversion_conflict_filename name \<longleftrightarrow> name \<noteq> [] \<and> fnmatch name CONFLICT_PATTERN_V0"

section \<open>Parsing\<close>

definition conflict_metadata_parts :: "pystr \<Rightarrow> pystr list option" where
  "conflict_metadata_parts name =
     (if \<not> is_conflict_filename name then None
      else
        (case rfind_sub CONFLICT_INFIX name of
           None \<Rightarrow> None
         | Some infix_at \<Rightarrow>
             (let after = drop (infix_at + length CONFLICT_INFIX) name;
                  after = (if startswith after CONFLICT_V0_PREFIX
                           then drop (length CONFLICT_V0_PREFIX) after else after);
                  metadata = (case rfind_sub [46] after of None \<Rightarrow> after | Some i \<Rightarrow> take i after)
              in Some (split_on 45 metadata))))"

definition is_hex4 :: "pystr \<Rightarrow> bool" where
  "is_hex4 s \<longleftrightarrow> length s = 4 \<and> list_all (\<lambda>c. is_digit c \<or> (97 \<le> c \<and> c \<le> 102)) s"

definition parse_conflict_device_short :: "pystr \<Rightarrow> pystr option" where
  "parse_conflict_device_short name =
     (case conflict_metadata_parts name of
        None \<Rightarrow> None
      | Some parts \<Rightarrow>
          (let parts = (if length parts \<ge> 4 \<and> parts ! 2 = CONFLICT_V1_MARKER
                        then take 2 parts @ drop 3 parts else parts)
           in if length parts < 3 then None
              else if length parts \<ge> 4 \<and> is_hex4 (last parts) then Some (last (butlast parts))
              else Some (last parts)))"

definition is_v1_conflict_filename :: "pystr \<Rightarrow> bool" where
  "is_v1_conflict_filename name =
     (case conflict_metadata_parts name of
        None \<Rightarrow> False
      | Some parts \<Rightarrow> length parts \<ge> 3 \<and> parts ! 2 = CONFLICT_V1_MARKER)"

text \<open>\<open>datetime.strptime(s, "%Y%m%d-%H%M%S")\<close>: every directive offers its matches in the order of
  its regular expression; the first way through the format must consume the whole string, and
  its fields must form a datetime.\<close>

definition take_num :: "nat \<Rightarrow> int \<Rightarrow> int \<Rightarrow> pystr \<Rightarrow> (int \<times> pystr) list" where
  "take_num w lo hi s =
     (case (if length s < w then None else num (take w s)) of
        None \<Rightarrow> []
      | Some n \<Rightarrow> (if lo \<le> n \<and> n \<le> hi then [(n, drop w s)] else []))"

definition directive :: "char \<Rightarrow> pystr \<Rightarrow> (int \<times> pystr) list" where
  "directive d s =
     (if d = CHR ''Y'' then take_num 4 0 9999 s
      else if d = CHR ''m'' then take_num 2 1 12 s @ take_num 1 1 9 s
      else if d = CHR ''d'' then
        take_num 2 1 31 s @ take_num 1 1 9 s @ (if startswith s [32] then take_num 1 1 9 (tl s) else [])
      else if d = CHR ''H'' then take_num 2 0 23 s @ take_num 1 0 9 s
      else if d = CHR ''M'' then take_num 2 0 59 s @ take_num 1 0 9 s
      else if d = CHR ''S'' then take_num 2 0 61 s @ take_num 1 0 9 s
      else if startswith s [of_char d] then [(0, tl s)] else [])"

fun first_some :: "('a \<Rightarrow> 'b option) \<Rightarrow> 'a list \<Rightarrow> 'b option" where
  "first_some f [] = None"
| "first_some f (x # xs) = (case f x of Some y \<Rightarrow> Some y | None \<Rightarrow> first_some f xs)"

fun run_format :: "string \<Rightarrow> pystr \<Rightarrow> (int list \<times> pystr) option" where
  "run_format [] s = Some ([], s)"
| "run_format (d # ds) s =
     first_some (\<lambda>(n, r). map_option (\<lambda>(ns, z). (n # ns, z)) (run_format ds r)) (directive d s)"

definition strptime_stamp :: "pystr \<Rightarrow> civil option" where
  "strptime_stamp s =
     (case run_format ''Ymd-HMS'' s of
        Some ([y, m, d, _, h, mi, sec], []) \<Rightarrow>
          (if date_ok y m d \<and> time_ok h mi sec 0
           then Some \<lparr>c_year = y, c_month = m, c_day = d, c_hour = h, c_minute = mi, c_second = sec,
                       c_micro = 0\<rparr>
           else None)
      | _ \<Rightarrow> None)"

definition parse_conflict_created_at :: "pystr \<Rightarrow> civil option" where
  "parse_conflict_created_at name =
     (case conflict_metadata_parts name of
        Some (p0 # p1 # _) \<Rightarrow> strptime_stamp (p0 @ u ''-'' @ p1)
      | _ \<Rightarrow> None)"

section \<open>The canonical sibling\<close>

text \<open>\<open>conflict_path.name\<close> to the sibling's name; \<open>None\<close> where there is no file owner.\<close>

definition canonical_for_conflict :: "pystr \<Rightarrow> pystr option" where
  "canonical_for_conflict name =
     (case rfind_sub CONFLICT_INFIX name of
        None \<Rightarrow> Some name
      | Some idx \<Rightarrow>
          (let before = take idx name;
               after = drop (idx + length CONFLICT_INFIX) name;
               suffix = (case rfind_sub [46] after of None \<Rightarrow> [] | Some i \<Rightarrow> drop i after);
               reconstructed = before @ suffix
           in if reconstructed = [] \<or> reconstructed = u ''.'' \<or> reconstructed = u ''..'' then None
              else Some reconstructed))"

section \<open>Minting\<close>

text \<open>\<open>Path.suffix\<close> and \<open>Path.stem\<close> of a final component.\<close>

definition suffix_at :: "pystr \<Rightarrow> nat option" where
  "suffix_at name =
     (case rfind_sub [46] name of
        None \<Rightarrow> None
      | Some i \<Rightarrow> (if 0 < i \<and> i + 1 < length name then Some i else None))"

definition py_suffix :: "pystr \<Rightarrow> pystr" where
  "py_suffix name = (case suffix_at name of None \<Rightarrow> [] | Some i \<Rightarrow> drop i name)"

definition py_stem :: "pystr \<Rightarrow> pystr" where
  "py_stem name = (case suffix_at name of None \<Rightarrow> name | Some i \<Rightarrow> take i name)"

definition strftime_stamp :: "civil \<Rightarrow> pystr" where
  "strftime_stamp c =
     pad 4 (c_year c) @ pad 2 (c_month c) @ pad 2 (c_day c) @ [45] @
     pad 2 (c_hour c) @ pad 2 (c_minute c) @ pad 2 (c_second c)"

definition conflict_base_name :: "pystr \<Rightarrow> pystr \<Rightarrow> civil \<Rightarrow> pystr" where
  "conflict_base_name canonical device_id now =
     py_stem canonical @ CONFLICT_INFIX @ strftime_stamp now @ u ''-'' @ CONFLICT_V1_MARKER @ u ''-'' @
     take 8 device_id"

datatype mint_error = EmptyDeviceId | InvalidName | NoUnusedName

text \<open>\<open>with_name\<close> refuses a name with a separator (a NUL passes here and fails at the probe).\<close>

definition with_name :: "pystr \<Rightarrow> mint_error + pystr" where
  "with_name n = (if n = [] \<or> 47 \<in> set n \<or> n = u ''.'' then Inl InvalidName else Inr n)"

definition CONFLICT_NAME_RANDOM_ATTEMPTS :: nat where
  "CONFLICT_NAME_RANDOM_ATTEMPTS = 5"

text \<open>\<open>occupied\<close> is the outcome of the \<open>lstat\<close> probe of a sibling name, \<open>Inl\<close> an \<open>OSError\<close> other
  than file-not-found, which propagates; \<open>rands\<close> are the values \<open>secrets.token_hex(2)\<close> returns.\<close>

datatype probe_error = ProbeOSError

fun try_random_names ::
  "(pystr \<Rightarrow> probe_error + bool) \<Rightarrow> (pystr \<Rightarrow> pystr) \<Rightarrow> pystr list \<Rightarrow> (mint_error + probe_error) + pystr" where
  "try_random_names occupied mk [] = Inl (Inl NoUnusedName)"
| "try_random_names occupied mk (r # rs) =
     (case with_name (mk r) of
        Inl e \<Rightarrow> Inl (Inl e)
      | Inr n \<Rightarrow>
          (case occupied n of
             Inl e \<Rightarrow> Inl (Inr e)
           | Inr True \<Rightarrow> try_random_names occupied mk rs
           | Inr False \<Rightarrow> Inr n))"

definition conflict_filename ::
  "(pystr \<Rightarrow> probe_error + bool) \<Rightarrow> pystr list \<Rightarrow> pystr \<Rightarrow> pystr \<Rightarrow> civil \<Rightarrow>
     (mint_error + probe_error) + pystr" where
  "conflict_filename occupied rands canonical device_id now =
     (if device_id = [] then Inl (Inl EmptyDeviceId)
      else
        (let base = conflict_base_name canonical device_id now; suffix = py_suffix canonical
         in case with_name (base @ suffix) of
              Inl e \<Rightarrow> Inl (Inl e)
            | Inr path \<Rightarrow>
                (case occupied path of
                   Inl e \<Rightarrow> Inl (Inr e)
                 | Inr False \<Rightarrow> Inr path
                 | Inr True \<Rightarrow>
                     try_random_names occupied (\<lambda>r. base @ u ''-'' @ r @ suffix)
                       (take CONFLICT_NAME_RANDOM_ATTEMPTS rands))))"

section \<open>Migration of pre-inversion copies\<close>

text \<open>The decision and the new name. \<open>marker_ts\<close> is what the inversion marker holds, \<open>shipped\<close> the
  release date of the inversion, as instants; the rename itself may still fail or collide.\<close>

definition migrated_name :: "pystr \<Rightarrow> pystr option" where
  "migrated_name name =
     (case rfind_sub CONFLICT_INFIX name of
        None \<Rightarrow> None
      | Some idx \<Rightarrow> Some (take (idx + length CONFLICT_INFIX) name @ CONFLICT_V0_PREFIX @
                          drop (idx + length CONFLICT_INFIX) name))"

definition INVERSION_SHIPPED_AT :: int where
  "INVERSION_SHIPPED_AT = instant_of \<lparr>c_year = 2026, c_month = 4, c_day = 25, c_hour = 0, c_minute = 0,
     c_second = 0, c_micro = 0\<rparr>"

definition migrate_pre_inversion_conflict ::
  "int option \<Rightarrow> (pystr \<Rightarrow> bool) \<Rightarrow> (pystr \<Rightarrow> bool) \<Rightarrow> pystr \<Rightarrow> pystr" where
  "migrate_pre_inversion_conflict marker_ts exists rename_ok name =
     (if is_pre_inversion_conflict_filename name then name
      else if \<not> is_conflict_filename name then name
      else if is_v1_conflict_filename name then name
      else
        (case marker_ts of
           None \<Rightarrow> name
         | Some ts \<Rightarrow>
             (case parse_conflict_created_at name of
                None \<Rightarrow> name
              | Some created \<Rightarrow>
                  (if instant_of created \<ge> INVERSION_SHIPPED_AT then name
                   else if instant_of created \<ge> ts then name
                   else
                     (case migrated_name name of
                        None \<Rightarrow> name
                      | Some new_name \<Rightarrow>
                          (if exists new_name then name
                           else if rename_ok new_name then new_name else name))))))"


section \<open>The shape of a conflict name\<close>

definition stamp_digits :: "pystr \<Rightarrow> pystr \<Rightarrow> bool" where
  "stamp_digits x y \<longleftrightarrow> length x = 8 \<and> list_all is_digit x \<and> length y = 6 \<and> list_all is_digit y"

lemma digit_token: "tok_char (FSet False [(48, 57)]) = is_digit"
  by (auto simp: in_ranges_def is_digit_def)

lemma translate_pattern:
  "translate CONFLICT_PATTERN = [FStar] @ map FLit CONFLICT_INFIX @
     replicate 8 (FSet False [(48, 57)]) @ map FLit [45] @ replicate 6 (FSet False [(48, 57)]) @
     map FLit [45] @ [FStar]"
  "translate CONFLICT_PATTERN_V0 = [FStar] @ map FLit (CONFLICT_INFIX @ CONFLICT_V0_PREFIX) @
     replicate 8 (FSet False [(48, 57)]) @ map FLit [45] @ replicate 6 (FSet False [(48, 57)]) @
     map FLit [45] @ [FStar]"
  by code_simp+

lemma fmatch_stamped:
  "fmatch ([FStar] @ map FLit w @ replicate 8 (FSet False [(48, 57)]) @ map FLit [45] @
     replicate 6 (FSet False [(48, 57)]) @ map FLit [45] @ [FStar]) s \<longleftrightarrow>
   (\<exists>a x y b. s = a @ w @ x @ [45] @ y @ [45] @ b \<and> stamp_digits x y)"
proof -
  define P where "P s \<longleftrightarrow> (\<exists>x y b. s = x @ [45] @ y @ [45] @ b \<and> stamp_digits x y)" for s
  have rest: "fmatch (replicate 8 (FSet False [(48, 57)]) @ map FLit [45] @
      replicate 6 (FSet False [(48, 57)]) @ map FLit [45] @ [FStar]) s \<longleftrightarrow> P s" for s
    unfolding fmatch_replicate [OF ftok.distinct(5) [symmetric]] fmatch_lits digit_token P_def stamp_digits_def
    by (simp only: fmatch_star_only simp_thms) blast
  have "fmatch ([FStar] @ map FLit w @ replicate 8 (FSet False [(48, 57)]) @ map FLit [45] @
      replicate 6 (FSet False [(48, 57)]) @ map FLit [45] @ [FStar]) s \<longleftrightarrow>
      (\<exists>a b. s = a @ b \<and> (\<exists>r. b = w @ r \<and> P r))"
    unfolding append_Cons append_Nil fmatch_FStar fmatch_lits rest ..
  then show ?thesis unfolding P_def by blast
qed

lemma fnmatch_conflict:
  "fnmatch name CONFLICT_PATTERN \<longleftrightarrow>
     (\<exists>a x y b. name = a @ CONFLICT_INFIX @ x @ [45] @ y @ [45] @ b \<and> stamp_digits x y)"
  unfolding fnmatch_def translate_pattern by (rule fmatch_stamped)

lemma fnmatch_conflict_v0:
  "fnmatch name CONFLICT_PATTERN_V0 \<longleftrightarrow>
     (\<exists>a x y b. name = a @ CONFLICT_INFIX @ CONFLICT_V0_PREFIX @ x @ [45] @ y @ [45] @ b \<and> stamp_digits x y)"
  unfolding fnmatch_def translate_pattern fmatch_stamped by simp

lemma infix_ne [simp]: "CONFLICT_INFIX \<noteq> []"
  by (simp add: CONFLICT_INFIX_def)

lemma is_conflict_iff:
  "is_conflict_filename name \<longleftrightarrow>
     (\<exists>a v x y b. name = a @ CONFLICT_INFIX @ v @ x @ [45] @ y @ [45] @ b \<and> stamp_digits x y \<and>
        (v = [] \<or> v = CONFLICT_V0_PREFIX))"
proof -
  have "name \<noteq> []" if "name = a @ CONFLICT_INFIX @ v" for a v using that by simp
  then show ?thesis
    unfolding is_conflict_filename_def fnmatch_conflict fnmatch_conflict_v0
    by (metis append_Nil)
qed

lemma is_pre_inversion_iff:
  "is_pre_inversion_conflict_filename name \<longleftrightarrow>
     (\<exists>a x y b. name = a @ CONFLICT_INFIX @ CONFLICT_V0_PREFIX @ x @ [45] @ y @ [45] @ b \<and> stamp_digits x y)"
  unfolding is_pre_inversion_conflict_filename_def fnmatch_conflict_v0 by auto

lemma is_pre_inversion_is_conflict:
  "is_pre_inversion_conflict_filename name \<Longrightarrow> is_conflict_filename name"
  by (simp add: is_pre_inversion_conflict_filename_def is_conflict_filename_def)

section \<open>Positions of dots and infixes\<close>

lemma rfind_char_append:
  assumes "c \<notin> set b"
  shows "rfind_sub [c] (a @ c # b) = Some (length a)"
proof -
  have "\<not> contains b [c]" using assms by (auto simp: contains_iff)
  with rfind_sub_append [of "[c]" b a] show ?thesis by simp
qed

lemma rfind_char_None: "rfind_sub [c] s = None \<longleftrightarrow> c \<notin> set s"
  by (auto simp: rfind_sub_None_iff contains_iff in_set_conv_decomp)

lemma rfind_char_Some:
  assumes "rfind_sub [c] s = Some i"
  shows "\<exists>a b. s = a @ c # b \<and> length a = i \<and> c \<notin> set b"
proof -
  have "c \<in> set s" using assms rfind_char_None [of c s] by auto
  then obtain a b where ab: "s = a @ c # b" "c \<notin> set b" by (meson split_list_last)
  with rfind_char_append [of c b a] assms show ?thesis by auto
qed

text \<open>A pattern that starts with a dot is found only where there is a dot.\<close>

lemma contains_skip:
  assumes "46 \<notin> set x" and "contains (x @ y) (46 # p)"
  shows "contains y (46 # p)"
proof -
  from assms(2) obtain a b where "x @ y = a @ 46 # p @ b" by (auto simp: contains_iff)
  then consider us where "x = a @ us" "us @ y = 46 # p @ b" | us where "a = x @ us" "y = us @ 46 # p @ b"
    by (auto simp: append_eq_append_conv2)
  then show ?thesis
  proof cases
    case 1
    then have "us = []" using assms(1) by (cases us) auto
    with 1 have "y = [] @ (46 # p) @ b" by simp
    then show ?thesis unfolding contains_iff by blast
  next
    case 2
    then show ?thesis unfolding contains_iff by auto
  qed
qed

lemma contains_dot_once:
  assumes "46 \<notin> set y" and "contains (46 # y) (46 # p)"
  shows "startswith (46 # y) (46 # p)"
proof -
  from assms(2) obtain a b where ab: "46 # y = a @ (46 # p) @ b" by (auto simp: contains_iff)
  have "a = []"
  proof (rule ccontr)
    assume "a \<noteq> []"
    with ab have "y = tl a @ (46 # p) @ b" by (cases a) auto
    with assms(1) show False by simp
  qed
  with ab show ?thesis by (auto simp: startswith_iff)
qed

lemma infix_dot: "CONFLICT_INFIX = 46 # tl CONFLICT_INFIX" "46 \<notin> set (tl CONFLICT_INFIX)"
  by (simp_all add: CONFLICT_INFIX_def u_def)

lemma rfind_infix:
  assumes "46 \<notin> set meta" and "suffix = [] \<or> (\<exists>t. suffix = 46 # t \<and> 46 \<notin> set t)"
    and "\<not> startswith suffix CONFLICT_INFIX"
  shows "rfind_sub CONFLICT_INFIX (a @ CONFLICT_INFIX @ meta @ suffix) = Some (length a)"
proof (rule rfind_sub_append)
  show "CONFLICT_INFIX \<noteq> []" by simp
  show "\<not> contains (tl (CONFLICT_INFIX @ meta @ suffix)) CONFLICT_INFIX"
  proof
    assume c: "contains (tl (CONFLICT_INFIX @ meta @ suffix)) CONFLICT_INFIX"
    have "tl (CONFLICT_INFIX @ meta @ suffix) = (tl CONFLICT_INFIX @ meta) @ suffix" by simp
    with c have "contains ((tl CONFLICT_INFIX @ meta) @ suffix) (46 # tl CONFLICT_INFIX)"
      using infix_dot(1) by simp
    then have s: "contains suffix (46 # tl CONFLICT_INFIX)"
      by (rule contains_skip [rotated]) (use assms(1) infix_dot(2) in simp)
    then have "suffix \<noteq> []" by (auto simp: contains_iff)
    with assms(2) obtain t where "suffix = 46 # t" "46 \<notin> set t" by blast
    with s contains_dot_once assms(3) infix_dot(1) show False by metis
  qed
qed

lemma stem_suffix:
  "name = py_stem name @ py_suffix name"
  "py_suffix name = [] \<or> (\<exists>t. py_suffix name = 46 # t \<and> 46 \<notin> set t)"
  "name \<noteq> [] \<Longrightarrow> py_stem name \<noteq> []"
proof -
  have "name = py_stem name @ py_suffix name \<and>
    (py_suffix name = [] \<or> (\<exists>t. py_suffix name = 46 # t \<and> 46 \<notin> set t)) \<and> (name \<noteq> [] \<longrightarrow> py_stem name \<noteq> [])"
  proof (cases "suffix_at name")
    case None
    then show ?thesis by (simp add: py_stem_def py_suffix_def)
  next
    case (Some i)
    then have i: "rfind_sub [46] name = Some i" "0 < i"
      by (auto simp: suffix_at_def split: option.splits if_splits)
    from rfind_char_Some [OF i(1)] obtain a b where "name = a @ 46 # b" "length a = i" "46 \<notin> set b" by blast
    with Some i(2) show ?thesis by (auto simp: py_stem_def py_suffix_def)
  qed
  then show "name = py_stem name @ py_suffix name"
    "py_suffix name = [] \<or> (\<exists>t. py_suffix name = 46 # t \<and> 46 \<notin> set t)"
    "name \<noteq> [] \<Longrightarrow> py_stem name \<noteq> []" by blast+
qed

section \<open>strptime reads back strftime\<close>

lemma first_some_hd: "f x = Some y \<Longrightarrow> first_some f (x # xs) = Some y"
  by simp

lemma take_num_pad:
  "0 < w \<Longrightarrow> 0 \<le> n \<Longrightarrow> n < 10 ^ w \<Longrightarrow> lo \<le> n \<Longrightarrow> n \<le> hi \<Longrightarrow> take_num w lo hi (pad w n @ r) = [(n, r)]"
  by (simp add: take_num_def num_pad)

lemma directive_pad:
  "0 \<le> n \<Longrightarrow> n \<le> 9999 \<Longrightarrow> directive CHR ''Y'' (pad 4 n @ r) = [(n, r)]"
  "1 \<le> n \<Longrightarrow> n \<le> 12 \<Longrightarrow> \<exists>xs. directive CHR ''m'' (pad 2 n @ r) = (n, r) # xs"
  "1 \<le> n \<Longrightarrow> n \<le> 31 \<Longrightarrow> \<exists>xs. directive CHR ''d'' (pad 2 n @ r) = (n, r) # xs"
  "0 \<le> n \<Longrightarrow> n \<le> 23 \<Longrightarrow> \<exists>xs. directive CHR ''H'' (pad 2 n @ r) = (n, r) # xs"
  "0 \<le> n \<Longrightarrow> n \<le> 59 \<Longrightarrow> \<exists>xs. directive CHR ''M'' (pad 2 n @ r) = (n, r) # xs"
  "0 \<le> n \<Longrightarrow> n \<le> 61 \<Longrightarrow> \<exists>xs. directive CHR ''S'' (pad 2 n @ r) = (n, r) # xs"
  unfolding directive_def by (simp_all add: take_num_pad del: pad.simps)

lemma run_format_step:
  assumes "\<exists>xs. directive d s = (n, r) # xs" and "run_format ds r = Some (ns, z)"
  shows "run_format (d # ds) s = Some (n # ns, z)"
  using assms by auto

lemma strptime_strftime:
  assumes "civil_ok c"
  shows "strptime_stamp (strftime_stamp c) = Some (c\<lparr>c_micro := 0\<rparr>)"
proof -
  have d: "date_ok (c_year c) (c_month c) (c_day c)" and t: "time_ok (c_hour c) (c_minute c) (c_second c) (c_micro c)"
    using assms by (simp_all add: civil_ok_def)
  have "c_day c \<le> 31" using d days_in_month_le [of "c_month c" "is_leap (c_year c)"] by (auto simp: date_ok_def)
  then have b: "0 \<le> c_year c" "c_year c \<le> 9999" "1 \<le> c_month c" "c_month c \<le> 12" "1 \<le> c_day c"
    "c_day c \<le> 31" "0 \<le> c_hour c" "c_hour c \<le> 23" "0 \<le> c_minute c" "c_minute c \<le> 59"
    "0 \<le> c_second c" "c_second c \<le> 61"
    using d t by (auto simp: date_ok_def time_ok_def)
  have dash: "\<exists>xs. directive CHR ''-'' (45 # r) = (0, r) # xs" for r by (simp add: directive_def)
  have year: "\<exists>xs. directive CHR ''Y'' (pad 4 (c_year c) @ r) = (c_year c, r) # xs" for r
    by (simp only: directive_pad(1) [OF b(1,2)]) simp
  have "run_format ''S'' (pad 2 (c_second c) @ []) = Some ([c_second c], [])"
    by (rule run_format_step [OF directive_pad(6) [OF b(11,12)]]) simp
  then have "run_format ''MS'' (pad 2 (c_minute c) @ pad 2 (c_second c) @ []) = Some ([c_minute c, c_second c], [])"
    by (rule run_format_step [OF directive_pad(5) [OF b(9,10)]])
  then have "run_format ''HMS'' (pad 2 (c_hour c) @ pad 2 (c_minute c) @ pad 2 (c_second c) @ []) =
      Some ([c_hour c, c_minute c, c_second c], [])"
    by (rule run_format_step [OF directive_pad(4) [OF b(7,8)]])
  then have "run_format ''-HMS'' (45 # pad 2 (c_hour c) @ pad 2 (c_minute c) @ pad 2 (c_second c) @ []) =
      Some ([0, c_hour c, c_minute c, c_second c], [])"
    by (rule run_format_step [OF dash])
  then have "run_format ''d-HMS'' (pad 2 (c_day c) @ 45 # pad 2 (c_hour c) @ pad 2 (c_minute c) @
      pad 2 (c_second c) @ []) = Some ([c_day c, 0, c_hour c, c_minute c, c_second c], [])"
    by (rule run_format_step [OF directive_pad(3) [OF b(5,6)]])
  then have "run_format ''md-HMS'' (pad 2 (c_month c) @ pad 2 (c_day c) @ 45 # pad 2 (c_hour c) @
      pad 2 (c_minute c) @ pad 2 (c_second c) @ []) =
      Some ([c_month c, c_day c, 0, c_hour c, c_minute c, c_second c], [])"
    by (rule run_format_step [OF directive_pad(2) [OF b(3,4)]])
  then have "run_format ''Ymd-HMS'' (pad 4 (c_year c) @ pad 2 (c_month c) @ pad 2 (c_day c) @
      45 # pad 2 (c_hour c) @ pad 2 (c_minute c) @ pad 2 (c_second c) @ []) =
      Some ([c_year c, c_month c, c_day c, 0, c_hour c, c_minute c, c_second c], [])"
    by (rule run_format_step [OF year])
  then have "run_format ''Ymd-HMS'' (strftime_stamp c) =
      Some ([c_year c, c_month c, c_day c, 0, c_hour c, c_minute c, c_second c], [])"
    by (simp only: strftime_stamp_def append_Nil2 append_Cons append_Nil append_assoc)
  moreover have "time_ok (c_hour c) (c_minute c) (c_second c) 0" using t by (auto simp: time_ok_def)
  ultimately show ?thesis using d by (simp add: strptime_stamp_def)
qed


section \<open>Reading a name back\<close>

definition suffix_shape :: "pystr \<Rightarrow> bool" where
  "suffix_shape suffix \<longleftrightarrow>
     (suffix = [] \<or> (\<exists>t. suffix = 46 # t \<and> 46 \<notin> set t)) \<and> \<not> startswith suffix CONFLICT_INFIX"

lemma rfind_dot_suffix:
  assumes "46 \<notin> set meta" "suffix_shape suffix"
  shows "rfind_sub [46] (meta @ suffix) = (if suffix = [] then None else Some (length meta))"
  using assms rfind_char_append [of 46 _ meta] by (auto simp: suffix_shape_def rfind_char_None)

lemma v0_prefix: "CONFLICT_V0_PREFIX = [118, 48, 45]"
  by (simp add: CONFLICT_V0_PREFIX_def u_def)

lemma metadata_parts:
  assumes "is_conflict_filename name" "name = a @ CONFLICT_INFIX @ v @ meta @ suffix"
    and "v = [] \<and> \<not> startswith (meta @ suffix) CONFLICT_V0_PREFIX \<or> v = CONFLICT_V0_PREFIX"
    and "46 \<notin> set meta" "suffix_shape suffix"
  shows "conflict_metadata_parts name = Some (split_on 45 meta)"
    and "rfind_sub CONFLICT_INFIX name = Some (length a)"
proof -
  have nd: "46 \<notin> set (v @ meta)" using assms(3,4) by (auto simp: v0_prefix)
  have r: "rfind_sub CONFLICT_INFIX name = Some (length a)"
    using rfind_infix [OF nd] assms(5) unfolding assms(2) suffix_shape_def by simp
  then show "rfind_sub CONFLICT_INFIX name = Some (length a)" .
  have after: "drop (length a + length CONFLICT_INFIX) name = v @ meta @ suffix"
    unfolding assms(2) by simp
  have strip: "(if startswith (v @ meta @ suffix) CONFLICT_V0_PREFIX
      then drop (length CONFLICT_V0_PREFIX) (v @ meta @ suffix) else v @ meta @ suffix) = meta @ suffix"
    using assms(3) by auto
  have md: "(case rfind_sub [46] (meta @ suffix) of None \<Rightarrow> meta @ suffix | Some i \<Rightarrow> take i (meta @ suffix)) = meta"
    unfolding rfind_dot_suffix [OF assms(4,5)] by simp
  show "conflict_metadata_parts name = Some (split_on 45 meta)"
    using assms(1) by (simp only: conflict_metadata_parts_def r after strip md Let_def if_False option.case not_True_eq_False)
qed

lemma canonical_of_stamped:
  assumes "rfind_sub CONFLICT_INFIX name = Some (length a)" "name = a @ CONFLICT_INFIX @ m @ suffix"
    and "46 \<notin> set m" "suffix_shape suffix" "a @ suffix \<notin> {[], u ''.'', u ''..''}"
  shows "canonical_for_conflict name = Some (a @ suffix)"
proof -
  have after: "drop (length a + length CONFLICT_INFIX) name = m @ suffix" and tk: "take (length a) name = a"
    unfolding assms(2) by simp_all
  have sx: "(case rfind_sub [46] (m @ suffix) of None \<Rightarrow> [] | Some i \<Rightarrow> drop i (m @ suffix)) = suffix"
    unfolding rfind_dot_suffix [OF assms(3,4)] by simp
  show ?thesis
    unfolding canonical_for_conflict_def assms(1) option.case after tk sx Let_def
    using assms(5) by simp
qed

text \<open>Device ids the parser can give back: their first eight characters contain no separator of
  the metadata block.\<close>

definition plain_device :: "pystr \<Rightarrow> bool" where
  "plain_device d \<longleftrightarrow> d \<noteq> [] \<and> 45 \<notin> set (take 8 d) \<and> 46 \<notin> set (take 8 d)"

definition stamp_date :: "civil \<Rightarrow> pystr" where
  "stamp_date c = pad 4 (c_year c) @ pad 2 (c_month c) @ pad 2 (c_day c)"

definition stamp_time :: "civil \<Rightarrow> pystr" where
  "stamp_time c = pad 2 (c_hour c) @ pad 2 (c_minute c) @ pad 2 (c_second c)"

lemma stamp_parts:
  "strftime_stamp c = stamp_date c @ [45] @ stamp_time c" "stamp_digits (stamp_date c) (stamp_time c)"
  using pad_digits by (simp_all add: strftime_stamp_def stamp_date_def stamp_time_def stamp_digits_def del: pad.simps)

lemma digits_no: "list_all is_digit x \<Longrightarrow> c < 48 \<or> 57 < c \<Longrightarrow> c \<notin> set x"
  by (auto simp: list_all_iff is_digit_def)

lemma split_stamped:
  assumes "stamp_digits x y"
  shows "split_on 45 (x @ [45] @ y @ [45] @ b) = x # y # split_on 45 b"
proof -
  have "45 \<notin> set x" "45 \<notin> set y" using assms digits_no by (auto simp: stamp_digits_def)
  then show ?thesis by (simp add: split_on_append split_on_id)
qed

text \<open>A name as it is minted: stem, infix, stamp, era, device, perhaps a random part, suffix.\<close>

definition minted_meta :: "pystr \<Rightarrow> civil \<Rightarrow> pystr option \<Rightarrow> pystr" where
  "minted_meta d c rand =
     stamp_date c @ [45] @ stamp_time c @ [45] @ CONFLICT_V1_MARKER @ [45] @ take 8 d @
     (case rand of None \<Rightarrow> [] | Some r \<Rightarrow> 45 # r)"

definition minted_name :: "pystr \<Rightarrow> pystr \<Rightarrow> civil \<Rightarrow> pystr option \<Rightarrow> pystr" where
  "minted_name canonical d c rand =
     py_stem canonical @ CONFLICT_INFIX @ minted_meta d c rand @ py_suffix canonical"

lemma hex4_no: "is_hex4 r \<Longrightarrow> 45 \<notin> set r \<and> 46 \<notin> set r"
  by (auto simp: is_hex4_def list_all_iff is_digit_def)

lemma minted_meta_no_dot:
  assumes "plain_device d" "case rand of None \<Rightarrow> True | Some r \<Rightarrow> is_hex4 r"
  shows "46 \<notin> set (minted_meta d c rand)"
proof -
  have "46 \<notin> set (stamp_date c)" "46 \<notin> set (stamp_time c)"
    using stamp_parts(2) [of c] digits_no by (auto simp: stamp_digits_def)
  with assms hex4_no show ?thesis
    by (auto simp: minted_meta_def plain_device_def CONFLICT_V1_MARKER_def u_def split: option.splits)
qed

lemma minted_split:
  assumes "plain_device d" "case rand of None \<Rightarrow> True | Some r \<Rightarrow> is_hex4 r"
  shows "split_on 45 (minted_meta d c rand) =
    [stamp_date c, stamp_time c, CONFLICT_V1_MARKER, take 8 d] @ (case rand of None \<Rightarrow> [] | Some r \<Rightarrow> [r])"
proof -
  have d: "45 \<notin> set (take 8 d)" using assms(1) by (simp add: plain_device_def)
  have tail: "split_on 45 (take 8 d @ (case rand of None \<Rightarrow> [] | Some r \<Rightarrow> 45 # r)) =
      take 8 d # (case rand of None \<Rightarrow> [] | Some r \<Rightarrow> [r])"
    using d assms(2) hex4_no by (cases rand) (simp_all add: split_on_append split_on_id)
  have "split_on 45 (CONFLICT_V1_MARKER @ [45] @ w) = CONFLICT_V1_MARKER # split_on 45 w" for w
    by (simp add: CONFLICT_V1_MARKER_def u_def)
  then show ?thesis
    unfolding minted_meta_def split_stamped [OF stamp_parts(2)] by (simp add: tail)
qed

lemma minted_is_conflict: "is_conflict_filename (minted_name canonical d c rand)"
  unfolding is_conflict_iff minted_name_def minted_meta_def
  by (intro exI [of _ "py_stem canonical"] exI [of _ "[]"] exI [of _ "stamp_date c"] exI [of _ "stamp_time c"]
      exI [of _ "CONFLICT_V1_MARKER @ [45] @ take 8 d @ (case rand of None \<Rightarrow> [] | Some r \<Rightarrow> 45 # r) @ py_suffix canonical"])
    (simp add: stamp_parts(2))

lemma stamp_first_digit:
  "\<exists>h t. stamp_date c = h # t \<and> is_digit h"
  using stamp_parts(2) [of c] by (cases "stamp_date c") (auto simp: stamp_digits_def)

lemma minted_parse:
  fixes c :: civil
  assumes "plain_device d" "case rand of None \<Rightarrow> True | Some r \<Rightarrow> is_hex4 r"
    and "\<not> startswith (py_suffix canonical) CONFLICT_INFIX"
  defines "name \<equiv> minted_name canonical d c rand"
  shows "conflict_metadata_parts name =
      Some ([stamp_date c, stamp_time c, CONFLICT_V1_MARKER, take 8 d] @ (case rand of None \<Rightarrow> [] | Some r \<Rightarrow> [r]))"
    and "rfind_sub CONFLICT_INFIX name = Some (length (py_stem canonical))"
proof -
  obtain h t where "stamp_date c = h # t" "is_digit h" using stamp_first_digit by blast
  then have nv: "\<not> startswith (minted_meta d c rand @ py_suffix canonical) CONFLICT_V0_PREFIX"
    by (auto simp: minted_meta_def v0_prefix is_digit_def)
  have sx: "suffix_shape (py_suffix canonical)" using stem_suffix(2) assms(3) by (simp add: suffix_shape_def)
  have n: "name = py_stem canonical @ CONFLICT_INFIX @ [] @ minted_meta d c rand @ py_suffix canonical"
    by (simp add: name_def minted_name_def)
  have ic: "is_conflict_filename name" unfolding name_def by (rule minted_is_conflict)
  note mp = metadata_parts [OF ic n _ minted_meta_no_dot [OF assms(1,2)] sx]
  show "conflict_metadata_parts name =
      Some ([stamp_date c, stamp_time c, CONFLICT_V1_MARKER, take 8 d] @ (case rand of None \<Rightarrow> [] | Some r \<Rightarrow> [r]))"
    using mp(1) nv minted_split [OF assms(1,2)] by simp
  show "rfind_sub CONFLICT_INFIX name = Some (length (py_stem canonical))"
    using mp(2) nv by blast
qed

lemma minted_device:
  assumes "plain_device d" "case rand of None \<Rightarrow> True | Some r \<Rightarrow> is_hex4 r"
    and "\<not> startswith (py_suffix canonical) CONFLICT_INFIX"
  shows "parse_conflict_device_short (minted_name canonical d c rand) = Some (take 8 d)"
    and "is_v1_conflict_filename (minted_name canonical d c rand)"
    and "civil_ok c \<Longrightarrow> parse_conflict_created_at (minted_name canonical d c rand) = Some (c\<lparr>c_micro := 0\<rparr>)"
  using assms(2) minted_parse(1) [OF assms, of c] strptime_strftime [of c]
  by (cases rand; simp add: parse_conflict_device_short_def is_v1_conflict_filename_def
      parse_conflict_created_at_def stamp_parts(1) u_def)+

lemma minted_canonical:
  assumes "plain_device d" "case rand of None \<Rightarrow> True | Some r \<Rightarrow> is_hex4 r"
    and "\<not> startswith (py_suffix canonical) CONFLICT_INFIX" "canonical \<notin> {[], u ''.'', u ''..''}"
  shows "canonical_for_conflict (minted_name canonical d c rand) = Some canonical"
proof -
  have sx: "suffix_shape (py_suffix canonical)" using stem_suffix(2) assms(3) by (simp add: suffix_shape_def)
  have "canonical_for_conflict (minted_name canonical d c rand) = Some (py_stem canonical @ py_suffix canonical)"
    by (rule canonical_of_stamped [OF minted_parse(2) [OF assms(1-3)] _ minted_meta_no_dot [OF assms(1,2)] sx])
      (use assms(4) stem_suffix(1) [of canonical] in \<open>simp_all add: minted_name_def\<close>)
  then show ?thesis using stem_suffix(1) [of canonical] by simp
qed

text \<open>A minted name is never read as pre-inversion, unless the file it was minted for already was
  a conflict copy.\<close>

lemma append_prefix_split:
  assumes "a @ m @ b = s @ 46 # r" "length a < length s" "46 \<notin> set (tl m)" "m \<noteq> []"
  shows "\<exists>b'. s = a @ m @ b'"
proof -
  from assms(1,2) obtain us where s: "s = a @ us" and m: "m @ b = us @ 46 # r"
    by (auto simp: append_eq_append_conv2)
  with assms(2) have "us \<noteq> []" by auto
  from m obtain vs where "m = us @ vs \<and> vs @ b = 46 # r \<or> m @ vs = us \<and> b = vs @ 46 # r"
    by (auto simp: append_eq_append_conv2)
  then show ?thesis
  proof
    assume v: "m = us @ vs \<and> vs @ b = 46 # r"
    have "vs = []"
    proof (rule ccontr)
      assume "vs \<noteq> []"
      with v have "46 \<in> set vs" by (cases vs) auto
      with v \<open>us \<noteq> []\<close> assms(3) show False by (cases us) auto
    qed
    with v s show ?thesis by auto
  next
    assume "m @ vs = us \<and> b = vs @ 46 # r"
    with s show ?thesis by auto
  qed
qed

lemma minted_not_pre_inversion:
  assumes "plain_device d" "case rand of None \<Rightarrow> True | Some r \<Rightarrow> is_hex4 r"
    and "\<not> startswith (py_suffix canonical) CONFLICT_INFIX" "\<not> is_conflict_filename canonical"
  shows "\<not> is_pre_inversion_conflict_filename (minted_name canonical d c rand)"
proof
  define name where "name = minted_name canonical d c rand"
  assume "is_pre_inversion_conflict_filename (minted_name canonical d c rand)"
  then obtain a x y b where n: "name = a @ CONFLICT_INFIX @ CONFLICT_V0_PREFIX @ x @ [45] @ y @ [45] @ b"
    and xy: "stamp_digits x y" unfolding is_pre_inversion_iff name_def by blast
  define m where "m = CONFLICT_INFIX @ CONFLICT_V0_PREFIX @ x @ [45] @ y @ [45]"
  have nm: "name = a @ m @ b" by (simp add: n m_def)
  define r where "r = tl CONFLICT_INFIX @ minted_meta d c rand @ py_suffix canonical"
  have ns: "name = py_stem canonical @ 46 # r"
    unfolding name_def minted_name_def r_def by (subst infix_dot(1)) simp
  have tm: "46 \<notin> set (tl m)" "m \<noteq> []"
    using xy infix_dot(2) digits_no by (auto simp: m_def stamp_digits_def v0_prefix)
  consider "length a < length (py_stem canonical)" | "length a = length (py_stem canonical)"
    | "length (py_stem canonical) < length a" by linarith
  then show False
  proof cases
    case 1
    from append_prefix_split [OF _ 1 tm] nm ns obtain b' where "py_stem canonical = a @ m @ b'" by metis
    then have "canonical = a @ CONFLICT_INFIX @ CONFLICT_V0_PREFIX @ x @ [45] @ y @ [45] @ (b' @ py_suffix canonical)"
      using stem_suffix(1) [of canonical] by (simp add: m_def)
    with xy assms(4) show False unfolding is_conflict_iff by blast
  next
    case 2
    with nm ns have "m @ b = 46 # r" by simp
    then have "CONFLICT_V0_PREFIX @ x @ [45] @ y @ [45] @ b = minted_meta d c rand @ py_suffix canonical"
      unfolding m_def r_def by (subst (asm) infix_dot(1)) simp
    moreover obtain h t where "stamp_date c = h # t" "is_digit h" using stamp_first_digit by blast
    ultimately show False by (auto simp: minted_meta_def v0_prefix is_digit_def)
  next
    case 3
    have "rfind_sub CONFLICT_INFIX name = Some (length (py_stem canonical))"
      unfolding name_def by (rule minted_parse(2) [OF assms(1-3)])
    moreover from 3 nm ns obtain us where us: "a = py_stem canonical @ us" "us \<noteq> []"
      by (metis append_eq_append_conv_if append_take_drop_id drop_eq_Nil linorder_not_less nat_less_le order_less_imp_le)
    then have "contains (tl (46 # r)) CONFLICT_INFIX"
      using nm ns unfolding contains_iff m_def by (cases us) auto
    then have "contains ((tl CONFLICT_INFIX @ minted_meta d c rand) @ py_suffix canonical) (46 # tl CONFLICT_INFIX)"
      using infix_dot(1) by (simp add: r_def)
    then have "contains (py_suffix canonical) (46 # tl CONFLICT_INFIX)"
      by (rule contains_skip [rotated]) (use infix_dot(2) minted_meta_no_dot [OF assms(1,2)] in simp)
    then show False
      using stem_suffix(2) [of canonical] contains_dot_once assms(3) infix_dot(1)
      by (metis append_is_Nil_conv contains_iff list.distinct(1))
  qed
qed


section \<open>What conflict_filename returns\<close>

lemma with_name_Inr: "with_name n = Inr m \<Longrightarrow> m = n"
  by (simp add: with_name_def split: if_splits)

lemma try_random_names_Inr:
  "try_random_names occupied mk rs = Inr p \<Longrightarrow> \<exists>r \<in> set rs. p = mk r \<and> occupied p = Inr False"
  by (induction rs) (auto split: sum.splits bool.splits dest: with_name_Inr)

lemma conflict_filename_Inr:
  assumes "conflict_filename occupied rands canonical device_id now = Inr p"
  shows "device_id \<noteq> [] \<and> occupied p = Inr False \<and>
    (p = minted_name canonical device_id now None \<or>
     (\<exists>r \<in> set (take 5 rands). p = minted_name canonical device_id now (Some r)))"
proof -
  define base where "base = conflict_base_name canonical device_id now"
  have b: "base @ py_suffix canonical = minted_name canonical device_id now None"
    "base @ u ''-'' @ r @ py_suffix canonical = minted_name canonical device_id now (Some r)" for r
    by (simp_all add: base_def conflict_base_name_def minted_name_def minted_meta_def stamp_parts(1) u_def)
  show ?thesis
    using assms unfolding conflict_filename_def Let_def base_def [symmetric] b
    by (auto simp: CONFLICT_NAME_RANDOM_ATTEMPTS_def b split: if_splits sum.splits bool.splits
        dest!: with_name_Inr try_random_names_Inr)
qed

lemma try_random_names_all_occupied:
  "\<forall>r \<in> set rs. with_name (mk r) = Inr (mk r) \<and> occupied (mk r) = Inr True \<Longrightarrow>
     try_random_names occupied mk rs = Inl (Inl NoUnusedName)"
  by (induction rs) auto

section \<open>Properties\<close>

text \<open>C10. A minted conflict name is free, is recognised as a conflict copy of the current era, and
  reads back everything that was put in: the device, the moment it was minted (to the second) and
  the file it belongs to, whichever of the random attempts was used. It is never taken for a
  pre-inversion copy unless the file itself was conflict-shaped.\<close>

theorem minted_name_roundtrip:
  assumes "conflict_filename occupied rands canonical device_id now = Inr p"
    and "plain_device device_id" "civil_ok now" "\<forall>r \<in> set rands. is_hex4 r"
    and "canonical \<notin> {[], u ''.'', u ''..''}" "\<not> startswith (py_suffix canonical) CONFLICT_INFIX"
  shows "occupied p = Inr False \<and> is_conflict_filename p \<and> is_v1_conflict_filename p \<and>
    parse_conflict_device_short p = Some (take 8 device_id) \<and>
    parse_conflict_created_at p = Some (now\<lparr>c_micro := 0\<rparr>) \<and>
    canonical_for_conflict p = Some canonical \<and>
    (\<not> is_conflict_filename canonical \<longrightarrow> \<not> is_pre_inversion_conflict_filename p)"
proof -
  from conflict_filename_Inr [OF assms(1)] assms(4)
  obtain rand where p: "p = minted_name canonical device_id now rand" and free: "occupied p = Inr False"
    and r: "case rand of None \<Rightarrow> True | Some r \<Rightarrow> is_hex4 r"
    by (auto dest: in_set_takeD)
  show ?thesis
    unfolding p
    using free [unfolded p] minted_is_conflict minted_device [OF assms(2) r assms(6)] assms(3)
      minted_canonical [OF assms(2) r assms(6,5)] minted_not_pre_inversion [OF assms(2) r assms(6)]
    by blast
qed

definition sample_time :: civil where
  "sample_time = \<lparr>c_year = 2026, c_month = 10, c_day = 14, c_hour = 9, c_minute = 5, c_second = 7, c_micro = 42\<rparr>"

theorem minted_name_roundtrip_witness:
  "canonical_for_conflict (u ''notes.sync-conflict-20261014-090507-v1-abcd1234-0f0f.md'') = Some (u ''notes.md'')"
proof -
  have 1: "conflict_filename
      (\<lambda>n. Inr (n = u ''notes.sync-conflict-20261014-090507-v1-abcd1234.md''))
      [u ''0f0f''] (u ''notes.md'') (u ''abcd1234ef'') sample_time =
    Inr (u ''notes.sync-conflict-20261014-090507-v1-abcd1234-0f0f.md'')" by code_simp
  have 2: "plain_device (u ''abcd1234ef'')" by code_simp
  have 3: "civil_ok sample_time" by code_simp
  have 4: "\<forall>r \<in> set [u ''0f0f'']. is_hex4 r" by code_simp
  have 5: "u ''notes.md'' \<notin> {[], u ''.'', u ''..''}" by simp
  have 6: "\<not> startswith (py_suffix (u ''notes.md'')) CONFLICT_INFIX" by code_simp
  from minted_name_roundtrip [OF 1 2 3 4 5 6] show ?thesis by blast
qed

text \<open>The suffix condition is needed: for a file whose extension itself begins like the infix,
  the copy's owner is computed as another file and its device cannot be read, so such a copy is
  never found again.\<close>

theorem infix_suffix_loses_owner:
  "conflict_filename (\<lambda>_. Inr False) [] (u ''notes.sync-conflict-log'') (u ''abcd1234'') sample_time =
     Inr (u ''notes.sync-conflict-20261014-090507-v1-abcd1234.sync-conflict-log'') \<and>
   canonical_for_conflict (u ''notes.sync-conflict-20261014-090507-v1-abcd1234.sync-conflict-log'') =
     Some (u ''notes.sync-conflict-20261014-090507-v1-abcd1234'') \<and>
   parse_conflict_device_short (u ''notes.sync-conflict-20261014-090507-v1-abcd1234.sync-conflict-log'') = None"
  by (intro conjI; code_simp)

text \<open>Migration either leaves the name alone or marks it once and for all: the marked name is
  recognised as pre-inversion, is left alone by every later run, keeps device, birth time and
  owner, and was given only to a copy without era marker born before both the inversion release and
  this installation's marker.\<close>

theorem migration_latches:
  fixes a x y b suffix :: pystr and marker_ts :: "int option" and exists rename_ok :: "pystr \<Rightarrow> bool"
  defines "name \<equiv> a @ CONFLICT_INFIX @ x @ [45] @ y @ [45] @ b @ suffix"
  defines "new \<equiv> migrate_pre_inversion_conflict marker_ts exists rename_ok name"
  assumes stamped: "stamp_digits x y" and b: "46 \<notin> set b" and suffix: "suffix_shape suffix"
    and owner: "a @ suffix \<notin> {[], u ''.'', u ''..''}"
    and changed: "new \<noteq> name"
  shows "is_pre_inversion_conflict_filename new \<and>
    migrate_pre_inversion_conflict marker' exists' rename' new = new \<and>
    parse_conflict_device_short new = parse_conflict_device_short name \<and>
    parse_conflict_created_at new = parse_conflict_created_at name \<and>
    canonical_for_conflict new = canonical_for_conflict name \<and>
    \<not> is_v1_conflict_filename name \<and>
    (\<exists>c ts. parse_conflict_created_at name = Some c \<and> marker_ts = Some ts \<and>
       instant_of c < ts \<and> instant_of c < INVERSION_SHIPPED_AT)"
proof -
  define meta where "meta = x @ [45] @ y @ [45] @ b"
  have n0: "name = a @ CONFLICT_INFIX @ [] @ meta @ suffix" by (simp add: name_def meta_def)
  have md: "46 \<notin> set meta" using stamped b digits_no by (auto simp: meta_def stamp_digits_def)
  obtain h t where "x = h # t" "is_digit h" using stamped by (cases x) (auto simp: stamp_digits_def)
  then have nv: "\<not> startswith (meta @ suffix) CONFLICT_V0_PREFIX"
    by (auto simp: meta_def v0_prefix is_digit_def)
  have cn: "is_conflict_filename name"
    unfolding is_conflict_iff name_def using stamped
    by (intro exI [of _ a] exI [of _ "[]"] exI [of _ x] exI [of _ y] exI [of _ "b @ suffix"]) simp
  have old: "conflict_metadata_parts name = Some (split_on 45 meta)"
    "rfind_sub CONFLICT_INFIX name = Some (length a)"
    using metadata_parts [OF cn n0 _ md suffix] nv by blast+
  have mig: "migrated_name name = Some (a @ CONFLICT_INFIX @ CONFLICT_V0_PREFIX @ meta @ suffix)"
    unfolding migrated_name_def old(2) by (simp add: n0)
  have new: "new = a @ CONFLICT_INFIX @ CONFLICT_V0_PREFIX @ meta @ suffix"
    and era: "\<not> is_v1_conflict_filename name"
    and born: "\<exists>c ts. parse_conflict_created_at name = Some c \<and> marker_ts = Some ts \<and>
       instant_of c < ts \<and> instant_of c < INVERSION_SHIPPED_AT"
    using changed unfolding new_def migrate_pre_inversion_conflict_def mig
    by (auto split: if_splits option.splits)
  have pre: "is_pre_inversion_conflict_filename new"
    unfolding is_pre_inversion_iff new meta_def using stamped
    by (intro exI [of _ a] exI [of _ x] exI [of _ y] exI [of _ "b @ suffix"]) simp
  note nn = metadata_parts [OF is_pre_inversion_is_conflict [OF pre] new _ md suffix]
  have new_parts: "conflict_metadata_parts new = Some (split_on 45 meta)"
    "rfind_sub CONFLICT_INFIX new = Some (length a)" using nn by blast+
  have "canonical_for_conflict name = Some (a @ suffix)"
    by (rule canonical_of_stamped [OF old(2) _ md suffix owner]) (simp add: n0)
  moreover have "canonical_for_conflict new = Some (a @ suffix)"
    by (rule canonical_of_stamped [OF new_parts(2), of "CONFLICT_V0_PREFIX @ meta"])
      (use md suffix owner in \<open>simp_all add: new v0_prefix\<close>)
  ultimately show ?thesis
    using pre era born old(1) new_parts(1)
    by (simp add: migrate_pre_inversion_conflict_def parse_conflict_device_short_def parse_conflict_created_at_def)
qed

theorem migration_latches_witness:
  "is_pre_inversion_conflict_filename (u ''notes.sync-conflict-v0-20260101-000000-abcd1234.md'')"
proof -
  have sp: "u ''notes'' @ CONFLICT_INFIX @ u ''20260101'' @ [45] @ u ''000000'' @ [45] @ u ''abcd1234'' @ u ''.md'' =
      u ''notes.sync-conflict-20260101-000000-abcd1234.md''" by code_simp
  have m: "migrate_pre_inversion_conflict (Some INVERSION_SHIPPED_AT) (\<lambda>_. False) (\<lambda>_. True)
      (u ''notes.sync-conflict-20260101-000000-abcd1234.md'') =
      u ''notes.sync-conflict-v0-20260101-000000-abcd1234.md''" by code_simp
  have 1: "stamp_digits (u ''20260101'') (u ''000000'')" by code_simp
  have 2: "46 \<notin> set (u ''abcd1234'')" by code_simp
  have 3: "suffix_shape (u ''.md'')"
    by (simp add: suffix_shape_def u_def CONFLICT_INFIX_def)
  have 4: "u ''notes'' @ u ''.md'' \<notin> {[], u ''.'', u ''..''}" by (simp add: u_def)
  show ?thesis
    using migration_latches [OF 1 2 3 4, where marker_ts = "Some INVERSION_SHIPPED_AT"
        and exists = "\<lambda>_. False" and rename_ok = "\<lambda>_. True"]
    unfolding sp m by simp
qed

end
