(* ===== verification/Exclude.thy ===== *)
theory Exclude
  imports ConflictName ManifestLoad
begin

text \<open>
  What is kept out of the sync set: \<open>manifest._under_skip_prefix\<close>, the hard-coded exclusions
  and \<open>manifest._is_excluded\<close> of the walkers, and the stricter gate
  \<open>core._filter_excluded_paths\<close> applies to manifests that come from storage. Absent pattern
  lists are empty lists: the code tests them for truth.
\<close>

section \<open>Prefixes and the walker gate\<close>

definition under_skip_prefix :: "pystr \<Rightarrow> pystr list \<Rightarrow> bool" where
  "under_skip_prefix rel_path prefixes \<longleftrightarrow>
     list_ex (\<lambda>p. p = u ''.'' \<or> rel_path = p \<or> startswith rel_path (p @ u ''/'')) prefixes"

definition MARKER_SKIP_NAME :: pystr where
  "MARKER_SKIP_NAME = u ''.extend-root''"

definition EXCLUDED :: "pystr list" where
  "EXCLUDED = map u
     [''node_modules/'', ''.git/'', ''.DS_Store'', ''.env'', ''.env.*'', ''*.log'', ''*.tmp'',
      ''.claude-sync/'', ''dist/'', ''build/'', ''.next/'', ''.turbo/'', ''__pycache__/'', ''*.pyc'',
      ''.mind-meld-log.md''] @ [MARKER_SKIP_NAME]"

definition MUSE_EXCLUDE_PATTERNS :: "pystr list" where
  "MUSE_EXCLUDE_PATTERNS = [u ''*.muse-memory.lock'']"

text \<open>\<open>pattern.rstrip("/")\<close>.\<close>

definition rstrip_slash :: "pystr \<Rightarrow> pystr" where
  "rstrip_slash p = rev (dropWhile (\<lambda>c. c = 47) (rev p))"

definition excluded_by :: "pystr list \<Rightarrow> pystr \<Rightarrow> bool" where
  "excluded_by parts pat =
     (if endswith pat (u ''/'') then rstrip_slash pat \<in> set parts
      else fnmatch (last parts) pat)"

definition is_excluded :: "pystr list \<Rightarrow> pystr list \<Rightarrow> pystr list \<Rightarrow> pystr \<Rightarrow> bool" where
  "is_excluded exclude_patterns skip_prefixes include_patterns rel_path =
     (let parts = split_on 47 rel_path
      in if is_conflict_filename (last parts) then True
         else if under_skip_prefix rel_path skip_prefixes then True
         else if list_ex (excluded_by parts) EXCLUDED then True
         else if list_ex (fnmatch rel_path) exclude_patterns then True
         else include_patterns \<noteq> [] \<and> \<not> matches_include_patterns rel_path include_patterns)"

section \<open>The consumer gate\<close>

text \<open>\<open>part.casefold() == ".git"\<close>: \<open>g\<close>, \<open>i\<close> and \<open>t\<close> are the case folding of no code points but
  themselves and their ASCII capitals, and no other code point folds to a full stop.\<close>

definition ascii_lower :: "int \<Rightarrow> int" where
  "ascii_lower c = (if 65 \<le> c \<and> c \<le> 90 then c + 32 else c)"

definition is_git_name :: "pystr \<Rightarrow> bool" where
  "is_git_name part \<longleftrightarrow> map ascii_lower part = u ''.git''"

definition conflict_shaped :: "pystr \<Rightarrow> bool" where
  "conflict_shaped rel_path \<longleftrightarrow>
     (let parts = split_on 47 rel_path
      in is_conflict_filename (last parts) \<or> last parts = MARKER_SKIP_NAME \<or>
         list_ex (\<lambda>part. is_git_name part \<or> part = [] \<or> part = u ''.'') parts)"

type_synonym pattern_map = "(pystr, pystr list) dict"

text \<open>The three maps of one push or pull: excludes, skip prefixes, includes, by source name.\<close>

record gate =
  g_exclude :: pattern_map
  g_skip :: pattern_map
  g_include :: pattern_map

definition gate_excluded :: "gate \<Rightarrow> pystr \<Rightarrow> pystr \<Rightarrow> bool" where
  "gate_excluded g name rel_path =
     (if conflict_shaped rel_path then True
      else if under_skip_prefix rel_path (dget (g_skip g) name []) then True
      else if list_ex (fnmatch rel_path) (dget (g_exclude g) name []) then True
      else dget (g_include g) name [] \<noteq> [] \<and>
           \<not> matches_include_patterns rel_path (dget (g_include g) name []))"

section \<open>Laws\<close>

lemma split_on_last_mem: "last (split_on d s) \<in> set (split_on d s)"
  by (simp add: last_in_set)

lemma under_skip_prefix_iff:
  "under_skip_prefix rel prefixes \<longleftrightarrow>
     (\<exists>p \<in> set prefixes. p = u ''.'' \<or> rel = p \<or> (\<exists>t. rel = p @ u ''/'' @ t))"
  by (auto simp: under_skip_prefix_def list_ex_iff startswith_iff)

lemma under_skip_prefix_mono:
  "under_skip_prefix rel ps \<Longrightarrow> set ps \<subseteq> set qs \<Longrightarrow> under_skip_prefix rel qs"
  by (auto simp: under_skip_prefix_def list_ex_iff)

text \<open>A path under a prefix stays under it when it is extended below a directory.\<close>

lemma under_skip_prefix_descend:
  "under_skip_prefix rel ps \<Longrightarrow> under_skip_prefix (rel @ u ''/'' @ t) ps"
  unfolding under_skip_prefix_iff by (metis append_assoc)

lemma is_excluded_conflict: "is_conflict_filename (last (split_on 47 rel)) \<Longrightarrow> is_excluded ex sk inc rel"
  by (simp add: is_excluded_def Let_def)

lemma excluded_git: "u ''.git'' \<in> set (split_on 47 rel) \<Longrightarrow> list_ex (excluded_by (split_on 47 rel)) EXCLUDED"
proof -
  assume g: "u ''.git'' \<in> set (split_on 47 rel)"
  have "excluded_by (split_on 47 rel) (u ''.git/'')"
    using g by (simp add: excluded_by_def endswith_def rstrip_slash_def u_def)
  moreover have "u ''.git/'' \<in> set EXCLUDED" by (simp add: EXCLUDED_def)
  ultimately show ?thesis by (auto simp: list_ex_iff)
qed

lemma excluded_marker: "last (split_on 47 rel) = MARKER_SKIP_NAME \<Longrightarrow> list_ex (excluded_by (split_on 47 rel)) EXCLUDED"
proof -
  assume m: "last (split_on 47 rel) = MARKER_SKIP_NAME"
  have "fnmatch MARKER_SKIP_NAME MARKER_SKIP_NAME"
    by (rule fnmatch_literal [THEN iffD2]) (simp_all add: MARKER_SKIP_NAME_def u_def)
  then have "excluded_by (split_on 47 rel) MARKER_SKIP_NAME"
    using m by (simp add: excluded_by_def endswith_def MARKER_SKIP_NAME_def u_def)
  moreover have "MARKER_SKIP_NAME \<in> set EXCLUDED" by (simp add: EXCLUDED_def)
  ultimately show ?thesis by (auto simp: list_ex_iff)
qed

text \<open>The temporary file of an atomic write is never synced.\<close>

lemma excluded_tmp:
  assumes "last (split_on 47 rel) = base @ u ''.tmp''"
  shows "is_excluded ex sk inc rel"
proof -
  have "fnmatch (base @ u ''.tmp'') (u ''*.tmp'')"
  proof -
    have "u ''*.tmp'' = 42 # u ''.tmp''" by (simp add: u_def)
    moreover have "fnmatch (base @ u ''.tmp'') (42 # u ''.tmp'')"
      by (rule fnmatch_star_suffix [THEN iffD2]) (auto simp: u_def endswith_iff)
    ultimately show ?thesis by simp
  qed
  moreover have "u ''*.tmp'' \<in> set EXCLUDED" by (simp add: EXCLUDED_def)
  moreover have "\<not> endswith (u ''*.tmp'') (u ''/'')" by (simp add: endswith_def u_def)
  ultimately have "list_ex (excluded_by (split_on 47 rel)) EXCLUDED"
    using assms by (auto simp: list_ex_iff excluded_by_def intro!: bexI [of _ "u ''*.tmp''"])
  then show ?thesis by (simp add: is_excluded_def Let_def)
qed

end
