(* ===== verification/Filters.thy ===== *)
theory Filters
  imports Exclude Manifest
begin

text \<open>
  What a push or a pull does to a manifest before comparing it: the consumer gate
  \<open>_filter_excluded_paths\<close>, the symlink, disabled-source and unselected-source filters, the
  freezing of nested checkouts with the drop of what was not frozen, the injection of held
  files, and the merge of conflict copies of one device's manifest. They all only remove or
  carry entries; the properties say which, and that no tombstone of a retired, disabled or
  unselected source is lost.
\<close>

section \<open>Tombstone keys\<close>

text \<open>\<open>key.split(":", 1)\<close>, with a bare key belonging to the claude source.\<close>

definition split_key :: "pystr \<Rightarrow> pystr \<times> pystr" where
  "split_key key =
     (if 58 \<in> set key then (takeWhile (\<lambda>c. c \<noteq> 58) key, after_colon key) else (u ''claude'', key))"

section \<open>The consumer gate\<close>

definition filter_files :: "(pystr \<Rightarrow> bool) \<Rightarrow> source_data \<Rightarrow> source_data" where
  "filter_files keep sd = sd\<lparr>sd_files := dict_filter (\<lambda>rel _. keep rel) (sd_files sd)\<rparr>"

definition map_sources :: "(pystr \<Rightarrow> source_data \<Rightarrow> source_data) \<Rightarrow> (pystr, source_data) dict \<Rightarrow> (pystr, source_data) dict" where
  "map_sources f srcs = map (\<lambda>(name, sd). (name, f name sd)) srcs"

definition has_conflict_shape :: "manifest \<Rightarrow> bool" where
  "has_conflict_shape m \<longleftrightarrow>
     list_ex (\<lambda>(_, sd). list_ex conflict_shaped (dkeys (sd_files sd))) (sources_of m) \<or>
     list_ex (\<lambda>key. conflict_shaped (if 58 \<in> set key then after_colon key else key)) (dkeys (m_tombstones m))"

definition filter_excluded_paths :: "gate \<Rightarrow> manifest \<Rightarrow> manifest" where
  "filter_excluded_paths g m =
     (if g_exclude g = [] \<and> g_skip g = [] \<and> g_include g = [] \<and> \<not> has_conflict_shape m then m
      else
        m\<lparr>m_sources := Some (map_sources (\<lambda>name. filter_files (\<lambda>rel. \<not> gate_excluded g name rel)) (sources_of m)),
          m_tombstones := dict_filter (\<lambda>key _. case split_key key of (name, rel) \<Rightarrow> \<not> gate_excluded g name rel)
            (m_tombstones m)\<rparr>)"

section \<open>Symlinked paths\<close>

text \<open>\<open>probe name rel\<close> is the outcome of \<open>_has_symlinked_component\<close> below the configured root,
  which may refuse; only configured sources are probed, exempt roots are not, and a path that
  fails validation is not either. The first refusal in scan order leaves the function.\<close>

definition symlinked ::
  "(int \<Rightarrow> bool) \<Rightarrow> pystr list \<Rightarrow> (pystr, pystr list) dict \<Rightarrow> (pystr \<Rightarrow> pystr \<Rightarrow> 'e + bool) \<Rightarrow>
     pystr \<Rightarrow> pystr \<Rightarrow> 'e + bool" where
  "symlinked alpha roots exempt probe name rel =
     (if name \<notin> set roots \<or> under_skip_prefix rel (dget exempt name []) then Inr False
      else
        (case validate_rel_path alpha rel of
           Inl _ \<Rightarrow> Inr False
         | Inr _ \<Rightarrow> probe name rel))"

fun filter_by :: "('k \<Rightarrow> 'e + bool) \<Rightarrow> ('k, 'v) dict \<Rightarrow> 'e + ('k, 'v) dict" where
  "filter_by gone [] = Inr []"
| "filter_by gone ((k, v) # d) =
     (case gone k of
        Inl e \<Rightarrow> Inl e
      | Inr b \<Rightarrow>
          (case filter_by gone d of
             Inl e \<Rightarrow> Inl e
           | Inr d' \<Rightarrow> Inr (if b then d' else (k, v) # d')))"

definition filter_symlinked_paths ::
  "(int \<Rightarrow> bool) \<Rightarrow> pystr list \<Rightarrow> (pystr, pystr list) dict \<Rightarrow> (pystr \<Rightarrow> pystr \<Rightarrow> 'e + bool) \<Rightarrow>
     manifest \<Rightarrow> 'e + manifest" where
  "filter_symlinked_paths alpha roots exempt probe m =
     (if roots = [] then Inr m
      else
        (case try_each (\<lambda>(name, sd).
             case filter_by (symlinked alpha roots exempt probe name) (sd_files sd) of
               Inl e \<Rightarrow> Inl e
             | Inr fs \<Rightarrow> Inr (name, sd\<lparr>sd_files := fs\<rparr>)) (sources_of m) of
           Inl e \<Rightarrow> Inl e
         | Inr srcs \<Rightarrow>
             (case filter_by (\<lambda>key. if 58 \<in> set key
                  then symlinked alpha roots exempt probe (fst (split_key key)) (snd (split_key key))
                  else Inr False) (m_tombstones m) of
                Inl e \<Rightarrow> Inl e
              | Inr ts \<Rightarrow> Inr (m\<lparr>m_sources := Some srcs, m_tombstones := ts\<rparr>))))"

section \<open>Disabled, retired and unselected sources\<close>

definition RETIRED_SOURCE_NAMES :: "pystr list" where
  "RETIRED_SOURCE_NAMES = [u ''grok'', u ''opencode'']"

definition filter_disabled_sources :: "pystr list \<Rightarrow> manifest \<Rightarrow> manifest" where
  "filter_disabled_sources disabled m =
     (let gone = (\<lambda>name. name \<in> set disabled \<or> name \<in> set RETIRED_SOURCE_NAMES); current = sources_of m
      in if current = [] \<or> \<not> list_ex gone (dkeys current) then m
         else m\<lparr>m_sources := Some (dict_filter (\<lambda>name _. \<not> gone name) current)\<rparr>)"

definition filter_unselected_sources :: "pystr list \<Rightarrow> manifest \<Rightarrow> manifest" where
  "filter_unselected_sources selected m =
     (let keep = (\<lambda>name. name \<in> set selected \<and> name \<notin> set RETIRED_SOURCE_NAMES); current = sources_of m
      in if current = [] \<or> list_all keep (dkeys current) then m
         else m\<lparr>m_sources := Some (dict_filter (\<lambda>name _. keep name) current)\<rparr>)"

section \<open>Nested checkouts\<close>

text \<open>Freezing writes into the local manifest; the result is that manifest and the frozen paths by
  source. \<open>keep\<close> is the optional gate on recovered entries. The loop of one source runs over the
  prior files.\<close>

type_synonym path_sets = "(pystr, pystr list) dict"

definition add_path :: "pystr \<Rightarrow> pystr \<Rightarrow> path_sets \<Rightarrow> path_sets" where
  "add_path name rel fr =
     (let old = dget fr name [] in AList.update name (if rel \<in> set old then old else old @ [rel]) fr)"

definition set_source_files :: "pystr \<Rightarrow> files \<Rightarrow> manifest \<Rightarrow> manifest" where
  "set_source_files name fs m =
     (case map_of (sources_of m) name of
        None \<Rightarrow> m
      | Some sd \<Rightarrow> m\<lparr>m_sources := Some (AList.update name (sd\<lparr>sd_files := fs\<rparr>) (sources_of m))\<rparr>)"

definition freeze_file ::
  "(file_info \<Rightarrow> bool) option \<Rightarrow> tombstones \<Rightarrow> pystr \<Rightarrow> pystr list \<Rightarrow> pystr \<times> file_info \<Rightarrow>
     files \<times> path_sets \<Rightarrow> files \<times> path_sets" where
  "freeze_file keep tombs name prefixes e st =
     (case e of (rel, info) \<Rightarrow> case st of (fs, frozen) \<Rightarrow>
        (if map_of fs rel = None \<and> under_skip_prefix rel prefixes \<and> \<not> is_tombstoned name rel tombs \<and>
            (case keep of None \<Rightarrow> True | Some k \<Rightarrow> k info)
         then (AList.update rel info fs, add_path name rel frozen) else (fs, frozen)))"

definition freeze_source ::
  "(file_info \<Rightarrow> bool) option \<Rightarrow> manifest \<Rightarrow> pystr \<times> pystr list \<Rightarrow> manifest \<times> path_sets \<Rightarrow> manifest \<times> path_sets" where
  "freeze_source keep prior e st =
     (case e of (name, roots) \<Rightarrow> case st of (local_m, frozen) \<Rightarrow>
        (case map_of (sources_of local_m) name of
           None \<Rightarrow> (local_m, frozen)
         | Some sd \<Rightarrow>
             (if roots = [] then (local_m, frozen)
              else
                (case fold (freeze_file keep (m_tombstones prior) name roots)
                        (files_in (sources_of prior) name) (sd_files sd, frozen) of
                   (fs, frozen') \<Rightarrow> (set_source_files name fs local_m, frozen')))))"

definition freeze_nested_checkout_entries ::
  "(file_info \<Rightarrow> bool) option \<Rightarrow> manifest \<Rightarrow> manifest \<Rightarrow> path_sets \<Rightarrow> manifest \<times> path_sets" where
  "freeze_nested_checkout_entries keep local_m prior nested_roots =
     fold (freeze_source keep prior) nested_roots (local_m, [])"

definition drop_unfrozen_source ::
  "path_sets \<Rightarrow> pystr \<times> pystr list \<Rightarrow> (pystr, source_data) dict \<Rightarrow> (pystr, source_data) dict" where
  "drop_unfrozen_source frozen e srcs =
     (case e of (name, roots) \<Rightarrow>
        (case map_of srcs name of
           None \<Rightarrow> srcs
         | Some sd \<Rightarrow>
             (let kept = dict_filter (\<lambda>rel _. rel \<in> set (dget frozen name []) \<or> \<not> under_skip_prefix rel roots)
                           (sd_files sd)
              in if length kept \<noteq> length (sd_files sd)
                 then AList.update name (sd\<lparr>sd_files := kept\<rparr>) srcs else srcs)))"

definition drop_unfrozen_checkout_files :: "manifest \<Rightarrow> path_sets \<Rightarrow> path_sets \<Rightarrow> manifest" where
  "drop_unfrozen_checkout_files prior nested_roots frozen =
     (let srcs = fold (drop_unfrozen_source frozen) nested_roots (sources_of prior)
      in if srcs = sources_of prior then prior else prior\<lparr>m_sources := Some srcs\<rparr>)"


section \<open>Held files\<close>

text \<open>\<open>held\<close> and the result map sources to path-to-reason dictionaries; \<open>candidates\<close> are
  enumeration entries that vanished before their stat. \<open>check\<close> is the outcome of
  \<open>_validate_vanished_candidate\<close> given the published directories.\<close>

type_synonym hold_map = "(pystr, (pystr, pystr) dict) dict"

definition sorted_set :: "pystr list \<Rightarrow> pystr list" where
  "sorted_set xs = sort (remdups xs)"

text \<open>Proper directory prefixes of the published paths.\<close>

definition parent_dirs :: "pystr \<Rightarrow> pystr list" where
  "parent_dirs path =
     (let parts = split_on 47 path in map (\<lambda>i. join_with [47] (take i parts)) [1..<length parts])"

definition published_dirs :: "files \<Rightarrow> pystr list" where
  "published_dirs fs = concat (map parent_dirs (dkeys fs))"

text \<open>The two outcomes of the probe of a vanished candidate: missing (\<open>ENOENT\<close> or \<open>ENOTDIR\<close>) or
  anything else, which refuses the snapshot.\<close>

datatype snapshot_error = SnapshotError

definition validate_vanished_candidate :: "bool \<Rightarrow> pystr \<Rightarrow> pystr list \<Rightarrow> snapshot_error + unit" where
  "validate_vanished_candidate missing rel directories =
     (if missing \<and> rel \<notin> set directories then Inr () else Inl SnapshotError)"

fun take_candidates ::
  "(pystr \<Rightarrow> bool) \<Rightarrow> (pystr \<Rightarrow> bool) \<Rightarrow> pystr list \<Rightarrow> pystr list \<Rightarrow> (pystr, pystr) dict \<Rightarrow>
     snapshot_error + (pystr, pystr) dict" where
  "take_candidates missing excluded directories [] reasons = Inr reasons"
| "take_candidates missing excluded directories (rel # rels) reasons =
     (if map_of reasons rel \<noteq> None \<or> excluded rel
      then take_candidates missing excluded directories rels reasons
      else
        (case validate_vanished_candidate (missing rel) rel directories of
           Inl e \<Rightarrow> Inl e
         | Inr _ \<Rightarrow> take_candidates missing excluded directories rels
                      (AList.update rel (u ''vanished'') reasons)))"

definition hold_file ::
  "(pystr \<Rightarrow> bool) \<Rightarrow> files \<Rightarrow> (pystr, pystr) dict \<Rightarrow> pystr \<Rightarrow> files \<times> (pystr, pystr) dict \<Rightarrow>
     files \<times> (pystr, pystr) dict" where
  "hold_file pruned prior_files reasons rel st =
     (case st of (fs, surviving) \<Rightarrow>
        (if map_of fs rel \<noteq> None \<or> pruned rel then (fs, surviving)
         else
           (let fs' = (case map_of prior_files rel of Some info \<Rightarrow> AList.update rel info fs | None \<Rightarrow> fs)
            in (fs', AList.update rel (dget reasons rel []) surviving))))"

definition hold_source ::
  "gate \<Rightarrow> (pystr \<Rightarrow> pystr \<Rightarrow> bool) \<Rightarrow> (pystr, source_data) dict \<Rightarrow> tombstones \<Rightarrow> hold_map \<Rightarrow> path_sets \<Rightarrow>
     path_sets \<Rightarrow> pystr \<Rightarrow> manifest \<times> hold_map \<Rightarrow> snapshot_error + manifest \<times> hold_map" where
  "hold_source g missing prior_sources tombs held candidates frozen name st =
     (case st of (local_m, surviving) \<Rightarrow>
        (case map_of (sources_of local_m) name of
           None \<Rightarrow> Inr (local_m, surviving)
         | Some sd \<Rightarrow>
             (let prior_files = files_in prior_sources name;
                  excluded = is_excluded (dget (g_exclude g) name []) (dget (g_skip g) name [])
                               (dget (g_include g) name [])
              in case take_candidates (missing name) excluded (published_dirs prior_files)
                        (sorted_set (dget candidates name [])) (dget held name []) of
                   Inl e \<Rightarrow> Inl e
                 | Inr reasons \<Rightarrow>
                     (case fold (hold_file
                              (\<lambda>rel. rel \<in> set (dget frozen name []) \<or> excluded rel \<or> is_tombstoned name rel tombs)
                              prior_files reasons)
                            (sorted_set (dkeys reasons)) (sd_files sd, []) of
                        (fs, kept) \<Rightarrow>
                          Inr (set_source_files name fs local_m,
                               if kept = [] then surviving else AList.update name kept surviving)))))"

fun hold_sources ::
  "gate \<Rightarrow> (pystr \<Rightarrow> pystr \<Rightarrow> bool) \<Rightarrow> (pystr, source_data) dict \<Rightarrow> tombstones \<Rightarrow> hold_map \<Rightarrow> path_sets \<Rightarrow>
     path_sets \<Rightarrow> pystr list \<Rightarrow> manifest \<times> hold_map \<Rightarrow> snapshot_error + manifest \<times> hold_map" where
  "hold_sources g missing prior_sources tombs held candidates frozen [] st = Inr st"
| "hold_sources g missing prior_sources tombs held candidates frozen (name # names) st =
     (case hold_source g missing prior_sources tombs held candidates frozen name st of
        Inl e \<Rightarrow> Inl e
      | Inr st' \<Rightarrow> hold_sources g missing prior_sources tombs held candidates frozen names st')"

definition inject_held_entries ::
  "gate \<Rightarrow> (pystr \<Rightarrow> pystr \<Rightarrow> bool) \<Rightarrow> manifest \<Rightarrow> manifest option \<Rightarrow> hold_map \<Rightarrow> path_sets \<Rightarrow> path_sets \<Rightarrow>
     snapshot_error + manifest \<times> hold_map" where
  "inject_held_entries g missing local_m prior held candidates frozen =
     hold_sources g missing (case prior of None \<Rightarrow> [] | Some p \<Rightarrow> sources_of p)
       (case prior of None \<Rightarrow> [] | Some p \<Rightarrow> m_tombstones p) held candidates frozen
       (sorted_set (dkeys held @ dkeys candidates)) (local_m, [])"

section \<open>Merging conflict copies of one manifest\<close>

text \<open>Python's \<open>a > b\<close> on two decoded values: strings and integers compare, a string and a number
  raise \<open>TypeError\<close>; other operand types are reported as that error as well.\<close>

datatype type_error = TypeError

fun json_int :: "json \<Rightarrow> int option" where
  "json_int (JInt n) = Some n"
| "json_int (JBool b) = Some (if b then 1 else 0)"
| "json_int _ = None"

definition json_gt :: "json \<Rightarrow> json \<Rightarrow> type_error + bool" where
  "json_gt a b =
     (case (as_str a, as_str b) of
        (Some x, Some y) \<Rightarrow> Inr (y < x)
      | _ \<Rightarrow> (case (json_int a, json_int b) of (Some x, Some y) \<Rightarrow> Inr (y < x) | _ \<Rightarrow> Inl TypeError))"

definition merge_source :: "pystr \<times> source_data \<Rightarrow> (pystr, source_data) dict \<Rightarrow> (pystr, source_data) dict" where
  "merge_source e acc =
     (case e of (name, sd) \<Rightarrow>
        (let old = (case map_of acc name of Some o' \<Rightarrow> o' | None \<Rightarrow> sd\<lparr>sd_files := []\<rparr>)
         in AList.update name (old\<lparr>sd_files := dict_update (sd_files old) (sd_files sd)\<rparr>) acc))"

fun merge_tombs :: "tombstones \<Rightarrow> tombstones \<Rightarrow> type_error + tombstones" where
  "merge_tombs [] acc = Inr acc"
| "merge_tombs ((path, info) # ts) acc =
     (case map_of acc path of
        None \<Rightarrow> merge_tombs ts (AList.update path info acc)
      | Some old \<Rightarrow>
          (case json_gt (dget info (u ''deleted_at'') (JStr [])) (dget old (u ''deleted_at'') (JStr [])) of
             Inl e \<Rightarrow> Inl e
           | Inr newer \<Rightarrow> merge_tombs ts (if newer then AList.update path info acc else acc)))"

fun merge_tombs_all :: "manifest list \<Rightarrow> tombstones \<Rightarrow> type_error + tombstones" where
  "merge_tombs_all [] acc = Inr acc"
| "merge_tombs_all (m # ms) acc =
     (case merge_tombs (m_tombstones m) acc of Inl e \<Rightarrow> Inl e | Inr acc' \<Rightarrow> merge_tombs_all ms acc')"

text \<open>\<open>chash\<close> is \<open>_manifest_content_hash\<close>: the SHA-256 of the canonical JSON. The caller passes at
  least one manifest.\<close>

definition merge_key :: "(manifest \<Rightarrow> pystr) \<Rightarrow> manifest \<Rightarrow> pystr \<times> pystr" where
  "merge_key chash m = (m_timestamp m, chash m)"

definition merge_manifests :: "(manifest \<Rightarrow> pystr) \<Rightarrow> manifest list \<Rightarrow> type_error + manifest" where
  "merge_manifests chash ms =
     (let sorted_ms = sort_key (merge_key chash) ms;
          srcs = fold merge_source (concat (map sources_of sorted_ms)) []
      in case merge_tombs_all sorted_ms [] of
           Inl e \<Rightarrow> Inl e
         | Inr ts \<Rightarrow> Inr ((last sorted_ms)\<lparr>m_sources := Some srcs, m_tombstones := ts\<rparr>))"


section \<open>The files a manifest lists, through each filter\<close>

definition files_at :: "manifest \<Rightarrow> pystr \<Rightarrow> pystr \<Rightarrow> file_info option" where
  "files_at m name rel = map_of (files_in (sources_of m) name) rel"

named_theorems filter_facts

lemma sources_of_update [simp]: "sources_of (m\<lparr>m_sources := Some srcs\<rparr>) = srcs"
  "sources_of (m\<lparr>m_tombstones := ts\<rparr>) = sources_of m"
  "sources_of (m\<lparr>m_sources := Some srcs, m_tombstones := ts\<rparr>) = srcs"
  by (simp_all add: sources_of_def)

lemma wf_sources_filter: "wf_sources srcs \<Longrightarrow> wf_sources (dict_filter P srcs)"
  by (auto simp: wf_sources_def distinct_keys_filter)

lemma map_of_map_sources: "map_of (map_sources f srcs) name = map_option (f name) (map_of srcs name)"
  by (induction srcs) (auto simp: map_sources_def)

lemma wf_source_files: "wf_sources srcs \<Longrightarrow> map_of srcs name = Some sd \<Longrightarrow> distinct_keys (sd_files sd)"
  by (auto simp: wf_sources_def dest: map_of_SomeD)

lemma wf_sources_map:
  assumes "wf_sources srcs" and "\<And>name sd. distinct_keys (sd_files sd) \<Longrightarrow> distinct_keys (sd_files (f name sd))"
  shows "wf_sources (map_sources f srcs)"
proof -
  have "map fst (map_sources f srcs) = map fst srcs" by (induction srcs) (auto simp: map_sources_def)
  with assms(1) have "distinct_keys (map_sources f srcs)" by (simp add: wf_sources_def distinct_keys_def)
  moreover have "\<forall>(name, sd) \<in> set (map_sources f srcs). distinct_keys (sd_files sd)"
    using assms by (auto simp: wf_sources_def map_sources_def)
  ultimately show ?thesis by (simp add: wf_sources_def)
qed

lemma wf_sources_update:
  assumes "wf_sources srcs" "distinct_keys (sd_files sd)"
  shows "wf_sources (AList.update name sd srcs)"
proof -
  have "set (AList.update name sd srcs) \<subseteq> insert (name, sd) (set srcs)" by (induction srcs) auto
  with assms show ?thesis by (fastforce simp: wf_sources_def distinct_keys_update)
qed

text \<open>Filtering by source name.\<close>

lemma files_at_source_filter:
  assumes "wf_manifest m"
  shows "files_at (m\<lparr>m_sources := Some (dict_filter (\<lambda>name _. keep name) (sources_of m))\<rparr>) name rel =
    (if keep name then files_at m name rel else None)"
  using assms
  by (auto simp: files_at_def files_in_def wf_manifest_def wf_sources_def map_of_dict_filter split: option.split)

lemma filter_unselected_files [filter_facts]:
  assumes "wf_manifest m"
  shows "files_at (filter_unselected_sources selected m) name rel =
    (if name \<in> set selected \<and> name \<notin> set RETIRED_SOURCE_NAMES then files_at m name rel else None)"
proof (cases "sources_of m = [] \<or>
    list_all (\<lambda>name. name \<in> set selected \<and> name \<notin> set RETIRED_SOURCE_NAMES) (dkeys (sources_of m))")
  case True
  then have "filter_unselected_sources selected m = m" by (auto simp: filter_unselected_sources_def Let_def)
  moreover have "files_at m name rel = None" if "\<not> (name \<in> set selected \<and> name \<notin> set RETIRED_SOURCE_NAMES)"
  proof -
    have "map_of (sources_of m) name = None"
      using True that by (cases "map_of (sources_of m) name") (auto simp: list_all_iff)
    then show ?thesis by (simp add: files_at_def files_in_def)
  qed
  ultimately show ?thesis by auto
next
  case False
  then have "filter_unselected_sources selected m =
      m\<lparr>m_sources := Some (dict_filter (\<lambda>name _. name \<in> set selected \<and> name \<notin> set RETIRED_SOURCE_NAMES) (sources_of m))\<rparr>"
    by (simp add: filter_unselected_sources_def Let_def)
  then show ?thesis by (simp add: files_at_source_filter [OF assms])
qed

lemma filter_disabled_files [filter_facts]:
  assumes "wf_manifest m"
  shows "files_at (filter_disabled_sources disabled m) name rel =
    (if name \<in> set disabled \<or> name \<in> set RETIRED_SOURCE_NAMES then None else files_at m name rel)"
proof (cases "sources_of m = [] \<or>
    \<not> list_ex (\<lambda>name. name \<in> set disabled \<or> name \<in> set RETIRED_SOURCE_NAMES) (dkeys (sources_of m))")
  case True
  then have "filter_disabled_sources disabled m = m" by (auto simp: filter_disabled_sources_def Let_def)
  moreover have "files_at m name rel = None" if "name \<in> set disabled \<or> name \<in> set RETIRED_SOURCE_NAMES"
  proof -
    have "map_of (sources_of m) name = None"
      using True that by (cases "map_of (sources_of m) name") (auto simp: list_ex_iff)
    then show ?thesis by (simp add: files_at_def files_in_def)
  qed
  ultimately show ?thesis by auto
next
  case False
  then have "filter_disabled_sources disabled m =
      m\<lparr>m_sources := Some (dict_filter (\<lambda>name _. \<not> (name \<in> set disabled \<or> name \<in> set RETIRED_SOURCE_NAMES)) (sources_of m))\<rparr>"
    by (simp add: filter_disabled_sources_def Let_def)
  then show ?thesis by (simp only: files_at_source_filter [OF assms]) auto
qed

lemma filter_source_tombstones [simp]:
  "m_tombstones (filter_unselected_sources selected m) = m_tombstones m"
  "m_tombstones (filter_disabled_sources disabled m) = m_tombstones m"
  by (simp_all add: filter_unselected_sources_def filter_disabled_sources_def Let_def)

lemma filter_source_wf [filter_facts]:
  "wf_manifest m \<Longrightarrow> wf_manifest (filter_unselected_sources selected m)"
  "wf_manifest m \<Longrightarrow> wf_manifest (filter_disabled_sources disabled m)"
  by (auto simp: filter_unselected_sources_def filter_disabled_sources_def Let_def wf_manifest_def wf_sources_filter)

lemma filter_source_keys:
  "set (dkeys (sources_of (filter_unselected_sources selected m))) \<subseteq> set (dkeys (sources_of m))"
  by (auto simp: filter_unselected_sources_def Let_def dkeys_def)

text \<open>The consumer gate.\<close>

lemma gate_empty:
  "g_exclude g = [] \<Longrightarrow> g_skip g = [] \<Longrightarrow> g_include g = [] \<Longrightarrow> gate_excluded g name rel \<longleftrightarrow> conflict_shaped rel"
  by (simp add: gate_excluded_def dget_def under_skip_prefix_def)

lemma files_at_listed:
  "files_at m name rel = Some i \<Longrightarrow> \<exists>sd. (name, sd) \<in> set (sources_of m) \<and> rel \<in> set (dkeys (sd_files sd))"
  by (auto simp: files_at_def files_in_def split: option.splits dest: map_of_SomeD)

lemma filter_excluded_files [filter_facts]:
  assumes "wf_manifest m"
  shows "files_at (filter_excluded_paths g m) name rel =
    (if gate_excluded g name rel then None else files_at m name rel)"
proof (cases "g_exclude g = [] \<and> g_skip g = [] \<and> g_include g = [] \<and> \<not> has_conflict_shape m")
  case True
  then have "filter_excluded_paths g m = m" by (simp add: filter_excluded_paths_def)
  moreover have "files_at m name rel = None" if "gate_excluded g name rel"
  proof (cases "files_at m name rel")
    case (Some i)
    from files_at_listed [OF Some] gate_empty [of g name rel] True that show ?thesis
      by (fastforce simp: has_conflict_shape_def list_ex_iff)
  qed
  ultimately show ?thesis by auto
next
  case False
  then have f: "filter_excluded_paths g m =
      m\<lparr>m_sources := Some (map_sources (\<lambda>name. filter_files (\<lambda>rel. \<not> gate_excluded g name rel)) (sources_of m)),
        m_tombstones := dict_filter (\<lambda>key _. case split_key key of (name, rel) \<Rightarrow> \<not> gate_excluded g name rel) (m_tombstones m)\<rparr>"
    by (auto simp: filter_excluded_paths_def)
  show ?thesis
  proof (cases "map_of (sources_of m) name")
    case None
    then show ?thesis by (simp add: f files_at_def files_in_def map_of_map_sources)
  next
    case (Some sd)
    with assms have "distinct_keys (sd_files sd)" by (auto simp: wf_manifest_def dest: wf_source_files)
    with Some show ?thesis
      by (auto simp: f files_at_def files_in_def map_of_map_sources filter_files_def map_of_dict_filter split: option.split)
  qed
qed

lemma filter_excluded_tombstones [filter_facts]:
  assumes "wf_manifest m"
  shows "map_of (m_tombstones (filter_excluded_paths g m)) key =
    (if gate_excluded g (fst (split_key key)) (snd (split_key key)) then None else map_of (m_tombstones m) key)"
proof (cases "g_exclude g = [] \<and> g_skip g = [] \<and> g_include g = [] \<and> \<not> has_conflict_shape m")
  case True
  then have "filter_excluded_paths g m = m" by (simp add: filter_excluded_paths_def)
  moreover have "map_of (m_tombstones m) key = None"
    if "gate_excluded g (fst (split_key key)) (snd (split_key key))"
  proof (rule ccontr)
    assume "map_of (m_tombstones m) key \<noteq> None"
    then have "key \<in> set (dkeys (m_tombstones m))" by auto
    moreover have "conflict_shaped (snd (split_key key))" using gate_empty True that by blast
    ultimately show False
      using True by (auto simp: has_conflict_shape_def list_ex_iff split_key_def split: if_splits)
  qed
  ultimately show ?thesis by auto
next
  case False
  then have "m_tombstones (filter_excluded_paths g m) =
      dict_filter (\<lambda>key _. case split_key key of (name, rel) \<Rightarrow> \<not> gate_excluded g name rel) (m_tombstones m)"
    by (auto simp: filter_excluded_paths_def)
  with assms show ?thesis
    by (simp add: map_of_dict_filter wf_manifest_def split: option.split prod.split)
qed

lemma filter_excluded_wf [filter_facts]:
  assumes "wf_manifest m"
  shows "wf_manifest (filter_excluded_paths g m)"
proof -
  have "wf_sources (map_sources (\<lambda>name. filter_files (\<lambda>rel. \<not> gate_excluded g name rel)) (sources_of m))"
    using assms by (intro wf_sources_map) (auto simp: wf_manifest_def filter_files_def distinct_keys_filter)
  with assms show ?thesis by (auto simp: filter_excluded_paths_def wf_manifest_def distinct_keys_filter)
qed

lemma dkeys_map_sources: "dkeys (map_sources f srcs) = dkeys srcs"
  by (induction srcs) (auto simp: map_sources_def dkeys_def)

lemma filter_excluded_keys [simp]: "dkeys (sources_of (filter_excluded_paths g m)) = dkeys (sources_of m)"
  by (simp add: filter_excluded_paths_def dkeys_map_sources)


subsection \<open>Freezing\<close>

definition freezes ::
  "(file_info \<Rightarrow> bool) option \<Rightarrow> tombstones \<Rightarrow> pystr \<Rightarrow> pystr list \<Rightarrow> pystr \<Rightarrow> file_info \<Rightarrow> bool" where
  "freezes keep tombs name roots rel info \<longleftrightarrow>
     under_skip_prefix rel roots \<and> \<not> is_tombstoned name rel tombs \<and>
     (case keep of None \<Rightarrow> True | Some k \<Rightarrow> k info)"

lemma dget_update [simp]: "dget (AList.update k v d) k' w = (if k' = k then v else dget d k' w)"
  by (simp add: dget_def)

lemma dget_add_path:
  "set (dget (add_path name rel fr) name' []) =
     (if name' = name then insert rel (set (dget fr name' [])) else set (dget fr name' []))"
  by (auto simp: add_path_def Let_def)

lemma freeze_fold_all:
  assumes "distinct_keys ps"
    and "fold (freeze_file keep tombs name roots) ps (fs, frozen) = (fs', frozen')"
  shows "(\<forall>rel. map_of fs' rel =
      (case map_of fs rel of
         Some i \<Rightarrow> Some i
       | None \<Rightarrow> (case map_of ps rel of
           Some info \<Rightarrow> if freezes keep tombs name roots rel info then Some info else None
         | None \<Rightarrow> None))) \<and>
    (\<forall>name'. set (dget frozen' name' []) = set (dget frozen name' []) \<union>
      (if name' = name
       then {rel. map_of fs rel = None \<and> (\<exists>info. map_of ps rel = Some info \<and> freezes keep tombs name roots rel info)}
       else {})) \<and>
    (distinct_keys fs \<longrightarrow> distinct_keys fs')"
  using assms
proof (induction ps arbitrary: fs frozen)
  case Nil
  then show ?case by (auto split: option.split)
next
  case (Cons e ps)
  obtain q info where e: "e = (q, info)" by (cases e)
  define c where "c \<longleftrightarrow> map_of fs q = None \<and> freezes keep tombs name roots q info"
  define st where "st = (if c then (AList.update q info fs, add_path name q frozen) else (fs, frozen))"
  have step: "freeze_file keep tombs name roots e (fs, frozen) = st"
    by (auto simp: freeze_file_def e st_def c_def freezes_def)
  have dk: "distinct_keys ps" "map_of ps q = None" using Cons.prems(1) by (auto simp: e)
  have f: "fold (freeze_file keep tombs name roots) ps (fst st, snd st) = (fs', frozen')"
    using Cons.prems(2) by (simp add: step)
  note IH = Cons.IH [OF dk(1) f]
  have "map_of fs' rel = (case map_of fs rel of Some i \<Rightarrow> Some i
       | None \<Rightarrow> (case map_of (e # ps) rel of
           Some info \<Rightarrow> if freezes keep tombs name roots rel info then Some info else None
         | None \<Rightarrow> None))" for rel
    using IH dk(2) by (auto simp: e st_def c_def split: option.splits if_splits)
  moreover have "set (dget frozen' name' []) = set (dget frozen name' []) \<union>
      (if name' = name
       then {rel. map_of fs rel = None \<and> (\<exists>info. map_of (e # ps) rel = Some info \<and> freezes keep tombs name roots rel info)}
       else {})" for name'
    using IH dk(2) by (auto simp: e st_def c_def dget_add_path)
  moreover have "distinct_keys fs \<longrightarrow> distinct_keys fs'"
    using IH by (auto simp: st_def distinct_keys_update)
  ultimately show ?case by blast
qed

lemmas freeze_fold = freeze_fold_all [THEN conjunct1, rule_format]
  freeze_fold_all [THEN conjunct2, THEN conjunct1, rule_format]
  freeze_fold_all [THEN conjunct2, THEN conjunct2, rule_format]

lemma set_source_files_map_of:
  "map_of (sources_of (set_source_files name fs m)) n =
     (if n = name then map_option (\<lambda>sd. sd\<lparr>sd_files := fs\<rparr>) (map_of (sources_of m) n)
      else map_of (sources_of m) n)"
  by (auto simp: set_source_files_def split: option.split)

lemma set_source_files_tombstones [simp]: "m_tombstones (set_source_files name fs m) = m_tombstones m"
  by (simp add: set_source_files_def split: option.split)

lemma set_source_files_wf:
  "wf_manifest m \<Longrightarrow> distinct_keys fs \<Longrightarrow> wf_manifest (set_source_files name fs m)"
  by (auto simp: set_source_files_def wf_manifest_def wf_sources_update split: option.split)

lemma files_in_distinct: "wf_manifest m \<Longrightarrow> distinct_keys (files_in (sources_of m) name)"
  by (auto simp: files_in_def wf_manifest_def dest: wf_source_files split: option.split)

text \<open>One source: either nothing happens, or its files are the result of the inner loop.\<close>

lemma freeze_source_cases:
  assumes "freeze_source keep prior (name, roots) (l, fr) = (l', fr')"
  obtains "map_of (sources_of l) name = None \<or> roots = []" "l' = l" "fr' = fr"
  | sd fs where "map_of (sources_of l) name = Some sd" "roots \<noteq> []"
      "fold (freeze_file keep (m_tombstones prior) name roots) (files_in (sources_of prior) name) (sd_files sd, fr) = (fs, fr')"
      "l' = set_source_files name fs l"
proof (cases "map_of (sources_of l) name = None \<or> roots = []")
  case True
  with assms show ?thesis by (intro that(1)) (auto simp: freeze_source_def split: option.splits if_splits)
next
  case False
  then obtain sd where sd: "map_of (sources_of l) name = Some sd" by auto
  obtain fs fr2 where "fold (freeze_file keep (m_tombstones prior) name roots)
      (files_in (sources_of prior) name) (sd_files sd, fr) = (fs, fr2)" by fastforce
  with assms False sd show ?thesis by (intro that(2) [of sd fs]) (auto simp: freeze_source_def)
qed

lemma freeze_source_wf:
  assumes "freeze_source keep prior (name, roots) (l, fr) = (l', fr')" "wf_manifest prior" "wf_manifest l"
  shows "wf_manifest l'"
  using assms(1)
proof (cases rule: freeze_source_cases)
  case 1
  with assms(3) show ?thesis by simp
next
  case (2 sd fs)
  have "distinct_keys (sd_files sd)" using assms(3) 2(1) by (auto simp: wf_manifest_def dest: wf_source_files)
  from freeze_fold(3) [OF files_in_distinct [OF assms(2)] 2(3) this] show ?thesis
    unfolding 2(4) by (rule set_source_files_wf [OF assms(3)])
qed

lemma freeze_source_other:
  assumes "freeze_source keep prior (name, roots) (l, fr) = (l', fr')" "n \<noteq> name"
  shows "map_of (sources_of l') n = map_of (sources_of l) n \<and> dget fr' n [] = dget fr n []"
  using assms(1)
proof (cases rule: freeze_source_cases)
  case 1
  then show ?thesis by simp
next
  case (2 sd fs)
  have "dget (snd (fold (freeze_file keep (m_tombstones prior) name roots) ps st)) n [] = dget (snd st) n []"
    for ps st
    by (induction ps arbitrary: st)
      (auto simp: freeze_file_def add_path_def Let_def assms(2) split: prod.splits)
  from this [of "files_in (sources_of prior) name" "(sd_files sd, fr)"] 2 assms(2) show ?thesis
    by (simp add: set_source_files_map_of)
qed

lemma freezes_Nil: "\<not> freezes keep tombs name [] rel info"
  by (simp add: freezes_def under_skip_prefix_def)

text \<open>What freezing does to one source whose frozen set was empty.\<close>

definition frozen_result ::
  "(file_info \<Rightarrow> bool) option \<Rightarrow> manifest \<Rightarrow> pystr \<Rightarrow> pystr list \<Rightarrow> manifest \<Rightarrow> manifest \<Rightarrow> path_sets \<Rightarrow> pystr \<Rightarrow> bool" where
  "frozen_result keep prior name roots l l' fr' rel \<longleftrightarrow>
     (rel \<in> set (dget fr' name []) \<longleftrightarrow>
        map_of (sources_of l) name \<noteq> None \<and> files_at l name rel = None \<and>
        (\<exists>info. files_at prior name rel = Some info \<and> freezes keep (m_tombstones prior) name roots rel info)) \<and>
     files_at l' name rel =
       (case files_at l name rel of
          Some i \<Rightarrow> Some i
        | None \<Rightarrow> if rel \<in> set (dget fr' name []) then files_at prior name rel else None)"

lemma freeze_source_same:
  assumes "freeze_source keep prior (name, roots) (l, fr) = (l', fr')" "wf_manifest prior" "wf_manifest l"
    and "dget fr name [] = []"
  shows "frozen_result keep prior name roots l l' fr' rel"
  using assms(1)
proof (cases rule: freeze_source_cases)
  case 1
  with assms(4) freezes_Nil show ?thesis by (auto simp: frozen_result_def split: option.split)
next
  case (2 sd fs)
  note ff = freeze_fold [OF files_in_distinct [OF assms(2)] 2(3)]
  have at: "files_at l name rel = map_of (sd_files sd) rel" "files_at l' name rel = map_of fs rel"
    using 2(1) by (simp_all add: files_at_def files_in_def 2(4) set_source_files_map_of)
  show ?thesis
    unfolding frozen_result_def at
    using ff(1) [of rel] ff(2) [of name] 2(1) assms(4) by (auto simp: files_at_def split: option.split)
qed

lemma freeze_fold_other:
  "name \<notin> fst ` set roots \<Longrightarrow> fold (freeze_source keep prior) roots (l, fr) = (l', fr') \<Longrightarrow>
     map_of (sources_of l') name = map_of (sources_of l) name \<and> dget fr' name [] = dget fr name []"
proof (induction roots arbitrary: l fr)
  case Nil
  then show ?case by simp
next
  case (Cons e roots)
  obtain n r where e: "e = (n, r)" by (cases e)
  obtain l1 fr1 where s: "freeze_source keep prior (n, r) (l, fr) = (l1, fr1)" by fastforce
  from Cons.prems have "name \<noteq> n" "name \<notin> fst ` set roots"
    and f: "fold (freeze_source keep prior) roots (l1, fr1) = (l', fr')" by (auto simp: e s)
  with Cons.IH [OF _ f] freeze_source_other [OF s] show ?case by simp
qed

lemma freeze_fold_wf:
  "fold (freeze_source keep prior) roots (l, fr) = (l', fr') \<Longrightarrow> wf_manifest prior \<Longrightarrow> wf_manifest l \<Longrightarrow>
     wf_manifest l'"
proof (induction roots arbitrary: l fr)
  case Nil
  then show ?case by simp
next
  case (Cons e roots)
  obtain n r where e: "e = (n, r)" by (cases e)
  obtain l1 fr1 where s: "freeze_source keep prior (n, r) (l, fr) = (l1, fr1)" by fastforce
  from Cons.IH [OF _ Cons.prems(2) freeze_source_wf [OF s Cons.prems(2,3)]] Cons.prems(1)
  show ?case by (simp add: e s)
qed

text \<open>All sources: which paths are frozen, and what the local manifest lists afterwards.\<close>

lemma freeze_fold_result:
  "fold (freeze_source keep prior) roots (l, fr) = (l', fr') \<Longrightarrow> wf_manifest prior \<Longrightarrow> wf_manifest l \<Longrightarrow>
     distinct_keys roots \<Longrightarrow> dget fr name [] = [] \<Longrightarrow>
     frozen_result keep prior name (dget roots name []) l l' fr' rel"
proof (induction roots arbitrary: l fr)
  case Nil
  then show ?case using freezes_Nil
    by (auto simp: frozen_result_def dget_def split: option.split)
next
  case (Cons e roots)
  obtain n r where e: "e = (n, r)" by (cases e)
  obtain l1 fr1 where s: "freeze_source keep prior (n, r) (l, fr) = (l1, fr1)" by fastforce
  have f: "fold (freeze_source keep prior) roots (l1, fr1) = (l', fr')" using Cons.prems(1) by (simp add: e s)
  have dk: "distinct_keys roots" "n \<notin> fst ` set roots"
    using Cons.prems(4) by (auto simp: e map_of_eq_None_iff)
  show ?case
  proof (cases "n = name")
    case True
    have "map_of (sources_of l') name = map_of (sources_of l1) name \<and> dget fr' name [] = dget fr1 name []"
      by (rule freeze_fold_other [OF _ f]) (use dk(2) True in auto)
    then have o: "files_at l' name rel = files_at l1 name rel" "dget fr' name [] = dget fr1 name []"
      by (simp_all add: files_at_def files_in_def)
    have r: "dget (e # roots) name [] = r" using True by (simp add: e dget_def)
    show ?thesis
      using freeze_source_same [OF s [unfolded True] Cons.prems(2,3,5), of rel]
      unfolding frozen_result_def o r .
  next
    case False
    have o: "map_of (sources_of l1) name = map_of (sources_of l) name" "dget fr1 name [] = dget fr name []"
      using freeze_source_other [OF s] False by auto
    have "dget (e # roots) name [] = dget roots name []" using False by (simp add: e dget_def)
    moreover have "files_at l1 name rel = files_at l name rel" using o(1) by (simp add: files_at_def files_in_def)
    ultimately show ?thesis
      using Cons.IH [OF f Cons.prems(2) freeze_source_wf [OF s Cons.prems(2,3)] dk(1)] o Cons.prems(5)
      by (simp add: frozen_result_def)
  qed
qed

lemma freeze_nested:
  assumes "freeze_nested_checkout_entries keep l prior roots = (l', fr)"
    and "wf_manifest l" "wf_manifest prior" "distinct_keys roots"
  shows "frozen_result keep prior name (dget roots name []) l l' fr rel" and "wf_manifest l'"
  using assms freeze_fold_result [of keep prior roots l "[]" l' fr name rel]
    freeze_fold_wf [of keep prior roots l "[]" l' fr]
  by (simp_all add: freeze_nested_checkout_entries_def dget_def)


subsection \<open>Dropping what was not frozen\<close>

lemma filter_length_id: "length (filter P xs) = length xs \<longleftrightarrow> filter P xs = xs"
proof
  assume l: "length (filter P xs) = length xs"
  have "\<forall>x \<in> set xs. P x"
  proof (rule ccontr)
    assume "\<not> (\<forall>x \<in> set xs. P x)"
    then obtain x where "x \<in> set xs" "\<not> P x" by blast
    from length_filter_less [of x xs P, OF this] l show False by simp
  qed
  then show "filter P xs = xs" by (simp add: filter_id_conv)
qed simp

lemma drop_unfrozen_source_map_of:
  "map_of (drop_unfrozen_source frozen (n, roots) srcs) name =
     (if name = n
      then map_option (\<lambda>sd. sd\<lparr>sd_files := dict_filter
             (\<lambda>rel _. rel \<in> set (dget frozen n []) \<or> \<not> under_skip_prefix rel roots) (sd_files sd)\<rparr>) (map_of srcs name)
      else map_of srcs name)"
proof (cases "map_of srcs n")
  case None
  then show ?thesis by (simp add: drop_unfrozen_source_def)
next
  case (Some sd)
  define kept where "kept = dict_filter (\<lambda>rel _. rel \<in> set (dget frozen n []) \<or> \<not> under_skip_prefix rel roots) (sd_files sd)"
  have "length kept = length (sd_files sd) \<Longrightarrow> kept = sd_files sd"
    unfolding kept_def dict_filter_def filter_length_id .
  with Some show ?thesis
    by (auto simp: drop_unfrozen_source_def Let_def kept_def [symmetric])
qed

lemma drop_unfrozen_source_wf:
  assumes "wf_sources srcs"
  shows "wf_sources (drop_unfrozen_source frozen e srcs)"
proof (cases e)
  case (Pair n roots)
  show ?thesis
  proof (cases "map_of srcs n")
    case None
    with Pair assms show ?thesis by (simp add: drop_unfrozen_source_def)
  next
    case (Some sd)
    from wf_source_files [OF assms Some] assms show ?thesis
      by (auto simp: drop_unfrozen_source_def Pair Some Let_def intro!: wf_sources_update distinct_keys_filter)
  qed
qed

lemma drop_unfrozen_fold:
  assumes "distinct_keys roots"
  shows "map_of (fold (drop_unfrozen_source frozen) roots srcs) name =
    (case map_of roots name of
       None \<Rightarrow> map_of srcs name
     | Some r \<Rightarrow> map_option (\<lambda>sd. sd\<lparr>sd_files := dict_filter
           (\<lambda>rel _. rel \<in> set (dget frozen name []) \<or> \<not> under_skip_prefix rel r) (sd_files sd)\<rparr>) (map_of srcs name))"
  using assms
proof (induction roots arbitrary: srcs)
  case Nil
  then show ?case by simp
next
  case (Cons e roots)
  obtain n r where e: "e = (n, r)" by (cases e)
  from Cons.prems have "distinct_keys roots" "map_of roots n = None" by (auto simp: e)
  with Cons.IH [of "drop_unfrozen_source frozen (n, r) srcs"] show ?case
    by (auto simp: e drop_unfrozen_source_map_of split: option.split)
qed

lemma drop_unfrozen_sources:
  "sources_of (drop_unfrozen_checkout_files prior roots frozen) =
     fold (drop_unfrozen_source frozen) roots (sources_of prior)"
  by (simp add: drop_unfrozen_checkout_files_def Let_def)

lemma drop_unfrozen_tombstones [simp]:
  "m_tombstones (drop_unfrozen_checkout_files prior roots frozen) = m_tombstones prior"
  by (simp add: drop_unfrozen_checkout_files_def Let_def)

lemma drop_unfrozen_wf [filter_facts]:
  assumes "wf_manifest prior"
  shows "wf_manifest (drop_unfrozen_checkout_files prior roots frozen)"
proof -
  have "wf_sources srcs \<Longrightarrow> wf_sources (fold (drop_unfrozen_source frozen) rs srcs)" for rs srcs
    by (induction rs arbitrary: srcs) (auto intro: drop_unfrozen_source_wf)
  with assms show ?thesis by (simp add: wf_manifest_def drop_unfrozen_sources)
qed

lemma drop_unfrozen_files [filter_facts]:
  assumes "wf_manifest prior" "distinct_keys roots"
  shows "files_at (drop_unfrozen_checkout_files prior roots frozen) name rel =
    (if under_skip_prefix rel (dget roots name []) \<and> rel \<notin> set (dget frozen name []) then None
     else files_at prior name rel)"
proof (cases "map_of roots name")
  case None
  then show ?thesis
    by (simp add: files_at_def files_in_def drop_unfrozen_sources drop_unfrozen_fold [OF assms(2)]
        dget_def under_skip_prefix_def)
next
  case (Some r)
  show ?thesis
  proof (cases "map_of (sources_of prior) name")
    case None
    then show ?thesis
      by (simp add: files_at_def files_in_def drop_unfrozen_sources drop_unfrozen_fold [OF assms(2)] Some)
  next
    case (Some sd)
    with assms(1) have d: "distinct_keys (sd_files sd)" by (auto simp: wf_manifest_def dest: wf_source_files)
    have "dget roots name [] = r" using \<open>map_of roots name = Some r\<close> by (simp add: dget_def)
    with Some \<open>map_of roots name = Some r\<close> show ?thesis
      by (auto simp: files_at_def files_in_def drop_unfrozen_sources drop_unfrozen_fold [OF assms(2)]
          map_of_dict_filter [OF d] split: option.split)
  qed
qed

lemma drop_unfrozen_keys:
  "set (dkeys (sources_of (drop_unfrozen_checkout_files prior roots frozen))) = set (dkeys (sources_of prior))"
proof -
  have "set (dkeys (drop_unfrozen_source frozen e srcs)) = set (dkeys srcs)" for e srcs
  proof -
    obtain n r where e: "e = (n, r)" by (cases e)
    show ?thesis unfolding e set_dkeys by (auto simp: drop_unfrozen_source_map_of dom_def)
  qed
  then have "set (dkeys (fold (drop_unfrozen_source frozen) rs srcs)) = set (dkeys srcs)" for rs srcs
    by (induction rs arbitrary: srcs) auto
  then show ?thesis by (simp only: drop_unfrozen_sources)
qed

subsection \<open>The symlink filter\<close>

lemma filter_by_map_of:
  assumes "filter_by gone d = Inr d'" "distinct_keys d"
  shows "map_of d' k = (if gone k = Inr True then None else map_of d k)" and "distinct_keys d'"
proof -
  have "(\<forall>k. map_of d' k = (if gone k = Inr True then None else map_of d k)) \<and> distinct_keys d'"
    using assms
  proof (induction d arbitrary: d')
    case Nil
    then show ?case by simp
  next
    case (Cons e d)
    obtain q v where e: "e = (q, v)" by (cases e)
    from Cons.prems obtain b r where
      b: "gone q = Inr b" "filter_by gone d = Inr r" "d' = (if b then r else (q, v) # r)"
      by (auto simp: e split: sum.splits)
    from Cons.prems(2) have dk: "distinct_keys d" "map_of d q = None" by (auto simp: e)
    note IH = Cons.IH [OF b(2) dk(1)]
    then have "map_of r q = None" using dk(2) by simp
    with IH show ?case using dk(2) b by (auto simp: e)
  qed
  then show "map_of d' k = (if gone k = Inr True then None else map_of d k)" "distinct_keys d'" by blast+
qed

lemma try_each_map_of:
  assumes "try_each (\<lambda>(k, v). case f k v of Inl e \<Rightarrow> Inl e | Inr w \<Rightarrow> Inr (k, g v w)) d = Inr d'"
  shows "(case map_of d k of
            None \<Rightarrow> map_of d' k = None
          | Some v \<Rightarrow> \<exists>w. f k v = Inr w \<and> map_of d' k = Some (g v w))" and "map fst d' = map fst d"
  using assms
proof (induction d arbitrary: d')
  case Nil
  { case 1 then show ?case by simp }
  { case 2 then show ?case by simp }
next
  case (Cons e d)
  obtain q v where e: "e = (q, v)" by (cases e)
  { case 1
    then obtain w r where "f q v = Inr w"
      and r: "try_each (\<lambda>(k, v). case f k v of Inl e \<Rightarrow> Inl e | Inr w \<Rightarrow> Inr (k, g v w)) d = Inr r"
      and "d' = (q, g v w) # r" by (auto simp: e split: sum.splits)
    with Cons.IH(1) [OF r] show ?case by (auto simp: e split: option.splits) }
  { case 2
    then obtain w r where "f q v = Inr w"
      and r: "try_each (\<lambda>(k, v). case f k v of Inl e \<Rightarrow> Inl e | Inr w \<Rightarrow> Inr (k, g v w)) d = Inr r"
      and "d' = (q, g v w) # r" by (auto simp: e split: sum.splits)
    with Cons.IH(2) [OF r] show ?case by (auto simp: e) }
qed

lemma split_tomb_key:
  "58 \<in> set (tomb_key name rel)"
  "58 \<notin> set name \<Longrightarrow> split_key (tomb_key name rel) = (name, rel)"
proof -
  have "58 \<notin> set name \<Longrightarrow> takeWhile (\<lambda>c. c \<noteq> 58) (name @ 58 # rel) = name"
    and "58 \<notin> set name \<Longrightarrow> dropWhile (\<lambda>c. c \<noteq> 58) (name @ 58 # rel) = 58 # rel"
    by (induction name) auto
  then show "58 \<notin> set name \<Longrightarrow> split_key (tomb_key name rel) = (name, rel)"
    by (simp add: tomb_key_def split_key_def after_colon_def)
qed (simp add: tomb_key_def)

lemma filter_symlinked:
  assumes "filter_symlinked_paths alpha roots exempt probe m = Inr m'" "wf_manifest m"
  shows "files_at m' name rel =
      (if symlinked alpha roots exempt probe name rel = Inr True then None else files_at m name rel)"
    and "wf_manifest m'"
    and "58 \<notin> set name \<Longrightarrow> map_of (m_tombstones m') (tomb_key name rel) =
      (if symlinked alpha roots exempt probe name rel = Inr True then None
       else map_of (m_tombstones m) (tomb_key name rel))"
    and "set (dkeys (sources_of m')) = set (dkeys (sources_of m))"
proof -
  have sk: "58 \<in> set (tomb_key name rel)" "58 \<notin> set name \<Longrightarrow> split_key (tomb_key name rel) = (name, rel)"
    by (rule split_tomb_key)+
  have "files_at m' name rel =
      (if symlinked alpha roots exempt probe name rel = Inr True then None else files_at m name rel) \<and>
    wf_manifest m' \<and>
    (58 \<notin> set name \<longrightarrow> map_of (m_tombstones m') (tomb_key name rel) =
      (if symlinked alpha roots exempt probe name rel = Inr True then None
       else map_of (m_tombstones m) (tomb_key name rel))) \<and>
    set (dkeys (sources_of m')) = set (dkeys (sources_of m))"
  proof (cases "roots = []")
    case True
    with assms show ?thesis by (auto simp: filter_symlinked_paths_def symlinked_def)
  next
    case False
    define f :: "pystr \<Rightarrow> source_data \<Rightarrow> 'a + files"
      where "f name sd = filter_by (symlinked alpha roots exempt probe name) (sd_files sd)" for name sd
    from assms(1) False obtain srcs ts where
      s: "try_each (\<lambda>(name, sd). case f name sd of Inl e \<Rightarrow> Inl e | Inr fs \<Rightarrow> Inr (name, sd\<lparr>sd_files := fs\<rparr>))
            (sources_of m) = Inr srcs" and
      t: "filter_by (\<lambda>key. if 58 \<in> set key
            then symlinked alpha roots exempt probe (fst (split_key key)) (snd (split_key key))
            else Inr False) (m_tombstones m) = Inr ts" and
      m': "m' = m\<lparr>m_sources := Some srcs, m_tombstones := ts\<rparr>"
      unfolding filter_symlinked_paths_def f_def by (auto split: sum.splits)
    have wm: "wf_sources (sources_of m)" "distinct_keys (m_tombstones m)"
      using assms(2) by (simp_all add: wf_manifest_def)
    note fd = try_each_map_of [OF s]
    have files: "files_at m' name rel =
        (if symlinked alpha roots exempt probe name rel = Inr True then None else files_at m name rel)"
    proof (cases "map_of (sources_of m) name")
      case None
      with fd(1) [of name] show ?thesis by (simp add: m' files_at_def files_in_def)
    next
      case (Some sd)
      with fd(1) [of name] obtain fs where fs: "f name sd = Inr fs" "map_of srcs name = Some (sd\<lparr>sd_files := fs\<rparr>)"
        by auto
      from filter_by_map_of(1) [OF fs(1) [unfolded f_def] wf_source_files [OF wm(1) Some], of rel] fs(2) Some
      show ?thesis by (simp add: m' files_at_def files_in_def)
    qed
    have "wf_sources srcs"
    proof -
      have "distinct_keys (sd_files sd')" if "(n, sd') \<in> set srcs" for n sd'
      proof -
        have "distinct_keys srcs" using fd(2) wm(1) by (simp add: wf_sources_def distinct_keys_def)
        with that have g: "map_of srcs n = Some sd'" by (simp add: distinct_keys_def)
        with fd(1) [of n] obtain sd fs where sd: "map_of (sources_of m) n = Some sd" "f n sd = Inr fs"
          "sd' = sd\<lparr>sd_files := fs\<rparr>" by (auto split: option.splits)
        from filter_by_map_of(2) [OF _ wf_source_files [OF wm(1) sd(1)]] sd(2,3) show ?thesis
          by (auto simp: f_def)
      qed
      with fd(2) wm(1) show ?thesis by (auto simp: wf_sources_def distinct_keys_def)
    qed
    moreover note filter_by_map_of [OF t wm(2)]
    ultimately have "wf_manifest m'" by (simp add: wf_manifest_def m')
    moreover have "set (dkeys (sources_of m')) = set (dkeys (sources_of m))"
      using fd(2) by (simp add: m' dkeys_def flip: set_map)
    moreover have "58 \<notin> set name \<longrightarrow> map_of (m_tombstones m') (tomb_key name rel) =
      (if symlinked alpha roots exempt probe name rel = Inr True then None
       else map_of (m_tombstones m) (tomb_key name rel))"
      using filter_by_map_of(1) [OF t wm(2), of "tomb_key name rel"] sk by (simp add: m')
    ultimately show ?thesis using files by blast
  qed
  then show "files_at m' name rel =
      (if symlinked alpha roots exempt probe name rel = Inr True then None else files_at m name rel)"
    "wf_manifest m'"
    "58 \<notin> set name \<Longrightarrow> map_of (m_tombstones m') (tomb_key name rel) =
      (if symlinked alpha roots exempt probe name rel = Inr True then None
       else map_of (m_tombstones m) (tomb_key name rel))"
    "set (dkeys (sources_of m')) = set (dkeys (sources_of m))" by blast+
qed


subsection \<open>Holding files\<close>

lemma hold_file_fold_all:
  assumes "fold (hold_file pruned prior_files reasons) rels (fs, kept) = (fs', kept')"
  shows "(\<forall>rel. map_of fs' rel =
      (case map_of fs rel of
         Some i \<Rightarrow> Some i
       | None \<Rightarrow> if rel \<in> set rels \<and> \<not> pruned rel then map_of prior_files rel else None)) \<and>
    (\<forall>rel. map_of kept' rel \<noteq> None \<longleftrightarrow>
       map_of kept rel \<noteq> None \<or> (rel \<in> set rels \<and> map_of fs rel = None \<and> \<not> pruned rel)) \<and>
    (distinct_keys fs \<longrightarrow> distinct_keys fs')"
  using assms
proof (induction rels arbitrary: fs kept)
  case Nil
  then show ?case by (auto split: option.split)
next
  case (Cons q rels)
  define c where "c \<longleftrightarrow> map_of fs q = None \<and> \<not> pruned q"
  define fs1 where "fs1 = (if c then (case map_of prior_files q of Some i \<Rightarrow> AList.update q i fs | None \<Rightarrow> fs) else fs)"
  define kept1 where "kept1 = (if c then AList.update q (dget reasons q []) kept else kept)"
  have "hold_file pruned prior_files reasons q (fs, kept) = (fs1, kept1)"
    by (auto simp: hold_file_def c_def fs1_def kept1_def Let_def)
  with Cons.prems have "fold (hold_file pruned prior_files reasons) rels (fs1, kept1) = (fs', kept')" by simp
  note IH = Cons.IH [OF this]
  have f1: "map_of fs1 rel = (if rel = q \<and> c then map_of prior_files q else map_of fs rel)" for rel
    by (auto simp: fs1_def c_def split: option.split)
  have k1: "map_of kept1 rel \<noteq> None \<longleftrightarrow> map_of kept rel \<noteq> None \<or> (rel = q \<and> c)" for rel
    by (auto simp: kept1_def)
  have "distinct_keys fs \<Longrightarrow> distinct_keys fs1"
    by (auto simp: fs1_def distinct_keys_update split: option.split)
  moreover have "map_of fs' rel = (case map_of fs rel of Some i \<Rightarrow> Some i
       | None \<Rightarrow> if rel \<in> set (q # rels) \<and> \<not> pruned rel then map_of prior_files rel else None)" for rel
    using IH [THEN conjunct1, rule_format, of rel]
    unfolding f1 by (cases "map_of fs rel") (auto simp: c_def split: option.splits if_splits)
  moreover have "map_of kept' rel \<noteq> None \<longleftrightarrow>
       map_of kept rel \<noteq> None \<or> (rel \<in> set (q # rels) \<and> map_of fs rel = None \<and> \<not> pruned rel)" for rel
    using IH [THEN conjunct2, THEN conjunct1, rule_format, of rel]
    unfolding f1 k1 by (auto simp: c_def)
  ultimately show ?case using IH by blast
qed

lemmas hold_file_fold = hold_file_fold_all [THEN conjunct1, rule_format]
  hold_file_fold_all [THEN conjunct2, THEN conjunct1, rule_format]
  hold_file_fold_all [THEN conjunct2, THEN conjunct2, rule_format]

lemma set_sorted_set [simp]: "set (sorted_set xs) = set xs"
  by (simp add: sorted_set_def)

text \<open>A vanished candidate becomes a reason only when it is not excluded; nothing is forgotten.\<close>

lemma take_candidates_keys:
  "take_candidates missing excluded dirs rels reasons = Inr reasons' \<Longrightarrow>
     map_of reasons' rel \<noteq> None \<longleftrightarrow>
       map_of reasons rel \<noteq> None \<or> (rel \<in> set rels \<and> \<not> excluded rel)"
  "take_candidates missing excluded dirs rels reasons = Inr reasons' \<Longrightarrow>
     map_of reasons rel = None \<Longrightarrow> map_of reasons' rel \<noteq> None \<Longrightarrow> missing rel \<and> rel \<notin> set dirs"
proof (induction missing excluded dirs rels reasons rule: take_candidates.induct)
  case (1 missing excluded dirs reasons)
  { case 1 then show ?case by simp }
  { case 2 then show ?case by simp }
next
  case (2 missing excluded dirs q rels reasons)
  { case 1
    then show ?case
      using "2.IH"(1) "2.IH"(3) by (auto split: if_splits sum.splits) }
  { case 2
    then show ?case
      using "2.IH"(2) "2.IH"(4)
      by (cases "rel = q") (auto simp: validate_vanished_candidate_def split: if_splits sum.splits) }
qed

definition is_held :: "hold_map \<Rightarrow> pystr \<Rightarrow> pystr \<Rightarrow> bool" where
  "is_held held name rel \<longleftrightarrow> map_of (dget held name []) rel \<noteq> None"

definition hold_pruned ::
  "gate \<Rightarrow> tombstones \<Rightarrow> path_sets \<Rightarrow> pystr \<Rightarrow> pystr \<Rightarrow> bool" where
  "hold_pruned g tombs frozen name rel \<longleftrightarrow>
     rel \<in> set (dget frozen name []) \<or>
     is_excluded (dget (g_exclude g) name []) (dget (g_skip g) name []) (dget (g_include g) name []) rel \<or>
     is_tombstoned name rel tombs"

definition wants_hold :: "gate \<Rightarrow> hold_map \<Rightarrow> path_sets \<Rightarrow> pystr \<Rightarrow> pystr \<Rightarrow> bool" where
  "wants_hold g held candidates name rel \<longleftrightarrow>
     is_held held name rel \<or>
     (rel \<in> set (dget candidates name []) \<and>
      \<not> is_excluded (dget (g_exclude g) name []) (dget (g_skip g) name []) (dget (g_include g) name []) rel)"

text \<open>What holding does to one source.\<close>

definition hold_result ::
  "gate \<Rightarrow> tombstones \<Rightarrow> (pystr, source_data) dict \<Rightarrow> hold_map \<Rightarrow> path_sets \<Rightarrow> path_sets \<Rightarrow>
     manifest \<Rightarrow> manifest \<Rightarrow> hold_map \<Rightarrow> pystr \<Rightarrow> pystr \<Rightarrow> bool" where
  "hold_result g tombs prior_sources held candidates frozen l l' surviving name rel \<longleftrightarrow>
     (is_held surviving name rel \<longleftrightarrow>
        map_of (sources_of l) name \<noteq> None \<and> files_at l name rel = None \<and>
        wants_hold g held candidates name rel \<and> \<not> hold_pruned g tombs frozen name rel) \<and>
     files_at l' name rel =
       (case files_at l name rel of
          Some i \<Rightarrow> Some i
        | None \<Rightarrow> if is_held surviving name rel then map_of (files_in prior_sources name) rel else None)"

lemma hold_source_same:
  assumes "hold_source g missing prior_sources tombs held candidates frozen name (l, sv) = Inr (l', sv')"
    and "map_of sv name = None"
  shows "hold_result g tombs prior_sources held candidates frozen l l' sv' name rel"
proof (cases "map_of (sources_of l) name")
  case None
  with assms show ?thesis
    by (auto simp: hold_source_def hold_result_def is_held_def dget_def files_at_def files_in_def)
next
  case (Some sd)
  define excluded where "excluded = is_excluded (dget (g_exclude g) name []) (dget (g_skip g) name []) (dget (g_include g) name [])"
  define pf where "pf = files_in prior_sources name"
  from assms(1) Some obtain reasons fs kept where
    r: "take_candidates (missing name) excluded (published_dirs pf) (sorted_set (dget candidates name []))
          (dget held name []) = Inr reasons" and
    f: "fold (hold_file (\<lambda>rel. rel \<in> set (dget frozen name []) \<or> excluded rel \<or> is_tombstoned name rel tombs)
          pf reasons) (sorted_set (dkeys reasons)) (sd_files sd, []) = (fs, kept)" and
    o: "l' = set_source_files name fs l" "sv' = (if kept = [] then sv else AList.update name kept sv)"
    unfolding hold_source_def excluded_def pf_def by (auto simp: Let_def split: sum.splits prod.splits)
  have p: "rel \<in> set (dget frozen name []) \<or> excluded rel \<or> is_tombstoned name rel tombs \<longleftrightarrow>
      hold_pruned g tombs frozen name rel" for rel by (simp add: hold_pruned_def excluded_def)
  have w: "map_of reasons rel \<noteq> None \<longleftrightarrow> wants_hold g held candidates name rel" for rel
    using take_candidates_keys(1) [OF r] by (simp add: wants_hold_def is_held_def excluded_def)
  note ff = hold_file_fold [OF f, unfolded p]
  have k: "is_held sv' name rel \<longleftrightarrow> map_of kept rel \<noteq> None"
    using assms(2) o(2) by (auto simp: is_held_def dget_def)
  have at: "files_at l name rel = map_of (sd_files sd) rel" "files_at l' name rel = map_of fs rel"
    using Some by (simp_all add: files_at_def files_in_def o(1) set_source_files_map_of)
  have dom: "rel \<in> set (sorted_set (dkeys reasons)) \<longleftrightarrow> wants_hold g held candidates name rel"
    using w by auto
  show ?thesis
    unfolding hold_result_def k at
    using ff(1) [of rel] ff(2) [of rel] Some dom by (auto simp: pf_def split: option.split)
qed

lemma hold_source_other:
  assumes "hold_source g missing ps tombs held candidates frozen name (l, sv) = Inr (l', sv')" "n \<noteq> name"
  shows "map_of (sources_of l') n = map_of (sources_of l) n \<and> map_of sv' n = map_of sv n"
  using assms
  by (auto simp: hold_source_def Let_def set_source_files_map_of split: option.splits sum.splits prod.splits if_splits)

lemma hold_source_wf:
  assumes "hold_source g missing ps tombs held candidates frozen name (l, sv) = Inr (l', sv')" "wf_manifest l"
  shows "wf_manifest l'"
proof (cases "map_of (sources_of l) name")
  case None
  with assms show ?thesis by (simp add: hold_source_def)
next
  case (Some sd)
  with assms(1) obtain pruned pf reasons fs kept where
    "fold (hold_file pruned pf reasons) (sorted_set (dkeys reasons)) (sd_files sd, []) = (fs, kept)"
    "l' = set_source_files name fs l"
    by (auto simp: hold_source_def Let_def split: sum.splits prod.splits)
  moreover have "distinct_keys (sd_files sd)" using assms(2) Some by (auto simp: wf_manifest_def dest: wf_source_files)
  ultimately show ?thesis using hold_file_fold(3) set_source_files_wf [OF assms(2)] by blast
qed

lemma hold_source_tombstones:
  assumes "hold_source g missing ps tombs held candidates frozen name (l, sv) = Inr (l', sv')"
  shows "m_tombstones l' = m_tombstones l"
  using assms by (auto simp: hold_source_def Let_def split: option.splits sum.splits prod.splits)

lemma hold_sources_other:
  "hold_sources g missing ps tombs held candidates frozen names (l, sv) = Inr (l', sv') \<Longrightarrow>
     (n \<notin> set names \<longrightarrow> map_of (sources_of l') n = map_of (sources_of l) n \<and> map_of sv' n = map_of sv n) \<and>
     (wf_manifest l \<longrightarrow> wf_manifest l') \<and> m_tombstones l' = m_tombstones l"
proof (induction names arbitrary: l sv)
  case Nil
  then show ?case by simp
next
  case (Cons name names)
  then obtain l1 sv1 where
    s: "hold_source g missing ps tombs held candidates frozen name (l, sv) = Inr (l1, sv1)" and
    f: "hold_sources g missing ps tombs held candidates frozen names (l1, sv1) = Inr (l', sv')"
    by (auto split: sum.splits)
  from Cons.IH [OF f] hold_source_other [OF s] hold_source_wf [OF s] hold_source_tombstones [OF s]
  show ?case by auto
qed

lemma wants_hold_named:
  "wants_hold g held candidates name rel \<Longrightarrow> name \<in> set (dkeys held) \<union> set (dkeys candidates)"
  by (auto simp: wants_hold_def is_held_def dget_def split: option.splits)

lemma hold_sources_result:
  "hold_sources g missing ps tombs held candidates frozen names (l, sv) = Inr (l', sv') \<Longrightarrow>
     distinct names \<Longrightarrow> name \<in> set names \<Longrightarrow> map_of sv name = None \<Longrightarrow>
     hold_result g tombs ps held candidates frozen l l' sv' name rel"
proof (induction names arbitrary: l sv)
  case Nil
  then show ?case by simp
next
  case (Cons n names)
  then obtain l1 sv1 where
    s: "hold_source g missing ps tombs held candidates frozen n (l, sv) = Inr (l1, sv1)" and
    f: "hold_sources g missing ps tombs held candidates frozen names (l1, sv1) = Inr (l', sv')"
    by (auto split: sum.splits)
  show ?case
  proof (cases "n = name")
    case True
    with Cons.prems(2) have "name \<notin> set names" by simp
    with hold_sources_other [OF f, of name]
    have o: "files_at l' name rel = files_at l1 name rel" "is_held sv' name rel = is_held sv1 name rel"
      by (simp_all add: files_at_def files_in_def is_held_def dget_def)
    from hold_source_same [OF s [unfolded True] Cons.prems(4), of rel] show ?thesis
      unfolding hold_result_def o .
  next
    case False
    with hold_source_other [OF s, of name] Cons.prems(4)
    have o: "map_of (sources_of l1) name = map_of (sources_of l) name" "map_of sv1 name = None" by auto
    moreover from o(1) have "files_at l1 name rel = files_at l name rel" by (simp add: files_at_def files_in_def)
    ultimately show ?thesis using Cons.IH [OF f] Cons.prems False by (simp add: hold_result_def)
  qed
qed

definition prior_sources :: "manifest option \<Rightarrow> (pystr, source_data) dict" where
  "prior_sources prior = (case prior of None \<Rightarrow> [] | Some p \<Rightarrow> sources_of p)"

definition prior_tombstones :: "manifest option \<Rightarrow> tombstones" where
  "prior_tombstones prior = (case prior of None \<Rightarrow> [] | Some p \<Rightarrow> m_tombstones p)"

lemma inject_held:
  assumes "inject_held_entries g missing l prior held candidates frozen = Inr (l', surviving)"
  shows "hold_result g (prior_tombstones prior) (prior_sources prior) held candidates frozen l l' surviving name rel"
    and "wf_manifest l \<Longrightarrow> wf_manifest l'" and "m_tombstones l' = m_tombstones l"
proof -
  let ?names = "sorted_set (dkeys held @ dkeys candidates)"
  have f: "hold_sources g missing (prior_sources prior) (prior_tombstones prior) held candidates frozen ?names (l, []) =
      Inr (l', surviving)"
    using assms by (simp add: inject_held_entries_def prior_sources_def prior_tombstones_def)
  note o = hold_sources_other [OF f]
  show "wf_manifest l \<Longrightarrow> wf_manifest l'" "m_tombstones l' = m_tombstones l" using o by auto
  show "hold_result g (prior_tombstones prior) (prior_sources prior) held candidates frozen l l' surviving name rel"
  proof (cases "name \<in> set ?names")
    case True
    have "distinct ?names" by (simp add: sorted_set_def)
    from hold_sources_result [OF f this True] show ?thesis by simp
  next
    case False
    with wants_hold_named have "\<not> wants_hold g held candidates name rel" by fastforce
    moreover from o [of name] False have "files_at l' name rel = files_at l name rel" "\<not> is_held surviving name rel"
      by (auto simp: files_at_def files_in_def is_held_def dget_def)
    ultimately show ?thesis by (auto simp: hold_result_def split: option.split)
  qed
qed


subsection \<open>The merge of conflict copies\<close>

definition latest :: "'a option \<Rightarrow> 'a option \<Rightarrow> 'a option" where
  "latest new old = (case new of Some i \<Rightarrow> Some i | None \<Rightarrow> old)"

definition stamp_of :: "jdict \<Rightarrow> pystr option" where
  "stamp_of t = as_str (dget t (u ''deleted_at'') (JStr []))"

definition stamped :: "tombstones \<Rightarrow> bool" where
  "stamped ts \<longleftrightarrow> (\<forall>(p, t) \<in> set ts. stamp_of t \<noteq> None)"

definition newer :: "jdict option \<Rightarrow> jdict option \<Rightarrow> jdict option" where
  "newer new old =
     (case (new, old) of
        (Some i, Some t) \<Rightarrow> if the (stamp_of t) < the (stamp_of i) then Some i else Some t
      | (Some i, None) \<Rightarrow> Some i
      | (None, _) \<Rightarrow> old)"

lemma merge_source_files:
  assumes "distinct_keys (sd_files sd)"
  shows "map_of (files_in (merge_source (n, sd) acc) name) rel =
    (if n = name then latest (map_of (sd_files sd) rel) (map_of (files_in acc name) rel)
     else map_of (files_in acc name) rel)"
  using assms
  by (auto simp: merge_source_def Let_def files_in_def map_of_dict_update map_of_rev_distinct latest_def
      split: option.split)

lemma merge_sources_files:
  assumes "wf_sources srcs"
  shows "map_of (files_in (fold merge_source srcs acc) name) rel =
    latest (map_of (files_in srcs name) rel) (map_of (files_in acc name) rel)"
  using assms
proof (induction srcs arbitrary: acc)
  case Nil
  then show ?case by (simp add: files_in_def latest_def)
next
  case (Cons e srcs)
  obtain n sd where e: "e = (n, sd)" by (cases e)
  from Cons.prems have w: "wf_sources srcs" "distinct_keys (sd_files sd)" "map_of srcs n = None"
    by (auto simp: wf_sources_def e)
  have IH: "map_of (files_in (fold merge_source (e # srcs) acc) name) rel =
      latest (map_of (files_in srcs name) rel) (map_of (files_in (merge_source (n, sd) acc) name) rel)"
    using Cons.IH [OF w(1), of "merge_source (n, sd) acc"] by (simp add: e)
  show ?case
  proof (cases "name = n")
    case True
    with w(3) have "files_in srcs name = []" by (simp add: files_in_def)
    moreover have "files_in (e # srcs) name = sd_files sd" using True by (simp add: files_in_def e)
    ultimately show ?thesis unfolding IH by (simp add: True merge_source_files [OF w(2)] latest_def)
  next
    case False
    then have "files_in (e # srcs) name = files_in srcs name" by (simp add: files_in_def e)
    then show ?thesis unfolding IH by (simp add: False [symmetric] merge_source_files [OF w(2)])
  qed
qed

lemma merge_all_files:
  assumes "\<forall>m \<in> set ms. wf_manifest m"
  shows "map_of (files_in (fold merge_source (concat (map sources_of ms)) acc) name) rel =
    fold latest (map (\<lambda>m. files_at m name rel) ms) (map_of (files_in acc name) rel)"
  using assms
proof (induction ms arbitrary: acc)
  case Nil
  then show ?case by simp
next
  case (Cons m ms)
  then have "wf_sources (sources_of m)" by (simp add: wf_manifest_def)
  with Cons show ?case by (simp add: merge_sources_files files_at_def)
qed

lemma as_str_dget_stamp: "json_gt (dget a (u ''deleted_at'') (JStr [])) (dget b (u ''deleted_at'') (JStr [])) =
    Inr (the (stamp_of b) < the (stamp_of a))"
  if "stamp_of a \<noteq> None" "stamp_of b \<noteq> None"
  using that by (auto simp: json_gt_def stamp_of_def)

lemma stamped_map_of: "stamped ts \<Longrightarrow> map_of ts p = Some t \<Longrightarrow> stamp_of t \<noteq> None"
  by (auto simp: stamped_def dest!: map_of_SomeD)

lemma stamped_update: "stamped ts \<Longrightarrow> stamp_of t \<noteq> None \<Longrightarrow> stamped (AList.update p t ts)"
proof -
  assume "stamped ts" "stamp_of t \<noteq> None"
  moreover have "set (AList.update p t ts) \<subseteq> insert (p, t) (set ts)" by (induction ts) auto
  ultimately show ?thesis by (auto simp: stamped_def)
qed

lemma merge_tombs_newer:
  assumes "stamped ts" "stamped acc" "distinct_keys ts"
  shows "\<exists>acc'. merge_tombs ts acc = Inr acc' \<and> stamped acc' \<and>
    (\<forall>p. map_of acc' p = newer (map_of ts p) (map_of acc p)) \<and> (distinct_keys acc \<longrightarrow> distinct_keys acc')"
  using assms
proof (induction ts arbitrary: acc)
  case Nil
  then show ?case by (simp add: newer_def)
next
  case (Cons e ts)
  obtain p i where e: "e = (p, i)" by (cases e)
  from Cons.prems have s: "stamped ts" "stamp_of i \<noteq> None" "distinct_keys ts" "map_of ts p = None"
    by (auto simp: stamped_def e)
  define acc1 where "acc1 = (case map_of acc p of None \<Rightarrow> AList.update p i acc
      | Some t \<Rightarrow> if the (stamp_of t) < the (stamp_of i) then AList.update p i acc else acc)"
  have step: "merge_tombs (e # ts) acc = merge_tombs ts acc1"
    using stamped_map_of [OF Cons.prems(2)] s(2)
    by (auto simp: e acc1_def as_str_dget_stamp split: option.split)
  have "stamped acc1" using Cons.prems(2) s(2) by (auto simp: acc1_def stamped_update split: option.split)
  from Cons.IH [OF s(1) this s(3)] obtain acc' where
    a: "merge_tombs ts acc1 = Inr acc'" "stamped acc'" "distinct_keys acc1 \<longrightarrow> distinct_keys acc'"
    and m: "\<And>q. map_of acc' q = newer (map_of ts q) (map_of acc1 q)" by blast
  have "map_of acc' q = newer (map_of (e # ts) q) (map_of acc q)" for q
    using m [of q] s(4) by (auto simp: e acc1_def newer_def split: option.splits if_splits)
  moreover have "distinct_keys acc \<longrightarrow> distinct_keys acc1"
    by (auto simp: acc1_def distinct_keys_update split: option.split)
  ultimately show ?case using a step by auto
qed

lemma merge_tombs_all_newer:
  assumes "\<forall>m \<in> set ms. stamped (m_tombstones m) \<and> wf_manifest m" "stamped acc"
  shows "\<exists>acc'. merge_tombs_all ms acc = Inr acc' \<and>
    (\<forall>p. map_of acc' p = fold newer (map (\<lambda>m. map_of (m_tombstones m) p) ms) (map_of acc p))"
  using assms
proof (induction ms arbitrary: acc)
  case Nil
  then show ?case by simp
next
  case (Cons m ms)
  then have "stamped (m_tombstones m)" "distinct_keys (m_tombstones m)" by (auto simp: wf_manifest_def)
  from merge_tombs_newer [OF this(1) Cons.prems(2) this(2)] obtain acc1 where
    a: "merge_tombs (m_tombstones m) acc = Inr acc1" "stamped acc1"
    "\<And>p. map_of acc1 p = newer (map_of (m_tombstones m) p) (map_of acc p)" by blast
  from Cons.IH [OF _ a(2)] Cons.prems(1) obtain acc' where
    "merge_tombs_all ms acc1 = Inr acc'"
    "\<forall>p. map_of acc' p = fold newer (map (\<lambda>m. map_of (m_tombstones m) p) ms) (map_of acc1 p)" by auto
  with a show ?case by auto
qed

text \<open>The merged manifest, read through its lookups.\<close>

lemma merge_manifests_lookup:
  assumes "\<forall>m \<in> set ms. stamped (m_tombstones m) \<and> wf_manifest m" "ms \<noteq> []"
  obtains r where "merge_manifests chash ms = Inr r"
    "\<And>name rel. files_at r name rel =
       fold latest (map (\<lambda>m. files_at m name rel) (sort_key (merge_key chash) ms)) None"
    "\<And>p. map_of (m_tombstones r) p =
       fold newer (map (\<lambda>m. map_of (m_tombstones m) p) (sort_key (merge_key chash) ms)) None"
    "m_timestamp r = m_timestamp (last (sort_key (merge_key chash) ms))"
proof -
  let ?ms = "sort_key (merge_key chash) ms"
  have ms: "\<forall>m \<in> set ?ms. stamped (m_tombstones m) \<and> wf_manifest m" using assms(1) by simp
  have "stamped []" by (simp add: stamped_def)
  from merge_tombs_all_newer [OF ms this] obtain ts where
    ts: "merge_tombs_all ?ms [] = Inr ts" "\<And>p. map_of ts p = fold newer (map (\<lambda>m. map_of (m_tombstones m) p) ?ms) None"
    by auto
  show ?thesis
  proof (rule that)
    show "merge_manifests chash ms = Inr ((last ?ms)\<lparr>m_sources := Some (fold merge_source (concat (map sources_of ?ms)) []),
        m_tombstones := ts\<rparr>)"
      using ts(1) by (simp add: merge_manifests_def Let_def)
  qed (use merge_all_files [of ?ms "[]"] ms ts(2) in \<open>simp_all add: files_at_def files_in_def\<close>)
qed

lemma fold_latest:
  "fold latest os acc = (case filter (\<lambda>x. x \<noteq> None) os of [] \<Rightarrow> acc | xs \<Rightarrow> last xs)"
  by (induction os arbitrary: acc) (auto simp: latest_def split: option.splits list.splits)

lemma fold_newer_None: "fold newer os acc = None \<longleftrightarrow> acc = None \<and> (\<forall>x \<in> set os. x = None)"
  by (induction os arbitrary: acc) (auto simp: newer_def split: option.splits)

lemma fold_newer_mem: "fold newer os acc = Some t \<Longrightarrow> Some t = acc \<or> Some t \<in> set os"
proof (induction os arbitrary: acc)
  case Nil
  then show ?case by simp
next
  case (Cons x os)
  then have "Some t = newer x acc \<or> Some t \<in> set os" by simp
  moreover have "newer x acc = x \<or> newer x acc = acc" by (simp add: newer_def split: option.split)
  ultimately show ?case by auto
qed

lemma newer_ge: "newer x y = Some t \<Longrightarrow> x = Some s \<or> y = Some s \<Longrightarrow> the (stamp_of s) \<le> the (stamp_of t)"
  by (auto simp: newer_def split: option.splits if_splits)

lemma fold_newer_ge:
  "fold newer os acc = Some t \<Longrightarrow> Some s = acc \<or> Some s \<in> set os \<Longrightarrow> the (stamp_of s) \<le> the (stamp_of t)"
proof (induction os arbitrary: acc s)
  case Nil
  then show ?case by auto
next
  case (Cons x os)
  have f: "fold newer os (newer x acc) = Some t" using Cons.prems(1) by simp
  show ?case
  proof (cases "Some s \<in> set os")
    case True
    with Cons.IH [OF f] show ?thesis by blast
  next
    case False
    with Cons.prems(2) have s: "x = Some s \<or> acc = Some s" by auto
    then obtain w where w: "newer x acc = Some w" by (cases "newer x acc") (auto simp: newer_def split: option.splits if_splits)
    from newer_ge [OF w s] Cons.IH [OF f, of w] w show ?thesis by auto
  qed
qed


lemma sort_key_keys:
  assumes "mset (map k ys) = mset (map k xs)"
  shows "map k (sort_key k ys) = map k (sort_key k xs)"
proof -
  have "sort (map k xs) = map k (sort_key k ys)" by (rule properties_for_sort) (use assms in simp_all)
  moreover have "sort (map k xs) = map k (sort_key k xs)" by (rule properties_for_sort) simp_all
  ultimately show ?thesis by simp
qed

lemma map_eq_transfer:
  "map k ys = map k xs \<Longrightarrow> set ys \<subseteq> A \<Longrightarrow> set xs \<subseteq> A \<Longrightarrow>
     (\<And>a b. a \<in> A \<Longrightarrow> b \<in> A \<Longrightarrow> k a = k b \<Longrightarrow> g a = g b) \<Longrightarrow> map g ys = map g xs"
proof (induction ys arbitrary: xs)
  case Nil
  then show ?case by simp
next
  case (Cons y ys)
  from Cons.prems(1) obtain x xs' where xs: "xs = x # xs'" "k y = k x" "map k ys = map k xs'"
    by (cases xs) auto
  from Cons.prems(2,3) have sub: "set ys \<subseteq> A" "set xs' \<subseteq> A" "y \<in> A" "x \<in> A" by (simp_all add: xs(1))
  from Cons.IH [OF xs(3) sub(1,2) Cons.prems(4)] have "map g ys = map g xs'" by blast
  moreover from Cons.prems(4) [OF sub(3,4) xs(2)] have "g y = g x" .
  ultimately show ?case by (simp add: xs(1))
qed

lemma sort_key_map_same:
  assumes "mset ys = mset xs" "\<And>a b. a \<in> set xs \<Longrightarrow> b \<in> set xs \<Longrightarrow> k a = k b \<Longrightarrow> g a = g b"
  shows "map g (sort_key k ys) = map g (sort_key k xs)"
proof (rule map_eq_transfer [OF _ _ _ assms(2)])
  show "map k (sort_key k ys) = map k (sort_key k xs)" by (rule sort_key_keys) (simp add: assms(1))
  show "set (sort_key k ys) \<subseteq> set xs" using mset_eq_setD [OF assms(1)] by simp
qed simp_all

lemma sort_key_Nil_iff: "sort_key k xs = [] \<longleftrightarrow> xs = []"
  by (metis set_empty set_sort)

lemma sorted_le_last: "sorted xs \<Longrightarrow> x \<in> set xs \<Longrightarrow> x \<le> last xs"
  by (induction xs) auto

lemma sorted_last_max:
  assumes "filter P (sort_key f xs) \<noteq> []" "y \<in> set xs" "P y"
  shows "f y \<le> f (last (filter P (sort_key f xs)))"
proof -
  have "sorted (map f (filter P (sort_key f xs)))" by (rule sorted_filter) simp
  moreover have "f y \<in> set (map f (filter P (sort_key f xs)))" using assms(2,3) by simp
  ultimately have "f y \<le> last (map f (filter P (sort_key f xs)))" by (rule sorted_le_last)
  with assms(1) show ?thesis by (simp add: last_map)
qed

lemma merge_manifests_keeps:
  assumes "\<forall>m \<in> set ms. stamped (m_tombstones m) \<and> wf_manifest m" "ms \<noteq> []"
  shows "\<exists>r. merge_manifests chash ms = Inr r \<and>
    (\<forall>name rel.
      (files_at r name rel = None \<longleftrightarrow> (\<forall>m \<in> set ms. files_at m name rel = None)) \<and>
      (\<forall>i. files_at r name rel = Some i \<longrightarrow>
         (\<exists>m \<in> set ms. files_at m name rel = Some i \<and>
           (\<forall>m' \<in> set ms. files_at m' name rel \<noteq> None \<longrightarrow> merge_key chash m' \<le> merge_key chash m)))) \<and>
    (\<forall>p.
      (map_of (m_tombstones r) p = None \<longleftrightarrow> (\<forall>m \<in> set ms. map_of (m_tombstones m) p = None)) \<and>
      (\<forall>t. map_of (m_tombstones r) p = Some t \<longrightarrow>
         (\<exists>m \<in> set ms. map_of (m_tombstones m) p = Some t) \<and>
         (\<forall>m \<in> set ms. \<forall>t'. map_of (m_tombstones m) p = Some t' \<longrightarrow> the (stamp_of t') \<le> the (stamp_of t))))"
proof -
  let ?ms = "sort_key (merge_key chash) ms"
  obtain r where r: "merge_manifests chash ms = Inr r"
    and f: "\<And>name rel. files_at r name rel = fold latest (map (\<lambda>m. files_at m name rel) ?ms) None"
    and t: "\<And>p. map_of (m_tombstones r) p = fold newer (map (\<lambda>m. map_of (m_tombstones m) p) ?ms) None"
    using merge_manifests_lookup [OF assms, of chash thesis] by blast
  have files: "(files_at r name rel = None \<longleftrightarrow> (\<forall>m \<in> set ms. files_at m name rel = None)) \<and>
      (\<forall>i. files_at r name rel = Some i \<longrightarrow>
         (\<exists>m \<in> set ms. files_at m name rel = Some i \<and>
           (\<forall>m' \<in> set ms. files_at m' name rel \<noteq> None \<longrightarrow> merge_key chash m' \<le> merge_key chash m)))" for name rel
  proof -
    define P :: "manifest \<Rightarrow> bool" where "P = (\<lambda>m. files_at m name rel \<noteq> None)"
    define L where "L = filter P ?ms"
    have "filter (\<lambda>x. x \<noteq> None) (map (\<lambda>m. files_at m name rel) ?ms) = map (\<lambda>m. files_at m name rel) L"
      unfolding L_def P_def by (simp only: filter_map comp_def)
    then have g: "files_at r name rel = (if L = [] then None else files_at (last L) name rel)"
      by (auto simp: f fold_latest last_map split: list.split)
    show ?thesis
    proof (cases "L = []")
      case True
      then have "\<forall>m \<in> set ms. \<not> P m" by (simp add: L_def filter_empty_conv)
      with g True show ?thesis by (simp add: P_def)
    next
      case False
      then have "last L \<in> set L" by simp
      then have l: "last L \<in> set ms" "P (last L)" by (auto simp: L_def)
      have "\<forall>m' \<in> set ms. P m' \<longrightarrow> merge_key chash m' \<le> merge_key chash (last L)"
        using sorted_last_max [of P "merge_key chash" ms] False by (simp add: L_def)
      moreover have "files_at r name rel = files_at (last L) name rel" using g False by simp
      moreover have "files_at (last L) name rel \<noteq> None" using l(2) by (simp add: P_def)
      ultimately show ?thesis using l(1) unfolding P_def by (metis option.distinct(1))
    qed
  qed
  have tombs: "(map_of (m_tombstones r) p = None \<longleftrightarrow> (\<forall>m \<in> set ms. map_of (m_tombstones m) p = None)) \<and>
      (\<forall>t. map_of (m_tombstones r) p = Some t \<longrightarrow>
         (\<exists>m \<in> set ms. map_of (m_tombstones m) p = Some t) \<and>
         (\<forall>m \<in> set ms. \<forall>t'. map_of (m_tombstones m) p = Some t' \<longrightarrow> the (stamp_of t') \<le> the (stamp_of t)))" for p
  proof (cases "map_of (m_tombstones r) p")
    case None
    with t [of p] have "\<forall>x \<in> set (map (\<lambda>m. map_of (m_tombstones m) p) ?ms). x = None"
      by (metis fold_newer_None)
    with None show ?thesis by simp
  next
    case (Some w)
    note ft = Some [unfolded t]
    from fold_newer_mem [OF ft] have "\<exists>m \<in> set ms. map_of (m_tombstones m) p = Some w" by force
    moreover have "the (stamp_of t') \<le> the (stamp_of w)" if "m \<in> set ms" "map_of (m_tombstones m) p = Some t'" for m t'
      by (rule fold_newer_ge [OF ft]) (use that in force)
    ultimately show ?thesis using Some by fastforce
  qed
  from r files tombs show ?thesis by blast
qed

text \<open>C6. Merging the conflict copies of one device's manifest loses nothing: the merge succeeds, a
  file is listed exactly when some copy lists it, with the entry of a copy whose (timestamp, content
  hash) is greatest among those that list it, and a tombstone is present exactly when some copy has
  it, with a newest \<open>deleted_at\<close> of all copies.\<close>

theorem merge_manifests_union:
  assumes "\<forall>m \<in> set ms. stamped (m_tombstones m) \<and> wf_manifest m" "ms \<noteq> []"
  shows "\<exists>r. merge_manifests chash ms = Inr r \<and>
    (\<forall>name rel.
      (files_at r name rel = None \<longleftrightarrow> (\<forall>m \<in> set ms. files_at m name rel = None)) \<and>
      (\<forall>i. files_at r name rel = Some i \<longrightarrow>
         (\<exists>m \<in> set ms. files_at m name rel = Some i \<and>
           (\<forall>m' \<in> set ms. files_at m' name rel \<noteq> None \<longrightarrow> merge_key chash m' \<le> merge_key chash m)))) \<and>
    (\<forall>p.
      (map_of (m_tombstones r) p = None \<longleftrightarrow> (\<forall>m \<in> set ms. map_of (m_tombstones m) p = None)) \<and>
      (\<forall>t. map_of (m_tombstones r) p = Some t \<longrightarrow>
         (\<exists>m \<in> set ms. map_of (m_tombstones m) p = Some t) \<and>
         (\<forall>m \<in> set ms. \<forall>t'. map_of (m_tombstones m) p = Some t' \<longrightarrow> the (stamp_of t') \<le> the (stamp_of t))))"
  by (rule merge_manifests_keeps [OF assms])

text \<open>C7. The merge does not depend on the order in which the conflict copies are found: copies
  with equal (timestamp, content hash) having equal content, two orders of the same copies give
  manifests with the same files, the same tombstones and the same timestamp.\<close>

theorem merge_manifests_order:
  assumes "\<forall>m \<in> set ms. stamped (m_tombstones m) \<and> wf_manifest m" "ms \<noteq> []" "mset ms' = mset ms"
    and "\<forall>a \<in> set ms. \<forall>b \<in> set ms. merge_key chash a = merge_key chash b \<longrightarrow>
      (\<forall>name rel. files_at a name rel = files_at b name rel) \<and>
      (\<forall>p. map_of (m_tombstones a) p = map_of (m_tombstones b) p)"
  shows "\<exists>r r'. merge_manifests chash ms = Inr r \<and> merge_manifests chash ms' = Inr r' \<and>
    m_timestamp r' = m_timestamp r \<and>
    (\<forall>name rel. files_at r' name rel = files_at r name rel) \<and>
    (\<forall>p. map_of (m_tombstones r') p = map_of (m_tombstones r) p)"
proof -
  let ?k = "merge_key chash"
  have set': "set ms' = set ms" using assms(3) by (rule mset_eq_setD)
  have ne': "ms' \<noteq> []" using assms(2,3) by auto
  have ok': "\<forall>m \<in> set ms'. stamped (m_tombstones m) \<and> wf_manifest m" using assms(1) set' by simp
  note same = sort_key_map_same [OF assms(3), of ?k]
  obtain r where r: "merge_manifests chash ms = Inr r"
    "\<And>name rel. files_at r name rel = fold latest (map (\<lambda>m. files_at m name rel) (sort_key ?k ms)) None"
    "\<And>p. map_of (m_tombstones r) p = fold newer (map (\<lambda>m. map_of (m_tombstones m) p) (sort_key ?k ms)) None"
    "m_timestamp r = m_timestamp (last (sort_key ?k ms))"
    using merge_manifests_lookup [OF assms(1,2), of chash thesis] by blast
  obtain r' where r': "merge_manifests chash ms' = Inr r'"
    "\<And>name rel. files_at r' name rel = fold latest (map (\<lambda>m. files_at m name rel) (sort_key ?k ms')) None"
    "\<And>p. map_of (m_tombstones r') p = fold newer (map (\<lambda>m. map_of (m_tombstones m) p) (sort_key ?k ms')) None"
    "m_timestamp r' = m_timestamp (last (sort_key ?k ms'))"
    using merge_manifests_lookup [OF ok' ne', of chash thesis] by blast
  have "map m_timestamp (sort_key ?k ms') = map m_timestamp (sort_key ?k ms)"
    by (rule same) (simp add: merge_key_def)
  then have "last (map m_timestamp (sort_key ?k ms')) = last (map m_timestamp (sort_key ?k ms))" by simp
  then have "m_timestamp r' = m_timestamp r" using assms(2) ne' by (simp add: r(4) r'(4) last_map sort_key_Nil_iff)
  moreover have "files_at r' name rel = files_at r name rel" for name rel
  proof -
    have "map (\<lambda>m. files_at m name rel) (sort_key ?k ms') = map (\<lambda>m. files_at m name rel) (sort_key ?k ms)"
      by (rule same) (use assms(4) in blast)
    then show ?thesis unfolding r(2) r'(2) by (rule arg_cong)
  qed
  moreover have "map_of (m_tombstones r') p = map_of (m_tombstones r) p" for p
  proof -
    have "map (\<lambda>m. map_of (m_tombstones m) p) (sort_key ?k ms') = map (\<lambda>m. map_of (m_tombstones m) p) (sort_key ?k ms)"
      by (rule same) (use assms(4) in blast)
    then show ?thesis unfolding r(3) r'(3) by (rule arg_cong)
  qed
  ultimately show ?thesis using r(1) r'(1) by blast
qed


text \<open>Two conflict copies written in the same second: one lists two files and a tombstone, the
  other a newer version of one of them and a newer tombstone.\<close>

definition copy_file :: "string \<Rightarrow> file_info" where
  "copy_file h = \<lparr>fi_sha256 = u h, fi_mtime = None, fi_rest = []\<rparr>"

definition copy_a :: manifest where
  "copy_a = \<lparr>m_timestamp = u ''2026-01-02T03:04:05+00:00'', m_rest = [],
     m_sources = Some [(u ''claude'', \<lparr>sd_base_path = JStr (u ''~/.claude''),
       sd_files = [(u ''a.md'', copy_file ''1''), (u ''b.md'', copy_file ''2'')]\<rparr>)],
     m_tombstones = [(u ''claude:old.md'', [(u ''deleted_at'', JStr (u ''2026-01-01T00:00:00+00:00''))])]\<rparr>"

definition copy_b :: manifest where
  "copy_b = \<lparr>m_timestamp = u ''2026-01-02T03:04:05+00:00'', m_rest = [],
     m_sources = Some [(u ''claude'', \<lparr>sd_base_path = JStr (u ''~/.claude''),
       sd_files = [(u ''a.md'', copy_file ''3'')]\<rparr>)],
     m_tombstones = [(u ''claude:old.md'', [(u ''deleted_at'', JStr (u ''2026-01-02T00:00:00+00:00''))])]\<rparr>"

definition copy_hash :: "manifest \<Rightarrow> pystr" where
  "copy_hash m = (if m = copy_a then [1] else [2])"

lemma copies_ok:
  "\<forall>m \<in> set [copy_a, copy_b]. stamped (m_tombstones m) \<and> wf_manifest m"
  by (simp add: copy_a_def copy_b_def stamped_def stamp_of_def dget_def wf_manifest_def wf_sources_def
      sources_of_def)

lemma copies_differ: "copy_hash copy_a = [1]" "copy_hash copy_b = [2]"
  by (simp_all add: copy_hash_def) (simp add: copy_a_def copy_b_def)

theorem merge_manifests_union_witness:
  "\<exists>r. merge_manifests copy_hash [copy_b, copy_a] = Inr r \<and>
     files_at r (u ''claude'') (u ''b.md'') \<noteq> None \<and>
     map_of (m_tombstones r) (u ''claude:old.md'') \<noteq> None"
proof -
  have "\<forall>m \<in> set [copy_b, copy_a]. stamped (m_tombstones m) \<and> wf_manifest m" using copies_ok by simp
  from merge_manifests_union [OF this, of copy_hash] obtain r where
    r: "merge_manifests copy_hash [copy_b, copy_a] = Inr r" and
    f: "\<forall>name rel. files_at r name rel = None \<longleftrightarrow> (\<forall>m \<in> set [copy_b, copy_a]. files_at m name rel = None)" and
    t: "\<forall>p. map_of (m_tombstones r) p = None \<longleftrightarrow> (\<forall>m \<in> set [copy_b, copy_a]. map_of (m_tombstones m) p = None)"
    by blast
  have "files_at copy_a (u ''claude'') (u ''b.md'') \<noteq> None" "map_of (m_tombstones copy_a) (u ''claude:old.md'') \<noteq> None"
    by (simp_all add: copy_a_def files_at_def files_in_def sources_of_def)
  then have "files_at r (u ''claude'') (u ''b.md'') \<noteq> None" "map_of (m_tombstones r) (u ''claude:old.md'') \<noteq> None"
    using f t by (metis list.set_intros)+
  with r show ?thesis by blast
qed

theorem merge_manifests_order_witness:
  "\<exists>r r'. merge_manifests copy_hash [copy_a, copy_b] = Inr r \<and> merge_manifests copy_hash [copy_b, copy_a] = Inr r' \<and>
     (\<forall>name rel. files_at r' name rel = files_at r name rel) \<and>
     (\<forall>p. map_of (m_tombstones r') p = map_of (m_tombstones r) p)"
proof -
  have "\<forall>a \<in> set [copy_a, copy_b]. \<forall>b \<in> set [copy_a, copy_b]. merge_key copy_hash a = merge_key copy_hash b \<longrightarrow>
      (\<forall>name rel. files_at a name rel = files_at b name rel) \<and>
      (\<forall>p. map_of (m_tombstones a) p = map_of (m_tombstones b) p)"
    by (simp add: merge_key_def copies_differ)
  from merge_manifests_order [OF copies_ok _ _ this, of "[copy_b, copy_a]"] show ?thesis by auto
qed

section \<open>The consumer gate, as a property\<close>

lemma gate_conflict_shaped: "\<not> gate_excluded g name rel \<Longrightarrow>
    u ''.git'' \<notin> set (split_on 47 rel) \<and> last (split_on 47 rel) \<noteq> MARKER_SKIP_NAME \<and>
    \<not> is_conflict_filename (last (split_on 47 rel)) \<and> [] \<notin> set (split_on 47 rel)"
proof -
  assume "\<not> gate_excluded g name rel"
  then have "\<not> conflict_shaped rel" by (auto simp: gate_excluded_def)
  moreover have "is_git_name (u ''.git'')" by (simp add: is_git_name_def u_def ascii_lower_def)
  ultimately show ?thesis by (auto simp: conflict_shaped_def Let_def list_ex_iff)
qed

text \<open>C8. The consumer gate removes exactly the paths it must: a file or a tombstone survives
  \<open>_filter_excluded_paths\<close> unchanged unless the device excludes its path, skips it, does not include
  it, or the path is one no device may sync. So whatever the configuration and whatever the peer
  published, no surviving path passes through a \<open>.git\<close> directory or an empty component, and none is
  a skip marker or a local conflict copy.\<close>

theorem filter_excluded_spec:
  assumes "wf_manifest m"
  shows "files_at (filter_excluded_paths g m) name rel =
      (if gate_excluded g name rel then None else files_at m name rel) \<and>
    map_of (m_tombstones (filter_excluded_paths g m)) key =
      (if gate_excluded g (fst (split_key key)) (snd (split_key key)) then None else map_of (m_tombstones m) key) \<and>
    (\<not> gate_excluded g name rel \<longrightarrow>
       u ''.git'' \<notin> set (split_on 47 rel) \<and> [] \<notin> set (split_on 47 rel) \<and>
       last (split_on 47 rel) \<noteq> MARKER_SKIP_NAME \<and> \<not> is_conflict_filename (last (split_on 47 rel)))"
  using gate_conflict_shaped filter_excluded_files [OF assms] filter_excluded_tombstones [OF assms] by blast

definition git_manifest :: manifest where
  "git_manifest = \<lparr>m_timestamp = u ''2026-01-02T03:04:05+00:00'', m_rest = [],
     m_sources = Some [(u ''claude'', \<lparr>sd_base_path = JStr (u ''~/.claude''),
       sd_files = [(u ''a.md'', copy_file ''1''), (u ''skills/.GIT/config'', copy_file ''2'')]\<rparr>)],
     m_tombstones = [(u ''claude:.git/HEAD'', [])]\<rparr>"

theorem filter_excluded_spec_witness:
  "files_at (filter_excluded_paths \<lparr>g_exclude = [], g_skip = [], g_include = []\<rparr> git_manifest)
     (u ''claude'') (u ''skills/.GIT/config'') = None \<and>
   files_at (filter_excluded_paths \<lparr>g_exclude = [], g_skip = [], g_include = []\<rparr> git_manifest)
     (u ''claude'') (u ''a.md'') = Some (copy_file ''1'') \<and>
   map_of (m_tombstones (filter_excluded_paths \<lparr>g_exclude = [], g_skip = [], g_include = []\<rparr> git_manifest))
     (u ''claude:.git/HEAD'') = None"
proof -
  let ?g = "\<lparr>g_exclude = [], g_skip = [], g_include = []\<rparr> :: gate"
  have wf: "wf_manifest git_manifest"
    by (simp add: git_manifest_def wf_manifest_def wf_sources_def sources_of_def)
  have g: "gate_excluded ?g (u ''claude'') (u ''skills/.GIT/config'')"
    "\<not> gate_excluded ?g (u ''claude'') (u ''a.md'')"
    "gate_excluded ?g (fst (split_key (u ''claude:.git/HEAD''))) (snd (split_key (u ''claude:.git/HEAD'')))"
    by code_simp+
  have "files_at git_manifest (u ''claude'') (u ''a.md'') = Some (copy_file ''1'')"
    by (simp add: git_manifest_def files_at_def files_in_def sources_of_def)
  with g filter_excluded_spec [OF wf, of ?g "u ''claude''" "u ''skills/.GIT/config''" "u ''claude:.git/HEAD''"]
    filter_excluded_spec [OF wf, of ?g "u ''claude''" "u ''a.md''" "u ''claude:.git/HEAD''"]
  show ?thesis by simp
qed

end
