(* ===== verification/Push.thy ===== *)
theory Push
  imports Filters
begin

text \<open>
  The part of \<open>cli._push_core\<close> that decides what a push deletes: the exclude, skip and include maps,
  the consumer filters on the prior manifest, freezing, holding, the proof that omitted paths are
  absent from the disk, and the tombstones. The disk is a probe \<open>tree name parts\<close>, the outcome of
  \<open>lstat\<close> on a path below the root of a source, and \<open>root_ok name\<close>, whether \<open>stat\<close> of the root
  succeeds. All refusals are \<open>SnapshotError\<close>; their messages are not modelled.
\<close>

section \<open>Probing a source tree\<close>

text \<open>\<open>FileNotFoundError\<close>, \<open>ENOTDIR\<close>, any other \<open>OSError\<close>, and the kinds of file.\<close>

datatype lstat_out = Missing | NotDir | StatError | Link | Reg | Dir | Other

type_synonym tree = "pystr list \<Rightarrow> lstat_out"

fun link_below :: "bool \<Rightarrow> tree \<Rightarrow> pystr list \<Rightarrow> pystr list \<Rightarrow> snapshot_error + bool" where
  "link_below strict tree upper [] = Inr False"
| "link_below strict tree upper (part # parts) =
     (case tree (upper @ [part]) of
        Missing \<Rightarrow> Inr False
      | NotDir \<Rightarrow> Inr False
      | StatError \<Rightarrow> (if strict then Inl SnapshotError else Inr True)
      | Link \<Rightarrow> Inr True
      | _ \<Rightarrow> link_below strict tree (upper @ [part]) parts)"

definition path_has_descendant_symlink :: "bool \<Rightarrow> tree \<Rightarrow> pystr \<Rightarrow> snapshot_error + bool" where
  "path_has_descendant_symlink strict tree rel = link_below strict tree [] (path_parts rel)"

section \<open>Sources and their maps\<close>

text \<open>A configured source; absent lists are empty, an absent path is the empty string.\<close>

record source_cfg =
  sc_name :: pystr
  sc_type :: pystr
  sc_path :: pystr
  sc_exclude :: "pystr list"
  sc_include :: "pystr list"

definition extra_patterns :: "source_cfg \<Rightarrow> pystr list" where
  "extra_patterns src =
     (if sc_type src = u ''muse'' then MUSE_EXCLUDE_PATTERNS @ sc_exclude src else sc_exclude src)"

definition put_patterns :: "pystr \<Rightarrow> pystr list \<Rightarrow> pattern_map \<Rightarrow> pattern_map" where
  "put_patterns name ps m = (if ps = [] then m else AList.update name ps m)"

text \<open>\<open>markers\<close> is \<open>marker_skip_globs\<close>, which may refuse; \<open>nested_roots\<close> are sorted lists.\<close>

fun build_exclude_map ::
  "(source_cfg \<Rightarrow> snapshot_error + pystr list) \<Rightarrow> path_sets \<Rightarrow> source_cfg list \<Rightarrow> pattern_map \<times> pattern_map \<Rightarrow>
     snapshot_error + pattern_map \<times> pattern_map" where
  "build_exclude_map markers nested_roots [] st = Inr st"
| "build_exclude_map markers nested_roots (src # srcs) st =
     (case markers src of
        Inl e \<Rightarrow> Inl e
      | Inr prefs \<Rightarrow>
          (case st of (out, prefixes) \<Rightarrow>
             build_exclude_map markers nested_roots srcs
               (put_patterns (sc_name src) (extra_patterns src) out,
                put_patterns (sc_name src) (prefs @ dget nested_roots (sc_name src) []) prefixes)))"

definition build_include_map :: "source_cfg list \<Rightarrow> pattern_map" where
  "build_include_map srcs =
     fold (\<lambda>src. if sc_type src \<noteq> u ''generic'' then id else put_patterns (sc_name src) (sc_include src)) srcs []"

text \<open>\<open>{source["name"]: source for source in sources if source.get("name")}.get(name)\<close>.\<close>

definition source_named :: "source_cfg list \<Rightarrow> pystr \<Rightarrow> source_cfg option" where
  "source_named srcs name =
     (case filter (\<lambda>s. sc_name s = name) srcs of [] \<Rightarrow> None | found \<Rightarrow> if name = [] then None else Some (last found))"

section \<open>The omission proof\<close>

fun check_each :: "('a \<Rightarrow> 'e + unit) \<Rightarrow> 'a list \<Rightarrow> 'e + unit" where
  "check_each f [] = Inr ()"
| "check_each f (x # xs) = (case f x of Inl e \<Rightarrow> Inl e | Inr _ \<Rightarrow> check_each f xs)"

definition prove_path_absent ::
  "(int \<Rightarrow> bool) \<Rightarrow> source_cfg \<Rightarrow> tree \<Rightarrow> pystr \<Rightarrow> snapshot_error + unit" where
  "prove_path_absent alpha src tree rel =
     (case validate_rel_path alpha rel of
        Inl _ \<Rightarrow> Inr ()
      | Inr _ \<Rightarrow>
          (if is_excluded (extra_patterns src) [] (sc_include src) rel then Inr ()
           else
             (case tree (path_parts rel) of
                StatError \<Rightarrow> Inl SnapshotError
              | Reg \<Rightarrow> Inl SnapshotError
              | _ \<Rightarrow> Inr ())))"

definition prove_source_absent ::
  "(int \<Rightarrow> bool) \<Rightarrow> source_cfg list \<Rightarrow> (pystr \<Rightarrow> bool) \<Rightarrow> (pystr \<Rightarrow> tree) \<Rightarrow> (pystr, source_data) dict \<Rightarrow>
     pystr \<times> source_data \<Rightarrow> snapshot_error + unit" where
  "prove_source_absent alpha srcs root_ok tree local_sources e =
     (case e of (name, remote_src) \<Rightarrow>
        (if sd_files remote_src = [] then Inr ()
         else
           (case source_named srcs name of
              None \<Rightarrow> Inr ()
            | Some src \<Rightarrow>
                (if sc_path src = [] then Inr ()
                 else if \<not> root_ok name then Inl SnapshotError
                 else
                   check_each (\<lambda>rel.
                       if map_of (files_in local_sources name) rel \<noteq> None then Inr ()
                       else prove_path_absent alpha src (tree name) rel)
                     (dkeys (sd_files remote_src))))))"

definition prove_omitted_paths_absent ::
  "(int \<Rightarrow> bool) \<Rightarrow> source_cfg list \<Rightarrow> (pystr \<Rightarrow> bool) \<Rightarrow> (pystr \<Rightarrow> tree) \<Rightarrow> manifest \<Rightarrow> manifest option \<Rightarrow>
     snapshot_error + unit" where
  "prove_omitted_paths_absent alpha srcs root_ok tree local_m prior =
     (case prior of
        None \<Rightarrow> Inr ()
      | Some p \<Rightarrow>
          check_each (prove_source_absent alpha srcs root_ok tree (sources_of local_m)) (sources_of p))"

section \<open>The snapshot\<close>

text \<open>The arguments of one push: the final sources and the names meant to sync, the sources the
  omission proof covers (a dry run leaves out roots it would create), the probes, the optional gate
  on recovered entries, and whether files may be held.\<close>

record push_env =
  pe_sources :: "source_cfg list"
  pe_proof :: "source_cfg list"
  pe_intended :: "pystr list"
  pe_gate :: gate
  pe_alpha :: "int \<Rightarrow> bool"
  pe_tree :: "pystr \<Rightarrow> tree"
  pe_root_ok :: "pystr \<Rightarrow> bool"
  pe_keep :: "(file_info \<Rightarrow> bool) option"

text \<open>The result of the scan: nested roots by source, held files with reasons and vanished
  candidates; \<open>None\<close> for both when the push recovers and may not hold.\<close>

record scan =
  s_manifest :: manifest
  s_nested :: path_sets
  s_held :: "(hold_map \<times> path_sets) option"

record snapshot =
  sn_local :: manifest
  sn_prior :: "manifest option"
  sn_frozen :: path_sets
  sn_held :: hold_map

definition vanished_probe :: "push_env \<Rightarrow> pystr \<Rightarrow> pystr \<Rightarrow> bool" where
  "vanished_probe env name rel \<longleftrightarrow> pe_tree env name (path_parts rel) \<in> {Missing, NotDir}"

definition hold_step ::
  "push_env \<Rightarrow> scan \<Rightarrow> manifest \<Rightarrow> manifest option \<Rightarrow> path_sets \<Rightarrow> snapshot_error + manifest \<times> hold_map" where
  "hold_step env sc local_m prior frozen =
     (case s_held sc of
        None \<Rightarrow> Inr (local_m, [])
      | Some (held, candidates) \<Rightarrow>
          inject_held_entries (pe_gate env) (vanished_probe env) local_m prior held candidates frozen)"

definition configured_roots :: "source_cfg list \<Rightarrow> pystr list" where
  "configured_roots srcs = map sc_name (filter (\<lambda>s. sc_name s \<noteq> [] \<and> sc_path s \<noteq> []) srcs)"

definition prior_step :: "push_env \<Rightarrow> scan \<Rightarrow> manifest \<Rightarrow> snapshot_error + snapshot" where
  "prior_step env sc prior =
     (let selected = filter_excluded_paths (pe_gate env) (filter_unselected_sources (pe_intended env) prior)
      in case freeze_nested_checkout_entries (pe_keep env) (s_manifest sc) selected (s_nested sc) of
           (local_m, frozen) \<Rightarrow>
             (case filter_symlinked_paths (pe_alpha env) (configured_roots (pe_sources env)) (s_nested sc)
                     (\<lambda>name. path_has_descendant_symlink True (pe_tree env name))
                     (drop_unfrozen_checkout_files selected (s_nested sc) frozen) of
                Inl e \<Rightarrow> Inl e
              | Inr remote \<Rightarrow>
                  (case hold_step env sc local_m (Some remote) frozen of
                     Inl e \<Rightarrow> Inl e
                   | Inr (local', held) \<Rightarrow>
                       (case prove_omitted_paths_absent (pe_alpha env) (pe_proof env) (pe_root_ok env)
                               (pe_tree env) local' (Some remote) of
                          Inl e \<Rightarrow> Inl e
                        | Inr _ \<Rightarrow> Inr \<lparr>sn_local = local', sn_prior = Some remote, sn_frozen = frozen,
                                       sn_held = held\<rparr>))))"

definition push_scan :: "push_env \<Rightarrow> scan \<Rightarrow> manifest option \<Rightarrow> snapshot_error + snapshot" where
  "push_scan env sc prior =
     (case prior of
        Some p \<Rightarrow> prior_step env sc p
      | None \<Rightarrow>
          (case hold_step env sc (s_manifest sc) None [] of
             Inl e \<Rightarrow> Inl e
           | Inr (local', held) \<Rightarrow>
               Inr \<lparr>sn_local = local', sn_prior = None, sn_frozen = [], sn_held = held\<rparr>))"

datatype push_error = RefusedSnapshot snapshot_error | RefusedManifest load_error

definition push_snapshot ::
  "(pystr \<Rightarrow> py_dt option) \<Rightarrow> int \<Rightarrow> pystr \<Rightarrow> pystr \<Rightarrow> push_env \<Rightarrow> scan \<Rightarrow> manifest option \<Rightarrow>
     push_error + snapshot" where
  "push_snapshot fromiso now now_iso device_id env sc prior =
     (case push_scan env sc prior of
        Inl e \<Rightarrow> Inl (RefusedSnapshot e)
      | Inr sn \<Rightarrow>
          (case generate_tombstones fromiso now now_iso (sn_local sn) (sn_prior sn) device_id of
             Inl e \<Rightarrow> Inl (RefusedManifest e)
           | Inr ts \<Rightarrow> Inr (sn\<lparr>sn_local := (sn_local sn)\<lparr>m_tombstones := ts\<rparr>\<rparr>)))"

section \<open>Laws\<close>

lemma check_each_Inr: "check_each f xs = Inr () \<longleftrightarrow> (\<forall>x \<in> set xs. f x = Inr ())"
  by (induction xs) (auto split: sum.splits)

lemma prove_omitted_spec:
  assumes "prove_omitted_paths_absent alpha srcs root_ok tree local_m (Some p) = Inr ()"
    and "files_at p name rel \<noteq> None" "files_at local_m name rel = None"
    and "source_named srcs name = Some src" "sc_path src \<noteq> []"
  shows "root_ok name \<and>
    (validate_rel_path alpha rel = Inr () \<longrightarrow>
     \<not> is_excluded (extra_patterns src) [] (sc_include src) rel \<longrightarrow>
     tree name (path_parts rel) \<notin> {StatError, Reg})"
proof -
  from assms(2) obtain sd where sd: "(name, sd) \<in> set (sources_of p)" "rel \<in> set (dkeys (sd_files sd))"
    using files_at_listed by fastforce
  have "prove_source_absent alpha srcs root_ok tree (sources_of local_m) (name, sd) = Inr ()"
    using assms(1) sd(1) by (auto simp: prove_omitted_paths_absent_def check_each_Inr)
  moreover have "sd_files sd \<noteq> []" using sd(2) by auto
  ultimately have ok: "root_ok name" and
    "check_each (\<lambda>rel. if map_of (files_in (sources_of local_m) name) rel \<noteq> None then Inr ()
       else prove_path_absent alpha src (tree name) rel) (dkeys (sd_files sd)) = Inr ()"
    using assms(4,5) by (simp_all add: prove_source_absent_def split: if_splits)
  note all = this(2) [unfolded check_each_Inr]
  from bspec [OF all sd(2)] assms(3) have "prove_path_absent alpha src (tree name) rel = Inr ()"
    by (simp add: files_at_def)
  with ok show ?thesis
    by (auto simp: prove_path_absent_def split: sum.splits if_splits lstat_out.splits)
qed

lemma filter_symlinked_tombs:
  assumes "filter_symlinked_paths alpha roots exempt probe m = Inr m'" "wf_manifest m"
    and "map_of (m_tombstones m') k = Some t"
  shows "map_of (m_tombstones m) k = Some t"
proof (cases "roots = []")
  case True
  with assms show ?thesis by (simp add: filter_symlinked_paths_def)
next
  case False
  with assms(1) have t: "filter_by (\<lambda>key. if 58 \<in> set key
        then symlinked alpha roots exempt probe (fst (split_key key)) (snd (split_key key))
        else Inr False) (m_tombstones m) = Inr (m_tombstones m')"
    by (auto simp: filter_symlinked_paths_def split: sum.splits)
  have "distinct_keys (m_tombstones m)" using assms(2) by (simp add: wf_manifest_def)
  from filter_by_map_of(1) [OF t this, of k] assms(3) show ?thesis
    by (auto split: if_splits)
qed

lemma filter_symlinked_m_sources:
  assumes "filter_symlinked_paths alpha roots exempt probe m = Inr m'" "m_sources m \<noteq> None"
  shows "m_sources m' \<noteq> None"
  using assms by (auto simp: filter_symlinked_paths_def split: if_splits sum.splits)

text \<open>The state of a successful push with a prior manifest, step by step.\<close>

lemma hold_step_result:
  assumes "hold_step env sc l1 prior fr = Inr (l2, held)"
  shows "files_at l2 name rel =
      (case files_at l1 name rel of
         Some i \<Rightarrow> Some i
       | None \<Rightarrow> if is_held held name rel then map_of (files_in (prior_sources prior) name) rel else None)"
    and "is_held held name rel \<Longrightarrow> files_at l1 name rel = None \<and>
      \<not> hold_pruned (pe_gate env) (prior_tombstones prior) fr name rel"
    and "wf_manifest l1 \<Longrightarrow> wf_manifest l2" and "m_tombstones l2 = m_tombstones l1"
proof -
  have none: "\<not> is_held [] name rel" by (simp add: is_held_def dget_def)
  have "files_at l2 name rel =
      (case files_at l1 name rel of
         Some i \<Rightarrow> Some i
       | None \<Rightarrow> if is_held held name rel then map_of (files_in (prior_sources prior) name) rel else None) \<and>
    (is_held held name rel \<longrightarrow> files_at l1 name rel = None \<and>
      \<not> hold_pruned (pe_gate env) (prior_tombstones prior) fr name rel) \<and>
    (wf_manifest l1 \<longrightarrow> wf_manifest l2) \<and> m_tombstones l2 = m_tombstones l1"
  proof (cases "s_held sc")
    case None
    with assms have "l2 = l1" "held = []" by (simp_all add: hold_step_def)
    with none show ?thesis by (auto split: option.split)
  next
    case (Some hc)
    obtain h c where hc: "hc = (h, c)" by (cases hc)
    from assms Some hc have i: "inject_held_entries (pe_gate env) (vanished_probe env) l1 prior h c fr = Inr (l2, held)"
      by (simp add: hold_step_def)
    from inject_held(1) [OF i, of name rel] inject_held(2,3) [OF i] show ?thesis
      by (simp add: hold_result_def)
  qed
  then show "files_at l2 name rel =
      (case files_at l1 name rel of
         Some i \<Rightarrow> Some i
       | None \<Rightarrow> if is_held held name rel then map_of (files_in (prior_sources prior) name) rel else None)"
    "is_held held name rel \<Longrightarrow> files_at l1 name rel = None \<and>
      \<not> hold_pruned (pe_gate env) (prior_tombstones prior) fr name rel"
    "wf_manifest l1 \<Longrightarrow> wf_manifest l2" "m_tombstones l2 = m_tombstones l1" by blast+
qed

text \<open>What survives the filters on the prior manifest.\<close>

definition survives :: "push_env \<Rightarrow> scan \<Rightarrow> path_sets \<Rightarrow> pystr \<Rightarrow> pystr \<Rightarrow> bool" where
  "survives env sc frozen name rel \<longleftrightarrow>
     name \<in> set (pe_intended env) \<and> name \<notin> set RETIRED_SOURCE_NAMES \<and> \<not> gate_excluded (pe_gate env) name rel \<and>
     (under_skip_prefix rel (dget (s_nested sc) name []) \<longrightarrow> rel \<in> set (dget frozen name [])) \<and>
     symlinked (pe_alpha env) (configured_roots (pe_sources env)) (s_nested sc)
       (\<lambda>name. path_has_descendant_symlink True (pe_tree env name)) name rel \<noteq> Inr True"

text \<open>The state of a scan that went through, against the filtered prior manifest.\<close>

definition built :: "push_env \<Rightarrow> scan \<Rightarrow> manifest \<Rightarrow> snapshot \<Rightarrow> manifest \<Rightarrow> bool" where
  "built env sc prior sn0 remote \<longleftrightarrow>
    sn_prior sn0 = Some remote \<and> wf_manifest remote \<and> wf_manifest (sn_local sn0) \<and>
    (\<forall>name rel. files_at remote name rel =
       (if survives env sc (sn_frozen sn0) name rel then files_at prior name rel else None)) \<and>
    (\<forall>k t. map_of (m_tombstones remote) k = Some t \<longrightarrow> map_of (m_tombstones prior) k = Some t) \<and>
    (\<forall>name rel. files_at (sn_local sn0) name rel =
       (case files_at (s_manifest sc) name rel of
          Some i \<Rightarrow> Some i
        | None \<Rightarrow> if rel \<in> set (dget (sn_frozen sn0) name []) then files_at prior name rel
                 else if is_held (sn_held sn0) name rel then files_at remote name rel else None)) \<and>
    (\<forall>name rel. rel \<in> set (dget (sn_frozen sn0) name []) \<longrightarrow>
       files_at prior name rel \<noteq> None \<and> under_skip_prefix rel (dget (s_nested sc) name []) \<and>
       files_at (s_manifest sc) name rel = None) \<and>
    prove_omitted_paths_absent (pe_alpha env) (pe_proof env) (pe_root_ok env) (pe_tree env)
       (sn_local sn0) (Some remote) = Inr ()"

lemma builtD:
  assumes "built env sc prior sn0 remote"
  shows "sn_prior sn0 = Some remote" "wf_manifest remote" "wf_manifest (sn_local sn0)"
    "\<And>name rel. files_at remote name rel =
       (if survives env sc (sn_frozen sn0) name rel then files_at prior name rel else None)"
    "\<And>k t. map_of (m_tombstones remote) k = Some t \<Longrightarrow> map_of (m_tombstones prior) k = Some t"
    "\<And>name rel. files_at (sn_local sn0) name rel =
       (case files_at (s_manifest sc) name rel of
          Some i \<Rightarrow> Some i
        | None \<Rightarrow> if rel \<in> set (dget (sn_frozen sn0) name []) then files_at prior name rel
                 else if is_held (sn_held sn0) name rel then files_at remote name rel else None)"
    "\<And>name rel. rel \<in> set (dget (sn_frozen sn0) name []) \<Longrightarrow>
       files_at prior name rel \<noteq> None \<and> under_skip_prefix rel (dget (s_nested sc) name []) \<and>
       files_at (s_manifest sc) name rel = None"
    "prove_omitted_paths_absent (pe_alpha env) (pe_proof env) (pe_root_ok env) (pe_tree env)
       (sn_local sn0) (Some remote) = Inr ()"
  using assms unfolding built_def by blast+

lemma prior_step_built:
  assumes "prior_step env sc prior = Inr sn" "wf_manifest prior" "wf_manifest (s_manifest sc)"
    "distinct_keys (s_nested sc)"
  shows "\<exists>remote. built env sc prior sn remote"
proof -
  define p1 where "p1 = filter_unselected_sources (pe_intended env) prior"
  define p2 where "p2 = filter_excluded_paths (pe_gate env) p1"
  obtain l1 fr where fz: "freeze_nested_checkout_entries (pe_keep env) (s_manifest sc) p2 (s_nested sc) = (l1, fr)"
    by fastforce
  define p3 where "p3 = drop_unfrozen_checkout_files p2 (s_nested sc) fr"
  from assms(1) fz obtain remote l2 held where
    sy: "filter_symlinked_paths (pe_alpha env) (configured_roots (pe_sources env)) (s_nested sc)
           (\<lambda>name. path_has_descendant_symlink True (pe_tree env name)) p3 = Inr remote" and
    ho: "hold_step env sc l1 (Some remote) fr = Inr (l2, held)" and
    pr: "prove_omitted_paths_absent (pe_alpha env) (pe_proof env) (pe_root_ok env) (pe_tree env) l2 (Some remote) = Inr ()" and
    sn: "sn = \<lparr>sn_local = l2, sn_prior = Some remote, sn_frozen = fr, sn_held = held\<rparr>"
    unfolding p3_def p2_def p1_def by (auto simp: prior_step_def Let_def split: sum.splits prod.splits)
  have w1: "wf_manifest p1" unfolding p1_def by (rule filter_source_wf [OF assms(2)])
  have w2: "wf_manifest p2" unfolding p2_def by (rule filter_excluded_wf [OF w1])
  have w3: "wf_manifest p3" unfolding p3_def by (rule drop_unfrozen_wf [OF w2])
  have wl: "wf_manifest l1" by (rule freeze_nested(2) [OF fz assms(3) w2 assms(4)])
  note fr = freeze_nested(1) [OF fz assms(3) w2 assms(4), unfolded frozen_result_def]
  have f2: "files_at p2 name rel = (if name \<in> set (pe_intended env) \<and> name \<notin> set RETIRED_SOURCE_NAMES \<and>
      \<not> gate_excluded (pe_gate env) name rel then files_at prior name rel else None)" for name rel
    unfolding p2_def p1_def
    by (simp add: filter_excluded_files [OF filter_source_wf(1) [OF assms(2)]] filter_unselected_files [OF assms(2)])
  have f4: "files_at remote name rel = (if survives env sc fr name rel then files_at prior name rel else None)" for name rel
    unfolding filter_symlinked(1) [OF sy w3] unfolding p3_def drop_unfrozen_files [OF w2 assms(4)] f2 survives_def
    by auto
  have frz: "rel \<in> set (dget fr name []) \<Longrightarrow> files_at p2 name rel \<noteq> None \<and>
      under_skip_prefix rel (dget (s_nested sc) name []) \<and> files_at (s_manifest sc) name rel = None" for name rel
    using fr [where name=name and rel=rel] by (auto simp: freezes_def)
  have p2prior: "files_at p2 name rel \<noteq> None \<Longrightarrow> files_at p2 name rel = files_at prior name rel" for name rel
    by (simp add: f2 split: if_splits)
  have loc: "files_at l2 name rel =
       (case files_at (s_manifest sc) name rel of
          Some i \<Rightarrow> Some i
        | None \<Rightarrow> if rel \<in> set (dget fr name []) then files_at prior name rel
                 else if is_held held name rel then files_at remote name rel else None)" for name rel
  proof -
    have "files_at l1 name rel = (case files_at (s_manifest sc) name rel of Some i \<Rightarrow> Some i
        | None \<Rightarrow> if rel \<in> set (dget fr name []) then files_at p2 name rel else None)"
      using fr [where name=name and rel=rel] by blast
    moreover have "rel \<in> set (dget fr name []) \<Longrightarrow> files_at p2 name rel \<noteq> None \<and> files_at p2 name rel = files_at prior name rel"
      using frz p2prior by blast
    moreover have "map_of (files_in (prior_sources (Some remote)) name) rel = files_at remote name rel"
      by (simp add: prior_sources_def files_at_def)
    ultimately show ?thesis
      using hold_step_result(1) [OF ho, of name rel]
      by (cases "files_at (s_manifest sc) name rel"; cases "rel \<in> set (dget fr name [])") auto
  qed
  have tombs: "map_of (m_tombstones prior) k = Some t" if "map_of (m_tombstones remote) k = Some t" for k t
  proof -
    have "map_of (m_tombstones p3) k = Some t" by (rule filter_symlinked_tombs [OF sy w3 that])
    then have "map_of (m_tombstones (filter_excluded_paths (pe_gate env) p1)) k = Some t" by (simp add: p3_def p2_def)
    then have "map_of (m_tombstones p1) k = Some t"
      unfolding filter_excluded_tombstones [OF w1] by (auto split: if_splits)
    then show ?thesis by (simp add: p1_def)
  qed
  have frozen: "rel \<in> set (dget fr name []) \<Longrightarrow> files_at prior name rel \<noteq> None \<and>
      under_skip_prefix rel (dget (s_nested sc) name []) \<and> files_at (s_manifest sc) name rel = None" for name rel
    using frz [of rel name] p2prior [of name rel] by simp
  have "built env sc prior sn remote"
    unfolding built_def sn
    using f4 tombs loc frozen pr filter_symlinked(2) [OF sy w3] hold_step_result(3) [OF ho wl]
    by simp
  then show ?thesis ..
qed

lemma push_snapshot_built:
  assumes "push_snapshot fromiso now now_iso device_id env sc (Some prior) = Inr sn"
    and "wf_manifest prior" "wf_manifest (s_manifest sc)" "distinct_keys (s_nested sc)"
  shows "\<exists>sn0 ts remote. built env sc prior sn0 remote \<and>
    generate_tombstones fromiso now now_iso (sn_local sn0) (sn_prior sn0) device_id = Inr ts \<and>
    sn = sn0\<lparr>sn_local := (sn_local sn0)\<lparr>m_tombstones := ts\<rparr>\<rparr>"
proof -
  from assms(1) obtain sn0 ts where ps: "prior_step env sc prior = Inr sn0"
    and "generate_tombstones fromiso now now_iso (sn_local sn0) (sn_prior sn0) device_id = Inr ts"
    and "sn = sn0\<lparr>sn_local := (sn_local sn0)\<lparr>m_tombstones := ts\<rparr>\<rparr>"
    by (auto simp: push_snapshot_def push_scan_def split: sum.splits)
  with prior_step_built [OF ps assms(2-4)] show ?thesis by blast
qed

section \<open>Properties\<close>

text \<open>Why a path may be buried: it was published by a source that is still meant to sync, and the
  push neither scanned it nor carries it; nothing local hides it, and the disk below the configured
  root was seen not to have it.\<close>

definition justified_deletion :: "push_env \<Rightarrow> scan \<Rightarrow> manifest \<Rightarrow> hold_map \<Rightarrow> pystr \<Rightarrow> pystr \<Rightarrow> bool" where
  "justified_deletion env sc prior held name rel \<longleftrightarrow>
     files_at prior name rel \<noteq> None \<and> files_at (s_manifest sc) name rel = None \<and>
     name \<in> set (pe_intended env) \<and> name \<notin> set RETIRED_SOURCE_NAMES \<and>
     \<not> gate_excluded (pe_gate env) name rel \<and>
     \<not> under_skip_prefix rel (dget (s_nested sc) name []) \<and>
     symlinked (pe_alpha env) (configured_roots (pe_sources env)) (s_nested sc)
       (\<lambda>name. path_has_descendant_symlink True (pe_tree env name)) name rel \<noteq> Inr True \<and>
     \<not> is_held held name rel \<and>
     (\<forall>src. source_named (pe_proof env) name = Some src \<and> sc_path src \<noteq> [] \<longrightarrow>
        pe_root_ok env name \<and>
        (validate_rel_path (pe_alpha env) rel = Inr () \<and>
         \<not> is_excluded (extra_patterns src) [] (sc_include src) rel \<longrightarrow>
         pe_tree env name (path_parts rel) \<notin> {StatError, Reg}))"


text \<open>A push of one source that published two files and lost one of them.\<close>

definition demo_cfg :: source_cfg where
  "demo_cfg = \<lparr>sc_name = u ''claude'', sc_type = u ''claude'', sc_path = u ''/home/.claude'',
     sc_exclude = [], sc_include = []\<rparr>"

definition demo_env :: push_env where
  "demo_env = \<lparr>pe_sources = [demo_cfg], pe_proof = [demo_cfg], pe_intended = [u ''claude''],
     pe_gate = \<lparr>g_exclude = [], g_skip = [], g_include = []\<rparr>, pe_alpha = (\<lambda>_. False),
     pe_tree = (\<lambda>_ _. Missing), pe_root_ok = (\<lambda>_. True), pe_keep = None\<rparr>"

definition demo_published :: manifest where
  "demo_published = \<lparr>m_timestamp = u ''2026-01-02T03:04:05+00:00'', m_rest = [],
     m_sources = Some [(u ''claude'', \<lparr>sd_base_path = JStr (u ''/home/.claude''),
       sd_files = [(u ''a.md'', copy_file ''1''), (u ''b.md'', copy_file ''2'')]\<rparr>)],
     m_tombstones = []\<rparr>"

definition demo_scan :: scan where
  "demo_scan = \<lparr>s_manifest = demo_published\<lparr>m_sources := Some [(u ''claude'',
       \<lparr>sd_base_path = JStr (u ''/home/.claude''), sd_files = [(u ''a.md'', copy_file ''1'')]\<rparr>)]\<rparr>,
     s_nested = [], s_held = Some ([], [])\<rparr>"

lemma demo_push:
  obtains sn where
    "push_snapshot parse_iso 0 (u ''now'') (u ''d'') demo_env demo_scan (Some demo_published) = Inr sn"
    "map_of (m_tombstones (sn_local sn)) (u ''claude:b.md'') = Some (new_tombstone (u ''now'') (u ''d''))"
    "dkeys (sources_of (sn_local sn)) = [u ''claude'']" "sn_held sn = []"
proof -
  have "case push_snapshot parse_iso 0 (u ''now'') (u ''d'') demo_env demo_scan (Some demo_published) of
      Inl _ \<Rightarrow> False
    | Inr sn \<Rightarrow> map_of (m_tombstones (sn_local sn)) (u ''claude:b.md'') = Some (new_tombstone (u ''now'') (u ''d'')) \<and>
        dkeys (sources_of (sn_local sn)) = [u ''claude''] \<and> sn_held sn = []"
    by code_simp
  then show ?thesis by (auto intro: that split: sum.splits)
qed

lemma demo_wf: "wf_manifest demo_published" "wf_manifest (s_manifest demo_scan)" "distinct_keys (s_nested demo_scan)"
  by (simp_all add: demo_published_def demo_scan_def wf_manifest_def wf_sources_def sources_of_def)


text \<open>A real deletion is published: when the push goes through, every path with a justified
  deletion has a tombstone in the snapshot -- the one it already had if that is still active, a
  new one otherwise -- provided source names contain no colon.\<close>

theorem push_publishes_deletions:
  assumes "push_snapshot fromiso now now_iso device_id env sc (Some prior) = Inr sn"
    and "wf_manifest prior" "wf_manifest (s_manifest sc)" "distinct_keys (s_nested sc)"
    and "justified_deletion env sc prior (sn_held sn) name rel"
    and "58 \<notin> set name" "\<forall>n \<in> set (dkeys (sources_of (sn_local sn))). 58 \<notin> set n"
  shows "map_of (m_tombstones (sn_local sn)) (tomb_key name rel) \<noteq> None"
proof -
  from push_snapshot_built [OF assms(1-4)] obtain sn0 ts remote where
    b: "built env sc prior sn0 remote" and
    g: "generate_tombstones fromiso now now_iso (sn_local sn0) (sn_prior sn0) device_id = Inr ts" and
    sn: "sn = sn0\<lparr>sn_local := (sn_local sn0)\<lparr>m_tombstones := ts\<rparr>\<rparr>" by blast
  note r = builtD [OF b]
  note jd = assms(5) [unfolded justified_deletion_def]
  have nf: "rel \<notin> set (dget (sn_frozen sn0) name [])" using r(7) jd by blast
  have pr: "files_at remote name rel \<noteq> None" using r(4) jd nf by (auto simp: survives_def)
  have lo: "files_at (sn_local sn0) name rel = None" using r(6) jd nf by (simp add: sn)
  have live: "tomb_key name rel \<notin> set (listed_keys (sources_of (sn_local sn0)))"
  proof
    assume "tomb_key name rel \<in> set (listed_keys (sources_of (sn_local sn0)))"
    then obtain n p where np: "tomb_key name rel = tomb_key n p" "map_of (files_in (sources_of (sn_local sn0)) n) p \<noteq> None"
      using r(3) by (auto simp: wf_manifest_def set_listed_keys_files_in)
    then have "n \<in> set (dkeys (sources_of (sn_local sn0)))" by (auto simp: files_in_def split: option.splits)
    with assms(7) have "58 \<notin> set n" by (simp add: sn sources_of_def)
    with np(1) assms(6) have "n = name" "p = rel" using split_tomb_key(2) by (metis prod.inject)+
    with np(2) lo show False by (simp add: files_at_def)
  qed
  have "tomb_key name rel \<in> vanished_keys (sources_of (sn_local sn0)) (sources_of remote)"
    using pr lo by (auto simp: vanished_keys_def files_at_def)
  with generate_tombstones_map_of [OF g [unfolded r(1)] r(2,3), of "tomb_key name rel"] live
  show ?thesis by (auto simp: sn split: option.split)
qed


theorem push_publishes_deletions_witness:
  "\<exists>sn. push_snapshot parse_iso 0 (u ''now'') (u ''d'') demo_env demo_scan (Some demo_published) = Inr sn \<and>
     map_of (m_tombstones (sn_local sn)) (tomb_key (u ''claude'') (u ''b.md'')) \<noteq> None"
proof -
  obtain sn where sn:
    "push_snapshot parse_iso 0 (u ''now'') (u ''d'') demo_env demo_scan (Some demo_published) = Inr sn"
    "map_of (m_tombstones (sn_local sn)) (u ''claude:b.md'') = Some (new_tombstone (u ''now'') (u ''d''))"
    "dkeys (sources_of (sn_local sn)) = [u ''claude'']" "sn_held sn = []" by (rule demo_push)
  have f: "files_at demo_published (u ''claude'') (u ''b.md'') \<noteq> None"
    "files_at (s_manifest demo_scan) (u ''claude'') (u ''b.md'') = None"
    by (simp_all add: demo_published_def demo_scan_def files_at_def files_in_def sources_of_def)
  have g: "\<not> gate_excluded (pe_gate demo_env) (u ''claude'') (u ''b.md'')" by code_simp
  have r: "u ''claude'' \<in> set (pe_intended demo_env)" "u ''claude'' \<notin> set RETIRED_SOURCE_NAMES"
    "\<not> under_skip_prefix (u ''b.md'') (dget (s_nested demo_scan) (u ''claude'') [])" by code_simp+
  have y: "symlinked (pe_alpha demo_env) (configured_roots (pe_sources demo_env)) (s_nested demo_scan)
      (\<lambda>name. path_has_descendant_symlink True (pe_tree demo_env name)) (u ''claude'') (u ''b.md'') \<noteq> Inr True"
    by code_simp
  have c: "58 \<notin> set (u ''claude'')" by code_simp
  have "justified_deletion demo_env demo_scan demo_published (sn_held sn) (u ''claude'') (u ''b.md'')"
    unfolding justified_deletion_def sn(4)
    using f g r y by (auto simp: is_held_def dget_def demo_env_def)
  from push_publishes_deletions [OF sn(1) demo_wf this c] sn(1,3) c show ?thesis
    by (metis list.set_cases list.set_intros(1) set_ConsD empty_iff list.set(1))
qed

end
