(* ===== verification/Storage.thy ===== *)
theory Storage
  imports Keys
begin

text \<open>
  \<open>storage/local.py\<close>: the folder of encrypted blobs that a sync tool carries between devices. The
  folder is a tree of named nodes; a key is a path below its root. \<open>put\<close>, \<open>put_exclusive\<close>, \<open>get\<close> with
  its bounded retries, \<open>exists\<close>, \<open>delete\<close> and \<open>list_keys\<close> are modelled on that tree; the interface
  the rest of the program relies on is the locale \<open>blob_store\<close>, which the tree operations satisfy.
\<close>

section \<open>The folder\<close>

datatype dnode = File bytes | Folder "(pystr \<times> dnode) list"

text \<open>\<open>NotFound vanished\<close> is \<open>StorageNotFound\<close>; every other \<open>OSError\<close> becomes \<open>StorageError\<close>.\<close>

datatype storage_error = NotFound bool | StorageError | OSRefused

fun node_at :: "dnode \<Rightarrow> pystr list \<Rightarrow> dnode option" where
  "node_at n [] = Some n"
| "node_at (File d) (p # ps) = None"
| "node_at (Folder es) (p # ps) = (case map_of es p of None \<Rightarrow> None | Some n \<Rightarrow> node_at n ps)"

definition file_at :: "dnode \<Rightarrow> pystr list \<Rightarrow> bytes option" where
  "file_at t ps = (case node_at t ps of Some (File d) \<Rightarrow> Some d | _ \<Rightarrow> None)"

text \<open>\<open>path.parent.mkdir(parents=True)\<close> and the atomic replacement of \<open>path\<close>; \<open>None\<close> is the
  \<open>OSError\<close> of a file in the way or a folder at the target.\<close>

fun put_node :: "dnode \<Rightarrow> pystr list \<Rightarrow> bytes \<Rightarrow> dnode option" where
  "put_node (File _) [] d = Some (File d)"
| "put_node (Folder _) [] d = None"
| "put_node (File _) (p # ps) d = None"
| "put_node (Folder es) (p # ps) d =
     (case map_of es p of
        Some n \<Rightarrow> map_option (\<lambda>n'. Folder (AList.update p n' es)) (put_node n ps d)
      | None \<Rightarrow>
          (if ps = [] then Some (Folder (AList.update p (File d) es))
           else map_option (\<lambda>n'. Folder (AList.update p n' es)) (put_node (Folder []) ps d)))"

fun remove_node :: "dnode \<Rightarrow> pystr list \<Rightarrow> dnode" where
  "remove_node (Folder es) (p # ps) =
     (if ps = [] then Folder (AList.delete p es)
      else (case map_of es p of
              None \<Rightarrow> Folder es
            | Some n \<Rightarrow> Folder (AList.update p (remove_node n ps) es)))"
| "remove_node n ps = n"

section \<open>Operations\<close>

definition backend_put :: "dnode \<Rightarrow> pystr \<Rightarrow> bytes \<Rightarrow> storage_error + dnode" where
  "backend_put root key data =
     (case put_node root (path_parts key) data of None \<Rightarrow> Inl OSRefused | Some root' \<Rightarrow> Inr root')"

text \<open>\<open>os.link\<close> fails with \<open>EEXIST\<close> when anything is at the target.\<close>

definition put_exclusive :: "dnode \<Rightarrow> pystr \<Rightarrow> bytes \<Rightarrow> storage_error + dnode" where
  "put_exclusive root key data =
     (case node_at root (path_parts key) of
        Some _ \<Rightarrow> Inl StorageError
      | None \<Rightarrow> backend_put root key data)"

definition backend_exists :: "dnode \<Rightarrow> pystr \<Rightarrow> bool" where
  "backend_exists root key \<longleftrightarrow> node_at root (path_parts key) \<noteq> None"

definition backend_delete :: "dnode \<Rightarrow> pystr \<Rightarrow> storage_error + dnode" where
  "backend_delete root key =
     (case node_at root (path_parts key) of
        None \<Rightarrow> Inr root
      | Some (Folder _) \<Rightarrow> Inl StorageError
      | Some (File _) \<Rightarrow> Inr (remove_node root (path_parts key)))"

text \<open>\<open>path.read_bytes()\<close>: a missing component is \<open>FileNotFoundError\<close>, a file used as a folder or a
  folder at the path any other \<open>OSError\<close>.\<close>

datatype read_out = Bytes bytes | ReadMissing | ReadError

fun read_node :: "dnode \<Rightarrow> pystr list \<Rightarrow> read_out" where
  "read_node (File d) [] = Bytes d"
| "read_node (Folder es) [] = ReadError"
| "read_node (File d) (p # ps) = ReadError"
| "read_node (Folder es) (p # ps) = (case map_of es p of None \<Rightarrow> ReadMissing | Some n \<Rightarrow> read_node n ps)"

text \<open>The retry schedule and the budget, in milliseconds. \<open>attempt n\<close> is the outcome of the read
  number \<open>n\<close>: the sync tool may change the folder between two attempts.\<close>

definition VANISH_RETRY_DELAYS :: "int list" where
  "VANISH_RETRY_DELAYS = [50, 100, 200]"

definition VANISH_BUDGET :: int where
  "VANISH_BUDGET = 2000"

fun get_loop :: "(nat \<Rightarrow> read_out) \<Rightarrow> bool \<Rightarrow> nat \<Rightarrow> int list \<Rightarrow> int \<Rightarrow> (storage_error + bytes) \<times> int" where
  "get_loop attempt expected n delays budget =
     (case attempt n of
        Bytes d \<Rightarrow> (Inr d, budget)
      | ReadError \<Rightarrow> (Inl StorageError, budget)
      | ReadMissing \<Rightarrow>
          (case delays of
             [] \<Rightarrow> (Inl (NotFound expected), budget)
           | delay # delays' \<Rightarrow>
               (if delay > budget then (Inl (NotFound expected), budget)
                else get_loop attempt expected (Suc n) delays' (budget - delay))))"

definition backend_get ::
  "(nat \<Rightarrow> dnode) \<Rightarrow> pystr \<Rightarrow> bool \<Rightarrow> int \<Rightarrow> (storage_error + bytes) \<times> int" where
  "backend_get roots key expected budget =
     get_loop (\<lambda>n. read_node (roots n) (path_parts key)) expected 0
       (if expected then VANISH_RETRY_DELAYS else []) budget"

section \<open>Listing\<close>

definition FOREIGN_PREFIXES :: "pystr list" where
  "FOREIGN_PREFIXES = [u ''.'', u ''~syncthing~'']"

definition is_foreign_name :: "pystr \<Rightarrow> bool" where
  "is_foreign_name name \<longleftrightarrow> list_ex (startswith name) FOREIGN_PREFIXES"

definition is_foreign_key :: "pystr \<Rightarrow> bool" where
  "is_foreign_key key \<longleftrightarrow> list_ex (\<lambda>part. part \<noteq> [] \<and> is_foreign_name part) (split_on 47 key)"

text \<open>The walk below a folder: the paths it reports, before the prefix test. The stack of the source
  visits the same folders; the result is sorted.\<close>

fun walk :: "bool \<Rightarrow> pystr list \<Rightarrow> bool \<Rightarrow> dnode \<Rightarrow> pystr list list" where
  "walk foreign path inside (File d) = []"
| "walk foreign path inside (Folder es) =
     concat (map (\<lambda>(name, child).
       (case child of
          Folder _ \<Rightarrow>
            (if foreign \<or> \<not> (inside \<or> is_foreign_name name)
             then walk foreign (path @ [name]) (inside \<or> is_foreign_name name) child else [])
        | File _ \<Rightarrow> (if (inside \<or> is_foreign_name name) = foreign then [path @ [name]] else []))) es)"

definition walk_base :: "dnode \<Rightarrow> pystr \<Rightarrow> pystr list option" where
  "walk_base root prefix =
     (case node_at root (path_parts prefix) of
        None \<Rightarrow> None
      | Some (Folder _) \<Rightarrow> Some (path_parts prefix)
      | Some (File _) \<Rightarrow> Some (butlast (path_parts prefix)))"

definition walk_keys :: "bool \<Rightarrow> dnode \<Rightarrow> pystr \<Rightarrow> pystr list" where
  "walk_keys foreign root prefix =
     (case walk_base root prefix of
        None \<Rightarrow> []
      | Some base \<Rightarrow>
          (case node_at root base of
             None \<Rightarrow> []
           | Some dir \<Rightarrow> filter (\<lambda>k. startswith k prefix) (map (join_with [47]) (walk foreign base False dir))))"

definition list_keys :: "dnode \<Rightarrow> pystr \<Rightarrow> pystr list" where
  "list_keys root prefix = sort (walk_keys False root prefix)"

definition list_foreign_keys :: "dnode \<Rightarrow> pystr \<Rightarrow> pystr list" where
  "list_foreign_keys root prefix = sort (walk_keys True root prefix)"


section \<open>Laws of the tree\<close>

text \<open>What a folder on a disk satisfies: one node per name, and names that are single components.\<close>

definition plain_name :: "pystr \<Rightarrow> bool" where
  "plain_name p \<longleftrightarrow> p \<noteq> [] \<and> p \<noteq> u ''.'' \<and> p \<noteq> u ''..'' \<and> 47 \<notin> set p"

fun wf_node :: "dnode \<Rightarrow> bool" where
  "wf_node (File d) \<longleftrightarrow> True"
| "wf_node (Folder es) \<longleftrightarrow> distinct_keys es \<and> (\<forall>e \<in> set es. plain_name (fst e) \<and> wf_node (snd e))"

lemma file_at_simps [simp]:
  "file_at (File d) [] = Some d" "file_at (Folder es) [] = None" "file_at (File d) (p # ps) = None"
  "file_at (Folder es) (p # ps) = (case map_of es p of None \<Rightarrow> None | Some n \<Rightarrow> file_at n ps)"
  by (simp_all add: file_at_def split: option.split)

lemma file_at_File [simp]: "file_at (File d) ps = (if ps = [] then Some d else None)"
  by (cases ps) simp_all

lemma put_node_file_at:
  "put_node t ps d = Some t' \<Longrightarrow> file_at t' qs = (if qs = ps then Some d else file_at t qs)"
proof (induction t ps d arbitrary: t' qs rule: put_node.induct)
  case (1 e d)
  then show ?case by (cases qs) auto
next
  case (4 es p ps d)
  show ?case
  proof (cases qs)
    case Nil
    with "4.prems" show ?thesis by (auto split: option.splits if_splits)
  next
    case (Cons q qs')
    show ?thesis
    proof (cases "map_of es p")
      case (Some n)
      with "4.prems" obtain n' where "put_node n ps d = Some n'" "t' = Folder (AList.update p n' es)" by auto
      with "4.IH"(2) [OF Some, of n' qs'] Some Cons show ?thesis by auto
    next
      case None
      show ?thesis
      proof (cases "ps = []")
        case True
        with "4.prems" None Cons show ?thesis by (cases qs') auto
      next
        case False
        with "4.prems" None obtain n' where "put_node (Folder []) ps d = Some n'" "t' = Folder (AList.update p n' es)"
          by auto
        moreover from "4.IH"(1) [OF None False this(1), of qs']
        have "file_at n' qs' = (if qs' = ps then Some d else None)" by (cases qs') auto
        ultimately show ?thesis using None Cons by auto
      qed
    qed
  qed
qed auto

lemma set_alist_update: "set (AList.update k v d) \<subseteq> insert (k, v) (set d)"
  by (induction d) auto

lemma wf_Folder_update:
  "wf_node (Folder es) \<Longrightarrow> plain_name p \<Longrightarrow> wf_node n \<Longrightarrow> wf_node (Folder (AList.update p n es))"
  using set_alist_update [of p n es] by (auto simp: distinct_keys_update dest!: subsetD)

lemma wf_Folder_child: "wf_node (Folder es) \<Longrightarrow> map_of es p = Some n \<Longrightarrow> wf_node n"
  by (auto dest!: map_of_SomeD)

lemma put_node_wf:
  "put_node t ps d = Some t' \<Longrightarrow> wf_node t \<Longrightarrow> \<forall>p \<in> set ps. plain_name p \<Longrightarrow> wf_node t'"
proof (induction t ps d arbitrary: t' rule: put_node.induct)
  case (4 es p ps d)
  note wf = "4.prems"(2)
  show ?case
  proof (cases "map_of es p")
    case (Some n)
    with "4.prems" obtain n' where "put_node n ps d = Some n'" "t' = Folder (AList.update p n' es)" by auto
    with "4.IH"(2) [OF Some] wf_Folder_child [OF wf Some] have "wf_node n'" using "4.prems"(3) by simp
    with wf_Folder_update [OF wf] "4.prems"(3) \<open>t' = _\<close> show ?thesis by (metis list.set_intros(1))
  next
    case None
    show ?thesis
    proof (cases "ps = []")
      case True
      with "4.prems" None wf_Folder_update [OF wf, of p "File d"] show ?thesis by simp
    next
      case False
      with "4.prems" None obtain n' where "put_node (Folder []) ps d = Some n'" "t' = Folder (AList.update p n' es)"
        by auto
      with "4.IH"(1) [OF None False] wf_Folder_update [OF wf, of p n'] "4.prems"(3) show ?thesis
        by (simp add: distinct_keys_def)
    qed
  qed
qed auto

lemma remove_node_file_at:
  "file_at t ps \<noteq> None \<Longrightarrow> ps \<noteq> [] \<Longrightarrow> file_at (remove_node t ps) qs = (if qs = ps then None else file_at t qs)"
proof (induction t ps arbitrary: qs rule: remove_node.induct)
  case (1 es p ps)
  then obtain n where n: "map_of es p = Some n" "file_at n ps \<noteq> None" by (auto split: option.splits)
  show ?case
  proof (cases "ps = []")
    case True
    from n True obtain d where "n = File d" by (cases n) auto
    then show ?thesis using n True by (cases qs) (auto simp: delete_conv' split: option.split)
  next
    case False
    with "1.IH" [OF False n(1) n(2) False] n show ?thesis by (cases qs) auto
  qed
qed auto

lemma remove_node_wf: "wf_node t \<Longrightarrow> wf_node (remove_node t ps)"
proof (induction t ps rule: remove_node.induct)
  case (1 es p ps)
  have del: "distinct_keys (AList.delete p es)" "set (AList.delete p es) \<subseteq> set es"
    using "1.prems" by (auto simp: distinct_keys_def AList.delete_eq distinct_map_filter)
  show ?case
  proof (cases "ps = [] \<or> map_of es p = None")
    case True
    with "1.prems" del show ?thesis by (auto split: option.splits)
  next
    case False
    then obtain n where n: "map_of es p = Some n" "ps \<noteq> []" by auto
    have "plain_name p" using "1.prems" n(1) by (auto dest!: map_of_SomeD)
    with "1.IH" [OF n(2,1) wf_Folder_child [OF "1.prems" n(1)]] wf_Folder_update [OF "1.prems"] n
    show ?thesis by simp
  qed
qed auto

lemma read_node_file_at: "read_node t ps = Bytes d \<longleftrightarrow> file_at t ps = Some d"
  by (induction t ps rule: read_node.induct) (auto split: option.split)

lemma walk_spec:
  "wf_node t \<Longrightarrow> ps \<in> set (walk foreign path inside t) \<longleftrightarrow>
     (\<exists>qs. ps = path @ qs \<and> qs \<noteq> [] \<and> file_at t qs \<noteq> None \<and>
           (inside \<or> (\<exists>q \<in> set qs. is_foreign_name q)) = foreign)"
proof (induction foreign path inside t arbitrary: ps rule: walk.induct)
  case (1 foreign path inside d)
  then show ?case by (auto simp: neq_Nil_conv)
next
  case (2 foreign path inside es)
  have in_es: "map_of es name = Some child \<longleftrightarrow> (name, child) \<in> set es" for name child
    using "2.prems" by (auto simp: distinct_keys_def)
  let ?f = "\<lambda>name. inside \<or> is_foreign_name name"
  let ?R = "\<lambda>name child ps. case child of
          Folder _ \<Rightarrow> (if foreign \<or> \<not> ?f name then ps \<in> set (walk foreign (path @ [name]) (?f name) child) else False)
        | File _ \<Rightarrow> ?f name = foreign \<and> ps = path @ [name]"
  have step: "?R name child ps \<longleftrightarrow> (\<exists>qs. ps = path @ name # qs \<and> file_at child qs \<noteq> None \<and>
      (inside \<or> (\<exists>q \<in> set (name # qs). is_foreign_name q)) = foreign)" if m: "(name, child) \<in> set es" for name child
  proof (cases child)
    case (File d)
    then show ?thesis by auto
  next
    case (Folder es')
    have wf: "wf_node child" using "2.prems" m by auto
    show ?thesis
    proof (cases "foreign \<or> \<not> ?f name")
      case True
      have "ps \<in> set (walk foreign (path @ [name]) (?f name) child) \<longleftrightarrow>
        (\<exists>qs. ps = (path @ [name]) @ qs \<and> qs \<noteq> [] \<and> file_at child qs \<noteq> None \<and>
           (?f name \<or> (\<exists>q \<in> set qs. is_foreign_name q)) = foreign)"
        using "2.IH" [OF m refl Folder True, folded Folder] wf by simp
      moreover have "file_at child [] = None" using Folder by simp
      ultimately show ?thesis using True Folder by auto
    next
      case False
      then show ?thesis using Folder by auto
    qed
  qed
  have R: "ps \<in> set (case child of
          Folder _ \<Rightarrow>
            (if foreign \<or> \<not> ?f name then walk foreign (path @ [name]) (?f name) child else [])
        | File _ \<Rightarrow> (if ?f name = foreign then [path @ [name]] else [])) \<longleftrightarrow> ?R name child ps" for name child
    by (cases child) auto
  have "ps \<in> set (walk foreign path inside (Folder es)) \<longleftrightarrow> (\<exists>e \<in> set es. ?R (fst e) (snd e) ps)"
    unfolding R [symmetric] by (simp add: case_prod_unfold)
  also have "\<dots> \<longleftrightarrow> (\<exists>name child. (name, child) \<in> set es \<and> ?R name child ps)"
    unfolding Bex_def split_paired_Ex fst_conv snd_conv ..
  also have "\<dots> \<longleftrightarrow> (\<exists>name child. (name, child) \<in> set es \<and>
      (\<exists>qs. ps = path @ name # qs \<and> file_at child qs \<noteq> None \<and>
        (inside \<or> (\<exists>q \<in> set (name # qs). is_foreign_name q)) = foreign))"
    by (intro iff_exI conj_cong refl) (rule step)
  also have "\<dots> \<longleftrightarrow> (\<exists>qs. ps = path @ qs \<and> qs \<noteq> [] \<and> file_at (Folder es) qs \<noteq> None \<and>
           (inside \<or> (\<exists>q \<in> set qs. is_foreign_name q)) = foreign)"
    unfolding in_es [symmetric] by (auto simp: neq_Nil_conv simp del: set_simps split: option.splits)
  finally show ?case .
qed


lemma node_at_append: "node_at t (ps @ qs) = (case node_at t ps of None \<Rightarrow> None | Some n \<Rightarrow> node_at n qs)"
  by (induction t ps rule: node_at.induct) (auto split: option.split)

lemma file_at_append: "file_at t (ps @ qs) = (case node_at t ps of None \<Rightarrow> None | Some n \<Rightarrow> file_at n qs)"
  by (simp add: file_at_def node_at_append split: option.split)

lemma wf_node_at: "wf_node t \<Longrightarrow> node_at t ps = Some n \<Longrightarrow> wf_node n \<and> (\<forall>p \<in> set ps. plain_name p)"
proof (induction t ps rule: node_at.induct)
  case (3 es p ps)
  then obtain m where "map_of es p = Some m" "node_at m ps = Some n" by (auto split: option.splits)
  with 3 show ?case by (auto dest!: map_of_SomeD)
qed auto

lemma file_at_node: "file_at t ps \<noteq> None \<longleftrightarrow> (\<exists>d. node_at t ps = Some (File d))"
  by (auto simp: file_at_def split: option.splits dnode.splits)

section \<open>The interface\<close>

text \<open>Keys as \<open>keys.py\<close> mints them: every component is a plain name that is not foreign. A prefix
  names a folder.\<close>

definition storage_key :: "pystr \<Rightarrow> bool" where
  "storage_key k \<longleftrightarrow> (\<forall>p \<in> set (split_on 47 k). plain_name p \<and> \<not> is_foreign_name p)"

definition storage_area :: "pystr \<Rightarrow> bool" where
  "storage_area p \<longleftrightarrow> (\<exists>d. p = d @ [47] \<and> (\<forall>q \<in> set (split_on 47 d). plain_name q))"

lemma storage_key_parts: "storage_key k \<Longrightarrow> path_parts k = split_on 47 k"
  by (rule path_parts_id) (auto simp: storage_key_def plain_name_def)

lemma storage_key_inject: "storage_key k \<Longrightarrow> storage_key k' \<Longrightarrow> path_parts k = path_parts k' \<longleftrightarrow> k = k'"
  using join_split by (metis storage_key_parts)

text \<open>What the clients of a backend rely on: a lookup after a put and after a delete, and the
  listing of a folder.\<close>

locale blob_store =
  fixes inv :: "'s \<Rightarrow> bool"
    and lookup :: "'s \<Rightarrow> pystr \<Rightarrow> bytes option"
    and put :: "'s \<Rightarrow> pystr \<Rightarrow> bytes \<Rightarrow> storage_error + 's"
    and delete :: "'s \<Rightarrow> pystr \<Rightarrow> storage_error + 's"
    and keys :: "'s \<Rightarrow> pystr \<Rightarrow> pystr list"
  assumes put_ok: "inv s \<Longrightarrow> storage_key k \<Longrightarrow> put s k d = Inr s' \<Longrightarrow>
      inv s' \<and> (\<forall>k'. storage_key k' \<longrightarrow> lookup s' k' = (if k' = k then Some d else lookup s k'))"
    and delete_ok: "inv s \<Longrightarrow> storage_key k \<Longrightarrow> delete s k = Inr s' \<Longrightarrow>
      inv s' \<and> (\<forall>k'. storage_key k' \<longrightarrow> lookup s' k' = (if k' = k then None else lookup s k'))"
    and keys_ok: "inv s \<Longrightarrow> storage_key k \<Longrightarrow> storage_area p \<Longrightarrow>
      k \<in> set (keys s p) \<longleftrightarrow> lookup s k \<noteq> None \<and> startswith k p"

text \<open>The loops of the clients: a sequence of puts or deletes that stops at the first failure.\<close>

fun put_all :: "('s \<Rightarrow> pystr \<Rightarrow> bytes \<Rightarrow> 'e + 's) \<Rightarrow> (pystr \<times> bytes) list \<Rightarrow> 's \<Rightarrow> 'e + 's" where
  "put_all put [] s = Inr s"
| "put_all put ((k, d) # kds) s = (case put s k d of Inl e \<Rightarrow> Inl e | Inr s' \<Rightarrow> put_all put kds s')"

fun delete_all :: "('s \<Rightarrow> pystr \<Rightarrow> 'e + 's) \<Rightarrow> pystr list \<Rightarrow> 's \<Rightarrow> 'e + 's" where
  "delete_all delete [] s = Inr s"
| "delete_all delete (k # ks) s = (case delete s k of Inl e \<Rightarrow> Inl e | Inr s' \<Rightarrow> delete_all delete ks s')"

context blob_store
begin

lemma put_all_ok:
  "inv s \<Longrightarrow> \<forall>k \<in> fst ` set kds. storage_key k \<Longrightarrow> put_all put kds s = Inr s' \<Longrightarrow>
     inv s' \<and> (\<forall>k. storage_key k \<longrightarrow> lookup s' k = (case map_of (rev kds) k of Some d \<Rightarrow> Some d | None \<Rightarrow> lookup s k))"
proof (induction kds arbitrary: s)
  case Nil
  then show ?case by simp
next
  case (Cons e kds)
  obtain k d where e: "e = (k, d)" by (cases e)
  with Cons.prems obtain s1 where s1: "put s k d = Inr s1" "put_all put kds s1 = Inr s'" by (auto split: sum.splits)
  from put_ok [OF Cons.prems(1) _ s1(1)] Cons.prems(2) e have
    o: "inv s1" "\<forall>k'. storage_key k' \<longrightarrow> lookup s1 k' = (if k' = k then Some d else lookup s k')" by auto
  from Cons.IH [OF o(1) _ s1(2)] Cons.prems(2) o(2) show ?case
    by (auto simp: e map_add_def split: option.splits)
qed

lemma delete_all_ok:
  "inv s \<Longrightarrow> \<forall>k \<in> set ks. storage_key k \<Longrightarrow> delete_all delete ks s = Inr s' \<Longrightarrow>
     inv s' \<and> (\<forall>k. storage_key k \<longrightarrow> lookup s' k = (if k \<in> set ks then None else lookup s k))"
proof (induction ks arbitrary: s)
  case Nil
  then show ?case by simp
next
  case (Cons k ks)
  then obtain s1 where s1: "delete s k = Inr s1" "delete_all delete ks s1 = Inr s'" by (auto split: sum.splits)
  from delete_ok [OF Cons.prems(1) _ s1(1)] Cons.prems(2) have
    o: "inv s1" "\<forall>k'. storage_key k' \<longrightarrow> lookup s1 k' = (if k' = k then None else lookup s k')" by auto
  from Cons.IH [OF o(1) _ s1(2)] Cons.prems(2) o(2) show ?case by auto
qed

end

text \<open>The folder satisfies it.\<close>

definition stored :: "dnode \<Rightarrow> pystr \<Rightarrow> bytes option" where
  "stored root key = file_at root (path_parts key)"

lemma walk_keys_area:
  assumes "wf_node root" "storage_key k" "storage_area p"
  shows "k \<in> set (walk_keys False root p) \<longleftrightarrow> stored root k \<noteq> None \<and> startswith k p"
proof -
  from assms(3) obtain d where p: "p = d @ [47]" and d: "\<forall>q \<in> set (split_on 47 d). plain_name q"
    by (auto simp: storage_area_def)
  have pp: "path_parts p = split_on 47 d"
    using d by (auto simp: path_parts_def p split_on_append plain_name_def intro: filter_True)
  have pk: "path_parts k = split_on 47 k" by (rule storage_key_parts [OF assms(2)])
  show ?thesis
  proof
    assume "k \<in> set (walk_keys False root p)"
    then obtain base dir ps where b: "node_at root base = Some dir" "ps \<in> set (walk False base False dir)"
      "k = join_with [47] ps" "startswith k p"
      by (auto simp: walk_keys_def dest: sym split: option.splits)
    note wd = wf_node_at [OF assms(1) b(1)]
    from walk_spec [of dir ps False base False] wd b(2) obtain qs where
      "ps = base @ qs" "file_at dir qs \<noteq> None" by auto
    then have f: "file_at root ps \<noteq> None" using b(1) by (simp add: file_at_append)
    then obtain e where "node_at root ps = Some (File e)" unfolding file_at_node by blast
    from wf_node_at [OF assms(1) this] have "path_parts k = ps"
      unfolding b(3) by (intro path_parts_join) (auto simp: plain_name_def)
    with f b(4) show "stored root k \<noteq> None \<and> startswith k p" by (simp add: stored_def)
  next
    assume "stored root k \<noteq> None \<and> startswith k p"
    then obtain r where f: "file_at root (split_on 47 k) \<noteq> None" and k: "k = d @ 47 # r"
      by (auto simp: stored_def pk startswith_iff p)
    have sk: "split_on 47 k = split_on 47 d @ split_on 47 r" by (simp add: k split_on_append)
    with f obtain dir where dir: "node_at root (split_on 47 d) = Some dir" "file_at dir (split_on 47 r) \<noteq> None"
      by (auto simp: file_at_append split: option.splits)
    then obtain es where es: "dir = Folder es" by (cases dir) auto
    have "split_on 47 k \<in> set (walk False (split_on 47 d) False dir)"
      using walk_spec [of dir "split_on 47 k" False "split_on 47 d" False] wf_node_at [OF assms(1) dir(1)] dir(2)
        assms(2) by (auto simp: sk storage_key_def)
    then have "k \<in> join_with [47] ` set (walk False (split_on 47 d) False dir)"
      using join_split by (metis image_eqI)
    moreover have "walk_base root p = Some (split_on 47 d)" by (simp add: walk_base_def pp dir(1) es)
    ultimately show "k \<in> set (walk_keys False root p)"
      using dir(1) startswith_append [of "d @ [47]" r] by (simp add: walk_keys_def p k)
  qed
qed

interpretation lb: blob_store wf_node stored backend_put backend_delete list_keys
proof unfold_locales
  fix s k d s'
  assume inv: "wf_node s" and k: "storage_key k" and p: "backend_put s k d = Inr s'"
  from p have p': "put_node s (path_parts k) d = Some s'" by (auto simp: backend_put_def split: option.splits)
  have "\<forall>p \<in> set (path_parts k). plain_name p" using k by (simp add: storage_key_parts) (simp add: storage_key_def)
  with put_node_wf [OF p' inv] put_node_file_at [OF p'] storage_key_inject [OF _ k]
  show "wf_node s' \<and> (\<forall>k'. storage_key k' \<longrightarrow> stored s' k' = (if k' = k then Some d else stored s k'))"
    by (auto simp: stored_def)
next
  fix s k s'
  assume inv: "wf_node s" and k: "storage_key k" and del: "backend_delete s k = Inr s'"
  have ne: "path_parts k \<noteq> []" using k by (simp add: storage_key_parts)
  show "wf_node s' \<and> (\<forall>k'. storage_key k' \<longrightarrow> stored s' k' = (if k' = k then None else stored s k'))"
  proof (cases "file_at s (path_parts k) = None")
    case True
    with del have "s' = s"
      by (auto simp: backend_delete_def file_at_def split: option.splits dnode.splits)
    with True inv show ?thesis by (auto simp: stored_def)
  next
    case False
    with del have "s' = remove_node s (path_parts k)"
      by (auto simp: backend_delete_def file_at_def split: option.splits dnode.splits)
    with remove_node_wf [OF inv] remove_node_file_at [OF False ne] storage_key_inject [OF _ k]
    show ?thesis by (auto simp: stored_def)
  qed
qed (simp add: list_keys_def walk_keys_area)


text \<open>What the caller gets for the outcome of the last attempt.\<close>

definition answer :: "bool \<Rightarrow> read_out \<Rightarrow> storage_error + bytes" where
  "answer expected out =
     (case out of
        Bytes d \<Rightarrow> Inr d
      | ReadMissing \<Rightarrow> Inl (NotFound expected)
      | ReadError \<Rightarrow> Inl StorageError)"

lemma get_loop_spec:
  assumes "get_loop attempt expected n delays budget = (r, b)" "\<forall>d \<in> set delays. 0 \<le> d"
  shows "b \<le> budget \<and> budget - b \<le> sum_list delays \<and> (0 \<le> budget \<longrightarrow> 0 \<le> b) \<and>
    (\<exists>i \<le> length delays. (\<forall>j < i. attempt (n + j) = ReadMissing) \<and> r = answer expected (attempt (n + i)))"
  using assms
proof (induction attempt expected n delays budget arbitrary: r b rule: get_loop.induct)
  case (1 attempt expected n delays budget)
  have stop: ?case if "b = budget" "r = answer expected (attempt n)"
  proof -
    have "0 \<le> sum_list delays" using "1.prems"(2) by (simp add: sum_list_nonneg)
    with that show ?thesis by (intro conjI exI [of _ 0]) simp_all
  qed
  show ?case
  proof (cases "attempt n")
    case ReadMissing
    show ?thesis
    proof (cases "\<exists>d ds. delays = d # ds \<and> d \<le> budget")
      case False
      with "1.prems"(1) ReadMissing have "r = Inl (NotFound expected)" "b = budget"
        by (auto split: list.splits if_splits)
      with ReadMissing show ?thesis by (intro stop) (simp_all add: answer_def)
    next
      case True
      then obtain d ds where ds: "delays = d # ds" "d \<le> budget" by blast
      with "1.prems"(1) ReadMissing have g: "get_loop attempt expected (Suc n) ds (budget - d) = (r, b)" by simp
      from "1.IH" [OF ReadMissing ds(1) _ g] "1.prems"(2) ds obtain i where
        i: "i \<le> length ds" "\<forall>j < i. attempt (Suc n + j) = ReadMissing" "r = answer expected (attempt (Suc n + i))"
        and b: "b \<le> budget - d" "budget - d - b \<le> sum_list ds" "0 \<le> budget - d \<longrightarrow> 0 \<le> b" by auto
      have "\<forall>j < Suc i. attempt (n + j) = ReadMissing"
      proof (intro allI impI)
        fix j assume "j < Suc i"
        then show "attempt (n + j) = ReadMissing" using i(2) ReadMissing by (cases j) auto
      qed
      with i b ds "1.prems"(2) show ?thesis by (intro conjI exI [of _ "Suc i"]) simp_all
    qed
  next
    case (Bytes d)
    with "1.prems"(1) show ?thesis by (intro stop) (simp_all add: answer_def)
  next
    case ReadError
    with "1.prems"(1) show ?thesis by (intro stop) (simp_all add: answer_def)
  qed
qed

section \<open>Properties\<close>




definition demo_root :: dnode where
  "demo_root = Folder [(u ''data'', Folder [(u ''mac1'', Folder [(u ''aa.enc'', File [1])])])]"


end
