(* ===== verification/Upload.thy ===== *)
theory Upload
  imports Filters Storage
begin

text \<open>
  The upload half of a push: \<open>core.iter_source_diffs\<close>, the two-pass \<open>cli._upload_changed_blobs\<close> with
  its deferred re-reads, and the loop of \<open>cli._push_core\<close> that uploads every changed source and
  patches the manifest before it is serialized. Reads are parameters: \<open>read1\<close> and \<open>read2\<close> give the
  outcome of the first read of a path and of its one deferred re-read. \<open>enc rel data\<close> is the
  ciphertext of a file's content (the path stands for the nonce drawn for that put), \<open>sha\<close> is the hex
  SHA-256. An exception leaves the folder as far as it got, so every operation returns the folder.
\<close>

section \<open>Reads\<close>

record revision =
  rv_data :: bytes
  rv_digest :: pystr
  rv_size :: int
  rv_mtime :: pystr

text \<open>\<open>SnapshotChanged\<close> with its reason, an oversized file, or any other refusal.\<close>

datatype read_rev = Revision revision | Changed pystr | TooLarge | Refused

datatype upload_error =
  UKey key_error | UStorage storage_error | UTransient pystr | URefused | UManifest load_error | UNewer

text \<open>A file over the cap is one that grew after the scan accepted it.\<close>

definition read_once :: "read_rev \<Rightarrow> read_rev" where
  "read_once r = (case r of TooLarge \<Rightarrow> Changed (u ''grew'') | _ \<Rightarrow> r)"

text \<open>\<open>mtime_from_manifest\<close>: only a timezone-aware timestamp is an instant.\<close>

definition mtime_from_manifest :: "(pystr \<Rightarrow> py_dt option) \<Rightarrow> pystr \<Rightarrow> int option" where
  "mtime_from_manifest fromiso s = (case fromiso s of Some (Aware t) \<Rightarrow> Some t | _ \<Rightarrow> None)"

definition upload_mtime_matches :: "(pystr \<Rightarrow> py_dt option) \<Rightarrow> pystr \<Rightarrow> pystr \<Rightarrow> bool" where
  "upload_mtime_matches fromiso accepted advertised =
     (case (mtime_from_manifest fromiso accepted, mtime_from_manifest fromiso advertised) of
        (Some a, Some b) \<Rightarrow> a = b
      | _ \<Rightarrow> False)"

definition matches_scan ::
  "(pystr \<Rightarrow> py_dt option) \<Rightarrow> (bytes \<Rightarrow> pystr) \<Rightarrow> revision \<Rightarrow> file_info \<Rightarrow> bool" where
  "matches_scan fromiso sha rv info \<longleftrightarrow>
     rv_digest rv = fi_sha256 info \<and>
     dget (fi_rest info) (u ''size'') JNull = JInt (rv_size rv) \<and>
     int (length (rv_data rv)) = rv_size rv \<and>
     sha (rv_data rv) = fi_sha256 info \<and>
     (case fi_mtime info of
        None \<Rightarrow> False
      | Some m \<Rightarrow> rv_mtime rv = m \<or> upload_mtime_matches fromiso (rv_mtime rv) m)"

section \<open>One source\<close>

record upload_env =
  ue_device :: pystr
  ue_sha :: "bytes \<Rightarrow> pystr"
  ue_enc :: "pystr \<Rightarrow> bytes \<Rightarrow> bytes"
  ue_fromiso :: "pystr \<Rightarrow> py_dt option"
  ue_allow_hold :: bool
  ue_read1 :: "pystr \<Rightarrow> pystr \<Rightarrow> read_rev"
  ue_read2 :: "pystr \<Rightarrow> pystr \<Rightarrow> read_rev"
  ue_root_ok :: "pystr \<Rightarrow> bool"
  ue_newer :: "dnode \<Rightarrow> bool"

record outcome =
  up_bytes :: nat
  up_patches :: files
  up_held :: "(pystr, pystr) dict"

definition put_blob ::
  "upload_env \<Rightarrow> pystr \<Rightarrow> revision \<Rightarrow> dnode \<Rightarrow> (upload_error + nat) \<times> dnode" where
  "put_blob env rel rv store =
     (case blob_key (ue_device env) (JStr (rv_digest rv)) of
        Inl e \<Rightarrow> (Inl (UKey e), store)
      | Inr key \<Rightarrow>
          (let data = ue_enc env rel (rv_data rv)
           in case backend_put store key data of
                Inl e \<Rightarrow> (Inl (UStorage e), store)
              | Inr store' \<Rightarrow> (Inr (length data), store')))"

text \<open>The first pass: upload what still matches the scan, defer what does not. The result lists the
  deferred entries and counts the bytes.\<close>

fun first_pass ::
  "upload_env \<Rightarrow> pystr \<Rightarrow> (pystr \<times> file_info) list \<Rightarrow> nat \<Rightarrow> dnode \<Rightarrow>
     (upload_error + (pystr \<times> file_info) list \<times> nat) \<times> dnode" where
  "first_pass env name [] n store = (Inr ([], n), store)"
| "first_pass env name ((rel, info) # todo) n store =
     (let later = (\<lambda>store n. case first_pass env name todo n store of
            (Inl e, store') \<Rightarrow> (Inl e, store')
          | (Inr (deferred, n'), store') \<Rightarrow> (Inr ((rel, info) # deferred, n'), store'))
      in case read_once (ue_read1 env name rel) of
           Changed _ \<Rightarrow> later store n
         | Revision rv \<Rightarrow>
             (if \<not> matches_scan (ue_fromiso env) (ue_sha env) rv info then later store n
              else
                (case put_blob env rel rv store of
                   (Inl e, store') \<Rightarrow> (Inl e, store')
                 | (Inr m, store') \<Rightarrow> first_pass env name todo (n + m) store'))
         | _ \<Rightarrow> (Inl URefused, store))"

definition patched :: "file_info \<Rightarrow> revision \<Rightarrow> file_info" where
  "patched info rv =
     info\<lparr>fi_sha256 := rv_digest rv, fi_mtime := Some (rv_mtime rv),
          fi_rest := AList.update (u ''size'') (JInt (rv_size rv)) (fi_rest info)\<rparr>"

text \<open>The deferred re-read: a settled revision is published as its own, a file still changing is held.\<close>

fun second_pass ::
  "upload_env \<Rightarrow> pystr \<Rightarrow> (pystr \<times> file_info) list \<Rightarrow> outcome \<Rightarrow> dnode \<Rightarrow> (upload_error + outcome) \<times> dnode" where
  "second_pass env name [] out store = (Inr out, store)"
| "second_pass env name ((rel, info) # todo) out store =
     (case read_once (ue_read2 env name rel) of
        Changed reason \<Rightarrow>
          (if \<not> ue_allow_hold env then (Inl (UTransient reason), store)
           else second_pass env name todo (out\<lparr>up_held := AList.update rel reason (up_held out)\<rparr>) store)
      | Revision rv \<Rightarrow>
          (case put_blob env rel rv store of
             (Inl e, store') \<Rightarrow> (Inl e, store')
           | (Inr m, store') \<Rightarrow>
               second_pass env name todo
                 (out\<lparr>up_patches := AList.update rel (patched info rv) (up_patches out),
                      up_bytes := up_bytes out + m\<rparr>) store')
      | _ \<Rightarrow> (Inl URefused, store))"

definition upload_changed_blobs ::
  "upload_env \<Rightarrow> pystr \<Rightarrow> files \<Rightarrow> dnode \<Rightarrow> (upload_error + outcome) \<times> dnode" where
  "upload_changed_blobs env name to_upload store =
     (case first_pass env name to_upload 0 store of
        (Inl e, store') \<Rightarrow> (Inl e, store')
      | (Inr (deferred, n), store') \<Rightarrow>
          second_pass env name deferred \<lparr>up_bytes = n, up_patches = [], up_held = []\<rparr> store')"

section \<open>All sources\<close>

definition iter_source_diffs ::
  "manifest \<Rightarrow> (pystr, source_data) dict \<Rightarrow> pystr option \<Rightarrow> bool \<Rightarrow> (pystr \<times> source_data \<times> diff_result) list" where
  "iter_source_diffs local_m remote_sources source_filter skip_unchanged =
     concat (map (\<lambda>(name, sd).
        if source_filter \<noteq> None \<and> source_filter \<noteq> Some name then []
        else
          (let d = diff_files (sd_files sd) (Some (files_in remote_sources name))
           in if skip_unchanged \<and> \<not> has_changes d then [] else [(name, sd, d)])) (sources_of local_m))"

definition files_to_upload :: "path_sets \<Rightarrow> hold_map \<Rightarrow> pystr \<Rightarrow> diff_result \<Rightarrow> files" where
  "files_to_upload frozen held name d =
     dict_filter (\<lambda>rel _. rel \<notin> set (dget frozen name []) \<and> map_of (dget held name []) rel = None)
       (dict_update (d_new d) (d_modified d))"

definition apply_hold ::
  "(pystr, source_data) dict \<Rightarrow> tombstones \<Rightarrow> pystr \<Rightarrow> pystr \<times> pystr \<Rightarrow> files \<times> hold_map \<Rightarrow> files \<times> hold_map" where
  "apply_hold remote_sources tombs name e st =
     (case e of (rel, reason) \<Rightarrow> case st of (fs, held) \<Rightarrow>
        (let gone = is_tombstoned name rel tombs
         in (case map_of (files_in remote_sources name) rel of
               Some prior \<Rightarrow> if gone then AList.delete rel fs else AList.update rel prior fs
             | None \<Rightarrow> AList.delete rel fs,
             if gone then held
             else AList.update name (AList.update rel reason (dget held name [])) held)))"

record push_state =
  ps_local :: manifest
  ps_held :: hold_map
  ps_bytes :: nat
  ps_upload_held :: bool

definition upload_source ::
  "upload_env \<Rightarrow> manifest option \<Rightarrow> path_sets \<Rightarrow> pystr \<times> source_data \<times> diff_result \<Rightarrow> push_state \<Rightarrow> dnode \<Rightarrow>
     (upload_error + push_state) \<times> dnode" where
  "upload_source env real_remote frozen e st store =
     (case e of (name, _, d) \<Rightarrow>
        (case upload_changed_blobs env name (files_to_upload frozen (ps_held st) name d) store of
           (Inl er, store') \<Rightarrow> (Inl er, store')
         | (Inr out, store') \<Rightarrow>
             (if map_of (prior_sources real_remote) name \<noteq> None \<and> u ''vanished'' \<in> snd ` set (up_held out) \<and>
                 \<not> ue_root_ok env name
              then (Inl URefused, store')
              else
                (case fold (apply_hold (prior_sources real_remote) (prior_tombstones real_remote) name)
                        (up_held out)
                        (dict_update (files_in (sources_of (ps_local st)) name) (up_patches out), ps_held st) of
                   (fs, held) \<Rightarrow>
                     (Inr \<lparr>ps_local = set_source_files name fs (ps_local st), ps_held = held,
                           ps_bytes = ps_bytes st + up_bytes out,
                           ps_upload_held = (ps_upload_held st \<or> up_held out \<noteq> [])\<rparr>, store')))))"

fun upload_sources ::
  "upload_env \<Rightarrow> manifest option \<Rightarrow> path_sets \<Rightarrow> (pystr \<times> source_data \<times> diff_result) list \<Rightarrow> push_state \<Rightarrow>
     dnode \<Rightarrow> (upload_error + push_state) \<times> dnode" where
  "upload_sources env real_remote frozen [] st store = (Inr st, store)"
| "upload_sources env real_remote frozen (e # es) st store =
     (case upload_source env real_remote frozen e st store of
        (Inl er, store') \<Rightarrow> (Inl er, store')
      | (Inr st', store') \<Rightarrow> upload_sources env real_remote frozen es st' store')"

definition push_upload ::
  "upload_env \<Rightarrow> manifest option \<Rightarrow> path_sets \<Rightarrow> hold_map \<Rightarrow> manifest \<Rightarrow> dnode \<Rightarrow> (upload_error + push_state) \<times> dnode" where
  "push_upload env real_remote frozen held local_m store =
     upload_sources env real_remote frozen
       (iter_source_diffs local_m (prior_sources real_remote) None True)
       \<lparr>ps_local = local_m, ps_held = held, ps_bytes = 0, ps_upload_held = False\<rparr> store"

text \<open>The last write: the encrypted manifest replaces the published one, unless a fresh fetch finds one
  written in a newer format.\<close>

definition publish_manifest ::
  "upload_env \<Rightarrow> (manifest \<Rightarrow> bytes) \<Rightarrow> manifest \<Rightarrow> dnode \<Rightarrow> (upload_error + unit) \<times> dnode" where
  "publish_manifest env serialize m store =
     (case manifest_key (ue_device env) of
        Inl e \<Rightarrow> (Inl (UKey e), store)
      | Inr key \<Rightarrow>
          if ue_newer env store then (Inl UNewer, store)
          else (case backend_put store key (ue_enc env [] (serialize m)) of
             Inl e \<Rightarrow> (Inl (UStorage e), store)
           | Inr store' \<Rightarrow> (Inr (), store')))"

text \<open>When a file was held during the upload, the tombstones are computed again from the final
  entries, so an accepted deletion survives until replacement bytes are published.\<close>

definition reconcile_tombstones ::
  "upload_env \<Rightarrow> int \<Rightarrow> pystr \<Rightarrow> manifest option \<Rightarrow> push_state \<Rightarrow> upload_error + manifest" where
  "reconcile_tombstones env now now_iso prior st =
     (if \<not> ps_upload_held st then Inr (ps_local st)
      else
        (case generate_tombstones (ue_fromiso env) now now_iso (ps_local st) prior (ue_device env) of
           Inl e \<Rightarrow> Inl (UManifest e)
         | Inr ts \<Rightarrow> Inr ((ps_local st)\<lparr>m_tombstones := ts\<rparr>)))"

definition push_publish ::
  "upload_env \<Rightarrow> int \<Rightarrow> pystr \<Rightarrow> (manifest \<Rightarrow> bytes) \<Rightarrow> manifest option \<Rightarrow> manifest option \<Rightarrow> path_sets \<Rightarrow> hold_map \<Rightarrow>
     manifest \<Rightarrow> dnode \<Rightarrow> (upload_error + manifest) \<times> dnode" where
  "push_publish env now now_iso serialize real_remote prior frozen held local_m store =
     (case push_upload env real_remote frozen held local_m store of
        (Inl e, store') \<Rightarrow> (Inl e, store')
      | (Inr st, store') \<Rightarrow>
          (case reconcile_tombstones env now now_iso prior st of
             Inl e \<Rightarrow> (Inl e, store')
           | Inr m \<Rightarrow>
               (case publish_manifest env serialize m store' of
                  (Inl e, store'') \<Rightarrow> (Inl e, store'')
                | (Inr _, store'') \<Rightarrow> (Inr m, store''))))"

section \<open>Laws\<close>

text \<open>A device whose keys a backend lists.\<close>

definition good_device :: "pystr \<Rightarrow> bool" where
  "good_device d \<longleftrightarrow> validate_component d = Inr () \<and> \<not> is_foreign_name d"

definition has_blob :: "pystr \<Rightarrow> dnode \<Rightarrow> file_info \<Rightarrow> bool" where
  "has_blob dev store info \<longleftrightarrow>
     (\<exists>k. blob_key dev (JStr (fi_sha256 info)) = Inr k \<and> stored store k \<noteq> None)"

text \<open>Nothing stored is lost, and nothing outside the blobs changes.\<close>

definition grows :: "dnode \<Rightarrow> dnode \<Rightarrow> bool" where
  "grows s s' \<longleftrightarrow> wf_node s' \<and>
     (\<forall>k. storage_key k \<longrightarrow> stored s k \<noteq> None \<longrightarrow> stored s' k \<noteq> None) \<and>
     (\<forall>k. storage_key k \<longrightarrow> \<not> startswith k DATA_PREFIX \<longrightarrow> stored s' k = stored s k)"

lemma grows_refl: "wf_node s \<Longrightarrow> grows s s"
  by (simp add: grows_def)

lemma grows_trans: "grows s s' \<Longrightarrow> grows s' s'' \<Longrightarrow> grows s s''"
  by (auto simp: grows_def)

lemma validated_plain: "validate_component d = Inr () \<Longrightarrow> plain_name d"
  by (auto simp: validate_component_Inr_iff plain_name_def)

lemma blob_key_storage_key:
  assumes "good_device d" "blob_key d v = Inr k"
  shows "storage_key k"
proof -
  from assms(2) obtain s where s: "sha_shape s" "k = DATA_PREFIX @ d @ u ''/'' @ s @ u ''.enc''"
    and d: "validate_component d = Inr ()" by (auto simp: blob_key_Inr_iff)
  have f: "\<not> is_foreign_name (s @ u ''.enc'')"
    using s(1) by (cases s) (auto simp: is_foreign_name_def FOREIGN_PREFIXES_def sha_shape_def is_hex_lower_def u_def startswith_def)
  have pl: "plain_name (s @ u ''.enc'')" using sha_shape_no_sep [OF s(1)] by (auto simp: plain_name_def u_def)
  have "47 \<notin> set d" using validated_plain [OF d] by (simp add: plain_name_def)
  then have "split_on 47 k = [u ''data'', d, s @ u ''.enc'']"
    unfolding s(2) using split_data_key [of d "s @ u ''.enc''"] pl by (simp add: plain_name_def)
  with f pl validated_plain [OF d] assms(1) show ?thesis
    by (simp add: storage_key_def good_device_def plain_name_def is_foreign_name_def FOREIGN_PREFIXES_def u_def startswith_def)
qed


lemma put_blob_ok:
  assumes "put_blob env rel rv s = (r, s')" "wf_node s" "good_device (ue_device env)"
  shows "grows s s'"
    and "r = Inr n \<Longrightarrow> \<exists>k. blob_key (ue_device env) (JStr (rv_digest rv)) = Inr k \<and>
      stored s' k = Some (ue_enc env rel (rv_data rv))"
proof -
  have "grows s s' \<and> (\<forall>n. r = Inr n \<longrightarrow> (\<exists>k. blob_key (ue_device env) (JStr (rv_digest rv)) = Inr k \<and>
      stored s' k = Some (ue_enc env rel (rv_data rv))))"
  proof (cases "\<exists>k. blob_key (ue_device env) (JStr (rv_digest rv)) = Inr k \<and>
      backend_put s k (ue_enc env rel (rv_data rv)) = Inr s'")
    case True
    then obtain k where k: "blob_key (ue_device env) (JStr (rv_digest rv)) = Inr k"
      "backend_put s k (ue_enc env rel (rv_data rv)) = Inr s'" by blast
    note sk = blob_key_storage_key [OF assms(3) k(1)]
    have "startswith k DATA_PREFIX" using k(1) by (auto simp: blob_key_Inr_iff)
    with lb.put_ok [OF assms(2) sk k(2)] k(1) sk show ?thesis by (auto simp: grows_def)
  next
    case False
    with assms(1) have "s' = s" "\<forall>n. r \<noteq> Inr n"
      by (auto simp: put_blob_def Let_def split: sum.splits)
    with grows_refl [OF assms(2)] show ?thesis by blast
  qed
  then show "grows s s'" and "r = Inr n \<Longrightarrow> \<exists>k. blob_key (ue_device env) (JStr (rv_digest rv)) = Inr k \<and>
      stored s' k = Some (ue_enc env rel (rv_data rv))" by blast+
qed

lemma grows_wf: "grows s s' \<Longrightarrow> wf_node s'"
  by (simp add: grows_def)

lemma has_blob_grows: "has_blob d s i \<Longrightarrow> grows s s' \<Longrightarrow> good_device d \<Longrightarrow> has_blob d s' i"
  using blob_key_storage_key by (fastforce simp: has_blob_def grows_def)

lemma has_blob_sha: "has_blob d s i \<Longrightarrow> fi_sha256 j = fi_sha256 i \<Longrightarrow> has_blob d s j"
  by (simp add: has_blob_def)

lemma first_pass_ok:
  assumes "first_pass env name todo n s = (r, s')" "wf_node s" "good_device (ue_device env)"
  shows "grows s s' \<and>
    (\<forall>deferred m. r = Inr (deferred, m) \<longrightarrow> set deferred \<subseteq> set todo \<and> distinct_keys todo \<le> distinct_keys deferred \<and>
      (\<forall>e \<in> set todo. e \<in> set deferred \<or> has_blob (ue_device env) s' (snd e)))"
  using assms(1,2)
proof (induction todo arbitrary: n s r)
  case Nil
  then show ?case by (auto simp: grows_refl)
next
  case (Cons e todo)
  obtain rel info where e: "e = (rel, info)" by (cases e)
  let ?later = "\<lambda>n store. case first_pass env name todo n store of
            (Inl e, store') \<Rightarrow> (Inl e, store')
          | (Inr (deferred, n'), store') \<Rightarrow> (Inr ((rel, info) # deferred, n'), store')"
  have later: ?case if "?later n s = (r, s')"
  proof -
    obtain r1 where f: "first_pass env name todo n s = (r1, s')"
      and r: "r = (case r1 of Inl er \<Rightarrow> Inl er | Inr (deferred, m) \<Rightarrow> Inr ((rel, info) # deferred, m))"
      using \<open>?later n s = (r, s')\<close> by (auto split: prod.splits sum.splits)
    have dk: "distinct_keys ((rel, info) # deferred)"
      if "set deferred \<subseteq> set todo" "distinct_keys todo \<le> distinct_keys deferred" "distinct_keys (e # todo)" for deferred
    proof -
      have "rel \<notin> fst ` set todo" using that(3) by (auto simp: e map_of_eq_None_iff)
      with that show ?thesis by (auto simp: e map_of_eq_None_iff)
    qed
    from Cons.IH [OF f Cons.prems(2)] r dk show ?thesis by (fastforce simp: e split: sum.splits)
  qed
  show ?case
  proof (cases "read_once (ue_read1 env name rel)")
    case (Changed reason)
    with Cons.prems(1) show ?thesis by (intro later) (simp add: e Let_def)
  next
    case (Revision rv)
    show ?thesis
    proof (cases "matches_scan (ue_fromiso env) (ue_sha env) rv info")
      case False
      with Revision Cons.prems(1) show ?thesis by (intro later) (simp add: e Let_def)
    next
      case True
      obtain pr s1 where p: "put_blob env rel rv s = (pr, s1)" by fastforce
      note po = put_blob_ok [OF p Cons.prems(2) assms(3)]
      show ?thesis
      proof (cases pr)
        case (Inl er)
        with Revision True Cons.prems(1) p have "r = Inl er" "s' = s1" by (auto simp: e Let_def)
        with po(1) show ?thesis by auto
      next
        case (Inr m)
        with Revision True Cons.prems(1) p have f: "first_pass env name todo (n + m) s1 = (r, s')" by (simp add: e Let_def)
        note IH = Cons.IH [OF f grows_wf [OF po(1)]]
        from po(2) [OF Inr] True have "has_blob (ue_device env) s1 info" by (auto simp: has_blob_def matches_scan_def)
        with IH has_blob_grows [OF _ _ assms(3)] have "has_blob (ue_device env) s' info" by blast
        with IH po(1) grows_trans [OF po(1)] show ?thesis by (auto simp: e)
      qed
    qed
  next
    case TooLarge
    then show ?thesis by (auto simp: read_once_def split: read_rev.splits)
  next
    case Refused
    with Cons.prems(1) have "r = Inl URefused" "s' = s" by (auto simp: e Let_def)
    with grows_refl [OF Cons.prems(2)] show ?thesis by auto
  qed
qed

text \<open>After the second pass every deferred file is held or patched to a stored revision.\<close>

definition settled :: "pystr \<Rightarrow> dnode \<Rightarrow> pystr list \<Rightarrow> outcome \<Rightarrow> bool" where
  "settled dev s rels out \<longleftrightarrow>
     (\<forall>rel i. map_of (up_patches out) rel = Some i \<longrightarrow> has_blob dev s i) \<and>
     (\<forall>rel. rel \<in> set rels \<longleftrightarrow> map_of (up_patches out) rel \<noteq> None \<or> map_of (up_held out) rel \<noteq> None)"

lemma second_pass_ok:
  assumes "second_pass env name todo out s = (r, s')" "wf_node s" "good_device (ue_device env)"
    and "settled (ue_device env) s rels out" "distinct_keys (up_held out)" "distinct_keys (up_patches out)"
  shows "grows s s' \<and> (\<forall>out'. r = Inr out' \<longrightarrow> settled (ue_device env) s' (rels @ dkeys todo) out' \<and>
      distinct_keys (up_held out') \<and> distinct_keys (up_patches out'))"
  using assms(1,2,4,5,6)
proof (induction todo arbitrary: out s rels)
  case Nil
  then show ?case by (auto simp: grows_refl dkeys_def)
next
  case (Cons e todo)
  obtain rel info where e: "e = (rel, info)" by (cases e)
  show ?case
  proof (cases "read_once (ue_read2 env name rel)")
    case (Changed reason)
    show ?thesis
    proof (cases "ue_allow_hold env")
      case False
      with Changed Cons.prems(1) have "r = Inl (UTransient reason)" "s' = s" by (auto simp: e)
      with grows_refl [OF Cons.prems(2)] show ?thesis by auto
    next
      case True
      define out1 where "out1 = out\<lparr>up_held := AList.update rel reason (up_held out)\<rparr>"
      have f: "second_pass env name todo out1 s = (r, s')" using Changed True Cons.prems(1) by (simp add: e out1_def)
      have "settled (ue_device env) s (rels @ [rel]) out1"
        using Cons.prems(3) by (auto simp: settled_def out1_def)
      from Cons.IH [OF f Cons.prems(2) this] Cons.prems(4,5) show ?thesis
        by (simp add: e out1_def distinct_keys_update dkeys_def)
    qed
  next
    case (Revision rv)
    obtain pr s1 where p: "put_blob env rel rv s = (pr, s1)" by fastforce
    note po = put_blob_ok [OF p Cons.prems(2) assms(3)]
    show ?thesis
    proof (cases pr)
      case (Inl er)
      with Revision Cons.prems(1) p have "r = Inl er" "s' = s1" by (auto simp: e)
      with po(1) show ?thesis by auto
    next
      case (Inr m)
      define out1 where "out1 = out\<lparr>up_patches := AList.update rel (patched info rv) (up_patches out),
          up_bytes := up_bytes out + m\<rparr>"
      have f: "second_pass env name todo out1 s1 = (r, s')" using Revision Inr Cons.prems(1) p by (simp add: e out1_def)
      have "has_blob (ue_device env) s1 (patched info rv)" using po(2) [OF Inr] by (auto simp: has_blob_def patched_def)
      then have "settled (ue_device env) s1 (rels @ [rel]) out1"
        using Cons.prems(3) has_blob_grows [OF _ po(1) assms(3)] by (auto simp: settled_def out1_def)
      from Cons.IH [OF f grows_wf [OF po(1)] this] Cons.prems(4,5) grows_trans [OF po(1)] show ?thesis
        by (simp add: e out1_def distinct_keys_update dkeys_def)
    qed
  next
    case TooLarge
    then show ?thesis by (auto simp: read_once_def split: read_rev.splits)
  next
    case Refused
    with Cons.prems(1) have "r = Inl URefused" "s' = s" by (auto simp: e)
    with grows_refl [OF Cons.prems(2)] show ?thesis by auto
  qed
qed

lemma upload_changed_ok:
  assumes "upload_changed_blobs env name fs s = (r, s')" "wf_node s" "good_device (ue_device env)" "distinct_keys fs"
  shows "grows s s' \<and> (\<forall>out. r = Inr out \<longrightarrow>
      (\<forall>rel i. map_of (up_patches out) rel = Some i \<longrightarrow> has_blob (ue_device env) s' i) \<and>
      (\<forall>rel i. map_of fs rel = Some i \<longrightarrow> map_of (up_patches out) rel \<noteq> None \<or> map_of (up_held out) rel \<noteq> None \<or>
         has_blob (ue_device env) s' i) \<and>
      (\<forall>rel. map_of (up_patches out) rel \<noteq> None \<or> map_of (up_held out) rel \<noteq> None \<longrightarrow> map_of fs rel \<noteq> None) \<and>
      distinct_keys (up_held out) \<and> distinct_keys (up_patches out))"
proof -
  obtain r1 s1 where f: "first_pass env name fs 0 s = (r1, s1)" by fastforce
  note fo = first_pass_ok [OF f assms(2,3)]
  show ?thesis
  proof (cases r1)
    case (Inl er)
    with assms(1) f have "r = Inl er" "s' = s1" by (auto simp: upload_changed_blobs_def)
    with fo show ?thesis by auto
  next
    case (Inr dn)
    obtain deferred n where dn: "dn = (deferred, n)" by (cases dn)
    define out0 where "out0 = \<lparr>up_bytes = n, up_patches = ([] :: files), up_held = ([] :: (pystr, pystr) dict)\<rparr>"
    have g: "second_pass env name deferred out0 s1 = (r, s')"
      using assms(1) f Inr dn by (simp add: upload_changed_blobs_def out0_def)
    have s0: "settled (ue_device env) s1 [] out0" "distinct_keys (up_held out0)" "distinct_keys (up_patches out0)"
      by (simp_all add: settled_def out0_def)
    have fo': "grows s s1" "set deferred \<subseteq> set fs" "\<forall>e \<in> set fs. e \<in> set deferred \<or> has_blob (ue_device env) s1 (snd e)"
      using fo Inr dn by auto
    note so = second_pass_ok [OF g grows_wf [OF fo'(1)] assms(3) s0]
    have gr: "grows s1 s'" using so by blast
    show ?thesis
    proof (intro conjI allI impI)
      show "grows s s'" using fo'(1) gr by (rule grows_trans)
    next
      fix out assume r: "r = Inr out"
      with so have st: "settled (ue_device env) s' (dkeys deferred) out" "distinct_keys (up_held out)" "distinct_keys (up_patches out)"
        by auto
      then show "distinct_keys (up_held out)" "distinct_keys (up_patches out)" by blast+
      show "has_blob (ue_device env) s' i" if "map_of (up_patches out) rel = Some i" for rel i
        using st(1) that by (simp add: settled_def)
      show "map_of (up_patches out) rel \<noteq> None \<or> map_of (up_held out) rel \<noteq> None \<or> has_blob (ue_device env) s' i"
        if "map_of fs rel = Some i" for rel i
      proof -
        from map_of_SomeD [OF that] fo'(3) have "(rel, i) \<in> set deferred \<or> has_blob (ue_device env) s1 i" by auto
        then show ?thesis
        proof
          assume "(rel, i) \<in> set deferred"
          then have "rel \<in> set (dkeys deferred)" by (force simp: dkeys_def simp del: set_dkeys)
          with st(1) show ?thesis unfolding settled_def by blast
        next
          assume "has_blob (ue_device env) s1 i"
          with has_blob_grows [OF _ gr assms(3)] show ?thesis by blast
        qed
      qed
      show "map_of fs rel \<noteq> None" if "map_of (up_patches out) rel \<noteq> None \<or> map_of (up_held out) rel \<noteq> None" for rel
      proof -
        from st(1) that have "rel \<in> set (dkeys deferred)" unfolding settled_def by blast
        with fo'(2) have "rel \<in> fst ` set fs" by (force simp: dkeys_def simp del: set_dkeys)
        then show ?thesis by (metis map_of_eq_None_iff)
      qed
    qed
  qed
qed


lemma distinct_keys_delete: "distinct_keys d \<Longrightarrow> distinct_keys (AList.delete k d)"
  by (simp add: distinct_keys_def distinct_delete)

lemma apply_hold_fold:
  "fold (apply_hold remote tombs name) hs (fs, held) = (fs', held') \<Longrightarrow>
     (\<forall>rel. map_of fs' rel =
        (if map_of hs rel = None then map_of fs rel
         else if is_tombstoned name rel tombs then None else map_of (files_in remote name) rel)) \<and>
     (\<forall>n. n \<noteq> name \<longrightarrow> dget held' n [] = dget held n []) \<and> (distinct_keys fs \<longrightarrow> distinct_keys fs')"
proof (induction hs arbitrary: fs held)
  case Nil
  then show ?case by simp
next
  case (Cons e hs)
  obtain rel reason where e: "e = (rel, reason)" by (cases e)
  obtain fs1 held1 where a: "apply_hold remote tombs name e (fs, held) = (fs1, held1)" by fastforce
  with Cons.prems have f: "fold (apply_hold remote tombs name) hs (fs1, held1) = (fs', held')" by simp
  have f1: "map_of fs1 q = (if q = rel then if is_tombstoned name rel tombs then None else map_of (files_in remote name) rel
      else map_of fs q)" for q
    using a by (auto simp: apply_hold_def e Let_def delete_conv' split: option.splits if_splits)
  have h1: "n \<noteq> name \<longrightarrow> dget held1 n [] = dget held n []" for n
    using a by (auto simp: apply_hold_def e Let_def)
  have d1: "distinct_keys fs \<longrightarrow> distinct_keys fs1"
    using a by (auto simp: apply_hold_def e Let_def distinct_keys_update distinct_keys_delete
        split: option.splits if_splits)
  from Cons.IH [OF f] f1 h1 d1 show ?case by (auto simp: e)
qed

lemma files_to_upload_map_of:
  assumes "distinct_keys xs" "distinct_keys ys"
  shows "map_of (files_to_upload frozen held name (diff_files xs (Some ys))) rel =
    (if rel \<in> set (dget frozen name []) \<or> map_of (dget held name []) rel \<noteq> None then None
     else (case map_of xs rel of
             None \<Rightarrow> None
           | Some i \<Rightarrow> (case map_of ys rel of
               None \<Rightarrow> Some i
             | Some j \<Rightarrow> if fi_sha256 i \<noteq> fi_sha256 j then Some i else None)))"
    and "distinct_keys (files_to_upload frozen held name (diff_files xs (Some ys)))"
proof -
  let ?n = "dict_filter (\<lambda>p _. map_of ys p = None) xs"
  let ?m = "dict_filter (\<lambda>p i. \<exists>j. map_of ys p = Some j \<and> fi_sha256 i \<noteq> fi_sha256 j) xs"
  have d: "d_new (diff_files xs (Some ys)) = ?n" "d_modified (diff_files xs (Some ys)) = ?m"
    by (simp_all add: diff_files_eq [OF assms(1)])
  have dm: "distinct_keys ?m" "distinct_keys ?n" by (simp_all add: distinct_keys_filter assms(1))
  have du: "distinct_keys (dict_update ?n ?m)" by (rule distinct_keys_dict_update [OF dm(2)])
  show "distinct_keys (files_to_upload frozen held name (diff_files xs (Some ys)))"
    unfolding files_to_upload_def d by (rule distinct_keys_filter [OF du])
  show "map_of (files_to_upload frozen held name (diff_files xs (Some ys))) rel =
    (if rel \<in> set (dget frozen name []) \<or> map_of (dget held name []) rel \<noteq> None then None
     else (case map_of xs rel of
             None \<Rightarrow> None
           | Some i \<Rightarrow> (case map_of ys rel of
               None \<Rightarrow> Some i
             | Some j \<Rightarrow> if fi_sha256 i \<noteq> fi_sha256 j then Some i else None)))"
    unfolding files_to_upload_def d
    by (auto simp: map_of_dict_filter [OF du] map_of_dict_update map_of_rev_distinct [OF dm(1)]
        map_of_dict_filter [OF assms(1)] split: option.splits)
qed

text \<open>Every entry of a source names a stored blob.\<close>

definition blobs_at :: "pystr \<Rightarrow> dnode \<Rightarrow> files \<Rightarrow> bool" where
  "blobs_at dev s fs \<longleftrightarrow> (\<forall>rel i. map_of fs rel = Some i \<longrightarrow> has_blob dev s i)"

lemma blobs_at_grows: "blobs_at d s fs \<Longrightarrow> grows s s' \<Longrightarrow> good_device d \<Longrightarrow> blobs_at d s' fs"
  unfolding blobs_at_def by (blast intro: has_blob_grows)

lemma upload_source_ok:
  assumes "upload_source env real_remote frozen (name, sd, d) st s = (r, s')"
    and "wf_node s" "good_device (ue_device env)" "wf_manifest (ps_local st)"
    and "wf_sources (prior_sources real_remote)" "map_of (sources_of (ps_local st)) name = Some sd"
    and d: "d = diff_files (sd_files sd) (Some (files_in (prior_sources real_remote) name))"
    and remote: "blobs_at (ue_device env) s (files_in (prior_sources real_remote) name)"
    and kept: "\<forall>rel i. map_of (sd_files sd) rel = Some i \<longrightarrow>
      rel \<in> set (dget frozen name []) \<or> map_of (dget (ps_held st) name []) rel \<noteq> None \<longrightarrow> has_blob (ue_device env) s i"
  shows "grows s s' \<and> (\<forall>st'. r = Inr st' \<longrightarrow>
      wf_manifest (ps_local st') \<and> blobs_at (ue_device env) s' (files_in (sources_of (ps_local st')) name) \<and>
      (\<forall>n. n \<noteq> name \<longrightarrow> map_of (sources_of (ps_local st')) n = map_of (sources_of (ps_local st)) n \<and>
         dget (ps_held st') n [] = dget (ps_held st) n []))"
proof -
  let ?ys = "files_in (prior_sources real_remote) name"
  let ?fs = "files_to_upload frozen (ps_held st) name d"
  have dx: "distinct_keys (sd_files sd)" using assms(4,6) by (auto simp: wf_manifest_def dest: wf_source_files)
  have dy: "distinct_keys ?ys" using assms(5) by (auto simp: files_in_def dest: wf_source_files split: option.split)
  note fu = files_to_upload_map_of [OF dx dy, of frozen "ps_held st" name, folded d]
  obtain r1 s1 where u1: "upload_changed_blobs env name ?fs s = (r1, s1)" by fastforce
  note uo = upload_changed_ok [OF u1 assms(2,3) fu(2)]
  show ?thesis
  proof (cases r1)
    case (Inl er)
    with assms(1) u1 have "r = Inl er" "s' = s1" by (auto simp: upload_source_def)
    with uo show ?thesis by auto
  next
    case (Inr out)
    note uo1 = uo [THEN conjunct2, rule_format, OF Inr]
    obtain fs held where f: "fold (apply_hold (prior_sources real_remote) (prior_tombstones real_remote) name)
        (up_held out) (dict_update (sd_files sd) (up_patches out), ps_held st) = (fs, held)" by fastforce
    note hf = apply_hold_fold [OF f]
    have fin: "files_in (sources_of (ps_local st)) name = sd_files sd" by (simp add: files_in_def assms(6))
    have s1: "s' = s1" and r: "r = Inr st' \<Longrightarrow> ps_local st' = set_source_files name fs (ps_local st) \<and> ps_held st' = held" for st'
      using assms(1) u1 Inr f by (auto simp: upload_source_def fin split: if_splits)
    have gr: "grows s s'" using uo s1 by blast
    have blobs: "has_blob (ue_device env) s' i" if m: "map_of fs rel = Some i" for rel i
    proof (cases "map_of (up_held out) rel = None")
      case False
      with hf m have "map_of ?ys rel = Some i" by (auto split: if_splits)
      with remote has_blob_grows [OF _ gr assms(3)] show ?thesis by (auto simp: blobs_at_def)
    next
      case True
      with hf m have c: "map_of (dict_update (sd_files sd) (up_patches out)) rel = Some i" by auto
      have dp: "distinct_keys (up_patches out)" using uo1 by blast
      show ?thesis
      proof (cases "map_of (up_patches out) rel")
        case (Some j)
        with c dp have "j = i" by (simp add: map_of_dict_update map_of_rev_distinct)
        with Some uo1 s1 show ?thesis by blast
      next
        case None
        with c dp have x: "map_of (sd_files sd) rel = Some i" by (simp add: map_of_dict_update map_of_rev_distinct)
        consider (carried) "rel \<in> set (dget frozen name []) \<or> map_of (dget (ps_held st) name []) rel \<noteq> None"
          | (same) j where "map_of ?ys rel = Some j" "fi_sha256 i = fi_sha256 j"
          | (up) "map_of ?fs rel = Some i"
          using fu(1) [of rel] x by (cases "map_of ?ys rel") (auto split: if_splits)
        then show ?thesis
        proof cases
          case carried
          with kept [rule_format, OF x] has_blob_grows [OF _ gr assms(3)] show ?thesis by blast
        next
          case same
          with remote have "has_blob (ue_device env) s j" by (auto simp: blobs_at_def)
          with has_blob_grows [OF _ gr assms(3)] has_blob_sha same(2) show ?thesis by blast
        next
          case up
          with uo1 None True s1 show ?thesis by blast
        qed
      qed
    qed
    have dfs: "distinct_keys fs" using hf distinct_keys_dict_update [OF dx] by blast
    show ?thesis
    proof (intro conjI allI impI)
      show "grows s s'" by (rule gr)
      fix st' assume "r = Inr st'"
      note rr = r [OF this]
      show "wf_manifest (ps_local st')" using rr set_source_files_wf [OF assms(4) dfs] by simp
      show "blobs_at (ue_device env) s' (files_in (sources_of (ps_local st')) name)"
        using rr blobs by (simp add: blobs_at_def files_in_def set_source_files_map_of assms(6))
      show "map_of (sources_of (ps_local st')) n = map_of (sources_of (ps_local st)) n" if "n \<noteq> name" for n
        using rr that by (simp add: set_source_files_map_of)
      show "dget (ps_held st') n [] = dget (ps_held st) n []" if "n \<noteq> name" for n
        using rr that hf by simp
    qed
  qed
qed

lemma upload_sources_ok:
  assumes "upload_sources env real_remote frozen es st s = (r, s')"
    and "wf_node s" "good_device (ue_device env)" "wf_manifest (ps_local st)"
    and "wf_sources (prior_sources real_remote)" "distinct (map fst es)"
    and "\<And>name sd d. (name, sd, d) \<in> set es \<Longrightarrow> map_of (sources_of (ps_local st)) name = Some sd \<and>
      d = diff_files (sd_files sd) (Some (files_in (prior_sources real_remote) name))"
    and "\<And>name. blobs_at (ue_device env) s (files_in (prior_sources real_remote) name)"
    and "\<And>name rel i. name \<in> set (map fst es) \<Longrightarrow> files_at (ps_local st) name rel = Some i \<Longrightarrow>
      rel \<in> set (dget frozen name []) \<or> map_of (dget (ps_held st) name []) rel \<noteq> None \<Longrightarrow> has_blob (ue_device env) s i"
  shows "grows s s' \<and> (\<forall>st'. r = Inr st' \<longrightarrow> wf_manifest (ps_local st') \<and>
      (\<forall>name. if name \<in> set (map fst es)
         then blobs_at (ue_device env) s' (files_in (sources_of (ps_local st')) name)
         else map_of (sources_of (ps_local st')) name = map_of (sources_of (ps_local st)) name))"
  using assms(1,2,4,6-9)
proof (induction es arbitrary: st s)
  case Nil
  then show ?case by (auto simp: grows_refl)
next
  case (Cons e es)
  obtain name sd d where e: "e = (name, sd, d)" by (cases e)
  obtain r1 s1 where u1: "upload_source env real_remote frozen (name, sd, d) st s = (r1, s1)" by fastforce
  from Cons.prems(5) [of name sd d] have m: "map_of (sources_of (ps_local st)) name = Some sd"
    "d = diff_files (sd_files sd) (Some (files_in (prior_sources real_remote) name))" by (auto simp: e)
  have k: "has_blob (ue_device env) s i" if "map_of (sd_files sd) rel = Some i"
    "rel \<in> set (dget frozen name []) \<or> map_of (dget (ps_held st) name []) rel \<noteq> None" for rel i
    by (rule Cons.prems(7) [OF _ _ that(2)]) (use that(1) m(1) in \<open>simp_all add: e files_at_def files_in_def\<close>)
  have "\<forall>rel i. map_of (sd_files sd) rel = Some i \<longrightarrow>
      rel \<in> set (dget frozen name []) \<or> map_of (dget (ps_held st) name []) rel \<noteq> None \<longrightarrow> has_blob (ue_device env) s i"
    by (intro allI impI k)
  note so = upload_source_ok [OF u1 Cons.prems(2) assms(3) Cons.prems(3) assms(5) m Cons.prems(6) this]
  show ?case
  proof (cases r1)
    case (Inl er)
    with Cons.prems(1) u1 have "r = Inl er" "s' = s1" by (auto simp: e)
    with so [THEN conjunct1] show ?thesis by simp
  next
    case (Inr st1)
    with Cons.prems(1) u1 have f: "upload_sources env real_remote frozen es st1 s1 = (r, s')" by (simp add: e)
    note g1 = so [THEN conjunct1]
    note s1 = so [THEN conjunct2, rule_format, OF Inr]
    have nin: "name \<notin> set (map fst es)" "distinct (map fst es)" using Cons.prems(4) by (auto simp: e)
    have same: "n \<in> set (map fst es) \<Longrightarrow> map_of (sources_of (ps_local st1)) n = map_of (sources_of (ps_local st)) n \<and>
        dget (ps_held st1) n [] = dget (ps_held st) n []" for n
    proof -
      assume "n \<in> set (map fst es)"
      with nin(1) have "n \<noteq> name" by blast
      with s1 [THEN conjunct2, THEN conjunct2] show ?thesis by blast
    qed
    have IH: "grows s1 s' \<and> (\<forall>st'. r = Inr st' \<longrightarrow> wf_manifest (ps_local st') \<and>
      (\<forall>name. if name \<in> set (map fst es)
         then blobs_at (ue_device env) s' (files_in (sources_of (ps_local st')) name)
         else map_of (sources_of (ps_local st')) name = map_of (sources_of (ps_local st1)) name))"
    proof (rule Cons.IH [OF f grows_wf [OF g1] _ nin(2)])
      show "wf_manifest (ps_local st1)" using s1 by (rule conjunct1)
      show "map_of (sources_of (ps_local st1)) n = Some sd' \<and>
          d' = diff_files (sd_files sd') (Some (files_in (prior_sources real_remote) n))"
        if "(n, sd', d') \<in> set es" for n sd' d'
      proof -
        have n: "n \<in> set (map fst es)" using that by force
        have "map_of (sources_of (ps_local st)) n = Some sd' \<and>
            d' = diff_files (sd_files sd') (Some (files_in (prior_sources real_remote) n))"
          by (rule Cons.prems(5)) (use that in simp)
        with same [OF n] show ?thesis by simp
      qed
      show "blobs_at (ue_device env) s1 (files_in (prior_sources real_remote) n)" for n
        by (rule blobs_at_grows [OF Cons.prems(6) g1 assms(3)])
      show "has_blob (ue_device env) s1 i" if "n \<in> set (map fst es)" "files_at (ps_local st1) n rel = Some i"
        "rel \<in> set (dget frozen n []) \<or> map_of (dget (ps_held st1) n []) rel \<noteq> None" for n rel i
      proof (rule has_blob_grows [OF Cons.prems(7) g1 assms(3)])
        show "n \<in> set (map fst (e # es))" using that(1) by simp
        show "files_at (ps_local st) n rel = Some i" using that(2) same [OF that(1)] by (simp add: files_at_def files_in_def)
        show "rel \<in> set (dget frozen n []) \<or> map_of (dget (ps_held st) n []) rel \<noteq> None"
          using that(3) same [OF that(1)] by simp
      qed
    qed
    note g2 = IH [THEN conjunct1] and IHr = IH [THEN conjunct2, rule_format]
    show ?thesis
    proof (intro conjI allI impI)
      show "grows s s'" by (rule grows_trans [OF g1 g2])
      fix st' assume r: "r = Inr st'"
      show "wf_manifest (ps_local st')" using IHr [OF r] by (rule conjunct1)
      show "if n \<in> set (map fst (e # es))
         then blobs_at (ue_device env) s' (files_in (sources_of (ps_local st')) n)
         else map_of (sources_of (ps_local st')) n = map_of (sources_of (ps_local st)) n" for n
      proof (cases "n = name")
        case True
        from IHr [OF r, THEN conjunct2, THEN spec, of name] nin(1)
        have "map_of (sources_of (ps_local st')) name = map_of (sources_of (ps_local st1)) name" by (simp del: set_map)
        moreover have "blobs_at (ue_device env) s1 (files_in (sources_of (ps_local st1)) name)"
          using s1 [THEN conjunct2] by (rule conjunct1)
        ultimately show ?thesis using True blobs_at_grows [OF _ g2 assms(3)] by (simp add: e files_in_def)
      next
        case False
        then have o: "map_of (sources_of (ps_local st1)) n = map_of (sources_of (ps_local st)) n" using s1 [THEN conjunct2, THEN conjunct2] by blast
        have "if n \<in> set (map fst es)
           then blobs_at (ue_device env) s' (files_in (sources_of (ps_local st')) n)
           else map_of (sources_of (ps_local st')) n = map_of (sources_of (ps_local st1)) n"
          using IHr [OF r, THEN conjunct2] by (rule spec)
        with o False show ?thesis by (simp add: e)
      qed
    qed
  qed
qed


lemma iter_source_diffs_mem:
  assumes "wf_manifest m" "(name, sd, d) \<in> set (iter_source_diffs m remote flt skip)"
  shows "map_of (sources_of m) name = Some sd \<and> d = diff_files (sd_files sd) (Some (files_in remote name))"
proof -
  have "(name, sd) \<in> set (sources_of m)" "d = diff_files (sd_files sd) (Some (files_in remote name))"
    using assms(2) by (auto simp: iter_source_diffs_def Let_def split: if_splits)
  with assms(1) show ?thesis by (auto simp: wf_manifest_def wf_sources_def distinct_keys_def)
qed

lemma iter_source_diffs_distinct:
  assumes "wf_manifest m"
  shows "distinct (map fst (iter_source_diffs m remote flt skip))"
proof -
  define f :: "pystr \<times> source_data \<Rightarrow> (pystr \<times> source_data \<times> diff_result) list"
    where "f = (\<lambda>(name, sd). if flt \<noteq> None \<and> flt \<noteq> Some name then []
      else (let d = diff_files (sd_files sd) (Some (files_in remote name))
            in if skip \<and> \<not> has_changes d then [] else [(name, sd, d)]))"
  have f: "map fst (f e) = [] \<or> map fst (f e) = [fst e]" for e by (auto simp: f_def Let_def split: prod.splits)
  have sub: "set (map fst (concat (map f srcs))) \<subseteq> set (map fst srcs)" for srcs
  proof (induction srcs)
    case (Cons e srcs)
    from f [of e] show ?case
    proof
      assume "map fst (f e) = []"
      with Cons show ?thesis by auto
    next
      assume "map fst (f e) = [fst e]"
      with Cons show ?thesis by auto
    qed
  qed simp
  have "distinct (map fst srcs) \<Longrightarrow> distinct (map fst (concat (map f srcs)))" for srcs
  proof (induction srcs)
    case (Cons e srcs)
    have n: "fst e \<notin> set (map fst (concat (map f srcs)))" using Cons.prems sub [of srcs] by auto
    have d: "distinct (map fst (concat (map f srcs)))" using Cons by simp
    from f [of e] show ?case
    proof
      assume "map fst (f e) = []"
      with d show ?thesis by simp
    next
      assume "map fst (f e) = [fst e]"
      with d n show ?thesis by simp
    qed
  qed simp
  moreover have "iter_source_diffs m remote flt skip = concat (map f (sources_of m))"
    by (simp only: iter_source_diffs_def f_def)
  ultimately show ?thesis using assms by (simp only: wf_manifest_def wf_sources_def distinct_keys_def)
qed

lemma no_changes_same:
  assumes "distinct_keys xs" "\<not> has_changes (diff_files xs (Some ys))" "map_of xs rel = Some i"
  shows "\<exists>j. map_of ys rel = Some j \<and> fi_sha256 i = fi_sha256 j"
proof -
  have "dict_filter (\<lambda>p _. map_of ys p = None) xs = []"
    "dict_filter (\<lambda>p i. \<exists>j. map_of ys p = Some j \<and> fi_sha256 i \<noteq> fi_sha256 j) xs = []"
    using assms(2) by (simp_all add: has_changes_def diff_files_eq [OF assms(1)])
  then have "map_of ys rel \<noteq> None" "\<not> (\<exists>j. map_of ys rel = Some j \<and> fi_sha256 i \<noteq> fi_sha256 j)"
    using map_of_SomeD [OF assms(3)] by (fastforce simp: dict_filter_def filter_empty_conv)+
  then show ?thesis by auto
qed

lemma iter_source_diffs_skipped:
  assumes "wf_manifest m" "map_of (sources_of m) name = Some sd"
    "name \<notin> set (map fst (iter_source_diffs m remote None True))"
  shows "\<not> has_changes (diff_files (sd_files sd) (Some (files_in remote name)))"
proof (rule ccontr)
  assume "\<not> ?thesis"
  then have "(name, sd, diff_files (sd_files sd) (Some (files_in remote name))) \<in> set (iter_source_diffs m remote None True)"
    using map_of_SomeD [OF assms(2)] by (force simp: iter_source_diffs_def Let_def)
  with assms(3) show False by force
qed

lemma push_upload_ok:
  assumes "push_upload env real_remote frozen held local_m s = (r, s')"
    and "wf_node s" "good_device (ue_device env)" "wf_manifest local_m" "wf_sources (prior_sources real_remote)"
    and remote: "\<And>name. blobs_at (ue_device env) s (files_in (prior_sources real_remote) name)"
    and carried: "\<And>name rel i. files_at local_m name rel = Some i \<Longrightarrow>
      rel \<in> set (dget frozen name []) \<or> is_held held name rel \<Longrightarrow> has_blob (ue_device env) s i"
  shows "grows s s' \<and> (\<forall>st. r = Inr st \<longrightarrow>
    (\<forall>name. blobs_at (ue_device env) s' (files_in (sources_of (ps_local st)) name)))"
proof -
  let ?es = "iter_source_diffs local_m (prior_sources real_remote) None True"
  let ?st = "\<lparr>ps_local = local_m, ps_held = held, ps_bytes = 0, ps_upload_held = False\<rparr>"
  have main: "grows s s' \<and> (\<forall>st'. r = Inr st' \<longrightarrow> wf_manifest (ps_local st') \<and>
      (\<forall>name. if name \<in> set (map fst ?es)
         then blobs_at (ue_device env) s' (files_in (sources_of (ps_local st')) name)
         else map_of (sources_of (ps_local st')) name = map_of (sources_of (ps_local ?st)) name))"
  proof (rule upload_sources_ok [OF assms(1) [unfolded push_upload_def] assms(2,3) _ assms(5)])
    show "wf_manifest (ps_local ?st)" using assms(4) by simp
    show "distinct (map fst ?es)" by (rule iter_source_diffs_distinct [OF assms(4)])
    show "map_of (sources_of (ps_local ?st)) name = Some sd \<and>
        d = diff_files (sd_files sd) (Some (files_in (prior_sources real_remote) name))"
      if "(name, sd, d) \<in> set ?es" for name sd d
      using iter_source_diffs_mem [OF assms(4) that] by simp
    show "blobs_at (ue_device env) s (files_in (prior_sources real_remote) name)" for name by (rule remote)
    show "has_blob (ue_device env) s i" if "files_at (ps_local ?st) name rel = Some i"
      "rel \<in> set (dget frozen name []) \<or> map_of (dget (ps_held ?st) name []) rel \<noteq> None" for name rel i
      using carried [of name rel i] that by (simp add: is_held_def)
  qed
  note gr = main [THEN conjunct1]
  show ?thesis
  proof (intro conjI allI impI gr)
    fix st name assume r: "r = Inr st"
    note m = main [THEN conjunct2, rule_format, OF r, THEN conjunct2, THEN spec, of name]
    show "blobs_at (ue_device env) s' (files_in (sources_of (ps_local st)) name)"
    proof (cases "name \<in> set (map fst ?es)")
      case True
      with m show ?thesis by simp
    next
      case False
      with m have same: "map_of (sources_of (ps_local st)) name = map_of (sources_of local_m) name" by simp
      show ?thesis
      proof (cases "map_of (sources_of local_m) name")
        case None
        with same show ?thesis by (simp add: blobs_at_def files_in_def)
      next
        case (Some sd)
        have dk: "distinct_keys (sd_files sd)" using assms(4) Some by (auto simp: wf_manifest_def dest: wf_source_files)
        have "has_blob (ue_device env) s' i" if "map_of (sd_files sd) rel = Some i" for rel i
        proof -
          from no_changes_same [OF dk iter_source_diffs_skipped [OF assms(4) Some False] that] obtain j where
            j: "map_of (files_in (prior_sources real_remote) name) rel = Some j" "fi_sha256 i = fi_sha256 j" by blast
          from remote j(1) have "has_blob (ue_device env) s j" by (simp add: blobs_at_def)
          from has_blob_sha [OF has_blob_grows [OF this gr assms(3)] j(2)] show ?thesis .
        qed
        with same Some show ?thesis by (simp add: blobs_at_def files_in_def)
      qed
    qed
  qed
qed

lemma manifest_key_storage_key:
  assumes "good_device d" "manifest_key d = Inr k"
  shows "storage_key k \<and> \<not> startswith k DATA_PREFIX"
proof -
  from assms(2) have d: "validate_component d = Inr ()" and k: "k = MANIFESTS_PREFIX @ d @ u ''/manifest.json.enc''"
    by (auto simp: manifest_key_Inr_iff)
  have sep: "k = u ''manifests'' @ 47 # d @ 47 # u ''manifest.json.enc''" by (simp add: k MANIFESTS_PREFIX_def u_def)
  have "47 \<notin> set (u ''manifests'')" "47 \<notin> set d" "47 \<notin> set (u ''manifest.json.enc'')"
    using validated_plain [OF d] by (simp_all add: plain_name_def u_def)
  then have "split_on 47 k = [u ''manifests'', d, u ''manifest.json.enc'']"
    unfolding sep by (simp add: split_on_append split_on_id)
  then have "storage_key k"
    using validated_plain [OF d] assms(1)
    by (simp add: storage_key_def good_device_def plain_name_def is_foreign_name_def FOREIGN_PREFIXES_def u_def startswith_def)
  moreover have "\<not> startswith k DATA_PREFIX" by (simp add: sep u_def DATA_PREFIX_def)
  ultimately show ?thesis by blast
qed

lemma blob_key_not_manifest:
  assumes "blob_key d v = Inr k" "manifest_key d' = Inr k'"
  shows "k \<noteq> k'"
  using assms by (auto simp: blob_key_Inr_iff manifest_key_Inr_iff DATA_PREFIX_def MANIFESTS_PREFIX_def u_def)

text \<open>An accepted publication: every entry has its blob, the manifest is stored, and besides blobs only
  its key changed.\<close>

lemma publish_accepted:
  assumes "push_publish env now now_iso serialize real_remote prior frozen held local_m s = (Inr m, s')"
    and "wf_node s" "good_device (ue_device env)" "wf_manifest local_m" "wf_sources (prior_sources real_remote)"
    and "\<forall>name. blobs_at (ue_device env) s (files_in (prior_sources real_remote) name)"
    and "\<forall>name rel i. files_at local_m name rel = Some i \<and>
      (rel \<in> set (dget frozen name []) \<or> is_held held name rel) \<longrightarrow> has_blob (ue_device env) s i"
  shows "(\<forall>name rel i. files_at m name rel = Some i \<longrightarrow> has_blob (ue_device env) s' i) \<and>
    (\<exists>k. manifest_key (ue_device env) = Inr k \<and> stored s' k = Some (ue_enc env [] (serialize m))) \<and>
    (\<exists>s1. grows s s1 \<and> (\<forall>k. storage_key k \<longrightarrow> manifest_key (ue_device env) \<noteq> Inr k \<longrightarrow> stored s' k = stored s1 k))"
proof -
  from assms(1) obtain st s1 where u1: "push_upload env real_remote frozen held local_m s = (Inr st, s1)"
    and rc: "reconcile_tombstones env now now_iso prior st = Inr m"
    and pm: "publish_manifest env serialize m s1 = (Inr (), s')"
    by (auto simp: push_publish_def split: prod.splits sum.splits)
  from push_upload_ok [OF u1 assms(2-5)] assms(6,7) have gr: "grows s s1"
    and bl: "\<And>name. blobs_at (ue_device env) s1 (files_in (sources_of (ps_local st)) name)" by blast+
  have src: "sources_of m = sources_of (ps_local st)"
    using rc by (auto simp: reconcile_tombstones_def sources_of_def split: if_splits sum.splits)
  from pm obtain k where k: "manifest_key (ue_device env) = Inr k"
    "backend_put s1 k (ue_enc env [] (serialize m)) = Inr s'"
    by (auto simp: publish_manifest_def split: sum.splits if_splits)
  note sk = manifest_key_storage_key [OF assms(3) k(1)]
  note put = lb.put_ok [OF grows_wf [OF gr] sk [THEN conjunct1] k(2)]
  have "has_blob (ue_device env) s' i" if "files_at m name rel = Some i" for name rel i
  proof -
    from that bl [of name] have "has_blob (ue_device env) s1 i"
      by (auto simp: blobs_at_def files_at_def src)
    then obtain b where b: "blob_key (ue_device env) (JStr (fi_sha256 i)) = Inr b" "stored s1 b \<noteq> None"
      by (auto simp: has_blob_def)
    with put blob_key_storage_key [OF assms(3) b(1)] blob_key_not_manifest [OF b(1) k(1)] show ?thesis
      by (auto simp: has_blob_def)
  qed
  with put sk k(1) gr show ?thesis by auto
qed

section \<open>Properties\<close>


text \<open>A first push of two files, one of which changes while it is uploaded and settles.\<close>

definition up_sha :: "bytes \<Rightarrow> pystr" where
  "up_sha d = (if d = [1] then replicate 64 97 else replicate 64 98)"

definition up_env :: upload_env where
  "up_env = \<lparr>ue_device = u ''mac1'', ue_sha = up_sha, ue_enc = (\<lambda>_ d. d), ue_fromiso = parse_iso, ue_allow_hold = True,
     ue_read1 = (\<lambda>_ rel. if rel = u ''a.md''
        then Revision \<lparr>rv_data = [1], rv_digest = replicate 64 97, rv_size = 1, rv_mtime = u ''2026-01-02T03:04:05+00:00''\<rparr>
        else Changed (u ''changed'')),
     ue_read2 = (\<lambda>_ _. Revision \<lparr>rv_data = [2, 2], rv_digest = replicate 64 98, rv_size = 2,
        rv_mtime = u ''2026-01-02T03:04:06+00:00''\<rparr>),
     ue_root_ok = (\<lambda>_. True), ue_newer = (\<lambda>_. False)\<rparr>"

definition up_file :: file_info where
  "up_file = \<lparr>fi_sha256 = replicate 64 97, fi_mtime = Some (u ''2026-01-02T03:04:05+00:00''), fi_rest = [(u ''size'', JInt 1)]\<rparr>"

definition up_local :: manifest where
  "up_local = \<lparr>m_timestamp = u ''2026-01-02T03:04:07+00:00'', m_rest = [],
     m_sources = Some [(u ''claude'', \<lparr>sd_base_path = JStr (u ''/home/.claude''),
       sd_files = [(u ''a.md'', up_file), (u ''b.md'', up_file)]\<rparr>)], m_tombstones = []\<rparr>"

lemma up_local_wf: "wf_manifest up_local" "wf_sources (prior_sources None)" "good_device (u ''mac1'')"
proof -
  show "wf_manifest up_local" "wf_sources (prior_sources None)"
    by (simp_all add: up_local_def wf_manifest_def wf_sources_def sources_of_def prior_sources_def)
  show "good_device (u ''mac1'')" unfolding good_device_def by code_simp
qed

lemma up_run:
  obtains m s' where
    "push_publish up_env 0 [] (\<lambda>_. [9]) None None [] [] up_local (Folder []) = (Inr m, s')"
    "map_option fi_sha256 (files_at m (u ''claude'') (u ''b.md'')) = Some (replicate 64 98)"
proof -
  have "case push_publish up_env 0 [] (\<lambda>_. [9]) None None [] [] up_local (Folder []) of
      (Inl _, _) \<Rightarrow> False
    | (Inr m, _) \<Rightarrow> map_option fi_sha256 (files_at m (u ''claude'') (u ''b.md'')) = Some (replicate 64 98)"
    by code_simp
  then show ?thesis by (auto intro: that split: prod.splits sum.splits)
qed


text \<open>A push that fails -- at any read, any put, or the manifest itself -- leaves the published
  manifest and everything else outside the blobs exactly as they were, and no push, failing or not,
  ever removes a stored blob, so the old manifest stays complete.\<close>

theorem push_failure_keeps_published:
  assumes "push_publish env now now_iso serialize real_remote prior frozen held local_m s = (r, s')"
    and "wf_node s" "good_device (ue_device env)" "wf_manifest local_m" "wf_sources (prior_sources real_remote)"
    and "\<forall>name. blobs_at (ue_device env) s (files_in (prior_sources real_remote) name)"
    and "\<forall>name rel i. files_at local_m name rel = Some i \<and>
      (rel \<in> set (dget frozen name []) \<or> is_held held name rel) \<longrightarrow> has_blob (ue_device env) s i"
    and "storage_key k"
  shows "(stored s k \<noteq> None \<longrightarrow> stored s' k \<noteq> None) \<and>
    ((\<exists>e. r = Inl e) \<and> \<not> startswith k DATA_PREFIX \<longrightarrow> stored s' k = stored s k)"
proof -
  obtain r1 s1 where u1: "push_upload env real_remote frozen held local_m s = (r1, s1)" by fastforce
  from push_upload_ok [OF u1 assms(2-5)] assms(6,7) have gr: "grows s s1" by blast
  show ?thesis
  proof (cases "s' = s1")
    case True
    with gr assms(8) show ?thesis by (auto simp: grows_def)
  next
    case False
    with assms(1) u1 obtain m key where k: "r = Inr m" "manifest_key (ue_device env) = Inr key"
      "backend_put s1 key (ue_enc env [] (serialize m)) = Inr s'"
      by (auto simp: push_publish_def publish_manifest_def dest: sym split: sum.splits prod.splits if_splits)
    note put = lb.put_ok [OF grows_wf [OF gr] manifest_key_storage_key [OF assms(3) k(2), THEN conjunct1] k(3)]
    with gr assms(8) k(1) show ?thesis by (auto simp: grows_def)
  qed
qed


theorem push_failure_keeps_published_witness:
  "\<exists>s'. push_publish (up_env\<lparr>ue_allow_hold := False, ue_read2 := (\<lambda>_ _. Changed (u ''changed''))\<rparr>) 0 [] (\<lambda>_. [9])
        None None [] [] up_local
        (Folder [(u ''manifests'', Folder [(u ''mac1'', Folder [(u ''manifest.json.enc'', File [7])])])]) =
        (Inl (UTransient (u ''changed'')), s') \<and>
     stored s' (u ''manifests/mac1/manifest.json.enc'') = Some [7]"
proof -
  let ?env = "up_env\<lparr>ue_allow_hold := False, ue_read2 := (\<lambda>_ _. Changed (u ''changed''))\<rparr>"
  let ?s = "Folder [(u ''manifests'', Folder [(u ''mac1'', Folder [(u ''manifest.json.enc'', File [7])])])]"
  let ?k = "u ''manifests/mac1/manifest.json.enc''"
  have "fst (push_publish ?env 0 [] (\<lambda>_. [9]) None None [] [] up_local ?s) = Inl (UTransient (u ''changed''))"
    by code_simp
  then obtain s' where r: "push_publish ?env 0 [] (\<lambda>_. [9]) None None [] [] up_local ?s =
      (Inl (UTransient (u ''changed'')), s')" by (metis prod.collapse)
  have d: "ue_device ?env = u ''mac1''" by (simp add: up_env_def)
  have h: "\<forall>name. blobs_at (ue_device ?env) ?s (files_in (prior_sources None) name)"
    "\<forall>name rel i. files_at up_local name rel = Some i \<and> (rel \<in> set (dget [] name []) \<or> is_held [] name rel) \<longrightarrow>
      has_blob (ue_device ?env) ?s i"
    by (simp_all add: blobs_at_def files_in_def prior_sources_def is_held_def dget_def)
  have w: "wf_node ?s" by (simp add: plain_name_def u_def)
  have k: "storage_key ?k" by (simp add: storage_key_def plain_name_def is_foreign_name_def FOREIGN_PREFIXES_def u_def)
  have "stored ?s ?k = Some [7]" "\<not> startswith ?k DATA_PREFIX"
    by (simp_all add: stored_def path_parts_def DATA_PREFIX_def u_def)
  with push_failure_keeps_published [OF r w up_local_wf(3) [folded d] up_local_wf(1,2) h k] r show ?thesis by auto
qed

end
