(* ===== verification/Regex.thy ===== *)
theory Regex
  imports Prelude
begin

text \<open>
  The regular expressions of Python's \<open>re\<close> as far as the storage code uses them. A matcher maps a string
  to the list of its matches, each as the matched text and the rest, in the order in which the
  backtracking engine tries them, so the first element of the list is the match that Python returns.
  Text is a list of code points; the character classes are those of Unicode 14.
\<close>

type_synonym matches = "(pystr \<times> pystr) list"

section \<open>Character classes\<close>

text \<open>The whitespace of \<open>str.isspace\<close> and \<open>\s\<close>, and the first digits of the runs of ten decimal
  digits that \<open>\d\<close> accepts.\<close>

definition is_space :: "int \<Rightarrow> bool" where
  "is_space c \<longleftrightarrow>
     (9 \<le> c \<and> c \<le> 13) \<or> (28 \<le> c \<and> c \<le> 32) \<or> (8192 \<le> c \<and> c \<le> 8202) \<or>
     c \<in> set [133, 160, 5760, 8232, 8233, 8239, 8287, 12288]"

definition ZEROS :: "int list" where
  "ZEROS =
    [48, 1632, 1776, 1984, 2406, 2534, 2662, 2790, 2918, 3046, 3174, 3302, 3430, 3558, 3664, 3792, 3872,
     4160, 4240, 6112, 6160, 6470, 6608, 6784, 6800, 6992, 7088, 7232, 7248, 42528, 43216, 43264, 43472,
     43504, 43600, 44016, 65296, 66720, 68912, 69734, 69872, 69942, 70096, 70384, 70736, 70864, 71248,
     71360, 71472, 71904, 72016, 72784, 73040, 73120, 92768, 92864, 93008, 120782, 120792, 120802,
     120812, 120822, 123200, 123632, 125264, 130032]"

definition is_decimal :: "int \<Rightarrow> bool" where
  "is_decimal c \<longleftrightarrow> list_ex (\<lambda>z. z \<le> c \<and> c < z + 10) ZEROS"

definition not_newline :: "int \<Rightarrow> bool" where
  "not_newline c \<longleftrightarrow> c \<noteq> 10"

text \<open>One character of a literal under \<open>re.IGNORECASE\<close>: the letter in either case, and for \<open>i\<close> also the
  dotted capital and the dotless small letter.\<close>

definition same_letter :: "int \<Rightarrow> int \<Rightarrow> bool" where
  "same_letter l c \<longleftrightarrow>
     c = l \<or> (97 \<le> l \<and> l \<le> 122 \<and> c = l - 32) \<or> (l = 105 \<and> c \<in> set [304, 305])"

section \<open>Matchers\<close>

text \<open>\<open>[...]{n}\<close>, \<open>[...]+?\<close>, \<open>[...]+\<close>, \<open>[...]*?\<close>, a literal, and \<open>$\<close> (at the end or before a final newline).\<close>

definition exactly :: "nat \<Rightarrow> (int \<Rightarrow> bool) \<Rightarrow> pystr \<Rightarrow> matches" where
  "exactly n P s = (if n \<le> length s \<and> list_all P (take n s) then [(take n s, drop n s)] else [])"

definition lazy_star :: "(int \<Rightarrow> bool) \<Rightarrow> pystr \<Rightarrow> matches" where
  "lazy_star P s = map (\<lambda>n. (take n s, drop n s)) [0..<Suc (length (takeWhile P s))]"

definition lazy_plus :: "(int \<Rightarrow> bool) \<Rightarrow> pystr \<Rightarrow> matches" where
  "lazy_plus P s = map (\<lambda>n. (take n s, drop n s)) [1..<Suc (length (takeWhile P s))]"

definition greedy_plus :: "(int \<Rightarrow> bool) \<Rightarrow> pystr \<Rightarrow> matches" where
  "greedy_plus P s = rev (lazy_plus P s)"

definition literal :: "pystr \<Rightarrow> pystr \<Rightarrow> matches" where
  "literal l s = (if startswith s l then [(l, drop (length l) s)] else [])"

definition literal_nocase :: "pystr \<Rightarrow> pystr \<Rightarrow> matches" where
  "literal_nocase l s =
     (if length l \<le> length s \<and> list_all2 same_letter l (take (length l) s)
      then [(take (length l) s, drop (length l) s)] else [])"

definition optional :: "(pystr \<Rightarrow> matches) \<Rightarrow> pystr \<Rightarrow> matches" where
  "optional m s = m s @ [([], s)]"

definition then_match :: "(pystr \<Rightarrow> matches) \<Rightarrow> (pystr \<Rightarrow> matches) \<Rightarrow> pystr \<Rightarrow> matches" where
  "then_match m1 m2 s = concat (map (\<lambda>(a, r). map (\<lambda>(b, r'). (a @ b, r')) (m2 r)) (m1 s))"

text \<open>\<open>(...)+\<close> of a matcher that consumes at least one character: the length of the text bounds the
  number of rounds.\<close>

fun repeat_plus :: "nat \<Rightarrow> (pystr \<Rightarrow> matches) \<Rightarrow> pystr \<Rightarrow> matches" where
  "repeat_plus 0 m s = []"
| "repeat_plus (Suc n) m s =
     concat (map (\<lambda>(a, r). map (\<lambda>(b, r'). (a @ b, r')) (repeat_plus n m r) @ [(a, r)]) (m s))"

definition at_end :: "pystr \<Rightarrow> bool" where
  "at_end s \<longleftrightarrow> s = [] \<or> s = [10]"

section \<open>Laws\<close>

text \<open>What a match is, whatever the order.\<close>

lemma set_exactly: "(a, r) \<in> set (exactly n P s) \<longleftrightarrow> s = a @ r \<and> length a = n \<and> (\<forall>c \<in> set a. P c)"
  by (auto simp: exactly_def list_all_iff)

lemma takeWhile_take: "n \<le> length (takeWhile P s) \<longleftrightarrow> n \<le> length s \<and> (\<forall>c \<in> set (take n s). P c)"
proof (induction s arbitrary: n)
  case Nil
  then show ?case by simp
next
  case (Cons c s)
  then show ?case by (cases n) auto
qed

lemma set_lazy_star: "(a, r) \<in> set (lazy_star P s) \<longleftrightarrow> s = a @ r \<and> (\<forall>c \<in> set a. P c)"
proof
  assume "(a, r) \<in> set (lazy_star P s)"
  then show "s = a @ r \<and> (\<forall>c \<in> set a. P c)"
    by (auto simp: lazy_star_def less_Suc_eq_le takeWhile_take simp del: upt_Suc)
next
  assume "s = a @ r \<and> (\<forall>c \<in> set a. P c)"
  then have "a = take (length a) s" "r = drop (length a) s" "length a \<le> length (takeWhile P s)"
    by (auto simp: takeWhile_take)
  then show "(a, r) \<in> set (lazy_star P s)"
    by (force simp: lazy_star_def less_Suc_eq_le simp del: upt_Suc)
qed

lemma set_lazy_plus: "(a, r) \<in> set (lazy_plus P s) \<longleftrightarrow> s = a @ r \<and> a \<noteq> [] \<and> (\<forall>c \<in> set a. P c)"
proof
  assume "(a, r) \<in> set (lazy_plus P s)"
  then show "s = a @ r \<and> a \<noteq> [] \<and> (\<forall>c \<in> set a. P c)"
    by (auto simp: lazy_plus_def less_Suc_eq_le takeWhile_take simp del: upt_Suc)
next
  assume "s = a @ r \<and> a \<noteq> [] \<and> (\<forall>c \<in> set a. P c)"
  then have "a = take (length a) s" "r = drop (length a) s" "length a \<le> length (takeWhile P s)" "1 \<le> length a"
    by (auto simp: takeWhile_take Suc_le_eq)
  then show "(a, r) \<in> set (lazy_plus P s)"
    by (force simp: lazy_plus_def less_Suc_eq_le simp del: upt_Suc)
qed

lemma set_greedy_plus: "(a, r) \<in> set (greedy_plus P s) \<longleftrightarrow> s = a @ r \<and> a \<noteq> [] \<and> (\<forall>c \<in> set a. P c)"
  by (simp add: greedy_plus_def set_lazy_plus)

lemma set_literal: "(a, r) \<in> set (literal l s) \<longleftrightarrow> s = a @ r \<and> a = l"
  by (auto simp: literal_def startswith_iff)

lemma set_literal_nocase: "(a, r) \<in> set (literal_nocase l s) \<longleftrightarrow> s = a @ r \<and> list_all2 same_letter l a"
proof
  assume "s = a @ r \<and> list_all2 same_letter l a"
  moreover from this have "length l = length a" by (blast dest: list_all2_lengthD)
  ultimately show "(a, r) \<in> set (literal_nocase l s)" by (simp add: literal_nocase_def)
qed (auto simp: literal_nocase_def split: if_splits)

lemma set_optional: "(a, r) \<in> set (optional m s) \<longleftrightarrow> (a, r) \<in> set (m s) \<or> (a = [] \<and> r = s)"
  by (auto simp: optional_def)

lemma set_then_match:
  "(a, r) \<in> set (then_match m1 m2 s) \<longleftrightarrow>
     (\<exists>b c t. (b, t) \<in> set (m1 s) \<and> (c, r) \<in> set (m2 t) \<and> a = b @ c)"
  by (force simp: then_match_def)

lemmas set_matchers = set_exactly set_lazy_star set_lazy_plus set_greedy_plus set_literal set_literal_nocase
  set_optional set_then_match

end
