(* ===== verification/Merge.thy ===== *)
theory Merge
  imports Json Utf8 Regex
begin

text \<open>
  \<open>merge.py\<close>: which files are merged on pull, the line union of \<open>MEMORY.md\<close>, and the line union of
  \<open>.jsonl\<close> files with its timestamp order. A Python set is iterated in an order of its own: \<open>iter S\<close>
  is the list of one iteration over the set \<open>S\<close>, and the laws hold for every such order. \<open>lim\<close> is the
  recursion limit of the JSON decoder.
\<close>

section \<open>Lines\<close>

text \<open>The line boundaries of \<open>str.splitlines\<close>.\<close>

definition is_break :: "int \<Rightarrow> bool" where
  "is_break c \<longleftrightarrow> c \<in> set [10, 11, 12, 13, 28, 29, 30, 133, 8232, 8233]"

text \<open>\<open>s.splitlines()\<close>: a carriage return and a following line feed are one boundary, and text after
  the last boundary is a line only when it is not empty.\<close>

function splitlines :: "pystr \<Rightarrow> pystr list" where
  "splitlines [] = []"
| "splitlines (c # cs) =
     (if is_break c
      then [] # splitlines (if c = 13 \<and> cs \<noteq> [] \<and> hd cs = 10 then tl cs else cs)
      else (case splitlines cs of [] \<Rightarrow> [[c]] | w # ws \<Rightarrow> (c # w) # ws))"
  by pat_completeness auto
termination
  by (relation "measure length") auto

definition rstrip :: "pystr \<Rightarrow> pystr" where
  "rstrip s = rev (dropWhile is_space (rev s))"

definition strip :: "pystr \<Rightarrow> pystr" where
  "strip s = dropWhile is_space (rstrip s)"

definition split_lines :: "bytes \<Rightarrow> pystr list" where
  "split_lines data =
     (if data = [] then []
      else map rstrip (filter (\<lambda>line. strip line \<noteq> []) (splitlines (decode_utf8_replace data))))"

text \<open>\<open>None\<close> is \<open>UnicodeEncodeError\<close>.\<close>

definition join_lines :: "pystr list \<Rightarrow> bytes option" where
  "join_lines lines =
     (if lines = [] then Some [] else map_option (\<lambda>b. b @ [10]) (encode_utf8 (join_with [10] lines)))"

section \<open>Merging\<close>

text \<open>Only a JSON object with a string \<open>ts\<close> contributes a key; decoder failures do not.\<close>

definition extract_ts :: "nat \<Rightarrow> pystr \<Rightarrow> pystr option" where
  "extract_ts lim line =
     (case json_loads lim line of
        Inl _ \<Rightarrow> None
      | Inr v \<Rightarrow>
          (case as_obj v of
             None \<Rightarrow> None
           | Some d \<Rightarrow> (case map_of d (u ''ts'') of None \<Rightarrow> None | Some ts \<Rightarrow> as_str ts)))"

definition merge_lines :: "(pystr set \<Rightarrow> pystr list) \<Rightarrow> bytes \<Rightarrow> bytes \<Rightarrow> bytes option" where
  "merge_lines iter local_bytes remote_bytes =
     join_lines (sort (iter (set (split_lines local_bytes) \<union> set (split_lines remote_bytes))))"

fun by_ts :: "nat \<Rightarrow> pystr list \<Rightarrow> (pystr \<times> pystr) list \<times> pystr list" where
  "by_ts lim [] = ([], [])"
| "by_ts lim (line # lines) =
     (case by_ts lim lines of (stamped, fallback) \<Rightarrow>
        (case extract_ts lim line of
           Some ts \<Rightarrow> ((ts, line) # stamped, fallback)
         | None \<Rightarrow> (stamped, line # fallback)))"

definition merge_jsonl :: "nat \<Rightarrow> (pystr set \<Rightarrow> pystr list) \<Rightarrow> bytes \<Rightarrow> bytes \<Rightarrow> bytes option" where
  "merge_jsonl lim iter local_bytes remote_bytes =
     (case by_ts lim (iter (set (split_lines local_bytes) \<union> set (split_lines remote_bytes))) of
        (string_timestamped, fallback_lines) \<Rightarrow>
          join_lines (map snd (sort string_timestamped) @ sort fallback_lines))"

datatype strategy = MergeJsonl | MergeLines

definition merge_strategy :: "pystr \<Rightarrow> strategy option" where
  "merge_strategy rel_path =
     (if endswith rel_path (u ''.jsonl'') then Some MergeJsonl
      else if last (split_on 47 rel_path) = u ''MEMORY.md'' then Some MergeLines
      else None)"

definition should_merge :: "pystr \<Rightarrow> bool" where
  "should_merge rel_path \<longleftrightarrow> merge_strategy rel_path \<noteq> None"

definition merge_file :: "nat \<Rightarrow> (pystr set \<Rightarrow> pystr list) \<Rightarrow> pystr \<Rightarrow> bytes \<Rightarrow> bytes \<Rightarrow> bytes option" where
  "merge_file lim iter rel_path local_bytes remote_bytes =
     (case merge_strategy rel_path of
        None \<Rightarrow> Some remote_bytes
      | Some MergeJsonl \<Rightarrow> merge_jsonl lim iter local_bytes remote_bytes
      | Some MergeLines \<Rightarrow> merge_lines iter local_bytes remote_bytes)"

section \<open>Laws of lines\<close>

text \<open>A line as \<open>_split_lines\<close> produces it.\<close>

definition normal_line :: "pystr \<Rightarrow> bool" where
  "normal_line w \<longleftrightarrow> w \<noteq> [] \<and> \<not> is_space (last w) \<and> (\<forall>c \<in> set w. \<not> is_break c \<and> is_scalar c)"

lemma splitlines_app: "\<forall>c \<in> set w. \<not> is_break c \<Longrightarrow> splitlines (w @ 10 # s) = w # splitlines s"
  by (induction w) (simp_all add: is_break_def)

lemma splitlines_chars: "w \<in> set (splitlines s) \<Longrightarrow> c \<in> set w \<Longrightarrow> \<not> is_break c \<and> c \<in> set s"
proof (induction s arbitrary: w rule: splitlines.induct)
  case 1
  then show ?case by simp
next
  case (2 d cs)
  show ?case
  proof (cases "is_break d")
    case True
    with "2.prems" have "w \<in> set (splitlines (if d = 13 \<and> cs \<noteq> [] \<and> hd cs = 10 then tl cs else cs))" by auto
    from "2.IH"(1) [OF True this "2.prems"(2)] show ?thesis by (auto split: if_splits dest: list.set_sel(2))
  next
    case False
    show ?thesis
    proof (cases "splitlines cs")
      case Nil
      with False "2.prems" show ?thesis by auto
    next
      case (Cons v vs)
      with False "2.prems" have "w = d # v \<or> w \<in> set (splitlines cs)" by auto
      with "2.IH"(2) [OF False, of v] "2.IH"(2) [OF False, of w] Cons "2.prems"(2) False show ?thesis by auto
    qed
  qed
qed

lemma set_rstrip: "set (rstrip s) \<subseteq> set s"
  by (auto simp: rstrip_def dest: set_dropWhileD)

lemma rstrip_last: "rstrip s \<noteq> [] \<Longrightarrow> \<not> is_space (last (rstrip s))"
  using hd_dropWhile [where xs = "rev s" and P = is_space] by (auto simp: rstrip_def last_rev)

lemma rstrip_id: "s = [] \<or> \<not> is_space (last s) \<Longrightarrow> rstrip s = s"
  by (cases s rule: rev_cases) (auto simp: rstrip_def)

lemma strip_normal: "normal_line w \<Longrightarrow> strip w \<noteq> []"
  by (auto simp: normal_line_def strip_def rstrip_id dropWhile_eq_Nil_conv dest: last_in_set)

lemma split_lines_normal: "w \<in> set (split_lines data) \<Longrightarrow> normal_line w"
proof -
  assume "w \<in> set (split_lines data)"
  then obtain v where v: "v \<in> set (splitlines (decode_utf8_replace data))" "strip v \<noteq> []" "w = rstrip v"
    by (auto simp: split_lines_def split: if_splits)
  from v(2,3) have "w \<noteq> []" by (auto simp: strip_def)
  moreover have "\<forall>c \<in> set w. \<not> is_break c \<and> is_scalar c"
    using splitlines_chars [OF v(1)] set_rstrip [of v] decode_utf8_replace_scalar [of data] v(3)
    by (auto simp: list_all_iff)
  ultimately show ?thesis using rstrip_last [of v] v(3) by (simp add: normal_line_def)
qed

lemma encode_utf8_snoc: "encode_utf8 s = Some b \<Longrightarrow> encode_utf8 (s @ [10]) = Some (b @ [10])"
  by (auto simp: encode_utf8_def encode_ints_def encode_char_def is_scalar_def split: if_splits)

lemma splitlines_join: "\<forall>w \<in> set ws. normal_line w \<Longrightarrow> ws \<noteq> [] \<Longrightarrow> splitlines (join_with [10] ws @ [10]) = ws"
proof (induction "[10 :: int]" ws rule: join_with.induct)
  case (2 w)
  then show ?case using splitlines_app [of w "[]"] by (simp add: normal_line_def)
next
  case (3 w v ws)
  then show ?case using splitlines_app [of w "join_with [10] (v # ws) @ [10]"] by (simp add: normal_line_def)
qed simp

lemma join_lines_split:
  assumes "\<forall>w \<in> set ws. normal_line w"
  shows "\<exists>b. join_lines ws = Some b \<and> split_lines b = ws"
proof (cases "ws = []")
  case True
  then show ?thesis by (simp add: join_lines_def split_lines_def)
next
  case False
  have "set (join_with [10] ws) \<subseteq> (\<Union>w \<in> set ws. set w) \<union> {10}" using set_join_with [of "[10]" ws] by simp
  with assms have "\<forall>c \<in> set (join_with [10] ws). is_scalar c" by (fastforce simp: normal_line_def is_scalar_def)
  then obtain e where e: "encode_utf8 (join_with [10] ws) = Some e" by (simp add: encode_utf8_def list_all_iff)
  have d: "decode_utf8_replace (e @ [10]) = join_with [10] ws @ [10]"
    using decode_utf8_replace_encode [OF encode_utf8_snoc [OF e]] .
  have "split_lines (e @ [10]) = map rstrip (filter (\<lambda>line. strip line \<noteq> []) ws)"
    by (simp add: split_lines_def d splitlines_join [OF assms False])
  also have "filter (\<lambda>line. strip line \<noteq> []) ws = ws" using assms strip_normal by (simp add: filter_id_conv)
  also have "map rstrip ws = ws" using assms by (intro map_idI) (simp add: normal_line_def rstrip_id)
  finally show ?thesis using False e by (simp add: join_lines_def)
qed


section \<open>Unions of lines\<close>

text \<open>What the two mergers have in common: they never fail, the merge has the lines of both sides and
  no others, and its bytes depend on nothing but that set of lines.\<close>

locale line_union =
  fixes merge :: "bytes \<Rightarrow> bytes \<Rightarrow> bytes option"
  assumes merge_total: "\<exists>m. merge a b = Some m"
    and merge_set: "merge a b = Some m \<Longrightarrow> set (split_lines m) = set (split_lines a) \<union> set (split_lines b)"
    and merge_canonical: "set (split_lines a) \<union> set (split_lines b) = set (split_lines c) \<union> set (split_lines d) \<Longrightarrow>
      merge a b = merge c d"

text \<open>A version merged with the versions of other devices, one after the other.\<close>

fun merge_all :: "(bytes \<Rightarrow> bytes \<Rightarrow> bytes option) \<Rightarrow> bytes \<Rightarrow> bytes list \<Rightarrow> bytes option" where
  "merge_all merge a [] = Some a"
| "merge_all merge a (b # bs) = (case merge a b of None \<Rightarrow> None | Some m \<Rightarrow> merge_all merge m bs)"

context line_union
begin

lemma merge_commute: "merge a b = merge b a"
  by (rule merge_canonical) (rule Un_commute)

lemma merge_absorb: "merge a b = Some m \<Longrightarrow> merge m b = Some m \<and> merge a m = Some m \<and> merge m m = Some m"
proof -
  assume m: "merge a b = Some m"
  note s = merge_set [OF m]
  have "merge m b = merge a b" "merge a m = merge a b" "merge m m = merge a b"
    by (rule merge_canonical; auto simp: s)+
  with m show ?thesis by simp
qed

lemma merge_assoc: "merge a b = Some m \<Longrightarrow> merge b c = Some n \<Longrightarrow> merge m c = merge a n"
  by (rule merge_canonical) (auto simp: merge_set)

definition merged :: "bytes \<Rightarrow> bytes list \<Rightarrow> bytes \<Rightarrow> bool" where
  "merged a bs m \<longleftrightarrow> merge_all merge a bs = Some m \<and>
     set (split_lines m) = set (split_lines a) \<union> (\<Union>b \<in> set bs. set (split_lines b)) \<and>
     (bs \<noteq> [] \<longrightarrow> merge m m = Some m)"

lemma merge_all_ok: "\<exists>m. merged a bs m"
proof (induction bs arbitrary: a)
  case Nil
  then show ?case by (simp add: merged_def)
next
  case (Cons b bs)
  obtain m where m: "merge a b = Some m" using merge_total by blast
  from Cons.IH obtain k where k: "merged m bs k" by blast
  have "merge k k = Some k"
  proof (cases "bs = []")
    case True
    with k merge_absorb [OF m] show ?thesis by (simp add: merged_def)
  next
    case False
    with k show ?thesis by (simp add: merged_def)
  qed
  moreover have "set (split_lines k) = set (split_lines a) \<union> (\<Union>b \<in> set (b # bs). set (split_lines b))"
    using k merge_set [OF m] by (simp add: merged_def Un_assoc)
  ultimately have "merged a (b # bs) k" using k m by (simp add: merged_def)
  then show ?case by blast
qed

lemma merge_all_converges:
  assumes "bs \<noteq> []" "cs \<noteq> []"
    and "set (split_lines a) \<union> (\<Union>b \<in> set bs. set (split_lines b)) =
      set (split_lines c) \<union> (\<Union>b \<in> set cs. set (split_lines b))"
  shows "merge_all merge a bs = merge_all merge c cs"
proof -
  obtain m where m: "merged a bs m" using merge_all_ok by blast
  obtain n where n: "merged c cs n" using merge_all_ok by blast
  have "merge m m = merge n n" by (rule merge_canonical) (use m n assms(3) in \<open>simp add: merged_def\<close>)
  with m n assms(1,2) show ?thesis by (simp add: merged_def)
qed

end

text \<open>Every order in which a set may be iterated.\<close>

definition set_order :: "(pystr set \<Rightarrow> pystr list) \<Rightarrow> bool" where
  "set_order iter \<longleftrightarrow> (\<forall>S. finite S \<longrightarrow> set (iter S) = S \<and> distinct (iter S))"

lemma by_ts_filter:
  "by_ts lim lines =
     (map (\<lambda>line. (the (extract_ts lim line), line)) (filter (\<lambda>line. extract_ts lim line \<noteq> None) lines),
      filter (\<lambda>line. extract_ts lim line = None) lines)"
  by (induction lines) (auto split: option.split)

text \<open>The order of the merged lines: by timestamp, then the rest.\<close>

definition jsonl_order :: "nat \<Rightarrow> pystr list \<Rightarrow> pystr list" where
  "jsonl_order lim lines =
     map snd (sort (map (\<lambda>line. (the (extract_ts lim line), line)) (filter (\<lambda>line. extract_ts lim line \<noteq> None) lines))) @
     sort (filter (\<lambda>line. extract_ts lim line = None) lines)"

lemma set_jsonl_order [simp]: "set (jsonl_order lim lines) = set lines"
  by (force simp: jsonl_order_def)

lemma distinct_mset_eq: "distinct xs \<Longrightarrow> distinct ys \<Longrightarrow> set xs = set ys \<Longrightarrow> mset xs = mset ys"
  by (simp add: set_eq_iff_mset_eq_distinct)

lemma sort_mset: "mset xs = mset ys \<Longrightarrow> sort xs = sort ys"
  by (metis mset_sort properties_for_sort sorted_sort)

lemma jsonl_order_mset: "mset xs = mset ys \<Longrightarrow> jsonl_order lim xs = jsonl_order lim ys"
  unfolding jsonl_order_def
  by (intro arg_cong2 [of _ _ _ _ append] arg_cong [of _ _ "map snd"] sort_mset) (simp_all add: mset_filter)

lemma merge_jsonl_eq:
  "merge_jsonl lim iter a b = join_lines (jsonl_order lim (iter (set (split_lines a) \<union> set (split_lines b))))"
  by (simp add: merge_jsonl_def by_ts_filter jsonl_order_def)

lemma union_join:
  assumes "set_order iter" "\<And>xs. set (order xs) = set xs"
  shows "\<exists>m. join_lines (order (iter (set (split_lines a) \<union> set (split_lines b)))) = Some m \<and>
    split_lines m = order (iter (set (split_lines a) \<union> set (split_lines b)))"
proof (rule join_lines_split)
  have "set (iter (set (split_lines a) \<union> set (split_lines b))) = set (split_lines a) \<union> set (split_lines b)"
    using assms(1) by (simp add: set_order_def)
  with assms(2) split_lines_normal
  show "\<forall>w \<in> set (order (iter (set (split_lines a) \<union> set (split_lines b)))). normal_line w" by auto
qed

lemma line_union_of:
  assumes "set_order iter" "\<And>xs. set (order xs) = set xs"
    and "\<And>a b. merge a b = join_lines (order (iter (set (split_lines a) \<union> set (split_lines b))))"
  shows "line_union merge"
proof
  fix a b c d m
  have it: "set (iter (set (split_lines a) \<union> set (split_lines b))) = set (split_lines a) \<union> set (split_lines b)"
    using assms(1) by (simp add: set_order_def)
  show "\<exists>m. merge a b = Some m"
    using union_join [of iter order a b, OF assms(1,2)] assms(3) by metis
  show "set (split_lines m) = set (split_lines a) \<union> set (split_lines b)" if "merge a b = Some m"
    using union_join [of iter order a b, OF assms(1,2)] that assms(2,3) it by (metis option.inject)
  show "merge a b = merge c d" if "set (split_lines a) \<union> set (split_lines b) = set (split_lines c) \<union> set (split_lines d)"
    using that assms(3) by simp
qed


text \<open>The order of iteration never matters, so the laws are proved for one order.\<close>

lemma set_order_sorted: "set_order sorted_list_of_set"
  by (simp add: set_order_def)

lemma set_order_mset: "set_order iter \<Longrightarrow> finite S \<Longrightarrow> mset (iter S) = mset (sorted_list_of_set S)"
  by (rule distinct_mset_eq) (simp_all add: set_order_def)

lemma merge_order:
  assumes "set_order iter"
  shows "merge_jsonl lim iter a b = merge_jsonl lim sorted_list_of_set a b"
    and "merge_lines iter a b = merge_lines sorted_list_of_set a b"
    and "merge_file lim iter rel a b = merge_file lim sorted_list_of_set rel a b"
proof -
  have m: "mset (iter (set (split_lines a) \<union> set (split_lines b))) =
      mset (sorted_list_of_set (set (split_lines a) \<union> set (split_lines b)))"
    by (rule set_order_mset [OF assms]) simp
  show j: "merge_jsonl lim iter a b = merge_jsonl lim sorted_list_of_set a b"
    unfolding merge_jsonl_eq by (rule arg_cong [OF jsonl_order_mset [OF m]])
  show l: "merge_lines iter a b = merge_lines sorted_list_of_set a b"
    unfolding merge_lines_def by (rule arg_cong [OF sort_mset [OF m]])
  show "merge_file lim iter rel a b = merge_file lim sorted_list_of_set rel a b"
    by (simp add: merge_file_def j l split: option.split strategy.split)
qed

interpretation jsonl: line_union "merge_jsonl lim sorted_list_of_set" for lim
  by (rule line_union_of [OF set_order_sorted, where order = "jsonl_order lim"]) (simp_all add: merge_jsonl_eq)

interpretation index: line_union "merge_lines sorted_list_of_set"
  by (rule line_union_of [OF set_order_sorted, where order = sort]) (simp_all add: merge_lines_def)

lemma merge_all_order:
  "set_order iter \<Longrightarrow> merge_all (merge_file lim iter rel) a bs = merge_all (merge_file lim sorted_list_of_set rel) a bs"
  by (induction bs arbitrary: a) (auto simp: merge_order(3) split: option.split)

lemma merge_file_strategy:
  "merge_strategy rel = Some MergeJsonl \<Longrightarrow> merge_file lim iter rel = merge_jsonl lim iter"
  "merge_strategy rel = Some MergeLines \<Longrightarrow> merge_file lim iter rel = merge_lines iter"
  by (auto simp: merge_file_def fun_eq_iff)

lemma merge_file_union:
  assumes "should_merge rel"
  shows "line_union (merge_file lim sorted_list_of_set rel)"
proof (cases "merge_strategy rel")
  case None
  with assms show ?thesis by (simp add: should_merge_def)
next
  case (Some st)
  with merge_file_strategy [of rel lim] jsonl.line_union_axioms index.line_union_axioms show ?thesis
    by (cases st) simp_all
qed

section \<open>Properties\<close>

text \<open>A merge loses nothing and settles at once. For a mergeable path the merge always succeeds,
  its lines are exactly the lines of the two sides (up to trailing blanks and empty lines), it is the
  same bytes whichever side is local and in whatever order a set is iterated, and merging the result
  again with either side or itself changes no byte -- so a pull that repeats is a no-op. Any other
  path is overwritten with the remote bytes.\<close>

theorem merge_union_absorbs:
  assumes "set_order iter" "set_order iter'"
  shows "if should_merge rel
    then \<exists>m. merge_file lim iter rel a b = Some m \<and>
      set (split_lines m) = set (split_lines a) \<union> set (split_lines b) \<and>
      merge_file lim iter' rel a b = Some m \<and> merge_file lim iter' rel b a = Some m \<and>
      merge_file lim iter' rel m b = Some m \<and> merge_file lim iter' rel a m = Some m \<and>
      merge_file lim iter' rel m m = Some m
    else merge_file lim iter rel a b = Some b"
proof (cases "should_merge rel")
  case True
  note lu = merge_file_union [OF True, of lim]
  obtain m where m: "merge_file lim sorted_list_of_set rel a b = Some m"
    using line_union.merge_total [OF lu] by blast
  note facts = m line_union.merge_set [OF lu m] line_union.merge_absorb [OF lu m]
    line_union.merge_commute [OF lu, of b a]
  show ?thesis unfolding merge_order(3) [OF assms(1)] merge_order(3) [OF assms(2)] if_P [OF True]
    by (rule exI [of _ m]) (simp add: facts)
next
  case False
  then show ?thesis by (simp add: should_merge_def merge_file_def)
qed

theorem merge_union_absorbs_witness:
  "\<exists>m. merge_file 50 sorted_list_of_set (u ''log.jsonl'') [123, 125, 10] [34, 34, 13, 10, 32] = Some m \<and>
     set (split_lines m) = {[34, 34], [123, 125]} \<and>
     merge_file 50 sorted_list_of_set (u ''log.jsonl'') m m = Some m"
proof -
  have sm: "should_merge (u ''log.jsonl'')" by code_simp
  have a: "split_lines [123, 125, 10] = [[123, 125]]" by code_simp
  have b: "split_lines [34, 34, 13, 10, 32] = [[34, 34]]" by code_simp
  from merge_union_absorbs [OF set_order_sorted set_order_sorted, of "u ''log.jsonl''" 50 "[123, 125, 10]" "[34, 34, 13, 10, 32]"]
  obtain m where m: "merge_file 50 sorted_list_of_set (u ''log.jsonl'') [123, 125, 10] [34, 34, 13, 10, 32] = Some m"
    "set (split_lines m) = set (split_lines [123, 125, 10]) \<union> set (split_lines [34, 34, 13, 10, 32])"
    "merge_file 50 sorted_list_of_set (u ''log.jsonl'') m m = Some m"
    unfolding if_P [OF sm] by (elim exE conjE) (rule that)
  from m(2) have "set (split_lines m) = {[34, 34], [123, 125]}" unfolding a b by auto
  with m(1,3) show ?thesis by (intro exI [of _ m] conjI)
qed

text \<open>C20. Devices that have seen the same lines hold the same bytes. Whatever chains of merges two
  devices ran on a mergeable path -- different starting versions, different numbers of peers, a
  different order of pulls, different iteration orders of sets -- they end with identical files as
  soon as the lines that entered the two chains are the same set, provided each merged at least once.\<close>

theorem merge_converges:
  assumes "set_order iter" "set_order iter'" "should_merge rel" "bs \<noteq> []" "cs \<noteq> []"
    and "set (split_lines a) \<union> (\<Union>b \<in> set bs. set (split_lines b)) =
      set (split_lines c) \<union> (\<Union>b \<in> set cs. set (split_lines b))"
  shows "merge_all (merge_file lim iter rel) a bs = merge_all (merge_file lim iter' rel) c cs"
  unfolding merge_all_order [OF assms(1)] merge_all_order [OF assms(2)]
  by (rule line_union.merge_all_converges [OF merge_file_union [OF assms(3)] assms(4-6)])

theorem merge_converges_witness:
  "merge_all (merge_file 50 sorted_list_of_set (u ''MEMORY.md'')) [97, 10] [[98, 10], [99]] =
   merge_all (merge_file 50 sorted_list_of_set (u ''MEMORY.md'')) [99, 10] [[98, 10, 97, 32]]"
proof (rule merge_converges [OF set_order_sorted set_order_sorted])
  have l: "split_lines [97, 10] = [[97]]" "split_lines [98, 10] = [[98]]" "split_lines [99] = [[99]]"
    "split_lines [99, 10] = [[99]]" "split_lines [98, 10, 97, 32] = [[98], [97]]"
    by code_simp+
  show "set (split_lines [97, 10]) \<union> (\<Union>b \<in> set [[98, 10], [99]]. set (split_lines b)) =
      set (split_lines [99, 10]) \<union> (\<Union>b \<in> set [[98, 10, 97, 32]]. set (split_lines b))"
    by (simp add: l insert_commute)
  show "should_merge (u ''MEMORY.md'')" by code_simp
qed simp_all

text \<open>The order of a merged \<open>.jsonl\<close> file: no line twice; first the lines that are JSON objects with
  a string \<open>ts\<close>, ascending by timestamp and, at equal timestamps, by the line itself; then all other
  lines -- malformed JSON included -- in ascending order.\<close>

theorem merge_jsonl_sorted:
  assumes "set_order iter" "endswith rel (u ''.jsonl'')" "merge_file lim iter rel a b = Some m"
  shows "\<exists>stamped rest. split_lines m = map snd stamped @ rest \<and> distinct (split_lines m) \<and>
    sorted stamped \<and> (\<forall>(ts, line) \<in> set stamped. extract_ts lim line = Some ts) \<and>
    sorted rest \<and> (\<forall>line \<in> set rest. extract_ts lim line = None)"
proof -
  define lines where "lines = iter (set (split_lines a) \<union> set (split_lines b))"
  have d: "distinct lines" using assms(1) by (simp add: lines_def set_order_def)
  define stamped where
    "stamped = sort (map (\<lambda>line. (the (extract_ts lim line), line)) (filter (\<lambda>line. extract_ts lim line \<noteq> None) lines))"
  define rest where "rest = sort (filter (\<lambda>line. extract_ts lim line = None) lines)"
  have o: "jsonl_order lim lines = map snd stamped @ rest" by (simp add: jsonl_order_def stamped_def rest_def)
  have "merge_jsonl lim iter a b = Some m"
    using assms(2,3) by (simp add: merge_file_def merge_strategy_def)
  then have s: "split_lines m = map snd stamped @ rest"
    using union_join [OF assms(1), of "jsonl_order lim" a b]
    by (simp add: merge_jsonl_eq o [unfolded lines_def])
  have "mset (split_lines m) = mset lines"
    unfolding s using multiset_partition [of "mset lines" "\<lambda>line. extract_ts lim line \<noteq> None"]
    by (simp add: stamped_def rest_def multiset.map_comp comp_def)
  then have "distinct (split_lines m)" using d by (metis mset_eq_imp_distinct_iff)
  moreover have "\<forall>(ts, line) \<in> set stamped. extract_ts lim line = Some ts" by (auto simp: stamped_def)
  moreover have "\<forall>line \<in> set rest. extract_ts lim line = None" by (simp add: rest_def)
  moreover have "sorted stamped" "sorted rest" by (simp_all add: stamped_def rest_def)
  ultimately show ?thesis using s by (intro exI conjI)
qed

theorem merge_jsonl_sorted_witness:
  "\<exists>m. merge_file 50 sorted_list_of_set (u ''log.jsonl'') [123, 125, 10] [34, 34, 10] = Some m \<and>
     (\<exists>stamped rest. split_lines m = map snd stamped @ rest \<and> distinct (split_lines m) \<and>
        sorted stamped \<and> (\<forall>(ts, line) \<in> set stamped. extract_ts 50 line = Some ts) \<and>
        sorted rest \<and> (\<forall>line \<in> set rest. extract_ts 50 line = None))"
proof -
  have e: "endswith (u ''log.jsonl'') (u ''.jsonl'')" by code_simp
  have "should_merge (u ''log.jsonl'')" by code_simp
  from line_union.merge_total [OF merge_file_union [OF this]]
  obtain m where m: "merge_file 50 sorted_list_of_set (u ''log.jsonl'') [123, 125, 10] [34, 34, 10] = Some m" by blast
  show ?thesis by (rule exI [of _ m], rule conjI [OF m], rule merge_jsonl_sorted [OF set_order_sorted e m])
qed

end
