(* ===== verification/Copies.thy ===== *)
theory Copies
  imports Regex Storage ConflictName
begin

text \<open>
  Storage-level conflict copies, \<open>storage/local.py\<close>: the names that iCloud, Dropbox and Syncthing give to
  the copies of a file they cannot merge, the copies of one key, and their deletion.
\<close>

section \<open>Names\<close>

definition dot_suffix :: "pystr \<Rightarrow> matches" where
  "dot_suffix = then_match (literal [46]) (greedy_plus (\<lambda>c. c \<noteq> 46))"

text \<open>Each expression has the groups base name and extension, \<open>[]\<close> for an absent one; its value is that
  of the first match.\<close>

definition first_match :: "'a list \<Rightarrow> 'a option" where
  "first_match ms = (case ms of [] \<Rightarrow> None | m # _ \<Rightarrow> Some m)"

definition icloud_matches :: "pystr \<Rightarrow> (pystr \<times> pystr) list" where
  "icloud_matches name =
     [(base, ext).
        (base, r1) \<leftarrow> lazy_plus not_newline name, (_, r2) \<leftarrow> greedy_plus is_space r1,
        (_, r3) \<leftarrow> greedy_plus is_decimal r2, (ext, r4) \<leftarrow> optional dot_suffix r3, at_end r4]"

definition icloud_conflict :: "pystr \<Rightarrow> (pystr \<times> pystr) option" where
  "icloud_conflict name = first_match (icloud_matches name)"

definition dropbox_matches :: "pystr \<Rightarrow> (pystr \<times> pystr) list" where
  "dropbox_matches name =
     [(base, ext).
        (base, r1) \<leftarrow> lazy_plus not_newline name, (_, r2) \<leftarrow> greedy_plus is_space r1,
        (_, r3) \<leftarrow> literal [40] r2, (_, r4) \<leftarrow> lazy_star not_newline r3,
        (_, r5) \<leftarrow> literal_nocase (u ''conflicted copy'') r4,
        (_, r6) \<leftarrow> then_match (lazy_star not_newline) (literal [41]) r5,
        (ext, r7) \<leftarrow> optional dot_suffix r6, at_end r7]"

definition dropbox_conflict :: "pystr \<Rightarrow> (pystr \<times> pystr) option" where
  "dropbox_conflict name = first_match (dropbox_matches name)"

definition is_alnum :: "int \<Rightarrow> bool" where
  "is_alnum c \<longleftrightarrow> (48 \<le> c \<and> c \<le> 57) \<or> (65 \<le> c \<and> c \<le> 90) \<or> (97 \<le> c \<and> c \<le> 122)"

definition syncthing_marker :: "pystr \<Rightarrow> matches" where
  "syncthing_marker =
     then_match (literal (u ''.sync-conflict-''))
       (then_match (exactly 8 is_decimal)
         (then_match (literal (u ''-''))
           (then_match (exactly 6 is_decimal)
             (optional (then_match (literal (u ''-'')) (exactly 7 is_alnum))))))"

definition syncthing_matches :: "pystr \<Rightarrow> (pystr \<times> pystr) list" where
  "syncthing_matches name =
     [(base, ext).
        (base, r1) \<leftarrow> lazy_plus not_newline name, (_, r2) \<leftarrow> repeat_plus (length r1) syncthing_marker r1,
        (ext, r3) \<leftarrow> optional dot_suffix r2, at_end r3]"

definition syncthing_conflict :: "pystr \<Rightarrow> (pystr \<times> pystr) option" where
  "syncthing_conflict name = first_match (syncthing_matches name)"

definition is_conflict_name :: "pystr \<Rightarrow> bool" where
  "is_conflict_name name \<longleftrightarrow> \<not> is_foreign_name name \<and>
     (icloud_conflict name \<noteq> None \<or> dropbox_conflict name \<noteq> None \<or> syncthing_conflict name \<noteq> None)"

definition is_conflict_of :: "pystr \<Rightarrow> pystr \<Rightarrow> pystr \<Rightarrow> bool" where
  "is_conflict_of name stem_base ext \<longleftrightarrow> \<not> is_foreign_name name \<and>
     (icloud_conflict name = Some (stem_base, ext) \<or> dropbox_conflict name = Some (stem_base, ext) \<or>
      syncthing_conflict name = Some (stem_base, ext))"

section \<open>The copies of a key\<close>

definition key_stem :: "pystr \<Rightarrow> pystr \<times> pystr" where
  "key_stem name = (if 46 \<in> set name then (py_stem name, py_suffix name) else (name, []))"

definition is_file_node :: "dnode option \<Rightarrow> bool" where
  "is_file_node n = (case n of Some (File _) \<Rightarrow> True | _ \<Rightarrow> False)"

text \<open>The regular files beside the key whose name has the shape of one of its copies, and which the
  predicate confirms; \<open>None\<close> is a predicate that raised.\<close>

definition conflict_candidates :: "dnode \<Rightarrow> pystr \<Rightarrow> pystr list" where
  "conflict_candidates root key =
     (let parts = path_parts key; name = last parts
      in case node_at root (butlast parts) of
           Some (Folder d) \<Rightarrow>
             (case key_stem name of (stem_base, ext) \<Rightarrow>
                filter (\<lambda>f. f \<noteq> name \<and> is_file_node (map_of d f) \<and>
                  is_conflict_of f stem_base ext) (dkeys d))
         | _ \<Rightarrow> [])"

definition find_conflict_copies :: "dnode \<Rightarrow> pystr \<Rightarrow> (pystr \<Rightarrow> bool option) option \<Rightarrow> pystr list" where
  "find_conflict_copies root key is_valid =
     (case is_valid of
        None \<Rightarrow> sort (conflict_candidates root key)
      | Some valid \<Rightarrow> sort (filter (\<lambda>f. valid f = Some True) (conflict_candidates root key)))"

definition delete_conflict_copies :: "dnode \<Rightarrow> pystr \<Rightarrow> (pystr \<Rightarrow> bool option) option \<Rightarrow> nat \<times> dnode" where
  "delete_conflict_copies root key is_valid =
     (let copies = find_conflict_copies root key is_valid; dir = butlast (path_parts key)
      in (length copies, fold (\<lambda>f r. remove_node r (dir @ [f])) copies root))"


section \<open>Laws\<close>

lemma first_match_unique: "m \<in> set ms \<Longrightarrow> \<forall>m' \<in> set ms. m' = m \<Longrightarrow> first_match ms = Some m"
  by (cases ms) (auto simp: first_match_def)

definition extension :: "pystr \<Rightarrow> bool" where
  "extension e \<longleftrightarrow> e = [] \<or> (\<exists>t. e = 46 # t \<and> t \<noteq> [] \<and> 46 \<notin> set t)"

lemma set_dot_suffix: "(e, r) \<in> set (dot_suffix s) \<or> e = [] \<and> r = s \<longleftrightarrow> s = e @ r \<and> extension e"
  by (auto simp: set_matchers dot_suffix_def extension_def)

lemma Bex_match: "(\<exists>m \<in> set ms. P m) \<longleftrightarrow> (\<exists>a r. (a, r) \<in> set ms \<and> P (a, r))"
  by (auto simp: Bex_def)

lemma set_icloud: "(b, e) \<in> set (icloud_matches name) \<longleftrightarrow>
  b \<noteq> [] \<and> (\<forall>c \<in> set b. not_newline c) \<and>
  (\<exists>ws ds r. name = b @ ws @ ds @ e @ r \<and> ws \<noteq> [] \<and>
     (\<forall>c \<in> set ws. is_space c) \<and> ds \<noteq> [] \<and> (\<forall>c \<in> set ds. is_decimal c) \<and> extension e \<and> at_end r)"
  by (simp add: icloud_matches_def Bex_match set_matchers set_dot_suffix) blast

lemma icloudI:
  assumes "b \<noteq> []" "\<forall>c \<in> set b. not_newline c" "\<forall>c \<in> set ds. is_decimal c" "ds \<noteq> []" "extension e"
  shows "(b, e) \<in> set (icloud_matches (b @ 32 # ds @ e))"
proof -
  have "b @ 32 # ds @ e = b @ [32] @ ds @ e @ []" "[32 :: int] \<noteq> []" "\<forall>c \<in> set [32]. is_space c" "at_end []"
    by (simp_all add: is_space_def at_end_def)
  with assms show ?thesis unfolding set_icloud by blast
qed

lemma dropboxD:
  assumes "(b, e) \<in> set (dropbox_matches name)"
  shows "\<exists>ws t d2 r. name = b @ ws @ t \<and> t = 40 # d2 @ 41 # e @ r \<and> ws \<noteq> [] \<and>
    (\<forall>c \<in> set ws. is_space c) \<and> extension e \<and> at_end r"
proof -
  from assms obtain ws d1 l d2 r where
    "name = b @ ws @ 40 # d1 @ l @ d2 @ 41 # e @ r" "ws \<noteq> []" "\<forall>c \<in> set ws. is_space c" "extension e" "at_end r"
    by (simp add: dropbox_matches_def Bex_match set_matchers set_dot_suffix) (elim exE conjE, simp)
  then show ?thesis by (intro exI [of _ ws] exI [of _ "40 # (d1 @ l @ d2) @ 41 # e @ r"] exI [of _ "d1 @ l @ d2"] exI [of _ r]) simp
qed

lemma dropboxI:
  assumes "b \<noteq> []" "\<forall>c \<in> set b. not_newline c" "\<forall>c \<in> set d1. not_newline c" "\<forall>c \<in> set d2. not_newline c" "extension e"
  shows "(b, e) \<in> set (dropbox_matches (b @ 32 # 40 # d1 @ u ''conflicted copy'' @ d2 @ 41 # e))"
proof -
  have "list_all2 same_letter (u ''conflicted copy'') (u ''conflicted copy'')" "is_space 32" "at_end []"
    by (simp_all add: list_all2_refl same_letter_def is_space_def at_end_def)
  with assms show ?thesis
    by (simp add: dropbox_matches_def Bex_match set_matchers set_dot_suffix)
      (rule exI [of _ b], simp, rule exI [of _ "[32]"], simp, rule exI [of _ d1], simp,
       rule exI [of _ "u ''conflicted copy''"], simp, rule exI [of _ "d2 @ [41]"], simp)
qed

text \<open>A stem that no expression can split: no blank, no parenthesis and no marker of Syncthing.\<close>

definition plain_stem :: "pystr \<Rightarrow> bool" where
  "plain_stem s \<longleftrightarrow> s \<noteq> [] \<and> (\<forall>c \<in> set s. \<not> is_space c \<and> c \<noteq> 40) \<and> \<not> contains s CONFLICT_INFIX"

lemma not_space_newline: "\<not> is_space c \<Longrightarrow> not_newline c"
  by (auto simp: is_space_def not_newline_def)

lemma decimal_plain: "is_decimal c \<Longrightarrow> \<not> is_space c \<and> c \<noteq> 46 \<and> c \<noteq> 10"
  by (auto simp: is_decimal_def ZEROS_def is_space_def)

text \<open>The first blank splits a text uniquely.\<close>

lemma split_at_first:
  assumes "a @ x # r = b @ ys @ t" "\<forall>c \<in> set a. \<not> P c" "P x" "ys \<noteq> []" "\<forall>c \<in> set ys. P c" "\<forall>c \<in> set r. \<not> P c"
  shows "b = a \<and> ys = [x] \<and> t = r"
proof -
  obtain y ys' where ys: "ys = y # ys'" "P y" using assms(4,5) by (cases ys) auto
  have "b = a"
  proof (rule ccontr)
    assume ne: "b \<noteq> a"
    from assms(1) consider us where "us \<noteq> []" "a = b @ us" "us @ x # r = ys @ t"
      | us where "us \<noteq> []" "b = a @ us" "x # r = us @ ys @ t"
      using ne by (auto simp: append_eq_append_conv2)
    then show False
    proof cases
      case 1
      then have "y \<in> set a" using ys by (cases us) auto
      with assms(2) ys(2) show False by blast
    next
      case 2
      then have "y \<in> set r" using ys by (cases us) auto
      with assms(6) ys(2) show False by blast
    qed
  qed
  moreover from this assms(1) ys have "y = x" "r = ys' @ t" by auto
  moreover from this assms(5,6) ys have "ys' = []" by (cases ys') auto
  ultimately show ?thesis using ys by simp
qed

lemma digits_ext_unique:
  assumes "ds @ e @ r = n @ ext" "\<forall>c \<in> set ds. is_decimal c" "\<forall>c \<in> set n. is_decimal c"
    "extension e" "extension ext" "at_end r" "10 \<notin> set ext"
  shows "e = ext"
proof -
  have "10 \<notin> set (n @ ext)" using assms(3,7) decimal_plain by auto
  then have r: "r = []" using assms(1,6)
    by (metis at_end_def in_set_conv_decomp append.assoc append_Nil2)
  define notdot where "notdot = (\<lambda>c::int. c \<noteq> 46)"
  have d: "dropWhile notdot (xs @ ex) = ex" if "\<forall>c \<in> set xs. is_decimal c" "extension ex" for xs ex
  proof -
    have "dropWhile notdot (xs @ ex) = dropWhile notdot ex"
      using that(1) decimal_plain by (intro dropWhile_append2) (auto simp: notdot_def)
    also have "\<dots> = ex" using that(2) by (auto simp: extension_def notdot_def)
    finally show ?thesis .
  qed
  from arg_cong [OF assms(1), of "dropWhile notdot"] d [OF assms(2,4)] d [OF assms(3,5)] r show ?thesis by simp
qed

lemma icloud_own:
  assumes "plain_stem stem" "extension ext" "\<forall>c \<in> set ext. \<not> is_space c" "n \<noteq> []" "\<forall>c \<in> set n. is_decimal c"
  shows "icloud_conflict (stem @ 32 # n @ ext) = Some (stem, ext)"
  unfolding icloud_conflict_def
proof (rule first_match_unique)
  have nl: "is_space 32" "is_space 10" by (simp_all add: is_space_def)
  then have sp: "is_space 32" "\<forall>c \<in> set stem. \<not> is_space c" "\<forall>c \<in> set (n @ ext). \<not> is_space c" "10 \<notin> set ext"
    using assms(1,3,5) decimal_plain by (auto simp: plain_stem_def)
  show "(stem, ext) \<in> set (icloud_matches (stem @ 32 # n @ ext))"
    by (rule icloudI) (use assms sp(2) not_space_newline in \<open>auto simp: plain_stem_def\<close>)
  show "\<forall>m \<in> set (icloud_matches (stem @ 32 # n @ ext)). m = (stem, ext)"
  proof (clarify)
    fix b e assume "(b, e) \<in> set (icloud_matches (stem @ 32 # n @ ext))"
    then obtain ws ds r where m: "stem @ 32 # n @ ext = b @ ws @ ds @ e @ r" "ws \<noteq> []" "\<forall>c \<in> set ws. is_space c"
      "\<forall>c \<in> set ds. is_decimal c" "extension e" "at_end r" unfolding set_icloud by blast
    have s: "b = stem \<and> ws = [32] \<and> ds @ e @ r = n @ ext"
      by (rule split_at_first [OF m(1) sp(2) sp(1) m(2,3) sp(3)])
    then have "ds @ e @ r = n @ ext" by blast
    from digits_ext_unique [OF this m(4) assms(5) m(5) assms(2) m(6) sp(4)] s show "b = stem \<and> e = ext" by blast
  qed
qed

lemma at_end_ext: "e @ r = ext \<Longrightarrow> at_end r \<Longrightarrow> 10 \<notin> set ext \<Longrightarrow> e = ext"
  by (auto simp: at_end_def)

lemma dropbox_own:
  assumes "plain_stem stem" "extension ext" "\<forall>c \<in> set (d1 @ d2 @ ext). c \<noteq> 10 \<and> c \<noteq> 40 \<and> c \<noteq> 41"
  shows "dropbox_conflict (stem @ 32 # 40 # d1 @ u ''conflicted copy'' @ d2 @ 41 # ext) = Some (stem, ext)"
  unfolding dropbox_conflict_def
proof (rule first_match_unique)
  define detail where "detail = d1 @ u ''conflicted copy'' @ d2"
  have "\<forall>c \<in> set (u ''conflicted copy''). c \<noteq> 40 \<and> c \<noteq> 41" by (simp add: u_def)
  with assms(3) have par: "\<forall>c \<in> set (detail @ 41 # ext). c \<noteq> 40" "\<forall>c \<in> set detail. c \<noteq> 41"
    by (auto simp: detail_def)
  have sp: "is_space 32" "\<forall>c \<in> set stem. \<not> is_space c" using assms(1) by (auto simp: plain_stem_def is_space_def)
  have stem: "stem \<noteq> []" "\<forall>c \<in> set stem. not_newline c" "\<forall>c \<in> set (stem @ [32]). c \<noteq> 40"
    using assms(1) not_space_newline by (auto simp: plain_stem_def)
  show "(stem, ext) \<in> set (dropbox_matches (stem @ 32 # 40 # d1 @ u ''conflicted copy'' @ d2 @ 41 # ext))"
    by (rule dropboxI [OF stem(1,2) _ _ assms(2)]) (use assms(3) in \<open>auto simp: not_newline_def\<close>)
  show "\<forall>m \<in> set (dropbox_matches (stem @ 32 # 40 # d1 @ u ''conflicted copy'' @ d2 @ 41 # ext)). m = (stem, ext)"
  proof (clarify)
    fix b e assume "(b, e) \<in> set (dropbox_matches (stem @ 32 # 40 # d1 @ u ''conflicted copy'' @ d2 @ 41 # ext))"
    from dropboxD [OF this] obtain ws d2' r where m:
      "stem @ 32 # 40 # d1 @ u ''conflicted copy'' @ d2 @ 41 # ext = b @ ws @ 40 # d2' @ 41 # e @ r" "ws \<noteq> []"
      "\<forall>c \<in> set ws. is_space c" "at_end r" by blast
    have "(stem @ [32]) @ 40 # (detail @ 41 # ext) = (b @ ws) @ [40] @ (d2' @ 41 # e @ r)"
      using m(1) by (simp add: detail_def)
    from split_at_first [OF this stem(3)] par(1)
    have 1: "b @ ws = stem @ [32]" "d2' @ 41 # e @ r = detail @ 41 # ext" by simp_all
    from 1(1) have "stem @ 32 # [] = b @ ws @ []" by simp
    from split_at_first [OF this sp(2,1) m(2,3)] have b: "b = stem" by simp
    from 1(2) have "detail @ 41 # ext = d2' @ [41] @ (e @ r)" by simp
    from split_at_first [OF this par(2)] assms(3) have e: "e @ r = ext" by simp
    have "10 \<notin> set ext" using assms(3) by auto
    from at_end_ext [OF e m(4) this] b show "b = stem \<and> e = ext" by simp
  qed
qed

lemma only_marker:
  assumes "stem @ CONFLICT_INFIX @ rest = b @ CONFLICT_INFIX @ t"
    and "\<not> contains stem CONFLICT_INFIX" "\<not> contains rest CONFLICT_INFIX"
  shows "b = stem \<and> t = rest"
proof -
  define p where "p = tl CONFLICT_INFIX"
  have p: "CONFLICT_INFIX = 46 # p" "46 \<notin> set p" using infix_dot by (simp_all add: p_def)
  have "b = stem"
  proof (rule ccontr)
    assume ne: "b \<noteq> stem"
    from assms(1) consider us where "us \<noteq> []" "stem = b @ us" "us @ 46 # p @ rest = 46 # p @ t"
      | us where "us \<noteq> []" "b = stem @ us" "46 # p @ rest = us @ 46 # p @ t"
      using ne by (auto simp: append_eq_append_conv2 p(1))
    then show False
    proof cases
      case 1
      show False
      proof (cases "length us \<le> length p")
        case True
        then have l: "length us - 1 < length p" using 1(1) by (cases us) auto
        have "46 = (us @ 46 # p @ rest) ! length us" by simp
        also have "\<dots> = p ! (length us - 1)" using l 1(1) by (simp add: 1(3) nth_Cons' nth_append)
        also have "\<dots> \<in> set p" using l by (rule nth_mem)
        finally show False using p(2) by simp
      next
        case False
        obtain us' where us: "us = 46 # us'" using 1(1,3) by (cases us) auto
        then have "us' @ 46 # p @ rest = p @ t" using 1(3) by simp
        from arg_cong [OF this, of "take (length p)"] False us have "take (length p) us' = p" by simp
        then have "us = 46 # p @ drop (length p) us'" using us append_take_drop_id [of "length p" us'] by metis
        with 1(2) assms(2) show False by (auto simp: contains_iff p(1))
      qed
    next
      case 2
      then have "contains (p @ rest) (46 # p)" by (cases us) (auto simp: contains_iff)
      with contains_skip [OF p(2)] assms(3) show False by (simp add: p(1))
    qed
  qed
  with assms(1) show ?thesis by simp
qed

definition marker_text :: "pystr \<Rightarrow> pystr \<Rightarrow> pystr \<Rightarrow> bool" where
  "marker_text x y z \<longleftrightarrow> length x = 8 \<and> length y = 6 \<and> (\<forall>c \<in> set (x @ y). is_decimal c) \<and>
     (z = [] \<or> (\<exists>w. z = 45 # w \<and> length w = 7 \<and> (\<forall>c \<in> set w. is_alnum c)))"

lemma set_marker: "(m, r) \<in> set (syncthing_marker s) \<longleftrightarrow>
  (\<exists>x y z. s = m @ r \<and> m = CONFLICT_INFIX @ x @ 45 # y @ z \<and> marker_text x y z)"
proof -
  have dash: "u ''-'' = [45]" by (simp add: u_def)
  show ?thesis
    by (simp add: syncthing_marker_def set_matchers dash CONFLICT_INFIX_def [symmetric] marker_text_def) (auto; blast)
qed

lemma repeat_head:
  "(a, r) \<in> set (repeat_plus n m s) \<Longrightarrow>
    \<exists>b t. (b, t) \<in> set (m s) \<and> ((a, r) = (b, t) \<or> (\<exists>n' a'. (a', r) \<in> set (repeat_plus n' m t)))"
  by (cases n) auto

lemma repeat_once: "(a, r) \<in> set (m s) \<Longrightarrow> 0 < n \<Longrightarrow> (a, r) \<in> set (repeat_plus n m s)"
  by (cases n) (auto intro: bexI [of _ "(a, r)"])

lemma set_syncthing: "(b, e) \<in> set (syncthing_matches name) \<longleftrightarrow>
  b \<noteq> [] \<and> (\<forall>c \<in> set b. not_newline c) \<and>
  (\<exists>r1. name = b @ r1 \<and> (\<exists>a r2. (a, r2) \<in> set (repeat_plus (length r1) syncthing_marker r1) \<and>
     (\<exists>r3. (e, r3) \<in> set (optional dot_suffix r2) \<and> at_end r3)))"
  by (simp add: syncthing_matches_def Bex_match set_lazy_plus) blast

lemma marker_no_dot: "marker_text x y z \<Longrightarrow> 46 \<notin> set (x @ 45 # y @ z)"
proof -
  have "\<not> is_alnum 46" "\<not> is_decimal 46" using decimal_plain by (auto simp: is_alnum_def)
  moreover assume "marker_text x y z"
  ultimately show ?thesis unfolding marker_text_def by auto
qed

lemma no_infix_after:
  assumes "46 \<notin> set x" "\<not> contains ext CONFLICT_INFIX"
  shows "\<not> contains (x @ ext) CONFLICT_INFIX"
  using contains_skip [OF assms(1), of ext "tl CONFLICT_INFIX"] assms(2) infix_dot(1) by metis

lemma syncthing_own:
  assumes "plain_stem stem" "extension ext" "\<not> contains ext CONFLICT_INFIX" "10 \<notin> set ext" "marker_text x y z"
  shows "syncthing_conflict (stem @ CONFLICT_INFIX @ x @ 45 # y @ z @ ext) = Some (stem, ext)"
  unfolding syncthing_conflict_def
proof (rule first_match_unique)
  let ?rest = "x @ 45 # y @ z @ ext"
  let ?name = "stem @ CONFLICT_INFIX @ ?rest"
  have stem: "stem \<noteq> []" "\<forall>c \<in> set stem. not_newline c" "\<not> contains stem CONFLICT_INFIX"
    using assms(1) not_space_newline by (auto simp: plain_stem_def)
  have rest: "\<not> contains ?rest CONFLICT_INFIX"
    using no_infix_after [OF marker_no_dot [OF assms(5)] assms(3)] unfolding append_assoc append_Cons .
  have m1: "(CONFLICT_INFIX @ x @ 45 # y @ z, ext) \<in> set (syncthing_marker (CONFLICT_INFIX @ ?rest))"
    unfolding set_marker using assms(5)
    by (intro exI [of _ x] exI [of _ y] exI [of _ z]) simp
  have "(CONFLICT_INFIX @ x @ 45 # y @ z, ext) \<in>
      set (repeat_plus (length (CONFLICT_INFIX @ ?rest)) syncthing_marker (CONFLICT_INFIX @ ?rest))"
    by (rule repeat_once [where m = syncthing_marker, OF m1]) (simp add: CONFLICT_INFIX_def)
  moreover have "(ext, []) \<in> set (optional dot_suffix ext)" "at_end []"
    using assms(2) set_dot_suffix [of ext "[]" ext] by (simp_all add: set_optional at_end_def)
  ultimately show "(stem, ext) \<in> set (syncthing_matches ?name)"
    using stem(1,2) unfolding set_syncthing by blast
  show "\<forall>m \<in> set (syncthing_matches ?name). m = (stem, ext)"
  proof (clarify)
    fix b e assume "(b, e) \<in> set (syncthing_matches ?name)"
    then obtain r1 a r2 r3 where m: "?name = b @ r1" "(a, r2) \<in> set (repeat_plus (length r1) syncthing_marker r1)"
      "(e, r3) \<in> set (optional dot_suffix r2)" "at_end r3"
      unfolding set_syncthing by blast
    from m(3) have e: "r2 = e @ r3" "extension e" using set_dot_suffix [of e r3 r2] by (auto simp: set_optional)
    from repeat_head [OF m(2)] obtain c t where c: "(c, t) \<in> set (syncthing_marker r1)"
      "(a, r2) = (c, t) \<or> (\<exists>n' a'. (a', r2) \<in> set (repeat_plus n' syncthing_marker t))" by blast
    from c(1) obtain x' y' z' where x': "r1 = CONFLICT_INFIX @ x' @ 45 # y' @ z' @ t" "marker_text x' y' z'"
      unfolding set_marker by auto
    from only_marker [OF m(1) [unfolded x'(1)] stem(3) rest]
    have b: "b = stem" and r: "x' @ 45 # y' @ z' @ t = ?rest" by simp_all
    have zt: "z' @ t = z @ ext" using r x'(2) assms(5) by (simp add: marker_text_def)
    have "r2 = t"
    proof (rule ccontr)
      assume "r2 \<noteq> t"
      with c(2) obtain n' a' where "(a', r2) \<in> set (repeat_plus n' syncthing_marker t)" by blast
      from repeat_head [OF this] obtain b' t' where "(b', t') \<in> set (syncthing_marker t)" by blast
      then have "contains t CONFLICT_INFIX" by (auto simp: set_marker contains_iff intro: exI [of _ "[]"])
      then have "contains (z @ ext) CONFLICT_INFIX" unfolding zt [symmetric] by (metis append.assoc contains_iff)
      moreover have "46 \<notin> set z" using marker_no_dot [OF assms(5)] by simp
      ultimately show False using no_infix_after assms(3) by blast
    qed
    with e have t: "z' @ e @ r3 = z @ ext" using zt by simp
    have "z' = z"
      using t x'(2) assms(5,2) e(2) m(4) by (auto simp: marker_text_def extension_def at_end_def)
    with t have "e @ r3 = ext" by simp
    from at_end_ext [OF this m(4) assms(4)] b show "b = stem \<and> e = ext" by simp
  qed
qed

section \<open>Properties\<close>

text \<open>Every copy that iCloud, Dropbox or Syncthing makes of a key is recognised as a copy of that key:
  for a key without blanks and parentheses the renamed file is a conflict copy of exactly its stem and
  extension, whatever the counter, the host and date in the parentheses, the stamp and the device, and
  the classifier of stray files sees it as a copy too.\<close>

theorem own_copies_recognised:
  assumes "plain_stem stem" "hd stem \<notin> set [46, 126]" "extension ext" "\<not> contains ext CONFLICT_INFIX"
    and "\<forall>c \<in> set ext. \<not> is_space c \<and> c \<noteq> 40 \<and> c \<noteq> 41"
    and "name = stem @ 32 # n @ ext \<and> n \<noteq> [] \<and> (\<forall>c \<in> set n. is_decimal c) \<or>
      name = stem @ 32 # 40 # d1 @ u ''conflicted copy'' @ d2 @ 41 # ext \<and>
        (\<forall>c \<in> set (d1 @ d2). c \<noteq> 10 \<and> c \<noteq> 40 \<and> c \<noteq> 41) \<or>
      name = stem @ CONFLICT_INFIX @ x @ 45 # y @ z @ ext \<and> marker_text x y z"
  shows "is_conflict_of name stem ext \<and> is_conflict_name name"
proof -
  have nl: "is_space 10" by (simp add: is_space_def)
  then have ext: "10 \<notin> set ext" "\<forall>c \<in> set ext. \<not> is_space c" "\<forall>c \<in> set ext. c \<noteq> 10 \<and> c \<noteq> 40 \<and> c \<noteq> 41"
    using assms(5) by auto
  have "\<not> is_foreign_name (stem @ t)" for t
    using assms(1,2) by (cases stem) (auto simp: is_foreign_name_def FOREIGN_PREFIXES_def plain_stem_def startswith_iff u_def)
  moreover have "icloud_conflict name = Some (stem, ext) \<or> dropbox_conflict name = Some (stem, ext) \<or>
      syncthing_conflict name = Some (stem, ext)"
    using assms(6)
  proof (elim disjE conjE)
    assume "name = stem @ 32 # n @ ext" "n \<noteq> []" "\<forall>c \<in> set n. is_decimal c"
    with icloud_own [OF assms(1,3) ext(2)] show ?thesis by simp
  next
    assume n: "name = stem @ 32 # 40 # d1 @ u ''conflicted copy'' @ d2 @ 41 # ext"
      and "\<forall>c \<in> set (d1 @ d2). c \<noteq> 10 \<and> c \<noteq> 40 \<and> c \<noteq> 41"
    with ext(3) have "\<forall>c \<in> set (d1 @ d2 @ ext). c \<noteq> 10 \<and> c \<noteq> 40 \<and> c \<noteq> 41" by auto
    from dropbox_own [OF assms(1,3) this] n show ?thesis by simp
  next
    assume "name = stem @ CONFLICT_INFIX @ x @ 45 # y @ z @ ext" "marker_text x y z"
    with syncthing_own [OF assms(1,3,4) ext(1)] show ?thesis by simp
  qed
  ultimately show ?thesis using assms(6) by (auto simp: is_conflict_of_def is_conflict_name_def)
qed


theorem own_copies_recognised_witness:
  "is_conflict_of (u ''manifest.json 2.enc'') (u ''manifest.json'') (u ''.enc'') \<and>
   is_conflict_name (u ''manifest.json 2.enc'')"
proof (rule own_copies_recognised [of _ _ _ "u ''2''" "[]" "[]" "[]" "[]" "[]"])
  show "plain_stem (u ''manifest.json'')" unfolding plain_stem_def by code_simp
  show "hd (u ''manifest.json'') \<notin> set [46, 126]" by code_simp
  show "extension (u ''.enc'')" by (simp add: extension_def u_def)
  show "\<not> contains (u ''.enc'') CONFLICT_INFIX" by code_simp
  show "\<forall>c \<in> set (u ''.enc''). \<not> is_space c \<and> c \<noteq> 40 \<and> c \<noteq> 41" by code_simp
  have "u ''manifest.json 2.enc'' = u ''manifest.json'' @ 32 # u ''2'' @ u ''.enc''" "u ''2'' \<noteq> []"
    "\<forall>c \<in> set (u ''2''). is_decimal c" by code_simp+
  then show "u ''manifest.json 2.enc'' = u ''manifest.json'' @ 32 # u ''2'' @ u ''.enc'' \<and> u ''2'' \<noteq> [] \<and>
      (\<forall>c \<in> set (u ''2''). is_decimal c) \<or>
    u ''manifest.json 2.enc'' = u ''manifest.json'' @ 32 # 40 # [] @ u ''conflicted copy'' @ [] @ 41 # u ''.enc'' \<and>
      (\<forall>c \<in> set ([] @ []). c \<noteq> 10 \<and> c \<noteq> 40 \<and> c \<noteq> 41) \<or>
    u ''manifest.json 2.enc'' = u ''manifest.json'' @ CONFLICT_INFIX @ [] @ 45 # [] @ [] @ u ''.enc'' \<and> marker_text [] [] []"
    by blast
qed

section \<open>Deletion\<close>

lemma is_file_node_iff: "is_file_node n \<longleftrightarrow> (\<exists>d. n = Some (File d))"
  by (auto simp: is_file_node_def split: option.split dnode.split)

lemma candidates_in:
  assumes "f \<in> set (conflict_candidates root key)"
  shows "f \<noteq> last (path_parts key) \<and> (\<exists>d x. node_at root (butlast (path_parts key)) = Some (Folder d) \<and>
    map_of d f = Some (File x))"
  using assms
  by (auto simp: conflict_candidates_def Let_def is_file_node_iff dest: sym [of "Some _"]
      split: option.splits dnode.splits prod.splits)

lemma candidates_files:
  assumes "f \<in> set (conflict_candidates root key)"
  shows "f \<noteq> last (path_parts key)" "file_at root (butlast (path_parts key) @ [f]) \<noteq> None"
  using candidates_in [OF assms] by (auto simp: file_at_append)

lemma candidates_distinct:
  assumes "wf_node root"
  shows "distinct (conflict_candidates root key)"
proof (cases "\<exists>d. node_at root (butlast (path_parts key)) = Some (Folder d)")
  case True
  then obtain d where d: "node_at root (butlast (path_parts key)) = Some (Folder d)" by blast
  with wf_node_at [OF assms d] have "distinct (dkeys d)" by (simp add: distinct_keys_def dkeys_def)
  then show ?thesis by (auto simp: conflict_candidates_def Let_def d split: prod.split)
next
  case False
  then show ?thesis by (auto simp: conflict_candidates_def Let_def split: option.split dnode.split)
qed

lemma remove_all:
  assumes "wf_node root" "distinct fs" "\<forall>f \<in> set fs. file_at root (dir @ [f]) \<noteq> None"
  shows "wf_node (fold (\<lambda>f r. remove_node r (dir @ [f])) fs root) \<and>
    file_at (fold (\<lambda>f r. remove_node r (dir @ [f])) fs root) ps =
      (if \<exists>f \<in> set fs. ps = dir @ [f] then None else file_at root ps)"
  using assms
proof (induction fs arbitrary: root)
  case Nil
  then show ?case by simp
next
  case (Cons f fs)
  have f: "file_at root (dir @ [f]) \<noteq> None" using Cons.prems(3) by simp
  note rm = remove_node_file_at [OF f]
  have "\<forall>g \<in> set fs. file_at (remove_node root (dir @ [f])) (dir @ [g]) \<noteq> None"
    using Cons.prems(2,3) rm by auto
  with Cons.IH [OF remove_node_wf [OF Cons.prems(1)]] Cons.prems(2) rm show ?case by auto
qed

text \<open>Removing the conflict copies of a key touches nothing else: exactly the confirmed copies in the
  key's folder are gone and counted, the key itself and every other file keep their bytes -- candidates
  that the predicate refused or on which it raised included.\<close>

theorem copies_deleted_exactly:
  assumes "wf_node root" "path_parts key \<noteq> []" "delete_conflict_copies root key is_valid = (n, root')"
  shows "n = length (find_conflict_copies root key is_valid) \<and> wf_node root' \<and>
    file_at root' (path_parts key) = file_at root (path_parts key) \<and>
    file_at root' ps = (if \<exists>f \<in> set (find_conflict_copies root key is_valid). ps = butlast (path_parts key) @ [f]
      then None else file_at root ps)"
proof -
  let ?fs = "find_conflict_copies root key is_valid" and ?dir = "butlast (path_parts key)"
  have sub: "set ?fs \<subseteq> set (conflict_candidates root key)" "distinct ?fs"
    using candidates_distinct [OF assms(1), of key] by (auto simp: find_conflict_copies_def split: option.split)
  have r: "n = length ?fs" "root' = fold (\<lambda>f r. remove_node r (?dir @ [f])) ?fs root"
    using assms(3) by (auto simp: delete_conflict_copies_def Let_def)
  have ex: "\<forall>f \<in> set ?fs. file_at root (?dir @ [f]) \<noteq> None" and
    ne: "\<forall>f \<in> set ?fs. path_parts key \<noteq> ?dir @ [f]"
    using sub(1) candidates_files [of _ root key] assms(2) by (auto simp: subset_iff) (metis last_snoc)
  from remove_all [OF assms(1) sub(2) ex] ne r show ?thesis by auto
qed

definition copies_root :: dnode where
  "copies_root = Folder [(u ''manifests'', Folder [(u ''mac1'', Folder
     [(u ''manifest.json.enc'', File [2]), (u ''manifest.json 2.enc'', File [3]), (u ''notes.txt'', File [4])])])]"

theorem copies_deleted_exactly_witness:
  "\<exists>root'. delete_conflict_copies copies_root (u ''manifests/mac1/manifest.json.enc'') None = (1, root') \<and>
     file_at root' [u ''manifests'', u ''mac1'', u ''manifest.json 2.enc''] = None \<and>
     file_at root' (path_parts (u ''manifests/mac1/manifest.json.enc'')) = Some [2]"
proof -
  let ?k = "u ''manifests/mac1/manifest.json.enc''"
  have w: "wf_node copies_root" by (simp add: copies_root_def plain_name_def u_def)
  have f: "find_conflict_copies copies_root ?k None = [u ''manifest.json 2.enc'']" by code_simp
  have parts: "path_parts ?k = [u ''manifests'', u ''mac1'', u ''manifest.json.enc'']" by code_simp
  obtain n root' where r: "delete_conflict_copies copies_root ?k None = (n, root')" by fastforce
  have ne: "path_parts ?k \<noteq> []" by (simp add: parts)
  note spec = copies_deleted_exactly [OF w ne r, of "[u ''manifests'', u ''mac1'', u ''manifest.json 2.enc'']"]
  have "file_at copies_root (path_parts ?k) = Some [2]" by code_simp
  with spec r show ?thesis by (simp add: f parts)
qed

end
