(* ===== verification/Crypto.thy ===== *)
theory Crypto
  imports Copies Utf8
begin

text \<open>
  \<open>crypto.py\<close>: the versioned envelope of encrypted blobs, the derivation of keys with its cache, and
  \<open>mm-crypto-init\<close> with the choice between its copies, its repair and its bootstrap. Argon2id, HKDF,
  AES-GCM, gzip and SHA-256 are not under \<open>src/\<close> and are the parameters \<open>prims\<close>; the random salts and
  nonces are arguments.
\<close>

section \<open>Primitives\<close>

record prims =
  pr_argon :: "bytes \<Rightarrow> bytes \<Rightarrow> int \<Rightarrow> bytes option"
  pr_hkdf :: "bytes \<Rightarrow> bytes \<Rightarrow> bytes"
  pr_seal :: "bytes \<Rightarrow> bytes \<Rightarrow> bytes \<Rightarrow> bytes"
  pr_open :: "bytes \<Rightarrow> bytes \<Rightarrow> bytes \<Rightarrow> bytes option"
  pr_gzip :: "bytes \<Rightarrow> bytes"
  pr_gunzip :: "bytes \<Rightarrow> bytes option"
  pr_sha256 :: "bytes \<Rightarrow> bytes"

text \<open>\<open>CryptoError\<close>, \<open>NewerFormatError\<close>, the \<open>StorageError\<close> of an exclusive put on an existing file, and the
  exceptions that the code does not translate
  (\<open>UnicodeEncodeError\<close> of a passphrase with a lone surrogate, \<open>OverflowError\<close> of \<open>int.to_bytes\<close>).\<close>

datatype crypto_error = CryptoError | NewerFormat nat | AlreadyExists | Untranslated

definition FORMAT_VERSION :: nat where "FORMAT_VERSION = 2"
definition FORMAT_VERSION_MAX :: nat where "FORMAT_VERSION_MAX = 15"
definition SALT_LEN :: nat where "SALT_LEN = 16"
definition NONCE_LEN :: nat where "NONCE_LEN = 12"
definition ROOT_SALT_LEN :: nat where "ROOT_SALT_LEN = 16"
definition MEMORY_KB_FIELD_LEN :: nat where "MEMORY_KB_FIELD_LEN = 4"

definition KEYCHECK_PLAINTEXT :: bytes where
  "KEYCHECK_PLAINTEXT = map of_int (u ''mm-keycheck-v1'')"

lemmas crypto_consts = FORMAT_VERSION_def FORMAT_VERSION_MAX_def SALT_LEN_def NONCE_LEN_def ROOT_SALT_LEN_def
  MEMORY_KB_FIELD_LEN_def

text \<open>\<open>int.to_bytes(4, "big")\<close> and \<open>int.from_bytes(..., "big")\<close>.\<close>

definition to_bytes4 :: "int \<Rightarrow> bytes option" where
  "to_bytes4 n =
     (if 0 \<le> n \<and> n < 2 ^ 32
      then Some [of_int (n div 2 ^ 24), of_int (n div 2 ^ 16 mod 256), of_int (n div 2 ^ 8 mod 256), of_int (n mod 256)]
      else None)"

definition from_bytes :: "bytes \<Rightarrow> int" where
  "from_bytes bs = fold (\<lambda>b acc. acc * 256 + uint b) bs 0"

section \<open>Keys\<close>

text \<open>The process state: the pinned root salt and memory cost, and the cache of master keys.\<close>

record crypto_state =
  cs_session :: "(bytes \<times> int) option"
  cs_cache :: "(bytes, bytes) dict"

definition set_crypto_session :: "bytes \<Rightarrow> int \<Rightarrow> crypto_state \<Rightarrow> (crypto_error + unit) \<times> crypto_state" where
  "set_crypto_session root_salt memory_kb st =
     (if length root_salt \<noteq> ROOT_SALT_LEN then (Inl CryptoError, st)
      else (Inr (), st\<lparr>cs_session := Some (root_salt, memory_kb)\<rparr>))"

definition derive_key :: "prims \<Rightarrow> pystr \<Rightarrow> bytes \<Rightarrow> int \<Rightarrow> crypto_error + bytes" where
  "derive_key pr passphrase salt memory_kb =
     (if passphrase = [] then Inl CryptoError
      else (case encode_utf8 passphrase of
              None \<Rightarrow> Inl CryptoError
            | Some secret \<Rightarrow>
                (case pr_argon pr secret salt memory_kb of None \<Rightarrow> Inl CryptoError | Some k \<Rightarrow> Inr k)))"

definition cache_key :: "prims \<Rightarrow> pystr \<Rightarrow> bytes \<Rightarrow> int \<Rightarrow> bytes option" where
  "cache_key pr passphrase root_salt memory_kb =
     (case encode_utf8 passphrase of
        None \<Rightarrow> None
      | Some secret \<Rightarrow>
          map_option (\<lambda>kb. pr_sha256 pr secret @ root_salt @ kb) (to_bytes4 memory_kb))"

definition load_master_key ::
  "prims \<Rightarrow> pystr \<Rightarrow> bytes \<Rightarrow> int \<Rightarrow> crypto_state \<Rightarrow> (crypto_error + bytes) \<times> crypto_state" where
  "load_master_key pr passphrase root_salt memory_kb st =
     (if passphrase = [] \<or> length root_salt \<noteq> ROOT_SALT_LEN then (Inl CryptoError, st)
      else (case cache_key pr passphrase root_salt memory_kb of
              None \<Rightarrow> (Inl Untranslated, st)
            | Some key \<Rightarrow>
                (case map_of (cs_cache st) key of
                   Some master \<Rightarrow> (Inr master, st)
                 | None \<Rightarrow>
                     (case derive_key pr passphrase root_salt memory_kb of
                        Inl e \<Rightarrow> (Inl e, st)
                      | Inr master \<Rightarrow>
                          (Inr master, st\<lparr>cs_cache := AList.update key master (cs_cache st)\<rparr>)))))"

definition derive_file_key :: "prims \<Rightarrow> bytes \<Rightarrow> bytes \<Rightarrow> bytes" where
  "derive_file_key pr master_key salt = pr_hkdf pr master_key salt"

section \<open>The envelope\<close>

definition newer_version :: "bytes \<Rightarrow> nat option" where
  "newer_version data =
     (case data of
        [] \<Rightarrow> None
      | v # _ \<Rightarrow> if FORMAT_VERSION < unat v \<and> unat v \<le> FORMAT_VERSION_MAX then Some (unat v) else None)"

definition encrypt_with_master_key :: "prims \<Rightarrow> bytes \<Rightarrow> bytes \<Rightarrow> bytes \<Rightarrow> bytes \<Rightarrow> bytes" where
  "encrypt_with_master_key pr salt nonce plaintext master_key =
     [of_nat FORMAT_VERSION] @ salt @ nonce @
     pr_seal pr (derive_file_key pr master_key salt) nonce (pr_gzip pr plaintext)"

definition decrypt_with_master_key :: "prims \<Rightarrow> bytes \<Rightarrow> bytes \<Rightarrow> crypto_error + bytes" where
  "decrypt_with_master_key pr blob master_key =
     (case newer_version blob of
        Some v \<Rightarrow> Inl (NewerFormat v)
      | None \<Rightarrow>
          if length blob < 1 + SALT_LEN + NONCE_LEN + 1 then Inl CryptoError
          else if unat (hd blob) \<noteq> FORMAT_VERSION then Inl CryptoError
          else
            (let salt = take SALT_LEN (drop 1 blob);
                 nonce = take NONCE_LEN (drop (1 + SALT_LEN) blob);
                 ciphertext = drop (1 + SALT_LEN + NONCE_LEN) blob
             in case pr_open pr (derive_file_key pr master_key salt) nonce ciphertext of
                  None \<Rightarrow> Inl CryptoError
                | Some compressed \<Rightarrow>
                    (case pr_gunzip pr compressed of None \<Rightarrow> Inl CryptoError | Some plain \<Rightarrow> Inr plain)))"

definition with_session ::
  "prims \<Rightarrow> pystr \<Rightarrow> int \<Rightarrow> crypto_state \<Rightarrow> (crypto_error + bytes) \<times> crypto_state" where
  "with_session pr passphrase memory_kb st =
     (case cs_session st of
        None \<Rightarrow> (Inl CryptoError, st)
      | Some (root_salt, session_kb) \<Rightarrow>
          if memory_kb \<noteq> session_kb then (Inl CryptoError, st)
          else load_master_key pr passphrase root_salt session_kb st)"

definition encrypt ::
  "prims \<Rightarrow> bytes \<Rightarrow> bytes \<Rightarrow> bytes \<Rightarrow> pystr \<Rightarrow> int \<Rightarrow> crypto_state \<Rightarrow> (crypto_error + bytes) \<times> crypto_state" where
  "encrypt pr salt nonce plaintext passphrase memory_kb st =
     (case with_session pr passphrase memory_kb st of
        (Inl e, st') \<Rightarrow> (Inl e, st')
      | (Inr master, st') \<Rightarrow> (Inr (encrypt_with_master_key pr salt nonce plaintext master), st'))"

definition decrypt ::
  "prims \<Rightarrow> bytes \<Rightarrow> pystr \<Rightarrow> int \<Rightarrow> crypto_state \<Rightarrow> (crypto_error + bytes) \<times> crypto_state" where
  "decrypt pr blob passphrase memory_kb st =
     (case with_session pr passphrase memory_kb st of
        (Inl e, st') \<Rightarrow> (Inl e, st')
      | (Inr master, st') \<Rightarrow> (decrypt_with_master_key pr blob master, st'))"

definition verify_passphrase :: "prims \<Rightarrow> bytes \<Rightarrow> bytes \<Rightarrow> crypto_error + unit" where
  "verify_passphrase pr master_key keycheck_blob =
     (case decrypt_with_master_key pr keycheck_blob master_key of
        Inl Untranslated \<Rightarrow> Inl Untranslated
      | Inl _ \<Rightarrow> Inl CryptoError
      | Inr plaintext \<Rightarrow> if plaintext = KEYCHECK_PLAINTEXT then Inr () else Inl CryptoError)"

section \<open>\<open>mm-crypto-init\<close>\<close>

definition CRYPTO_INIT_KEY :: pystr where "CRYPTO_INIT_KEY = u ''mm-crypto-init''"

text \<open>One parsed copy: \<open>Good\<close> has the root salt, the memory cost and the keycheck blob.\<close>

datatype parsed_init = Good bytes int bytes | Corrupt | Newer nat

definition parse_crypto_init :: "bytes \<Rightarrow> parsed_init" where
  "parse_crypto_init data =
     (case newer_version data of
        Some v \<Rightarrow> Newer v
      | None \<Rightarrow>
          if length data < 1 + MEMORY_KB_FIELD_LEN + ROOT_SALT_LEN + 1 then Corrupt
          else if unat (hd data) \<noteq> FORMAT_VERSION then Corrupt
          else
            (let keycheck_blob = drop (1 + MEMORY_KB_FIELD_LEN + ROOT_SALT_LEN) data
             in case newer_version keycheck_blob of
                  Some v \<Rightarrow> Newer v
                | None \<Rightarrow>
                    (let memory_kb = from_bytes (take MEMORY_KB_FIELD_LEN (drop 1 data))
                     in if memory_kb < 1024 \<or> memory_kb > 1048576 then Corrupt
                        else if length keycheck_blob < 1 + SALT_LEN + NONCE_LEN + 1 \<or>
                            unat (hd keycheck_blob) \<noteq> FORMAT_VERSION then Corrupt
                        else Good (take ROOT_SALT_LEN (drop (1 + MEMORY_KB_FIELD_LEN) data)) memory_kb
                               keycheck_blob)))"

definition serialize_crypto_init :: "int \<Rightarrow> bytes \<Rightarrow> bytes \<Rightarrow> crypto_error + bytes" where
  "serialize_crypto_init memory_kb root_salt keycheck_blob =
     (if length root_salt \<noteq> ROOT_SALT_LEN then Inl CryptoError
      else (case to_bytes4 memory_kb of
              None \<Rightarrow> Inl Untranslated
            | Some kb \<Rightarrow> Inr ([of_nat FORMAT_VERSION] @ kb @ root_salt @ keycheck_blob)))"

text \<open>The storage root as far as it matters here: regular files, names that are files but cannot be read
  without following a link, and everything else.\<close>

datatype init_entry = Plain bytes | Opaque | Special

type_synonym init_dir = "(pystr, init_entry) dict"

definition read_regular_nofollow :: "init_dir \<Rightarrow> pystr \<Rightarrow> bytes option" where
  "read_regular_nofollow d name = (case map_of d name of Some (Plain b) \<Rightarrow> Some b | _ \<Rightarrow> None)"

definition init_conflicts :: "init_dir \<Rightarrow> pystr list" where
  "init_conflicts d =
     sort (filter (\<lambda>f. f \<noteq> CRYPTO_INIT_KEY \<and> map_of d f \<noteq> Some Special \<and> is_conflict_of f CRYPTO_INIT_KEY [])
       (dkeys d))"

record candidate =
  ca_name :: pystr
  ca_hash :: "bytes option"
  ca_delete :: bool

record repair_plan =
  rp_winner :: bytes
  rp_canonical :: "candidate option"
  rp_copies :: "candidate list"

record init_ok =
  io_salt :: bytes
  io_memory_kb :: int
  io_keycheck :: bytes
  io_winner :: "bytes option"
  io_plan :: "repair_plan option"

text \<open>\<open>Refused\<close> has the newest version among the copies and whether the canonical file has one.\<close>

datatype init_fetch = Found init_ok | Absent | Refused "(nat \<times> bool) option"

fun first_min :: "('a \<Rightarrow> 'b::linorder) \<Rightarrow> 'a \<Rightarrow> 'a list \<Rightarrow> 'a" where
  "first_min k x [] = x"
| "first_min k x (y # ys) = first_min k (if k y < k x then y else x) ys"

definition observed_copies :: "init_dir \<Rightarrow> (pystr \<times> bytes option) list" where
  "observed_copies d =
     (if map_of d CRYPTO_INIT_KEY \<noteq> None then [(CRYPTO_INIT_KEY, read_regular_nofollow d CRYPTO_INIT_KEY)] else []) @
     map (\<lambda>f. (f, read_regular_nofollow d f)) (init_conflicts d)"

definition newer_copies :: "(pystr \<times> bytes option) list \<Rightarrow> (pystr \<times> nat) list" where
  "newer_copies obs =
     List.map_filter (\<lambda>(name, raw). case raw of
        None \<Rightarrow> None
      | Some r \<Rightarrow> (case parse_crypto_init r of Newer v \<Rightarrow> Some (name, v) | _ \<Rightarrow> None)) obs"

definition valid_copies :: "(pystr \<times> bytes option) list \<Rightarrow> (bytes \<times> bytes \<times> int \<times> bytes) list" where
  "valid_copies obs =
     List.map_filter (\<lambda>(name, raw). case raw of
        None \<Rightarrow> None
      | Some r \<Rightarrow> (case parse_crypto_init r of Good salt kb kc \<Rightarrow> Some (r, salt, kb, kc) | _ \<Rightarrow> None)) obs"

definition make_candidate :: "prims \<Rightarrow> bytes option \<Rightarrow> pystr \<times> bytes option \<Rightarrow> candidate" where
  "make_candidate pr canonical_raw e =
     (case e of (name, raw) \<Rightarrow>
        \<lparr>ca_name = name, ca_hash = map_option (pr_sha256 pr) raw,
         ca_delete = (name \<noteq> CRYPTO_INIT_KEY \<and> canonical_raw \<noteq> None \<and> raw = canonical_raw)\<rparr>)"

definition make_plan :: "prims \<Rightarrow> init_dir \<Rightarrow> bytes \<Rightarrow> repair_plan" where
  "make_plan pr d winner =
     (let raw = read_regular_nofollow d CRYPTO_INIT_KEY
      in \<lparr>rp_winner = winner,
          rp_canonical = (if map_of d CRYPTO_INIT_KEY \<noteq> None
            then Some (make_candidate pr raw (CRYPTO_INIT_KEY, raw)) else None),
          rp_copies = map (make_candidate pr raw) (filter (\<lambda>e. fst e \<noteq> CRYPTO_INIT_KEY) (observed_copies d))\<rparr>)"

definition chosen_copy :: "prims \<Rightarrow> init_dir \<Rightarrow> bytes \<times> bytes \<times> int \<times> bytes \<Rightarrow> init_ok" where
  "chosen_copy pr d v =
     (case v of (raw, salt, kb, kc) \<Rightarrow>
        \<lparr>io_salt = salt, io_memory_kb = kb, io_keycheck = kc, io_winner = Some raw,
         io_plan = (if rp_copies (make_plan pr d raw) = [] then None else Some (make_plan pr d raw))\<rparr>)"

definition fetch_crypto_init :: "prims \<Rightarrow> init_dir \<Rightarrow> init_fetch" where
  "fetch_crypto_init pr d =
     (let obs = observed_copies d; newer = newer_copies obs
      in if obs = [] then Absent
         else if newer \<noteq> [] then Refused (Some (Max (snd ` set newer), \<exists>e \<in> set newer. fst e = CRYPTO_INIT_KEY))
         else
           (case valid_copies obs of
              [] \<Rightarrow> Refused None
            | v # vs \<Rightarrow> Found (chosen_copy pr d (first_min (\<lambda>(raw, salt, kb, kc). salt) v vs))))"

text \<open>\<open>crypto_init_repair_counts\<close>: how many copies would go and how many stay.\<close>

definition repair_counts :: "init_ok \<Rightarrow> nat \<times> nat" where
  "repair_counts f =
     (case io_plan f of
        None \<Rightarrow> (0, 0)
      | Some plan \<Rightarrow> (length (filter ca_delete (rp_copies plan)), length (filter (\<lambda>c. \<not> ca_delete c) (rp_copies plan))))"

section \<open>Repair\<close>

text \<open>Other processes change the folder between two steps: \<open>env n\<close> is what they do before the step
  \<open>n\<close>, and \<open>can n\<close> says whether the unlink of the step succeeds. Next to the result and the folder,
  the log has each removed name with the folder at the moment of its removal.\<close>

type_synonym removal_log = "(pystr \<times> init_dir) list"

fun remove_copies ::
  "prims \<Rightarrow> (nat \<Rightarrow> init_dir \<Rightarrow> init_dir) \<Rightarrow> (nat \<Rightarrow> bool) \<Rightarrow> bytes option \<Rightarrow> (pystr, bytes) dict \<Rightarrow> nat \<Rightarrow>
     pystr list \<Rightarrow> init_dir \<Rightarrow> (crypto_error + unit) \<times> init_dir \<times> removal_log" where
  "remove_copies pr env can planned removable n [] d = (Inr (), d, [])"
| "remove_copies pr env can planned removable n (f # fs) d =
     (case map_of removable f of
        None \<Rightarrow> remove_copies pr env can planned removable n fs d
      | Some digest \<Rightarrow>
          (let d' = env n d
           in case read_regular_nofollow d' CRYPTO_INIT_KEY of
                None \<Rightarrow> (Inr (), d', [])
              | Some c \<Rightarrow>
                  if Some (pr_sha256 pr c) \<noteq> planned then (Inr (), d', [])
                  else if map_option (pr_sha256 pr) (read_regular_nofollow d' f) = Some digest then
                    (if can n then
                       (case remove_copies pr env can planned removable (Suc n) fs (AList.delete f d') of
                          (r, d'', log) \<Rightarrow> (r, d'', (f, d') # log))
                     else (Inl CryptoError, d', []))
                  else remove_copies pr env can planned removable (Suc n) fs d'))"

definition planned_deletes :: "repair_plan \<Rightarrow> (pystr, bytes option) dict" where
  "planned_deletes plan = map (\<lambda>c. (ca_name c, ca_hash c)) (filter ca_delete (rp_copies plan))"

definition removable_copies :: "prims \<Rightarrow> repair_plan \<Rightarrow> init_dir \<Rightarrow> (pystr, bytes) dict" where
  "removable_copies pr plan d =
     List.map_filter (\<lambda>f. case map_of (planned_deletes plan) f of
        Some (Some h) \<Rightarrow>
          if map_option (pr_sha256 pr) (read_regular_nofollow d f) = Some h then Some (f, h) else None
      | _ \<Rightarrow> None) (init_conflicts d)"

definition winner_of :: "init_fetch \<Rightarrow> bytes option" where
  "winner_of f = (case f of Found ok \<Rightarrow> io_winner ok | _ \<Rightarrow> None)"

definition plan_of :: "init_fetch \<Rightarrow> repair_plan option" where
  "plan_of f = (case f of Found ok \<Rightarrow> io_plan ok | _ \<Rightarrow> None)"

definition apply_crypto_init_repair ::
  "prims \<Rightarrow> (nat \<Rightarrow> init_dir \<Rightarrow> init_dir) \<Rightarrow> (nat \<Rightarrow> bool) \<Rightarrow> init_fetch \<Rightarrow> init_dir \<Rightarrow>
     (crypto_error + unit) \<times> init_dir \<times> removal_log" where
  "apply_crypto_init_repair pr env can fetched d =
     (let d0 = env 0 d; fresh = fetch_crypto_init pr d0
      in case fresh of
           Refused (Some (v, _)) \<Rightarrow> (Inl (NewerFormat v), d0, [])
         | _ \<Rightarrow>
             if winner_of fetched = None \<or> winner_of fresh \<noteq> winner_of fetched then (Inl CryptoError, d0, [])
             else
               (case plan_of fetched of
                  None \<Rightarrow> (Inr (), d0, [])
                | Some plan \<Rightarrow>
                    (let d1 = env 1 d0; raw = read_regular_nofollow d1 CRYPTO_INIT_KEY;
                         planned = Option.bind (rp_canonical plan) ca_hash
                     in if map_option (pr_sha256 pr) raw \<noteq> planned then (Inl CryptoError, d1, [])
                        else if raw = None then (Inr (), d1, [])
                        else
                          (let d2 = env 2 d1; removable = removable_copies pr plan d2; d3 = env 3 d2
                           in remove_copies pr env can planned removable 4 (init_conflicts d3) d3))))"

section \<open>Bootstrap\<close>

text \<open>The first device writes the canonical file with an exclusive put and primes the cache.\<close>

definition bootstrap_crypto_init ::
  "prims \<Rightarrow> bytes \<Rightarrow> bytes \<Rightarrow> bytes \<Rightarrow> pystr \<Rightarrow> int \<Rightarrow> init_dir \<Rightarrow> crypto_state \<Rightarrow>
     (crypto_error + init_fetch) \<times> init_dir \<times> crypto_state" where
  "bootstrap_crypto_init pr root_salt salt nonce passphrase memory_kb d st =
     (case derive_key pr passphrase root_salt memory_kb of
        Inl e \<Rightarrow> (Inl e, d, st)
      | Inr master \<Rightarrow>
          (let keycheck_blob = encrypt_with_master_key pr salt nonce KEYCHECK_PLAINTEXT master
           in case serialize_crypto_init memory_kb root_salt keycheck_blob of
                Inl e \<Rightarrow> (Inl e, d, st)
              | Inr blob \<Rightarrow>
                  if map_of d CRYPTO_INIT_KEY \<noteq> None then (Inl AlreadyExists, d, st)
                  else
                    (let d' = AList.update CRYPTO_INIT_KEY (Plain blob) d
                     in case cache_key pr passphrase root_salt memory_kb of
                          None \<Rightarrow> (Inl Untranslated, d', st)
                        | Some key \<Rightarrow>
                            (Inr (Found \<lparr>io_salt = root_salt, io_memory_kb = memory_kb, io_keycheck = keycheck_blob,
                                   io_winner = None, io_plan = None\<rparr>),
                             d', st\<lparr>cs_cache := AList.update key master (cs_cache st)\<rparr>))))"

section \<open>Laws\<close>

text \<open>Documented behaviour of the primitives: opening a sealed text and unpacking a packed one give it
  back, and a sealed text has at least its tag.\<close>

definition prims_ok :: "prims \<Rightarrow> bool" where
  "prims_ok pr \<longleftrightarrow>
     (\<forall>k n c. pr_open pr k n (pr_seal pr k n c) = Some c \<and> pr_seal pr k n c \<noteq> []) \<and>
     (\<forall>p. pr_gunzip pr (pr_gzip pr p) = Some p)"

lemma encrypted_version [simp]: "newer_version ([of_nat FORMAT_VERSION] @ bs) = None"
  by (simp add: newer_version_def FORMAT_VERSION_def)

lemma decrypt_encrypt_master:
  assumes "prims_ok pr" "length salt = SALT_LEN" "length nonce = NONCE_LEN"
  shows "decrypt_with_master_key pr (encrypt_with_master_key pr salt nonce p key) key = Inr p"
proof -
  let ?c = "pr_seal pr (derive_file_key pr key salt) nonce (pr_gzip pr p)"
  have b: "encrypt_with_master_key pr salt nonce p key = [of_nat FORMAT_VERSION] @ salt @ nonce @ ?c"
    by (simp add: encrypt_with_master_key_def)
  have "?c \<noteq> []" using assms(1) by (simp add: prims_ok_def)
  then have l: "\<not> length ([of_nat FORMAT_VERSION] @ salt @ nonce @ ?c) < 1 + SALT_LEN + NONCE_LEN + 1"
    using assms(2,3) by (cases ?c) simp_all
  show ?thesis
    unfolding b decrypt_with_master_key_def encrypted_version option.case if_not_P [OF l] Let_def
    using assms by (simp add: prims_ok_def FORMAT_VERSION_def)
qed

lemma uint_of_int_byte: "0 \<le> n \<Longrightarrow> n < 256 \<Longrightarrow> uint (word_of_int n :: 8 word) = n"
  by (simp add: uint_word_of_int take_bit_eq_mod)

lemma bytes4: "to_bytes4 n = Some b \<Longrightarrow> length b = MEMORY_KB_FIELD_LEN \<and> from_bytes b = n"
proof -
  assume "to_bytes4 n = Some b"
  then have n: "0 \<le> n" "n < 2 ^ 32" and b: "b = [of_int (n div 2 ^ 24), of_int (n div 2 ^ 16 mod 256),
      of_int (n div 2 ^ 8 mod 256), of_int (n mod 256)]" by (auto simp: to_bytes4_def split: if_splits)
  have "n div 2 ^ 24 < 256" using n by simp
  then have "from_bytes b = ((n div 2 ^ 24 * 256 + n div 2 ^ 16 mod 256) * 256 + n div 2 ^ 8 mod 256) * 256 + n mod 256"
    using n unfolding b from_bytes_def by (simp add: uint_of_int_byte)
  also have "\<dots> = n"
  proof -
    have d: "n div 2 ^ 24 = n div 2 ^ 16 div 256" "n div 2 ^ 16 = n div 2 ^ 8 div 256" "n div 2 ^ 8 = n div 256"
      by (simp_all add: zdiv_zmult2_eq [symmetric])
    show ?thesis unfolding d(1) div_mult_mod_eq unfolding d(2) div_mult_mod_eq unfolding d(3) by (rule div_mult_mod_eq)
  qed
  finally show ?thesis by (simp add: b MEMORY_KB_FIELD_LEN_def)
qed

lemma parse_serialize:
  assumes "serialize_crypto_init kb root_salt kc = Inr blob" "1024 \<le> kb" "kb \<le> 1048576"
    "1 + SALT_LEN + NONCE_LEN + 1 \<le> length kc" "unat (hd kc) = FORMAT_VERSION"
  shows "parse_crypto_init blob = Good root_salt kb kc"
proof -
  from assms(1) obtain b where s: "length root_salt = ROOT_SALT_LEN" "to_bytes4 kb = Some b"
    "blob = [of_nat FORMAT_VERSION] @ b @ root_salt @ kc"
    by (auto simp: serialize_crypto_init_def split: if_splits option.splits)
  note b = bytes4 [OF s(2)]
  obtain v vs where kc: "kc = v # vs" using assms(4) by (cases kc) simp_all
  have n: "newer_version kc = None" using assms(5) by (simp add: kc newer_version_def)
  have l: "\<not> length ([of_nat FORMAT_VERSION] @ b @ root_salt @ kc) < 1 + MEMORY_KB_FIELD_LEN + ROOT_SALT_LEN + 1"
    using b s(1) by (simp add: kc)
  have d: "drop (1 + MEMORY_KB_FIELD_LEN + ROOT_SALT_LEN) ([of_nat FORMAT_VERSION] @ b @ root_salt @ kc) = kc"
    "take MEMORY_KB_FIELD_LEN (drop 1 ([of_nat FORMAT_VERSION] @ b @ root_salt @ kc)) = b"
    "take ROOT_SALT_LEN (drop (1 + MEMORY_KB_FIELD_LEN) ([of_nat FORMAT_VERSION] @ b @ root_salt @ kc)) = root_salt"
    using b s(1) by simp_all
  show ?thesis
    unfolding s(3) parse_crypto_init_def encrypted_version option.case if_not_P [OF l] Let_def d n
    using b assms(2-5) by (simp add: FORMAT_VERSION_def)
qed

text \<open>The cache. Only passphrases of \<open>P\<close> are used, and their digests differ.\<close>

definition collision_free :: "prims \<Rightarrow> pystr set \<Rightarrow> bool" where
  "collision_free pr P \<longleftrightarrow> (\<forall>p \<in> P. \<forall>q \<in> P. \<forall>a b. encode_utf8 p = Some a \<and> encode_utf8 q = Some b \<and>
     pr_sha256 pr a = pr_sha256 pr b \<longrightarrow> a = b)"

definition cache_ok :: "prims \<Rightarrow> pystr set \<Rightarrow> crypto_state \<Rightarrow> bool" where
  "cache_ok pr P st \<longleftrightarrow> (\<forall>p \<in> P. \<forall>salt kb key k. p \<noteq> [] \<and> length salt = ROOT_SALT_LEN \<and>
     cache_key pr p salt kb = Some key \<and> map_of (cs_cache st) key = Some k \<longrightarrow> derive_key pr p salt kb = Inr k)"

lemma cache_key_inject:
  assumes "collision_free pr P" "p \<in> P" "q \<in> P" "cache_key pr p salt kb = Some key" "cache_key pr q salt' kb' = Some key"
    "length salt = ROOT_SALT_LEN" "length salt' = ROOT_SALT_LEN"
  shows "encode_utf8 p = encode_utf8 q \<and> salt = salt' \<and> kb = kb'"
proof -
  from assms(4) obtain a x where a: "encode_utf8 p = Some a" "to_bytes4 kb = Some x" "key = pr_sha256 pr a @ salt @ x"
    by (auto simp: cache_key_def split: option.splits)
  from assms(5) obtain b y where b: "encode_utf8 q = Some b" "to_bytes4 kb' = Some y" "key = pr_sha256 pr b @ salt' @ y"
    by (auto simp: cache_key_def split: option.splits)
  have "(pr_sha256 pr a @ salt) @ x = (pr_sha256 pr b @ salt') @ y" using a(3) b(3) by simp
  then have "pr_sha256 pr a @ salt = pr_sha256 pr b @ salt' \<and> x = y"
    using bytes4 [OF a(2)] bytes4 [OF b(2)] by (intro append_eq_append_conv [THEN iffD1]) simp_all
  moreover from this have "pr_sha256 pr a = pr_sha256 pr b \<and> salt = salt'"
    using assms(6,7) by (intro append_eq_append_conv [THEN iffD1]) simp_all
  ultimately show ?thesis using a b assms(1-3) bytes4 [OF a(2)] bytes4 [OF b(2)] unfolding collision_free_def by metis
qed

lemma derive_key_cong: "encode_utf8 p = encode_utf8 q \<Longrightarrow> p \<noteq> [] \<Longrightarrow> q \<noteq> [] \<Longrightarrow> derive_key pr p salt kb = derive_key pr q salt kb"
  by (simp add: derive_key_def)

lemma cache_ok_update:
  assumes "collision_free pr P" "cache_ok pr P st" "p \<in> P" "p \<noteq> []" "length salt = ROOT_SALT_LEN"
    "cache_key pr p salt kb = Some key" "derive_key pr p salt kb = Inr k"
  shows "cache_ok pr P (st\<lparr>cs_cache := AList.update key k (cs_cache st)\<rparr>)"
  unfolding cache_ok_def
proof (intro ballI allI impI, elim conjE)
  fix q s b key' k'
  assume q: "q \<in> P" "q \<noteq> []" "length s = ROOT_SALT_LEN" "cache_key pr q s b = Some key'"
    and m: "map_of (cs_cache (st\<lparr>cs_cache := AList.update key k (cs_cache st)\<rparr>)) key' = Some k'"
  show "derive_key pr q s b = Inr k'"
  proof (cases "key' = key")
    case True
    with cache_key_inject [OF assms(1) q(1) assms(3) _ assms(6) q(3) assms(5)] q(4)
    have "encode_utf8 q = encode_utf8 p" "s = salt" "b = kb" by simp_all
    with derive_key_cong [OF _ q(2) assms(4)] assms(7) m True show ?thesis by (simp add: map_of_alist_update)
  next
    case False
    with m q assms(2) show ?thesis unfolding cache_ok_def by (simp add: map_of_alist_update)
  qed
qed

text \<open>The derivation without a cache.\<close>

definition fresh_master_key :: "prims \<Rightarrow> pystr \<Rightarrow> bytes \<Rightarrow> int \<Rightarrow> crypto_error + bytes" where
  "fresh_master_key pr passphrase root_salt memory_kb =
     (if passphrase = [] \<or> length root_salt \<noteq> ROOT_SALT_LEN then Inl CryptoError
      else if cache_key pr passphrase root_salt memory_kb = None then Inl Untranslated
      else derive_key pr passphrase root_salt memory_kb)"

lemma load_master_key_fresh:
  assumes "collision_free pr P" "cache_ok pr P st" "p \<in> P"
  shows "\<exists>st'. load_master_key pr p salt kb st = (fresh_master_key pr p salt kb, st') \<and> cache_ok pr P st' \<and>
    cs_session st' = cs_session st"
proof (cases "p = [] \<or> length salt \<noteq> ROOT_SALT_LEN \<or> cache_key pr p salt kb = None")
  case True
  with assms(2) show ?thesis by (auto simp: load_master_key_def fresh_master_key_def)
next
  case False
  then obtain key where k: "p \<noteq> []" "length salt = ROOT_SALT_LEN" "cache_key pr p salt kb = Some key" by auto
  show ?thesis
  proof (cases "map_of (cs_cache st) key")
    case None
    with k assms(2) cache_ok_update [OF assms k] show ?thesis
      by (cases "derive_key pr p salt kb") (simp_all add: load_master_key_def fresh_master_key_def)
  next
    case (Some m)
    with assms(2,3) k have "derive_key pr p salt kb = Inr m" unfolding cache_ok_def by blast
    with Some k assms(2) show ?thesis by (simp add: load_master_key_def fresh_master_key_def)
  qed
qed

section \<open>Laws of the repair\<close>

lemma map_of_filter_key: "map_of (filter (\<lambda>e. P (fst e)) d) f = (if P f then map_of d f else None)"
  by (induction d) auto

lemma map_of_filter_out: "map_of (filter (\<lambda>e. \<not> P (fst e)) d) f = (if P f then None else map_of d f)"
  by (induction d) auto

lemma map_filter_mem: "y \<in> set (List.map_filter g xs) \<longleftrightarrow> (\<exists>x \<in> set xs. g x = Some y)"
  by (force simp: map_filter_def)

lemma init_conflicts_mem:
  "f \<in> set (init_conflicts d) \<longleftrightarrow>
     map_of d f \<noteq> None \<and> f \<noteq> CRYPTO_INIT_KEY \<and> map_of d f \<noteq> Some Special \<and> is_conflict_of f CRYPTO_INIT_KEY []"
  by (auto simp: init_conflicts_def)

lemma removal_checked:
  assumes "remove_copies pr env can planned removable n fs d = (r, d', log)" "(f, now) \<in> set log"
  shows "f \<in> set fs \<and> (\<exists>c raw h. read_regular_nofollow now CRYPTO_INIT_KEY = Some c \<and>
    read_regular_nofollow now f = Some raw \<and> map_of removable f = Some h \<and> pr_sha256 pr raw = h \<and>
    Some (pr_sha256 pr c) = planned)"
  using assms
proof (induction pr env can planned removable n fs d arbitrary: r d' log rule: remove_copies.induct)
  case (2 pr env can planned removable n g fs d)
  show ?case
  proof (cases "map_of removable g")
    case None
    with "2.IH"(1) [OF None] "2.prems" show ?thesis by simp
  next
    case (Some h)
    let ?d = "env n d"
    show ?thesis
    proof (cases "read_regular_nofollow ?d CRYPTO_INIT_KEY")
      case None
      with Some "2.prems" show ?thesis by simp
    next
      case c: (Some c)
      show ?thesis
      proof (cases "Some (pr_sha256 pr c) \<noteq> planned")
        case True
        with Some c "2.prems" show ?thesis by simp
      next
        case eq: False
        show ?thesis
        proof (cases "map_option (pr_sha256 pr) (read_regular_nofollow ?d g) = Some h")
          case True
          show ?thesis
          proof (cases "can n")
            case can: True
            obtain r1 d1 log1 where rec: "remove_copies pr env can planned removable (Suc n) fs (AList.delete g ?d) = (r1, d1, log1)"
              by (metis prod_cases3)
            with "2.prems"(1) Some c eq True can have log: "log = (g, ?d) # log1" by simp
            show ?thesis
            proof (cases "(f, now) \<in> set log1")
              case True1: True
              from "2.IH"(2) [OF Some refl c eq True can rec True1] show ?thesis by simp
            next
              case False
              with "2.prems"(2) log have "f = g" "now = ?d" by auto
              with True Some c eq show ?thesis by auto
            qed
          next
            case False
            with "2.prems" Some c eq True show ?thesis by simp
          qed
        next
          case False
          with "2.prems"(1) Some c eq
          have "remove_copies pr env can planned removable (Suc n) fs ?d = (r, d', log)"
            by (simp add: Let_def del: map_option_eq_Some)
          from "2.IH"(3) [OF Some refl c eq False this "2.prems"(2)] show ?thesis by simp
        qed
      qed
    qed
  qed
qed simp

lemma fetch_found:
  "fetch_crypto_init pr d = Found ok \<longleftrightarrow> newer_copies (observed_copies d) = [] \<and>
     (\<exists>v vs. valid_copies (observed_copies d) = v # vs \<and>
       ok = chosen_copy pr d (first_min (\<lambda>(raw, salt, kb, kc). salt) v vs))"
proof -
  have "valid_copies [] = []" by (simp add: valid_copies_def map_filter_simps)
  then show ?thesis
    by (cases "observed_copies d = []")
      (auto simp: fetch_crypto_init_def Let_def split: list.split)
qed

lemma chosen_copy_plan: "io_plan (chosen_copy pr d v) = Some plan \<Longrightarrow> plan = make_plan pr d (fst v)"
  by (auto simp: chosen_copy_def split: prod.splits if_splits)

lemma planned_delete_hash:
  assumes "fetch_crypto_init pr old = Found ok" "io_plan ok = Some plan" "map_of (planned_deletes plan) f = Some h"
  shows "\<exists>c. read_regular_nofollow old CRYPTO_INIT_KEY = Some c \<and> h = Some (pr_sha256 pr c) \<and>
    Option.bind (rp_canonical plan) ca_hash = h \<and> (f, Some c) \<in> set (observed_copies old) \<and> f \<noteq> CRYPTO_INIT_KEY"
proof -
  from assms(1) obtain v where "ok = chosen_copy pr old v" unfolding fetch_found by blast
  with assms(2) chosen_copy_plan obtain w where plan: "plan = make_plan pr old w" by blast
  from map_of_SomeD [OF assms(3)] obtain ca where ca: "ca \<in> set (rp_copies plan)" "ca_delete ca" "f = ca_name ca" "h = ca_hash ca"
    by (auto simp: planned_deletes_def)
  have cop: "rp_copies plan = map (make_candidate pr (read_regular_nofollow old CRYPTO_INIT_KEY))
      (filter (\<lambda>e. fst e \<noteq> CRYPTO_INIT_KEY) (observed_copies old))"
    by (simp add: plan make_plan_def Let_def)
  from ca(1) obtain e where e: "e \<in> set (observed_copies old)" "fst e \<noteq> CRYPTO_INIT_KEY"
    "ca = make_candidate pr (read_regular_nofollow old CRYPTO_INIT_KEY) e" unfolding cop by auto
  obtain n raw where n: "e = (n, raw)" by (cases e)
  from ca(2) e(3) obtain c where c: "read_regular_nofollow old CRYPTO_INIT_KEY = Some c" "raw = Some c"
    by (auto simp: make_candidate_def n)
  have f: "f = n" "h = Some (pr_sha256 pr c)" using ca(3,4) e(3) by (simp_all add: make_candidate_def n c(2))
  have "map_of old CRYPTO_INIT_KEY \<noteq> None" using c(1) by (auto simp: read_regular_nofollow_def split: option.splits)
  then have "Option.bind (rp_canonical plan) ca_hash = h"
    using c(1) f(2) by (simp add: plan make_plan_def Let_def make_candidate_def)
  with c e(1,2) f n show ?thesis by auto
qed

text \<open>A quiet folder: nobody else writes during the repair.\<close>

definition quiet :: "nat \<Rightarrow> init_dir \<Rightarrow> init_dir" where
  "quiet n d = d"

lemma delete_fold: "fold AList.delete fs d = filter (\<lambda>e. fst e \<notin> set fs) d"
proof (induction fs arbitrary: d)
  case (Cons f fs)
  have "fold AList.delete (f # fs) d = filter (\<lambda>e. fst e \<notin> set fs) (AList.delete f d)" using Cons by simp
  also have "\<dots> = filter (\<lambda>e. fst e \<notin> set (f # fs)) d"
    by (auto simp: AList.delete_eq filter_filter intro!: filter_cong)
  finally show ?case .
qed simp

lemma read_delete:
  "read_regular_nofollow (AList.delete f d) k = (if k = f then None else read_regular_nofollow d k)"
  by (simp add: read_regular_nofollow_def delete_conv')

lemma remove_copies_quiet:
  assumes "read_regular_nofollow d CRYPTO_INIT_KEY = Some c" "distinct fs" "CRYPTO_INIT_KEY \<notin> set fs"
    and "\<forall>f \<in> set fs. \<forall>h. map_of removable f = Some h \<longrightarrow> read_regular_nofollow d f = Some c \<and> h = pr_sha256 pr c"
  shows "\<exists>log. remove_copies pr quiet (\<lambda>_. True) (Some (pr_sha256 pr c)) removable n fs d =
    (Inr (), fold AList.delete (filter (\<lambda>f. map_of removable f \<noteq> None) fs) d, log)"
  using assms
proof (induction fs arbitrary: d n)
  case Nil
  then show ?case by simp
next
  case (Cons f fs)
  show ?case
  proof (cases "map_of removable f")
    case None
    have "\<exists>log. remove_copies pr quiet (\<lambda>_. True) (Some (pr_sha256 pr c)) removable n fs d =
        (Inr (), fold AList.delete (filter (\<lambda>f. map_of removable f \<noteq> None) fs) d, log)"
      by (rule Cons.IH) (use Cons.prems in simp_all)
    with None show ?thesis by simp
  next
    case (Some h)
    with Cons.prems have f: "read_regular_nofollow d f = Some c" "h = pr_sha256 pr c" by auto
    have "\<exists>log. remove_copies pr quiet (\<lambda>_. True) (Some (pr_sha256 pr c)) removable (Suc n) fs (AList.delete f d) =
        (Inr (), fold AList.delete (filter (\<lambda>f. map_of removable f \<noteq> None) fs) (AList.delete f d), log)"
      by (rule Cons.IH) (use Cons.prems in \<open>auto simp: read_delete\<close>)
    then obtain log where "remove_copies pr quiet (\<lambda>_. True) (Some (pr_sha256 pr c)) removable (Suc n) fs (AList.delete f d) =
        (Inr (), fold AList.delete (filter (\<lambda>f. map_of removable f \<noteq> None) fs) (AList.delete f d), log)" by blast
    moreover have "quiet n d = d" by (simp add: quiet_def)
    ultimately show ?thesis using Some f Cons.prems(1) by simp
  qed
qed

lemma first_min_skip: "k x \<le> k v \<Longrightarrow> first_min k x (filter (\<lambda>y. y \<noteq> v) ys) = first_min k x ys"
proof (induction ys arbitrary: x)
  case (Cons y ys)
  show ?case
  proof (cases "k y < k x")
    case True
    with Cons.prems have "y \<noteq> v" "k y \<le> k v" by auto
    with Cons.IH [of y] True show ?thesis by simp
  next
    case False
    with Cons.IH [OF Cons.prems] show ?thesis by simp
  qed
qed simp

lemma quiet_eq [simp]: "quiet n d = d"
  by (simp add: quiet_def)

lemma observed_KEY: "(CRYPTO_INIT_KEY, raw) \<in> set (observed_copies d) \<Longrightarrow> raw = read_regular_nofollow d CRYPTO_INIT_KEY"
  by (auto simp: observed_copies_def init_conflicts_mem split: if_splits)

lemma observed_read: "(f, raw) \<in> set (observed_copies d) \<Longrightarrow> raw = read_regular_nofollow d f"
  by (auto simp: observed_copies_def split: if_splits)

text \<open>Which names of the folder a quiet repair removes.\<close>

definition duplicate :: "init_dir \<Rightarrow> pystr \<Rightarrow> bool" where
  "duplicate d f \<longleftrightarrow> f \<in> set (init_conflicts d) \<and> read_regular_nofollow d CRYPTO_INIT_KEY \<noteq> None \<and>
     read_regular_nofollow d f = read_regular_nofollow d CRYPTO_INIT_KEY"

lemma map_of_map_filter_keys:
  assumes "distinct fs"
  shows "map_of (List.map_filter (\<lambda>f. map_option (Pair f) (g f)) fs) k = (if k \<in> set fs then g k else None)"
  using assms by (induction fs) (auto simp: map_filter_simps split: option.split)

lemma distinct_init_conflicts: "distinct_keys d \<Longrightarrow> distinct (init_conflicts d)"
  by (simp add: init_conflicts_def distinct_keys_def dkeys_def)

lemma removable_map_of:
  assumes "distinct_keys d"
  shows "map_of (removable_copies pr plan d) f =
    (if f \<in> set (init_conflicts d) then
       (case map_of (planned_deletes plan) f of
          Some (Some h) \<Rightarrow> if map_option (pr_sha256 pr) (read_regular_nofollow d f) = Some h then Some h else None
        | _ \<Rightarrow> None) else None)"
proof -
  define g where "g f = (case map_of (planned_deletes plan) f of
          Some (Some h) \<Rightarrow> if map_option (pr_sha256 pr) (read_regular_nofollow d f) = Some h then Some h else None
        | _ \<Rightarrow> None)" for f
  have "removable_copies pr plan d = List.map_filter (\<lambda>f. map_option (Pair f) (g f)) (init_conflicts d)"
    unfolding removable_copies_def g_def
    by (rule arg_cong [of _ _ "\<lambda>h. List.map_filter h (init_conflicts d)"]) (auto simp: fun_eq_iff split: option.split)
  then show ?thesis unfolding map_of_map_filter_keys [OF distinct_init_conflicts [OF assms], of g, symmetric, unfolded g_def]
    by (simp only: g_def)
qed

lemma planned_deletes_mem:
  assumes "distinct_keys d" "duplicate d f"
  shows "map_of (planned_deletes (make_plan pr d w)) f =
    Some (map_option (pr_sha256 pr) (read_regular_nofollow d CRYPTO_INIT_KEY))"
proof -
  let ?raw = "read_regular_nofollow d CRYPTO_INIT_KEY"
  have ne: "CRYPTO_INIT_KEY \<notin> set (init_conflicts d)" by (simp add: init_conflicts_mem)
  have "planned_deletes (make_plan pr d w) =
      map (\<lambda>f. (f, map_option (pr_sha256 pr) (read_regular_nofollow d f)))
        (filter (\<lambda>f. ?raw \<noteq> None \<and> read_regular_nofollow d f = ?raw) (init_conflicts d))"
    by (simp add: planned_deletes_def make_plan_def Let_def observed_copies_def filter_map comp_def make_candidate_def)
      (rule arg_cong [of _ _ "map _"], rule filter_cong, use ne in auto)
  moreover have "map_of (map (\<lambda>f. (f, map_option (pr_sha256 pr) (read_regular_nofollow d f))) fs) f =
      (if f \<in> set fs then Some (map_option (pr_sha256 pr) (read_regular_nofollow d f)) else None)" for fs
    by (induction fs) auto
  ultimately show ?thesis using assms(2) by (simp add: duplicate_def)
qed

lemma first_min_mem: "first_min k x xs \<in> set (x # xs)"
  by (induction k x xs rule: first_min.induct) (auto split: if_splits)

lemma observed_filter:
  assumes "P CRYPTO_INIT_KEY"
  shows "observed_copies (filter (\<lambda>e. P (fst e)) d) = filter (\<lambda>e. P (fst e)) (observed_copies d)"
proof -
  have m: "map_of (filter (\<lambda>e. P (fst e)) d) f = (if P f then map_of d f else None)" for f
    by (rule map_of_filter_key)
  then have r: "read_regular_nofollow (filter (\<lambda>e. P (fst e)) d) f = (if P f then read_regular_nofollow d f else None)" for f
    by (simp add: read_regular_nofollow_def)
  have k: "dkeys (filter (\<lambda>e. P (fst e)) d) = filter P (dkeys d)"
    by (simp add: dkeys_def filter_map comp_def)
  have "init_conflicts (filter (\<lambda>e. P (fst e)) d) = filter P (init_conflicts d)"
    unfolding init_conflicts_def filter_sort [symmetric] k filter_filter
    by (rule filter_cong) (auto simp: m)
  then show ?thesis
    using assms by (auto simp: observed_copies_def m r filter_map comp_def)
qed

text \<open>Copies that repeat the bytes of an earlier one do not matter for the choice.\<close>

definition valid_copy :: "bytes option \<Rightarrow> (bytes \<times> bytes \<times> int \<times> bytes) option" where
  "valid_copy raw = (case raw of
     None \<Rightarrow> None
   | Some r \<Rightarrow> (case parse_crypto_init r of Good salt kb kc \<Rightarrow> Some (r, salt, kb, kc) | _ \<Rightarrow> None))"

lemma valid_copies_eq: "valid_copies obs = List.map_filter (\<lambda>e. valid_copy (snd e)) obs"
  unfolding valid_copies_def valid_copy_def
  by (rule arg_cong [of _ _ "\<lambda>h. List.map_filter h obs"]) (auto simp: fun_eq_iff)

lemma valid_copy_raw: "valid_copy raw = Some v \<Longrightarrow> raw = Some (fst v)"
  by (auto simp: valid_copy_def split: option.splits parsed_init.splits)

lemma valid_without_bytes:
  "List.map_filter (\<lambda>e. valid_copy (snd e)) (filter (\<lambda>e. snd e \<noteq> Some c) es) =
     filter (\<lambda>x. fst x \<noteq> c) (List.map_filter (\<lambda>e. valid_copy (snd e)) es)"
  by (induction es) (auto simp: map_filter_simps dest: valid_copy_raw split: option.split)

lemma valid_same_bytes:
  "valid_copy (Some c) = w \<Longrightarrow> x \<in> set (List.map_filter (\<lambda>e. valid_copy (snd e)) es) \<Longrightarrow> fst x = c \<Longrightarrow> w = Some x"
proof -
  assume w: "valid_copy (Some c) = w" and c: "fst x = c"
  assume "x \<in> set (List.map_filter (\<lambda>e. valid_copy (snd e)) es)"
  then obtain e where "valid_copy (snd e) = Some x" by (force simp: map_filter_def)
  with valid_copy_raw [OF this] c w show ?thesis by simp
qed

lemma valid_without_duplicates:
  assumes "valid_copies ((CRYPTO_INIT_KEY, Some c) # rest) = v # vs"
  shows "\<exists>vs'. valid_copies ((CRYPTO_INIT_KEY, Some c) # filter (\<lambda>e. snd e \<noteq> Some c) rest) = v # vs' \<and>
    first_min k v vs' = first_min k v vs"
proof (cases "valid_copy (Some c)")
  case None
  let ?r = "List.map_filter (\<lambda>e. valid_copy (snd e)) rest"
  have "\<forall>x \<in> set ?r. fst x \<noteq> c" using valid_same_bytes [OF None] by blast
  then have "filter (\<lambda>x. fst x \<noteq> c) ?r = ?r" by (simp add: filter_id_conv)
  with None assms show ?thesis by (simp add: valid_copies_eq map_filter_simps valid_without_bytes)
next
  case (Some w)
  let ?r = "List.map_filter (\<lambda>e. valid_copy (snd e)) rest"
  from valid_copy_raw [OF Some] have c: "fst w = c" by simp
  have "\<forall>x \<in> set ?r. fst x = c \<longrightarrow> x = w" using valid_same_bytes [OF Some] by blast
  then have f: "filter (\<lambda>x. fst x \<noteq> c) ?r = filter (\<lambda>x. x \<noteq> w) ?r"
    using c by (intro filter_cong) auto
  from Some assms have v: "v = w" "vs = ?r" by (simp_all add: valid_copies_eq map_filter_simps)
  have "first_min k w (filter (\<lambda>x. x \<noteq> w) ?r) = first_min k w ?r" by (rule first_min_skip) simp
  with Some v f show ?thesis by (simp add: valid_copies_eq map_filter_simps valid_without_bytes)
qed

lemma newer_copies_filter: "newer_copies obs = [] \<Longrightarrow> newer_copies (filter P obs) = []"
  by (induction obs) (auto simp: newer_copies_def map_filter_simps split: option.splits)

lemma quiet_repair:
  assumes "distinct_keys d" "fetch_crypto_init pr d = Found ok"
  shows "\<exists>log. apply_crypto_init_repair pr quiet (\<lambda>_. True) (Found ok) d =
    (Inr (), filter (\<lambda>e. \<not> duplicate d (fst e)) d, log)"
proof -
  let ?raw = "read_regular_nofollow d CRYPTO_INIT_KEY"
  from assms(2) obtain v where ok: "ok = chosen_copy pr d v" unfolding fetch_found by blast
  have w: "io_winner ok \<noteq> None" by (simp add: ok chosen_copy_def split: prod.split)
  have no_dup: "filter (\<lambda>e. \<not> duplicate d (fst e)) d = d" if "?raw = None"
    using that by (simp add: duplicate_def)
  show ?thesis
  proof (cases "io_plan ok")
    case None
    then have "rp_copies (make_plan pr d (fst v)) = []" by (auto simp: ok chosen_copy_def split: prod.splits if_splits)
    then have "filter (\<lambda>e. fst e \<noteq> CRYPTO_INIT_KEY) (observed_copies d) = []"
      by (simp add: make_plan_def Let_def)
    then have "init_conflicts d = []"
      by (cases "init_conflicts d") (use init_conflicts_mem [of "hd (init_conflicts d)" d] in
        \<open>auto simp: observed_copies_def filter_map comp_def split: if_splits\<close>)
    then have "filter (\<lambda>e. \<not> duplicate d (fst e)) d = d" by (simp add: duplicate_def)
    with None w assms(2) show ?thesis
      by (simp add: apply_crypto_init_repair_def Let_def winner_of_def plan_of_def)
  next
    case (Some plan)
    then have plan: "plan = make_plan pr d (fst v)" using chosen_copy_plan ok by blast
    have planned: "Option.bind (rp_canonical plan) ca_hash = map_option (pr_sha256 pr) ?raw"
      by (auto simp: plan make_plan_def Let_def make_candidate_def read_regular_nofollow_def)
    show ?thesis
    proof (cases ?raw)
      case None
      with Some w planned no_dup assms(2) show ?thesis
        by (simp add: apply_crypto_init_repair_def Let_def winner_of_def plan_of_def)
    next
      case c: (Some c)
      let ?rm = "removable_copies pr plan d"
      have rm: "map_of ?rm f = (if duplicate d f then Some (pr_sha256 pr c) else None)" for f
      proof (cases "duplicate d f")
        case True
        with planned_deletes_mem [OF assms(1) True, of pr "fst v"] c show ?thesis
          by (simp add: removable_map_of [OF assms(1)] plan) (simp add: duplicate_def)
      next
        case False
        have "h = None \<or> h = Some None" if "map_of (planned_deletes plan) f = h" "f \<in> set (init_conflicts d)" for h
        proof (rule ccontr)
          assume "\<not> (h = None \<or> h = Some None)"
          with that(1) obtain x where "map_of (planned_deletes plan) f = Some x" by auto
          from planned_delete_hash [OF assms(2) Some this] observed_read [of f _ d] that(2) c False
          show False by (auto simp: duplicate_def)
        qed
        with False show ?thesis by (auto simp: removable_map_of [OF assms(1)] split: option.split)
      qed
      have ne: "CRYPTO_INIT_KEY \<notin> set (init_conflicts d)" by (simp add: init_conflicts_mem)
      have "\<forall>f \<in> set (init_conflicts d). \<forall>h. map_of ?rm f = Some h \<longrightarrow>
          read_regular_nofollow d f = Some c \<and> h = pr_sha256 pr c"
        using c by (auto simp: rm duplicate_def split: if_splits)
      from remove_copies_quiet [OF c distinct_init_conflicts [OF assms(1)] ne this]
      obtain log where r: "remove_copies pr quiet (\<lambda>_. True) (Some (pr_sha256 pr c)) ?rm 4 (init_conflicts d) d =
          (Inr (), fold AList.delete (filter (\<lambda>f. map_of ?rm f \<noteq> None) (init_conflicts d)) d, log)" by blast
      have "fold AList.delete (filter (\<lambda>f. map_of ?rm f \<noteq> None) (init_conflicts d)) d =
          filter (\<lambda>e. \<not> duplicate d (fst e)) d"
        unfolding delete_fold by (rule filter_cong) (auto simp: rm duplicate_def)
      with r Some w planned c assms(2) show ?thesis
        by (simp add: apply_crypto_init_repair_def Let_def winner_of_def plan_of_def)
    qed
  qed
qed

lemma chosen_copy_fields:
  "io_salt (chosen_copy pr d v) = fst (snd v)" "io_memory_kb (chosen_copy pr d v) = fst (snd (snd v))"
  "io_keycheck (chosen_copy pr d v) = snd (snd (snd v))" "io_winner (chosen_copy pr d v) = Some (fst v)"
  by (simp_all add: chosen_copy_def split: prod.split)

lemma fetch_without_duplicates:
  assumes "fetch_crypto_init pr d = Found ok"
  shows "\<exists>v. ok = chosen_copy pr d v \<and>
    fetch_crypto_init pr (filter (\<lambda>e. \<not> duplicate d (fst e)) d) =
      Found (chosen_copy pr (filter (\<lambda>e. \<not> duplicate d (fst e)) d) v)"
proof -
  let ?d = "filter (\<lambda>e. \<not> duplicate d (fst e)) d" and ?k = "\<lambda>(raw, salt, kb, kc). salt"
  from assms obtain v vs where v: "newer_copies (observed_copies d) = []" "valid_copies (observed_copies d) = v # vs"
    "ok = chosen_copy pr d (first_min ?k v vs)" unfolding fetch_found by blast
  have obs: "observed_copies ?d = filter (\<lambda>e. \<not> duplicate d (fst e)) (observed_copies d)"
    by (rule observed_filter) (simp add: duplicate_def init_conflicts_mem)
  have n: "newer_copies (observed_copies ?d) = []" unfolding obs by (rule newer_copies_filter [OF v(1)])
  have "\<exists>vs'. valid_copies (observed_copies ?d) = v # vs' \<and> first_min ?k v vs' = first_min ?k v vs"
  proof (cases "read_regular_nofollow d CRYPTO_INIT_KEY")
    case None
    then have "observed_copies ?d = observed_copies d" unfolding obs by (simp add: duplicate_def)
    with v(2) show ?thesis by simp
  next
    case (Some c)
    then have "map_of d CRYPTO_INIT_KEY \<noteq> None" by (auto simp: read_regular_nofollow_def split: option.splits)
    then obtain rest where rest: "observed_copies d = (CRYPTO_INIT_KEY, Some c) # rest"
      "rest = map (\<lambda>f. (f, read_regular_nofollow d f)) (init_conflicts d)"
      using Some by (simp add: observed_copies_def)
    have "observed_copies ?d = (CRYPTO_INIT_KEY, Some c) # filter (\<lambda>e. snd e \<noteq> Some c) rest"
      unfolding obs rest(1)
      by (auto simp: rest(2) duplicate_def init_conflicts_mem Some filter_map comp_def intro!: arg_cong [of _ _ "map _"] filter_cong)
    with valid_without_duplicates [OF v(2) [unfolded rest(1)]] show ?thesis by simp
  qed
  then obtain vs' where "valid_copies (observed_copies ?d) = v # vs'" "first_min ?k v vs' = first_min ?k v vs" by blast
  with n v(3) show ?thesis unfolding fetch_found by (intro exI [of _ "first_min ?k v vs"]) auto
qed

lemma nothing_left_to_repair:
  "fst (repair_counts (chosen_copy pr (filter (\<lambda>e. \<not> duplicate d (fst e)) d) v)) = 0"
proof -
  let ?d = "filter (\<lambda>e. \<not> duplicate d (fst e)) d"
  have m: "map_of ?d f = (if duplicate d f then None else map_of d f)" for f
    by (rule map_of_filter_out)
  have k: "\<not> duplicate d CRYPTO_INIT_KEY" by (simp add: duplicate_def init_conflicts_mem)
  have r: "read_regular_nofollow ?d f = (if duplicate d f then None else read_regular_nofollow d f)" for f
    by (simp add: read_regular_nofollow_def m)
  have obs: "observed_copies ?d = filter (\<lambda>e. \<not> duplicate d (fst e)) (observed_copies d)"
    by (rule observed_filter) (rule k)
  have "\<not> ca_delete c" if "c \<in> set (rp_copies (make_plan pr ?d w))" for c w
  proof -
    from that obtain f raw where f: "(f, raw) \<in> set (observed_copies ?d)" "f \<noteq> CRYPTO_INIT_KEY"
      "c = make_candidate pr (read_regular_nofollow ?d CRYPTO_INIT_KEY) (f, raw)"
      by (auto simp: make_plan_def Let_def)
    from f(1) have o: "(f, raw) \<in> set (observed_copies d)" "\<not> duplicate d f" unfolding obs by auto
    then have "f \<in> set (init_conflicts d)" using f(2) by (auto simp: observed_copies_def split: if_splits)
    with o(2) observed_read [OF o(1)] have "\<not> (read_regular_nofollow d CRYPTO_INIT_KEY \<noteq> None \<and> raw = read_regular_nofollow d CRYPTO_INIT_KEY)"
      unfolding duplicate_def by metis
    moreover have "read_regular_nofollow ?d CRYPTO_INIT_KEY = read_regular_nofollow d CRYPTO_INIT_KEY"
      by (simp only: r k if_False)
    ultimately show ?thesis unfolding f(3) make_candidate_def by simp
  qed
  then have "filter ca_delete (rp_copies (make_plan pr ?d w)) = []" for w by (simp add: filter_empty_conv)
  then show ?thesis by (simp add: repair_counts_def chosen_copy_def split: prod.split)
qed

section \<open>Properties\<close>


text \<open>C23. In a quiet folder the repair settles: it succeeds, removes exactly the conflict copies that hold
  the bytes of the readable canonical file, and leaves every other name alone; reading the folder again
  chooses the same root salt, memory cost, keycheck and bytes, and finds nothing more to remove.\<close>

theorem repair_settles:
  assumes "distinct_keys d" "fetch_crypto_init pr d = Found ok"
  shows "\<exists>d' log ok'. apply_crypto_init_repair pr quiet (\<lambda>_. True) (Found ok) d = (Inr (), d', log) \<and>
    (\<forall>f. map_of d' f = (if duplicate d f then None else map_of d f)) \<and>
    fetch_crypto_init pr d' = Found ok' \<and> io_salt ok' = io_salt ok \<and> io_memory_kb ok' = io_memory_kb ok \<and>
    io_keycheck ok' = io_keycheck ok \<and> io_winner ok' = io_winner ok \<and> fst (repair_counts ok') = 0"
proof -
  let ?d = "filter (\<lambda>e. \<not> duplicate d (fst e)) d"
  from quiet_repair [OF assms] obtain log where
    r: "apply_crypto_init_repair pr quiet (\<lambda>_. True) (Found ok) d = (Inr (), ?d, log)" by blast
  have m: "map_of ?d f = (if duplicate d f then None else map_of d f)" for f
    by (rule map_of_filter_out)
  from fetch_without_duplicates [OF assms(2)] obtain v where
    v: "ok = chosen_copy pr d v" "fetch_crypto_init pr ?d = Found (chosen_copy pr ?d v)" by blast
  show ?thesis
    by (rule exI [of _ ?d], rule exI [of _ log], rule exI [of _ "chosen_copy pr ?d v"])
      (simp add: r m v(2) nothing_left_to_repair, simp add: v(1) chosen_copy_fields)
qed

text \<open>C21. What one device encrypts every other device of the fleet decrypts. On any two processes that pin
  the same session and use the same passphrase, whatever their caches of master keys hold so far,
  decrypting an encrypted blob gives the plain bytes back; the blob is never mistaken for one of a newer
  format; and both caches stay sound: they hold only keys that the derivation gives.\<close>

theorem decrypt_encrypt_across_devices:
  assumes "prims_ok pr" "collision_free pr P" "passphrase \<in> P" "cache_ok pr P st" "cache_ok pr P st2"
    and "cs_session st2 = cs_session st" "length salt = SALT_LEN" "length nonce = NONCE_LEN"
    and "encrypt pr salt nonce plain passphrase kb st = (Inr blob, st')"
  shows "newer_version blob = None \<and> cache_ok pr P st' \<and>
    (\<exists>st2'. decrypt pr blob passphrase kb st2 = (Inr plain, st2') \<and> cache_ok pr P st2')"
proof -
  from assms(9) obtain rs where s: "cs_session st = Some (rs, kb)"
    by (auto simp: encrypt_def with_session_def split: option.splits prod.splits if_splits)
  from load_master_key_fresh [OF assms(2,4,3), of rs kb] obtain m1 where
    m1: "load_master_key pr passphrase rs kb st = (fresh_master_key pr passphrase rs kb, m1)" "cache_ok pr P m1" by blast
  from load_master_key_fresh [OF assms(2,5,3), of rs kb] obtain m2 where
    m2: "load_master_key pr passphrase rs kb st2 = (fresh_master_key pr passphrase rs kb, m2)" "cache_ok pr P m2" by blast
  from assms(9) s m1(1) obtain key where key: "fresh_master_key pr passphrase rs kb = Inr key"
    "blob = encrypt_with_master_key pr salt nonce plain key" "st' = m1"
    by (auto simp: encrypt_def with_session_def split: sum.splits)
  have "newer_version blob = None"
    unfolding key(2) encrypt_with_master_key_def by (rule encrypted_version)
  with s m1(2) m2 key assms(6) decrypt_encrypt_master [OF assms(1,7,8), of plain key] show ?thesis
    by (simp add: decrypt_def with_session_def)
qed

text \<open>C24. A storage root that one device bootstraps admits every device with the same passphrase. When
  the bootstrap succeeds in a folder that has no copies of the file yet, reading the folder finds the
  same root salt, memory cost and keycheck, the derived key passes the check of the keycheck, and any
  other key that cannot open it is refused; the first device's cache stays sound. A second bootstrap of
  the same folder is refused and changes nothing.\<close>

theorem bootstrap_then_join:
  assumes "prims_ok pr" "collision_free pr P" "passphrase \<in> P" "cache_ok pr P st"
    and "length root_salt = ROOT_SALT_LEN" "length salt = SALT_LEN" "length nonce = NONCE_LEN"
    and "1024 \<le> kb" "kb \<le> 1048576" "init_conflicts d = []"
    and "bootstrap_crypto_init pr root_salt salt nonce passphrase kb d st = (Inr f, d', st')"
  shows "\<exists>ok master. fetch_crypto_init pr d' = Found ok \<and> f = Found (ok\<lparr>io_winner := None\<rparr>) \<and>
    io_salt ok = root_salt \<and> io_memory_kb ok = kb \<and> derive_key pr passphrase root_salt kb = Inr master \<and>
    verify_passphrase pr master (io_keycheck ok) = Inr () \<and> cache_ok pr P st' \<and>
    (\<forall>other. decrypt_with_master_key pr (io_keycheck ok) other = Inl CryptoError \<longrightarrow>
       verify_passphrase pr other (io_keycheck ok) = Inl CryptoError) \<and>
    snd (bootstrap_crypto_init pr root_salt salt nonce passphrase kb d' st') = (d', st')"
proof -
  from assms(11) obtain master blob key where b: "derive_key pr passphrase root_salt kb = Inr master"
    "serialize_crypto_init kb root_salt (encrypt_with_master_key pr salt nonce KEYCHECK_PLAINTEXT master) = Inr blob"
    "map_of d CRYPTO_INIT_KEY = None" "d' = AList.update CRYPTO_INIT_KEY (Plain blob) d"
    "cache_key pr passphrase root_salt kb = Some key"
    "f = Found \<lparr>io_salt = root_salt, io_memory_kb = kb,
       io_keycheck = encrypt_with_master_key pr salt nonce KEYCHECK_PLAINTEXT master, io_winner = None, io_plan = None\<rparr>"
    "st' = st\<lparr>cs_cache := AList.update key master (cs_cache st)\<rparr>"
    by (auto simp: bootstrap_crypto_init_def Let_def split: sum.splits if_splits option.splits)
  let ?kc = "encrypt_with_master_key pr salt nonce KEYCHECK_PLAINTEXT master"
  have ne: "passphrase \<noteq> []" using b(1) by (auto simp: derive_key_def)
  have kc: "1 + SALT_LEN + NONCE_LEN + 1 \<le> length ?kc" "unat (hd ?kc) = FORMAT_VERSION"
    using assms(1,6,7) by (simp_all add: encrypt_with_master_key_def FORMAT_VERSION_def prims_ok_def Suc_le_eq)
  have p: "parse_crypto_init blob = Good root_salt kb ?kc" by (rule parse_serialize [OF b(2) assms(8,9) kc])
  have "init_conflicts d' = []"
  proof -
    have "f \<notin> set (init_conflicts d')" for f
      using assms(10) init_conflicts_mem [of f d] init_conflicts_mem [of f d'] by (auto simp: b(4) map_of_alist_update)
    then show ?thesis by (cases "init_conflicts d'") auto
  qed
  then have obs: "observed_copies d' = [(CRYPTO_INIT_KEY, Some blob)]"
    by (simp add: observed_copies_def b(4) map_of_alist_update read_regular_nofollow_def)
  define ok where "ok = chosen_copy pr d' (blob, root_salt, kb, ?kc)"
  have "fetch_crypto_init pr d' = Found ok"
    unfolding fetch_found obs ok_def by (simp add: newer_copies_def valid_copies_def map_filter_simps p)
  moreover have "io_plan ok = None" by (simp add: ok_def chosen_copy_def make_plan_def Let_def obs)
  then have "f = Found (ok\<lparr>io_winner := None\<rparr>)" by (simp add: b(6) ok_def chosen_copy_def)
  moreover have "cache_ok pr P st'" unfolding b(7) by (rule cache_ok_update [OF assms(2,4,3) ne assms(5) b(5,1)])
  moreover have "verify_passphrase pr master ?kc = Inr ()"
    by (simp add: verify_passphrase_def decrypt_encrypt_master [OF assms(1,6,7)])
  moreover have "snd (bootstrap_crypto_init pr root_salt salt nonce passphrase kb d' st') = (d', st')"
    using b(1,2) by (simp add: bootstrap_crypto_init_def Let_def b(4) map_of_alist_update)
  ultimately show ?thesis
    by (intro exI [of _ ok] exI [of _ master]) (simp add: b(1) ok_def chosen_copy_fields, simp add: verify_passphrase_def)
qed

section \<open>Witnesses\<close>

definition demo_prims :: prims where
  "demo_prims = \<lparr>pr_argon = (\<lambda>secret salt kb. Some (secret @ salt)), pr_hkdf = (\<lambda>k s. k @ s),
     pr_seal = (\<lambda>k n c. 7 # c), pr_open = (\<lambda>k n c. case c of [] \<Rightarrow> None | _ # r \<Rightarrow> Some r),
     pr_gzip = (\<lambda>p. p), pr_gunzip = Some, pr_sha256 = (\<lambda>d. d)\<rparr>"

definition demo_init :: bytes where
  "demo_init = [2, 0, 0, 4, 0] @ replicate 16 5 @ [2] @ replicate 29 6"

definition demo_dir :: init_dir where
  "demo_dir = [(CRYPTO_INIT_KEY, Plain demo_init), (u ''mm-crypto-init 2'', Plain demo_init), (u ''notes'', Special)]"

lemma demo_prims_ok: "prims_ok demo_prims" "collision_free demo_prims P" "cache_ok demo_prims P \<lparr>cs_session = s, cs_cache = []\<rparr>"
  by (auto simp: prims_ok_def collision_free_def cache_ok_def demo_prims_def)

lemma demo_repair:
  "apply_crypto_init_repair demo_prims quiet (\<lambda>_. True) (fetch_crypto_init demo_prims demo_dir) demo_dir =
     (Inr (), [(CRYPTO_INIT_KEY, Plain demo_init), (u ''notes'', Special)], [(u ''mm-crypto-init 2'', demo_dir)])"
  by code_simp


lemma demo_fetch: "\<exists>ok. fetch_crypto_init demo_prims demo_dir = Found ok \<and> io_winner ok = Some demo_init"
proof -
  have "winner_of (fetch_crypto_init demo_prims demo_dir) = Some demo_init" by code_simp
  then show ?thesis by (auto simp: winner_of_def split: init_fetch.splits)
qed

theorem repair_settles_witness:
  "\<exists>ok d' log ok'. apply_crypto_init_repair demo_prims quiet (\<lambda>_. True) (Found ok) demo_dir = (Inr (), d', log) \<and>
     fetch_crypto_init demo_prims d' = Found ok' \<and> io_winner ok' = Some demo_init"
proof -
  obtain ok where ok: "fetch_crypto_init demo_prims demo_dir = Found ok" "io_winner ok = Some demo_init"
    using demo_fetch by blast
  have d: "distinct_keys demo_dir" by (simp add: demo_dir_def distinct_keys_def CRYPTO_INIT_KEY_def u_def)
  from repair_settles [OF d ok(1)] obtain d' log ok' where
    "apply_crypto_init_repair demo_prims quiet (\<lambda>_. True) (Found ok) demo_dir = (Inr (), d', log)"
    "fetch_crypto_init demo_prims d' = Found ok'" "io_winner ok' = io_winner ok" by blast
  with ok(2) show ?thesis by metis
qed

theorem decrypt_encrypt_across_devices_witness:
  "\<exists>blob st'. encrypt demo_prims (replicate 16 1) (replicate 12 2) [9, 9] (u ''secret'') 1024
       \<lparr>cs_session = Some (replicate 16 3, 1024), cs_cache = []\<rparr> = (Inr blob, st') \<and>
     (\<exists>st2'. decrypt demo_prims blob (u ''secret'') 1024 \<lparr>cs_session = Some (replicate 16 3, 1024), cs_cache = []\<rparr> =
       (Inr [9, 9], st2'))"
proof -
  let ?st = "\<lparr>cs_session = Some (replicate 16 3, 1024), cs_cache = []\<rparr> :: crypto_state"
  have "case fst (encrypt demo_prims (replicate 16 1) (replicate 12 2) [9, 9] (u ''secret'') 1024 ?st) of
      Inl _ \<Rightarrow> False | Inr _ \<Rightarrow> True" by code_simp
  then obtain blob st' where e: "encrypt demo_prims (replicate 16 1) (replicate 12 2) [9, 9] (u ''secret'') 1024 ?st = (Inr blob, st')"
    by (auto split: sum.splits simp: prod_eq_iff)
  have l: "length (replicate 16 (1 :: 8 word)) = SALT_LEN" "length (replicate 12 (2 :: 8 word)) = NONCE_LEN"
    by (simp_all add: crypto_consts)
  from decrypt_encrypt_across_devices [OF demo_prims_ok(1,2) _ demo_prims_ok(3,3) _ l e, of UNIV] e show ?thesis by auto
qed

theorem bootstrap_then_join_witness:
  "\<exists>f d' st' ok. bootstrap_crypto_init demo_prims (replicate 16 3) (replicate 16 1) (replicate 12 2) (u ''secret'') 1024 []
       \<lparr>cs_session = None, cs_cache = []\<rparr> = (Inr f, d', st') \<and>
     fetch_crypto_init demo_prims d' = Found ok \<and> io_salt ok = replicate 16 3"
proof -
  let ?st = "\<lparr>cs_session = None, cs_cache = []\<rparr> :: crypto_state"
  let ?b = "bootstrap_crypto_init demo_prims (replicate 16 3) (replicate 16 1) (replicate 12 2) (u ''secret'') 1024 [] ?st"
  have "case fst ?b of Inl _ \<Rightarrow> False | Inr _ \<Rightarrow> True" by code_simp
  then obtain f d' st' where e: "?b = (Inr f, d', st')" by (auto split: sum.splits simp: prod_eq_iff)
  have l: "length (replicate 16 (3 :: 8 word)) = ROOT_SALT_LEN" "length (replicate 16 (1 :: 8 word)) = SALT_LEN"
    "length (replicate 12 (2 :: 8 word)) = NONCE_LEN" by (simp_all add: crypto_consts)
  have i: "init_conflicts [] = []" by (simp add: init_conflicts_def dkeys_def)
  have k: "1024 \<le> (1024 :: int)" "(1024 :: int) \<le> 1048576" by simp_all
  from bootstrap_then_join [OF demo_prims_ok(1,2) _ demo_prims_ok(3) l k i e, of UNIV] e show ?thesis by blast
qed

end
