(* ===== verification/Fetch.thy ===== *)
theory Fetch
  imports Filters Crypto
begin

text \<open>
  Reading a device's published manifest, \<open>core.py\<close> (\<open>_fetch_remote_manifest\<close>, \<open>_make_manifest_validator\<close>,
  \<open>_recover_prior_manifest\<close>, \<open>_collect_peer_tombstones\<close>, \<open>_cleanup_conflict_copies\<close>) and the local
  record of the last push (\<open>sidecar.py\<close>). A sync tool may replace files between any two reads, so every
  read of one fetch has an outcome of its own. \<open>load\<close> stands for \<open>load_manifest\<close> read into the record of
  \<open>Manifest\<close>, \<open>readable\<close> for \<open>deserialize_manifest\<close> succeeding.
\<close>

section \<open>One fetch\<close>

text \<open>The outcomes: \<open>backend.exists\<close>, the first \<open>backend.get\<close>, the bytes of the conflict copies in the
  first scan, the copies of the second scan with the bytes the validator read, the second
  \<open>backend.get\<close>, and the final read of each validated copy.\<close>

record fetch_obs =
  fo_exists :: bool
  fo_first :: "storage_error + bytes"
  fo_scan :: "read_out list"
  fo_validated :: "(pystr \<times> read_out) list"
  fo_second :: "storage_error + bytes"
  fo_copy :: "pystr \<Rightarrow> read_out"

datatype fetch_status = StatusOk | StatusMissing | StatusCorrupt

record manifest_fetch =
  mf_status :: fetch_status
  mf_manifest :: "manifest option"
  mf_newer :: "nat option"
  mf_copies_only :: bool
  mf_vanished :: bool

text \<open>What escapes a fetch as an exception: the decoder failures that \<open>load_manifest\<close> does not translate,
  and the comparison of incomparable values while merging.\<close>

datatype fetch_error = EscapedLoad load_error | EscapedType type_error | EscapedOther

record loader =
  ld_prims :: prims
  ld_key :: bytes
  ld_load :: "bytes \<Rightarrow> load_error + manifest"
  ld_readable :: "bytes \<Rightarrow> bool"
  ld_hash :: "manifest \<Rightarrow> pystr"

definition bytes_of :: "read_out \<Rightarrow> bytes option" where
  "bytes_of r = (case r of Bytes d \<Rightarrow> Some d | _ \<Rightarrow> None)"

definition got :: "storage_error + bytes \<Rightarrow> bytes option" where
  "got r = (case r of Inl _ \<Rightarrow> None | Inr d \<Rightarrow> Some d)"

definition not_found :: "storage_error + bytes \<Rightarrow> bool" where
  "not_found r = (case r of Inl (NotFound _) \<Rightarrow> True | _ \<Rightarrow> False)"

definition newer_seen :: "bytes option list \<Rightarrow> nat list" where
  "newer_seen reads = List.map_filter (\<lambda>r. Option.bind r newer_version) reads"

text \<open>\<open>_valid_and_current\<close> and the predicate of \<open>_make_manifest_validator\<close>, on what they read.\<close>

definition decodes :: "loader \<Rightarrow> bytes \<Rightarrow> bool" where
  "decodes ld raw =
     (case decrypt_with_master_key (ld_prims ld) raw (ld_key ld) of Inl _ \<Rightarrow> False | Inr plain \<Rightarrow> ld_readable ld plain)"

definition valid_and_current :: "loader \<Rightarrow> read_out \<Rightarrow> bool" where
  "valid_and_current ld r =
     (case bytes_of r of
        None \<Rightarrow> False
      | Some raw \<Rightarrow>
          newer_version raw = None \<and> raw \<noteq> [] \<and> unat (hd raw) = FORMAT_VERSION \<and> decodes ld raw)"

definition manifest_validator :: "loader \<Rightarrow> read_out \<Rightarrow> bool" where
  "manifest_validator ld r =
     (case bytes_of r of
        None \<Rightarrow> False
      | Some raw \<Rightarrow> raw \<noteq> [] \<and> unat (hd raw) = FORMAT_VERSION \<and> decodes ld raw)"

datatype copy_out = Loaded manifest | Unreadable | IsNewer nat | Escapes fetch_error

definition decode_copy :: "loader \<Rightarrow> bytes \<Rightarrow> copy_out" where
  "decode_copy ld raw =
     (case decrypt_with_master_key (ld_prims ld) raw (ld_key ld) of
        Inl (NewerFormat v) \<Rightarrow> IsNewer v
      | Inl Untranslated \<Rightarrow> Escapes EscapedOther
      | Inl _ \<Rightarrow> Unreadable
      | Inr plain \<Rightarrow>
          (case ld_load ld plain of
             Inr m \<Rightarrow> Loaded m
           | Inl ManifestError \<Rightarrow> Unreadable
           | Inl e \<Rightarrow> Escapes (EscapedLoad e)))"

definition corrupt_fetch :: "nat option \<Rightarrow> manifest_fetch" where
  "corrupt_fetch v = \<lparr>mf_status = StatusCorrupt, mf_manifest = None, mf_newer = v, mf_copies_only = False,
     mf_vanished = False\<rparr>"

text \<open>The loop over the validated copies. Either the fetch ends at once, or it goes on with the
  manifests read, whether a copy was gone, and whether one could not be read.\<close>

datatype copies_out = Stop "fetch_error + manifest_fetch" | Go "manifest list" bool bool

fun read_copies :: "loader \<Rightarrow> (pystr \<Rightarrow> read_out) \<Rightarrow> pystr list \<Rightarrow> copies_out" where
  "read_copies ld copy [] = Go [] False False"
| "read_copies ld copy (f # fs) =
     (case copy f of
        ReadMissing \<Rightarrow> (case read_copies ld copy fs of Go ms gone any \<Rightarrow> Go ms True any | s \<Rightarrow> s)
      | ReadError \<Rightarrow> (case read_copies ld copy fs of Go ms gone any \<Rightarrow> Go ms gone True | s \<Rightarrow> s)
      | Bytes raw \<Rightarrow>
          (case decode_copy ld raw of
             IsNewer v \<Rightarrow> Stop (Inr (corrupt_fetch (Some v)))
           | Escapes e \<Rightarrow> Stop (Inl e)
           | Unreadable \<Rightarrow> (case read_copies ld copy fs of Go ms gone any \<Rightarrow> Go ms gone True | s \<Rightarrow> s)
           | Loaded m \<Rightarrow> (case read_copies ld copy fs of Go ms gone any \<Rightarrow> Go (m # ms) gone any | s \<Rightarrow> s)))"

text \<open>The canonical manifest: the manifests read so far and whether it vanished.\<close>

definition read_canonical :: "loader \<Rightarrow> fetch_obs \<Rightarrow> bool \<Rightarrow> copies_out" where
  "read_canonical ld obs vanished =
     (if fo_exists obs \<and> \<not> vanished then
        (case fo_second obs of
           Inl (NotFound _) \<Rightarrow> Go [] True False
         | Inl _ \<Rightarrow> Go [] False False
         | Inr raw \<Rightarrow>
             (case decode_copy ld raw of
                IsNewer v \<Rightarrow> Stop (Inr (corrupt_fetch (Some v)))
              | Escapes e \<Rightarrow> Stop (Inl e)
              | Unreadable \<Rightarrow> Go [] False False
              | Loaded m \<Rightarrow> Go [m] False False))
      else Go [] vanished False)"

definition ok_fetch :: "manifest \<Rightarrow> bool \<Rightarrow> bool \<Rightarrow> manifest_fetch" where
  "ok_fetch m copies_only vanished = \<lparr>mf_status = StatusOk, mf_manifest = Some m, mf_newer = None,
     mf_copies_only = copies_only, mf_vanished = vanished\<rparr>"

definition finish_fetch ::
  "loader \<Rightarrow> bool \<Rightarrow> bool \<Rightarrow> manifest list \<Rightarrow> manifest list \<Rightarrow> bool \<Rightarrow> bool \<Rightarrow> fetch_error + manifest_fetch" where
  "finish_fetch ld exists vanished canonical copies gone any =
     (case canonical @ copies of
        [] \<Rightarrow>
          (if (exists \<and> \<not> vanished) \<or> any then Inr (corrupt_fetch None)
           else Inr \<lparr>mf_status = StatusMissing, mf_manifest = None, mf_newer = None, mf_copies_only = False,
                  mf_vanished = (vanished \<or> gone)\<rparr>)
      | [m] \<Rightarrow> Inr (ok_fetch m (canonical = []) vanished)
      | ms \<Rightarrow>
          (case merge_manifests (ld_hash ld) ms of
             Inl e \<Rightarrow> Inl (EscapedType e)
           | Inr m \<Rightarrow> Inr (ok_fetch m (canonical = []) vanished)))"

definition validated :: "loader \<Rightarrow> fetch_obs \<Rightarrow> pystr list" where
  "validated ld obs = map fst (filter (valid_and_current ld \<circ> snd) (fo_validated obs))"

definition fetch_remote_manifest :: "loader \<Rightarrow> fetch_obs \<Rightarrow> fetch_error + manifest_fetch" where
  "fetch_remote_manifest ld obs =
     (let first = (if fo_exists obs then [got (fo_first obs)] else []);
          seen1 = newer_seen (first @ map bytes_of (fo_scan obs));
          seen2 = seen1 @ newer_seen (map (bytes_of \<circ> snd) (fo_validated obs))
      in if seen1 \<noteq> [] then Inr (corrupt_fetch (Some (Max (set seen1))))
         else if seen2 \<noteq> [] then Inr (corrupt_fetch (Some (Max (set seen2))))
         else
           (case read_canonical ld obs (fo_exists obs \<and> not_found (fo_first obs)) of
              Stop r \<Rightarrow> r
            | Go canonical vanished _ \<Rightarrow>
                (case read_copies ld (fo_copy obs) (validated ld obs) of
                   Stop r \<Rightarrow> r
                 | Go ms gone any \<Rightarrow> finish_fetch ld (fo_exists obs) vanished canonical ms gone any)))"

text \<open>A storage folder that nobody changes during the fetch.\<close>

definition still_obs :: "loader \<Rightarrow> dnode \<Rightarrow> pystr \<Rightarrow> fetch_obs" where
  "still_obs ld root key =
     (let get = fst (backend_get (\<lambda>_. root) key True VANISH_BUDGET);
          copy = (\<lambda>f. read_node root (butlast (path_parts key) @ [f]));
          copies = find_conflict_copies root key None
      in \<lparr>fo_exists = backend_exists root key, fo_first = get, fo_scan = map copy copies,
          fo_validated = map (\<lambda>f. (f, copy f)) copies, fo_second = get, fo_copy = copy\<rparr>)"

definition fetch_device :: "loader \<Rightarrow> dnode \<Rightarrow> pystr \<Rightarrow> key_error + fetch_error + manifest_fetch" where
  "fetch_device ld root device_id =
     (case manifest_key device_id of
        Inl e \<Rightarrow> Inl e
      | Inr key \<Rightarrow> Inr (fetch_remote_manifest ld (still_obs ld root key)))"

text \<open>\<open>_cleanup_conflict_copies\<close>, after a mutating operation has used the manifest.\<close>

definition cleanup_conflict_copies :: "loader \<Rightarrow> dnode \<Rightarrow> pystr \<Rightarrow> key_error + nat \<times> dnode" where
  "cleanup_conflict_copies ld root device_id =
     (case manifest_key device_id of
        Inl e \<Rightarrow> Inl e
      | Inr key \<Rightarrow>
          Inr (delete_conflict_copies root key
            (Some (\<lambda>f. Some (manifest_validator ld (read_node root (butlast (path_parts key) @ [f])))))))"

section \<open>The sidecar\<close>

text \<open>\<open>sidecar.read\<close>: the record of the last accepted push counts only when it is a JSON object with both
  tables and belongs to this device. \<open>None\<close> for the file is a file that is absent or unreadable. The
  decoder failures that \<open>deserialize_manifest\<close> does not translate escape.\<close>

definition sidecar_read ::
  "(bytes \<Rightarrow> pystr option) \<Rightarrow> nat \<Rightarrow> pystr \<Rightarrow> bytes option \<Rightarrow> load_error + jdict option" where
  "sidecar_read wide lim device_id contents =
     (case contents of
        None \<Rightarrow> Inr None
      | Some data \<Rightarrow>
          (case deserialize_manifest wide lim data of
             Inl ManifestError \<Rightarrow> Inr None
           | Inl e \<Rightarrow> Inl e
           | Inr v \<Rightarrow>
               (case as_obj v of
                  None \<Rightarrow> Inr None
                | Some raw \<Rightarrow>
                    (if as_obj (dget raw (u ''sources'') JNull) = None \<or>
                        as_obj (dget raw (u ''tombstones'') JNull) = None \<or>
                        dget raw (u ''device_id'') JNull \<noteq> JStr device_id
                     then Inr None else Inr (Some (normalize_manifest raw))))))"

section \<open>Recovery\<close>

text \<open>\<open>None\<close> for the devices is a listing that failed. A peer whose fetch fails is skipped; what is not
  caught there escapes.\<close>

fun peer_manifests ::
  "(pystr \<Rightarrow> key_error + fetch_error + manifest_fetch) \<Rightarrow> pystr \<Rightarrow> pystr list \<Rightarrow>
     fetch_error + (pystr, manifest option) dict" where
  "peer_manifests fetch my_device_id [] = Inr []"
| "peer_manifests fetch my_device_id (did # dids) =
     (if did = my_device_id then peer_manifests fetch my_device_id dids
      else
        (case fetch did of
           Inr (Inl e) \<Rightarrow> Inl e
         | r \<Rightarrow>
             (case peer_manifests fetch my_device_id dids of
                Inl e \<Rightarrow> Inl e
              | Inr ms \<Rightarrow>
                  Inr ((did, case r of Inr (Inr f) \<Rightarrow> if mf_status f = StatusOk then mf_manifest f else None
                         | _ \<Rightarrow> None) # ms))))"

definition collect_peer_tombstones ::
  "(pystr \<Rightarrow> py_dt option) \<Rightarrow> int \<Rightarrow> (pystr \<Rightarrow> key_error + fetch_error + manifest_fetch) \<Rightarrow> pystr \<Rightarrow>
     pystr list option \<Rightarrow> fetch_error + tombstones" where
  "collect_peer_tombstones fromiso now fetch my_device_id devices =
     (case devices of
        None \<Rightarrow> Inr []
      | Some dids \<Rightarrow>
          (case peer_manifests fetch my_device_id dids of
             Inl e \<Rightarrow> Inl e
           | Inr ms \<Rightarrow>
               (if ms = [] then Inr []
                else Inr (collect_tombstones fromiso now (map fst ms) (\<lambda>did. dget ms did None)))))"

datatype recover_error = RecoverEscaped fetch_error | RecoverRefused

text \<open>\<open>peers\<close> is the collection above, made only when it is needed.\<close>

definition recover_prior_manifest ::
  "(manifest \<Rightarrow> pystr) \<Rightarrow> manifest_fetch \<Rightarrow> manifest option \<Rightarrow> fetch_error + tombstones \<Rightarrow>
     recover_error + manifest option" where
  "recover_prior_manifest chash f sidecar peers =
     (if mf_status f = StatusOk \<and> \<not> mf_copies_only f then Inr (mf_manifest f)
      else if mf_status f = StatusOk then
        (case (mf_manifest f, sidecar) of
           (Some m, Some s) \<Rightarrow>
             (case merge_manifests chash [m, s] of
                Inl e \<Rightarrow> Inl (RecoverEscaped (EscapedType e))
              | Inr r \<Rightarrow> Inr (Some r))
         | (m, _) \<Rightarrow> Inr m)
      else if mf_status f = StatusMissing \<and> \<not> mf_vanished f then Inr None
      else
        (case sidecar of
           Some s \<Rightarrow> Inr (Some s)
         | None \<Rightarrow>
             (case peers of
                Inl e \<Rightarrow> Inl (RecoverEscaped e)
              | Inr tombs \<Rightarrow>
                  (if tombs \<noteq> []
                   then Inr (Some \<lparr>m_timestamp = [], m_rest = [], m_sources = Some [], m_tombstones = tombs\<rparr>)
                   else Inl RecoverRefused))))"

section \<open>Laws of a fetch\<close>

definition load_of :: "loader \<Rightarrow> read_out \<Rightarrow> manifest option" where
  "load_of ld r = (case bytes_of r of
     None \<Rightarrow> None
   | Some raw \<Rightarrow> (case decode_copy ld raw of Loaded m \<Rightarrow> Some m | _ \<Rightarrow> None))"

definition copies_loaded :: "loader \<Rightarrow> fetch_obs \<Rightarrow> manifest list" where
  "copies_loaded ld obs = List.map_filter (\<lambda>f. load_of ld (fo_copy obs f)) (validated ld obs)"

text \<open>The canonical manifest as far as the fetch reads it.\<close>

definition canonical_out :: "fetch_obs \<Rightarrow> read_out" where
  "canonical_out obs =
     (if \<not> fo_exists obs \<or> not_found (fo_first obs) then ReadMissing
      else (case fo_second obs of Inl (NotFound _) \<Rightarrow> ReadMissing | Inl _ \<Rightarrow> ReadError | Inr d \<Rightarrow> Bytes d))"

definition canonical_loaded :: "loader \<Rightarrow> fetch_obs \<Rightarrow> manifest list" where
  "canonical_loaded ld obs = (case load_of ld (canonical_out obs) of None \<Rightarrow> [] | Some m \<Rightarrow> [m])"

lemma load_of_simps [simp]:
  "load_of ld ReadMissing = None" "load_of ld ReadError = None"
  "load_of ld (Bytes raw) = (case decode_copy ld raw of Loaded m \<Rightarrow> Some m | _ \<Rightarrow> None)"
  by (simp_all add: load_of_def bytes_of_def)

lemma read_copies_Stop: "read_copies ld copy fs = Stop (Inr f) \<Longrightarrow> \<exists>v. f = corrupt_fetch (Some v)"
  by (induction fs) (auto split: read_out.splits copy_out.splits copies_out.splits)

lemma read_copies_Go:
  "read_copies ld copy fs = Go ms gone any \<Longrightarrow>
     ms = List.map_filter (\<lambda>f. load_of ld (copy f)) fs \<and> gone = (\<exists>f \<in> set fs. copy f = ReadMissing) \<and>
     any = (\<exists>f \<in> set fs. copy f \<noteq> ReadMissing \<and> load_of ld (copy f) = None)"
proof (induction fs arbitrary: ms gone any)
  case Nil
  then show ?case by (simp add: map_filter_simps)
next
  case (Cons f fs)
  from Cons.prems obtain ms' gone' any' where rec: "read_copies ld copy fs = Go ms' gone' any'"
    by (auto split: read_out.splits copy_out.splits copies_out.splits)
  note IH = Cons.IH [OF rec]
  show ?case
  proof (cases "copy f")
    case (Bytes raw)
    with Cons.prems rec IH show ?thesis by (cases "decode_copy ld raw") (simp_all add: map_filter_simps)
  qed (use Cons.prems rec IH in \<open>simp_all add: map_filter_simps\<close>)
qed

lemma read_canonical_Stop: "read_canonical ld obs v = Stop (Inr f) \<Longrightarrow> \<exists>v. f = corrupt_fetch (Some v)"
  by (auto simp: read_canonical_def split: if_splits sum.splits storage_error.splits copy_out.splits)

lemma read_canonical_Go:
  assumes "read_canonical ld obs (fo_exists obs \<and> not_found (fo_first obs)) = Go ms vanished any"
  shows "ms = canonical_loaded ld obs" "vanished = (fo_exists obs \<and> canonical_out obs = ReadMissing)"
  using assms
  by (auto simp: read_canonical_def canonical_loaded_def canonical_out_def load_of_def bytes_of_def
      split: if_splits sum.splits storage_error.splits copy_out.splits)

text \<open>Every byte string seen before the final reads.\<close>

definition seen_reads :: "fetch_obs \<Rightarrow> bytes option list" where
  "seen_reads obs = (if fo_exists obs then [got (fo_first obs)] else []) @ map bytes_of (fo_scan obs) @
     map (bytes_of \<circ> snd) (fo_validated obs)"

lemma newer_seen_append [simp]: "newer_seen (xs @ ys) = newer_seen xs @ newer_seen ys"
  by (simp add: newer_seen_def map_filter_def)

lemma fetch_steps:
  assumes "fetch_remote_manifest ld obs = Inr f"
  shows "(newer_seen (seen_reads obs) \<noteq> [] \<and> (\<exists>v. f = corrupt_fetch (Some v))) \<or>
    (newer_seen (seen_reads obs) = [] \<and>
     ((\<exists>v. f = corrupt_fetch (Some v)) \<or>
      (\<exists>gone any. read_copies ld (fo_copy obs) (validated ld obs) = Go (copies_loaded ld obs) gone any \<and>
        finish_fetch ld (fo_exists obs) (fo_exists obs \<and> canonical_out obs = ReadMissing) (canonical_loaded ld obs)
          (copies_loaded ld obs) gone any = Inr f)))"
proof (cases "newer_seen (seen_reads obs) = []")
  case False
  with assms show ?thesis
    by (auto simp: fetch_remote_manifest_def seen_reads_def Let_def split: if_splits)
next
  case True
  note seen = True
  let ?v = "fo_exists obs \<and> not_found (fo_first obs)"
  have run: "(case read_canonical ld obs ?v of
      Stop r \<Rightarrow> r
    | Go canonical vanished _ \<Rightarrow>
        (case read_copies ld (fo_copy obs) (validated ld obs) of
           Stop r \<Rightarrow> r
         | Go ms gone any \<Rightarrow> finish_fetch ld (fo_exists obs) vanished canonical ms gone any)) = Inr f"
    using assms True by (auto simp: fetch_remote_manifest_def seen_reads_def Let_def split: if_splits)
  show ?thesis
  proof (cases "read_canonical ld obs ?v")
    case (Stop r)
    with run read_canonical_Stop [of ld obs ?v f] seen show ?thesis by simp
  next
    case (Go canonical vanished x)
    note c = read_canonical_Go [OF Go]
    show ?thesis
    proof (cases "read_copies ld (fo_copy obs) (validated ld obs)")
      case (Stop r)
      with run Go read_copies_Stop [of ld "fo_copy obs" "validated ld obs" f] seen show ?thesis by simp
    next
      case r: (Go ms gone any)
      from read_copies_Go [OF r] have "ms = copies_loaded ld obs" by (simp add: copies_loaded_def)
      with run Go r c seen show ?thesis by auto
    qed
  qed
qed

section \<open>Properties of a fetch\<close>

text \<open>C26. A fetch never mistakes one state of the published manifest for another, however a sync tool
  replaces the files between its reads. Bytes of a newer format seen by any scan make it corrupt and
  name a newer version; it says missing only when the canonical file is absent or gone and every
  validated copy is gone by its final read, and then says that it vanished exactly when something was
  seen before; it says corrupt without a newer version only when something is there that cannot be
  read and nothing could be loaded; and it says ok only with a manifest, marked as copies only exactly
  when the canonical file was not loaded.\<close>

theorem fetch_tells_apart:
  assumes "fetch_remote_manifest ld obs = Inr f"
  shows "(newer_seen (seen_reads obs) \<noteq> [] \<longrightarrow> mf_status f = StatusCorrupt \<and> mf_newer f \<noteq> None) \<and>
    (mf_status f = StatusMissing \<longrightarrow>
       canonical_out obs = ReadMissing \<and> (\<forall>g \<in> set (validated ld obs). fo_copy obs g = ReadMissing) \<and>
       mf_manifest f = None \<and> (mf_vanished f \<longleftrightarrow> fo_exists obs \<or> validated ld obs \<noteq> [])) \<and>
    (mf_status f = StatusCorrupt \<and> mf_newer f = None \<longrightarrow>
       canonical_loaded ld obs = [] \<and> copies_loaded ld obs = [] \<and>
       (canonical_out obs \<noteq> ReadMissing \<or> (\<exists>g \<in> set (validated ld obs). fo_copy obs g \<noteq> ReadMissing))) \<and>
    (mf_status f = StatusOk \<longrightarrow>
       mf_manifest f \<noteq> None \<and> (mf_copies_only f \<longleftrightarrow> canonical_loaded ld obs = []))"
proof (cases "\<exists>v. f = corrupt_fetch (Some v)")
  case True
  then show ?thesis by (auto simp: corrupt_fetch_def)
next
  case False
  with fetch_steps [OF assms] obtain gone any where seen: "newer_seen (seen_reads obs) = []"
    and go: "read_copies ld (fo_copy obs) (validated ld obs) = Go (copies_loaded ld obs) gone any"
    and fin: "finish_fetch ld (fo_exists obs) (fo_exists obs \<and> canonical_out obs = ReadMissing) (canonical_loaded ld obs)
      (copies_loaded ld obs) gone any = Inr f" by blast
  have ex: "\<not> fo_exists obs \<Longrightarrow> canonical_out obs = ReadMissing" by (simp add: canonical_out_def)
  note g = read_copies_Go [OF go]
  show ?thesis
  proof (cases "canonical_loaded ld obs @ copies_loaded ld obs")
    case Nil
    then have empty: "canonical_loaded ld obs = []" "copies_loaded ld obs = []" by simp_all
    then have nl: "\<forall>g \<in> set (validated ld obs). load_of ld (fo_copy obs g) = None"
      by (auto simp: copies_loaded_def map_filter_def filter_empty_conv)
    have "(fo_exists obs \<and> canonical_out obs \<noteq> ReadMissing) \<or> any \<longleftrightarrow>
        canonical_out obs \<noteq> ReadMissing \<or> (\<exists>g \<in> set (validated ld obs). fo_copy obs g \<noteq> ReadMissing)"
      using ex g nl by auto
    moreover have "gone \<or> fo_exists obs \<longleftrightarrow> fo_exists obs \<or> validated ld obs \<noteq> []"
      if "\<forall>g \<in> set (validated ld obs). fo_copy obs g = ReadMissing"
      using g that by (cases "validated ld obs") auto
    ultimately show ?thesis using fin empty seen ex
      by (auto simp: finish_fetch_def corrupt_fetch_def split: if_splits)
  next
    case (Cons m ms)
    with fin have "mf_status f = StatusOk \<and> mf_manifest f \<noteq> None \<and> (mf_copies_only f \<longleftrightarrow> canonical_loaded ld obs = [])"
      by (auto simp: finish_fetch_def ok_fetch_def split: list.splits sum.splits)
    with seen show ?thesis by simp
  qed
qed

text \<open>What the load boundary delivers.\<close>

definition loads_well :: "loader \<Rightarrow> bool" where
  "loads_well ld \<longleftrightarrow> (\<forall>plain m. ld_load ld plain = Inr m \<longrightarrow> wf_manifest m \<and> stamped (m_tombstones m))"

definition all_loaded :: "loader \<Rightarrow> fetch_obs \<Rightarrow> manifest set" where
  "all_loaded ld obs = set (canonical_loaded ld obs @ copies_loaded ld obs)"

lemma load_of_well: "loads_well ld \<Longrightarrow> load_of ld r = Some m \<Longrightarrow> wf_manifest m \<and> stamped (m_tombstones m)"
  by (auto simp: loads_well_def load_of_def decode_copy_def
      split: option.splits copy_out.splits sum.splits crypto_error.splits load_error.splits)

lemma all_loaded_well: "loads_well ld \<Longrightarrow> m \<in> all_loaded ld obs \<Longrightarrow> wf_manifest m \<and> stamped (m_tombstones m)"
  by (auto simp: all_loaded_def canonical_loaded_def copies_loaded_def map_filter_mem load_of_well
      split: option.splits)


text \<open>A canonical manifest that a sync tool removed between the scans and the final read, and a conflict
  copy that can still be read.\<close>

definition demo_loader :: loader where
  "demo_loader = \<lparr>ld_prims = demo_prims, ld_key = [],
     ld_load = (\<lambda>plain. if plain = [1] then Inr copy_a else if plain = [2] then Inr copy_b else Inl ManifestError),
     ld_readable = (\<lambda>_. True), ld_hash = copy_hash\<rparr>"

definition demo_blob :: "bytes \<Rightarrow> bytes" where
  "demo_blob plain = encrypt_with_master_key demo_prims (replicate 16 0) (replicate 12 0) plain []"

definition demo_obs :: fetch_obs where
  "demo_obs = \<lparr>fo_exists = True, fo_first = Inr (demo_blob [1]), fo_scan = [Bytes (demo_blob [2])],
     fo_validated = [(u ''manifest.json 2.enc'', Bytes (demo_blob [2]))], fo_second = Inl (NotFound True),
     fo_copy = (\<lambda>_. Bytes (demo_blob [2]))\<rparr>"

lemma demo_fetch_ok:
  "\<exists>f. fetch_remote_manifest demo_loader demo_obs = Inr f \<and> mf_status f = StatusOk \<and> mf_copies_only f"
proof -
  have "case fetch_remote_manifest demo_loader demo_obs of Inl _ \<Rightarrow> False
      | Inr f \<Rightarrow> mf_status f = StatusOk \<and> mf_copies_only f" by code_simp
  then show ?thesis by (auto split: sum.splits)
qed

lemma demo_loads_well: "loads_well demo_loader"
  using copies_ok by (simp add: loads_well_def demo_loader_def)

theorem fetch_tells_apart_witness:
  "\<exists>f. fetch_remote_manifest demo_loader demo_obs = Inr f \<and> mf_manifest f \<noteq> None \<and>
     canonical_loaded demo_loader demo_obs = []"
proof -
  obtain f where f: "fetch_remote_manifest demo_loader demo_obs = Inr f" "mf_status f = StatusOk" "mf_copies_only f"
    using demo_fetch_ok by blast
  with fetch_tells_apart [OF f(1)] show ?thesis by blast
qed


section \<open>Properties of the recovery\<close>

text \<open>The published manifest cannot be taken as it is.\<close>

definition untrusted :: "manifest_fetch \<Rightarrow> bool" where
  "untrusted f \<longleftrightarrow> mf_status f = StatusCorrupt \<or> mf_status f = StatusOk \<and> mf_copies_only f \<or>
     mf_status f = StatusMissing \<and> mf_vanished f"

lemma peer_manifests_Inr:
  assumes "peer_manifests fetch me dids = Inr ms" "did \<in> set dids" "did \<noteq> me" "distinct dids"
    and "fetch did = Inr (Inr g)" "mf_status g = StatusOk"
  shows "map_of ms did = Some (mf_manifest g) \<and> did \<in> set (map fst ms)"
  using assms
proof (induction dids arbitrary: ms)
  case (Cons d dids)
  show ?case
  proof (cases "d = me")
    case True
    with Cons show ?thesis by auto
  next
    case False
    with Cons.prems(1) obtain ms' x where ms: "peer_manifests fetch me dids = Inr ms'" "ms = (d, x) # ms'"
      "fetch d = Inr (Inr g) \<longrightarrow> x = mf_manifest g"
      by (auto split: sum.splits simp: Cons.prems(6))
    show ?thesis
    proof (cases "d = did")
      case True
      with ms Cons.prems(5) show ?thesis by simp
    next
      case False
      with Cons.IH [OF ms(1)] Cons.prems(2-6) ms show ?thesis by auto
    qed
  qed
qed simp

lemma collect_tombstones_has:
  assumes "did \<in> set dids" "fetch did = Some m" "(k, t) \<in> set (m_tombstones m)"
    "is_active_tombstone fromiso (cutoff_at now) t"
  shows "map_of (collect_tombstones fromiso now dids fetch) k \<noteq> None"
proof -
  have "(k, t) \<in> set (active_entries fromiso (cutoff_at now) dids fetch)"
    using assms by (auto simp: active_entries_def intro!: bexI [of _ did])
  then have "k \<in> fst ` set (active_entries fromiso (cutoff_at now) dids fetch)" by force
  then show ?thesis by (simp add: collect_tombstones_eq keep_newest_dom)
qed

text \<open>C31. A push that cannot trust the published manifest never forgets a deletion it could know. It goes
  on without a prior manifest only when the device really never published one. When the published
  manifest is corrupt, vanished or held by conflict copies only, every deletion record of the local
  sidecar is in the prior manifest with a stamp at least as new; without a sidecar, a corrupt or
  vanished manifest is replaced by no files and every unexpired deletion record of every peer whose
  manifest can be fetched, so that none of them is dropped; and with nothing to recover from the push
  is refused.\<close>

theorem recovery_keeps_deletions:
  assumes "collect_peer_tombstones fromiso now fetch me devices = Inr tombs"
    and "recover_prior_manifest chash f sidecar (Inr tombs) = r"
    and "mf_status f = StatusOk \<longrightarrow> (\<exists>m. mf_manifest f = Some m \<and> wf_manifest m \<and> stamped (m_tombstones m))"
    and "\<forall>s. sidecar = Some s \<longrightarrow> wf_manifest s \<and> stamped (m_tombstones s)"
    and "\<forall>dids. devices = Some dids \<longrightarrow> distinct dids"
  shows "(r = Inr None \<longrightarrow> mf_status f = StatusMissing \<and> \<not> mf_vanished f) \<and>
    (\<forall>s p t. sidecar = Some s \<and> untrusted f \<and> map_of (m_tombstones s) p = Some t \<longrightarrow>
       (\<exists>prior t'. r = Inr (Some prior) \<and> map_of (m_tombstones prior) p = Some t' \<and>
          the (stamp_of t) \<le> the (stamp_of t'))) \<and>
    (\<forall>dids did g m k t. sidecar = None \<and> untrusted f \<and> mf_status f \<noteq> StatusOk \<and> devices = Some dids \<and>
       did \<in> set dids \<and> did \<noteq> me \<and> fetch did = Inr (Inr g) \<and> mf_status g = StatusOk \<and> mf_manifest g = Some m \<and>
       (k, t) \<in> set (m_tombstones m) \<and> is_active_tombstone fromiso (cutoff_at now) t \<longrightarrow>
       (\<exists>prior. r = Inr (Some prior) \<and> sources_of prior = [] \<and> map_of (m_tombstones prior) k \<noteq> None)) \<and>
    (sidecar = None \<and> untrusted f \<and> mf_status f \<noteq> StatusOk \<and> tombs = [] \<longrightarrow> r = Inl RecoverRefused)"
proof (intro conjI allI impI)
  assume "r = Inr None"
  with assms(2,3) show "mf_status f = StatusMissing" "\<not> mf_vanished f"
    by (auto simp: recover_prior_manifest_def split: if_splits option.splits sum.splits)
next
  fix s p t assume s: "sidecar = Some s \<and> untrusted f \<and> map_of (m_tombstones s) p = Some t"
  show "\<exists>prior t'. r = Inr (Some prior) \<and> map_of (m_tombstones prior) p = Some t' \<and> the (stamp_of t) \<le> the (stamp_of t')"
  proof (cases "mf_status f = StatusOk")
    case False
    with s assms(2) have "r = Inr (Some s)" by (auto simp: recover_prior_manifest_def untrusted_def)
    with s show ?thesis by auto
  next
    case True
    with assms(3) obtain m where m: "mf_manifest f = Some m" "wf_manifest m" "stamped (m_tombstones m)" by blast
    have w: "\<forall>x \<in> set [m, s]. stamped (m_tombstones x) \<and> wf_manifest x" using m assms(4) s by simp
    have ne: "[m, s] \<noteq> []" by simp
    from merge_manifests_keeps [OF w ne, of chash] obtain q where q: "merge_manifests chash [m, s] = Inr q"
      "\<forall>p. (map_of (m_tombstones q) p = None \<longleftrightarrow> (\<forall>x \<in> set [m, s]. map_of (m_tombstones x) p = None)) \<and>
        (\<forall>t. map_of (m_tombstones q) p = Some t \<longrightarrow> (\<exists>x \<in> set [m, s]. map_of (m_tombstones x) p = Some t) \<and>
           (\<forall>x \<in> set [m, s]. \<forall>t'. map_of (m_tombstones x) p = Some t' \<longrightarrow> the (stamp_of t') \<le> the (stamp_of t)))"
      by (elim exE conjE) (rule that)
    from True s m q(1) assms(2) have "r = Inr (Some q)" by (auto simp: recover_prior_manifest_def untrusted_def)
    moreover from q(2) s obtain t' where "map_of (m_tombstones q) p = Some t'"
      by (cases "map_of (m_tombstones q) p") auto
    moreover from this q(2) s have "the (stamp_of t) \<le> the (stamp_of t')" by auto
    ultimately show ?thesis by blast
  qed
next
  fix dids did g m k t
  assume a: "sidecar = None \<and> untrusted f \<and> mf_status f \<noteq> StatusOk \<and> devices = Some dids \<and>
     did \<in> set dids \<and> did \<noteq> me \<and> fetch did = Inr (Inr g) \<and> mf_status g = StatusOk \<and> mf_manifest g = Some m \<and>
     (k, t) \<in> set (m_tombstones m) \<and> is_active_tombstone fromiso (cutoff_at now) t"
  with assms(1) obtain ms where ms: "peer_manifests fetch me dids = Inr ms"
    "tombs = (if ms = [] then [] else collect_tombstones fromiso now (map fst ms) (\<lambda>did. dget ms did None))"
    by (auto simp: collect_peer_tombstones_def split: sum.splits if_splits)
  have "map_of ms did = Some (mf_manifest g) \<and> did \<in> set (map fst ms)"
    by (rule peer_manifests_Inr [OF ms(1)]) (use a assms(5) in auto)
  then have d: "dget ms did None = Some m" "did \<in> set (map fst ms)" using a by (simp_all add: dget_def)
  then have "map_of tombs k \<noteq> None"
    using collect_tombstones_has [of did "map fst ms" "\<lambda>did. dget ms did None" m k t fromiso now] a ms(2) by auto
  moreover from this have "tombs \<noteq> []" by auto
  ultimately show "\<exists>prior. r = Inr (Some prior) \<and> sources_of prior = [] \<and> map_of (m_tombstones prior) k \<noteq> None"
    using a assms(2) by (auto simp: recover_prior_manifest_def untrusted_def sources_of_def)
next
  assume "sidecar = None \<and> untrusted f \<and> mf_status f \<noteq> StatusOk \<and> tombs = []"
  with assms(2) show "r = Inl RecoverRefused" by (auto simp: recover_prior_manifest_def untrusted_def)
qed

theorem recovery_keeps_deletions_witness:
  "\<exists>tombs. collect_peer_tombstones parse_iso 0 (\<lambda>_. Inr (Inl EscapedOther)) [] None = Inr tombs \<and>
     recover_prior_manifest copy_hash (corrupt_fetch None) None (Inr tombs) = Inl RecoverRefused"
proof -
  have c: "collect_peer_tombstones parse_iso 0 (\<lambda>_. Inr (Inl EscapedOther)) [] None = Inr []"
    by (simp add: collect_peer_tombstones_def)
  have s: "mf_status (corrupt_fetch None) \<noteq> StatusOk" "untrusted (corrupt_fetch None)"
    by (simp_all add: corrupt_fetch_def untrusted_def)
  from recovery_keeps_deletions [OF c refl, of "corrupt_fetch None" None copy_hash] c s show ?thesis by simp
qed

end
