(* ===== verification/Gc.thy ===== *)
theory Gc
  imports Fetch Upload
begin

text \<open>
  Garbage collection of a device's own blobs, \<open>_do_gc\<close> of \<open>cli.py\<close>, with the sweep of stale temporary
  files it starts with (\<open>retention.py\<close>, \<open>_sweep_local_tmp_files\<close>). The two fetches of the manifest are
  arguments: whatever they find is what the collection goes by.
\<close>

section \<open>Temporary files\<close>

fun files_below :: "dnode \<Rightarrow> pystr list list" where
  "files_below (File d) = [[]]"
| "files_below (Folder es) = concat (map (\<lambda>(name, child). map ((#) name) (files_below child)) es)"

text \<open>The glob \<open>tmp*.tmp\<close>.\<close>

definition tmp_name :: "pystr \<Rightarrow> bool" where
  "tmp_name name \<longleftrightarrow> startswith name (u ''tmp'') \<and> endswith (drop 3 name) (u ''.tmp'')"

definition tmp_below :: "dnode \<Rightarrow> pystr list \<Rightarrow> pystr list list" where
  "tmp_below root base =
     (case node_at root base of
        Some (Folder es) \<Rightarrow>
          map ((@) base) (filter (\<lambda>p. p \<noteq> [] \<and> tmp_name (last p)) (files_below (Folder es)))
      | _ \<Rightarrow> [])"

record reap_outcome =
  re_candidates :: nat
  re_deleted :: nat
  re_failed :: nat
  re_skipped :: nat
  re_repairs :: nat
  re_repair_failed :: nat

definition needs_remediation :: "reap_outcome \<Rightarrow> bool" where
  "needs_remediation r \<longleftrightarrow> 0 < re_failed r \<or> 0 < re_skipped r \<or> 0 < re_repair_failed r"

definition reaped :: "nat \<Rightarrow> nat \<Rightarrow> nat \<Rightarrow> nat \<Rightarrow> reap_outcome" where
  "reaped candidates deleted failed skipped =
     \<lparr>re_candidates = candidates, re_deleted = deleted, re_failed = failed, re_skipped = skipped,
       re_repairs = 0, re_repair_failed = 0\<rparr>"

text \<open>\<open>scan base\<close>: the number of matches after which the scan of \<open>base\<close> fails, if it does; \<open>can p\<close>: the
  unlink of \<open>p\<close> succeeds. Only the two folders of this device are scanned.\<close>

definition scanned :: "(pystr list \<Rightarrow> nat option) \<Rightarrow> dnode \<Rightarrow> pystr list \<Rightarrow> pystr list list" where
  "scanned scan root base = (case scan base of None \<Rightarrow> tmp_below root base | Some n \<Rightarrow> take n (tmp_below root base))"

definition scoped_dirs :: "pystr \<Rightarrow> pystr list list" where
  "scoped_dirs device_id = [[u ''data'', device_id], [u ''manifests'', device_id]]"

definition sweep_local_tmp_files ::
  "(pystr list \<Rightarrow> nat option) \<Rightarrow> (pystr list \<Rightarrow> bool) \<Rightarrow> pystr \<Rightarrow> bool \<Rightarrow> dnode \<Rightarrow> reap_outcome \<times> dnode" where
  "sweep_local_tmp_files scan can device_id dry_run root =
     (let victims = concat (map (scanned scan root) (scoped_dirs device_id));
          skipped = length (filter (\<lambda>base. scan base \<noteq> None) (scoped_dirs device_id));
          gone = filter can victims
      in if dry_run then (reaped (length victims) 0 0 skipped, root)
         else (reaped (length victims) (length gone) (length victims - length gone) skipped,
               fold (\<lambda>p r. remove_node r p) gone root))"

section \<open>Collection\<close>

datatype gc_error =
  GcKey key_error | GcFetch fetch_error | GcNewer | GcCopiesOnly | GcCorrupt | GcStorage storage_error

definition refuse_unless_complete :: "manifest_fetch \<Rightarrow> gc_error + unit" where
  "refuse_unless_complete f =
     (if mf_newer f \<noteq> None then Inl GcNewer
      else if mf_copies_only f then Inl GcCopiesOnly
      else if mf_status f = StatusCorrupt then Inl GcCorrupt
      else Inr ())"

definition references :: "manifest_fetch \<Rightarrow> pystr set" where
  "references f =
     (case mf_manifest f of
        None \<Rightarrow> {}
      | Some m \<Rightarrow> set (concat (map (\<lambda>(name, sd). map (fi_sha256 \<circ> snd) (sd_files sd)) (sources_of m))))"

text \<open>The loop over the keys of the device: the blobs nobody refers to are counted and, except in a
  preview, deleted; keys of another shape stay.\<close>

fun collect_blobs ::
  "bool \<Rightarrow> pystr \<Rightarrow> pystr set \<Rightarrow> pystr list \<Rightarrow> nat \<Rightarrow> dnode \<Rightarrow> (gc_error + nat) \<times> dnode" where
  "collect_blobs dry_run me refs [] n store = (Inr n, store)"
| "collect_blobs dry_run me refs (k # ks) n store =
     (if \<not> endswith k (u ''.enc'') then collect_blobs dry_run me refs ks n store
      else
        (case parse_blob_key k of
           None \<Rightarrow> collect_blobs dry_run me refs ks n store
         | Some (did, sha) \<Rightarrow>
             if did \<noteq> me \<or> sha \<in> refs then collect_blobs dry_run me refs ks n store
             else if dry_run then collect_blobs dry_run me refs ks (Suc n) store
             else
               (case backend_delete store k of
                  Inl e \<Rightarrow> (Inl (GcStorage e), store)
                | Inr store' \<Rightarrow> collect_blobs dry_run me refs ks (Suc n) store')))"

definition do_gc ::
  "(nat \<Rightarrow> dnode \<Rightarrow> fetch_error + manifest_fetch) \<Rightarrow> (pystr list \<Rightarrow> nat option) \<Rightarrow> (pystr list \<Rightarrow> bool) \<Rightarrow>
     pystr \<Rightarrow> bool \<Rightarrow> dnode \<Rightarrow> (gc_error + nat) \<times> dnode" where
  "do_gc fetch scan can me dry_run store =
     (case data_prefix me of
        Inl e \<Rightarrow> (Inl (GcKey e), store)
      | Inr prefix \<Rightarrow>
          (case sweep_local_tmp_files scan can me dry_run store of
             (_, s) \<Rightarrow>
               (case fetch 0 s of
                  Inl e \<Rightarrow> (Inl (GcFetch e), s)
                | Inr f \<Rightarrow>
                    if mf_status f = StatusMissing then (Inr 0, s)
                    else
                      (case refuse_unless_complete f of
                         Inl e \<Rightarrow> (Inl e, s)
                       | Inr _ \<Rightarrow>
                           (case fetch 1 s of
                              Inl e \<Rightarrow> (Inl (GcFetch e), s)
                            | Inr again \<Rightarrow>
                                if mf_status again = StatusMissing then (Inr 0, s)
                                else
                                  (case refuse_unless_complete again of
                                     Inl e \<Rightarrow> (Inl e, s)
                                   | Inr _ \<Rightarrow>
                                       collect_blobs dry_run me (references f \<union> references again)
                                         (list_keys s prefix) 0 s))))))"

section \<open>Laws\<close>

lemma files_below_file_at: "wf_node n \<Longrightarrow> p \<in> set (files_below n) \<longleftrightarrow> file_at n p \<noteq> None"
proof (induction n arbitrary: p)
  case (Folder es)
  have m: "(name, child) \<in> set es \<longleftrightarrow> map_of es name = Some child" for name child
    using Folder.prems by (auto simp: distinct_keys_def)
  have IH: "map_of es name = Some child \<Longrightarrow> q \<in> set (files_below child) \<longleftrightarrow> file_at child q \<noteq> None" for name child q
    using Folder unfolding m [symmetric] by fastforce
  show ?case
  proof (cases p)
    case (Cons name q)
    have "p \<in> set (files_below (Folder es)) \<longleftrightarrow> (\<exists>child. map_of es name = Some child \<and> q \<in> set (files_below child))"
      unfolding m [symmetric] by (auto simp: Cons)
    also have "\<dots> \<longleftrightarrow> file_at (Folder es) p \<noteq> None" using IH by (auto simp: Cons split: option.split)
    finally show ?thesis .
  qed auto
qed auto

lemma tmp_below_file:
  assumes "wf_node root" "p \<in> set (tmp_below root base)"
  shows "file_at root p \<noteq> None \<and> tmp_name (last p) \<and> (\<exists>q. p = base @ q \<and> q \<noteq> [])"
proof -
  obtain es where es: "node_at root base = Some (Folder es)"
  proof (cases "node_at root base")
    case (Some n)
    with assms(2) that show ?thesis by (cases n) (auto simp: tmp_below_def)
  qed (use assms(2) in \<open>simp add: tmp_below_def\<close>)
  with assms(2) obtain q where q: "p = base @ q" "q \<noteq> []" "tmp_name (last q)" "q \<in> set (files_below (Folder es))"
    by (auto simp: tmp_below_def simp del: files_below.simps)
  from wf_node_at [OF assms(1) es] files_below_file_at [of "Folder es" q] q(4)
  have "file_at (Folder es) q \<noteq> None" by blast
  with q es show ?thesis by (auto simp: file_at_append)
qed

lemma remove_node_gone: "ps \<noteq> [] \<Longrightarrow> node_at (remove_node t ps) ps = None"
  by (induction t ps rule: remove_node.induct) (auto simp: delete_conv' neq_Nil_conv split: option.split)

lemma remove_node_absent: "node_at t qs = None \<Longrightarrow> node_at (remove_node t ps) qs = None"
proof (induction t ps arbitrary: qs rule: remove_node.induct)
  case (1 es p ps)
  then show ?case by (cases qs) (auto simp: delete_conv' split: option.splits if_splits)
qed auto

lemma remove_node_missing: "node_at t ps = None \<Longrightarrow> file_at (remove_node t ps) qs = file_at t qs"
proof (induction t ps arbitrary: qs rule: remove_node.induct)
  case (1 es p ps)
  then show ?case by (cases qs) (auto simp: delete_conv' split: option.splits if_splits)
qed auto

text \<open>Unlinking a list of files keeps every other file.\<close>

lemma remove_paths:
  "wf_node root \<Longrightarrow> \<forall>p \<in> set ps. p \<noteq> [] \<and> (node_at root p = None \<or> file_at root p \<noteq> None) \<Longrightarrow>
     wf_node (fold (\<lambda>p r. remove_node r p) ps root) \<and>
     (\<forall>q. file_at (fold (\<lambda>p r. remove_node r p) ps root) q = (if q \<in> set ps then None else file_at root q))"
proof (induction ps arbitrary: root)
  case (Cons p ps)
  let ?r = "remove_node root p"
  have p: "p \<noteq> []" using Cons.prems(2) by simp
  have f: "file_at ?r q = (if q = p then None else file_at root q)" for q
  proof (cases "node_at root p = None")
    case True
    with remove_node_missing [OF True, of q] show ?thesis by (auto simp: file_at_def)
  next
    case False
    with Cons.prems(2) have "file_at root p \<noteq> None" by simp
    then show ?thesis using remove_node_file_at p by blast
  qed
  have "\<forall>q \<in> set ps. q \<noteq> [] \<and> (node_at ?r q = None \<or> file_at ?r q \<noteq> None)"
  proof
    fix q assume "q \<in> set ps"
    with Cons.prems(2) have "q \<noteq> []" "node_at root q = None \<or> file_at root q \<noteq> None" by auto
    with f [of q] remove_node_gone [OF p, of root] remove_node_absent [of root q p]
    show "q \<noteq> [] \<and> (node_at ?r q = None \<or> file_at ?r q \<noteq> None)" by (cases "q = p") auto
  qed
  from Cons.IH [OF remove_node_wf [OF Cons.prems(1)] this] f show ?case by simp
qed simp

section \<open>What a collection may touch\<close>

text \<open>A temporary file in one of the two folders of the device.\<close>

definition own_tmp :: "pystr \<Rightarrow> pystr list \<Rightarrow> bool" where
  "own_tmp me p \<longleftrightarrow> (\<exists>base \<in> set (scoped_dirs me). \<exists>q. p = base @ q \<and> q \<noteq> []) \<and> tmp_name (last p)"

definition blob_path :: "pystr \<Rightarrow> pystr \<Rightarrow> pystr list" where
  "blob_path me sha = [u ''data'', me, sha @ u ''.enc'']"

text \<open>A fetch whose manifest lists everything the device refers to.\<close>

definition complete_fetch :: "manifest_fetch \<Rightarrow> bool" where
  "complete_fetch f \<longleftrightarrow> mf_status f = StatusOk \<and> mf_newer f = None \<and> \<not> mf_copies_only f"

definition orphan :: "pystr \<Rightarrow> pystr set \<Rightarrow> pystr \<Rightarrow> bool" where
  "orphan me refs k \<longleftrightarrow> (case parse_blob_key k of None \<Rightarrow> False | Some (did, sha) \<Rightarrow> did = me \<and> sha \<notin> refs)"

lemma refuse_unless_complete_Inr:
  "mf_status f \<noteq> StatusMissing \<Longrightarrow> refuse_unless_complete f = Inr () \<longleftrightarrow> complete_fetch f"
  by (cases "mf_status f") (auto simp: refuse_unless_complete_def complete_fetch_def)

lemma sweep_ok:
  assumes "wf_node s" "sweep_local_tmp_files scan can me dry s = (o1, s1)"
  shows "wf_node s1 \<and> (dry \<longrightarrow> s1 = s) \<and>
    (\<forall>p. file_at s1 p = file_at s p \<or> (file_at s1 p = None \<and> own_tmp me p))"
proof -
  let ?v = "concat (map (scanned scan s) (scoped_dirs me))"
  have v: "file_at s p \<noteq> None \<and> own_tmp me p" if "p \<in> set ?v" for p
  proof -
    from that obtain base where b: "base \<in> set (scoped_dirs me)" "p \<in> set (tmp_below s base)"
      by (auto simp: scanned_def dest: in_set_takeD split: option.splits)
    from tmp_below_file [OF assms(1) b(2)] b(1) show ?thesis unfolding own_tmp_def by blast
  qed
  have ne: "own_tmp me p \<Longrightarrow> p \<noteq> []" for p by (auto simp: own_tmp_def scoped_dirs_def)
  show ?thesis
  proof (cases dry)
    case True
    with assms show ?thesis by (auto simp: sweep_local_tmp_files_def Let_def)
  next
    case False
    let ?g = "filter can ?v"
    have "s1 = fold (\<lambda>p r. remove_node r p) ?g s"
      using assms(2) False by (simp add: sweep_local_tmp_files_def Let_def)
    moreover have g: "p \<in> set ?g \<Longrightarrow> file_at s p \<noteq> None \<and> own_tmp me p" for p
      using v [of p] unfolding set_filter by blast
    moreover have "\<forall>p \<in> set ?g. p \<noteq> [] \<and> (node_at s p = None \<or> file_at s p \<noteq> None)" using g ne by blast
    note remove_paths [OF assms(1) this]
    ultimately show ?thesis using False g by auto
  qed
qed

lemma orphan_path:
  assumes "orphan me refs k" "good_device me"
  shows "\<exists>sha. sha_shape sha \<and> sha \<notin> refs \<and> blob_key me (JStr sha) = Inr k \<and> path_parts k = blob_path me sha \<and>
    endswith k (u ''.enc'') \<and> parse_blob_key k = Some (me, sha)"
proof -
  from assms(1) obtain sha where p: "parse_blob_key k = Some (me, sha)" "sha \<notin> refs"
    by (auto simp: orphan_def split: option.splits)
  note sh = parse_blob_key_shape [OF p(1)]
  with assms(2) have bk: "blob_key me (JStr sha) = Inr k" by (auto simp: blob_key_Inr_iff good_device_def)
  from storage_key_parts [OF blob_key_storage_key [OF assms(2) bk]] sh split_data_key [of me "sha @ u ''.enc''"]
    sha_shape_no_sep [of sha]
  have "path_parts k = blob_path me sha" by (simp add: blob_path_def u_def)
  with p sh bk show ?thesis by (auto simp: endswith_iff)
qed

lemma collect_blobs_step:
  "collect_blobs dry me refs (k # ks) n s =
     (if \<not> orphan me refs k \<or> \<not> endswith k (u ''.enc'') then collect_blobs dry me refs ks n s
      else if dry then collect_blobs dry me refs ks (Suc n) s
      else (case backend_delete s k of
              Inl e \<Rightarrow> (Inl (GcStorage e), s)
            | Inr s' \<Rightarrow> collect_blobs dry me refs ks (Suc n) s'))"
  by (auto simp: orphan_def split: option.split)

lemma backend_delete_ok:
  assumes "wf_node s" "path_parts k \<noteq> []" "backend_delete s k = Inr s'"
  shows "wf_node s' \<and> (\<forall>p. file_at s' p = (if p = path_parts k then None else file_at s p))"
proof (cases "file_at s (path_parts k) = None")
  case True
  with assms(3) have "s' = s" by (auto simp: backend_delete_def file_at_def split: option.splits dnode.splits)
  with True assms(1) show ?thesis by simp
next
  case False
  with assms(3) have "s' = remove_node s (path_parts k)"
    by (auto simp: backend_delete_def file_at_def split: option.splits dnode.splits)
  with remove_node_wf [OF assms(1)] remove_node_file_at [OF False assms(2)] show ?thesis by simp
qed

lemma collect_blobs_ok:
  assumes "collect_blobs dry me refs ks n s = (r, s')" "wf_node s" "good_device me"
  shows "wf_node s' \<and> (dry \<longrightarrow> s' = s) \<and>
    (\<forall>p. file_at s' p = file_at s p \<or>
       (file_at s' p = None \<and> \<not> dry \<and> (\<exists>k \<in> set ks. orphan me refs k \<and> p = path_parts k))) \<and>
    (\<forall>m. r = Inr m \<longrightarrow> m = n + length (filter (orphan me refs) ks) \<and>
       (\<not> dry \<longrightarrow> (\<forall>k \<in> set ks. orphan me refs k \<longrightarrow> stored s' k = None)))"
  using assms(1,2)
proof (induction ks arbitrary: n s)
  case (Cons k ks)
  show ?case
  proof (cases "orphan me refs k")
    case False
    with Cons.prems have "collect_blobs dry me refs ks n s = (r, s')" unfolding collect_blobs_step by simp
    from Cons.IH [OF this Cons.prems(2)] False show ?thesis by auto
  next
    case True
    from orphan_path [OF True assms(3)] obtain sha where
      p: "path_parts k = blob_path me sha" and e: "endswith k (u ''.enc'')" by blast
    have ne: "path_parts k \<noteq> []" by (simp add: p blob_path_def)
    show ?thesis
    proof (cases dry)
      case dry: True
      with Cons.prems True e have "collect_blobs dry me refs ks (Suc n) s = (r, s')"
        unfolding collect_blobs_step by simp
      from Cons.IH [OF this Cons.prems(2)] True dry show ?thesis by auto
    next
      case False
      show ?thesis
      proof (cases "backend_delete s k")
        case (Inl err)
        with Cons.prems True e False have "r = Inl (GcStorage err)" "s' = s"
          unfolding collect_blobs_step by simp_all
        with Cons.prems(2) False show ?thesis by simp
      next
        case (Inr s1)
        with Cons.prems True e False have "collect_blobs dry me refs ks (Suc n) s1 = (r, s')"
          unfolding collect_blobs_step by simp
        note ih = Cons.IH [OF this]
        from backend_delete_ok [OF Cons.prems(2) ne Inr] have
          d: "wf_node s1" "file_at s1 q = (if q = path_parts k then None else file_at s q)" for q by auto
        from ih [OF d(1)] have gone: "stored s' k = None" using d(2) [of "path_parts k"]
          by (metis stored_def)
        show ?thesis using ih [OF d(1)] d(2) True False gone by (auto split: if_splits)
      qed
    qed
  qed
qed auto

lemma sha_not_tmp: "\<not> tmp_name (sha @ u ''.enc'')"
proof
  assume t: "tmp_name (sha @ u ''.enc'')"
  then obtain a where "drop 3 (sha @ u ''.enc'') = a @ u ''.tmp''" by (auto simp: tmp_name_def endswith_iff)
  then have "last (drop 3 (sha @ u ''.enc'')) = last (u ''.tmp'')" "drop 3 (sha @ u ''.enc'') \<noteq> []" by (auto simp: u_def)
  then show False by (simp add: last_drop u_def)
qed

text \<open>The cases of a collection.\<close>

lemma do_gc_cases:
  assumes "do_gc fetch scan can me dry s = (r, s')" "good_device me"
    "sweep_local_tmp_files scan can me dry s = (o1, s1)"
  obtains (skip) "s' = s1" "\<forall>n. r = Inr n \<longrightarrow> n = 0 \<and> (\<exists>i < 2. \<exists>f. fetch i s1 = Inr f \<and> mf_status f = StatusMissing)"
  | (collect) f again prefix where "fetch 0 s1 = Inr f" "fetch 1 s1 = Inr again" "complete_fetch f" "complete_fetch again"
      "data_prefix me = Inr prefix"
      "collect_blobs dry me (references f \<union> references again) (list_keys s1 prefix) 0 s1 = (r, s')"
proof -
  from assms(2) obtain prefix where px: "data_prefix me = Inr prefix" by (auto simp: data_prefix_def good_device_def)
  note run = assms(1) [unfolded do_gc_def px assms(3) prod.case sum.case]
  show ?thesis
  proof (cases "fetch 0 s1")
    case (Inl e)
    with run show ?thesis by (intro skip) auto
  next
    case f: (Inr f)
    note run = run [unfolded f sum.case]
    show ?thesis
    proof (cases "mf_status f = StatusMissing")
      case True
      with run f show ?thesis by (intro skip) (auto intro!: exI [of _ 0])
    next
      case False
      note ref = refuse_unless_complete_Inr [OF False]
      show ?thesis
      proof (cases "refuse_unless_complete f")
        case (Inl e)
        with run False show ?thesis by (intro skip) auto
      next
        case (Inr u)
        note run = run [unfolded Inr sum.case if_not_P [OF False]]
        from Inr ref have cf: "complete_fetch f" by simp
        show ?thesis
        proof (cases "fetch 1 s1")
          case (Inl e)
          with run show ?thesis by (intro skip) auto
        next
          case g: (Inr again)
          note run = run [unfolded g sum.case]
          show ?thesis
          proof (cases "mf_status again = StatusMissing")
            case True
            with run g show ?thesis by (intro skip) (auto intro!: exI [of _ 1])
          next
            case F2: False
            note ref2 = refuse_unless_complete_Inr [OF F2]
            show ?thesis
            proof (cases "refuse_unless_complete again")
              case (Inl e)
              with run F2 show ?thesis by (intro skip) auto
            next
              case (Inr u2)
              with run F2 ref2 show ?thesis by (intro collect [OF f g cf _ px]) auto
            qed
          qed
        qed
      qed
    qed
  qed
qed

section \<open>Properties\<close>

text \<open>C25. Garbage collection never deletes what a manifest needs. A preview changes nothing. A run only
  removes files, and only the device's own temporary files and blobs of the device whose hash neither
  of two complete fetches of its manifest lists; so every blob a fetched manifest refers to, every
  other device's file and every manifest keep their bytes, and when a manifest is missing, newer,
  unreadable or held by conflict copies alone, no blob goes at all. A run that ends after two complete
  fetches has removed every unreferenced blob, as many as a preview of it counts.\<close>

theorem gc_keeps_references:
  assumes "wf_node s" "good_device me" "do_gc fetch scan can me dry s = (r, s')"
    "s1 = snd (sweep_local_tmp_files scan can me dry s)"
  shows "wf_node s' \<and> (dry \<longrightarrow> s' = s) \<and>
    (\<forall>p. file_at s' p \<noteq> file_at s p \<longrightarrow> file_at s' p = None \<and>
       (own_tmp me p \<or>
        (\<exists>f again sha. fetch 0 s1 = Inr f \<and> fetch 1 s1 = Inr again \<and> complete_fetch f \<and> complete_fetch again \<and>
           sha_shape sha \<and> p = blob_path me sha \<and> sha \<notin> references f \<and> sha \<notin> references again))) \<and>
    (\<forall>i < 2. \<forall>f sha. fetch i s1 = Inr f \<and> complete_fetch f \<and> sha \<in> references f \<longrightarrow>
       file_at s' (blob_path me sha) = file_at s (blob_path me sha)) \<and>
    (\<forall>n f again prefix. r = Inr n \<and> fetch 0 s1 = Inr f \<and> fetch 1 s1 = Inr again \<and> complete_fetch f \<and>
       complete_fetch again \<and> data_prefix me = Inr prefix \<longrightarrow>
       n = length (filter (orphan me (references f \<union> references again)) (list_keys s1 prefix)) \<and>
       (\<not> dry \<longrightarrow> (\<forall>k. orphan me (references f \<union> references again) k \<longrightarrow> stored s' k = None)))"
proof -
  obtain o1 where sw: "sweep_local_tmp_files scan can me dry s = (o1, s1)" using assms(4) by (metis prod.collapse)
  from sweep_ok [OF assms(1) sw] have w: "wf_node s1" "dry \<longrightarrow> s1 = s"
    "\<And>p. file_at s1 p = file_at s p \<or> (file_at s1 p = None \<and> own_tmp me p)" by auto
  have not_tmp: "\<not> own_tmp me (blob_path me sha)" for sha
    using sha_not_tmp [of sha] by (simp add: own_tmp_def blob_path_def)
  have kept: "file_at s1 (blob_path me sha) = file_at s (blob_path me sha)" for sha
    using w(3) [of "blob_path me sha"] not_tmp by blast
  from assms(3,2) sw show ?thesis
  proof (cases rule: do_gc_cases)
    case skip
    have nc: "\<not> (r = Inr n \<and> fetch 0 s1 = Inr f \<and> fetch 1 s1 = Inr again \<and> complete_fetch f \<and> complete_fetch again)" for n f again
    proof
      assume a: "r = Inr n \<and> fetch 0 s1 = Inr f \<and> fetch 1 s1 = Inr again \<and> complete_fetch f \<and> complete_fetch again"
      with skip(2) obtain i g where "i < 2" "fetch i s1 = Inr g" "mf_status g = StatusMissing" by blast
      with a show False by (auto simp: less_2_cases_iff complete_fetch_def)
    qed
    show ?thesis unfolding skip(1) using w kept nc by (intro conjI allI impI) blast+
  next
    case (collect f again prefix)
    let ?refs = "references f \<union> references again"
    note c = collect_blobs_ok [OF collect(6) w(1) assms(2)]
    from c have c1: "wf_node s'" "dry \<longrightarrow> s' = s1"
      and c2: "\<And>p. file_at s' p = file_at s1 p \<or>
        (file_at s' p = None \<and> (\<exists>k \<in> set (list_keys s1 prefix). orphan me ?refs k \<and> p = path_parts k))"
      and c3: "\<And>m. r = Inr m \<Longrightarrow> m = length (filter (orphan me ?refs) (list_keys s1 prefix)) \<and>
        (\<not> dry \<longrightarrow> (\<forall>k \<in> set (list_keys s1 prefix). orphan me ?refs k \<longrightarrow> stored s' k = None))"
      by auto
    have c2': "file_at s' p = file_at s1 p \<or>
        (file_at s' p = None \<and> (\<exists>sha. sha_shape sha \<and> sha \<notin> ?refs \<and> p = blob_path me sha))" for p
    proof (cases "file_at s' p = file_at s1 p")
      case False
      with c2 [of p] obtain k where "file_at s' p = None" "orphan me ?refs k" "p = path_parts k" by blast
      with orphan_path [OF this(2) assms(2)] show ?thesis by blast
    qed blast
    have safe: "file_at s' p \<noteq> file_at s p \<Longrightarrow> file_at s' p = None \<and> (own_tmp me p \<or>
        (\<exists>sha. sha_shape sha \<and> p = blob_path me sha \<and> sha \<notin> references f \<and> sha \<notin> references again))" for p
      using c2' [of p] w(3) [of p] by auto
    have refd: "file_at s' (blob_path me sha) = file_at s (blob_path me sha)" if "sha \<in> ?refs" for sha
      using c2' [of "blob_path me sha"] kept [of sha] that by (auto simp: blob_path_def)
    have fetches: "i < 2 \<Longrightarrow> fetch i s1 = Inr g \<Longrightarrow> references g \<subseteq> ?refs" for i g
      using collect(1,2) by (auto simp: less_2_cases_iff)
    have all: "stored s' k = None" if "r = Inr n" "\<not> dry" "orphan me ?refs k" for n k
    proof (cases "stored s1 k = None")
      case True
      from orphan_path [OF that(3) assms(2)] obtain sha where k: "path_parts k = blob_path me sha" by blast
      from True c2 [of "path_parts k"] show ?thesis by (auto simp: stored_def)
    next
      case False
      from orphan_path [OF that(3) assms(2)] obtain sha where k: "blob_key me (JStr sha) = Inr k" by blast
      have pre: "prefix = u ''data/'' @ me @ [47]" using collect(5) by (simp add: data_prefix_Inr_iff DATA_PREFIX_def u_def)
      then have "prefix = (u ''data/'' @ me) @ [47]" "split_on 47 (u ''data/'' @ me) = [u ''data'', me]"
        using assms(2) validated_plain [of me] split_on_append [of 47 "u ''data''" me]
        by (auto simp: good_device_def plain_name_def split_on_id u_def)
      then have "storage_area prefix" unfolding storage_area_def
        using assms(2) validated_plain [of me]
        by (intro exI [of _ "u ''data/'' @ me"]) (auto simp: good_device_def plain_name_def u_def)
      moreover have "startswith k prefix" using k by (auto simp: blob_key_Inr_iff pre startswith_iff DATA_PREFIX_def u_def)
      ultimately have "k \<in> set (list_keys s1 prefix)"
        using lb.keys_ok [OF w(1) blob_key_storage_key [OF assms(2) k]] False by blast
      with c3 [OF that(1)] that(2,3) show ?thesis by blast
    qed
    show ?thesis
    proof (intro conjI allI impI)
      show "wf_node s'" by (rule c1(1))
      show "dry \<Longrightarrow> s' = s" using c1(2) w(2) by simp
    next
      fix p assume "file_at s' p \<noteq> file_at s p"
      note safe [OF this]
      then show "file_at s' p = None" "own_tmp me p \<or>
        (\<exists>f again sha. fetch 0 s1 = Inr f \<and> fetch 1 s1 = Inr again \<and> complete_fetch f \<and> complete_fetch again \<and>
           sha_shape sha \<and> p = blob_path me sha \<and> sha \<notin> references f \<and> sha \<notin> references again)"
        using collect(1-4) by blast+
    next
      fix i g sha assume "i < 2" "fetch i s1 = Inr g \<and> complete_fetch g \<and> sha \<in> references g"
      with fetches [of i g] refd [of sha] show "file_at s' (blob_path me sha) = file_at s (blob_path me sha)" by blast
    next
      fix n f' again' prefix'
      assume a: "r = Inr n \<and> fetch 0 s1 = Inr f' \<and> fetch 1 s1 = Inr again' \<and> complete_fetch f' \<and>
        complete_fetch again' \<and> data_prefix me = Inr prefix'"
      then have e: "f' = f" "again' = again" "prefix' = prefix" using collect by auto
      show "n = length (filter (orphan me (references f' \<union> references again')) (list_keys s1 prefix'))"
        unfolding e using c3 a by blast
      fix k assume "\<not> dry" "orphan me (references f' \<union> references again') k"
      then show "stored s' k = None" unfolding e using all a by blast
    qed
  qed
qed

definition gc_store :: dnode where
  "gc_store = Folder [(u ''data'', Folder [
     (u ''mac1'', Folder [(replicate 64 97 @ u ''.enc'', File [1]), (replicate 64 98 @ u ''.enc'', File [2]), (u ''tmpx.tmp'', File [3])]),
     (u ''mac2'', Folder [(replicate 64 98 @ u ''.enc'', File [4])])])]"

definition gc_fetch :: "nat \<Rightarrow> dnode \<Rightarrow> fetch_error + manifest_fetch" where
  "gc_fetch i s = Inr (ok_fetch up_local False False)"

theorem gc_keeps_references_witness:
  "\<exists>s'. do_gc gc_fetch (\<lambda>_. None) (\<lambda>_. True) (u ''mac1'') False gc_store = (Inr 1, s') \<and>
     file_at s' (blob_path (u ''mac1'') (replicate 64 97)) = Some [1] \<and>
     (\<forall>k. orphan (u ''mac1'') {replicate 64 97} k \<longrightarrow> stored s' k = None) \<and>
     file_at s' (blob_path (u ''mac2'') (replicate 64 98)) = Some [4]"
proof -
  let ?me = "u ''mac1''" and ?a = "replicate 64 97 :: pystr"
  obtain r s' where run: "do_gc gc_fetch (\<lambda>_. None) (\<lambda>_. True) ?me False gc_store = (r, s')" by (metis prod.collapse)
  have w: "wf_node gc_store" by (simp add: gc_store_def plain_name_def u_def eval_nat_numeral)
  have r: "fst (do_gc gc_fetch (\<lambda>_. None) (\<lambda>_. True) ?me False gc_store) = Inr 1"
    "file_at (snd (do_gc gc_fetch (\<lambda>_. None) (\<lambda>_. True) ?me False gc_store)) (blob_path (u ''mac2'') (replicate 64 98)) = Some [4]"
    by code_simp+
  have f: "gc_fetch i s = Inr (ok_fetch up_local False False)" "complete_fetch (ok_fetch up_local False False)"
    "references (ok_fetch up_local False False) = {?a}" "file_at gc_store (blob_path ?me ?a) = Some [1]" "data_prefix ?me = Inr (u ''data/mac1/'')" for i s
    by (simp_all add: gc_fetch_def complete_fetch_def references_def ok_fetch_def up_local_def sources_of_def up_file_def) code_simp+
  note g = gc_keeps_references [OF w up_local_wf(3) run refl]
  from g [THEN conjunct2, THEN conjunct2, THEN conjunct2, THEN conjunct1, rule_format, of 0 _ ?a] f
  have "file_at s' (blob_path ?me ?a) = Some [1]" by simp
  moreover from g [THEN conjunct2, THEN conjunct2, THEN conjunct2, THEN conjunct2, rule_format, of 1] f r(1) run
  have "orphan ?me {?a} k \<Longrightarrow> stored s' k = None" for k by simp
  ultimately show ?thesis using r run by auto
qed

end
