(* ===== verification/Apply.thy ===== *)
theory Apply
  imports Gc Push Merge
begin

text \<open>
  Applying what a peer published, \<open>pullflow.py\<close>: one incoming file (\<open>_apply_incoming_file\<close> with its
  write, merge and conflict branches) and the ledger of outcomes (\<open>_ApplyReporter\<close>), with what each
  outcome does to the disk. The local disk is a table from paths to entries; times are instants in microseconds. Every
  operation of the operating system may fail, by the predicates of \<open>io\<close>.
\<close>

section \<open>The local disk\<close>

type_synonym path = "pystr list"

text \<open>A link carries what reading through it gives, when that is a regular file.\<close>

datatype lentry = LFile bytes int | LDir | LLink "bytes option"

type_synonym ltree = "(path, lentry) dict"

record io =
  io_stat :: "path \<Rightarrow> bool"
  io_lstat :: "path \<Rightarrow> bool"
  io_mkdir :: "path \<Rightarrow> bool"
  io_read :: "path \<Rightarrow> bool"
  io_write :: "path \<Rightarrow> bool"
  io_list :: "path \<Rightarrow> bool"
  io_unlink :: "path \<Rightarrow> bool"
  io_utime :: "path \<Rightarrow> bool"
  io_mtime :: "path \<Rightarrow> bool"

definition is_link :: "ltree \<Rightarrow> path \<Rightarrow> bool" where
  "is_link L p \<longleftrightarrow> (case map_of L p of Some (LLink _) \<Rightarrow> True | _ \<Rightarrow> False)"

definition dir_at :: "ltree \<Rightarrow> path \<Rightarrow> bool" where
  "dir_at L p \<longleftrightarrow> map_of L p = Some LDir"

text \<open>The bytes read at a path, through a link.\<close>

definition content :: "ltree \<Rightarrow> path \<Rightarrow> bytes option" where
  "content L p = (case map_of L p of Some (LFile d t) \<Rightarrow> Some d | Some (LLink d) \<Rightarrow> d | _ \<Rightarrow> None)"

definition read_file :: "io \<Rightarrow> ltree \<Rightarrow> path \<Rightarrow> bytes option" where
  "read_file io L p = (if io_read io p then content L p else None)"

text \<open>\<open>atomic_write_bytes\<close> of a file stamped \<open>t\<close>: all or nothing.\<close>

definition atomic_write :: "io \<Rightarrow> ltree \<Rightarrow> path \<Rightarrow> bytes \<Rightarrow> int \<Rightarrow> ltree option" where
  "atomic_write io L p d t =
     (if io_write io p \<and> p \<noteq> [] \<and> dir_at L (butlast p) \<and> \<not> dir_at L p then Some (AList.update p (LFile d t) L)
      else None)"

section \<open>Outcomes\<close>

datatype apply_outcome = Written | Merged | MergedLcs | Skipped | Conflicted | Unchanged | Failed | Waiting

definition CANONICAL_WRITE_OUTCOMES :: "apply_outcome list" where
  "CANONICAL_WRITE_OUTCOMES = [Written, Merged, MergedLcs, Conflicted]"

record reporter =
  rp_outcomes :: "apply_outcome \<Rightarrow> pystr list"
  rp_pending :: "(path, int) dict option"
  rp_touched :: "path list"
  rp_bytes :: nat
  rp_rel :: pystr
  rp_local :: path
  rp_resolved :: path
  rp_recorded :: "apply_outcome option"

datatype apply_exc = OutcomeChanged | OSRaised | Aborted | Escaped

definition empty_outcomes :: "apply_outcome \<Rightarrow> pystr list" where
  "empty_outcomes = (\<lambda>_. [])"

definition begin_file :: "pystr \<Rightarrow> path \<Rightarrow> path \<Rightarrow> reporter \<Rightarrow> reporter" where
  "begin_file rel p resolved r = r\<lparr>rp_rel := rel, rp_local := p, rp_resolved := resolved, rp_recorded := None\<rparr>"

definition add_outcome :: "apply_outcome \<Rightarrow> pystr \<Rightarrow> reporter \<Rightarrow> reporter" where
  "add_outcome out rel r = r\<lparr>rp_outcomes := (rp_outcomes r)(out := rp_outcomes r out @ [rel])\<rparr>"

definition invalidate_inline_bump :: "path \<Rightarrow> reporter \<Rightarrow> reporter" where
  "invalidate_inline_bump canonical r = r\<lparr>rp_pending := map_option (AList.delete canonical) (rp_pending r)\<rparr>"

text \<open>The POSIX epoch, where a missing peer mtime is put.\<close>

definition EPOCH :: int where
  "EPOCH = 719163 * 86400 * 1000000"

definition record_inline_bump :: "path \<Rightarrow> int \<Rightarrow> reporter \<Rightarrow> reporter" where
  "record_inline_bump canonical peer_mtime r =
     r\<lparr>rp_pending := map_option (\<lambda>pending.
         AList.update canonical (max (dget pending canonical EPOCH) peer_mtime) pending) (rp_pending r)\<rparr>"

definition touch :: "path \<Rightarrow> reporter \<Rightarrow> reporter" where
  "touch p r = r\<lparr>rp_touched := List.insert p (rp_touched r)\<rparr>"

definition record_outcome :: "apply_outcome \<Rightarrow> reporter \<Rightarrow> apply_exc + reporter" where
  "record_outcome out r =
     (case rp_recorded r of
        Some prev \<Rightarrow> if prev \<noteq> out then Inl OutcomeChanged else Inr r
      | None \<Rightarrow>
          (let r = add_outcome out (rp_rel r) r;
               r = (if out \<in> set CANONICAL_WRITE_OUTCOMES
                    then touch (butlast (rp_local r)) (invalidate_inline_bump (rp_resolved r) r) else r)
           in Inr (r\<lparr>rp_recorded := Some out\<rparr>)))"

section \<open>State of an apply\<close>

record apply_state =
  st_tree :: ltree
  st_rep :: reporter

text \<open>The replies of the interactive prompt, and the two answers with side conditions: a merge only
  where one was offered.\<close>

datatype choice = KeepCanonical | KeepRemote | MergeWith bytes | AbortPull | KeepBoth

record apply_env =
  ae_io :: io
  ae_sha :: "bytes \<Rightarrow> pystr"
  ae_fromiso :: "pystr \<Rightarrow> py_dt option"
  ae_now :: int
  ae_civil :: "pystr \<Rightarrow> civil"
  ae_rands :: "pystr \<Rightarrow> pystr list"
  ae_answer :: "pystr \<Rightarrow> pystr"
  ae_lcs :: "bytes \<Rightarrow> bytes \<Rightarrow> bytes option"
  ae_interactive :: bool
  ae_digits :: nat
  ae_iter :: "pystr set \<Rightarrow> pystr list"
  ae_fetch :: "pystr \<Rightarrow> storage_error + bytes"
  ae_decrypt :: "bytes \<Rightarrow> crypto_error + bytes"
  ae_events_root :: path

definition finish :: "apply_outcome \<Rightarrow> apply_state \<Rightarrow> (apply_exc + apply_outcome) \<times> apply_state" where
  "finish out s =
     (case record_outcome out (st_rep s) of
        Inl e \<Rightarrow> (Inl e, s)
      | Inr r \<Rightarrow> (Inr out, s\<lparr>st_rep := r\<rparr>))"

definition MTIME_RESTORE_MAX_SKEW :: int where
  "MTIME_RESTORE_MAX_SKEW = 60 * 1000000"

text \<open>\<open>_restore_mtime_best_effort\<close>: the mtime a freshly written file ends up with.\<close>

definition restored_mtime :: "apply_env \<Rightarrow> path \<Rightarrow> pystr option \<Rightarrow> int" where
  "restored_mtime env p mtime_iso =
     (case mtime_iso of
        None \<Rightarrow> ae_now env
      | Some stamp \<Rightarrow>
          (case mtime_from_manifest (ae_fromiso env) stamp of
             None \<Rightarrow> ae_now env
           | Some ts \<Rightarrow>
               if stamp = [] \<or> \<not> io_utime (ae_io env) p then ae_now env
               else min ts (ae_now env + MTIME_RESTORE_MAX_SKEW)))"

text \<open>Publish \<open>data\<close> at \<open>p\<close> and record the outcome; a failed write records a failure.\<close>

definition publish ::
  "apply_env \<Rightarrow> path \<Rightarrow> bytes \<Rightarrow> int \<Rightarrow> apply_outcome \<Rightarrow> apply_state \<Rightarrow> (apply_exc + apply_outcome) \<times> apply_state" where
  "publish env p data t out s =
     (case atomic_write (ae_io env) (st_tree s) p data t of
        None \<Rightarrow> finish Failed s
      | Some L \<Rightarrow> finish out (s\<lparr>st_tree := L\<rparr>))"

definition apply_write ::
  "apply_env \<Rightarrow> path \<Rightarrow> bytes \<Rightarrow> pystr option \<Rightarrow> apply_state \<Rightarrow> (apply_exc + apply_outcome) \<times> apply_state" where
  "apply_write env p data mtime_iso s = publish env p data (restored_mtime env p mtime_iso) Written s"

definition apply_merge ::
  "apply_env \<Rightarrow> path \<Rightarrow> pystr \<Rightarrow> bytes \<Rightarrow> apply_state \<Rightarrow> (apply_exc + apply_outcome) \<times> apply_state" where
  "apply_merge env p rel data s =
     (case read_file (ae_io env) (st_tree s) p of
        None \<Rightarrow> finish Failed s
      | Some local_bytes \<Rightarrow>
          (case merge_file (ae_digits env) (ae_iter env) rel local_bytes data of
             None \<Rightarrow> (Inl Escaped, s)
           | Some merged \<Rightarrow>
               if merged = local_bytes then (Inr Unchanged, s)
               else publish env p merged (ae_now env) Merged s))"

section \<open>Conflicts\<close>

definition siblings :: "ltree \<Rightarrow> path \<Rightarrow> path list" where
  "siblings L parent = filter (\<lambda>p. p \<noteq> [] \<and> butlast p = parent) (dkeys L)"

text \<open>The conflict copies of \<open>canonical\<close> that this peer's earlier pulls left, and that a pull may
  replace: owned by exactly this file, not from before the inversion, regular.\<close>

definition replaceable :: "path \<Rightarrow> pystr \<Rightarrow> path \<Rightarrow> bool" where
  "replaceable canonical device_short p \<longleftrightarrow>
     butlast p = butlast canonical \<and> p \<noteq> [] \<and>
     is_conflict_filename (last p) \<and> canonical_for_conflict (last p) = Some (last canonical) \<and>
     \<not> is_pre_inversion_conflict_filename (last p) \<and> parse_conflict_device_short (last p) = Some device_short"

definition existing_sidecars :: "io \<Rightarrow> ltree \<Rightarrow> path \<Rightarrow> pystr \<Rightarrow> path list" where
  "existing_sidecars io L canonical device_short =
     (if io_list io (butlast canonical) then
        filter (\<lambda>p. contains (last p) CONFLICT_INFIX \<and> replaceable canonical device_short p \<and>
            io_stat io p \<and> content L p \<noteq> None) (siblings L (butlast canonical))
      else [])"

text \<open>The loop over them: \<open>None\<close> when one already holds the incoming bytes, otherwise those that were
  read and differ.\<close>

fun stale_sidecars :: "io \<Rightarrow> ltree \<Rightarrow> bytes \<Rightarrow> path list \<Rightarrow> path list option" where
  "stale_sidecars io L data [] = Some []"
| "stale_sidecars io L data (p # ps) =
     (case read_file io L p of
        None \<Rightarrow> stale_sidecars io L data ps
      | Some d \<Rightarrow> if d = data then None else map_option ((#) p) (stale_sidecars io L data ps))"

definition unlink :: "io \<Rightarrow> path \<Rightarrow> ltree \<Rightarrow> ltree" where
  "unlink io p L = (if io_unlink io p then AList.delete p L else L)"

definition name_occupied :: "io \<Rightarrow> ltree \<Rightarrow> path \<Rightarrow> pystr \<Rightarrow> probe_error + bool" where
  "name_occupied io L parent name =
     (if io_lstat io (parent @ [name]) then Inr (map_of L (parent @ [name]) \<noteq> None) else Inl ProbeOSError)"

definition apply_conflict ::
  "apply_env \<Rightarrow> path \<Rightarrow> pystr \<Rightarrow> bytes \<Rightarrow> pystr \<Rightarrow> pystr option \<Rightarrow> apply_state \<Rightarrow>
     (apply_exc + apply_outcome) \<times> apply_state" where
  "apply_conflict env p rel data device_id mtime_iso s =
     (let io = ae_io env; L = st_tree s; parent = butlast p;
          existing = (if device_id = [] then [] else existing_sidecars io L p (take 8 device_id))
      in case stale_sidecars io L data existing of
           None \<Rightarrow> (Inr Conflicted, s)
         | Some stale \<Rightarrow>
             (case conflict_filename (name_occupied io L parent) (ae_rands env rel) (last p) device_id (ae_civil env rel) of
                Inl e \<Rightarrow> finish Failed s
              | Inr name \<Rightarrow>
                  (let q = parent @ [name] in
                   case publish env q data (restored_mtime env q mtime_iso) Conflicted s of
                     (Inr Conflicted, s') \<Rightarrow>
                       (Inr Conflicted, s'\<lparr>st_tree := fold (unlink io) (filter (\<lambda>x. x \<noteq> q) stale) (st_tree s')\<rparr>)
                   | r \<Rightarrow> r)))"

section \<open>One incoming file\<close>

text \<open>\<open>_first_existing_ancestor\<close>, from a path upwards, and the folders below it, from the top.\<close>

function first_existing_ancestor :: "ltree \<Rightarrow> path \<Rightarrow> path" where
  "first_existing_ancestor L p =
     (if p = [] \<or> map_of L p \<noteq> None then p else first_existing_ancestor L (butlast p))"
  by auto
termination by (relation "measure (length \<circ> snd)") auto

declare first_existing_ancestor.simps [simp del]

definition missing_folders :: "path \<Rightarrow> path \<Rightarrow> path list" where
  "missing_folders ancestor parent = map (\<lambda>n. take n parent) [Suc (length ancestor)..<Suc (length parent)]"

fun make_folders :: "io \<Rightarrow> path list \<Rightarrow> apply_state \<Rightarrow> bool \<times> apply_state" where
  "make_folders io [] s = (True, s)"
| "make_folders io (d # ds) s =
     (if io_mkdir io d then
        make_folders io ds (s\<lparr>st_tree := AList.update d LDir (st_tree s), st_rep := touch (butlast d) (st_rep s)\<rparr>)
      else (False, s))"

definition ensure_parent :: "io \<Rightarrow> path \<Rightarrow> apply_state \<Rightarrow> bool \<times> apply_state" where
  "ensure_parent io parent s =
     (if dir_at (st_tree s) parent then (True, s)
      else
        (let ancestor = first_existing_ancestor (st_tree s) parent
         in if \<not> dir_at (st_tree s) ancestor then (False, s)
            else make_folders io (missing_folders ancestor parent) s))"

text \<open>\<open>hash_file\<close> of the local copy.\<close>

definition local_hash :: "apply_env \<Rightarrow> ltree \<Rightarrow> path \<Rightarrow> pystr option" where
  "local_hash env L p = map_option (ae_sha env) (read_file (ae_io env) L p)"

text \<open>The two mtimes, when both can be interpreted; only then can the local file be newer.\<close>

definition local_mtime :: "apply_env \<Rightarrow> ltree \<Rightarrow> path \<Rightarrow> int option" where
  "local_mtime env L p =
     (case map_of L p of Some (LFile d t) \<Rightarrow> if io_mtime (ae_io env) p then Some t else None | _ \<Rightarrow> None)"

definition remote_mtime :: "apply_env \<Rightarrow> pystr option \<Rightarrow> int option" where
  "remote_mtime env mtime_iso =
     (case mtime_iso of None \<Rightarrow> None | Some stamp \<Rightarrow> if stamp = [] then None else mtime_from_manifest (ae_fromiso env) stamp)"

definition local_newer :: "apply_env \<Rightarrow> ltree \<Rightarrow> path \<Rightarrow> pystr option \<Rightarrow> bool" where
  "local_newer env L p mtime_iso =
     (case (local_mtime env L p, remote_mtime env mtime_iso) of (Some l, Some r) \<Rightarrow> l > r | _ \<Rightarrow> False)"

definition prompt_conflict_choice :: "apply_env \<Rightarrow> pystr \<Rightarrow> bytes option \<Rightarrow> bytes \<Rightarrow> choice" where
  "prompt_conflict_choice env rel local_bytes remote_data =
     (let answer = ae_answer env rel;
          offered = (case local_bytes of None \<Rightarrow> None | Some d \<Rightarrow> ae_lcs env d remote_data)
      in if answer \<in> {u ''l'', u ''local'', u ''keep-canonical''} then KeepCanonical
         else if answer \<in> {u ''r'', u ''remote'', u ''keep-remote''} then KeepRemote
         else if answer \<in> {u ''m'', u ''merge''} then
           (case offered of Some merged \<Rightarrow> MergeWith merged | None \<Rightarrow> KeepBoth)
         else if answer \<in> {u ''a'', u ''abort''} then AbortPull
         else KeepBoth)"

text \<open>The branch a user may take instead of keeping both.\<close>

definition resolve_inline ::
  "apply_env \<Rightarrow> path \<Rightarrow> path \<Rightarrow> pystr \<Rightarrow> bytes \<Rightarrow> pystr \<Rightarrow> pystr option \<Rightarrow> apply_state \<Rightarrow>
     (apply_exc + apply_outcome) \<times> apply_state" where
  "resolve_inline env p resolved rel data device_id mtime_iso s =
     (case prompt_conflict_choice env rel (read_file (ae_io env) (st_tree s) p) data of
        KeepCanonical \<Rightarrow>
          (let peer_ts = (case local_mtime env (st_tree s) p of
                 None \<Rightarrow> EPOCH
               | Some _ \<Rightarrow> (case remote_mtime env mtime_iso of None \<Rightarrow> EPOCH | Some t \<Rightarrow> t))
           in (Inr Skipped, s\<lparr>st_rep := record_inline_bump resolved peer_ts (st_rep s)\<rparr>))
      | KeepRemote \<Rightarrow> publish env p data (restored_mtime env p mtime_iso) Written s
      | MergeWith merged \<Rightarrow> publish env p merged (ae_now env) MergedLcs s
      | AbortPull \<Rightarrow> (Inl Aborted, s)
      | KeepBoth \<Rightarrow> apply_conflict env p rel data device_id mtime_iso s)"

definition apply_existing ::
  "apply_env \<Rightarrow> path \<Rightarrow> path \<Rightarrow> pystr \<Rightarrow> bytes \<Rightarrow> file_info \<Rightarrow> pystr \<Rightarrow> apply_state \<Rightarrow>
     (apply_exc + apply_outcome) \<times> apply_state" where
  "apply_existing env p resolved rel data info device_id s =
     (case local_hash env (st_tree s) p of
        None \<Rightarrow> finish Failed s
      | Some h \<Rightarrow>
          if h = fi_sha256 info then (Inr Unchanged, s)
          else if should_merge rel then apply_merge env p rel data s
          else if local_newer env (st_tree s) p (fi_mtime info) then (Inr Skipped, s)
          else if ae_interactive env then resolve_inline env p resolved rel data device_id (fi_mtime info) s
          else apply_conflict env p rel data device_id (fi_mtime info) s)"

definition apply_incoming_file ::
  "apply_env \<Rightarrow> path \<Rightarrow> path \<Rightarrow> pystr \<Rightarrow> bytes \<Rightarrow> file_info \<Rightarrow> pystr \<Rightarrow> apply_state \<Rightarrow>
     (apply_exc + apply_outcome) \<times> apply_state" where
  "apply_incoming_file env p resolved rel data info device_id s =
     (if is_link (st_tree s) p then (Inr Skipped, s)
      else
        (case ensure_parent (ae_io env) (butlast p) s of
           (False, s) \<Rightarrow> finish Failed s
         | (True, s) \<Rightarrow>
             if \<not> io_stat (ae_io env) p then (Inl OSRaised, s)
             else if map_of (st_tree s) p = None then apply_write env p data (fi_mtime info) s
             else apply_existing env p resolved rel data info device_id s))"

section \<open>Effects\<close>

text \<open>A folder made above \<open>p\<close>.\<close>

definition made_folder :: "ltree \<Rightarrow> ltree \<Rightarrow> path \<Rightarrow> path \<Rightarrow> bool" where
  "made_folder L L' p q \<longleftrightarrow>
     map_of L q = None \<and> map_of L' q = Some LDir \<and> (\<exists>n < length p. q = take n p)"

text \<open>A conflict copy of \<open>p\<close> with the incoming bytes, under a name minted for this peer.\<close>

definition saved_copy :: "apply_env \<Rightarrow> pystr \<Rightarrow> path \<Rightarrow> pystr \<Rightarrow> bytes \<Rightarrow> ltree \<Rightarrow> ltree \<Rightarrow> path \<Rightarrow> bool" where
  "saved_copy env rel p device_id data L L' q \<longleftrightarrow>
     map_of L q = None \<and> (\<exists>t. map_of L' q = Some (LFile data t)) \<and>
     device_id \<noteq> [] \<and> (\<exists>rand. q = butlast p @ [minted_name (last p) device_id (ae_civil env rel) rand] \<and>
       (\<forall>r. rand = Some r \<longrightarrow> r \<in> set (ae_rands env rel)))"

text \<open>An older copy of this peer that the new one replaces.\<close>

definition replaced_copy :: "apply_env \<Rightarrow> pystr \<Rightarrow> path \<Rightarrow> pystr \<Rightarrow> bytes \<Rightarrow> ltree \<Rightarrow> ltree \<Rightarrow> path \<Rightarrow> bool" where
  "replaced_copy env rel p device_id data L L' q \<longleftrightarrow>
     map_of L' q = None \<and> replaceable p (take 8 device_id) q \<and>
     (\<exists>d. content L q = Some d \<and> d \<noteq> data) \<and> (\<exists>q'. saved_copy env rel p device_id data L L' q')"

definition others_kept :: "apply_env \<Rightarrow> pystr \<Rightarrow> path \<Rightarrow> pystr \<Rightarrow> bytes \<Rightarrow> apply_outcome \<Rightarrow> ltree \<Rightarrow> ltree \<Rightarrow> bool" where
  "others_kept env rel p device_id data out L L' \<longleftrightarrow>
     (\<forall>q. q \<noteq> p \<longrightarrow> map_of L' q = map_of L q \<or> made_folder L L' p q \<or>
        (out = Conflicted \<and> (saved_copy env rel p device_id data L L' q \<or> replaced_copy env rel p device_id data L L' q)))"

text \<open>What the file itself and its copies look like for each outcome.\<close>

fun own_effect ::
  "apply_env \<Rightarrow> path \<Rightarrow> pystr \<Rightarrow> pystr \<Rightarrow> bytes \<Rightarrow> file_info \<Rightarrow> ltree \<Rightarrow> ltree \<Rightarrow> apply_outcome \<Rightarrow> bool" where
  "own_effect env p rel dev data info L L' Written \<longleftrightarrow>
     (map_of L p = None \<or> ae_interactive env \<and> \<not> is_link L p) \<and> (\<exists>t. map_of L' p = Some (LFile data t))"
| "own_effect env p rel dev data info L L' Merged \<longleftrightarrow>
     should_merge rel \<and> \<not> is_link L p \<and> (\<exists>d m t. content L p = Some d \<and>
       merge_file (ae_digits env) (ae_iter env) rel d data = Some m \<and> map_of L' p = Some (LFile m t))"
| "own_effect env p rel dev data info L L' MergedLcs \<longleftrightarrow>
     ae_interactive env \<and> \<not> is_link L p \<and> (\<exists>d m t. content L p = Some d \<and> ae_lcs env d data = Some m \<and> map_of L' p = Some (LFile m t))"
| "own_effect env p rel dev data info L L' Skipped \<longleftrightarrow>
     map_of L' p = map_of L p \<and> (is_link L p \<or> local_newer env L p (fi_mtime info) \<or> ae_interactive env)"
| "own_effect env p rel dev data info L L' Conflicted \<longleftrightarrow>
     map_of L' p = map_of L p \<and>
     (\<exists>q. content L' q = Some data \<and> (saved_copy env rel p dev data L L' q \<or> replaceable p (take 8 dev) q))"
| "own_effect env p rel dev data info L L' Unchanged \<longleftrightarrow>
     map_of L' p = map_of L p \<and> (\<exists>d. content L p = Some d \<and>
       (ae_sha env d = fi_sha256 info \<or>
        (should_merge rel \<and> merge_file (ae_digits env) (ae_iter env) rel d data = Some d)))"
| "own_effect env p rel dev data info L L' Failed \<longleftrightarrow> map_of L' p = map_of L p"
| "own_effect env p rel dev data info L L' Waiting \<longleftrightarrow> False"

definition recorded :: "apply_outcome \<Rightarrow> reporter \<Rightarrow> reporter" where
  "recorded out r = (case record_outcome out r of Inl _ \<Rightarrow> r | Inr r' \<Rightarrow> r')"

text \<open>The ledger of a reporter: what later steps depend on.\<close>

definition same_ledger :: "reporter \<Rightarrow> reporter \<Rightarrow> bool" where
  "same_ledger r r' \<longleftrightarrow> rp_outcomes r' = rp_outcomes r \<and> rp_recorded r' = rp_recorded r \<and> rp_rel r' = rp_rel r"

text \<open>After an apply that returned \<open>out\<close>: not recorded yet, or recorded exactly once.\<close>

definition ledger_for :: "apply_outcome \<Rightarrow> reporter \<Rightarrow> reporter \<Rightarrow> bool" where
  "ledger_for out r r' \<longleftrightarrow>
     same_ledger r r' \<or>
     (rp_recorded r' = Some out \<and> rp_rel r' = rp_rel r \<and>
      rp_outcomes r' = (rp_outcomes r)(out := rp_outcomes r out @ [rp_rel r]))"

lemma same_ledger_refl [simp]: "same_ledger r r"
  by (simp add: same_ledger_def)

lemma finish_fresh:
  assumes "rp_recorded (st_rep s) = None"
  shows "\<exists>r. finish out s = (Inr out, s\<lparr>st_rep := r\<rparr>) \<and> rp_recorded r = Some out \<and> rp_rel r = rp_rel (st_rep s) \<and>
    rp_outcomes r = (rp_outcomes (st_rep s))(out := rp_outcomes (st_rep s) out @ [rp_rel (st_rep s)])"
  using assms by (intro exI [of _ "recorded out (st_rep s)"])
    (simp add: recorded_def finish_def record_outcome_def Let_def add_outcome_def touch_def invalidate_inline_bump_def)

lemma atomic_write_Some:
  "atomic_write io L p d t = Some L' \<Longrightarrow> L' = AList.update p (LFile d t) L \<and> p \<noteq> []"
  by (auto simp: atomic_write_def split: if_splits)

text \<open>A publication either leaves everything and is a failure, or writes exactly one file.\<close>

lemma publish_cases:
  assumes "publish env p data t out s = (r, s')" "rp_recorded (st_rep s) = None"
  obtains (failed) "r = Inr Failed" "st_tree s' = st_tree s" "ledger_for Failed (st_rep s) (st_rep s')"
  | (wrote) "r = Inr out" "st_tree s' = AList.update p (LFile data t) (st_tree s)" "ledger_for out (st_rep s) (st_rep s')"
proof (cases "atomic_write (ae_io env) (st_tree s) p data t")
  case None
  from finish_fresh [OF assms(2), of Failed] None assms(1) show ?thesis
    by (intro failed) (auto simp: publish_def ledger_for_def)
next
  case (Some L)
  from atomic_write_Some [OF Some] have L: "L = AList.update p (LFile data t) (st_tree s)" by simp
  have "rp_recorded (st_rep (s\<lparr>st_tree := L\<rparr>)) = None" using assms(2) by simp
  from finish_fresh [OF this, of out] Some assms(1) L show ?thesis
    by (intro wrote) (auto simp: publish_def ledger_for_def)
qed

lemma others_kept_refl [simp]: "others_kept env rel p dev data out L L"
  by (simp add: others_kept_def)

lemma others_kept_update: "others_kept env rel p dev data out L (AList.update p e L)"
  by (simp add: others_kept_def update_conv')

section \<open>Folders\<close>

lemma ancestor_prefix:
  "\<exists>n \<le> length p. first_existing_ancestor L p = take n p \<and> (\<forall>m. n < m \<and> m \<le> length p \<longrightarrow> map_of L (take m p) = None)"
proof (induction L p rule: first_existing_ancestor.induct)
  case (1 L p)
  show ?case
  proof (cases "p = [] \<or> map_of L p \<noteq> None")
    case True
    then show ?thesis by (intro exI [of _ "length p"]) (auto simp: first_existing_ancestor.simps)
  next
    case False
    from "1.IH" [OF False] obtain n where n: "n \<le> length p - 1" "first_existing_ancestor L (butlast p) = take n (butlast p)"
      "\<forall>m. n < m \<and> m \<le> length p - 1 \<longrightarrow> map_of L (take m (butlast p)) = None" by auto
    have "map_of L (take m p) = None" if m: "n < m" "m \<le> length p" for m
    proof (cases "m = length p")
      case True
      with False show ?thesis by simp
    next
      case F: False
      from m F have le: "m \<le> length p - 1" by arith
      then have "take m (butlast p) = take m p" by (simp add: butlast_conv_take min_def)
      with n(3) m(1) le show ?thesis by metis
    qed
    moreover have "first_existing_ancestor L p = take n p"
      using False n(1,2) by (simp add: first_existing_ancestor.simps [of L p] butlast_conv_take min_def)
    ultimately show ?thesis using n(1) by (intro exI [of _ n]) auto
  qed
qed

lemma make_folders_ok:
  "make_folders io ds s = (b, s') \<Longrightarrow> same_ledger (st_rep s) (st_rep s') \<and>
     (\<forall>q. map_of (st_tree s') q = map_of (st_tree s) q \<or> (q \<in> set ds \<and> map_of (st_tree s') q = Some LDir))"
proof (induction ds arbitrary: s)
  case (Cons d ds)
  show ?case
  proof (cases "io_mkdir io d")
    case True
    let ?s = "s\<lparr>st_tree := AList.update d LDir (st_tree s), st_rep := touch (butlast d) (st_rep s)\<rparr>"
    from Cons.prems True have "make_folders io ds ?s = (b, s')" by simp
    note ih = Cons.IH [OF this]
    have "same_ledger (st_rep s) (st_rep s')" using ih [THEN conjunct1] by (simp add: same_ledger_def touch_def)
    moreover have "map_of (st_tree s') q = map_of (st_tree s) q \<or> (q \<in> set (d # ds) \<and> map_of (st_tree s') q = Some LDir)" for q
      using ih [THEN conjunct2, THEN spec, of q] by (cases "q = d") (auto simp: update_conv')
    ultimately show ?thesis by blast
  next
    case False
    with Cons.prems show ?thesis by auto
  qed
qed auto

text \<open>Only missing folders above \<open>p\<close> are made.\<close>

definition folders_made :: "path \<Rightarrow> ltree \<Rightarrow> ltree \<Rightarrow> bool" where
  "folders_made p L L' \<longleftrightarrow>
     (\<forall>q. map_of L' q = map_of L q \<or> (map_of L q = None \<and> map_of L' q = Some LDir \<and> (\<exists>n < length p. q = take n p)))"

lemma folders_made_refl [simp]: "folders_made p L L"
  by (simp add: folders_made_def)

lemma ensure_parent_ok:
  assumes "ensure_parent io (butlast p) s = (b, s')" "p \<noteq> []"
  shows "same_ledger (st_rep s) (st_rep s') \<and> folders_made p (st_tree s) (st_tree s')"
proof (cases "dir_at (st_tree s) (butlast p) \<or> \<not> dir_at (st_tree s) (first_existing_ancestor (st_tree s) (butlast p))")
  case True
  with assms(1) show ?thesis by (auto simp: ensure_parent_def Let_def split: if_splits)
next
  case False
  define a where "a = first_existing_ancestor (st_tree s) (butlast p)"
  obtain n where n: "n \<le> length p - 1" "a = take n (butlast p)"
    "\<forall>m. n < m \<and> m \<le> length p - 1 \<longrightarrow> map_of (st_tree s) (take m (butlast p)) = None"
    using ancestor_prefix [of "butlast p" "st_tree s"] unfolding a_def by auto
  have run: "make_folders io (missing_folders a (butlast p)) s = (b, s')"
    using assms(1) False by (simp add: ensure_parent_def Let_def a_def)
  have mem: "q \<in> set (missing_folders a (butlast p)) \<Longrightarrow> map_of (st_tree s) q = None \<and> (\<exists>k < length p. q = take k p)" for q
  proof -
    assume q: "q \<in> set (missing_folders a (butlast p))"
    have "length a = n" using n(1,2) by (simp add: min_def)
    from q obtain m where mm: "m \<in> {Suc (length a)..<Suc (length (butlast p))}" "q = take m (butlast p)"
      unfolding missing_folders_def set_map set_upt by blast
    with \<open>length a = n\<close> have m: "n < m" "m \<le> length p - 1" "q = take m (butlast p)" by auto
    with n(3) assms(2) have "map_of (st_tree s) q = None" "m < length p" by (auto simp: Suc_le_eq [symmetric] neq_Nil_conv)
    with m show ?thesis by (auto simp: butlast_conv_take min_def intro!: exI [of _ m])
  qed
  from make_folders_ok [OF run] mem show ?thesis unfolding folders_made_def by blast
qed

section \<open>Conflicts leave everything but old copies\<close>

lemma canonical_shorter:
  assumes "contains name CONFLICT_INFIX" "canonical_for_conflict name = Some c"
  shows "length c < length name"
proof -
  from assms(1) obtain i where i: "rfind_sub CONFLICT_INFIX name = Some i"
    using rfind_sub_None_iff [of CONFLICT_INFIX name] by auto
  define n where "n = length CONFLICT_INFIX"
  have n: "1 \<le> n" by (simp add: n_def CONFLICT_INFIX_def u_def)
  have l: "i + n \<le> length name" using rfind_sub_Some [OF i] by (simp add: n_def)
  from assms(2) i have "c = take i name @ (case rfind_sub [46] (drop (i + n) name) of None \<Rightarrow> [] | Some k \<Rightarrow> drop k (drop (i + n) name))"
    unfolding n_def canonical_for_conflict_def Let_def by (auto split: if_splits)
  then show ?thesis using l n by (auto split: option.splits)
qed

lemma stale_sidecars_ok:
  "(stale_sidecars io L data ps = None \<longrightarrow> (\<exists>q \<in> set ps. content L q = Some data)) \<and>
   (\<forall>st. stale_sidecars io L data ps = Some st \<longrightarrow>
      (\<forall>q \<in> set st. q \<in> set ps \<and> (\<exists>d. content L q = Some d \<and> d \<noteq> data)))"
  by (induction ps) (auto simp: read_file_def split: option.splits if_splits)

lemma existing_sidecars_ok:
  "q \<in> set (existing_sidecars io L p short) \<Longrightarrow> replaceable p short q \<and> contains (last q) CONFLICT_INFIX"
  by (auto simp: existing_sidecars_def split: if_splits)

lemma unlink_fold:
  "map_of (fold (unlink io) qs L) q = map_of L q \<or> (q \<in> set qs \<and> map_of (fold (unlink io) qs L) q = None)"
proof (induction qs arbitrary: L)
  case (Cons p ps)
  from Cons.IH [of "unlink io p L"] show ?case by (auto simp: unlink_def delete_conv' split: if_splits)
qed simp

lemma map_of_content: "content L q = Some d \<Longrightarrow> map_of L q \<noteq> None"
  by (auto simp: content_def split: option.splits)

lemma apply_conflict_ok:
  assumes run: "apply_conflict env p rel data dev ts s = (r, s')"
    and p: "p \<noteq> []" "map_of (st_tree s) p \<noteq> None" "rp_recorded (st_rep s) = None"
  shows "\<exists>out. r = Inr out \<and> out \<in> {Conflicted, Failed} \<and> ledger_for out (st_rep s) (st_rep s') \<and>
    others_kept env rel p dev data out (st_tree s) (st_tree s') \<and>
    own_effect env p rel dev data info (st_tree s) (st_tree s') out"
proof -
  let ?L = "st_tree s" and ?io = "ae_io env"
  define existing where "existing = (if dev = [] then [] else existing_sidecars ?io ?L p (take 8 dev))"
  have ex: "q \<in> set existing \<Longrightarrow> replaceable p (take 8 dev) q \<and> contains (last q) CONFLICT_INFIX" for q
    using existing_sidecars_ok by (auto simp: existing_def split: if_splits)
  note run = run [unfolded apply_conflict_def Let_def, folded existing_def]
  note st = stale_sidecars_ok [of ?io ?L data existing]
  show ?thesis
  proof (cases "stale_sidecars ?io ?L data existing")
    case None
    with st obtain q where "q \<in> set existing" "content ?L q = Some data" by blast
    with ex have "content ?L q = Some data \<and> replaceable p (take 8 dev) q" by blast
    then have "own_effect env p rel dev data info ?L ?L Conflicted" by auto
    with run None show ?thesis by (auto simp: ledger_for_def simp del: own_effect.simps)
  next
    case (Some stale)
    note run = run [unfolded Some option.case]
    from st Some have stale: "q \<in> set stale \<Longrightarrow> q \<in> set existing \<and> (\<exists>d. content ?L q = Some d \<and> d \<noteq> data)" for q by blast
    show ?thesis
    proof (cases "conflict_filename (name_occupied ?io ?L (butlast p)) (ae_rands env rel) (last p) dev (ae_civil env rel)")
      case (Inl e)
      from run [unfolded Inl sum.case] finish_fresh [OF p(3), of Failed] show ?thesis
        by (auto simp: ledger_for_def)
    next
      case (Inr name)
      define q where "q = butlast p @ [name]"
      note run = run [unfolded Inr sum.case, folded q_def]
      from conflict_filename_Inr [OF Inr] have dev: "dev \<noteq> []" and free: "map_of ?L q = None"
        and mint: "\<exists>rand. name = minted_name (last p) dev (ae_civil env rel) rand \<and> (\<forall>r. rand = Some r \<longrightarrow> r \<in> set (ae_rands env rel))"
        by (auto simp: name_occupied_def q_def dest: in_set_takeD split: if_splits)
      obtain r1 s1 where pub: "publish env q data (restored_mtime env q ts) Conflicted s = (r1, s1)" by (metis prod.collapse)
      from pub p(3) show ?thesis
      proof (cases rule: publish_cases)
        case failed
        with run pub show ?thesis by auto
      next
        case wrote
        define L1 where "L1 = AList.update q (LFile data (restored_mtime env q ts)) ?L"
        define L2 where "L2 = fold (unlink ?io) (filter (\<lambda>x. x \<noteq> q) stale) L1"
        from run pub wrote have r: "r = Inr Conflicted" "st_tree s' = L2" "st_rep s' = st_rep s1"
          by (auto simp: L1_def L2_def)
        have L2: "map_of L2 x = map_of L1 x \<or> (x \<in> set stale \<and> x \<noteq> q \<and> map_of L2 x = None)" for x
          using unlink_fold [of ?io "filter (\<lambda>x. x \<noteq> q) stale" L1 x] by (auto simp: L2_def)
        have L1: "map_of L1 x = (if x = q then Some (LFile data (restored_mtime env q ts)) else map_of ?L x)" for x
          by (simp add: L1_def update_conv')
        have saved: "saved_copy env rel p dev data ?L L2 q"
          using L2 [of q] L1 [of q] free dev mint by (auto simp: saved_copy_def q_def)
        have stale_p: "x \<in> set stale \<Longrightarrow> x \<noteq> p" for x
        proof
          assume "x \<in> set stale" "x = p"
          with stale [of x] ex [of x] have "replaceable p (take 8 dev) p" "contains (last p) CONFLICT_INFIX" by auto
          then show False using canonical_shorter [of "last p" "last p"] by (auto simp: replaceable_def)
        qed
        have ok: "others_kept env rel p dev data Conflicted ?L L2"
          unfolding others_kept_def
        proof (intro allI impI)
          fix x assume "x \<noteq> p"
          show "map_of L2 x = map_of ?L x \<or> made_folder ?L L2 p x \<or>
            (Conflicted = Conflicted \<and> (saved_copy env rel p dev data ?L L2 x \<or> replaced_copy env rel p dev data ?L L2 x))"
          proof (cases "x = q")
            case False
            with L1 [of x] L2 [of x] stale [of x] ex [of x] saved show ?thesis
              by (auto simp: replaced_copy_def)
          qed (use saved in blast)
        qed
        have "map_of L2 p = map_of ?L p"
          using L2 [of p] L1 [of p] stale_p [of p] free p(2) by auto
        moreover have "content L2 q = Some data" using saved by (auto simp: saved_copy_def content_def)
        ultimately show ?thesis using r ok saved wrote(3) by auto
      qed
    qed
  qed
qed

section \<open>One file\<close>

text \<open>The result of an apply that started at \<open>L\<close>: an outcome with its effect, or one of the three
  exceptions, with at most folders made.\<close>

definition apply_result ::
  "apply_env \<Rightarrow> path \<Rightarrow> pystr \<Rightarrow> pystr \<Rightarrow> bytes \<Rightarrow> file_info \<Rightarrow> apply_state \<Rightarrow> (apply_exc + apply_outcome) \<times> apply_state \<Rightarrow> bool" where
  "apply_result env p rel dev data info s rs \<longleftrightarrow>
     (case rs of
        (Inr out, s') \<Rightarrow> ledger_for out (st_rep s) (st_rep s') \<and>
          others_kept env rel p dev data out (st_tree s) (st_tree s') \<and>
          own_effect env p rel dev data info (st_tree s) (st_tree s') out
      | (Inl e, s') \<Rightarrow> same_ledger (st_rep s) (st_rep s') \<and> folders_made p (st_tree s) (st_tree s') \<and>
          (e = OSRaised \<or> (e = Aborted \<and> ae_interactive env) \<or>
           (e = Escaped \<and> (\<exists>d. merge_file (ae_digits env) (ae_iter env) rel d data = None))))"

lemma read_file_content: "read_file io L p = Some d \<Longrightarrow> content L p = Some d"
  by (simp add: read_file_def split: if_splits)

lemma publish_result:
  assumes "publish env p data' t out s = rs" "rp_recorded (st_rep s) = None"
    "own_effect env p rel dev data info (st_tree s) (AList.update p (LFile data' t) (st_tree s)) out"
  shows "apply_result env p rel dev data info s rs"
proof -
  obtain r s' where rs: "rs = (r, s')" by (cases rs)
  from assms(1) [unfolded rs] assms(2) show ?thesis
  proof (cases rule: publish_cases)
    case failed
    then show ?thesis by (simp add: rs apply_result_def)
  next
    case wrote
    with assms(3) rs show ?thesis by (simp add: apply_result_def others_kept_update)
  qed
qed

lemma finish_result:
  assumes "rp_recorded (st_rep s) = None"
  shows "apply_result env p rel dev data info s (finish Failed s)"
  using finish_fresh [OF assms, of Failed] by (auto simp: apply_result_def ledger_for_def)

lemma same_result:
  "own_effect env p rel dev data info (st_tree s) (st_tree s) out \<Longrightarrow> apply_result env p rel dev data info s (Inr out, s)"
  by (simp add: apply_result_def ledger_for_def)

lemma conflict_result:
  assumes "p \<noteq> []" "map_of (st_tree s) p \<noteq> None" "rp_recorded (st_rep s) = None"
  shows "apply_result env p rel dev data info s (apply_conflict env p rel data dev ts s)"
proof -
  obtain r s' where rs: "apply_conflict env p rel data dev ts s = (r, s')" by (cases "apply_conflict env p rel data dev ts s")
  from apply_conflict_ok [OF rs assms, of info] show ?thesis unfolding rs apply_result_def by auto
qed

lemma inline_result:
  assumes "p \<noteq> []" "map_of (st_tree s) p \<noteq> None" "rp_recorded (st_rep s) = None" "ae_interactive env" "\<not> is_link (st_tree s) p"
  shows "apply_result env p rel dev data info s (resolve_inline env p resolved rel data dev ts s)"
proof (cases "prompt_conflict_choice env rel (read_file (ae_io env) (st_tree s) p) data")
  case KeepCanonical
  then show ?thesis using assms(4)
    by (simp add: resolve_inline_def apply_result_def ledger_for_def same_ledger_def record_inline_bump_def Let_def)
next
  case KeepRemote
  with assms(3-5) show ?thesis
    by (intro publish_result [of env p data "restored_mtime env p ts" Written]) (simp_all add: resolve_inline_def update_conv')
next
  case (MergeWith merged)
  then obtain d where "read_file (ae_io env) (st_tree s) p = Some d" "ae_lcs env d data = Some merged"
    by (auto simp: prompt_conflict_choice_def Let_def split: if_splits option.splits)
  with read_file_content [OF this(1)] MergeWith assms(3-5) show ?thesis
    by (intro publish_result [of env p merged "ae_now env" MergedLcs]) (simp_all add: resolve_inline_def update_conv')
next
  case AbortPull
  with assms(4) show ?thesis by (simp add: resolve_inline_def apply_result_def)
next
  case KeepBoth
  with conflict_result [OF assms(1-3)] show ?thesis by (simp add: resolve_inline_def)
qed

lemma existing_result:
  assumes "p \<noteq> []" "map_of (st_tree s) p \<noteq> None" "rp_recorded (st_rep s) = None" "\<not> is_link (st_tree s) p"
  shows "apply_result env p rel dev data info s (apply_existing env p resolved rel data info dev s)"
proof (cases "read_file (ae_io env) (st_tree s) p")
  case None
  with finish_result [OF assms(3)] show ?thesis by (simp add: apply_existing_def local_hash_def)
next
  case (Some d)
  note d = read_file_content [OF Some]
  note run = apply_existing_def [of env p resolved rel data info dev s, unfolded local_hash_def Some option.map option.case]
  consider (same) "ae_sha env d = fi_sha256 info" | (merge) "ae_sha env d \<noteq> fi_sha256 info" "should_merge rel"
    | (newer) "ae_sha env d \<noteq> fi_sha256 info" "\<not> should_merge rel" "local_newer env (st_tree s) p (fi_mtime info)"
    | (inline) "ae_sha env d \<noteq> fi_sha256 info" "\<not> should_merge rel" "\<not> local_newer env (st_tree s) p (fi_mtime info)" "ae_interactive env"
    | (conflict) "ae_sha env d \<noteq> fi_sha256 info" "\<not> should_merge rel" "\<not> local_newer env (st_tree s) p (fi_mtime info)" "\<not> ae_interactive env"
    by blast
  then show ?thesis
  proof cases
    case same
    with run d show ?thesis by (simp add: same_result)
  next
    case merge
    have run: "apply_existing env p resolved rel data info dev s = apply_merge env p rel data s" using run merge by simp
    show ?thesis
    proof (cases "merge_file (ae_digits env) (ae_iter env) rel d data")
      case None
      with Some show ?thesis unfolding run by (auto simp: apply_merge_def apply_result_def)
    next
      case m: (Some m)
      show ?thesis
      proof (cases "m = d")
        case True
        with Some m d merge show ?thesis unfolding run by (simp add: apply_merge_def same_result)
      next
        case False
        with Some m d merge assms(3,4) show ?thesis unfolding run
          by (intro publish_result [of env p m "ae_now env" Merged]) (simp_all add: apply_merge_def update_conv')
      qed
    qed
  next
    case newer
    with run show ?thesis by (simp add: same_result)
  next
    case inline
    with run inline_result [OF assms(1-3) inline(4) assms(4)] show ?thesis by simp
  next
    case conflict
    with run conflict_result [OF assms(1-3)] show ?thesis by simp
  qed
qed

lemma folders_at: "folders_made p L L1 \<Longrightarrow> map_of L1 p = map_of L p"
proof -
  have "\<not> (\<exists>n < length p. p = take n p)" by (metis length_take less_irrefl min_less_iff_conj)
  then show "folders_made p L L1 \<Longrightarrow> map_of L1 p = map_of L p" unfolding folders_made_def by metis
qed

lemma folders_None: "folders_made p L L1 \<Longrightarrow> map_of L1 q = None \<Longrightarrow> map_of L q = None"
  unfolding folders_made_def by metis

lemma folders_content:
  assumes "folders_made p L L1" "content L1 q = Some d"
  shows "content L q = Some d"
proof -
  from assms(1) have "map_of L1 q = map_of L q \<or> map_of L1 q = Some LDir" by (auto simp: folders_made_def)
  with assms(2) show ?thesis by (auto simp: content_def)
qed

lemma saved_before:
  assumes "folders_made p L L1" "saved_copy env rel p dev data L1 L' q"
  shows "saved_copy env rel p dev data L L' q"
  using assms(2) folders_None [OF assms(1), of q] by (simp add: saved_copy_def)

lemma replaced_before:
  assumes "folders_made p L L1" "replaced_copy env rel p dev data L1 L' q"
  shows "replaced_copy env rel p dev data L L' q"
proof -
  from assms(2) obtain d q' where q: "map_of L' q = None" "replaceable p (take 8 dev) q" "content L1 q = Some d"
      "d \<noteq> data" "saved_copy env rel p dev data L1 L' q'"
    unfolding replaced_copy_def by (elim conjE exE) (rule that)
  note c = folders_content [OF assms(1) q(3)] and sv = saved_before [OF assms(1) q(5)]
  show ?thesis unfolding replaced_copy_def
    by (intro conjI exI [of _ d] exI [of _ q'] q(1,2,4) c sv)
qed

lemma others_before:
  assumes "folders_made p L L1" "others_kept env rel p dev data out L1 L'"
  shows "others_kept env rel p dev data out L L'"
  unfolding others_kept_def
proof (intro allI impI)
  fix q assume ne: "q \<noteq> p"
  from assms(2) [unfolded others_kept_def, THEN spec, THEN mp, OF ne]
  consider "map_of L' q = map_of L1 q" | "made_folder L1 L' p q"
    | "out = Conflicted" "saved_copy env rel p dev data L1 L' q \<or> replaced_copy env rel p dev data L1 L' q"
    by (elim disjE conjE) iprover+
  then show "map_of L' q = map_of L q \<or> made_folder L L' p q \<or>
      (out = Conflicted \<and> (saved_copy env rel p dev data L L' q \<or> replaced_copy env rel p dev data L L' q))"
  proof cases
    case 1
    from assms(1) have "map_of L1 q = map_of L q \<or>
        (map_of L q = None \<and> map_of L1 q = Some LDir \<and> (\<exists>n < length p. q = take n p))" by (simp add: folders_made_def)
    with 1 show ?thesis by (auto simp: made_folder_def)
  next
    case 2
    with folders_None [OF assms(1), of q] show ?thesis by (simp add: made_folder_def)
  next
    case 3
    from 3(2) have "saved_copy env rel p dev data L L' q \<or> replaced_copy env rel p dev data L L' q"
      using saved_before [OF assms(1), of env rel dev data L' q] replaced_before [OF assms(1), of env rel dev data L' q] by iprover
    with 3(1) show ?thesis by simp
  qed
qed

lemma own_before:
  assumes "folders_made p L L1" "own_effect env p rel dev data info L1 L' out"
  shows "own_effect env p rel dev data info L L' out"
proof -
  have at: "map_of L1 p = map_of L p" by (rule folders_at [OF assms(1)])
  then have same: "content L1 p = content L p" "is_link L1 p = is_link L p"
    "local_newer env L1 p ts = local_newer env L p ts" for ts
    by (simp_all add: content_def is_link_def local_newer_def local_mtime_def)
  show ?thesis using assms(2) at saved_before [OF assms(1)] by (cases out) (auto simp: same)
qed

lemma folders_then:
  assumes "folders_made p (st_tree s) (st_tree s1)" "same_ledger (st_rep s) (st_rep s1)"
    "apply_result env p rel dev data info s1 rs"
  shows "apply_result env p rel dev data info s rs"
proof (cases rs)
  case (Pair r s')
  have led: "ledger_for out (st_rep s1) (st_rep s') \<Longrightarrow> ledger_for out (st_rep s) (st_rep s')"
    "same_ledger (st_rep s1) (st_rep s') \<Longrightarrow> same_ledger (st_rep s) (st_rep s')" for out
    using assms(2) by (simp_all add: ledger_for_def same_ledger_def)
  have trans: "folders_made p (st_tree s) L'" if "folders_made p (st_tree s1) L'" for L'
    unfolding folders_made_def
  proof
    fix q
    from assms(1) that show "map_of L' q = map_of (st_tree s) q \<or>
        (map_of (st_tree s) q = None \<and> map_of L' q = Some LDir \<and> (\<exists>n < length p. q = take n p))"
      unfolding folders_made_def by (elim allE [of _ q]) auto
  qed
  show ?thesis
  proof (cases r)
    case (Inl e)
    with assms(3) led(2) trans show ?thesis unfolding Pair apply_result_def by auto
  next
    case (Inr out)
    with assms(3) led(1) others_before [OF assms(1)] own_before [OF assms(1)] show ?thesis
      unfolding Pair apply_result_def by auto
  qed
qed

lemma apply_incoming_file_result:
  assumes "p \<noteq> []" "rp_recorded (st_rep s) = None"
  shows "apply_result env p rel dev data info s (apply_incoming_file env p resolved rel data info dev s)"
proof (cases "is_link (st_tree s) p")
  case True
  then show ?thesis by (simp add: apply_incoming_file_def same_result)
next
  case False
  obtain b s1 where e: "ensure_parent (ae_io env) (butlast p) s = (b, s1)" by (metis prod.collapse)
  from ensure_parent_ok [OF e assms(1)] have f: "folders_made p (st_tree s) (st_tree s1)" "same_ledger (st_rep s) (st_rep s1)" by auto
  have nl: "\<not> is_link (st_tree s1) p" using False folders_at [OF f(1)] by (simp add: is_link_def)
  have rec: "rp_recorded (st_rep s1) = None" using f(2) assms(2) by (simp add: same_ledger_def)
  note run = apply_incoming_file_def [of env p resolved rel data info dev s, unfolded if_not_P [OF False] e prod.case]
  show ?thesis
  proof (rule folders_then [OF f])
    show "apply_result env p rel dev data info s1 (apply_incoming_file env p resolved rel data info dev s)"
    proof (cases b)
      case False
      with run finish_result [OF rec] show ?thesis by simp
    next
      case True
      with run have run: "apply_incoming_file env p resolved rel data info dev s =
        (if \<not> io_stat (ae_io env) p then (Inl OSRaised, s1)
         else if map_of (st_tree s1) p = None then apply_write env p data (fi_mtime info) s1
         else apply_existing env p resolved rel data info dev s1)" by simp
      show ?thesis
      proof (cases "io_stat (ae_io env) p")
        case False
        with run show ?thesis by (simp add: apply_result_def)
      next
        case st: True
        show ?thesis
        proof (cases "map_of (st_tree s1) p = None")
          case True
          with run st rec show ?thesis
            by (intro publish_result [of env p data "restored_mtime env p (fi_mtime info)" Written])
              (simp_all add: apply_write_def update_conv')
        next
          case False
          with run st existing_result [OF assms(1) _ rec nl] show ?thesis by simp
        qed
      qed
    qed
  qed
qed

end
