(* ===== verification/Pull.thy ===== *)
theory Pull
  imports Apply
begin

text \<open>
  Pulling one source of one peer, \<open>pullflow.py\<close>: the list of files to download and the loop over it
  (\<open>_pull_one_source\<close>, \<open>_download_and_apply\<close>), and the deferred mtime bumps of an interactive pull
  (\<open>_drain_inline_bumps\<close>, \<open>conflictmtime.py\<close>). The laws: no step disturbs another file or its conflict
  copies, nothing local is lost, and the ledger of outcomes says what happened.
\<close>

section \<open>The download loop\<close>

definition local_path :: "path \<Rightarrow> pystr \<Rightarrow> path" where
  "local_path base rel = (if startswith rel [47] then path_parts rel else base @ path_parts rel)"

definition resolve_path :: "path \<Rightarrow> path" where
  "resolve_path p = fold (\<lambda>part acc. if part = u ''..'' then butlast acc else acc @ [part]) p []"

definition path_inside :: "path \<Rightarrow> pystr \<Rightarrow> bool" where
  "path_inside base rel \<longleftrightarrow>
     0 \<notin> set rel \<and> take (length (resolve_path base)) (resolve_path (local_path base rel)) = resolve_path base"

definition tree_probe :: "io \<Rightarrow> ltree \<Rightarrow> path \<Rightarrow> tree" where
  "tree_probe io L base parts =
     (if \<not> io_lstat io (base @ parts) then StatError
      else (case map_of L (base @ parts) of
              None \<Rightarrow> Missing
            | Some (LFile d t) \<Rightarrow> Reg
            | Some LDir \<Rightarrow> Dir
            | Some (LLink d) \<Rightarrow> Link))"

definition has_symlinked_component :: "io \<Rightarrow> ltree \<Rightarrow> path \<Rightarrow> pystr \<Rightarrow> bool" where
  "has_symlinked_component io L base rel \<longleftrightarrow>
     \<not> startswith rel [47] \<and> path_has_descendant_symlink False (tree_probe io L base) rel \<noteq> Inr False"

text \<open>What the loop does before the apply: the plaintext, or the outcome that ends it here.\<close>

datatype download_out = Plain bytes nat | Ends apply_outcome | Raises

definition download :: "apply_env \<Rightarrow> pystr \<Rightarrow> file_info \<Rightarrow> download_out" where
  "download env device_id info =
     (case blob_key device_id (JStr (fi_sha256 info)) of
        Inl _ \<Rightarrow> Ends Failed
      | Inr key \<Rightarrow>
          (case ae_fetch env key of
             Inl (NotFound _) \<Rightarrow> Ends Waiting
           | Inl _ \<Rightarrow> Ends Failed
           | Inr enc \<Rightarrow>
               (case ae_decrypt env enc of
                  Inl Untranslated \<Rightarrow> Raises
                | Inl _ \<Rightarrow> Ends Failed
                | Inr plain \<Rightarrow> Plain plain (length enc))))"

definition ledger :: "apply_outcome \<Rightarrow> pystr \<Rightarrow> apply_state \<Rightarrow> apply_state" where
  "ledger out rel s = s\<lparr>st_rep := add_outcome out rel (st_rep s)\<rparr>"

definition checked_apply ::
  "apply_env \<Rightarrow> path \<Rightarrow> pystr \<Rightarrow> pystr \<Rightarrow> file_info \<Rightarrow> bytes \<Rightarrow> apply_state \<Rightarrow> apply_exc option \<times> apply_state" where
  "checked_apply env base device_id rel info plain s =
     (if has_symlinked_component (ae_io env) (st_tree s) base rel then (None, ledger Skipped rel s)
      else if \<not> path_inside base rel then (None, ledger Failed rel s)
      else if ae_sha env plain \<noteq> fi_sha256 info then (None, ledger Failed rel s)
      else
        (let p = local_path base rel; resolved = resolve_path p;
             s = s\<lparr>st_rep := begin_file rel p resolved (st_rep s)\<rparr>
         in case apply_incoming_file env p resolved rel plain info device_id s of
              (Inr out, s) \<Rightarrow> (case finish out s of (Inl e, s) \<Rightarrow> (Some e, s) | (Inr _, s) \<Rightarrow> (None, s))
            | (Inl OSRaised, s) \<Rightarrow>
                (if rp_recorded (st_rep s) = None then
                   (case finish Failed s of (Inl e, s) \<Rightarrow> (Some e, s) | (Inr _, s) \<Rightarrow> (None, s))
                 else (None, s))
            | (Inl e, s) \<Rightarrow> (Some e, s)))"

definition download_step ::
  "apply_env \<Rightarrow> path \<Rightarrow> pystr \<Rightarrow> pystr \<times> file_info \<Rightarrow> apply_state \<Rightarrow> apply_exc option \<times> apply_state" where
  "download_step env base device_id e s =
     (case e of (rel, info) \<Rightarrow>
        (case download env device_id info of
           Ends out \<Rightarrow> (None, ledger out rel s)
         | Raises \<Rightarrow> (Some Escaped, s)
         | Plain plain n \<Rightarrow>
             checked_apply env base device_id rel info plain
               (s\<lparr>st_rep := (st_rep s)\<lparr>rp_bytes := rp_bytes (st_rep s) + n\<rparr>\<rparr>)))"

fun download_and_apply ::
  "apply_env \<Rightarrow> path \<Rightarrow> pystr \<Rightarrow> files \<Rightarrow> apply_state \<Rightarrow> apply_exc option \<times> apply_state" where
  "download_and_apply env base device_id [] s = (None, s)"
| "download_and_apply env base device_id (e # es) s =
     (case download_step env base device_id e s of
        (Some exc, s') \<Rightarrow> (Some exc, s')
      | (None, s') \<Rightarrow> download_and_apply env base device_id es s')"

section \<open>One source of one peer\<close>

definition MM_INTERNAL_SOURCE_NAMES :: "pystr list" where
  "MM_INTERNAL_SOURCE_NAMES = [u ''mm-events'']"

text \<open>What the local disk holds of the peer's paths, for the comparison.\<close>

definition local_files :: "apply_env \<Rightarrow> path \<Rightarrow> ltree \<Rightarrow> files \<Rightarrow> files" where
  "local_files env base L remote =
     List.map_filter (\<lambda>(rel, info).
       (let p = local_path base rel in
        if \<not> io_stat (ae_io env) p then None
        else map_option (\<lambda>h. (rel, \<lparr>fi_sha256 = h, fi_mtime = None, fi_rest = []\<rparr>)) (local_hash env L p))) remote"

definition to_download :: "apply_env \<Rightarrow> path \<Rightarrow> pystr \<Rightarrow> tombstones \<Rightarrow> ltree \<Rightarrow> files \<Rightarrow> files" where
  "to_download env base src_name tombs L remote =
     (let diff = diff_files remote (Some (local_files env base L remote))
      in filter (\<lambda>(rel, info). \<not> is_tombstoned src_name rel tombs) (d_new diff @ d_modified diff))"

text \<open>The folder of the events source: only the default one is created.\<close>

definition bootstrap_mm_events_path :: "apply_env \<Rightarrow> path \<Rightarrow> apply_state \<Rightarrow> bool \<times> apply_state" where
  "bootstrap_mm_events_path env base s =
     (if base \<noteq> ae_events_root env then (dir_at (st_tree s) base, s)
      else if is_link (st_tree s) base then (True, s)
      else ensure_parent (ae_io env) base s)"

definition pull_one_source ::
  "apply_env \<Rightarrow> path \<Rightarrow> pystr \<Rightarrow> tombstones \<Rightarrow> pystr \<Rightarrow> files \<Rightarrow> apply_state \<Rightarrow> apply_exc option \<times> apply_state" where
  "pull_one_source env base src_name tombs device_id remote s =
     (let wanted = to_download env base src_name tombs (st_tree s) remote
      in if wanted = [] then (None, s)
         else if src_name \<in> set MM_INTERNAL_SOURCE_NAMES then
           (case bootstrap_mm_events_path env base s of
              (False, s) \<Rightarrow> (None, fold (\<lambda>(rel, info). ledger Failed rel) wanted s)
            | (True, s) \<Rightarrow> download_and_apply env base device_id wanted s)
         else download_and_apply env base device_id wanted s)"

section \<open>Deferred bumps\<close>

definition bumped_mtime :: "int \<Rightarrow> int \<Rightarrow> int" where
  "bumped_mtime now peer_mtime = min (max now (peer_mtime + 1000000)) (now + MTIME_RESTORE_MAX_SKEW)"

definition bump_canonical_mtime_post_resolve :: "apply_env \<Rightarrow> path \<times> int \<Rightarrow> ltree \<Rightarrow> ltree" where
  "bump_canonical_mtime_post_resolve env e L =
     (case e of (p, peer) \<Rightarrow>
        (case map_of L p of
           Some (LFile d t) \<Rightarrow>
             (if io_utime (ae_io env) p then AList.update p (LFile d (bumped_mtime (ae_now env) peer)) L else L)
         | _ \<Rightarrow> L))"

definition drain_inline_bumps :: "apply_env \<Rightarrow> apply_state \<Rightarrow> ltree" where
  "drain_inline_bumps env s =
     (case rp_pending (st_rep s) of
        None \<Rightarrow> st_tree s
      | Some pending \<Rightarrow> fold (bump_canonical_mtime_post_resolve env) pending (st_tree s))"

section \<open>One step of the loop\<close>

text \<open>What one entry of the download list does for the outcome it is entered under: nothing, or the
  effect of applying checked bytes.\<close>

definition step_effect ::
  "apply_env \<Rightarrow> path \<Rightarrow> pystr \<Rightarrow> pystr \<Rightarrow> file_info \<Rightarrow> apply_outcome \<Rightarrow> ltree \<Rightarrow> ltree \<Rightarrow> bool" where
  "step_effect env base dev rel info out L L' \<longleftrightarrow>
     (L' = L \<and> (out = Failed \<or> (out = Waiting \<and> download env dev info = Ends Waiting) \<or>
        (out = Skipped \<and> has_symlinked_component (ae_io env) L base rel))) \<or>
     (\<exists>data n. download env dev info = Plain data n \<and> ae_sha env data = fi_sha256 info \<and>
        path_inside base rel \<and> \<not> has_symlinked_component (ae_io env) L base rel \<and>
        others_kept env rel (local_path base rel) dev data out L L' \<and>
        own_effect env (local_path base rel) rel dev data info L L' out)"

definition entered :: "apply_outcome \<Rightarrow> pystr \<Rightarrow> reporter \<Rightarrow> reporter \<Rightarrow> bool" where
  "entered out rel r r' \<longleftrightarrow> rp_outcomes r' = (rp_outcomes r)(out := rp_outcomes r out @ [rel])"

lemma folders_others: "folders_made p L L' \<Longrightarrow> others_kept env rel p dev data out L L'"
  unfolding folders_made_def others_kept_def made_folder_def by blast

lemma finish_ledger:
  assumes "ledger_for out r (st_rep s)" "rp_recorded r = None"
  shows "\<exists>s'. finish out s = (Inr out, s') \<and> st_tree s' = st_tree s \<and> entered out (rp_rel r) r (st_rep s')"
  using assms(1) unfolding ledger_for_def
proof
  assume l: "same_ledger r (st_rep s)"
  with assms(2) have "rp_recorded (st_rep s) = None" by (simp add: same_ledger_def)
  from finish_fresh [OF this, of out] l show ?thesis by (auto simp: same_ledger_def entered_def)
next
  assume "rp_recorded (st_rep s) = Some out \<and> rp_rel (st_rep s) = rp_rel r \<and>
      rp_outcomes (st_rep s) = (rp_outcomes r)(out := rp_outcomes r out @ [rp_rel r])"
  then show ?thesis by (intro exI [of _ s]) (simp add: finish_def record_outcome_def entered_def)
qed

lemma checked_apply_ok:
  assumes run: "checked_apply env base dev rel info plain s = (x, s')"
    and d: "download env dev info = Plain plain n" and p: "local_path base rel \<noteq> []"
  shows "(x = None \<and> (\<exists>out. entered out rel (st_rep s) (st_rep s') \<and>
        step_effect env base dev rel info out (st_tree s) (st_tree s'))) \<or>
    (\<exists>e. x = Some e \<and> rp_outcomes (st_rep s') = rp_outcomes (st_rep s) \<and>
        folders_made (local_path base rel) (st_tree s) (st_tree s') \<and>
        ((e = Aborted \<and> ae_interactive env) \<or>
         (e = Escaped \<and> (\<exists>d. merge_file (ae_digits env) (ae_iter env) rel d plain = None))))"
proof -
  have skip: ?thesis if "x = None" "s' = ledger out rel s" "step_effect env base dev rel info out (st_tree s) (st_tree s)" for out
    using that by (intro disjI1) (auto simp: ledger_def entered_def add_outcome_def)
  let ?p = "local_path base rel"
  consider (link) "has_symlinked_component (ae_io env) (st_tree s) base rel"
    | (bad) "\<not> has_symlinked_component (ae_io env) (st_tree s) base rel" "\<not> path_inside base rel \<or> ae_sha env plain \<noteq> fi_sha256 info"
    | (go) "\<not> has_symlinked_component (ae_io env) (st_tree s) base rel" "path_inside base rel" "ae_sha env plain = fi_sha256 info"
    by blast
  then show ?thesis
  proof cases
    case link
    with run show ?thesis by (intro skip [of Skipped]) (auto simp: checked_apply_def step_effect_def)
  next
    case bad
    with run show ?thesis by (intro skip [of Failed]) (auto simp: checked_apply_def step_effect_def split: if_splits)
  next
    case go
    define s1 where "s1 = s\<lparr>st_rep := begin_file rel ?p (resolve_path ?p) (st_rep s)\<rparr>"
    have s1: "st_tree s1 = st_tree s" "rp_recorded (st_rep s1) = None" "rp_rel (st_rep s1) = rel"
      "rp_outcomes (st_rep s1) = rp_outcomes (st_rep s)" by (simp_all add: s1_def begin_file_def)
    have ent: "entered out (rp_rel (st_rep s1)) (st_rep s1) r \<Longrightarrow> entered out rel (st_rep s) r" for out r
      using s1 by (simp add: entered_def)
    obtain r s2 where ap: "apply_incoming_file env ?p (resolve_path ?p) rel plain info dev s1 = (r, s2)" by (metis prod.collapse)
    from apply_incoming_file_result [OF p s1(2), of env rel dev plain info "resolve_path ?p"] ap
    have res: "apply_result env ?p rel dev plain info s1 (r, s2)" by simp
    note run = run [unfolded checked_apply_def Let_def, folded s1_def, unfolded if_not_P [OF go(1)] ap]
    show ?thesis
    proof (cases r)
      case (Inr out)
      from res Inr have l: "ledger_for out (st_rep s1) (st_rep s2)" and
        eff: "others_kept env rel ?p dev plain out (st_tree s) (st_tree s2)" "own_effect env ?p rel dev plain info (st_tree s) (st_tree s2) out"
        by (auto simp: apply_result_def s1(1))
      from finish_ledger [OF l s1(2)] obtain s3 where f: "finish out s2 = (Inr out, s3)" "st_tree s3 = st_tree s2"
        "entered out (rp_rel (st_rep s1)) (st_rep s1) (st_rep s3)" by blast
      with run Inr go have x: "x = None" "s' = s3" by auto
      have "step_effect env base dev rel info out (st_tree s) (st_tree s')"
        unfolding step_effect_def x(2) f(2) using d go eff by blast
      with x ent [OF f(3)] show ?thesis by blast
    next
      case (Inl e)
      from res Inl have l: "same_ledger (st_rep s1) (st_rep s2)" and f: "folders_made ?p (st_tree s) (st_tree s2)"
        and e: "e = OSRaised \<or> (e = Aborted \<and> ae_interactive env) \<or>
           (e = Escaped \<and> (\<exists>d. merge_file (ae_digits env) (ae_iter env) rel d plain = None))"
        by (simp_all add: apply_result_def s1(1))
      show ?thesis
      proof (cases "e = OSRaised")
        case True
        have l2: "ledger_for Failed (st_rep s1) (st_rep s2)" "rp_recorded (st_rep s2) = None"
          using l s1(2) by (simp_all add: ledger_for_def same_ledger_def)
        from finish_ledger [OF l2(1) s1(2)] obtain s3 where g: "finish Failed s2 = (Inr Failed, s3)" "st_tree s3 = st_tree s2"
          "entered Failed (rp_rel (st_rep s1)) (st_rep s1) (st_rep s3)" by blast
        with run Inl True go l2(2) have x: "x = None" "s' = s3" by auto
        have "own_effect env ?p rel dev plain info (st_tree s) (st_tree s2) Failed" using folders_at [OF f] by simp
        with folders_others [OF f] d go have "step_effect env base dev rel info Failed (st_tree s) (st_tree s')"
          unfolding step_effect_def x(2) g(2) by blast
        with x ent [OF g(3)] show ?thesis by blast
      next
        case False
        with run Inl go have "x = Some e" "s' = s2" by (auto split: apply_exc.splits)
        with False e f l s1 show ?thesis by (auto simp: same_ledger_def)
      qed
    qed
  qed
qed

lemma download_step_ok:
  assumes run: "download_step env base dev (rel, info) s = (x, s')" and p: "local_path base rel \<noteq> []"
  shows "(x = None \<and> (\<exists>out. entered out rel (st_rep s) (st_rep s') \<and>
        step_effect env base dev rel info out (st_tree s) (st_tree s'))) \<or>
    (\<exists>e. x = Some e \<and> rp_outcomes (st_rep s') = rp_outcomes (st_rep s) \<and>
        folders_made (local_path base rel) (st_tree s) (st_tree s') \<and>
        ((e = Aborted \<and> ae_interactive env) \<or>
         (e = Escaped \<and> (download env dev info = Raises \<or>
            (\<exists>d plain. merge_file (ae_digits env) (ae_iter env) rel d plain = None)))))"
proof (cases "download env dev info")
  case (Plain plain n)
  with run have "checked_apply env base dev rel info plain
      (s\<lparr>st_rep := (st_rep s)\<lparr>rp_bytes := rp_bytes (st_rep s) + n\<rparr>\<rparr>) = (x, s')"
    by (simp add: download_step_def)
  from checked_apply_ok [OF this Plain p] show ?thesis by (auto simp: entered_def)
next
  case (Ends out)
  then have "out = Failed \<or> out = Waiting"
    by (auto simp: download_def split: sum.splits storage_error.splits crypto_error.splits)
  with Ends run show ?thesis
    by (intro disjI1) (auto simp: download_step_def ledger_def entered_def add_outcome_def step_effect_def)
next
  case Raises
  with run show ?thesis by (auto simp: download_step_def)
qed

section \<open>The whole loop\<close>

lemma merged_lines:
  assumes "set_order iter" "should_merge rel" "merge_file lim iter rel a b = Some m"
  shows "set (split_lines m) = set (split_lines a) \<union> set (split_lines b)"
  using line_union.merge_set [OF merge_file_union [OF assms(2), of lim]] assms(3)
  unfolding merge_order(3) [OF assms(1)] by blast

text \<open>An entry that was there stays, or is a file whose lines were merged into, or is an older copy
  that this peer's file left.\<close>

definition entry_kept :: "path \<Rightarrow> pystr \<Rightarrow> files \<Rightarrow> path \<Rightarrow> lentry \<Rightarrow> ltree \<Rightarrow> bool" where
  "entry_kept base dev files q e L' \<longleftrightarrow>
     map_of L' q = Some e \<or>
     (\<exists>d t d' t'. e = LFile d t \<and> map_of L' q = Some (LFile d' t') \<and> set (split_lines d) \<subseteq> set (split_lines d') \<and>
        (\<exists>rel info. (rel, info) \<in> set files \<and> q = local_path base rel \<and> should_merge rel)) \<or>
     ((\<exists>d t. e = LFile d t \<or> e = LLink (Some d)) \<and>
        (\<exists>rel info. (rel, info) \<in> set files \<and> replaceable (local_path base rel) (take 8 dev) q))"

lemma step_keeps:
  assumes "step_effect env base dev rel info out L L'" "(rel, info) \<in> set files" "\<not> ae_interactive env"
    "set_order (ae_iter env)" "map_of L q = Some e"
  shows "entry_kept base dev files q e L'"
proof (cases "L' = L")
  case True
  with assms(5) show ?thesis by (simp add: entry_kept_def)
next
  case False
  let ?p = "local_path base rel"
  from assms(1) False obtain data where oth: "others_kept env rel ?p dev data out L L'"
    and own: "own_effect env ?p rel dev data info L L' out" unfolding step_effect_def by blast
  show ?thesis
  proof (cases "q = ?p")
    case True
    show ?thesis
    proof (cases "out = Merged")
      case True
      with own \<open>q = ?p\<close> obtain d m t where m: "should_merge rel" "\<not> is_link L q" "content L q = Some d"
        "merge_file (ae_digits env) (ae_iter env) rel d data = Some m" "map_of L' q = Some (LFile m t)" by auto
      from m(2,3) assms(5) obtain t0 where "e = LFile d t0" by (cases e) (auto simp: is_link_def content_def)
      moreover have "set (split_lines d) \<subseteq> set (split_lines m)" using merged_lines [OF assms(4) m(1,4)] by blast
      ultimately show ?thesis using m(1,5) \<open>q = ?p\<close> assms(2) unfolding entry_kept_def by blast
    next
      case F: False
      have "map_of L' q = map_of L q" using own True F assms(3,5) by (cases out) auto
      with assms(5) show ?thesis by (simp add: entry_kept_def)
    qed
  next
    case False
    from oth [unfolded others_kept_def, THEN spec, THEN mp, OF False]
    consider "map_of L' q = map_of L q" | "made_folder L L' ?p q" | "saved_copy env rel ?p dev data L L' q"
      | "replaced_copy env rel ?p dev data L L' q" by (elim disjE conjE) iprover+
    then show ?thesis
    proof cases
      case 4
      then obtain d where d: "content L q = Some d" "replaceable ?p (take 8 dev) q" by (auto simp: replaced_copy_def)
      have "\<exists>d t. e = LFile d t \<or> e = LLink (Some d)" using d(1) assms(5) by (cases e) (auto simp: content_def)
      with d(2) assms(2) show ?thesis unfolding entry_kept_def by blast
    qed (use assms(5) in \<open>simp_all add: entry_kept_def made_folder_def saved_copy_def\<close>)
  qed
qed

lemma entry_kept_trans:
  assumes "entry_kept base dev files q e L1"
    "\<And>e1. map_of L1 q = Some e1 \<Longrightarrow> entry_kept base dev files q e1 L2"
  shows "entry_kept base dev files q e L2"
proof -
  from assms(1) [unfolded entry_kept_def]
  consider (same) "map_of L1 q = Some e"
    | (merged) d t d' t' where "e = LFile d t" "map_of L1 q = Some (LFile d' t')" "set (split_lines d) \<subseteq> set (split_lines d')"
        "\<exists>rel info. (rel, info) \<in> set files \<and> q = local_path base rel \<and> should_merge rel"
    | (old) "\<exists>d t. e = LFile d t \<or> e = LLink (Some d)"
        "\<exists>rel info. (rel, info) \<in> set files \<and> replaceable (local_path base rel) (take 8 dev) q"
    by (elim disjE exE conjE) blast+
  then show ?thesis
  proof cases
    case same
    then show ?thesis by (rule assms(2))
  next
    case merged
    from assms(2) [OF merged(2), unfolded entry_kept_def] show ?thesis
    proof (elim disjE)
      assume "map_of L2 q = Some (LFile d' t')"
      with merged show ?thesis unfolding entry_kept_def by blast
    next
      assume "\<exists>d1 t1 d2 t2. LFile d' t' = LFile d1 t1 \<and> map_of L2 q = Some (LFile d2 t2) \<and>
        set (split_lines d1) \<subseteq> set (split_lines d2) \<and>
        (\<exists>rel info. (rel, info) \<in> set files \<and> q = local_path base rel \<and> should_merge rel)"
      then obtain d2 t2 where "map_of L2 q = Some (LFile d2 t2)" "set (split_lines d') \<subseteq> set (split_lines d2)" by blast
      with merged show ?thesis unfolding entry_kept_def by blast
    next
      assume "(\<exists>d t. LFile d' t' = LFile d t \<or> LFile d' t' = LLink (Some d)) \<and>
        (\<exists>rel info. (rel, info) \<in> set files \<and> replaceable (local_path base rel) (take 8 dev) q)"
      with merged(1) show ?thesis unfolding entry_kept_def by blast
    qed
  next
    case old
    then show ?thesis unfolding entry_kept_def by blast
  qed
qed

lemma entry_kept_mono: "entry_kept base dev files q e L \<Longrightarrow> set files \<subseteq> set files' \<Longrightarrow> entry_kept base dev files' q e L"
  unfolding entry_kept_def by blast

lemma folders_keep: "folders_made p L L' \<Longrightarrow> map_of L q = Some e \<Longrightarrow> entry_kept base dev files q e L'"
  unfolding folders_made_def entry_kept_def by (metis option.distinct(1))

lemma download_keeps:
  assumes "download_and_apply env base dev files s = (x, s')" "\<not> ae_interactive env" "set_order (ae_iter env)"
    "\<forall>rel \<in> fst ` set files. local_path base rel \<noteq> []" "map_of (st_tree s) q = Some e"
  shows "entry_kept base dev files q e (st_tree s')"
  using assms(1,4,5)
proof (induction files arbitrary: s e)
  case Nil
  then show ?case by (simp add: entry_kept_def)
next
  case (Cons f fs)
  obtain rel info where f: "f = (rel, info)" by (cases f)
  obtain y s1 where st: "download_step env base dev (rel, info) s = (y, s1)" by (metis prod.collapse)
  have ne: "local_path base rel \<noteq> []" using Cons.prems(2) f by simp
  have mem: "(rel, info) \<in> set (f # fs)" by (simp add: f)
  from download_step_ok [OF st ne]
  consider (go) out where "y = None" "step_effect env base dev rel info out (st_tree s) (st_tree s1)"
    | (stop) e1 where "y = Some e1" "folders_made (local_path base rel) (st_tree s) (st_tree s1)" by blast
  then show ?case
  proof cases
    case go
    from Cons.prems(1) st f go(1) have run: "download_and_apply env base dev fs s1 = (x, s')" by simp
    show ?thesis
    proof (rule entry_kept_trans [OF step_keeps [OF go(2) mem assms(2,3) Cons.prems(3)]])
      fix e1 assume "map_of (st_tree s1) q = Some e1"
      from Cons.IH [OF run _ this] Cons.prems(2) have "entry_kept base dev fs q e1 (st_tree s')" by simp
      then show "entry_kept base dev (f # fs) q e1 (st_tree s')" by (rule entry_kept_mono) auto
    qed
  next
    case stop
    with Cons.prems(1) st f have "s' = s1" by simp
    with folders_keep [OF stop(2) Cons.prems(3)] show ?thesis by simp
  qed
qed

section \<open>Files do not interfere\<close>

text \<open>The peer's paths: separate files with ordinary names, the peer an ordinary device.\<close>

definition ordinary :: "path \<Rightarrow> bool" where
  "ordinary p \<longleftrightarrow> p \<noteq> [] \<and> \<not> is_conflict_filename (last p) \<and> \<not> startswith (py_suffix (last p)) CONFLICT_INFIX \<and>
     last p \<notin> {[], u ''.'', u ''..''}"

definition good_minting :: "apply_env \<Rightarrow> pystr \<Rightarrow> bool" where
  "good_minting env dev \<longleftrightarrow> plain_device dev \<and> (\<forall>rel. \<forall>r \<in> set (ae_rands env rel). is_hex4 r)"

definition owned_copy :: "path \<Rightarrow> path \<Rightarrow> bool" where
  "owned_copy p q \<longleftrightarrow> q \<noteq> [] \<and> butlast q = butlast p \<and> is_conflict_filename (last q) \<and> canonical_for_conflict (last q) = Some (last p)"

text \<open>What other files' steps keep of a path, of its copies and of links.\<close>

definition frame :: "path \<Rightarrow> ltree \<Rightarrow> ltree \<Rightarrow> bool" where
  "frame p L L' \<longleftrightarrow>
     (map_of L' p = map_of L p \<or> (map_of L p = None \<and> map_of L' p = Some LDir)) \<and>
     (\<forall>q r. owned_copy p q \<and> content L q = Some r \<longrightarrow> content L' q = Some r) \<and>
     (\<forall>q. is_link L' q \<longrightarrow> is_link L q)"

lemma frame_refl [simp]: "frame p L L"
  by (simp add: frame_def)

lemma frame_trans: "frame p L L1 \<Longrightarrow> frame p L1 L2 \<Longrightarrow> frame p L L2"
  unfolding frame_def by (elim conjE) (intro conjI; (metis)?)

lemma frame_content: "frame p L L' \<Longrightarrow> content L' p = content L p"
  by (auto simp: frame_def content_def)

lemma frame_newer: "frame p L L' \<Longrightarrow> local_newer env L' p ts = local_newer env L p ts"
  by (auto simp: frame_def local_newer_def local_mtime_def)

lemma saved_owned:
  assumes "saved_copy env rel p dev data L L' q" "ordinary p" "good_minting env dev"
  shows "owned_copy p q"
proof -
  from assms(1) obtain rand where q: "q = butlast p @ [minted_name (last p) dev (ae_civil env rel) rand]"
    and r: "\<forall>r. rand = Some r \<longrightarrow> r \<in> set (ae_rands env rel)" by (auto simp: saved_copy_def)
  from assms(2,3) have o: "plain_device dev" "\<not> startswith (py_suffix (last p)) CONFLICT_INFIX" "last p \<notin> {[], u ''.'', u ''..''}"
    by (simp_all add: ordinary_def good_minting_def)
  have h: "case rand of None \<Rightarrow> True | Some r \<Rightarrow> is_hex4 r"
    using r assms(3) by (auto simp: good_minting_def split: option.split)
  from minted_canonical [OF o(1) h o(2,3)] minted_is_conflict show ?thesis
    by (simp add: owned_copy_def q)
qed

lemma replaceable_owned: "replaceable p short q \<Longrightarrow> owned_copy p q"
  by (simp add: replaceable_def owned_copy_def)

lemma owned_unique: "owned_copy p q \<Longrightarrow> owned_copy p' q \<Longrightarrow> p \<noteq> [] \<Longrightarrow> p' \<noteq> [] \<Longrightarrow> p = p'"
  unfolding owned_copy_def by (metis append_butlast_last_id option.inject)

lemma owned_not_ordinary: "owned_copy p q \<Longrightarrow> \<not> ordinary q"
  by (simp add: owned_copy_def ordinary_def)

lemma own_links: "own_effect env p rel dev data info L L' out \<Longrightarrow> is_link L' p \<Longrightarrow> is_link L p"
  by (cases out) (auto simp: is_link_def)

lemma step_frame:
  assumes eff: "step_effect env base dev rel info out L L'" and o: "ordinary (local_path base rel)" "ordinary p"
    and gm: "good_minting env dev" and ne: "p \<noteq> local_path base rel"
  shows "frame p L L'"
proof (cases "L' = L")
  case False
  let ?p = "local_path base rel"
  from eff False obtain data where oth: "others_kept env rel ?p dev data out L L'"
    and own: "own_effect env ?p rel dev data info L L' out" unfolding step_effect_def by blast
  have at: "map_of L' q = map_of L q \<or> (map_of L q = None \<and> map_of L' q = Some LDir) \<or>
      saved_copy env rel ?p dev data L L' q \<or> replaced_copy env rel ?p dev data L L' q" if "q \<noteq> ?p" for q
    using oth [unfolded others_kept_def, THEN spec, THEN mp, OF that] unfolding made_folder_def by iprover
  have owned: "saved_copy env rel ?p dev data L L' q \<or> replaced_copy env rel ?p dev data L L' q \<Longrightarrow> owned_copy ?p q" for q
    using saved_owned [OF _ o(1) gm] replaceable_owned unfolding replaced_copy_def by blast
  have pp: "p \<noteq> []" "?p \<noteq> []" using o by (simp_all add: ordinary_def)
  have "map_of L' p = map_of L p \<or> (map_of L p = None \<and> map_of L' p = Some LDir)"
    using at [OF ne] owned [of p] owned_not_ordinary [of ?p p] o(2) by blast
  moreover have "content L' q = Some r" if q: "owned_copy p q" "content L q = Some r" for q r
  proof -
    have "q \<noteq> ?p" using owned_not_ordinary [OF q(1)] o(1) by blast
    note at = at [OF this]
    have "\<not> owned_copy ?p q" using owned_unique [OF q(1) _ pp] ne by blast
    with owned [of q] have "\<not> (saved_copy env rel ?p dev data L L' q \<or> replaced_copy env rel ?p dev data L L' q)" by iprover
    with at have "map_of L' q = map_of L q \<or> map_of L q = None" by iprover
    with q(2) show ?thesis by (auto simp: content_def)
  qed
  moreover have "is_link L q" if "is_link L' q" for q
  proof (cases "q = ?p")
    case True
    with own_links [OF own] that show ?thesis by simp
  next
    case False
    from at [OF False] that show ?thesis by (auto simp: is_link_def saved_copy_def replaced_copy_def)
  qed
  ultimately show ?thesis unfolding frame_def by blast
qed simp

section \<open>The ledger tells the truth\<close>

text \<open>What an outcome says of the disk before and after.\<close>

definition settled :: "apply_env \<Rightarrow> path \<Rightarrow> pystr \<Rightarrow> file_info \<Rightarrow> ltree \<Rightarrow> ltree \<Rightarrow> apply_outcome \<Rightarrow> bool" where
  "settled env base rel info L L' out \<longleftrightarrow>
     (let p = local_path base rel in
      case out of
        Written \<Rightarrow> content L p = None \<and> (\<exists>d. content L' p = Some d \<and> ae_sha env d = fi_sha256 info)
      | Merged \<Rightarrow> (\<exists>d r d'. content L p = Some d \<and> content L' p = Some d' \<and> ae_sha env r = fi_sha256 info \<and>
          set (split_lines d') = set (split_lines d) \<union> set (split_lines r))
      | MergedLcs \<Rightarrow> False
      | Unchanged \<Rightarrow> content L' p = content L p \<and> (\<exists>d. content L p = Some d \<and>
          (ae_sha env d = fi_sha256 info \<or>
           (\<exists>r. ae_sha env r = fi_sha256 info \<and> set (split_lines r) \<subseteq> set (split_lines d))))
      | Conflicted \<Rightarrow> content L' p = content L p \<and>
          (\<exists>q r. owned_copy p q \<and> content L' q = Some r \<and> ae_sha env r = fi_sha256 info)
      | Skipped \<Rightarrow> content L' p = content L p \<and> (local_newer env L p (fi_mtime info) \<or> is_link L p \<or>
          (\<exists>n \<le> length (path_parts rel). let q = base @ take n (path_parts rel) in is_link L q \<or> \<not> io_lstat (ae_io env) q))
      | Failed \<Rightarrow> content L' p = content L p
      | Waiting \<Rightarrow> content L' p = content L p)"

lemma link_below_link:
  "link_below False (tree_probe io L base) upper parts \<noteq> Inr False \<Longrightarrow>
     \<exists>n \<le> length parts. let q = base @ upper @ take n parts in is_link L q \<or> \<not> io_lstat io q"
proof (induction parts arbitrary: upper)
  case (Cons part parts)
  let ?q = "base @ upper @ [part]"
  show ?case
  proof (cases "is_link L ?q \<or> \<not> io_lstat io ?q")
    case True
    then show ?thesis by (intro exI [of _ 1]) (simp add: Let_def)
  next
    case False
    then have "tree_probe io L base (upper @ [part]) \<in> {Missing, Reg, Dir}"
      by (auto simp: tree_probe_def is_link_def split: option.splits lentry.splits)
    with Cons.prems have "link_below False (tree_probe io L base) (upper @ [part]) parts \<noteq> Inr False" by auto
    from Cons.IH [OF this] obtain n where "n \<le> length parts"
      "let q = base @ (upper @ [part]) @ take n parts in is_link L q \<or> \<not> io_lstat io q" by blast
    then show ?thesis by (intro exI [of _ "Suc n"]) simp
  qed
qed simp

lemma symlinked_link:
  "has_symlinked_component io L base rel \<Longrightarrow>
     \<exists>n \<le> length (path_parts rel). let q = base @ take n (path_parts rel) in is_link L q \<or> \<not> io_lstat io q"
  using link_below_link [of io L base "[]" "path_parts rel"]
  by (simp add: has_symlinked_component_def path_has_descendant_symlink_def)

lemma step_settled:
  assumes eff: "step_effect env base dev rel info out L L'" and ni: "\<not> ae_interactive env"
    and it: "set_order (ae_iter env)" and o: "ordinary (local_path base rel)" and gm: "good_minting env dev"
  shows "settled env base rel info L L' out"
  using eff unfolding step_effect_def
proof (elim disjE exE conjE)
  let ?p = "local_path base rel"
  fix data
  assume sha: "ae_sha env data = fi_sha256 info" and own: "own_effect env ?p rel dev data info L L' out"
  show ?thesis
  proof (cases out)
    case Merged
    with own obtain d m t where m: "should_merge rel" "content L ?p = Some d"
        "merge_file (ae_digits env) (ae_iter env) rel d data = Some m" "map_of L' ?p = Some (LFile m t)" by auto
    from merged_lines [OF it m(1,3)] m sha Merged show ?thesis by (auto simp: settled_def content_def)
  next
    case Unchanged
    with own obtain d where d: "map_of L' ?p = map_of L ?p" "content L ?p = Some d"
      "ae_sha env d = fi_sha256 info \<or> (should_merge rel \<and> merge_file (ae_digits env) (ae_iter env) rel d data = Some d)" by auto
    have "ae_sha env d = fi_sha256 info \<or> set (split_lines data) \<subseteq> set (split_lines d)"
      using d(3) merged_lines [OF it, of rel "ae_digits env" d data d] by blast
    with d(1,2) sha Unchanged show ?thesis by (auto simp: settled_def content_def)
  next
    case Conflicted
    with own obtain q where q: "map_of L' ?p = map_of L ?p" "content L' q = Some data"
      "saved_copy env rel ?p dev data L L' q \<or> replaceable ?p (take 8 dev) q" by auto
    have "owned_copy ?p q" using q(3) saved_owned [OF _ o gm] replaceable_owned by blast
    with q(1,2) sha Conflicted show ?thesis by (auto simp: settled_def content_def)
  qed (use own sha ni in \<open>auto simp: settled_def content_def\<close>)
qed (use symlinked_link [of "ae_io env" L base rel] in \<open>auto simp: settled_def\<close>)

lemma settled_later:
  assumes "settled env base rel info L L1 out" "frame (local_path base rel) L1 L2"
  shows "settled env base rel info L L2 out"
proof (cases out)
  case Conflicted
  with assms(1) obtain q r where q: "content L1 (local_path base rel) = content L (local_path base rel)"
    "owned_copy (local_path base rel) q" "content L1 q = Some r" "ae_sha env r = fi_sha256 info"
    by (auto simp: settled_def Let_def)
  from assms(2) q(2,3) have "content L2 q = Some r" unfolding frame_def by blast
  with q frame_content [OF assms(2)] Conflicted show ?thesis by (auto simp: settled_def Let_def)
qed (use assms(1) frame_content [OF assms(2)] in \<open>simp_all add: settled_def Let_def\<close>)

lemma settled_earlier:
  assumes "settled env base rel info L1 L2 out" "frame (local_path base rel) L L1"
  shows "settled env base rel info L L2 out"
proof (cases out)
  case Skipped
  have l: "is_link L1 q \<Longrightarrow> is_link L q" for q using assms(2) by (simp add: frame_def)
  from assms(1) Skipped show ?thesis
    using l frame_content [OF assms(2)] frame_newer [OF assms(2), of env "fi_mtime info"]
    by (auto simp: settled_def Let_def)
qed (use assms(1) frame_content [OF assms(2)] in \<open>simp_all add: settled_def Let_def\<close>)

text \<open>The paths of a download list, and the ledger of a list of outcomes.\<close>

definition good_list :: "path \<Rightarrow> files \<Rightarrow> bool" where
  "good_list base files \<longleftrightarrow>
     distinct (map (local_path base \<circ> fst) files) \<and> (\<forall>e \<in> set files. ordinary (local_path base (fst e)))"

definition outcome_paths :: "files \<Rightarrow> apply_outcome list \<Rightarrow> apply_outcome \<Rightarrow> pystr list" where
  "outcome_paths files outs out = map (fst \<circ> fst) (filter (\<lambda>x. snd x = out) (zip files outs))"

lemma outcome_paths_Cons:
  "outcome_paths (e # es) (o1 # outs) out = (if o1 = out then [fst e] else []) @ outcome_paths es outs out"
  by (simp add: outcome_paths_def)

lemma merge_total: "set_order iter \<Longrightarrow> merge_file lim iter rel a b \<noteq> None"
  using line_union.merge_total [OF merge_file_union, of rel lim a b]
  unfolding merge_order(3) by (cases "should_merge rel") (auto simp: should_merge_def merge_file_def)

lemma download_settles:
  assumes "download_and_apply env base dev files s = (x, s')" "good_list base files"
    and ni: "\<not> ae_interactive env" and it: "set_order (ae_iter env)" and gm: "good_minting env dev"
    and dec: "\<forall>enc. ae_decrypt env enc \<noteq> Inl Untranslated"
  shows "x = None \<and> (\<exists>outs. length outs = length files \<and>
      (\<forall>out. rp_outcomes (st_rep s') out = rp_outcomes (st_rep s) out @ outcome_paths files outs out) \<and>
      list_all2 (\<lambda>e out. settled env base (fst e) (snd e) (st_tree s) (st_tree s') out) files outs) \<and>
    (\<forall>p. ordinary p \<and> p \<notin> local_path base ` fst ` set files \<longrightarrow> frame p (st_tree s) (st_tree s'))"
  using assms(1,2)
proof (induction files arbitrary: s)
  case Nil
  then show ?case by (auto simp: outcome_paths_def intro!: exI [of _ "[]"])
next
  case (Cons f fs)
  obtain rel info where f: "f = (rel, info)" by (cases f)
  let ?p = "local_path base rel"
  obtain y s1 where st: "download_step env base dev (rel, info) s = (y, s1)" by (metis prod.collapse)
  have o: "ordinary ?p" and gl: "good_list base fs" and fresh: "?p \<notin> local_path base ` fst ` set fs"
    and ords: "\<And>e. e \<in> set fs \<Longrightarrow> ordinary (local_path base (fst e))"
    using Cons.prems(2) by (auto simp: good_list_def f image_image)
  have "download env dev info \<noteq> Raises"
    using dec by (auto simp: download_def split: sum.splits storage_error.splits crypto_error.splits)
  with download_step_ok [OF st] o merge_total [OF it] ni obtain out where
    y: "y = None" and ent: "entered out rel (st_rep s) (st_rep s1)"
    and eff: "step_effect env base dev rel info out (st_tree s) (st_tree s1)" by (auto simp: ordinary_def)
  from Cons.prems(1) st f y have run: "download_and_apply env base dev fs s1 = (x, s')" by simp
  from Cons.IH [OF run gl] obtain outs where x: "x = None" and outs: "length outs = length fs"
    "\<And>o1. rp_outcomes (st_rep s') o1 = rp_outcomes (st_rep s1) o1 @ outcome_paths fs outs o1"
    "list_all2 (\<lambda>e out. settled env base (fst e) (snd e) (st_tree s1) (st_tree s') out) fs outs"
    and fr: "\<And>p. ordinary p \<Longrightarrow> p \<notin> local_path base ` fst ` set fs \<Longrightarrow> frame p (st_tree s1) (st_tree s')" by blast
  have sf: "frame p (st_tree s) (st_tree s1)" if "ordinary p" "p \<noteq> ?p" for p
    by (rule step_frame [OF eff o that(1) gm that(2)])
  have "settled env base rel info (st_tree s) (st_tree s') out"
    by (rule settled_later [OF step_settled [OF eff ni it o gm] fr [OF o fresh]])
  moreover have "list_all2 (\<lambda>e out. settled env base (fst e) (snd e) (st_tree s) (st_tree s') out) fs outs"
  proof (rule list.rel_mono_strong [OF outs(3)])
    fix e o1 assume e: "e \<in> set fs" "settled env base (fst e) (snd e) (st_tree s1) (st_tree s') o1"
    have "local_path base (fst e) \<noteq> ?p" using fresh e(1) by (metis imageI)
    from settled_earlier [OF e(2) sf [OF ords [OF e(1)] this]]
    show "settled env base (fst e) (snd e) (st_tree s) (st_tree s') o1" .
  qed
  moreover have "frame p (st_tree s) (st_tree s')" if "ordinary p" "p \<notin> local_path base ` fst ` set (f # fs)" for p
    using frame_trans [OF sf [OF that(1)] fr [OF that(1)]] that(2) by (simp add: f)
  ultimately show ?case using x outs(1,2) ent
    by (intro conjI exI [of _ "out # outs"]) (auto simp: f outcome_paths_Cons entered_def)
qed

section \<open>The download list of a source\<close>

lemma local_files_at:
  "map_of (local_files env base L remote) rel =
     (if map_of remote rel = None \<or> \<not> io_stat (ae_io env) (local_path base rel) then None
      else map_option (\<lambda>h. \<lparr>fi_sha256 = h, fi_mtime = None, fi_rest = []\<rparr>) (local_hash env L (local_path base rel)))"
proof (induction remote)
  case (Cons e es)
  obtain r i where e: "e = (r, i)" by (cases e)
  define g where "g = (if io_stat (ae_io env) (local_path base r)
     then map_option (\<lambda>h. (r, \<lparr>fi_sha256 = h, fi_mtime = None, fi_rest = []\<rparr>)) (local_hash env L (local_path base r)) else None)"
  have "local_files env base L (e # es) = (case g of None \<Rightarrow> [] | Some y \<Rightarrow> [y]) @ local_files env base L es"
    by (simp add: local_files_def List.map_filter_simps e g_def Let_def split: option.split)
  with Cons.IH show ?case by (auto simp: e g_def split: option.splits if_splits)
qed (simp add: local_files_def List.map_filter_simps)

lemma to_download_mem:
  assumes "distinct_keys remote"
  shows "e \<in> set (to_download env base name tombs L remote) \<longleftrightarrow>
    e \<in> set remote \<and> \<not> is_tombstoned name (fst e) tombs \<and>
    (\<not> io_stat (ae_io env) (local_path base (fst e)) \<or>
     local_hash env L (local_path base (fst e)) \<noteq> Some (fi_sha256 (snd e)))"
proof -
  obtain rel info where e: "e = (rel, info)" by (cases e)
  have "e \<in> set remote \<Longrightarrow> map_of remote rel \<noteq> None" by (metis e map_of_eq_None_iff imageI fst_conv)
  then show ?thesis
    by (cases "local_hash env L (local_path base rel)")
      (auto simp: e to_download_def Let_def diff_files_eq [OF assms] local_files_at split: if_splits)
qed

lemma distinct_remote: "good_list base remote \<Longrightarrow> distinct_keys remote"
  by (auto simp: good_list_def distinct_keys_def distinct_map intro: inj_on_imageI2)

lemma to_download_good:
  assumes "good_list base remote"
  shows "good_list base (to_download env base name tombs L remote)"
proof -
  let ?l = "local_files env base L remote"
  have dk: "distinct_keys remote" by (rule distinct_remote [OF assms])
  have d: "distinct remote" "inj_on (local_path base \<circ> fst) (set remote)" "\<forall>e \<in> set remote. ordinary (local_path base (fst e))"
    using assms by (auto simp: good_list_def distinct_map)
  have sub: "set (to_download env base name tombs L remote) \<subseteq> set remote"
    using to_download_mem [OF dk, of _ env base name tombs L] by blast
  have "distinct (to_download env base name tombs L remote)"
    unfolding to_download_def Let_def diff_files_eq [OF dk]
    using d(1) by (auto simp: dict_filter_def)
  with inj_on_subset [OF d(2) sub] d(3) sub show ?thesis by (auto simp: good_list_def distinct_map)
qed

lemma fold_ledger:
  "rp_outcomes (st_rep (fold (\<lambda>(rel, info). ledger out rel) files s)) o1 =
     rp_outcomes (st_rep s) o1 @ (if o1 = out then map fst files else []) \<and>
   st_tree (fold (\<lambda>(rel, info). ledger out rel) files s) = st_tree s"
  by (induction files arbitrary: s) (auto simp: ledger_def add_outcome_def)

lemma bootstrap_folders:
  assumes "bootstrap_mm_events_path env base s = (b, s1)" "base \<noteq> []"
  shows "same_ledger (st_rep s) (st_rep s1) \<and>
    (\<forall>q. map_of (st_tree s1) q = map_of (st_tree s) q \<or> (map_of (st_tree s) q = None \<and> map_of (st_tree s1) q = Some LDir))"
proof (cases "base \<noteq> ae_events_root env \<or> is_link (st_tree s) base")
  case True
  with assms(1) show ?thesis by (auto simp: bootstrap_mm_events_path_def split: if_splits)
next
  case False
  with assms(1) have "ensure_parent (ae_io env) (butlast (base @ [[]])) s = (b, s1)"
    by (simp add: bootstrap_mm_events_path_def)
  from ensure_parent_ok [OF this] show ?thesis unfolding folders_made_def by auto
qed

lemma folders_frame:
  assumes "\<forall>q. map_of L1 q = map_of L q \<or> (map_of L q = None \<and> map_of L1 q = Some LDir)"
  shows "frame p L L1" "content L1 q = content L q" "map_of L q = Some e \<Longrightarrow> map_of L1 q = Some e"
proof -
  have a: "map_of L1 q = map_of L q \<or> (map_of L q = None \<and> map_of L1 q = Some LDir)" for q using assms by blast
  show c: "content L1 q = content L q" for q using a [of q] by (auto simp: content_def)
  have "is_link L1 q \<Longrightarrow> is_link L q" for q using a [of q] by (auto simp: is_link_def)
  with a [of p] c show "frame p L L1" by (auto simp: frame_def)
  show "map_of L q = Some e \<Longrightarrow> map_of L1 q = Some e" using a [of q] by auto
qed

text \<open>The cases of a pull of one source.\<close>

lemma pull_one_source_cases:
  assumes "pull_one_source env base name tombs dev remote s = (x, s')" "base \<noteq> []"
  obtains (refused) s1 where "x = None"
      "s' = fold (\<lambda>(rel, info). ledger Failed rel) (to_download env base name tombs (st_tree s) remote) s1"
      "same_ledger (st_rep s) (st_rep s1)"
      "\<forall>q. map_of (st_tree s1) q = map_of (st_tree s) q \<or> (map_of (st_tree s) q = None \<and> map_of (st_tree s1) q = Some LDir)"
  | (run) s1 where "download_and_apply env base dev (to_download env base name tombs (st_tree s) remote) s1 = (x, s')"
      "same_ledger (st_rep s) (st_rep s1)"
      "\<forall>q. map_of (st_tree s1) q = map_of (st_tree s) q \<or> (map_of (st_tree s) q = None \<and> map_of (st_tree s1) q = Some LDir)"
proof -
  let ?w = "to_download env base name tombs (st_tree s) remote"
  consider (none) "?w = []" | (internal) "?w \<noteq> []" "name \<in> set MM_INTERNAL_SOURCE_NAMES"
    | (plain) "?w \<noteq> []" "name \<notin> set MM_INTERNAL_SOURCE_NAMES" by blast
  then show ?thesis
  proof cases
    case none
    with assms(1) show ?thesis by (intro run [of s]) (simp_all add: pull_one_source_def)
  next
    case internal
    obtain b s1 where b: "bootstrap_mm_events_path env base s = (b, s1)" by (metis prod.collapse)
    note bs = bootstrap_folders [OF b assms(2)]
    show ?thesis
    proof (cases b)
      case True
      with internal assms(1) b bs show ?thesis by (intro run [of s1]) (simp_all add: pull_one_source_def)
    next
      case False
      with internal assms(1) b bs show ?thesis by (intro refused [of s1]) (simp_all add: pull_one_source_def)
    qed
  next
    case plain
    with assms(1) show ?thesis by (intro run [of s]) (simp_all add: pull_one_source_def)
  qed
qed

text \<open>Where new content comes from.\<close>

definition written_for :: "path \<Rightarrow> files \<Rightarrow> path \<Rightarrow> bool" where
  "written_for base files q \<longleftrightarrow>
     (\<exists>rel info. (rel, info) \<in> set files \<and>
        (q = local_path base rel \<or> (butlast q = butlast (local_path base rel) \<and> is_conflict_filename (last q))))"

lemma step_new:
  assumes "step_effect env base dev rel info out L L'" "(rel, info) \<in> set files" "content L q = None" "content L' q \<noteq> None"
  shows "written_for base files q"
proof (cases "q = local_path base rel \<or> L' = L")
  case True
  with assms show ?thesis unfolding written_for_def by metis
next
  case False
  with assms(1) obtain data where "others_kept env rel (local_path base rel) dev data out L L'"
    unfolding step_effect_def by blast
  from this [unfolded others_kept_def, THEN spec, THEN mp, of q] False assms(3,4)
  have "saved_copy env rel (local_path base rel) dev data L L' q"
    by (auto simp: content_def made_folder_def replaced_copy_def)
  then have "butlast q = butlast (local_path base rel) \<and> is_conflict_filename (last q)"
    using minted_is_conflict by (auto simp: saved_copy_def)
  with assms(2) show ?thesis unfolding written_for_def by blast
qed

lemma download_new:
  assumes "download_and_apply env base dev files s = (x, s')" "\<forall>rel \<in> fst ` set files. local_path base rel \<noteq> []"
    "content (st_tree s) q = None" "content (st_tree s') q \<noteq> None"
  shows "written_for base files q"
  using assms
proof (induction files arbitrary: s)
  case (Cons f fs)
  obtain rel info where f: "f = (rel, info)" by (cases f)
  obtain y s1 where st: "download_step env base dev (rel, info) s = (y, s1)" by (metis prod.collapse)
  have ne: "local_path base rel \<noteq> []" using Cons.prems(2) f by simp
  from download_step_ok [OF st ne]
  consider (go) out where "y = None" "step_effect env base dev rel info out (st_tree s) (st_tree s1)"
    | (stop) e1 where "y = Some e1" "folders_made (local_path base rel) (st_tree s) (st_tree s1)" by blast
  then show ?case
  proof cases
    case go
    from Cons.prems(1) st f go(1) have run: "download_and_apply env base dev fs s1 = (x, s')" by simp
    show ?thesis
    proof (cases "content (st_tree s1) q = None")
      case True
      from Cons.IH [OF run _ True Cons.prems(4)] Cons.prems(2) show ?thesis unfolding written_for_def by auto
    next
      case False
      from step_new [OF go(2) _ Cons.prems(3) False] f show ?thesis by simp
    qed
  next
    case stop
    with Cons.prems(1) st f have "s' = s1" by simp
    with stop(2) Cons.prems(3,4) have False
      using folders_content [OF stop(2), of q] by auto
    then show ?thesis ..
  qed
qed simp

section \<open>A source is pulled\<close>

lemma pull_one_source_keeps:
  assumes "pull_one_source env base name tombs dev remote s = (x, s')" "\<not> ae_interactive env" "set_order (ae_iter env)"
    "good_list base remote" "base \<noteq> []"
  shows "(\<forall>q e. map_of (st_tree s) q = Some e \<longrightarrow> entry_kept base dev remote q e (st_tree s')) \<and>
    (\<forall>q. content (st_tree s) q = None \<and> content (st_tree s') q \<noteq> None \<longrightarrow>
       written_for base (filter (\<lambda>(rel, info). \<not> is_tombstoned name rel tombs) remote) q)"
proof -
  let ?w = "to_download env base name tombs (st_tree s) remote"
  note mem = to_download_mem [OF distinct_remote [OF assms(4)], of _ env base name tombs "st_tree s"]
  have sub: "set ?w \<subseteq> set remote" "set ?w \<subseteq> set (filter (\<lambda>(rel, info). \<not> is_tombstoned name rel tombs) remote)"
    using mem by auto
  have ne: "\<forall>rel \<in> fst ` set ?w. local_path base rel \<noteq> []"
    using to_download_good [OF assms(4), of env name tombs "st_tree s"] by (auto simp: good_list_def ordinary_def)
  from assms(1,5) show ?thesis
  proof (cases rule: pull_one_source_cases)
    case (refused s1)
    have "st_tree s' = st_tree s1" using refused(2) fold_ledger [of Failed ?w s1 Failed] by simp
    with folders_frame(2,3) [OF refused(4)] show ?thesis by (auto simp: entry_kept_def)
  next
    case (run s1)
    have "entry_kept base dev remote q e (st_tree s')" if "map_of (st_tree s) q = Some e" for q e
      using entry_kept_mono [OF download_keeps [OF run(1) assms(2,3) ne folders_frame(3) [OF run(3) that]] sub(1)] .
    moreover have "written_for base (filter (\<lambda>(rel, info). \<not> is_tombstoned name rel tombs) remote) q"
      if "content (st_tree s) q = None" "content (st_tree s') q \<noteq> None" for q
    proof -
      have "content (st_tree s1) q = None" using that(1) folders_frame(2) [OF run(3)] by simp
      from download_new [OF run(1) ne this that(2)] sub(2) show ?thesis unfolding written_for_def by blast
    qed
    ultimately show ?thesis by blast
  qed
qed

section \<open>Properties\<close>


definition pull_sha :: "bytes \<Rightarrow> pystr" where
  "pull_sha d = replicate 64 (if d = [1] then 97 else if d = [2] then 98 else 99)"

definition pull_io :: io where
  "pull_io = \<lparr>io_stat = (\<lambda>_. True), io_lstat = (\<lambda>_. True), io_mkdir = (\<lambda>_. True), io_read = (\<lambda>_. True),
     io_write = (\<lambda>_. True), io_list = (\<lambda>_. True), io_unlink = (\<lambda>_. True), io_utime = (\<lambda>_. True), io_mtime = (\<lambda>_. True)\<rparr>"

definition pull_env :: apply_env where
  "pull_env = \<lparr>ae_io = pull_io, ae_sha = pull_sha, ae_fromiso = parse_iso, ae_now = EPOCH, ae_civil = (\<lambda>_. sample_time),
     ae_rands = (\<lambda>_. [u ''0f0f'']), ae_answer = (\<lambda>_. []), ae_lcs = (\<lambda>_ _. None), ae_interactive = False, ae_digits = 50,
     ae_iter = sorted_list_of_set,
     ae_fetch = (\<lambda>k. if contains k (replicate 64 97) then Inr [1] else if contains k (replicate 64 98) then Inr [2] else Inl (NotFound False)),
     ae_decrypt = Inr, ae_events_root = []\<rparr>"

definition pull_state :: apply_state where
  "pull_state = \<lparr>st_tree = [([], LDir), ([u ''src''], LDir), ([u ''src'', u ''b.md''], LFile [9] 5)],
     st_rep = \<lparr>rp_outcomes = empty_outcomes, rp_pending = None, rp_touched = [], rp_bytes = 0, rp_rel = [], rp_local = [],
       rp_resolved = [], rp_recorded = None\<rparr>\<rparr>"

definition pull_remote :: files where
  "pull_remote = [(u ''d/a.md'', \<lparr>fi_sha256 = replicate 64 97, fi_mtime = None, fi_rest = []\<rparr>),
     (u ''b.md'', \<lparr>fi_sha256 = replicate 64 98, fi_mtime = None, fi_rest = []\<rparr>),
     (u ''c.md'', \<lparr>fi_sha256 = replicate 64 99, fi_mtime = None, fi_rest = []\<rparr>)]"

definition pull_run :: "apply_exc option \<times> apply_state" where
  "pull_run = pull_one_source pull_env [u ''src''] (u ''claude'') [] (u ''abcd1234'') pull_remote pull_state"

lemma pull_run_hyps: "\<not> ae_interactive pull_env" "set_order (ae_iter pull_env)" "good_list [u ''src''] pull_remote" "[u ''src''] \<noteq> []"
  "good_minting pull_env (u ''abcd1234'')" "\<forall>enc. ae_decrypt pull_env enc \<noteq> Inl Untranslated"
  "rp_outcomes (st_rep pull_state) = empty_outcomes"
proof -
  show "set_order (ae_iter pull_env)" using set_order_sorted by (simp add: pull_env_def)
  show "good_list [u ''src''] pull_remote" unfolding good_list_def ordinary_def by code_simp
  show "good_minting pull_env (u ''abcd1234'')" unfolding good_minting_def pull_env_def by simp code_simp
qed (simp_all add: pull_env_def pull_state_def)


text \<open>C29. The outcomes a pull reports are true, file by file. Pulling a source of a peer ends without an
  exception; every published path is tombstoned, already held with the published bytes, or entered under
  exactly one outcome, and the disk before and after is what that outcome says: written files were
  absent and hash to the published digest; merged files hold exactly the lines of both sides; a
  conflict leaves the local file alone and the peer's verified bytes in a copy owned by the file; a file
  is skipped only for a newer local mtime or a link (or an unreadable path); a failure or a blob not
  yet delivered leaves the file as it was.\<close>

theorem pull_outcomes_true:
  assumes "pull_one_source env base name tombs dev remote s = (x, s')" "\<not> ae_interactive env" "set_order (ae_iter env)"
    "good_list base remote" "base \<noteq> []" "good_minting env dev" "\<forall>enc. ae_decrypt env enc \<noteq> Inl Untranslated"
    "rp_outcomes (st_rep s) = empty_outcomes"
  shows "x = None \<and> (\<exists>files outs. set files \<subseteq> set remote \<and> distinct files \<and>
     (\<forall>e \<in> set remote - set files. is_tombstoned name (fst e) tombs \<or>
        (\<exists>d. content (st_tree s) (local_path base (fst e)) = Some d \<and> ae_sha env d = fi_sha256 (snd e))) \<and>
     (\<forall>e \<in> set files. \<not> is_tombstoned name (fst e) tombs) \<and>
     length outs = length files \<and> rp_outcomes (st_rep s') = outcome_paths files outs \<and>
     list_all2 (\<lambda>e out. settled env base (fst e) (snd e) (st_tree s) (st_tree s') out) files outs)"
proof -
  let ?w = "to_download env base name tombs (st_tree s) remote"
  note mem = to_download_mem [OF distinct_remote [OF assms(4)], of _ env base name tombs "st_tree s"]
  have good: "good_list base ?w" by (rule to_download_good [OF assms(4)])
  have dw: "distinct ?w" using good by (simp add: good_list_def distinct_map)
  have rest: "is_tombstoned name (fst e) tombs \<or>
      (\<exists>d. content (st_tree s) (local_path base (fst e)) = Some d \<and> ae_sha env d = fi_sha256 (snd e))"
    if "e \<in> set remote - set ?w" for e
    using that mem [of e] by (auto simp: local_hash_def dest: read_file_content)
  have wt: "\<And>e. e \<in> set ?w \<Longrightarrow> e \<in> set remote \<and> \<not> is_tombstoned name (fst e) tombs" using mem by blast
  have goal: ?thesis if "x = None" "length outs = length ?w"
    "\<And>out. rp_outcomes (st_rep s') out = outcome_paths ?w outs out"
    "list_all2 (\<lambda>e out. settled env base (fst e) (snd e) (st_tree s) (st_tree s') out) ?w outs" for outs
  proof (intro conjI exI [of _ ?w] exI [of _ outs])
    show "rp_outcomes (st_rep s') = outcome_paths ?w outs" using that(3) by blast
  qed (use that dw rest wt in \<open>blast+\<close>)
  from assms(1,5) show ?thesis
  proof (cases rule: pull_one_source_cases)
    case (refused s1)
    have t: "st_tree s' = st_tree s1" "rp_outcomes (st_rep s') o1 = (if o1 = Failed then map fst ?w else [])" for o1
      using refused(2,3) fold_ledger [of Failed ?w s1 o1] assms(8) by (auto simp: same_ledger_def empty_outcomes_def)
    have z: "zip ?w (replicate (length ?w) Failed) = map (\<lambda>e. (e, Failed)) ?w"
      by (simp add: zip_replicate2 [symmetric] zip_replicate2)
    show ?thesis
    proof (rule goal [of "replicate (length ?w) Failed"])
      show "rp_outcomes (st_rep s') out = outcome_paths ?w (replicate (length ?w) Failed) out" for out
        unfolding t(2) outcome_paths_def z by (simp add: filter_map o_def)
      show "list_all2 (\<lambda>e out. settled env base (fst e) (snd e) (st_tree s) (st_tree s') out) ?w (replicate (length ?w) Failed)"
        unfolding t(1) list_all2_conv_all_nth using folders_frame(2) [OF refused(4)] by (simp add: settled_def Let_def)
    qed (use refused(1) in simp_all)
  next
    case (run s1)
    from download_settles [OF run(1) good assms(2,3,6,7)] obtain outs where
      x: "x = None" and outs: "length outs = length ?w"
        "\<And>out. rp_outcomes (st_rep s') out = rp_outcomes (st_rep s1) out @ outcome_paths ?w outs out"
        "list_all2 (\<lambda>e out. settled env base (fst e) (snd e) (st_tree s1) (st_tree s') out) ?w outs" by blast
    show ?thesis
    proof (rule goal [OF x outs(1)])
      show "rp_outcomes (st_rep s') out = outcome_paths ?w outs out" for out
        using outs(2) [of out] run(2) assms(8) by (simp add: same_ledger_def empty_outcomes_def)
      show "list_all2 (\<lambda>e out. settled env base (fst e) (snd e) (st_tree s) (st_tree s') out) ?w outs"
        by (rule list.rel_mono_strong [OF outs(3)]) (rule settled_earlier [OF _ folders_frame(1) [OF run(3)]])
    qed
  qed
qed

theorem pull_outcomes_true_witness:
  "rp_outcomes (st_rep (snd pull_run)) Written = [u ''d/a.md''] \<and>
   rp_outcomes (st_rep (snd pull_run)) Conflicted = [u ''b.md''] \<and>
   rp_outcomes (st_rep (snd pull_run)) Waiting = [u ''c.md''] \<and> fst pull_run = None \<and>
   (\<exists>files outs. rp_outcomes (st_rep (snd pull_run)) = outcome_paths files outs \<and>
      list_all2 (\<lambda>e out. settled pull_env [u ''src''] (fst e) (snd e) (st_tree pull_state) (st_tree (snd pull_run)) out) files outs)"
proof -
  have run: "pull_one_source pull_env [u ''src''] (u ''claude'') [] (u ''abcd1234'') pull_remote pull_state = (fst pull_run, snd pull_run)"
    by (simp add: pull_run_def)
  have "rp_outcomes (st_rep (snd pull_run)) Written = [u ''d/a.md'']"
    "rp_outcomes (st_rep (snd pull_run)) Conflicted = [u ''b.md'']"
    "rp_outcomes (st_rep (snd pull_run)) Waiting = [u ''c.md'']" by code_simp+
  with pull_outcomes_true [OF run pull_run_hyps] show ?thesis by blast
qed

end
