(* ===== verification/Planner.thy ===== *)
theory Planner
  imports Pull
begin

text \<open>
  The preview of a pull, \<open>pullplan.py\<close>: predictions for the files of the peers, in order, over virtual
  states of the local paths. The disk is only read; a state is taken from it the first time a path is
  looked at, and then advanced by what a real pull would do. The law compares the predictions with
  the outcomes of the real apply loop.
\<close>

section \<open>Virtual states\<close>

record local_state =
  ls_exists :: bool
  ls_dir :: bool
  ls_sha :: "pystr option"
  ls_mtime :: "int option"
  ls_hashed :: bool
  ls_unreadable :: bool

type_synonym states = "(path, local_state) dict"

definition no_state :: local_state where
  "no_state = \<lparr>ls_exists = False, ls_dir = False, ls_sha = None, ls_mtime = None, ls_hashed = False, ls_unreadable = False\<rparr>"

text \<open>\<open>path.stat()\<close> of the disk as it is.\<close>

definition stat_state :: "io \<Rightarrow> ltree \<Rightarrow> path \<Rightarrow> local_state" where
  "stat_state io L p =
     (if \<not> io_stat io p then no_state\<lparr>ls_exists := True, ls_unreadable := True\<rparr>
      else
        (case map_of L p of
           None \<Rightarrow> no_state
         | Some LDir \<Rightarrow> no_state\<lparr>ls_exists := True, ls_dir := True\<rparr>
         | Some (LFile d t) \<Rightarrow>
             no_state\<lparr>ls_exists := True, ls_mtime := (if io_mtime io p then Some t else None)\<rparr>
         | Some (LLink None) \<Rightarrow> no_state
         | Some (LLink (Some d)) \<Rightarrow> no_state\<lparr>ls_exists := True\<rparr>))"

definition planned_state :: "apply_env \<Rightarrow> ltree \<Rightarrow> states \<Rightarrow> path \<Rightarrow> local_state" where
  "planned_state env L states p = (case map_of states p of Some st \<Rightarrow> st | None \<Rightarrow> stat_state (ae_io env) L p)"

definition hashed_state :: "apply_env \<Rightarrow> ltree \<Rightarrow> path \<Rightarrow> local_state \<Rightarrow> local_state" where
  "hashed_state env L p st =
     (if ls_exists st \<and> \<not> ls_dir st \<and> \<not> ls_hashed st \<and> \<not> ls_unreadable st then
        (case local_hash env L p of
           None \<Rightarrow> st\<lparr>ls_hashed := True, ls_unreadable := True\<rparr>
         | Some h \<Rightarrow> st\<lparr>ls_hashed := True, ls_sha := Some h\<rparr>)
      else st)"

text \<open>\<open>_state\<close>: the state of a path, kept for later lookups.\<close>

definition look :: "apply_env \<Rightarrow> ltree \<Rightarrow> bool \<Rightarrow> path \<Rightarrow> states \<Rightarrow> local_state \<times> states" where
  "look env L hash_contents p states =
     (let st = planned_state env L states p;
          st = (if hash_contents then hashed_state env L p st else st)
      in (st, AList.update p st states))"

section \<open>One prediction\<close>

datatype prediction = PWrite | PMerge | PConflict | PUnchanged | PSkipLink | PSkipNewer | PCollision | PUnreadable

text \<open>\<open>path.parents\<close>, the nearest first, and the search for one that is not a folder.\<close>

definition parents :: "path \<Rightarrow> path list" where
  "parents p = rev (map (\<lambda>n. take n p) [0..<length p])"

fun blocked :: "apply_env \<Rightarrow> ltree \<Rightarrow> path list \<Rightarrow> states \<Rightarrow> bool \<times> states" where
  "blocked env L [] states = (False, states)"
| "blocked env L (q # qs) states =
     (case look env L False q states of
        (st, states) \<Rightarrow> if ls_exists st \<and> \<not> ls_dir st then (True, states) else blocked env L qs states)"

fun make_parents :: "apply_env \<Rightarrow> ltree \<Rightarrow> path list \<Rightarrow> states \<Rightarrow> states" where
  "make_parents env L [] states = states"
| "make_parents env L (q # qs) states =
     (case look env L False q states of
        (st, states) \<Rightarrow>
          make_parents env L qs
            (if ls_exists st then states else AList.update q (st\<lparr>ls_exists := True, ls_dir := True\<rparr>) states))"

definition planned_mtime :: "apply_env \<Rightarrow> pystr option \<Rightarrow> int option" where
  "planned_mtime env mtime_iso = Option.bind mtime_iso (mtime_from_manifest (ae_fromiso env))"

definition predict ::
  "apply_env \<Rightarrow> ltree \<Rightarrow> path \<Rightarrow> pystr \<Rightarrow> file_info \<Rightarrow> states \<Rightarrow> prediction \<times> states" where
  "predict env L base rel info states =
     (let p = local_path base rel; rm = planned_mtime env (fi_mtime info) in
      if has_symlinked_component (ae_io env) L base rel then (PSkipLink, states)
      else
        (case blocked env L (parents p) states of
           (True, states) \<Rightarrow> (PCollision, states)
         | (False, states) \<Rightarrow>
             (case look env L False p states of
                (st, states) \<Rightarrow>
                  if ls_dir st then (PCollision, states)
                  else
                    (case look env L True p states of
                       (st, states) \<Rightarrow>
                         if \<not> ls_exists st then
                           (PWrite, make_parents env L (parents p)
                              (AList.update p (st\<lparr>ls_exists := True, ls_hashed := True, ls_sha := Some (fi_sha256 info),
                                 ls_mtime := Some (min (case rm of None \<Rightarrow> ae_now env | Some r \<Rightarrow> r)
                                   (ae_now env + MTIME_RESTORE_MAX_SKEW))\<rparr>) states))
                         else if ls_unreadable st then (PUnreadable, states)
                         else if ls_sha st = Some (fi_sha256 info) then (PUnchanged, states)
                         else if should_merge rel then
                           (PMerge, AList.update p (st\<lparr>ls_sha := None, ls_mtime := Some (ae_now env)\<rparr>) states)
                         else
                           (case (rm, ls_mtime st) of
                              (Some r, Some l) \<Rightarrow> if l > r then (PSkipNewer, states) else (PConflict, states)
                            | _ \<Rightarrow> (PConflict, states))))))"

definition predict_pull_outcome :: "apply_env \<Rightarrow> ltree \<Rightarrow> path \<Rightarrow> pystr \<Rightarrow> file_info \<Rightarrow> prediction" where
  "predict_pull_outcome env L base rel info = fst (predict env L base rel info [])"

text \<open>The predictions of a list of files, and the counts shown.\<close>

fun predict_all :: "apply_env \<Rightarrow> ltree \<Rightarrow> path \<Rightarrow> files \<Rightarrow> states \<Rightarrow> prediction list \<times> states" where
  "predict_all env L base [] states = ([], states)"
| "predict_all env L base ((rel, info) # es) states =
     (case predict env L base rel info states of
        (pr, states) \<Rightarrow> (case predict_all env L base es states of (prs, states) \<Rightarrow> (pr # prs, states)))"

definition fail_mode_refusals :: "prediction list \<Rightarrow> prediction list" where
  "fail_mode_refusals prs = filter (\<lambda>pr. pr \<in> {PConflict, PCollision, PUnreadable}) prs"

section \<open>A healthy disk\<close>

definition healthy :: "io \<Rightarrow> bool" where
  "healthy io \<longleftrightarrow> (\<forall>p. io_stat io p \<and> io_lstat io p \<and> io_mkdir io p \<and> io_read io p \<and> io_write io p \<and> io_list io p \<and>
     io_unlink io p \<and> io_utime io p \<and> io_mtime io p)"

definition wf_tree :: "ltree \<Rightarrow> bool" where
  "wf_tree L \<longleftrightarrow> dir_at L [] \<and> (\<forall>p. p \<noteq> [] \<and> map_of L p \<noteq> None \<longrightarrow> dir_at L (butlast p))"

lemma wf_prefix: "wf_tree L \<Longrightarrow> map_of L p \<noteq> None \<Longrightarrow> n < length p \<Longrightarrow> dir_at L (take n p)"
proof (induction p rule: rev_induct)
  case (snoc x p)
  from snoc.prems have d: "dir_at L p" unfolding wf_tree_def by (metis butlast_snoc snoc_eq_iff_butlast)
  show ?case
  proof (cases "n = length p")
    case True
    with d show ?thesis by simp
  next
    case False
    with snoc.IH [OF snoc.prems(1)] d snoc.prems(3) show ?thesis by (simp add: dir_at_def)
  qed
qed simp

lemma wf_beyond:
  assumes "wf_tree L" "\<not> dir_at L (take n p)" "n < m" "m \<le> length p"
  shows "map_of L (take m p) = None"
proof (rule ccontr)
  assume "map_of L (take m p) \<noteq> None"
  moreover have "n < length (take m p)" "take n (take m p) = take n p" using assms(3,4) by (simp_all add: min_def)
  ultimately show False using wf_prefix [OF assms(1), of "take m p" n] assms(2) by simp
qed

lemma link_below_iff:
  assumes "wf_tree L" "healthy io"
  shows "link_below False (tree_probe io L base) upper parts \<noteq> Inr False \<longleftrightarrow>
     (\<exists>n. 0 < n \<and> n \<le> length parts \<and> is_link L (base @ upper @ take n parts))"
proof (induction parts arbitrary: upper)
  case (Cons part parts)
  let ?q = "base @ upper @ [part]"
  have ex: "(\<exists>n. 0 < n \<and> n \<le> length (part # parts) \<and> is_link L (base @ upper @ take n (part # parts))) \<longleftrightarrow>
      is_link L ?q \<or> (\<exists>n. 0 < n \<and> n \<le> length parts \<and> is_link L (base @ (upper @ [part]) @ take n parts))"
  proof (intro iffI; elim exE conjE disjE)
    fix n assume "0 < n" "n \<le> length (part # parts)" "is_link L (base @ upper @ take n (part # parts))"
    then show "is_link L ?q \<or> (\<exists>n. 0 < n \<and> n \<le> length parts \<and> is_link L (base @ (upper @ [part]) @ take n parts))"
      by (cases "n - 1"; cases n) auto
  next
    assume "is_link L ?q"
    then show "\<exists>n. 0 < n \<and> n \<le> length (part # parts) \<and> is_link L (base @ upper @ take n (part # parts))"
      by (intro exI [of _ 1]) simp
  next
    fix n assume "0 < n" "n \<le> length parts" "is_link L (base @ (upper @ [part]) @ take n parts)"
    then show "\<exists>n. 0 < n \<and> n \<le> length (part # parts) \<and> is_link L (base @ upper @ take n (part # parts))"
      by (intro exI [of _ "Suc n"]) simp
  qed
  have l: "io_lstat io ?q" using assms(2) by (simp add: healthy_def)
  show ?case
  proof (cases "dir_at L ?q")
    case True
    then have pr: "tree_probe io L base (upper @ [part]) = Dir" "\<not> is_link L ?q"
      using l by (simp_all add: tree_probe_def dir_at_def is_link_def)
    from pr(1) Cons.IH [of "upper @ [part]"] have
      "link_below False (tree_probe io L base) upper (part # parts) \<noteq> Inr False \<longleftrightarrow>
        (\<exists>n. 0 < n \<and> n \<le> length parts \<and> is_link L (base @ (upper @ [part]) @ take n parts))" by simp
    with ex pr(2) show ?thesis by blast
  next
    case False
    have none: "map_of L (base @ (upper @ [part]) @ take n parts) = None" if "0 < n" "n \<le> length parts" for n
      using wf_beyond [OF assms(1), of "length ?q" "?q @ parts" "length ?q + n"] False that by simp
    then have nolink: "\<not> (\<exists>n. 0 < n \<and> n \<le> length parts \<and> is_link L (base @ (upper @ [part]) @ take n parts))"
      by (auto simp: is_link_def)
    with Cons.IH [of "upper @ [part]"] have "link_below False (tree_probe io L base) (upper @ [part]) parts = Inr False" by blast
    then have "link_below False (tree_probe io L base) upper (part # parts) \<noteq> Inr False \<longleftrightarrow> is_link L ?q"
      using l False by (cases "map_of L ?q")
        (auto simp: is_link_def dir_at_def tree_probe_def [of io L base "upper @ [part]"] split: lentry.splits)
    with ex nolink show ?thesis by blast
  qed
qed simp

section \<open>Virtual states mirror the disk\<close>

definition relevant :: "path \<Rightarrow> bool" where
  "relevant p \<longleftrightarrow> p = [] \<or> \<not> is_conflict_filename (last p)"

text \<open>A target the preview and the pull agree on: a normal path below the source, no conflict-shaped
  component.\<close>

definition plannable :: "path \<Rightarrow> pystr \<Rightarrow> bool" where
  "plannable base rel \<longleftrightarrow>
     \<not> startswith rel [47] \<and> path_parts rel \<noteq> [] \<and> rel = join_with [47] (path_parts rel) \<and> path_inside base rel \<and>
     (\<forall>n \<le> length (local_path base rel). relevant (take n (local_path base rel)))"

fun agrees :: "apply_env \<Rightarrow> path \<Rightarrow> ltree \<Rightarrow> path \<Rightarrow> local_state \<Rightarrow> lentry option \<Rightarrow> bool" where
  "agrees env base L0 p st None \<longleftrightarrow> st = no_state"
| "agrees env base L0 p st (Some LDir) \<longleftrightarrow> ls_exists st \<and> ls_dir st"
| "agrees env base L0 p st (Some (LLink _)) \<longleftrightarrow> True"
| "agrees env base L0 p st (Some (LFile d t)) \<longleftrightarrow>
     ls_exists st \<and> \<not> ls_dir st \<and> \<not> ls_unreadable st \<and>
     ((\<not> ls_hashed st \<and> ls_sha st = None \<and> ls_mtime st = Some t \<and> content L0 p = Some d) \<or>
      (ls_hashed st \<and> ls_sha st = Some (ae_sha env d) \<and> ls_mtime st = Some t) \<or>
      (ls_hashed st \<and> ls_sha st = None \<and> (\<exists>rel. plannable base rel \<and> local_path base rel = p \<and> should_merge rel)))"

text \<open>The states after some predictions, against the disk after the same files were applied.\<close>

definition mirrors :: "apply_env \<Rightarrow> path \<Rightarrow> ltree \<Rightarrow> states \<Rightarrow> ltree \<Rightarrow> bool" where
  "mirrors env base L0 states L \<longleftrightarrow> wf_tree L \<and>
     (\<forall>p. relevant p \<longrightarrow> agrees env base L0 p (planned_state env L0 states p) (map_of L p) \<and> is_link L p = is_link L0 p)"

lemma mirrors_start: "wf_tree L0 \<Longrightarrow> healthy (ae_io env) \<Longrightarrow> mirrors env base L0 [] L0"
proof -
  assume a: "wf_tree L0" "healthy (ae_io env)"
  have "agrees env base L0 p (stat_state (ae_io env) L0 p) (map_of L0 p)" for p
    using a(2) by (cases "map_of L0 p") (auto simp: stat_state_def no_state_def healthy_def content_def split: lentry.splits)
  with a(1) show ?thesis by (simp add: mirrors_def planned_state_def)
qed

lemma look_ok:
  "look env L0 h q states = (st, states') \<Longrightarrow>
     st = (if h then hashed_state env L0 q (planned_state env L0 states q) else planned_state env L0 states q) \<and>
     planned_state env L0 states' = (planned_state env L0 states)(q := st)"
  by (auto simp: look_def Let_def planned_state_def update_conv' fun_eq_iff split: if_splits)

lemma hashed_agrees:
  assumes "agrees env base L0 p st e" "healthy (ae_io env)"
  shows "agrees env base L0 p (hashed_state env L0 p st) e"
proof (cases e)
  case None
  with assms(1) show ?thesis by (simp add: hashed_state_def no_state_def)
next
  case (Some x)
  with assms show ?thesis
    by (cases x) (auto simp: hashed_state_def local_hash_def read_file_def healthy_def split: option.splits)
qed

lemma blocked_ok:
  assumes "blocked env L0 qs states = (b, states')" "mirrors env base L0 states L"
    "\<forall>q \<in> set qs. relevant q \<and> \<not> is_link L q"
  shows "planned_state env L0 states' = planned_state env L0 states \<and>
    (b \<longleftrightarrow> (\<exists>q \<in> set qs. \<exists>d t. map_of L q = Some (LFile d t)))"
  using assms
proof (induction qs arbitrary: states)
  case (Cons q qs)
  obtain st states1 where l: "look env L0 False q states = (st, states1)" by (metis prod.collapse)
  from look_ok [OF l] have st: "st = planned_state env L0 states q" "planned_state env L0 states1 = planned_state env L0 states"
    by auto
  have ag: "agrees env base L0 q st (map_of L q)" "\<not> is_link L q"
    using Cons.prems(2,3) st(1) by (simp_all add: mirrors_def)
  then have isf: "ls_exists st \<and> \<not> ls_dir st \<longleftrightarrow> (\<exists>d t. map_of L q = Some (LFile d t))"
    by (cases "(env, base, L0, q, st, map_of L q)" rule: agrees.cases) (auto simp: no_state_def is_link_def)
  show ?case
  proof (cases "ls_exists st \<and> \<not> ls_dir st")
    case True
    with Cons.prems(1) l st(2) isf show ?thesis by auto
  next
    case False
    with Cons.prems(1) l have run: "blocked env L0 qs states1 = (b, states')" by auto
    have "mirrors env base L0 states1 L" using Cons.prems(2) st(2) by (simp add: mirrors_def)
    from Cons.IH [OF run this] Cons.prems(3) st(2) isf False show ?thesis by auto
  qed
qed simp

lemma make_parents_ok:
  "planned_state env L0 (make_parents env L0 qs states) p =
     (let st = planned_state env L0 states p in
      if p \<in> set qs \<and> \<not> ls_exists st then st\<lparr>ls_exists := True, ls_dir := True\<rparr> else st)"
proof (induction qs arbitrary: states)
  case (Cons q qs)
  obtain st states1 where l: "look env L0 False q states = (st, states1)" by (metis prod.collapse)
  from look_ok [OF l] have st: "st = planned_state env L0 states q" "planned_state env L0 states1 = planned_state env L0 states"
    by auto
  have up: "planned_state env L0 (AList.update q x states1) = (planned_state env L0 states)(q := x)" for x
    using st(2) by (auto simp: planned_state_def update_conv' fun_eq_iff)
  show ?case
    using Cons.IH [of states1] Cons.IH [of "AList.update q (st\<lparr>ls_exists := True, ls_dir := True\<rparr>) states1"]
    by (auto simp: l st up Let_def)
qed (simp add: Let_def)

lemma parents_mem: "q \<in> set (parents p) \<longleftrightarrow> (\<exists>n < length p. q = take n p)"
  by (auto simp: parents_def)

section \<open>Folders on a healthy disk\<close>

lemma make_folders_all:
  "healthy io \<Longrightarrow> make_folders io ds s = (b, s') \<Longrightarrow>
     b \<and> (\<forall>q. map_of (st_tree s') q = (if q \<in> set ds then Some LDir else map_of (st_tree s) q))"
proof (induction ds arbitrary: s)
  case (Cons d ds)
  from Cons.prems have "make_folders io ds (s\<lparr>st_tree := AList.update d LDir (st_tree s), st_rep := touch (butlast d) (st_rep s)\<rparr>) = (b, s')"
    by (simp add: healthy_def)
  from Cons.IH [OF Cons.prems(1) this] show ?case by (auto simp: update_conv')
qed simp

lemma take_butlast': "n < length p \<Longrightarrow> take n (butlast p) = take n p"
  by (cases p rule: rev_cases) auto

lemma real_blocked:
  assumes "wf_tree (st_tree s)" "n < length p" "map_of (st_tree s) (take n p) = Some (LFile d t)"
  shows "ensure_parent io (butlast p) s = (False, s)"
proof -
  let ?L = "st_tree s"
  obtain k where k: "k \<le> length p - 1" "first_existing_ancestor ?L (butlast p) = take k (butlast p)"
    "\<forall>m. k < m \<and> m \<le> length p - 1 \<longrightarrow> map_of ?L (take m (butlast p)) = None"
    using ancestor_prefix [of "butlast p" ?L] by auto
  have nd: "\<not> dir_at ?L (take n p)" using assms(3) by (simp add: dir_at_def)
  have "\<not> dir_at ?L (butlast p)"
  proof (cases "n = length p - 1")
    case True
    with nd show ?thesis by (simp add: butlast_conv_take)
  next
    case False
    with wf_beyond [OF assms(1) nd, of "length p - 1"] assms(2) show ?thesis by (simp add: butlast_conv_take dir_at_def)
  qed
  moreover have "\<not> dir_at ?L (take k (butlast p))"
  proof -
    have "n \<le> k"
    proof (rule ccontr)
      assume "\<not> n \<le> k"
      with k(3) assms(2) have "map_of ?L (take n (butlast p)) = None" by auto
      with assms(2,3) show False by (simp add: take_butlast')
    qed
    show ?thesis
    proof (cases "k = n")
      case True
      with nd assms(2) show ?thesis by (simp add: take_butlast')
    next
      case False
      with \<open>n \<le> k\<close> wf_beyond [OF assms(1) nd, of k] k(1) assms(2) show ?thesis by (simp add: take_butlast' dir_at_def)
    qed
  qed
  ultimately show ?thesis by (simp add: ensure_parent_def Let_def k(2))
qed

lemma first_existing_some: "first_existing_ancestor L p = [] \<or> map_of L (first_existing_ancestor L p) \<noteq> None"
proof (induction L p rule: first_existing_ancestor.induct)
  case (1 L p)
  then show ?case by (cases "p = [] \<or> map_of L p \<noteq> None") (auto simp: first_existing_ancestor.simps [of L p])
qed

lemma real_parents:
  assumes "wf_tree (st_tree s)" "healthy io" "p \<noteq> []" "\<forall>n < length p. map_of (st_tree s) (take n p) \<in> {None, Some LDir}"
    "ensure_parent io (butlast p) s = (b, s1)"
  shows "b \<and> same_ledger (st_rep s) (st_rep s1) \<and>
    (\<forall>q. map_of (st_tree s1) q = (if \<exists>n < length p. q = take n p then Some LDir else map_of (st_tree s) q))"
proof (cases "dir_at (st_tree s) (butlast p)")
  case True
  have "map_of (st_tree s) (take n p) = Some LDir" if "n < length p" for n
  proof (cases "n = length p - 1")
    case True
    with \<open>dir_at _ _\<close> show ?thesis by (simp add: butlast_conv_take dir_at_def)
  next
    case False
    have "map_of (st_tree s) (butlast p) \<noteq> None" using True by (simp add: dir_at_def)
    from wf_prefix [OF assms(1) this, of n] False that show ?thesis by (simp add: take_butlast' dir_at_def)
  qed
  with True assms(5) show ?thesis by (auto simp: ensure_parent_def)
next
  case False
  let ?L = "st_tree s"
  obtain k where k: "k \<le> length p - 1" "first_existing_ancestor ?L (butlast p) = take k (butlast p)"
    "\<forall>m. k < m \<and> m \<le> length p - 1 \<longrightarrow> map_of ?L (take m (butlast p)) = None"
    using ancestor_prefix [of "butlast p" ?L] by auto
  have kp: "k < length p" using k(1) assms(3) by (cases p) auto
  have "map_of ?L (take k (butlast p)) \<noteq> None"
  proof (cases "k = 0")
    case True
    with assms(1) show ?thesis by (simp add: wf_tree_def dir_at_def)
  next
    case F: False
    have "take k (butlast p) \<noteq> []" using F k(1) kp by (cases p) auto
    with first_existing_some [of ?L "butlast p"] k(2) show ?thesis by simp
  qed
  with assms(4) kp have d: "dir_at ?L (take k p)" by (auto simp: take_butlast' dir_at_def)
  have run: "make_folders io (missing_folders (take k (butlast p)) (butlast p)) s = (b, s1)"
    using assms(5) False d kp by (simp add: ensure_parent_def Let_def k(2) take_butlast')
  have mem: "q \<in> set (missing_folders (take k (butlast p)) (butlast p)) \<longleftrightarrow> (\<exists>n < length p. k < n \<and> q = take n p)" for q
  proof -
    have len: "length (take k (butlast p)) = k" "length (butlast p) = length p - 1" using k(1) by simp_all
    have "q \<in> set (missing_folders (take k (butlast p)) (butlast p)) \<longleftrightarrow>
        (\<exists>n. Suc k \<le> n \<and> n < Suc (length p - 1) \<and> q = take n (butlast p))"
      unfolding missing_folders_def len by auto
    also have "\<dots> \<longleftrightarrow> (\<exists>n < length p. k < n \<and> q = take n p)"
      using assms(3) by (intro iff_exI) (auto simp: take_butlast' Suc_le_eq)
    finally show ?thesis .
  qed
  have up: "map_of ?L (take n p) = Some LDir" if "n \<le> k" for n
  proof (cases "n = k")
    case True
    with d show ?thesis by (simp add: dir_at_def)
  next
    case False
    have "map_of ?L (take k p) \<noteq> None" using d by (simp add: dir_at_def)
    from wf_prefix [OF assms(1) this, of n] that False kp show ?thesis by (simp add: dir_at_def min_def)
  qed
  from make_folders_all [OF assms(2) run] have b: b and
    at: "map_of (st_tree s1) q = (if \<exists>n < length p. k < n \<and> q = take n p then Some LDir else map_of ?L q)" for q
    by (simp_all add: mem)
  have "map_of (st_tree s1) q = (if \<exists>n < length p. q = take n p then Some LDir else map_of ?L q)" for q
  proof (cases "\<exists>n < length p. q = take n p")
    case True
    then obtain n where n: "n < length p" "q = take n p" by blast
    show ?thesis
    proof (cases "k < n")
      case False
      with up [of n] n at [of q] show ?thesis by auto
    qed (use n at [of q] in auto)
  next
    case False
    then have n: "\<not> (\<exists>n < length p. k < n \<and> q = take n p)" by blast
    show ?thesis unfolding at [of q] if_not_P [OF n] if_not_P [OF False] ..
  qed
  with b make_folders_ok [OF run] show ?thesis by blast
qed

section \<open>One prediction comes true\<close>

fun foretells :: "prediction \<Rightarrow> apply_outcome \<Rightarrow> bool" where
  "foretells PWrite out \<longleftrightarrow> out = Written"
| "foretells PMerge out \<longleftrightarrow> out = Merged \<or> out = Unchanged"
| "foretells PConflict out \<longleftrightarrow> out = Conflicted \<or> out = Failed"
| "foretells PUnchanged out \<longleftrightarrow> out = Unchanged"
| "foretells PSkipLink out \<longleftrightarrow> out = Skipped"
| "foretells PSkipNewer out \<longleftrightarrow> out = Skipped"
| "foretells PCollision out \<longleftrightarrow> out = Failed"
| "foretells PUnreadable out \<longleftrightarrow> out = Failed"

lemma conflict_others:
  assumes "others_kept env rel p dev data out L L'" "wf_tree L" "map_of L p \<noteq> None" "relevant q" "q \<noteq> p"
  shows "map_of L' q = map_of L q"
proof -
  have "\<not> made_folder L L' p q"
    using wf_prefix [OF assms(2,3)] by (auto simp: made_folder_def dir_at_def)
  moreover have "\<not> saved_copy env rel p dev data L L' q"
    using assms(4) minted_is_conflict by (auto simp: saved_copy_def relevant_def)
  moreover have "\<not> replaced_copy env rel p dev data L L' q"
    using assms(4) by (auto simp: replaced_copy_def relevant_def replaceable_def)
  ultimately show ?thesis using assms(1) [unfolded others_kept_def, THEN spec, THEN mp, OF assms(5)] by iprover
qed

lemma conflict_wf:
  assumes "others_kept env rel p dev data out L L'" "wf_tree L" "map_of L p \<noteq> None" "map_of L' p \<noteq> None"
    "\<not> dir_at L p" "relevant (butlast p)"
  shows "wf_tree L'"
proof -
  have dirs: "dir_at L' q" if "dir_at L q" for q
  proof -
    have "q \<noteq> p" using that assms(5) by blast
    from assms(1) [unfolded others_kept_def, THEN spec, THEN mp, OF this] that show ?thesis
      by (auto simp: dir_at_def made_folder_def saved_copy_def replaced_copy_def content_def)
  qed
  have "dir_at L' (butlast q)" if q: "q \<noteq> []" "map_of L' q \<noteq> None" for q
  proof (cases "map_of L q = None")
    case False
    with q(1) assms(2) have "dir_at L (butlast q)" by (simp add: wf_tree_def)
    then show ?thesis by (rule dirs)
  next
    case True
    then have qp: "q \<noteq> p" using assms(3) by blast
    have nf: "\<not> made_folder L L' p q"
      using wf_prefix [OF assms(2,3)] by (auto simp: made_folder_def dir_at_def)
    from assms(1) [unfolded others_kept_def, THEN spec, THEN mp, OF qp] True q(2) nf
    have "saved_copy env rel p dev data L L' q" by (auto simp: replaced_copy_def)
    then have "butlast q = butlast p" by (auto simp: saved_copy_def)
    moreover have "p \<noteq> []" using assms(2,5) by (auto simp: wf_tree_def)
    ultimately have "dir_at L (butlast q)" using assms(2,3) by (simp add: wf_tree_def)
    then show ?thesis by (rule dirs)
  qed
  moreover have "dir_at L' []" using assms(2) dirs by (simp add: wf_tree_def)
  ultimately show ?thesis by (simp add: wf_tree_def)
qed

lemma update_wf: "wf_tree L \<Longrightarrow> dir_at L (butlast p) \<Longrightarrow> p \<noteq> [] \<Longrightarrow> \<not> dir_at L p \<Longrightarrow> wf_tree (AList.update p (LFile d t) L)"
  by (auto simp: wf_tree_def dir_at_def update_conv')

lemma plannable_code:
  "plannable base rel \<longleftrightarrow>
     \<not> startswith rel [47] \<and> path_parts rel \<noteq> [] \<and> rel = join_with [47] (path_parts rel) \<and> path_inside base rel \<and>
     list_all (\<lambda>n. relevant (take n (local_path base rel))) [0..<Suc (length (local_path base rel))]"
  by (auto simp: plannable_def list_all_iff)

lemma plannable_path: "plannable base rel \<Longrightarrow> local_path base rel = base @ path_parts rel \<and> local_path base rel \<noteq> []"
  by (simp add: plannable_def local_path_def)

lemma plannable_unique: "plannable base rel \<Longrightarrow> plannable base rel' \<Longrightarrow> local_path base rel = local_path base rel' \<Longrightarrow> rel = rel'"
  using plannable_path unfolding plannable_def by (metis same_append_eq)

lemma mirrors_cong:
  "mirrors env base L0 states L \<Longrightarrow> planned_state env L0 states' = planned_state env L0 states \<Longrightarrow>
     map_of L' = map_of L \<Longrightarrow> mirrors env base L0 states' L'"
  by (simp add: mirrors_def wf_tree_def dir_at_def is_link_def)

lemma mirrors_links:
  assumes "mirrors env base L0 states L" "wf_tree L0" "healthy io" "plannable base rel"
  shows "has_symlinked_component io L base rel = has_symlinked_component io L0 base rel"
proof -
  have "is_link L (base @ take n (path_parts rel)) = is_link L0 (base @ take n (path_parts rel))" if "n \<le> length (path_parts rel)" for n
  proof -
    have "take (length base + n) (local_path base rel) = base @ take n (path_parts rel)"
      "length base + n \<le> length (local_path base rel)" using plannable_path [OF assms(4)] that by simp_all
    with assms(4) have "relevant (base @ take n (path_parts rel))" unfolding plannable_def by metis
    with assms(1) show ?thesis by (simp add: mirrors_def)
  qed
  then have "(\<exists>n. 0 < n \<and> n \<le> length (path_parts rel) \<and> is_link L (base @ [] @ take n (path_parts rel))) \<longleftrightarrow>
      (\<exists>n. 0 < n \<and> n \<le> length (path_parts rel) \<and> is_link L0 (base @ [] @ take n (path_parts rel)))" by auto
  with link_below_iff [OF _ assms(3), of L base "[]" "path_parts rel"] link_below_iff [OF assms(2,3), of base "[]" "path_parts rel"]
    assms(1) show ?thesis by (simp add: has_symlinked_component_def path_has_descendant_symlink_def mirrors_def)
qed

lemma no_links:
  assumes "mirrors env base L0 states L" "wf_tree L0" "healthy io" "plannable base rel"
    "\<not> has_symlinked_component io L base rel" "\<forall>n \<le> length base. \<not> is_link L0 (take n base)" "n \<le> length (local_path base rel)"
  shows "\<not> is_link L (take n (local_path base rel))"
proof (cases "n \<le> length base")
  case True
  have "relevant (take n (local_path base rel))" using assms(4,7) by (simp add: plannable_def)
  with assms(1) have "is_link L (take n (local_path base rel)) = is_link L0 (take n (local_path base rel))" by (simp add: mirrors_def)
  moreover have "take n (local_path base rel) = take n base" using plannable_path [OF assms(4)] True by simp
  ultimately show ?thesis using assms(6) True by metis
next
  case False
  let ?m = "n - length base"
  have m: "0 < ?m" "?m \<le> length (path_parts rel)" "take n (local_path base rel) = base @ [] @ take ?m (path_parts rel)"
    using False assms(7) plannable_path [OF assms(4)] by simp_all
  have "link_below False (tree_probe io L base) [] (path_parts rel) = Inr False"
    using assms(4,5) by (simp add: has_symlinked_component_def path_has_descendant_symlink_def plannable_def)
  with link_below_iff [OF _ assms(3), of L base "[]" "path_parts rel"] assms(1) m show ?thesis
    unfolding mirrors_def by metis
qed

text \<open>An apply that returns enters its outcome.\<close>

lemma checked_outcome:
  assumes "\<not> has_symlinked_component (ae_io env) (st_tree s) base rel" "path_inside base rel" "ae_sha env data = fi_sha256 info"
    "local_path base rel \<noteq> []"
    "apply_incoming_file env (local_path base rel) (resolve_path (local_path base rel)) rel data info dev
       (s\<lparr>st_rep := begin_file rel (local_path base rel) (resolve_path (local_path base rel)) (st_rep s)\<rparr>) = (Inr out, s2)"
  shows "\<exists>s'. checked_apply env base dev rel info data s = (None, s') \<and> st_tree s' = st_tree s2 \<and> entered out rel (st_rep s) (st_rep s')"
proof -
  let ?p = "local_path base rel"
  let ?s1 = "s\<lparr>st_rep := begin_file rel ?p (resolve_path ?p) (st_rep s)\<rparr>"
  have s1: "rp_recorded (st_rep ?s1) = None" "rp_rel (st_rep ?s1) = rel" "rp_outcomes (st_rep ?s1) = rp_outcomes (st_rep s)"
    by (simp_all add: begin_file_def)
  have "ledger_for out (st_rep ?s1) (st_rep s2)"
    using apply_incoming_file_result [OF assms(4) s1(1), of env rel dev data info "resolve_path ?p"] assms(5)
    by (simp add: apply_result_def)
  from finish_ledger [OF this s1(1)] obtain s' where f: "finish out s2 = (Inr out, s')" "st_tree s' = st_tree s2"
    "entered out (rp_rel (st_rep ?s1)) (st_rep ?s1) (st_rep s')" by blast
  then have "entered out rel (st_rep s) (st_rep s')" using s1 by (simp add: entered_def)
  with f(1,2) assms(1-3,5) show ?thesis by (intro exI [of _ s']) (simp add: checked_apply_def Let_def)
qed

text \<open>The apply of a file that is already there, on a healthy disk.\<close>

lemma apply_on_file:
  assumes "healthy (ae_io env)" "\<not> ae_interactive env" "set_order (ae_iter env)" "rp_recorded (st_rep s) = None"
    "map_of (st_tree s) p = Some (LFile d t)" "p \<noteq> []" "dir_at (st_tree s) (butlast p)" "wf_tree (st_tree s)"
    "relevant (butlast p)"
  shows "\<exists>out s2. apply_existing env p resolved rel data info dev s = (Inr out, s2) \<and> wf_tree (st_tree s2) \<and>
    (\<forall>q. relevant q \<and> q \<noteq> p \<longrightarrow> map_of (st_tree s2) q = map_of (st_tree s) q) \<and>
    (if ae_sha env d = fi_sha256 info then out = Unchanged \<and> map_of (st_tree s2) p = Some (LFile d t)
     else if should_merge rel then
       (out = Unchanged \<and> map_of (st_tree s2) p = Some (LFile d t)) \<or>
       (out = Merged \<and> (\<exists>m t'. map_of (st_tree s2) p = Some (LFile m t')))
     else if local_newer env (st_tree s) p (fi_mtime info) then out = Skipped \<and> map_of (st_tree s2) p = Some (LFile d t)
     else out \<in> {Conflicted, Failed} \<and> map_of (st_tree s2) p = Some (LFile d t))"
proof -
  let ?L = "st_tree s"
  have rd: "read_file (ae_io env) ?L p = Some d" using assms(1,5) by (simp add: read_file_def healthy_def content_def)
  note run = apply_existing_def [of env p resolved rel data info dev s, unfolded local_hash_def rd option.map option.case]
  have same: ?thesis if "apply_existing env p resolved rel data info dev s = (Inr out, s)"
      "if ae_sha env d = fi_sha256 info then out = Unchanged else if should_merge rel then out = Unchanged else
        if local_newer env ?L p (fi_mtime info) then out = Skipped else out \<in> {Conflicted, Failed}" for out
    using that assms(5,8) by (intro exI [of _ out] exI [of _ s]) (auto split: if_splits)
  consider (hash) "ae_sha env d = fi_sha256 info" | (merge) "ae_sha env d \<noteq> fi_sha256 info" "should_merge rel"
    | (newer) "ae_sha env d \<noteq> fi_sha256 info" "\<not> should_merge rel" "local_newer env ?L p (fi_mtime info)"
    | (conflict) "ae_sha env d \<noteq> fi_sha256 info" "\<not> should_merge rel" "\<not> local_newer env ?L p (fi_mtime info)" by blast
  then show ?thesis
  proof cases
    case hash
    with run show ?thesis by (intro same [of Unchanged]) simp_all
  next
    case newer
    with run show ?thesis by (intro same [of Skipped]) simp_all
  next
    case merge
    obtain m where m: "merge_file (ae_digits env) (ae_iter env) rel d data = Some m"
      using merge_total [OF assms(3), of "ae_digits env" rel d data] by blast
    show ?thesis
    proof (cases "m = d")
      case True
      with run merge m rd show ?thesis by (intro same [of Unchanged]) (simp_all add: apply_merge_def)
    next
      case False
      let ?s = "s\<lparr>st_tree := AList.update p (LFile m (ae_now env)) ?L\<rparr>"
      have "\<not> dir_at ?L p" using assms(5) by (simp add: dir_at_def)
      with assms(1,6,7) have aw: "atomic_write (ae_io env) ?L p m (ae_now env) = Some (st_tree ?s)"
        by (simp add: atomic_write_def healthy_def)
      have "rp_recorded (st_rep ?s) = None" using assms(4) by simp
      from finish_fresh [OF this, of Merged] obtain r where "finish Merged ?s = (Inr Merged, ?s\<lparr>st_rep := r\<rparr>)" by blast
      with run merge m rd False aw have "apply_existing env p resolved rel data info dev s = (Inr Merged, ?s\<lparr>st_rep := r\<rparr>)"
        by (simp add: apply_merge_def publish_def)
      moreover have "wf_tree (st_tree ?s)" using update_wf [OF assms(8,7,6) \<open>\<not> dir_at ?L p\<close>] by simp
      ultimately show ?thesis using merge
        by (intro exI [of _ Merged] exI [of _ "?s\<lparr>st_rep := r\<rparr>"]) (auto simp: update_conv')
    qed
  next
    case conflict
    obtain r s2 where ac: "apply_conflict env p rel data dev (fi_mtime info) s = (r, s2)" by (metis prod.collapse)
    have at: "map_of ?L p \<noteq> None" using assms(5) by simp
    from apply_conflict_ok [OF ac assms(6) at assms(4), of info] obtain out where out: "r = Inr out" "out \<in> {Conflicted, Failed}"
      and oth: "others_kept env rel p dev data out ?L (st_tree s2)"
      and own: "own_effect env p rel dev data info ?L (st_tree s2) out" by blast
    have own': "map_of (st_tree s2) p = Some (LFile d t)" using own out(2) assms(5) by auto
    have "wf_tree (st_tree s2)" by (rule conflict_wf [OF oth assms(8) at _ _ assms(9)]) (simp_all add: own' assms(5) dir_at_def)
    moreover have "apply_existing env p resolved rel data info dev s = (Inr out, s2)" using run conflict assms(2) ac out(1) by simp
    ultimately show ?thesis using conflict out(2) own' conflict_others [OF oth assms(8) at]
      by (intro exI [of _ out] exI [of _ s2]) simp
  qed
qed

text \<open>The setting of one step.\<close>

definition planning :: "apply_env \<Rightarrow> path \<Rightarrow> ltree \<Rightarrow> bool" where
  "planning env base L0 \<longleftrightarrow>
     healthy (ae_io env) \<and> \<not> ae_interactive env \<and> set_order (ae_iter env) \<and> ae_fromiso env [] = None \<and> wf_tree L0 \<and>
     (\<forall>n \<le> length base. \<not> is_link L0 (take n base))"

lemma mtimes_agree: "ae_fromiso env [] = None \<Longrightarrow> planned_mtime env ts = remote_mtime env ts"
  by (cases ts) (auto simp: planned_mtime_def remote_mtime_def mtime_from_manifest_def)

text \<open>The blocked and the folder cases of an apply.\<close>

lemma apply_blocked:
  assumes "wf_tree (st_tree s)" "n < length p" "map_of (st_tree s) (take n p) = Some (LFile d t)" "rp_recorded (st_rep s) = None"
    "\<not> is_link (st_tree s) p"
  shows "\<exists>s2. apply_incoming_file env p r rel data info dev s = (Inr Failed, s2) \<and> st_tree s2 = st_tree s"
proof -
  from finish_fresh [OF assms(4), of Failed] obtain q where "finish Failed s = (Inr Failed, s\<lparr>st_rep := q\<rparr>)" by blast
  with assms(5) real_blocked [OF assms(1-3)] show ?thesis by (simp add: apply_incoming_file_def)
qed

lemma apply_after_parents:
  assumes "planning env base L0" "wf_tree (st_tree s)" "p \<noteq> []" "\<not> is_link (st_tree s) p" "rp_recorded (st_rep s) = None"
    "\<forall>n < length p. map_of (st_tree s) (take n p) \<in> {None, Some LDir}"
  shows "\<exists>s1. rp_recorded (st_rep s1) = None \<and>
    (\<forall>q. map_of (st_tree s1) q = (if \<exists>n < length p. q = take n p then Some LDir else map_of (st_tree s) q)) \<and>
    apply_incoming_file env p r rel data info dev s =
      (if map_of (st_tree s) p = None then apply_write env p data (fi_mtime info) s1
       else apply_existing env p r rel data info dev s1)"
proof -
  have h: "healthy (ae_io env)" using assms(1) by (simp add: planning_def)
  obtain b s1 where e: "ensure_parent (ae_io env) (butlast p) s = (b, s1)" by (metis prod.collapse)
  from real_parents [OF assms(2) h assms(3,6) e] have b: b "same_ledger (st_rep s) (st_rep s1)"
    and at: "\<forall>q. map_of (st_tree s1) q = (if \<exists>n < length p. q = take n p then Some LDir else map_of (st_tree s) q)" by auto
  have np: "\<not> (\<exists>n < length p. p = take n p)" by (metis length_take less_irrefl min_less_iff_conj)
  from at [THEN spec, of p, unfolded if_not_P [OF np]] e b(1) assms(4) h have "apply_incoming_file env p r rel data info dev s =
      (if map_of (st_tree s) p = None then apply_write env p data (fi_mtime info) s1
       else apply_existing env p r rel data info dev s1)" by (simp add: apply_incoming_file_def healthy_def)
  with at b(2) assms(5) show ?thesis by (intro exI [of _ s1]) (simp add: same_ledger_def)
qed

text \<open>The parents of something that exists are folders already.\<close>

lemma parents_there:
  assumes "wf_tree L" "map_of L p \<noteq> None" "\<forall>q. map_of L1 q = (if \<exists>n < length p. q = take n p then Some LDir else map_of L q)"
  shows "map_of L1 = map_of L"
proof
  fix q show "map_of L1 q = map_of L q"
    using assms(3) [THEN spec, of q] wf_prefix [OF assms(1,2)] by (auto simp: dir_at_def split: if_splits)
qed

lemma written_wf:
  assumes "wf_tree L" "p \<noteq> []" "map_of L p = None"
    "\<forall>n < length p. map_of L (take n p) \<in> {None, Some LDir}"
    "\<forall>q. map_of L1 q = (if \<exists>n < length p. q = take n p then Some LDir else map_of L q)"
  shows "wf_tree L1 \<and> dir_at L1 (butlast p) \<and> map_of L1 p = None"
proof (intro conjI)
  have bl: "\<exists>n < length p. butlast p = take n p" using assms(2) by (intro exI [of _ "length p - 1"]) (simp add: butlast_conv_take)
  with assms(5) show "dir_at L1 (butlast p)" by (simp add: dir_at_def)
  have np: "\<not> (\<exists>n < length p. p = take n p)" by (metis length_take less_irrefl min_less_iff_conj)
  with assms(3,5) show "map_of L1 p = None" by simp
  have dirs: "dir_at L q \<Longrightarrow> dir_at L1 q" for q using assms(5) by (simp add: dir_at_def)
  have "dir_at L1 (butlast q)" if q: "q \<noteq> []" "map_of L1 q \<noteq> None" for q
  proof (cases "\<exists>n < length p. q = take n p")
    case True
    then obtain n where n: "n < length p" "q = take n p" by blast
    with q(1) have "butlast q = take (n - 1) p" "n - 1 < length p" by (auto simp: butlast_take)
    with assms(5) show ?thesis by (auto simp: dir_at_def)
  next
    case False
    with assms(5) q(2) have "map_of L q \<noteq> None" by simp
    with assms(1) q(1) dirs show ?thesis by (simp add: wf_tree_def)
  qed
  moreover have "dir_at L1 []" using assms(1) dirs by (simp add: wf_tree_def)
  ultimately show "wf_tree L1" by (simp add: wf_tree_def)
qed

lemma apply_write_healthy:
  assumes "healthy (ae_io env)" "rp_recorded (st_rep s) = None" "p \<noteq> []" "dir_at (st_tree s) (butlast p)" "map_of (st_tree s) p = None"
  shows "\<exists>s2. apply_write env p data ts s = (Inr Written, s2) \<and>
    st_tree s2 = AList.update p (LFile data (restored_mtime env p ts)) (st_tree s)"
proof -
  let ?s = "s\<lparr>st_tree := AList.update p (LFile data (restored_mtime env p ts)) (st_tree s)\<rparr>"
  have "atomic_write (ae_io env) (st_tree s) p data (restored_mtime env p ts) = Some (st_tree ?s)"
    using assms by (simp add: atomic_write_def healthy_def dir_at_def)
  moreover have "rp_recorded (st_rep ?s) = None" using assms(2) by simp
  from finish_fresh [OF this, of Written] obtain r where "finish Written ?s = (Inr Written, ?s\<lparr>st_rep := r\<rparr>)" by blast
  ultimately show ?thesis by (simp add: apply_write_def publish_def)
qed

lemma written_mtime:
  assumes "healthy (ae_io env)" "ae_fromiso env [] = None"
  shows "restored_mtime env p ts =
    min (case planned_mtime env ts of None \<Rightarrow> ae_now env | Some r \<Rightarrow> r) (ae_now env + MTIME_RESTORE_MAX_SKEW)"
  using assms by (cases ts)
    (auto simp: restored_mtime_def planned_mtime_def healthy_def MTIME_RESTORE_MAX_SKEW_def mtime_from_manifest_def
      split: option.splits py_dt.splits)

text \<open>A prediction by the kind of the local entry, once nothing above the file is in the way.\<close>

lemma predict_unblocked:
  assumes "\<not> has_symlinked_component (ae_io env) L0 base rel" "blocked env L0 (parents (local_path base rel)) states = (False, st1)"
    "planned_state env L0 st1 = planned_state env L0 states" "predict env L0 base rel info states = (pr, states')"
    "mirrors env base L0 states L" "healthy (ae_io env)" "plannable base rel" "ae_fromiso env [] = None"
    "\<not> is_link L (local_path base rel)"
  shows "case map_of L (local_path base rel) of
     None \<Rightarrow> pr = PWrite \<and> (\<forall>q. planned_state env L0 states' q =
        (if q = local_path base rel
         then no_state\<lparr>ls_exists := True, ls_hashed := True, ls_sha := Some (fi_sha256 info),
           ls_mtime := Some (restored_mtime env (local_path base rel) (fi_mtime info))\<rparr>
         else if (\<exists>n < length (local_path base rel). q = take n (local_path base rel)) \<and> \<not> ls_exists (planned_state env L0 states q)
         then (planned_state env L0 states q)\<lparr>ls_exists := True, ls_dir := True\<rparr> else planned_state env L0 states q))
   | Some (LFile d t) \<Rightarrow>
       (\<forall>q. q \<noteq> local_path base rel \<longrightarrow> planned_state env L0 states' q = planned_state env L0 states q) \<and>
       (if pr = PMerge then should_merge rel \<and>
          (\<forall>d' t'. agrees env base L0 (local_path base rel) (planned_state env L0 states' (local_path base rel)) (Some (LFile d' t')))
        else agrees env base L0 (local_path base rel) (planned_state env L0 states' (local_path base rel)) (Some (LFile d t))) \<and>
       (pr = PMerge \<or>
        (if ae_sha env d = fi_sha256 info then pr = PUnchanged
         else \<not> should_merge rel \<and>
           (case (remote_mtime env (fi_mtime info), Some t) of
              (Some r, Some l) \<Rightarrow> if l > r then pr = PSkipNewer else pr = PConflict
            | _ \<Rightarrow> pr = PConflict)))
   | _ \<Rightarrow> pr = PCollision \<and> planned_state env L0 states' = planned_state env L0 states"
proof -
  let ?p = "local_path base rel"
  obtain st sa where la: "look env L0 False ?p st1 = (st, sa)" by (metis prod.collapse)
  from look_ok [OF la] assms(3) have st: "st = planned_state env L0 states ?p" "planned_state env L0 sa = planned_state env L0 states"
    by auto
  obtain sh sb where lb: "look env L0 True ?p sa = (sh, sb)" by (metis prod.collapse)
  from look_ok [OF lb] st have sh: "sh = hashed_state env L0 ?p st" "planned_state env L0 sb = (planned_state env L0 states)(?p := sh)"
    by auto
  have rel: "relevant ?p" using assms(7) unfolding plannable_def by (metis order_refl take_all)
  have ag: "agrees env base L0 ?p st (map_of L ?p)" using assms(5) rel st(1) by (simp add: mirrors_def)
  note run = assms(4) [unfolded predict_def Let_def if_not_P [OF assms(1)] assms(2) prod.case bool.case la lb]
  have up: "planned_state env L0 (AList.update ?p x sb) = (planned_state env L0 states)(?p := x)" for x
    using sh(2) by (auto simp: planned_state_def update_conv' fun_eq_iff)
  show ?thesis
  proof (cases "map_of L ?p")
    case None
    with ag have n: "st = no_state" "sh = no_state" by (simp_all add: sh(1) hashed_state_def no_state_def)
    note w = written_mtime [OF assms(6,8), of ?p "fi_mtime info", symmetric]
    have np: "?p \<notin> set (parents ?p)" unfolding parents_mem by (metis length_take less_irrefl min_less_iff_conj)
    from run n have "pr = PWrite" "states' = make_parents env L0 (parents ?p)
        (AList.update ?p (no_state\<lparr>ls_exists := True, ls_hashed := True, ls_sha := Some (fi_sha256 info),
           ls_mtime := Some (restored_mtime env ?p (fi_mtime info))\<rparr>) sb)"
      by (auto simp: no_state_def w)
    with None np show ?thesis by (simp add: make_parents_ok up Let_def parents_mem) blast
  next
    case (Some e)
    show ?thesis
    proof (cases e)
      case LDir
      with ag Some have "ls_dir st" by simp
      with run st(2) Some LDir show ?thesis by simp
    next
      case (LLink d)
      with Some assms(9) show ?thesis by (simp add: is_link_def)
    next
      case (LFile d t)
      from ag Some LFile have f: "ls_exists st" "\<not> ls_dir st" "\<not> ls_unreadable st" by simp_all
      from hashed_agrees [OF ag assms(6)] Some LFile have ag': "agrees env base L0 ?p sh (Some (LFile d t))" by (simp add: sh(1))
      have hashed: "ls_hashed sh" using f by (auto simp: sh(1) hashed_state_def split: option.splits)
      with ag' have k: "ls_exists sh" "\<not> ls_dir sh" "\<not> ls_unreadable sh"
        "(ls_sha sh = Some (ae_sha env d) \<and> ls_mtime sh = Some t) \<or> (ls_sha sh = None \<and> should_merge rel)"
        using plannable_unique [OF _ assms(7)] by auto
      have m: "agrees env base L0 ?p (sh\<lparr>ls_sha := None, ls_mtime := x\<rparr>) (Some (LFile d' t'))" if "should_merge rel" for d' t' x
        using k hashed that assms(7) by auto
      from run f k have run: "(if ls_sha sh = Some (fi_sha256 info) then (PUnchanged, sb)
          else if should_merge rel then (PMerge, AList.update ?p (sh\<lparr>ls_sha := None, ls_mtime := Some (ae_now env)\<rparr>) sb)
          else (case (planned_mtime env (fi_mtime info), ls_mtime sh) of
              (Some r, Some l) \<Rightarrow> if l > r then (PSkipNewer, sb) else (PConflict, sb)
            | _ \<Rightarrow> (PConflict, sb))) = (pr, states')" by (auto split: if_splits)
      show ?thesis
      proof (cases "should_merge rel \<and> ls_sha sh \<noteq> Some (fi_sha256 info)")
        case True
        with run have "pr = PMerge" "states' = AList.update ?p (sh\<lparr>ls_sha := None, ls_mtime := Some (ae_now env)\<rparr>) sb" by auto
        with m True show ?thesis by (simp add: Some LFile up del: agrees.simps)
      next
        case False
        with run k(4) have r: "states' = sb" "if ae_sha env d = fi_sha256 info then pr = PUnchanged
            else \<not> should_merge rel \<and> (case (remote_mtime env (fi_mtime info), Some t) of
              (Some r, Some l) \<Rightarrow> if l > r then pr = PSkipNewer else pr = PConflict | _ \<Rightarrow> pr = PConflict)" "pr \<noteq> PMerge"
          by (auto simp: mtimes_agree [OF assms(8)] split: option.splits if_splits)
        with ag' show ?thesis by (simp add: Some LFile sh(2) del: agrees.simps)
      qed
    qed
  qed
qed

text \<open>The two kinds of step that touch the disk.\<close>

lemma step_written:
  assumes pl: "planning env base L0" and mi: "mirrors env base L0 states L" and wf1: "wf_tree L1" "dir_at L1 (butlast p)" "p \<noteq> []"
    and none: "map_of L p = None" "map_of L1 p = None"
    and up: "\<forall>n < length p. map_of L (take n p) \<in> {None, Some LDir}"
    and at: "\<forall>q. map_of L1 q = (if \<exists>n < length p. q = take n p then Some LDir else map_of L q)"
    and sha: "ae_sha env data = h" and L2: "L2 = AList.update p (LFile data t) L1"
    and pr: "\<forall>q. planned_state env L0 states' q =
        (if q = p then no_state\<lparr>ls_exists := True, ls_hashed := True, ls_sha := Some h, ls_mtime := Some t\<rparr>
         else if (\<exists>n < length p. q = take n p) \<and> \<not> ls_exists (planned_state env L0 states q)
         then (planned_state env L0 states q)\<lparr>ls_exists := True, ls_dir := True\<rparr> else planned_state env L0 states q)"
    and rel: "\<forall>n \<le> length p. relevant (take n p)"
  shows "mirrors env base L0 states' L2"
  unfolding mirrors_def
proof (intro conjI allI impI)
  show "wf_tree L2" unfolding L2 by (rule update_wf [OF wf1]) (simp add: none(2) dir_at_def)
next
  fix q assume q: "relevant q"
  have np: "\<not> (\<exists>n < length p. p = take n p)" by (metis length_take less_irrefl min_less_iff_conj)
  have ag: "agrees env base L0 q (planned_state env L0 states q) (map_of L q)" "is_link L q = is_link L0 q"
    using mi q by (simp_all add: mirrors_def)
  consider (own) "q = p" | (up) "q \<noteq> p" "\<exists>n < length p. q = take n p" | (other) "q \<noteq> p" "\<not> (\<exists>n < length p. q = take n p)" by blast
  then have "agrees env base L0 q (planned_state env L0 states' q) (map_of L2 q) \<and> is_link L2 q = is_link L q"
  proof cases
    case own
    with pr sha none(1) show ?thesis by (simp add: L2 update_conv' no_state_def is_link_def)
  next
    case up': up
    with up have l: "map_of L q \<in> {None, Some LDir}" "map_of L2 q = Some LDir" using at by (auto simp: L2 update_conv')
    with ag(1) pr up' show ?thesis by (auto simp: is_link_def no_state_def)
  next
    case other
    from at [THEN spec, of q, unfolded if_not_P [OF other(2)]] other(1) have "map_of L2 q = map_of L q"
      unfolding L2 by (simp add: update_conv')
    moreover have "planned_state env L0 states' q = planned_state env L0 states q" using pr [THEN spec, of q] other by auto
    ultimately show ?thesis using ag(1) by (simp add: is_link_def)
  qed
  with ag(2) show "agrees env base L0 q (planned_state env L0 states' q) (map_of L2 q)" "is_link L2 q = is_link L0 q" by simp_all
qed

lemma step_on_file:
  assumes mi: "mirrors env base L0 states L" and wf: "wf_tree L2" and old: "map_of L p = Some (LFile d t)"
    and other: "\<forall>q. relevant q \<and> q \<noteq> p \<longrightarrow> map_of L2 q = map_of L q"
    and own: "map_of L2 p = Some (LFile d' t')"
    and st: "\<forall>q. q \<noteq> p \<longrightarrow> planned_state env L0 states' q = planned_state env L0 states q"
    and ag: "agrees env base L0 p (planned_state env L0 states' p) (Some (LFile d' t'))"
  shows "mirrors env base L0 states' L2"
  unfolding mirrors_def
proof (intro conjI allI impI)
  fix q assume q: "relevant q"
  have m: "agrees env base L0 q (planned_state env L0 states q) (map_of L q)" "is_link L q = is_link L0 q"
    using mi q by (simp_all add: mirrors_def)
  show "agrees env base L0 q (planned_state env L0 states' q) (map_of L2 q)" "is_link L2 q = is_link L0 q"
    using m other q own st ag old by (cases "q = p"; simp add: is_link_def)+
qed (rule wf)

text \<open>The step of a path that is not there, and of one that is a file.\<close>

lemma predict_none:
  assumes pl: "planning env base L0" and mi: "mirrors env base L0 states (st_tree s)" and pb: "plannable base rel"
    and none: "map_of (st_tree s) (local_path base rel) = None"
    and up: "\<forall>n < length (local_path base rel). map_of (st_tree s) (take n (local_path base rel)) \<in> {None, Some LDir}"
    and s2: "rp_recorded (st_rep s2) = None"
      "\<forall>q. map_of (st_tree s2) q = (if \<exists>n < length (local_path base rel). q = take n (local_path base rel)
         then Some LDir else map_of (st_tree s) q)"
    and sha: "ae_sha env data = fi_sha256 info"
    and q: "\<forall>q. planned_state env L0 states' q =
        (if q = local_path base rel
         then no_state\<lparr>ls_exists := True, ls_hashed := True, ls_sha := Some (fi_sha256 info),
           ls_mtime := Some (restored_mtime env (local_path base rel) (fi_mtime info))\<rparr>
         else if (\<exists>n < length (local_path base rel). q = take n (local_path base rel)) \<and> \<not> ls_exists (planned_state env L0 states q)
         then (planned_state env L0 states q)\<lparr>ls_exists := True, ls_dir := True\<rparr> else planned_state env L0 states q)"
  shows "\<exists>s3. apply_write env (local_path base rel) data (fi_mtime info) s2 = (Inr Written, s3) \<and> mirrors env base L0 states' (st_tree s3)"
proof -
  let ?p = "local_path base rel"
  have h: "healthy (ae_io env)" using pl by (simp add: planning_def)
  have wf: "wf_tree (st_tree s)" using mi by (simp add: mirrors_def)
  have ne: "?p \<noteq> []" using plannable_path [OF pb] by blast
  have rel: "\<forall>n \<le> length ?p. relevant (take n ?p)" using pb by (simp add: plannable_def)
  from written_wf [OF wf ne none up s2(2)] have w: "wf_tree (st_tree s2)" "dir_at (st_tree s2) (butlast ?p)" "map_of (st_tree s2) ?p = None"
    by blast+
  from apply_write_healthy [OF h s2(1) ne w(2,3), of data "fi_mtime info"] obtain s3 where
    s3: "apply_write env ?p data (fi_mtime info) s2 = (Inr Written, s3)"
      "st_tree s3 = AList.update ?p (LFile data (restored_mtime env ?p (fi_mtime info))) (st_tree s2)" by blast
  have "mirrors env base L0 states' (st_tree s3)"
    by (rule step_written [OF pl mi w(1,2) ne none w(3) up s2(2) sha s3(2) q rel])
  with s3(1) show ?thesis by blast
qed

lemma predict_file:
  assumes pl: "planning env base L0" and mi: "mirrors env base L0 states (st_tree s)" and pb: "plannable base rel"
    and old: "map_of (st_tree s) (local_path base rel) = Some (LFile d t)"
    and there: "map_of (st_tree s2) = map_of (st_tree s)" and rec: "rp_recorded (st_rep s2) = None"
    and pu: "(\<forall>q. q \<noteq> local_path base rel \<longrightarrow> planned_state env L0 states' q = planned_state env L0 states q) \<and>
       (if pr = PMerge then should_merge rel \<and>
          (\<forall>d' t'. agrees env base L0 (local_path base rel) (planned_state env L0 states' (local_path base rel)) (Some (LFile d' t')))
        else agrees env base L0 (local_path base rel) (planned_state env L0 states' (local_path base rel)) (Some (LFile d t))) \<and>
       (pr = PMerge \<or>
        (if ae_sha env d = fi_sha256 info then pr = PUnchanged
         else \<not> should_merge rel \<and>
           (case (remote_mtime env (fi_mtime info), Some t) of
              (Some r, Some l) \<Rightarrow> if l > r then pr = PSkipNewer else pr = PConflict
            | _ \<Rightarrow> pr = PConflict)))"
  shows "\<exists>out s3. apply_existing env (local_path base rel) r rel data info dev s2 = (Inr out, s3) \<and> foretells pr out \<and>
    mirrors env base L0 states' (st_tree s3)"
proof -
  let ?p = "local_path base rel" and ?L = "st_tree s"
  have h: "healthy (ae_io env)" and ni: "\<not> ae_interactive env" "set_order (ae_iter env)" using pl by (simp_all add: planning_def)
  have ne: "?p \<noteq> []" using plannable_path [OF pb] by blast
  have f: "map_of (st_tree s2) ?p = Some (LFile d t)" using there old by simp
  have w2: "wf_tree (st_tree s2)" using mi there by (simp add: mirrors_def wf_tree_def dir_at_def)
  have d2: "dir_at (st_tree s2) (butlast ?p)" using w2 f ne by (simp add: wf_tree_def)
  have rb: "relevant (butlast ?p)" using pb unfolding plannable_def by (metis butlast_conv_take diff_le_self)
  from apply_on_file [OF h ni(1,2) rec f ne d2 w2 rb, of r rel data info dev] obtain out s3 where
    ex: "apply_existing env ?p r rel data info dev s2 = (Inr out, s3)" "wf_tree (st_tree s3)"
      "\<forall>q. relevant q \<and> q \<noteq> ?p \<longrightarrow> map_of (st_tree s3) q = map_of ?L q"
    and out: "if ae_sha env d = fi_sha256 info then out = Unchanged \<and> map_of (st_tree s3) ?p = Some (LFile d t)
      else if should_merge rel then
        (out = Unchanged \<and> map_of (st_tree s3) ?p = Some (LFile d t)) \<or>
        (out = Merged \<and> (\<exists>m t'. map_of (st_tree s3) ?p = Some (LFile m t')))
      else if local_newer env (st_tree s2) ?p (fi_mtime info) then out = Skipped \<and> map_of (st_tree s3) ?p = Some (LFile d t)
      else out \<in> {Conflicted, Failed} \<and> map_of (st_tree s3) ?p = Some (LFile d t)" unfolding there by blast
  have ln: "local_newer env (st_tree s2) ?p (fi_mtime info) = (case remote_mtime env (fi_mtime info) of None \<Rightarrow> False | Some r \<Rightarrow> t > r)"
    using f h by (simp add: local_newer_def local_mtime_def healthy_def)
  note st = pu [THEN conjunct1] and ag = pu [THEN conjunct2, THEN conjunct1] and pr' = pu [THEN conjunct2, THEN conjunct2]
  show ?thesis
  proof (cases "pr = PMerge")
    case True
    with ag have sm: "should_merge rel" "\<And>d' t'. agrees env base L0 ?p (planned_state env L0 states' ?p) (Some (LFile d' t'))" by auto
    from out sm(1) obtain d' t' where o: "out = Unchanged \<or> out = Merged" "map_of (st_tree s3) ?p = Some (LFile d' t')"
      by (auto split: if_splits)
    from step_on_file [OF mi ex(2) old ex(3) o(2) st sm(2)] ex(1) o(1) True show ?thesis by auto
  next
    case False
    with pr' ag out ln have o: "foretells pr out" "map_of (st_tree s3) ?p = Some (LFile d t)"
      "agrees env base L0 ?p (planned_state env L0 states' ?p) (Some (LFile d t))"
      by (auto simp del: agrees.simps split: if_splits option.splits)
    from step_on_file [OF mi ex(2) old ex(3) o(2) st o(3)] ex(1) o(1) show ?thesis by blast
  qed
qed

lemma predict_step:
  assumes pl: "planning env base L0" and mi: "mirrors env base L0 states (st_tree s)" and pb: "plannable base rel"
    and sha: "ae_sha env data = fi_sha256 info" and pr: "predict env L0 base rel info states = (pr, states')"
  shows "\<exists>out s'. checked_apply env base dev rel info data s = (None, s') \<and> entered out rel (st_rep s) (st_rep s') \<and>
    foretells pr out \<and> mirrors env base L0 states' (st_tree s')"
proof (cases "has_symlinked_component (ae_io env) L0 base rel")
  case True
  with pr have "pr = PSkipLink" "states' = states" by (simp_all add: predict_def Let_def)
  moreover have "has_symlinked_component (ae_io env) (st_tree s) base rel"
    using mirrors_links [OF mi _ _ pb, of "ae_io env"] True pl by (simp add: planning_def)
  ultimately show ?thesis using mi
    by (intro exI [of _ Skipped] exI [of _ "ledger Skipped rel s"]) (simp add: checked_apply_def ledger_def entered_def add_outcome_def)
next
  case nolink: False
  let ?p = "local_path base rel" and ?L = "st_tree s"
  define s1 where "s1 = s\<lparr>st_rep := begin_file rel ?p (resolve_path ?p) (st_rep s)\<rparr>"
  have h: "healthy (ae_io env)" and wf0: "wf_tree L0" using pl by (simp_all add: planning_def)
  have wf: "wf_tree ?L" using mi by (simp add: mirrors_def)
  have nl: "\<not> has_symlinked_component (ae_io env) ?L base rel" using mirrors_links [OF mi wf0 h pb] nolink by simp
  have links: "\<not> is_link ?L (take n ?p)" if "n \<le> length ?p" for n
    using no_links [OF mi wf0 h pb nl _ that] pl by (simp add: planning_def)
  have s1: "st_tree s1 = ?L" "rp_recorded (st_rep s1) = None" by (simp_all add: s1_def begin_file_def)
  have ne: "?p \<noteq> []" and inside: "path_inside base rel" using plannable_path [OF pb] pb by (auto simp: plannable_def)
  have rel: "relevant (take n ?p)" if "n \<le> length ?p" for n using pb that by (simp add: plannable_def)
  note go = checked_outcome [OF nl inside sha ne, folded s1_def]
  have lp: "\<not> is_link ?L ?p" using links [of "length ?p"] by simp
  obtain b st1 where bl: "blocked env L0 (parents ?p) states = (b, st1)" by (metis prod.collapse)
  have "\<forall>q \<in> set (parents ?p). relevant q \<and> \<not> is_link ?L q" using rel links by (auto simp: parents_mem)
  from blocked_ok [OF bl mi this] have st1: "planned_state env L0 st1 = planned_state env L0 states"
    and b: "b \<longleftrightarrow> (\<exists>n < length ?p. \<exists>d t. map_of ?L (take n ?p) = Some (LFile d t))"
    unfolding Bex_def parents_mem by blast+
  show ?thesis
  proof (cases b)
    case True
    with b obtain n d t where n: "n < length ?p" "map_of (st_tree s1) (take n ?p) = Some (LFile d t)" by (auto simp: s1(1))
    from apply_blocked [OF _ n s1(2)] wf lp obtain s2 where
      "apply_incoming_file env ?p (resolve_path ?p) rel data info dev s1 = (Inr Failed, s2)" "st_tree s2 = ?L"
      unfolding s1(1) by blast
    from go [OF this(1)] this(2) obtain s' where s': "checked_apply env base dev rel info data s = (None, s')"
      "st_tree s' = ?L" "entered Failed rel (st_rep s) (st_rep s')" by auto
    have "pr = PCollision" "states' = st1" using pr bl True nolink by (simp_all add: predict_def Let_def)
    with s' mirrors_cong [OF mi st1, of ?L] show ?thesis by (intro exI [of _ Failed] exI [of _ s']) simp
  next
    case False
    have up: "\<forall>n < length ?p. map_of ?L (take n ?p) \<in> {None, Some LDir}"
    proof (intro allI impI)
      fix n assume "n < length ?p"
      with links [of n] b False show "map_of ?L (take n ?p) \<in> {None, Some LDir}"
        by (cases "map_of ?L (take n ?p)") (auto simp: is_link_def split: lentry.splits)
    qed
    have bF: "blocked env L0 (parents ?p) states = (False, st1)" using bl False by simp
    have iso: "ae_fromiso env [] = None" using pl by (simp add: planning_def)
    note pu = predict_unblocked [OF nolink bF st1 pr mi h pb iso lp]
    from apply_after_parents [OF pl, of s1 ?p "resolve_path ?p" rel data info dev] wf ne lp s1 up obtain s2 where
      s2: "rp_recorded (st_rep s2) = None"
        "\<forall>q. map_of (st_tree s2) q = (if \<exists>n < length ?p. q = take n ?p then Some LDir else map_of ?L q)"
        "apply_incoming_file env ?p (resolve_path ?p) rel data info dev s1 =
          (if map_of ?L ?p = None then apply_write env ?p data (fi_mtime info) s2
           else apply_existing env ?p (resolve_path ?p) rel data info dev s2)" unfolding s1(1) by blast
    show ?thesis
    proof (cases "map_of ?L ?p")
      case None
      from predict_none [OF pl mi pb None up s2(1,2) sha] pu None obtain s3 where
        s3: "apply_write env ?p data (fi_mtime info) s2 = (Inr Written, s3)" "mirrors env base L0 states' (st_tree s3)"
        and p: "pr = PWrite" by auto
      have "apply_incoming_file env ?p (resolve_path ?p) rel data info dev s1 = (Inr Written, s3)" using s2(3) None s3(1) by simp
      from go [OF this] obtain s' where s': "checked_apply env base dev rel info data s = (None, s')"
        "st_tree s' = st_tree s3" "entered Written rel (st_rep s) (st_rep s')" by auto
      with s3(2) p show ?thesis by (intro exI [of _ Written] exI [of _ s']) simp
    next
      case (Some e)
      have there: "map_of (st_tree s2) = map_of ?L" by (rule parents_there [OF wf _ s2(2)]) (simp add: Some)
      note inc = s2(3) [unfolded Some option.simps if_False]
      show ?thesis
      proof (cases e)
        case LDir
        with Some there have "local_hash env (st_tree s2) ?p = None" by (simp add: local_hash_def read_file_def content_def)
        moreover from finish_fresh [OF s2(1), of Failed] obtain r where "finish Failed s2 = (Inr Failed, s2\<lparr>st_rep := r\<rparr>)" by blast
        ultimately have "apply_incoming_file env ?p (resolve_path ?p) rel data info dev s1 = (Inr Failed, s2\<lparr>st_rep := r\<rparr>)"
          using inc by (simp add: apply_existing_def)
        from go [OF this] obtain s' where s': "checked_apply env base dev rel info data s = (None, s')"
          "st_tree s' = st_tree s2" "entered Failed rel (st_rep s) (st_rep s')" by auto
        from pu Some LDir have p: "pr = PCollision" "planned_state env L0 states' = planned_state env L0 states" by simp_all
        from mirrors_cong [OF mi p(2), of "st_tree s'"] s' p(1) there show ?thesis
          by (intro exI [of _ Failed] exI [of _ s']) simp
      next
        case (LLink d)
        with Some lp show ?thesis by (simp add: is_link_def)
      next
        case (LFile d t)
        note pu = pu [unfolded Some LFile option.case lentry.case]
        from predict_file [OF pl mi pb _ there s2(1) pu, of "resolve_path ?p" data dev] Some LFile obtain out s3 where
          ex: "apply_existing env ?p (resolve_path ?p) rel data info dev s2 = (Inr out, s3)" "foretells pr out"
            "mirrors env base L0 states' (st_tree s3)" by blast
        have "apply_incoming_file env ?p (resolve_path ?p) rel data info dev s1 = (Inr out, s3)" using inc ex(1) by simp
        from go [OF this] obtain s' where s': "checked_apply env base dev rel info data s = (None, s')"
          "st_tree s' = st_tree s3" "entered out rel (st_rep s) (st_rep s')" by auto
        with ex show ?thesis by (intro exI [of _ out] exI [of _ s']) simp
      qed
    qed
  qed
qed

section \<open>The preview comes true\<close>

text \<open>A pull of one source from the peers in turn.\<close>

fun pull_peers :: "apply_env \<Rightarrow> path \<Rightarrow> (pystr \<times> files) list \<Rightarrow> apply_state \<Rightarrow> apply_exc option \<times> apply_state" where
  "pull_peers env base [] s = (None, s)"
| "pull_peers env base ((dev, files) # ps) s =
     (case download_and_apply env base dev files s of
        (Some e, s') \<Rightarrow> (Some e, s')
      | (None, s') \<Rightarrow> pull_peers env base ps s')"

definition deliverable :: "apply_env \<Rightarrow> pystr \<Rightarrow> file_info \<Rightarrow> bool" where
  "deliverable env dev info \<longleftrightarrow> (\<exists>data n. download env dev info = Plain data n \<and> ae_sha env data = fi_sha256 info)"

definition good_peers :: "apply_env \<Rightarrow> path \<Rightarrow> (pystr \<times> files) list \<Rightarrow> bool" where
  "good_peers env base peers \<longleftrightarrow>
     (\<forall>peer \<in> set peers. \<forall>e \<in> set (snd peer). plannable base (fst e) \<and> deliverable env (fst peer) (snd e))"

lemma predict_all_append:
  "predict_all env L base (xs @ ys) states =
     (case predict_all env L base xs states of (prs, st1) \<Rightarrow>
        (case predict_all env L base ys st1 of (prs', st2) \<Rightarrow> (prs @ prs', st2)))"
  by (induction xs arbitrary: states) (auto split: prod.splits)

lemma outcome_paths_append:
  "length xs = length outs \<Longrightarrow> outcome_paths (xs @ ys) (outs @ outs') out = outcome_paths xs outs out @ outcome_paths ys outs' out"
  by (simp add: outcome_paths_def)

lemma predict_files:
  assumes "planning env base L0" "mirrors env base L0 states (st_tree s)"
    "\<forall>e \<in> set files. plannable base (fst e) \<and> deliverable env dev (snd e)"
    "predict_all env L0 base files states = (prs, states')"
  shows "\<exists>s' outs. download_and_apply env base dev files s = (None, s') \<and> list_all2 foretells prs outs \<and> length outs = length files \<and>
    mirrors env base L0 states' (st_tree s') \<and>
    (\<forall>out. rp_outcomes (st_rep s') out = rp_outcomes (st_rep s) out @ outcome_paths files outs out)"
  using assms(2-4)
proof (induction files arbitrary: s states prs)
  case Nil
  then show ?case by (intro exI [of _ s] exI [of _ "[]"]) (simp add: outcome_paths_def)
next
  case (Cons f fs)
  obtain rel info where f: "f = (rel, info)" by (cases f)
  obtain pr st1 prs' where p: "predict env L0 base rel info states = (pr, st1)"
    "predict_all env L0 base fs st1 = (prs', states')" "prs = pr # prs'"
    using Cons.prems(3) by (auto simp: f split: prod.splits)
  from Cons.prems(2) f obtain data n where d: "download env dev info = Plain data n" "ae_sha env data = fi_sha256 info"
    and pb: "plannable base rel" by (auto simp: deliverable_def)
  let ?s = "s\<lparr>st_rep := (st_rep s)\<lparr>rp_bytes := rp_bytes (st_rep s) + n\<rparr>\<rparr>"
  have "mirrors env base L0 states (st_tree ?s)" using Cons.prems(1) by simp
  from predict_step [OF assms(1) this pb d(2) p(1), of dev] obtain out s1 where
    s1: "checked_apply env base dev rel info data ?s = (None, s1)" "entered out rel (st_rep ?s) (st_rep s1)"
      "foretells pr out" "mirrors env base L0 st1 (st_tree s1)" by blast
  from Cons.prems(2) have "\<forall>e \<in> set fs. plannable base (fst e) \<and> deliverable env dev (snd e)" by simp
  from Cons.IH [OF s1(4) this p(2)] obtain s' outs where
    s': "download_and_apply env base dev fs s1 = (None, s')" "list_all2 foretells prs' outs" "length outs = length fs"
      "mirrors env base L0 states' (st_tree s')"
      "\<And>o1. rp_outcomes (st_rep s') o1 = rp_outcomes (st_rep s1) o1 @ outcome_paths fs outs o1" by blast
  have "download_and_apply env base dev (f # fs) s = (None, s')" using d(1) s1(1) s'(1) by (simp add: f download_step_def)
  moreover have "rp_outcomes (st_rep s') o1 = rp_outcomes (st_rep s) o1 @ outcome_paths (f # fs) (out # outs) o1" for o1
    using s'(5) [of o1] s1(2) by (simp add: entered_def outcome_paths_Cons f)
  ultimately show ?case using s1(3) s'(2-4) p(3) by (intro exI [of _ s'] exI [of _ "out # outs"]) simp
qed

lemma predict_peers:
  assumes "planning env base L0" "mirrors env base L0 states (st_tree s)" "good_peers env base peers"
    "predict_all env L0 base (concat (map snd peers)) states = (prs, states')"
  shows "\<exists>s' outs. pull_peers env base peers s = (None, s') \<and> list_all2 foretells prs outs \<and>
    length outs = length (concat (map snd peers)) \<and>
    (\<forall>out. rp_outcomes (st_rep s') out = rp_outcomes (st_rep s) out @ outcome_paths (concat (map snd peers)) outs out)"
  using assms(2-4)
proof (induction peers arbitrary: s states prs)
  case Nil
  then show ?case by (intro exI [of _ s] exI [of _ "[]"]) (simp add: outcome_paths_def)
next
  case (Cons p ps)
  obtain dev files where p: "p = (dev, files)" by (cases p)
  obtain pr1 st1 pr2 where pr: "predict_all env L0 base files states = (pr1, st1)"
    "predict_all env L0 base (concat (map snd ps)) st1 = (pr2, states')" "prs = pr1 @ pr2"
    using Cons.prems(3) by (auto simp: p predict_all_append split: prod.splits)
  have "\<forall>e \<in> set files. plannable base (fst e) \<and> deliverable env dev (snd e)" and gp: "good_peers env base ps"
    using Cons.prems(2) by (simp_all add: p good_peers_def)
  from predict_files [OF assms(1) Cons.prems(1) this(1) pr(1)] obtain s1 o1 where
    s1: "download_and_apply env base dev files s = (None, s1)" "list_all2 foretells pr1 o1" "length o1 = length files"
      "mirrors env base L0 st1 (st_tree s1)"
      "\<And>out. rp_outcomes (st_rep s1) out = rp_outcomes (st_rep s) out @ outcome_paths files o1 out" by blast
  from Cons.IH [OF s1(4) gp pr(2)] obtain s' o2 where
    s': "pull_peers env base ps s1 = (None, s')" "list_all2 foretells pr2 o2" "length o2 = length (concat (map snd ps))"
      "\<And>out. rp_outcomes (st_rep s') out = rp_outcomes (st_rep s1) out @ outcome_paths (concat (map snd ps)) o2 out" by blast
  have "rp_outcomes (st_rep s') out = rp_outcomes (st_rep s) out @ outcome_paths (files @ concat (map snd ps)) (o1 @ o2) out" for out
    using s'(4) [of out] s1(5) [of out] outcome_paths_append [OF s1(3) [symmetric]] by simp
  moreover have "list_all2 foretells (pr1 @ pr2) (o1 @ o2)" using s1(2) s'(2) by (rule list_all2_appendI)
  ultimately show ?case using s1(1,3) s'(1,3) pr(3) by (intro exI [of _ s'] exI [of _ "o1 @ o2"]) (simp add: p)
qed

lemma no_refusals:
  assumes "list_all2 foretells prs outs" "fail_mode_refusals prs = []"
  shows "Conflicted \<notin> set outs \<and> Failed \<notin> set outs"
  using assms
proof (induction rule: list_all2_induct)
  case (Cons pr prs out outs)
  then show ?case by (cases pr) (auto simp: fail_mode_refusals_def)
qed simp

section \<open>Properties\<close>


definition plan_peers :: "(pystr \<times> files) list" where
  "plan_peers = [(u ''abcd1234'', take 2 pull_remote),
     (u ''ef567890'', [(u ''d/a.md'', \<lparr>fi_sha256 = replicate 64 98, fi_mtime = None, fi_rest = []\<rparr>)])]"


end
