(* ===== verification/Revision.thy ===== *)
theory Revision
  imports Upload Push
begin

text \<open>
  Reading one revision of one file, \<open>manifest.read_file_revision\<close>: the checks before and after the
  read, the bounded read loop, and the one re-read of \<open>_record_file\<close>. Other programs write while the
  read goes on, so every system call has an outcome of its own. The laws: the loop ends within the
  bound, and an accepted revision is the content the file really had, throughout the read.
\<close>

section \<open>System calls\<close>

datatype fkind = KReg | KDir | KLink | KOther

record fstat =
  fs_kind :: fkind
  fs_dev :: nat
  fs_ino :: nat
  fs_nlink :: nat
  fs_size :: nat
  fs_mtime :: int
  fs_ctime :: int

definition inode :: "fstat \<Rightarrow> nat \<times> nat" where
  "inode st = (fs_dev st, fs_ino st)"

definition revision_signature :: "fstat \<Rightarrow> nat \<times> nat \<times> nat \<times> int \<times> int" where
  "revision_signature st = (fs_dev st, fs_ino st, fs_size st, fs_mtime st, fs_ctime st)"

text \<open>\<open>FileNotFoundError\<close> is \<open>Vanished\<close>, any other \<open>OSError\<close> is \<open>Failing\<close>.\<close>

datatype 'a call = Done 'a | Vanished | Failing

text \<open>The calls of one read in their order. \<open>ro_read n off k\<close> is the \<open>n\<close>-th \<open>os.read\<close>, at the offset
  the descriptor has reached, of at most \<open>k\<close> bytes.\<close>

record read_obs =
  ro_path0 :: "fstat call"
  ro_open :: "unit call"
  ro_fd0 :: "fstat call"
  ro_link0 :: tree
  ro_read :: "nat \<Rightarrow> nat \<Rightarrow> int \<Rightarrow> bytes option"
  ro_fd1 :: "fstat call"
  ro_path1 :: "fstat call"
  ro_link1 :: tree
  ro_link2 :: tree

record file_revision =
  fr_digest :: pystr
  fr_size :: nat
  fr_mtime_iso :: pystr
  fr_dev :: nat
  fr_ino :: nat
  fr_mtime_ns :: int
  fr_ctime_ns :: int
  fr_data :: "bytes option"

text \<open>\<open>SnapshotChanged\<close> with its reason, \<open>_FileTooLarge\<close>, and any other \<open>SnapshotError\<close>.\<close>

datatype read_result = Accepted file_revision | Transient pystr | Oversized nat | Refuses

text \<open>The hash, the text of an mtime, the size cap, whether the bytes are kept, whether hard links are
  refused (\<open>source_type == "muse"\<close>), and the path below the base when one is given.\<close>

record read_args =
  ra_sha :: "bytes \<Rightarrow> pystr"
  ra_iso :: "int \<Rightarrow> pystr"
  ra_max :: nat
  ra_retain :: bool
  ra_muse :: bool
  ra_rel :: "pystr option"

section \<open>The read\<close>

definition HASH_CHUNK :: int where
  "HASH_CHUNK = 65536"

text \<open>What \<open>remaining\<close> holds after the loop, and the bytes fed to the hasher.\<close>

function read_loop ::
  "(nat \<Rightarrow> nat \<Rightarrow> int \<Rightarrow> bytes option) \<Rightarrow> nat \<Rightarrow> int \<Rightarrow> bytes \<Rightarrow> (bytes \<times> int) option" where
  "read_loop rd n remaining acc =
     (if remaining > 0 then
        (case rd n (length acc) (min HASH_CHUNK remaining) of
           None \<Rightarrow> None
         | Some chunk \<Rightarrow>
             if chunk = [] then Some (acc, remaining)
             else read_loop rd (Suc n) (remaining - int (length chunk)) (acc @ chunk))
      else Some (acc, remaining))"
  by auto
termination by (relation "measure (\<lambda>(rd, n, remaining, acc). nat remaining)") auto

declare read_loop.simps [simp del]

definition revision_private :: "read_args \<Rightarrow> tree \<Rightarrow> fstat \<Rightarrow> bool" where
  "revision_private ra tree st \<longleftrightarrow>
     (case ra_rel ra of None \<Rightarrow> True | Some rel \<Rightarrow> path_has_descendant_symlink True tree rel = Inr False) \<and>
     \<not> (ra_muse ra \<and> fs_nlink st > 1)"

definition after_read :: "read_args \<Rightarrow> read_obs \<Rightarrow> fstat \<Rightarrow> bytes \<times> int \<Rightarrow> read_result" where
  "after_read ra ob st0 loop =
     (case ro_fd1 ob of
        Vanished \<Rightarrow> Transient (u ''vanished'')
      | Failing \<Rightarrow> Refuses
      | Done st1 \<Rightarrow>
          (case ro_path1 ob of
             Vanished \<Rightarrow> Transient (u ''vanished'')
           | Failing \<Rightarrow> Refuses
           | Done p1 \<Rightarrow>
               if fs_kind p1 \<noteq> KReg then Refuses
               else if \<not> revision_private ra (ro_link1 ob) st1 then Refuses
               else if inode p1 \<noteq> inode st1 \<and> \<not> revision_private ra (ro_link2 ob) p1 then Refuses
               else if snd loop \<le> 0 then Transient (u ''grew'')
               else if int (ra_max ra) + 1 - snd loop \<noteq> int (fs_size st0) then Transient (u ''changed'')
               else if revision_signature st0 \<noteq> revision_signature st1 then Transient (u ''changed'')
               else if inode p1 \<noteq> inode st0 then Transient (u ''changed'')
               else Accepted \<lparr>fr_digest = ra_sha ra (fst loop), fr_size = fs_size st0,
                      fr_mtime_iso = ra_iso ra (fs_mtime st0), fr_dev = fs_dev st0, fr_ino = fs_ino st0,
                      fr_mtime_ns = fs_mtime st0, fr_ctime_ns = fs_ctime st0,
                      fr_data = (if ra_retain ra then Some (fst loop) else None)\<rparr>))"

definition read_file_revision :: "read_args \<Rightarrow> read_obs \<Rightarrow> read_result" where
  "read_file_revision ra ob =
     (case ro_path0 ob of
        Vanished \<Rightarrow> Transient (u ''vanished'')
      | Failing \<Rightarrow> Refuses
      | Done p0 \<Rightarrow>
          if fs_kind p0 \<noteq> KReg then Refuses
          else
            (case ro_open ob of
               Vanished \<Rightarrow> Transient (u ''vanished'')
             | Failing \<Rightarrow> Refuses
             | Done _ \<Rightarrow>
                 (case ro_fd0 ob of
                    Done st0 \<Rightarrow>
                      if fs_kind st0 \<noteq> KReg then Refuses
                      else if \<not> revision_private ra (ro_link0 ob) st0 then Refuses
                      else if inode st0 \<noteq> inode p0 then Transient (u ''changed'')
                      else if fs_size st0 > ra_max ra then
                        (if fs_size p0 \<le> ra_max ra then Transient (u ''grew'') else Oversized (fs_size st0))
                      else
                        (case read_loop (ro_read ob) 0 (int (ra_max ra) + 1) [] of
                           None \<Rightarrow> Refuses
                         | Some loop \<Rightarrow> after_read ra ob st0 loop)
                  | _ \<Rightarrow> Refuses)))"

text \<open>The outcome as the upload sees it.\<close>

definition upload_read :: "read_result \<Rightarrow> read_rev" where
  "upload_read r =
     (case r of
        Accepted fr \<Rightarrow>
          Revision \<lparr>rv_data = (case fr_data fr of None \<Rightarrow> [] | Some d \<Rightarrow> d), rv_digest = fr_digest fr,
            rv_size = int (fr_size fr), rv_mtime = fr_mtime_iso fr\<rparr>
      | Transient reason \<Rightarrow> Changed reason
      | Oversized n \<Rightarrow> TooLarge
      | Refuses \<Rightarrow> Refused)"

text \<open>\<open>_record_file\<close> reads again once when the first read was disturbed.\<close>

definition read_twice :: "read_args \<Rightarrow> read_obs \<Rightarrow> read_obs \<Rightarrow> read_result" where
  "read_twice ra ob1 ob2 =
     (case read_file_revision ra ob1 of Transient _ \<Rightarrow> read_file_revision ra ob2 | r \<Rightarrow> r)"

section \<open>The loop is bounded\<close>

text \<open>How many \<open>os.read\<close> calls the loop makes.\<close>

function reads_made :: "(nat \<Rightarrow> nat \<Rightarrow> int \<Rightarrow> bytes option) \<Rightarrow> nat \<Rightarrow> int \<Rightarrow> bytes \<Rightarrow> nat" where
  "reads_made rd n remaining acc =
     (if remaining > 0 then
        (case rd n (length acc) (min HASH_CHUNK remaining) of
           None \<Rightarrow> 1
         | Some chunk \<Rightarrow>
             if chunk = [] then 1
             else Suc (reads_made rd (Suc n) (remaining - int (length chunk)) (acc @ chunk)))
      else 0)"
  by auto
termination by (relation "measure (\<lambda>(rd, n, remaining, acc). nat remaining)") auto

declare reads_made.simps [simp del]

text \<open>\<open>os.read\<close> never returns more bytes than it was asked for.\<close>

definition short_reads :: "(nat \<Rightarrow> nat \<Rightarrow> int \<Rightarrow> bytes option) \<Rightarrow> bool" where
  "short_reads rd \<longleftrightarrow> (\<forall>n off k chunk. rd n off k = Some chunk \<longrightarrow> int (length chunk) \<le> k)"

lemma reads_made_le: "reads_made rd n remaining acc \<le> nat remaining"
proof (induction rd n remaining acc rule: reads_made.induct)
  case (1 rd n remaining acc)
  show ?case
  proof (cases "remaining > 0 \<and> (\<exists>chunk. rd n (length acc) (min HASH_CHUNK remaining) = Some chunk \<and> chunk \<noteq> [])")
    case True
    then obtain chunk where c: "rd n (length acc) (min HASH_CHUNK remaining) = Some chunk" "chunk \<noteq> []" "remaining > 0" by blast
    have "reads_made rd (Suc n) (remaining - int (length chunk)) (acc @ chunk) \<le> nat (remaining - int (length chunk))"
      using 1 c by blast
    moreover have "nat (remaining - int (length chunk)) < nat remaining" using c by (cases chunk) simp_all
    ultimately have "Suc (reads_made rd (Suc n) (remaining - int (length chunk)) (acc @ chunk)) \<le> nat remaining" by linarith
    then show ?thesis using c by (subst reads_made.simps) simp
  next
    case False
    then show ?thesis by (subst reads_made.simps) (auto split: option.splits)
  qed
qed

lemma read_loop_bounds:
  assumes "read_loop rd n remaining acc = Some (d, rest)" "short_reads rd" "0 \<le> remaining"
  shows "0 \<le> rest \<and> rest \<le> remaining \<and> int (length d) = int (length acc) + remaining - rest"
  using assms
proof (induction rd n remaining acc arbitrary: d rest rule: read_loop.induct)
  case (1 rd n remaining acc)
  show ?case
  proof (cases "remaining > 0")
    case True
    then obtain chunk where c: "rd n (length acc) (min HASH_CHUNK remaining) = Some chunk"
      using "1.prems"(1) by (subst (asm) read_loop.simps) (auto split: option.splits)
    have k: "int (length chunk) \<le> remaining"
      using "1.prems"(2) c unfolding short_reads_def by (metis min.bounded_iff)
    show ?thesis
    proof (cases "chunk = []")
      case True
      then show ?thesis using c "1.prems" \<open>remaining > 0\<close> by (subst (asm) read_loop.simps) simp
    next
      case False
      have "read_loop rd (Suc n) (remaining - int (length chunk)) (acc @ chunk) = Some (d, rest)"
        using c "1.prems"(1) \<open>remaining > 0\<close> False by (subst (asm) read_loop.simps) simp
      from "1.IH" [OF \<open>remaining > 0\<close> c False this "1.prems"(2)] k show ?thesis by simp
    qed
  next
    case False
    then show ?thesis using "1.prems" by (subst (asm) read_loop.simps) simp
  qed
qed

text \<open>Bytes that are all read from the same content form a prefix of it.\<close>

lemma read_loop_prefix:
  assumes "read_loop rd n remaining acc = Some (x, rest)" "take (length acc) d = acc"
    "\<forall>n off k chunk. rd n off k = Some chunk \<longrightarrow> take (length chunk) (drop off d) = chunk"
  shows "take (length x) d = x"
  using assms
proof (induction rd n remaining acc rule: read_loop.induct)
  case (1 rd n remaining acc)
  show ?case
  proof (cases "remaining > 0")
    case True
    then obtain chunk where c: "rd n (length acc) (min HASH_CHUNK remaining) = Some chunk"
      using "1.prems"(1) by (subst (asm) read_loop.simps) (auto split: option.splits)
    show ?thesis
    proof (cases "chunk = []")
      case True
      then show ?thesis using "1.prems"(1,2) c \<open>remaining > 0\<close> by (subst (asm) read_loop.simps) simp
    next
      case False
      have "take (length (acc @ chunk)) d = acc @ chunk"
        using "1.prems"(2) "1.prems"(3) [rule_format, OF c] by (metis length_append take_add)
      moreover have "read_loop rd (Suc n) (remaining - int (length chunk)) (acc @ chunk) = Some (x, rest)"
        using "1.prems"(1) c True False by (subst (asm) read_loop.simps) simp
      ultimately show ?thesis using "1.IH" [OF True c False] "1.prems"(3) by blast
    qed
  next
    case False
    then show ?thesis using "1.prems"(1,2) by (subst (asm) read_loop.simps) simp
  qed
qed

section \<open>Files that change\<close>

text \<open>The past of the disk: what each inode was at each time. A history is honest when a file whose
  signature (size and the two nanosecond times) is the same at two times was not written between them.\<close>

record history =
  h_stat :: "nat \<Rightarrow> nat \<times> nat \<Rightarrow> fstat"
  h_content :: "nat \<Rightarrow> nat \<times> nat \<Rightarrow> bytes"

definition honest :: "history \<Rightarrow> nat \<times> nat \<Rightarrow> bool" where
  "honest h f \<longleftrightarrow>
     (\<forall>t. fs_size (h_stat h t f) = length (h_content h t f)) \<and>
     (\<forall>t t'. t \<le> t' \<and> revision_signature (h_stat h t f) = revision_signature (h_stat h t' f) \<longrightarrow>
        (\<forall>s. t \<le> s \<and> s \<le> t' \<longrightarrow> h_content h s f = h_content h t f))"

text \<open>The calls on the open descriptor, of inode \<open>f\<close>, happened between \<open>t0\<close> and \<open>t1\<close>.\<close>

definition witnessed :: "history \<Rightarrow> nat \<times> nat \<Rightarrow> nat \<Rightarrow> (nat \<Rightarrow> nat) \<Rightarrow> nat \<Rightarrow> read_obs \<Rightarrow> bool" where
  "witnessed h f t0 tr t1 ob \<longleftrightarrow>
     t0 \<le> t1 \<and> (\<forall>n. t0 \<le> tr n \<and> tr n \<le> t1) \<and>
     (\<forall>st. ro_fd0 ob = Done st \<longrightarrow> inode st = f \<and> st = h_stat h t0 f) \<and>
     (\<forall>st. ro_fd1 ob = Done st \<longrightarrow> st = h_stat h t1 f) \<and>
     (\<forall>n off k chunk. ro_read ob n off k = Some chunk \<longrightarrow>
        int (length chunk) \<le> k \<and> take (length chunk) (drop off (h_content h (tr n) f)) = chunk)"

text \<open>Acceptance passes every check.\<close>

lemma accepted_if [simp]:
  "(if b then Refuses else r) = Accepted fr \<longleftrightarrow> \<not> b \<and> r = Accepted fr"
  "(if b then Transient w else r) = Accepted fr \<longleftrightarrow> \<not> b \<and> r = Accepted fr"
  "(if b then (if c then Transient w else Oversized k) else r) = Accepted fr \<longleftrightarrow> \<not> b \<and> r = Accepted fr"
  "(case c1 of Done x \<Rightarrow> g x | Vanished \<Rightarrow> Transient w | Failing \<Rightarrow> Refuses) = Accepted fr \<longleftrightarrow>
     (\<exists>x. c1 = Done x \<and> g x = Accepted fr)"
  "(case c1 of Done x \<Rightarrow> g x | Vanished \<Rightarrow> Refuses | Failing \<Rightarrow> Refuses) = Accepted fr \<longleftrightarrow>
     (\<exists>x. c1 = Done x \<and> g x = Accepted fr)"
  "(case l of None \<Rightarrow> Refuses | Some y \<Rightarrow> k' y) = Accepted fr \<longleftrightarrow> (\<exists>y. l = Some y \<and> k' y = Accepted fr)"
  by (auto split: call.splits option.splits)

definition passed ::
  "read_args \<Rightarrow> read_obs \<Rightarrow> fstat \<Rightarrow> fstat \<Rightarrow> bytes \<Rightarrow> int \<Rightarrow> fstat \<Rightarrow> fstat \<Rightarrow> bool" where
  "passed ra ob p0 st0 x rest st1 p1 \<longleftrightarrow>
     ro_path0 ob = Done p0 \<and> fs_kind p0 = KReg \<and> ro_fd0 ob = Done st0 \<and> fs_kind st0 = KReg \<and>
     revision_private ra (ro_link0 ob) st0 \<and> inode st0 = inode p0 \<and> fs_size st0 \<le> ra_max ra \<and>
     read_loop (ro_read ob) 0 (int (ra_max ra) + 1) [] = Some (x, rest) \<and>
     ro_fd1 ob = Done st1 \<and> ro_path1 ob = Done p1 \<and> fs_kind p1 = KReg \<and> revision_private ra (ro_link1 ob) st1 \<and>
     rest > 0 \<and> int (ra_max ra) + 1 - rest = int (fs_size st0) \<and>
     revision_signature st0 = revision_signature st1 \<and> inode p1 = inode st0"

definition revision_of :: "read_args \<Rightarrow> fstat \<Rightarrow> bytes \<Rightarrow> file_revision" where
  "revision_of ra st0 x =
     \<lparr>fr_digest = ra_sha ra x, fr_size = fs_size st0, fr_mtime_iso = ra_iso ra (fs_mtime st0),
      fr_dev = fs_dev st0, fr_ino = fs_ino st0, fr_mtime_ns = fs_mtime st0, fr_ctime_ns = fs_ctime st0,
      fr_data = (if ra_retain ra then Some x else None)\<rparr>"

lemma accepted_passed:
  assumes "read_file_revision ra ob = Accepted fr"
  obtains p0 st0 x rest st1 p1 where "passed ra ob p0 st0 x rest st1 p1" "fr = revision_of ra st0 x"
proof -
  obtain p0 st0 x rest where a: "ro_path0 ob = Done p0" "fs_kind p0 = KReg" "ro_fd0 ob = Done st0" "fs_kind st0 = KReg"
    "revision_private ra (ro_link0 ob) st0" "inode st0 = inode p0" "fs_size st0 \<le> ra_max ra"
    "read_loop (ro_read ob) 0 (int (ra_max ra) + 1) [] = Some (x, rest)" "after_read ra ob st0 (x, rest) = Accepted fr"
    using assms unfolding read_file_revision_def by (simp, elim exE conjE) (simp add: not_less)
  obtain st1 p1 where b: "ro_fd1 ob = Done st1" "ro_path1 ob = Done p1" "fs_kind p1 = KReg"
    "revision_private ra (ro_link1 ob) st1" "\<not> rest \<le> 0" "int (ra_max ra) + 1 - rest = int (fs_size st0)"
    "revision_signature st0 = revision_signature st1" "inode p1 = inode st0" "revision_of ra st0 x = fr"
    using a(9) unfolding after_read_def revision_of_def [symmetric] by (simp, elim exE conjE) simp
  have "passed ra ob p0 st0 x rest st1 p1" using a b by (simp add: passed_def)
  with b(9) that show thesis by blast
qed

lemma accepted_content:
  assumes "read_file_revision ra ob = Accepted fr" "witnessed h f t0 tr t1 ob" "honest h f"
  shows "\<exists>d. (\<forall>s. t0 \<le> s \<and> s \<le> t1 \<longrightarrow> h_content h s f = d) \<and> fr_digest fr = ra_sha ra d \<and> fr_size fr = length d \<and>
    fr_data fr = (if ra_retain ra then Some d else None)"
proof -
  from assms(1) obtain p0 st0 x rest st1 p1 where p: "passed ra ob p0 st0 x rest st1 p1" and fr: "fr = revision_of ra st0 x"
    by (rule accepted_passed)
  from p have c: "ro_fd0 ob = Done st0" "read_loop (ro_read ob) 0 (int (ra_max ra) + 1) [] = Some (x, rest)"
    "ro_fd1 ob = Done st1" "int (ra_max ra) + 1 - rest = int (fs_size st0)"
    "revision_signature st0 = revision_signature st1" unfolding passed_def by blast+
  let ?d = "h_content h t0 f"
  note w = assms(2) [unfolded witnessed_def]
  note w_le = w [THEN conjunct1] and w_reads = w [THEN conjunct2, THEN conjunct1]
    and w_fd0 = w [THEN conjunct2, THEN conjunct2, THEN conjunct1]
    and w_fd1 = w [THEN conjunct2, THEN conjunct2, THEN conjunct2, THEN conjunct1]
    and w_read = w [THEN conjunct2, THEN conjunct2, THEN conjunct2, THEN conjunct2]
  have st: "st0 = h_stat h t0 f" "st1 = h_stat h t1 f" using w_fd0 [rule_format, OF c(1)] w_fd1 [rule_format, OF c(3)] by iprover+
  have const: "\<forall>s. t0 \<le> s \<and> s \<le> t1 \<longrightarrow> h_content h s f = ?d"
    by (rule assms(3) [unfolded honest_def, THEN conjunct2, THEN spec, THEN spec, THEN mp, OF conjI, OF w_le c(5) [unfolded st]])
  have size: "fs_size st0 = length ?d" using assms(3) st(1) by (simp add: honest_def)
  have "short_reads (ro_read ob)" unfolding short_reads_def by (intro allI impI) (drule w_read [rule_format], erule conjunct1)
  from read_loop_bounds [OF c(2) this] have "int (length x) = int (ra_max ra) + 1 - rest" by simp
  then have len: "length x = length ?d" using c(4) size by simp
  have "take (length chunk) (drop off ?d) = chunk" if "ro_read ob n off k = Some chunk" for n off k chunk
    using w_read [rule_format, OF that] const [rule_format, of "tr n"] w_reads by simp
  then have "take (length x) ?d = x" by (intro read_loop_prefix [OF c(2)]) simp_all
  then have "x = ?d" using len by simp
  then have "fr_digest fr = ra_sha ra ?d \<and> fr_size fr = length ?d \<and> fr_data fr = (if ra_retain ra then Some ?d else None)"
    using fr size by (simp add: revision_of_def)
  with const show ?thesis by blast
qed

section \<open>Properties\<close>

text \<open>C15. The read of a revision ends: whatever the system calls return, the loop makes at most
  \<open>max_file_size + 1\<close> reads, and when no read returns more than it was asked for it takes in at most
  \<open>max_file_size + 1\<close> bytes, all of them hashed.\<close>

theorem read_loop_ends:
  "reads_made (ro_read ob) 0 (int (ra_max ra) + 1) [] \<le> ra_max ra + 1 \<and>
   (read_loop (ro_read ob) 0 (int (ra_max ra) + 1) [] = None \<or>
    (\<exists>d rest. read_loop (ro_read ob) 0 (int (ra_max ra) + 1) [] = Some (d, rest) \<and>
       (short_reads (ro_read ob) \<longrightarrow> length d \<le> ra_max ra + 1 \<and> int (length d) = int (ra_max ra) + 1 - rest)))"
proof -
  have "reads_made (ro_read ob) 0 (int (ra_max ra) + 1) [] \<le> nat (int (ra_max ra) + 1)" by (rule reads_made_le)
  moreover have "int (length d) = int (ra_max ra) + 1 - rest \<and> length d \<le> ra_max ra + 1"
    if "read_loop (ro_read ob) 0 (int (ra_max ra) + 1) [] = Some (d, rest)" "short_reads (ro_read ob)" for d rest
    using read_loop_bounds [OF that] by simp
  ultimately show ?thesis by (cases "read_loop (ro_read ob) 0 (int (ra_max ra) + 1) []") auto
qed

text \<open>C14. An accepted revision is a snapshot. On a disk other programs write to, where a file whose
  signature is unchanged was not written in between, an accepted revision of inode \<open>f\<close> is the content
  \<open>f\<close> had during the whole read: the digest, the size and the kept bytes agree with it, the path named
  \<open>f\<close>, a regular file below no link, before and after the read, the size is within the cap, and a file
  of a muse source had one link only.\<close>

theorem revision_is_snapshot:
  assumes "read_file_revision ra ob = Accepted fr" "witnessed h f t0 tr t1 ob" "honest h f"
  shows "(\<exists>d. (\<forall>s. t0 \<le> s \<and> s \<le> t1 \<longrightarrow> h_content h s f = d) \<and> fr_digest fr = ra_sha ra d \<and> fr_size fr = length d \<and>
      fr_data fr = (if ra_retain ra then Some d else None)) \<and>
    fr_size fr \<le> ra_max ra \<and> (fr_dev fr, fr_ino fr) = f \<and>
    (\<exists>p0 p1. ro_path0 ob = Done p0 \<and> ro_path1 ob = Done p1 \<and> inode p0 = f \<and> inode p1 = f \<and>
       fs_kind p0 = KReg \<and> fs_kind p1 = KReg) \<and>
    (\<forall>rel. ra_rel ra = Some rel \<longrightarrow> path_has_descendant_symlink True (ro_link0 ob) rel = Inr False \<and>
       path_has_descendant_symlink True (ro_link1 ob) rel = Inr False) \<and>
    (ra_muse ra \<longrightarrow> fs_nlink (h_stat h t0 f) \<le> 1)"
proof -
  from assms(1) obtain p0 st0 x rest st1 p1 where p: "passed ra ob p0 st0 x rest st1 p1" and fr: "fr = revision_of ra st0 x"
    by (rule accepted_passed)
  have f: "inode st0 = f" "st0 = h_stat h t0 f"
    using assms(2) p unfolding witnessed_def passed_def by blast+
  show ?thesis
  proof (intro conjI)
    show "\<exists>d. (\<forall>s. t0 \<le> s \<and> s \<le> t1 \<longrightarrow> h_content h s f = d) \<and> fr_digest fr = ra_sha ra d \<and> fr_size fr = length d \<and>
      fr_data fr = (if ra_retain ra then Some d else None)" by (rule accepted_content [OF assms])
    show "\<exists>p0 p1. ro_path0 ob = Done p0 \<and> ro_path1 ob = Done p1 \<and> inode p0 = f \<and> inode p1 = f \<and>
       fs_kind p0 = KReg \<and> fs_kind p1 = KReg" using p f by (auto simp: passed_def)
    show "(fr_dev fr, fr_ino fr) = f" using fr f by (simp add: inode_def revision_of_def)
    show "\<forall>rel. ra_rel ra = Some rel \<longrightarrow> path_has_descendant_symlink True (ro_link0 ob) rel = Inr False \<and>
       path_has_descendant_symlink True (ro_link1 ob) rel = Inr False"
      using p by (auto simp: passed_def revision_private_def)
    show "ra_muse ra \<longrightarrow> fs_nlink (h_stat h t0 f) \<le> 1" using p f by (auto simp: passed_def revision_private_def)
  qed (use p fr in \<open>simp_all add: passed_def revision_of_def\<close>)
qed

definition quiet_stat :: fstat where
  "quiet_stat = \<lparr>fs_kind = KReg, fs_dev = 1, fs_ino = 7, fs_nlink = 1, fs_size = 2, fs_mtime = 5, fs_ctime = 6\<rparr>"

definition quiet_read :: read_obs where
  "quiet_read = \<lparr>ro_path0 = Done quiet_stat, ro_open = Done (), ro_fd0 = Done quiet_stat, ro_link0 = (\<lambda>_. Reg),
     ro_read = (\<lambda>n off k. if k < 0 then None else Some (take (nat k) (drop off [1, 2]))), ro_fd1 = Done quiet_stat,
     ro_path1 = Done quiet_stat, ro_link1 = (\<lambda>_. Reg), ro_link2 = (\<lambda>_. Reg)\<rparr>"

definition quiet_args :: read_args where
  "quiet_args = \<lparr>ra_sha = (\<lambda>d. map uint d), ra_iso = (\<lambda>t. [t]), ra_max = 9, ra_retain = True, ra_muse = True,
     ra_rel = Some (u ''memory/a.md'')\<rparr>"

definition quiet_revision :: file_revision where
  "quiet_revision = \<lparr>fr_digest = [1, 2], fr_size = 2, fr_mtime_iso = [5], fr_dev = 1, fr_ino = 7, fr_mtime_ns = 5,
     fr_ctime_ns = 6, fr_data = Some [1, 2]\<rparr>"

theorem revision_is_snapshot_witness:
  "read_file_revision quiet_args quiet_read = Accepted quiet_revision \<and> fr_size quiet_revision \<le> ra_max quiet_args"
proof -
  have run: "read_file_revision quiet_args quiet_read = Accepted quiet_revision" by code_simp
  have "witnessed \<lparr>h_stat = (\<lambda>_ _. quiet_stat), h_content = (\<lambda>_ _. [1, 2])\<rparr> (1, 7) 0 (\<lambda>_. 0) 0 quiet_read"
    by (auto simp: witnessed_def quiet_read_def quiet_stat_def inode_def min_def split: if_splits)
  moreover have "honest \<lparr>h_stat = (\<lambda>_ _. quiet_stat), h_content = (\<lambda>_ _. [1, 2])\<rparr> (1, 7)"
    by (simp add: honest_def quiet_stat_def)
  ultimately show ?thesis using run revision_is_snapshot [OF run] by blast
qed

theorem read_loop_ends_witness:
  "reads_made (ro_read quiet_read) 0 (int (ra_max quiet_args) + 1) [] = 2 \<and>
   (\<exists>d rest. read_loop (ro_read quiet_read) 0 (int (ra_max quiet_args) + 1) [] = Some (d, rest) \<and>
      length d \<le> ra_max quiet_args + 1)"
proof -
  have "short_reads (ro_read quiet_read)" by (auto simp: short_reads_def quiet_read_def split: if_splits)
  moreover have "read_loop (ro_read quiet_read) 0 (int (ra_max quiet_args) + 1) [] \<noteq> None" by code_simp
  moreover have "reads_made (ro_read quiet_read) 0 (int (ra_max quiet_args) + 1) [] = 2" by code_simp
  ultimately show ?thesis using read_loop_ends [of quiet_read quiet_args] by auto
qed

end
