(* ===== verification/Scan.thy ===== *)
theory Scan
  imports Revision
begin

text \<open>
  The publishing scan, \<open>manifest.py\<close>: the walk of a directory that never follows a link nor enters a
  nested checkout (\<open>_collect_regular_files_scandir\<close>), the recording of one file (\<open>_record_file\<close>), the
  walkers of the three kinds of source and \<open>build_manifest_v2\<close>, all in strict mode. The disk changes
  while it is scanned: every listing, stat and read has an outcome of its own. The laws: a scan that
  succeeds accounts for every file it could reach, and publishes nothing else.
\<close>

section \<open>Observations of a tree\<close>

text \<open>What the walk of a directory sees: the probe of its \<open>.git\<close>, its listing, and the stat of each entry
  that is not followed.\<close>

datatype dobs = DObs lstat_out listing
  and listing = ListGone | ListFails | Entries "(pystr \<times> child) list"
  and child = CGone | CFails | CLink | CFile | COther | CDir dobs

definition rel_posix :: "pystr list \<Rightarrow> pystr" where
  "rel_posix parts = (if parts = [] then u ''.'' else join_with [47] parts)"

fun directory_is_git_repo :: "lstat_out \<Rightarrow> snapshot_error + bool" where
  "directory_is_git_repo StatError = Inl SnapshotError"
| "directory_is_git_repo Dir = Inr True"
| "directory_is_git_repo Reg = Inr True"
| "directory_is_git_repo _ = Inr False"

text \<open>\<open>nested_repo_root\<close>: the outermost checkout on the way down to a directory.\<close>

fun nested_repo_root :: "tree \<Rightarrow> pystr list \<Rightarrow> pystr list \<Rightarrow> snapshot_error + pystr list option" where
  "nested_repo_root tree upper [] = Inr None"
| "nested_repo_root tree upper (part # parts) =
     (case tree (upper @ [part]) of
        Missing \<Rightarrow> Inr None
      | NotDir \<Rightarrow> Inr None
      | StatError \<Rightarrow> Inl SnapshotError
      | Dir \<Rightarrow>
          (case directory_is_git_repo (tree (upper @ [part, u ''.git''])) of
             Inl e \<Rightarrow> Inl e
           | Inr True \<Rightarrow> Inr (Some (upper @ [part]))
           | Inr False \<Rightarrow> nested_repo_root tree (upper @ [part]) parts)
      | _ \<Rightarrow> Inr None)"

definition dir_is_policy_skipped :: "pystr list \<Rightarrow> pystr list \<Rightarrow> bool" where
  "dir_is_policy_skipped parts skip_prefixes \<longleftrightarrow>
     parts \<noteq> [] \<and>
     (under_skip_prefix (join_with [47] parts) skip_prefixes \<or>
      list_ex (\<lambda>pat. endswith pat (u ''/'') \<and> rstrip_slash pat \<in> set (split_on 47 (join_with [47] parts))) EXCLUDED)"

section \<open>The walk\<close>

text \<open>Regular files, entries that vanished before their stat, and the checkouts that were left out.\<close>

record walked =
  wk_files :: "pystr list list"
  wk_gone :: "pystr list list"
  wk_repos :: "pystr list list"

definition nothing :: walked where
  "nothing = \<lparr>wk_files = [], wk_gone = [], wk_repos = []\<rparr>"

definition all_walked :: "walked list \<Rightarrow> walked" where
  "all_walked ws = \<lparr>wk_files = concat (map wk_files ws), wk_gone = concat (map wk_gone ws),
     wk_repos = concat (map wk_repos ws)\<rparr>"

lemma try_each_cong [fundef_cong]:
  assumes "xs = ys" "\<And>x. x \<in> set ys \<Longrightarrow> f x = g x"
  shows "try_each f xs = try_each g ys"
  unfolding assms(1) using assms(2)
proof (induction ys)
  case (Cons y ys)
  then have "try_each f ys = try_each g ys" by simp
  with Cons.prems [of y] show ?case by (simp split: sum.splits)
qed simp

lemma size_entry: "(name, c) \<in> set es \<Longrightarrow> size c < Suc (size_list (size_prod (\<lambda>_. 0) size) es)"
  by (induction es) auto

text \<open>\<open>hold\<close> says whether vanished entries may be held.\<close>

function walk_dir :: "bool \<Rightarrow> pystr list \<Rightarrow> bool \<Rightarrow> pystr list \<Rightarrow> dobs \<Rightarrow> snapshot_error + walked"
  and walk_child :: "bool \<Rightarrow> pystr list \<Rightarrow> pystr list \<Rightarrow> child \<Rightarrow> snapshot_error + walked" where
  "walk_dir hold skip discovered rel (DObs git listing) =
     (if dir_is_policy_skipped rel skip then Inr nothing
      else
        (case (if rel = [] then Inr False else directory_is_git_repo git) of
           Inl e \<Rightarrow> Inl e
         | Inr True \<Rightarrow> Inr (nothing\<lparr>wk_repos := [rel]\<rparr>)
         | Inr False \<Rightarrow>
             (case listing of
                ListGone \<Rightarrow> if discovered then Inl SnapshotError else Inr nothing
              | ListFails \<Rightarrow> Inl SnapshotError
              | Entries es \<Rightarrow>
                  (case try_each (\<lambda>(name, c). walk_child hold skip (rel @ [name]) c) (sort_key fst es) of
                     Inl e \<Rightarrow> Inl e
                   | Inr ws \<Rightarrow> Inr (all_walked ws)))))"
| "walk_child hold skip rel c =
     (case c of
        CGone \<Rightarrow> if hold then Inr (nothing\<lparr>wk_gone := [rel]\<rparr>) else Inl SnapshotError
      | CFails \<Rightarrow> Inl SnapshotError
      | CLink \<Rightarrow> Inr nothing
      | COther \<Rightarrow> Inr nothing
      | CFile \<Rightarrow> Inr (nothing\<lparr>wk_files := [rel]\<rparr>)
      | CDir d \<Rightarrow> walk_dir hold skip True rel d)"
  by pat_completeness auto
termination
  by (relation "measure (\<lambda>x. case x of Inl (hold, skip, discovered, rel, d) \<Rightarrow> size d | Inr (hold, skip, rel, c) \<Rightarrow> size c)")
    (auto dest: size_entry)

declare walk_dir.simps [simp del] walk_child.simps [simp del]

section \<open>One source\<close>

text \<open>A configured source with its include lists, and the observations of one scan of it: the resolved
  root, its stat, the marker prefixes, and for an include the probes of the walker (\<open>so_above\<close>), its \<open>lstat\<close>, the
  probes of the collector (\<open>so_start\<close>) and its tree; for a collected file the link probe, the \<open>lstat\<close> and
  its repetition, and the two reads.\<close>

record walk_cfg = source_cfg +
  sc_dirs :: "pystr list"
  sc_files :: "pystr list"

record source_obs =
  so_base :: pystr
  so_root :: "unit call"
  so_markers :: "snapshot_error + pystr list"
  so_projects :: "(pystr \<times> child) list option"
  so_above :: "pystr \<Rightarrow> tree"
  so_include :: "pystr \<Rightarrow> fstat call"
  so_start :: "pystr \<Rightarrow> tree"
  so_dir :: "pystr \<Rightarrow> dobs"
  so_link :: "pystr list \<Rightarrow> tree"
  so_stat :: "pystr list \<Rightarrow> fstat call"
  so_again :: "pystr list \<Rightarrow> fstat call"
  so_read1 :: "pystr list \<Rightarrow> read_obs"
  so_read2 :: "pystr list \<Rightarrow> read_obs"

definition SYNCED_SUBDIRS :: "pystr list" where
  "SYNCED_SUBDIRS = [u ''memory'', u ''todos'']"

definition MUSE_SYNCED_SUBDIRS :: "pystr list" where
  "MUSE_SYNCED_SUBDIRS = [u ''memory'']"

text \<open>The reports of \<open>on_skip\<close> about files, and the result under construction: the recorded files, the
  inodes met, the files held with their reasons.\<close>

datatype skip_reason = SkipLink | SkipHardlink | SkipLarge nat

record source_scan =
  zs_files :: files
  zs_seen :: "(nat \<times> nat) list"
  zs_held :: "(pystr, pystr) dict"
  zs_skips :: "(pystr \<times> skip_reason) list"
  zs_gone :: "pystr list list"
  zs_repos :: "pystr list list"

definition empty_scan :: source_scan where
  "empty_scan = \<lparr>zs_files = [], zs_seen = [], zs_held = [], zs_skips = [], zs_gone = [], zs_repos = []\<rparr>"

record scan_args =
  za_sha :: "bytes \<Rightarrow> pystr"
  za_iso :: "int \<Rightarrow> pystr"
  za_max :: nat
  za_hold :: bool

definition read_args_for :: "scan_args \<Rightarrow> bool \<Rightarrow> pystr \<Rightarrow> read_args" where
  "read_args_for za muse rel =
     \<lparr>ra_sha = za_sha za, ra_iso = za_iso za, ra_max = za_max za, ra_retain = False, ra_muse = muse, ra_rel = Some rel\<rparr>"

definition info_of :: "file_revision \<Rightarrow> file_info" where
  "info_of fr = \<lparr>fi_sha256 = fr_digest fr, fi_mtime = Some (fr_mtime_iso fr),
     fi_rest = [(u ''size'', JInt (int (fr_size fr)))]\<rparr>"

text \<open>\<open>excl\<close> is \<open>_is_excluded\<close> with the patterns of the source.\<close>

definition record_file ::
  "scan_args \<Rightarrow> bool \<Rightarrow> (pystr \<Rightarrow> bool) \<Rightarrow> source_obs \<Rightarrow> pystr list \<Rightarrow> source_scan \<Rightarrow> snapshot_error + source_scan" where
  "record_file za muse excl so parts z =
     (let rel = join_with [47] parts in
      if excl rel then Inr z
      else
        (case read_twice (read_args_for za muse rel) (so_read1 so parts) (so_read2 so parts) of
           Accepted fr \<Rightarrow> Inr (z\<lparr>zs_files := AList.update rel (info_of fr) (zs_files z)\<rparr>)
         | Oversized n \<Rightarrow> Inr (z\<lparr>zs_skips := zs_skips z @ [(rel, SkipLarge n)]\<rparr>)
         | Transient reason \<Rightarrow>
             if za_hold za then Inr (z\<lparr>zs_held := AList.update rel reason (zs_held z)\<rparr>) else Inl SnapshotError
         | Refuses \<Rightarrow> Inl SnapshotError))"

text \<open>\<open>_stat_collected_file\<close>: nothing, when the file is to be left out, or its stat.\<close>

definition stat_collected_file ::
  "scan_args \<Rightarrow> (pystr \<Rightarrow> bool) \<Rightarrow> source_obs \<Rightarrow> pystr list \<Rightarrow> source_scan \<Rightarrow>
     snapshot_error + fstat option \<times> source_scan" where
  "stat_collected_file za excl so parts z =
     (case so_stat so parts of
        Done st \<Rightarrow> Inr (Some st, z)
      | Failing \<Rightarrow> Inl SnapshotError
      | Vanished \<Rightarrow>
          (case so_again so parts of
             Done st \<Rightarrow> Inr (Some st, z)
           | Failing \<Rightarrow> Inl SnapshotError
           | Vanished \<Rightarrow>
               (let rel = join_with [47] parts in
                if excl rel then Inr (None, z)
                else if za_hold za then Inr (None, z\<lparr>zs_held := AList.update rel (u ''vanished'') (zs_held z)\<rparr>)
                else Inl SnapshotError)))"

text \<open>The loop body of the muse and generic walkers.\<close>

definition file_step ::
  "scan_args \<Rightarrow> bool \<Rightarrow> (pystr \<Rightarrow> bool) \<Rightarrow> source_obs \<Rightarrow> pystr list \<Rightarrow> source_scan \<Rightarrow> snapshot_error + source_scan" where
  "file_step za muse excl so parts z =
     (let rel = join_with [47] parts in
      case link_below True (so_link so parts) [] parts of
        Inl e \<Rightarrow> Inl e
      | Inr True \<Rightarrow> Inr (z\<lparr>zs_skips := zs_skips z @ [(rel, SkipLink)]\<rparr>)
      | Inr False \<Rightarrow>
          (case stat_collected_file za excl so parts z of
             Inl e \<Rightarrow> Inl e
           | Inr (None, z) \<Rightarrow> Inr z
           | Inr (Some st, z) \<Rightarrow>
               if fs_kind st = KLink then Inr (z\<lparr>zs_skips := zs_skips z @ [(rel, SkipLink)]\<rparr>)
               else if muse \<and> fs_nlink st > 1 then Inr (z\<lparr>zs_skips := zs_skips z @ [(rel, SkipHardlink)]\<rparr>)
               else if \<not> muse \<and> excl rel then Inr z
               else if inode st \<in> set (zs_seen z) then Inr z
               else record_file za muse excl so parts (z\<lparr>zs_seen := inode st # zs_seen z\<rparr>)))"

fun each_file :: "(pystr list \<Rightarrow> source_scan \<Rightarrow> snapshot_error + source_scan) \<Rightarrow> pystr list list \<Rightarrow> source_scan \<Rightarrow>
  snapshot_error + source_scan" where
  "each_file step [] z = Inr z"
| "each_file step (p # ps) z = (case step p z of Inl e \<Rightarrow> Inl e | Inr z \<Rightarrow> each_file step ps z)"

text \<open>\<open>_collect_regular_files_scandir\<close> from the include \<open>name\<close>, a folder at \<open>parts\<close>.\<close>

definition collect ::
  "scan_args \<Rightarrow> pystr list \<Rightarrow> source_obs \<Rightarrow> pystr \<Rightarrow> pystr list \<Rightarrow> snapshot_error + walked" where
  "collect za skip so name parts =
     (case nested_repo_root (so_start so name) [] parts of
        Inl e \<Rightarrow> Inl e
      | Inr (Some root) \<Rightarrow> Inr (nothing\<lparr>wk_repos := [root]\<rparr>)
      | Inr None \<Rightarrow>
          (case link_below True (so_start so name) [] parts of
             Inl e \<Rightarrow> Inl e
           | Inr True \<Rightarrow> Inr nothing
           | Inr False \<Rightarrow> walk_dir (za_hold za) skip False parts (so_dir so name)))"

definition sorted_files :: "pystr list list \<Rightarrow> pystr list list" where
  "sorted_files ps = sort_key (join_with [47]) ps"

definition collect_include ::
  "scan_args \<Rightarrow> pystr list \<Rightarrow> source_obs \<Rightarrow> pystr \<Rightarrow> snapshot_error + walked" where
  "collect_include za skip so name =
     (let parts = path_parts name in
      if under_skip_prefix (rel_posix parts) skip then Inr nothing
      else
        (case nested_repo_root (so_above so name) [] parts of
           Inl e \<Rightarrow> Inl e
         | Inr (Some root) \<Rightarrow> Inr (nothing\<lparr>wk_repos := [root]\<rparr>)
         | Inr None \<Rightarrow>
             (case so_include so name of
                Vanished \<Rightarrow> Inr nothing
              | Failing \<Rightarrow> Inl SnapshotError
              | Done st \<Rightarrow> if fs_kind st = KDir then collect za skip so name parts else Inr nothing)))"

definition collect_file :: "pystr list \<Rightarrow> source_obs \<Rightarrow> pystr \<Rightarrow> snapshot_error + walked" where
  "collect_file skip so name =
     (let parts = path_parts name in
      if under_skip_prefix (rel_posix parts) skip then Inr nothing
      else
        (case nested_repo_root (so_above so name) [] (butlast parts) of
           Inl e \<Rightarrow> Inl e
         | Inr (Some root) \<Rightarrow> Inr (nothing\<lparr>wk_repos := [root]\<rparr>)
         | Inr None \<Rightarrow>
             (case so_include so name of
                Vanished \<Rightarrow> Inr nothing
              | Failing \<Rightarrow> Inl SnapshotError
              | Done st \<Rightarrow> if fs_kind st = KReg then Inr (nothing\<lparr>wk_files := [parts]\<rparr>) else Inr nothing)))"

definition after_walk :: "walked \<Rightarrow> source_scan" where
  "after_walk w = empty_scan\<lparr>zs_gone := wk_gone w, zs_repos := wk_repos w\<rparr>"

definition walk_generic_source :: "scan_args \<Rightarrow> walk_cfg \<Rightarrow> source_obs \<Rightarrow> snapshot_error + source_scan" where
  "walk_generic_source za cfg so =
     (case so_root so of
        Vanished \<Rightarrow> Inr empty_scan
      | Failing \<Rightarrow> Inl SnapshotError
      | Done _ \<Rightarrow>
          (case so_markers so of
             Inl e \<Rightarrow> Inl e
           | Inr skip \<Rightarrow>
               if under_skip_prefix [] skip then Inr empty_scan
               else
                 (case try_each (collect_include za skip so) (sc_dirs cfg) of
                    Inl e \<Rightarrow> Inl e
                  | Inr ws \<Rightarrow>
                      (case try_each (collect_file skip so) (sc_files cfg) of
                         Inl e \<Rightarrow> Inl e
                       | Inr vs \<Rightarrow>
                           (let w = all_walked (ws @ vs) in
                            each_file (file_step za False (is_excluded (sc_exclude cfg) skip (sc_include cfg)) so)
                              (sorted_files (wk_files w)) (after_walk w))))))"

definition collect_muse :: "scan_args \<Rightarrow> source_obs \<Rightarrow> pystr \<Rightarrow> snapshot_error + walked" where
  "collect_muse za so name =
     (case so_include so name of
        Vanished \<Rightarrow> Inr nothing
      | Failing \<Rightarrow> Inl SnapshotError
      | Done st \<Rightarrow> if fs_kind st = KDir then collect za [] so name (path_parts name) else Inr nothing)"

definition walk_muse_source :: "scan_args \<Rightarrow> walk_cfg \<Rightarrow> source_obs \<Rightarrow> snapshot_error + source_scan" where
  "walk_muse_source za cfg so =
     (case so_root so of
        Vanished \<Rightarrow> Inr empty_scan
      | Failing \<Rightarrow> Inl SnapshotError
      | Done _ \<Rightarrow>
          (case try_each (collect_muse za so) MUSE_SYNCED_SUBDIRS of
             Inl e \<Rightarrow> Inl e
           | Inr ws \<Rightarrow>
               (let w = all_walked ws in
                each_file (file_step za True (is_excluded (MUSE_EXCLUDE_PATTERNS @ sc_exclude cfg) [] []) so)
                  (sorted_files (wk_files w)) (after_walk w))))"

text \<open>The claude walker: the folders of \<open>projects\<close> that are no checkouts, and in each the synced ones.\<close>

definition project_subdir :: "source_obs \<Rightarrow> pystr list \<Rightarrow> snapshot_error + pystr list list" where
  "project_subdir so parts =
     (case so_include so (join_with [47] parts) of
        Vanished \<Rightarrow> Inr []
      | Failing \<Rightarrow> Inl SnapshotError
      | Done st \<Rightarrow> Inr (if fs_kind st = KDir then [parts] else []))"

definition project_dirs :: "source_obs \<Rightarrow> pystr \<times> child \<Rightarrow> snapshot_error + pystr list list \<times> pystr list list" where
  "project_dirs so e =
     (case e of (name, c) \<Rightarrow>
        (case c of
           CGone \<Rightarrow> Inl SnapshotError
         | CFails \<Rightarrow> Inl SnapshotError
         | CDir (DObs git _) \<Rightarrow>
             (case directory_is_git_repo git of
                Inl e \<Rightarrow> Inl e
              | Inr True \<Rightarrow> Inr ([], [[u ''projects'', name]])
              | Inr False \<Rightarrow>
                  (case try_each (\<lambda>sub. project_subdir so [u ''projects'', name, sub]) SYNCED_SUBDIRS of
                     Inl e \<Rightarrow> Inl e
                   | Inr ds \<Rightarrow> Inr (concat ds, [])))
         | _ \<Rightarrow> Inr ([], [])))"

definition claude_step ::
  "scan_args \<Rightarrow> (pystr \<Rightarrow> bool) \<Rightarrow> source_obs \<Rightarrow> pystr list \<Rightarrow> source_scan \<Rightarrow> snapshot_error + source_scan" where
  "claude_step za excl so parts z =
     (case collect za [] so (join_with [47] parts) parts of
        Inl e \<Rightarrow> Inl e
      | Inr w \<Rightarrow>
          each_file (record_file za False excl so) (sorted_files (wk_files w))
            (z\<lparr>zs_gone := zs_gone z @ wk_gone w, zs_repos := zs_repos z @ wk_repos w\<rparr>))"

definition walk_claude_source :: "scan_args \<Rightarrow> walk_cfg \<Rightarrow> source_obs \<Rightarrow> snapshot_error + source_scan" where
  "walk_claude_source za cfg so =
     (case so_include so (u ''projects'') of
        Vanished \<Rightarrow> Inr empty_scan
      | Failing \<Rightarrow> Inl SnapshotError
      | Done st \<Rightarrow>
          if fs_kind st \<noteq> KDir then Inr empty_scan
          else
            (case nested_repo_root (so_above so (u ''projects'')) [] [u ''projects''] of
               Inl e \<Rightarrow> Inl e
             | Inr (Some root) \<Rightarrow> Inr (empty_scan\<lparr>zs_repos := [root]\<rparr>)
             | Inr None \<Rightarrow>
                 (case so_projects so of
                    None \<Rightarrow> Inl SnapshotError
                  | Some es \<Rightarrow>
                      (case try_each (project_dirs so) (sort_key fst es) of
                         Inl e \<Rightarrow> Inl e
                       | Inr ds \<Rightarrow>
                           each_file (claude_step za (is_excluded (sc_exclude cfg) [] []) so) (concat (map fst ds))
                             (empty_scan\<lparr>zs_repos := concat (map snd ds)\<rparr>)))))"

section \<open>All sources\<close>

datatype scan_error = ScanRefused snapshot_error | UnknownType

definition walk_source :: "scan_args \<Rightarrow> walk_cfg \<Rightarrow> source_obs \<Rightarrow> scan_error + source_scan" where
  "walk_source za cfg so =
     (let r = (if sc_type cfg = u ''claude'' then Some (walk_claude_source za cfg so)
               else if sc_type cfg = u ''muse'' then Some (walk_muse_source za cfg so)
               else if sc_type cfg = u ''generic'' then Some (walk_generic_source za cfg so)
               else None)
      in case r of
           None \<Rightarrow> Inl UnknownType
         | Some (Inl e) \<Rightarrow> Inl (ScanRefused e)
         | Some (Inr z) \<Rightarrow> Inr z)"

text \<open>The out-parameters: the checkouts of a source in \<open>nested_roots\<close>, once each, and, when files may
  be held, a dict of its own for the source in \<open>held\<close> and \<open>held_candidates\<close>.\<close>

definition add_roots :: "pystr \<Rightarrow> pystr list list \<Rightarrow> path_sets \<Rightarrow> path_sets" where
  "add_roots name roots nested =
     (if roots = [] then nested
      else AList.update name (fold List.insert (map (join_with [47]) roots) (dget nested name [])) nested)"

definition add_held :: "pystr \<Rightarrow> source_scan \<Rightarrow> hold_map \<times> path_sets \<Rightarrow> hold_map \<times> path_sets" where
  "add_held name z h =
     (case h of (held, candidates) \<Rightarrow>
        (AList.update name (dict_update (dget held name []) (zs_held z)) held,
         AList.update name (fold List.insert (map (join_with [47]) (zs_gone z)) (dget candidates name [])) candidates))"

fun walk_sources ::
  "scan_args \<Rightarrow> (pystr \<Rightarrow> source_obs) \<Rightarrow> walk_cfg list \<Rightarrow> (pystr, source_data) dict \<Rightarrow> path_sets \<Rightarrow>
     (hold_map \<times> path_sets) option \<Rightarrow> scan_error + (pystr, source_data) dict \<times> path_sets \<times> (hold_map \<times> path_sets) option" where
  "walk_sources za obs [] sources nested held = Inr (sources, nested, held)"
| "walk_sources za obs (cfg # cfgs) sources nested held =
     (case walk_source za cfg (obs (sc_name cfg)) of
        Inl e \<Rightarrow> Inl e
      | Inr z \<Rightarrow>
          walk_sources za obs cfgs
            (AList.update (sc_name cfg) \<lparr>sd_base_path = JStr (so_base (obs (sc_name cfg))), sd_files = zs_files z\<rparr> sources)
            (add_roots (sc_name cfg) (zs_repos z) nested)
            (map_option (add_held (sc_name cfg) z) held))"

definition build_manifest_v2 ::
  "scan_args \<Rightarrow> (pystr \<Rightarrow> source_obs) \<Rightarrow> pystr \<Rightarrow> pystr \<Rightarrow> pystr \<Rightarrow> walk_cfg list \<Rightarrow> scan_error + scan" where
  "build_manifest_v2 za obs device_id device_name now_iso cfgs =
     (case walk_sources za obs cfgs [] [] (if za_hold za then Some ([], []) else None) of
        Inl e \<Rightarrow> Inl e
      | Inr (sources, nested, held) \<Rightarrow>
          Inr \<lparr>s_manifest = \<lparr>m_timestamp = now_iso,
                 m_rest = [(u ''device_id'', JStr device_id), (u ''device_name'', JStr device_name)],
                 m_sources = Some sources, m_tombstones = []\<rparr>,
               s_nested = nested, s_held = held\<rparr>)"

section \<open>What a scan can reach\<close>

text \<open>\<open>listed skip rel d p c\<close>: below the folder \<open>rel\<close>, seen as \<open>d\<close>, the entry \<open>p\<close> was seen as \<open>c\<close>, and no
  folder on the way is left out by policy or is a checkout.\<close>

definition entered_dir :: "pystr list \<Rightarrow> pystr list \<Rightarrow> lstat_out \<Rightarrow> bool" where
  "entered_dir skip rel git \<longleftrightarrow> \<not> dir_is_policy_skipped rel skip \<and> (rel = [] \<or> directory_is_git_repo git = Inr False)"

inductive listed :: "pystr list \<Rightarrow> pystr list \<Rightarrow> dobs \<Rightarrow> pystr list \<Rightarrow> child \<Rightarrow> bool" where
  here: "\<lbrakk>entered_dir skip rel git; (name, c) \<in> set es\<rbrakk> \<Longrightarrow> listed skip rel (DObs git (Entries es)) (rel @ [name]) c"
| below: "\<lbrakk>entered_dir skip rel git; (name, CDir d) \<in> set es; listed skip (rel @ [name]) d p c\<rbrakk> \<Longrightarrow>
    listed skip rel (DObs git (Entries es)) p c"

inductive_simps listed_simps: "listed skip rel (DObs git l) p c"

lemma all_walked_files: "p \<in> set (wk_files (all_walked ws)) \<longleftrightarrow> (\<exists>w \<in> set ws. p \<in> set (wk_files w))"
  by (simp add: all_walked_def)

lemma nothing_files [simp]: "wk_files nothing = []"
  by (simp add: nothing_def)

lemma try_each_files:
  assumes "try_each f xs = Inr ws"
  shows "(\<exists>w \<in> set ws. p \<in> set (wk_files w)) \<longleftrightarrow> (\<exists>x \<in> set xs. \<exists>w. f x = Inr w \<and> p \<in> set (wk_files w))"
  using assms unfolding try_each_Inr_iff by (induction rule: list_all2_induct) auto

lemma try_each_all:
  assumes "try_each f xs = Inr ws" "x \<in> set xs"
  shows "\<exists>w \<in> set ws. f x = Inr w"
  using assms unfolding try_each_Inr_iff by (induction rule: list_all2_induct) auto

definition child_reaches :: "pystr list \<Rightarrow> pystr list \<Rightarrow> pystr list \<Rightarrow> pystr \<times> child \<Rightarrow> bool" where
  "child_reaches skip rel p e \<longleftrightarrow>
     (case e of (name, c) \<Rightarrow> (c = CFile \<and> p = rel @ [name]) \<or> (\<exists>d. c = CDir d \<and> listed skip (rel @ [name]) d p CFile))"

lemma listed_entries:
  "listed skip rel (DObs git (Entries es)) p CFile \<longleftrightarrow> entered_dir skip rel git \<and> (\<exists>e \<in> set es. child_reaches skip rel p e)"
  unfolding listed_simps child_reaches_def by (auto split: prod.splits) blast+

lemma listed_no_entries: "listed skip rel (DObs git l) p c \<Longrightarrow> \<exists>es. l = Entries es"
  by (erule listed.cases) auto

lemma walk_dir_entered:
  assumes "entered_dir skip rel git"
  shows "walk_dir hold skip discovered rel (DObs git l) =
    (case l of
       ListGone \<Rightarrow> if discovered then Inl SnapshotError else Inr nothing
     | ListFails \<Rightarrow> Inl SnapshotError
     | Entries es \<Rightarrow>
         (case try_each (\<lambda>(name, c). walk_child hold skip (rel @ [name]) c) (sort_key fst es) of
            Inl e \<Rightarrow> Inl e
          | Inr ws \<Rightarrow> Inr (all_walked ws)))"
  using assms unfolding entered_dir_def walk_dir.simps by auto

lemma walk_dir_left_out:
  assumes "\<not> entered_dir skip rel git" "walk_dir hold skip discovered rel (DObs git l) = Inr w"
  shows "wk_files w = []"
  using assms unfolding entered_dir_def walk_dir.simps by (auto split: if_splits sum.splits bool.splits)

lemma scandir_walk_spec:
  "walk_dir hold skip discovered rel d = Inr w \<Longrightarrow> p \<in> set (wk_files w) \<longleftrightarrow> listed skip rel d p CFile"
  "walk_child hold skip rel c = Inr w \<Longrightarrow>
     p \<in> set (wk_files w) \<longleftrightarrow> (c = CFile \<and> p = rel) \<or> (\<exists>d. c = CDir d \<and> listed skip rel d p CFile)"
proof (induction hold skip discovered rel d and hold skip rel c arbitrary: w and w rule: walk_dir_walk_child.induct)
  case (1 hold skip discovered rel git l)
  show ?case
  proof (cases "entered_dir skip rel git \<and> (\<exists>es. l = Entries es)")
    case True
    then obtain es where l: "l = Entries es" and en: "entered_dir skip rel git" by blast
    let ?f = "\<lambda>(name, c). walk_child hold skip (rel @ [name]) c"
    obtain ws where ws: "try_each ?f (sort_key fst es) = Inr ws" "w = all_walked ws"
      using "1.prems" unfolding walk_dir_entered [OF en] l by (auto split: sum.splits)
    have "(\<exists>w'. ?f x = Inr w' \<and> p \<in> set (wk_files w')) \<longleftrightarrow> child_reaches skip rel p x" if x: "x \<in> set es" for x
    proof -
      obtain name c where nc: "x = (name, c)" by (cases x)
      from try_each_all [OF ws(1), of x] x nc obtain w' where w': "walk_child hold skip (rel @ [name]) c = Inr w'" by auto
      have "p \<in> set (wk_files w') \<longleftrightarrow> (c = CFile \<and> p = rel @ [name]) \<or> (\<exists>d. c = CDir d \<and> listed skip (rel @ [name]) d p CFile)"
        using en l x nc by (intro "1.IH" [of False es x name c w', OF _ _ _ _ _ _ w']) (auto simp: entered_dir_def)
      with w' nc show ?thesis by (simp add: child_reaches_def)
    qed
    then have "p \<in> set (wk_files w) \<longleftrightarrow> (\<exists>x \<in> set es. child_reaches skip rel p x)"
      using try_each_files [OF ws(1), of p] by (simp add: ws(2) all_walked_files)
    then show ?thesis using en unfolding l listed_entries by simp
  next
    case False
    have "wk_files w = []"
      using False "1.prems" walk_dir_left_out [of skip rel git hold discovered l w]
      by (cases "entered_dir skip rel git"; cases l) (auto simp: walk_dir_entered split: if_splits)
    moreover have "\<not> listed skip rel (DObs git l) p CFile"
      using False listed_no_entries listed_entries by blast
    ultimately show ?thesis by simp
  qed
next
  case (2 hold skip rel c)
  then show ?case by (cases c) (auto simp: walk_child.simps split: if_splits)
qed

section \<open>Recording files\<close>

abbreviation rel_of :: "pystr list \<Rightarrow> pystr" where
  "rel_of parts \<equiv> join_with [47] parts"

text \<open>The stat that decides about a collected file, and the files the result speaks of: recorded, held
  or reported as skipped.\<close>

definition stat_of :: "source_obs \<Rightarrow> pystr list \<Rightarrow> fstat call" where
  "stat_of so parts = (case so_stat so parts of Vanished \<Rightarrow> so_again so parts | r \<Rightarrow> r)"

definition accounted :: "source_scan \<Rightarrow> pystr \<Rightarrow> bool" where
  "accounted z rel \<longleftrightarrow>
     map_of (zs_files z) rel \<noteq> None \<or> map_of (zs_held z) rel \<noteq> None \<or> rel \<in> fst ` set (zs_skips z)"

definition read_for :: "scan_args \<Rightarrow> bool \<Rightarrow> source_obs \<Rightarrow> pystr list \<Rightarrow> read_result" where
  "read_for za muse so parts = read_twice (read_args_for za muse (rel_of parts)) (so_read1 so parts) (so_read2 so parts)"

lemma record_file_cases:
  assumes "record_file za muse excl so parts z = Inr z'"
  obtains "excl (rel_of parts)" "z' = z"
  | fr where "\<not> excl (rel_of parts)" "read_for za muse so parts = Accepted fr"
      "z' = z\<lparr>zs_files := AList.update (rel_of parts) (info_of fr) (zs_files z)\<rparr>"
  | n where "\<not> excl (rel_of parts)" "z' = z\<lparr>zs_skips := zs_skips z @ [(rel_of parts, SkipLarge n)]\<rparr>"
  | reason where "\<not> excl (rel_of parts)" "za_hold za" "read_for za muse so parts = Transient reason"
      "z' = z\<lparr>zs_held := AList.update (rel_of parts) reason (zs_held z)\<rparr>"
  using assms unfolding record_file_def read_for_def [symmetric] Let_def
  by (cases "excl (rel_of parts)"; cases "read_for za muse so parts") (auto split: if_splits)

text \<open>One step of a walker either records, or leaves the state as it is because the file is excluded or
  its inode is known, or only reports and holds.\<close>

lemma stat_collected_there:
  "stat_of so parts = Done st \<Longrightarrow> stat_collected_file za excl so parts z = Inr (Some st, z)"
  unfolding stat_of_def stat_collected_file_def by (auto split: call.splits)

lemma stat_collected_gone:
  "so_stat so parts = Vanished \<Longrightarrow> so_again so parts = Vanished \<Longrightarrow>
   stat_collected_file za excl so parts z =
     (if excl (rel_of parts) then Inr (None, z)
      else if za_hold za then Inr (None, z\<lparr>zs_held := AList.update (rel_of parts) (u ''vanished'') (zs_held z)\<rparr>)
      else Inl SnapshotError)"
  by (simp add: stat_collected_file_def Let_def)

lemma stat_collected_fails:
  "stat_of so parts = Failing \<Longrightarrow> stat_collected_file za excl so parts z = Inl SnapshotError"
  unfolding stat_of_def stat_collected_file_def by (auto split: call.splits)

lemma file_step_there:
  assumes "link_below True (so_link so parts) [] parts = Inr False" "stat_of so parts = Done st"
  shows "file_step za muse excl so parts z =
    (if fs_kind st = KLink then Inr (z\<lparr>zs_skips := zs_skips z @ [(rel_of parts, SkipLink)]\<rparr>)
     else if muse \<and> fs_nlink st > 1 then Inr (z\<lparr>zs_skips := zs_skips z @ [(rel_of parts, SkipHardlink)]\<rparr>)
     else if \<not> muse \<and> excl (rel_of parts) then Inr z
     else if inode st \<in> set (zs_seen z) then Inr z
     else record_file za muse excl so parts (z\<lparr>zs_seen := inode st # zs_seen z\<rparr>))"
  unfolding file_step_def Let_def assms(1) stat_collected_there [OF assms(2)] by simp

lemma file_step_cases:
  assumes "file_step za muse excl so parts z = Inr z'"
  obtains reason where "z' = z\<lparr>zs_skips := zs_skips z @ [(rel_of parts, reason)]\<rparr>"
  | "excl (rel_of parts)" "z' = z"
  | "\<not> excl (rel_of parts)" "za_hold za" "so_stat so parts = Vanished" "so_again so parts = Vanished"
      "z' = z\<lparr>zs_held := AList.update (rel_of parts) (u ''vanished'') (zs_held z)\<rparr>"
  | st where "stat_of so parts = Done st" "inode st \<in> set (zs_seen z)" "z' = z"
  | st where "stat_of so parts = Done st" "muse \<or> \<not> excl (rel_of parts)" "link_below True (so_link so parts) [] parts = Inr False"
      "record_file za muse excl so parts (z\<lparr>zs_seen := inode st # zs_seen z\<rparr>) = Inr z'"
proof (cases "link_below True (so_link so parts) [] parts")
  case (Inl e)
  with assms show thesis by (simp add: file_step_def)
next
  case (Inr linked)
  show thesis
  proof (cases linked)
    case True
    with Inr assms that(1) [of SkipLink] show thesis by (simp add: file_step_def)
  next
    case False
    with Inr have ok: "link_below True (so_link so parts) [] parts = Inr False" by simp
    show thesis
    proof (cases "stat_of so parts")
      case (Done st)
      note step = assms [unfolded file_step_there [OF ok Done]]
      show thesis
      proof (cases "fs_kind st = KLink \<or> muse \<and> fs_nlink st > 1")
        case True
        with step that(1) show thesis by (auto split: if_splits)
      next
        case unlinked: False
        show thesis
        proof (cases "(\<not> muse \<and> excl (rel_of parts)) \<or> inode st \<in> set (zs_seen z)")
          case True
          with step unlinked have "z' = z" by (auto split: if_splits)
          with True that(2,4) Done show thesis by blast
        next
          case False
          with step unlinked have "record_file za muse excl so parts (z\<lparr>zs_seen := inode st # zs_seen z\<rparr>) = Inr z'"
            by (simp split: if_splits)
          with False Done ok that(5) show thesis by blast
        qed
      qed
    next
      case Vanished
      then have gone: "so_stat so parts = Vanished" "so_again so parts = Vanished"
        unfolding stat_of_def by (cases "so_stat so parts"; simp)+
      note step = assms [unfolded file_step_def Let_def ok stat_collected_gone [OF gone], simplified]
      show thesis
      proof (cases "excl (rel_of parts)")
        case True
        with step that(2) show thesis by simp
      next
        case False
        with step that(3) gone show thesis by (simp split: if_splits)
      qed
    next
      case Failing
      with assms ok show thesis by (simp add: file_step_def stat_collected_fails)
    qed
  qed
qed

lemma each_file_inv:
  assumes "each_file step ps z = Inr z'" "I [] z"
    "\<And>xs p ys z z'. ps = xs @ p # ys \<Longrightarrow> I xs z \<Longrightarrow> step p z = Inr z' \<Longrightarrow> I (xs @ [p]) z'"
  shows "I ps z'"
proof -
  have "each_file step ys z = Inr z' \<Longrightarrow> I xs z \<Longrightarrow> ps = xs @ ys \<Longrightarrow> I ps z'" for xs ys z
  proof (induction ys arbitrary: xs z)
    case (Cons p ys)
    then obtain z1 where z1: "step p z = Inr z1" "each_file step ys z1 = Inr z'" by (auto split: sum.splits)
    with Cons.IH [OF z1(2), of "xs @ [p]"] Cons.prems assms(3) show ?case by simp
  qed simp
  from this [OF assms(1,2)] show ?thesis by simp
qed

definition found :: "source_obs \<Rightarrow> pystr list \<Rightarrow> pystr \<Rightarrow> pystr list \<Rightarrow> pystr list \<Rightarrow> bool" where
  "found so skip name parts p \<longleftrightarrow>
     nested_repo_root (so_start so name) [] parts = Inr None \<and> link_below True (so_start so name) [] parts = Inr False \<and>
     listed skip parts (so_dir so name) p CFile"

definition is_folder :: "source_obs \<Rightarrow> pystr \<Rightarrow> bool" where
  "is_folder so name \<longleftrightarrow> (\<exists>st. so_include so name = Done st \<and> fs_kind st = KDir)"

lemma collect_files:
  assumes "collect za skip so name parts = Inr w"
  shows "p \<in> set (wk_files w) \<longleftrightarrow> found so skip name parts p"
  using assms scandir_walk_spec(1) [of "za_hold za" skip False parts "so_dir so name" w p]
  unfolding collect_def found_def
  by (auto simp: nothing_def split: sum.splits option.splits bool.splits)

definition included :: "source_obs \<Rightarrow> pystr list \<Rightarrow> pystr \<Rightarrow> pystr list \<Rightarrow> bool" where
  "included so skip name upper \<longleftrightarrow>
     \<not> under_skip_prefix (rel_posix (path_parts name)) skip \<and> nested_repo_root (so_above so name) [] upper = Inr None"

lemma collect_include_files:
  assumes "collect_include za skip so name = Inr w"
  shows "p \<in> set (wk_files w) \<longleftrightarrow>
    included so skip name (path_parts name) \<and> is_folder so name \<and> found so skip name (path_parts name) p"
  using assms collect_files [of za skip so name "path_parts name" w p]
  unfolding collect_include_def included_def is_folder_def Let_def
  by (auto simp: nothing_def split: sum.splits option.splits call.splits if_splits)

lemma collect_file_files:
  assumes "collect_file skip so name = Inr w"
  shows "p \<in> set (wk_files w) \<longleftrightarrow>
    included so skip name (butlast (path_parts name)) \<and> p = path_parts name \<and>
    (\<exists>st. so_include so name = Done st \<and> fs_kind st = KReg)"
  using assms unfolding collect_file_def included_def Let_def
  by (auto simp: nothing_def split: sum.splits option.splits call.splits if_splits)

text \<open>What a source selects: the files its walker collects.\<close>

definition marker_prefixes :: "source_obs \<Rightarrow> pystr list" where
  "marker_prefixes so = (case so_markers so of Inl _ \<Rightarrow> [] | Inr skip \<Rightarrow> skip)"

definition selected_generic :: "walk_cfg \<Rightarrow> source_obs \<Rightarrow> pystr list \<Rightarrow> bool" where
  "selected_generic cfg so p \<longleftrightarrow>
     (let skip = marker_prefixes so in
      \<not> under_skip_prefix [] skip \<and>
      ((\<exists>name \<in> set (sc_dirs cfg). included so skip name (path_parts name) \<and> is_folder so name \<and>
          found so skip name (path_parts name) p) \<or>
       (\<exists>name \<in> set (sc_files cfg). included so skip name (butlast (path_parts name)) \<and> p = path_parts name \<and>
          (\<exists>st. so_include so name = Done st \<and> fs_kind st = KReg))))"

definition selected_muse :: "source_obs \<Rightarrow> pystr list \<Rightarrow> bool" where
  "selected_muse so p \<longleftrightarrow> (\<exists>name \<in> set MUSE_SYNCED_SUBDIRS. is_folder so name \<and> found so [] name (path_parts name) p)"

definition project_folder :: "source_obs \<Rightarrow> pystr list \<Rightarrow> bool" where
  "project_folder so parts \<longleftrightarrow>
     nested_repo_root (so_above so (u ''projects'')) [] [u ''projects''] = Inr None \<and> is_folder so (u ''projects'') \<and>
     (\<exists>es name git l sub. so_projects so = Some es \<and> (name, CDir (DObs git l)) \<in> set es \<and>
        directory_is_git_repo git = Inr False \<and> sub \<in> set SYNCED_SUBDIRS \<and> parts = [u ''projects'', name, sub] \<and>
        is_folder so (rel_of parts))"

definition selected_claude :: "source_obs \<Rightarrow> pystr list \<Rightarrow> bool" where
  "selected_claude so p \<longleftrightarrow> (\<exists>parts. project_folder so parts \<and> found so [] (rel_of parts) parts p)"

definition excluded_in :: "walk_cfg \<Rightarrow> source_obs \<Rightarrow> pystr \<Rightarrow> bool" where
  "excluded_in cfg so rel =
     (if sc_type cfg = u ''claude'' then is_excluded (sc_exclude cfg) [] [] rel
      else if sc_type cfg = u ''muse'' then is_excluded (MUSE_EXCLUDE_PATTERNS @ sc_exclude cfg) [] [] rel
      else is_excluded (sc_exclude cfg) (marker_prefixes so) (sc_include cfg) rel)"

definition selected :: "walk_cfg \<Rightarrow> source_obs \<Rightarrow> pystr list \<Rightarrow> bool" where
  "selected cfg so p =
     (if sc_type cfg = u ''claude'' then selected_claude so p
      else so_root so = Done () \<and> (if sc_type cfg = u ''muse'' then selected_muse so p else selected_generic cfg so p))"

section \<open>Every collected file is accounted for\<close>

definition twin :: "source_obs \<Rightarrow> pystr list \<Rightarrow> pystr list \<Rightarrow> bool" where
  "twin so q p \<longleftrightarrow> (\<exists>st st'. stat_of so q = Done st \<and> stat_of so p = Done st' \<and> inode st = inode st')"

definition settled_path :: "bool \<Rightarrow> (pystr \<Rightarrow> bool) \<Rightarrow> source_scan \<Rightarrow> pystr list \<Rightarrow> bool" where
  "settled_path muse excl z q \<longleftrightarrow> accounted z (rel_of q) \<or> (muse \<and> excl (rel_of q))"

definition tracked :: "bool \<Rightarrow> (pystr \<Rightarrow> bool) \<Rightarrow> source_obs \<Rightarrow> pystr list list \<Rightarrow> source_scan \<Rightarrow> bool" where
  "tracked muse excl so past z \<longleftrightarrow>
     (\<forall>p \<in> set past. \<not> excl (rel_of p) \<longrightarrow>
        accounted z (rel_of p) \<or> (\<exists>q \<in> set past. twin so q p \<and> settled_path muse excl z q)) \<and>
     (\<forall>i \<in> set (zs_seen z). \<exists>q \<in> set past. \<exists>st. stat_of so q = Done st \<and> inode st = i \<and> settled_path muse excl z q)"

definition published_well :: "scan_args \<Rightarrow> bool \<Rightarrow> (pystr \<Rightarrow> bool) \<Rightarrow> source_obs \<Rightarrow> pystr list \<Rightarrow> file_info \<Rightarrow> bool" where
  "published_well za muse excl so p info \<longleftrightarrow>
     \<not> excl (rel_of p) \<and> (\<exists>fr. read_for za muse so p = Accepted fr \<and> info = info_of fr)"

definition held_well :: "scan_args \<Rightarrow> bool \<Rightarrow> (pystr \<Rightarrow> bool) \<Rightarrow> source_obs \<Rightarrow> pystr list \<Rightarrow> pystr \<Rightarrow> bool" where
  "held_well za muse excl so p reason \<longleftrightarrow>
     \<not> excl (rel_of p) \<and> za_hold za \<and>
     (read_for za muse so p = Transient reason \<or>
      (so_stat so p = Vanished \<and> so_again so p = Vanished \<and> reason = u ''vanished''))"

definition sourced :: "scan_args \<Rightarrow> bool \<Rightarrow> (pystr \<Rightarrow> bool) \<Rightarrow> source_obs \<Rightarrow> pystr list set \<Rightarrow> source_scan \<Rightarrow> bool" where
  "sourced za muse excl so ps z \<longleftrightarrow>
     (\<forall>rel info. map_of (zs_files z) rel = Some info \<longrightarrow> (\<exists>p \<in> ps. rel = rel_of p \<and> published_well za muse excl so p info)) \<and>
     (\<forall>rel reason. map_of (zs_held z) rel = Some reason \<longrightarrow> (\<exists>p \<in> ps. rel = rel_of p \<and> held_well za muse excl so p reason))"

lemma sourced_empty [simp]: "sourced za muse excl so ps (after_walk w)"
  by (simp add: sourced_def after_walk_def empty_scan_def)

lemma sourced_mono: "sourced za muse excl so ps z \<Longrightarrow> ps \<subseteq> qs \<Longrightarrow> sourced za muse excl so qs z"
  unfolding sourced_def by blast

lemma record_file_accounts:
  assumes "record_file za muse excl so p z = Inr z'"
  shows "(accounted z rel \<longrightarrow> accounted z' rel) \<and> zs_seen z' = zs_seen z \<and> (excl (rel_of p) \<or> accounted z' (rel_of p))"
  using assms by (cases rule: record_file_cases) (auto simp: accounted_def)

lemma record_file_sourced:
  assumes "record_file za muse excl so p z = Inr z'" "sourced za muse excl so ps z" "p \<in> ps"
  shows "sourced za muse excl so ps z'"
  using assms(1)
proof (cases rule: record_file_cases)
  case (2 fr)
  then have "published_well za muse excl so p (info_of fr)" unfolding published_well_def by blast
  with 2 assms(2,3) show ?thesis unfolding sourced_def by auto
next
  case (4 reason)
  then have "held_well za muse excl so p reason" unfolding held_well_def by blast
  with 4 assms(2,3) show ?thesis unfolding sourced_def by auto
qed (use assms(2) in \<open>simp_all add: sourced_def\<close>)

lemma file_step_accounts:
  assumes "file_step za muse excl so p z = Inr z'" "accounted z rel"
  shows "accounted z' rel"
  using assms(1)
proof (cases rule: file_step_cases)
  case (5 st)
  have "accounted (z\<lparr>zs_seen := inode st # zs_seen z\<rparr>) rel" using assms(2) by (simp add: accounted_def)
  with record_file_accounts [OF 5(4), of rel] show ?thesis by blast
qed (use assms(2) in \<open>auto simp: accounted_def\<close>)

lemma file_step_sourced:
  assumes "file_step za muse excl so p z = Inr z'" "sourced za muse excl so ps z" "p \<in> ps"
  shows "sourced za muse excl so ps z'"
  using assms(1)
proof (cases rule: file_step_cases)
  case 3
  then have "held_well za muse excl so p (u ''vanished'')" unfolding held_well_def by blast
  with 3 assms(2,3) show ?thesis unfolding sourced_def by auto
next
  case (5 st)
  have "sourced za muse excl so ps (z\<lparr>zs_seen := inode st # zs_seen z\<rparr>)" using assms(2) by (simp add: sourced_def)
  from record_file_sourced [OF 5(4) this assms(3)] show ?thesis .
qed (use assms(2) in \<open>simp_all add: sourced_def\<close>)

lemma settled_mono:
  assumes "file_step za muse excl so p z = Inr z'" "settled_path muse excl z q"
  shows "settled_path muse excl z' q"
  using assms file_step_accounts unfolding settled_path_def by blast

text \<open>What a step adds: the file itself, or a known twin, and the inode of the file.\<close>

lemma file_step_tracks:
  assumes "file_step za muse excl so p z = Inr z'"
  shows "excl (rel_of p) \<or> accounted z' (rel_of p) \<or> (\<exists>st. stat_of so p = Done st \<and> inode st \<in> set (zs_seen z))"
    and "i \<in> set (zs_seen z') \<Longrightarrow> i \<in> set (zs_seen z) \<or>
      (\<exists>st. stat_of so p = Done st \<and> inode st = i \<and> settled_path muse excl z' p)"
  using assms
proof (atomize (full), cases rule: file_step_cases)
  case (5 st)
  from record_file_accounts [OF 5(4), of "rel_of p"] 5(1,2) show
    "(excl (rel_of p) \<or> accounted z' (rel_of p) \<or> (\<exists>st. stat_of so p = Done st \<and> inode st \<in> set (zs_seen z))) \<and>
     (i \<in> set (zs_seen z') \<longrightarrow> i \<in> set (zs_seen z) \<or>
      (\<exists>st. stat_of so p = Done st \<and> inode st = i \<and> settled_path muse excl z' p))"
    by (auto simp: settled_path_def)
qed (auto simp: accounted_def)

lemma tracked_step:
  assumes "tracked muse excl so past z" "file_step za muse excl so p z = Inr z'"
  shows "tracked muse excl so (past @ [p]) z'"
  unfolding tracked_def
proof (intro conjI ballI impI)
  note up = settled_mono [OF assms(2)]
  fix r assume r: "r \<in> set (past @ [p])" "\<not> excl (rel_of r)"
  show "accounted z' (rel_of r) \<or> (\<exists>q \<in> set (past @ [p]). twin so q r \<and> settled_path muse excl z' q)"
  proof (cases "r \<in> set past")
    case True
    with assms(1) r(2) have "accounted z (rel_of r) \<or> (\<exists>q \<in> set past. twin so q r \<and> settled_path muse excl z q)"
      unfolding tracked_def by blast
    with up file_step_accounts [OF assms(2)] show ?thesis by auto
  next
    case False
    with r have "r = p" by simp
    from file_step_tracks(1) [OF assms(2)] r(2) consider (a) "accounted z' (rel_of p)" |
      (b) st where "stat_of so p = Done st" "inode st \<in> set (zs_seen z)" unfolding \<open>r = p\<close> by blast
    then show ?thesis
    proof cases
      case (b st)
      with assms(1) obtain q st' where "q \<in> set past" "stat_of so q = Done st'" "inode st' = inode st" "settled_path muse excl z q"
        unfolding tracked_def by blast
      with b up \<open>r = p\<close> show ?thesis by (auto simp: twin_def)
    qed (simp add: \<open>r = p\<close>)
  qed
next
  note up = settled_mono [OF assms(2)]
  fix i assume "i \<in> set (zs_seen z')"
  from file_step_tracks(2) [OF assms(2) this] assms(1) up
  show "\<exists>q \<in> set (past @ [p]). \<exists>st. stat_of so q = Done st \<and> inode st = i \<and> settled_path muse excl z' q"
    unfolding tracked_def by (elim disjE) fastforce+
qed

lemma each_file_step:
  assumes "each_file (file_step za muse excl so) ps z = Inr z'" "zs_seen z = []" "sourced za muse excl so {} z"
  shows "tracked muse excl so ps z' \<and> sourced za muse excl so (set ps) z'"
proof -
  let ?I = "\<lambda>past z. tracked muse excl so past z \<and> sourced za muse excl so (set ps) z"
  have start: "?I [] z" using assms(2) sourced_mono [OF assms(3)] by (simp add: tracked_def)
  have step: "?I (xs @ [p]) z2" if "ps = xs @ p # ys" "?I xs z1" "file_step za muse excl so p z1 = Inr z2" for xs p ys z1 z2
    using tracked_step [OF _ that(3)] file_step_sourced [OF that(3), of "set ps"] that(1,2) by simp
  show ?thesis by (rule each_file_inv [where I = ?I, OF assms(1) start step])
qed

lemma each_record:
  assumes "each_file (record_file za muse excl so) ps z = Inr z'"
  shows "(\<forall>rel. accounted z rel \<longrightarrow> accounted z' rel) \<and> (\<forall>p \<in> set ps. excl (rel_of p) \<or> accounted z' (rel_of p)) \<and>
    (\<forall>S. sourced za muse excl so S z \<and> set ps \<subseteq> S \<longrightarrow> sourced za muse excl so S z')"
  using assms
proof (induction ps arbitrary: z)
  case (Cons p ps)
  then obtain z1 where z1: "record_file za muse excl so p z = Inr z1" "each_file (record_file za muse excl so) ps z1 = Inr z'"
    by (auto split: sum.splits)
  from record_file_accounts [OF z1(1)] Cons.IH [OF z1(2)] record_file_sourced [OF z1(1)] show ?case
    by (auto simp del: )
qed simp

lemma claude_step_accounts:
  assumes "claude_step za excl so parts z = Inr z'"
  shows "(\<forall>rel. accounted z rel \<longrightarrow> accounted z' rel) \<and>
    (\<forall>p. found so [] (rel_of parts) parts p \<longrightarrow> excl (rel_of p) \<or> accounted z' (rel_of p)) \<and>
    (\<forall>S. sourced za False excl so S z \<and> Collect (found so [] (rel_of parts) parts) \<subseteq> S \<longrightarrow> sourced za False excl so S z')"
proof -
  obtain w where w: "collect za [] so (rel_of parts) parts = Inr w"
    "each_file (record_file za False excl so) (sorted_files (wk_files w))
       (z\<lparr>zs_gone := zs_gone z @ wk_gone w, zs_repos := zs_repos z @ wk_repos w\<rparr>) = Inr z'"
    using assms unfolding claude_step_def by (auto split: sum.splits)
  have ps: "set (sorted_files (wk_files w)) = Collect (found so [] (rel_of parts) parts)"
    using collect_files [OF w(1)] by (auto simp: sorted_files_def)
  have "accounted (z\<lparr>zs_gone := g, zs_repos := r\<rparr>) = accounted z" for g r by (simp add: accounted_def fun_eq_iff)
  moreover have "sourced za False excl so S (z\<lparr>zs_gone := g, zs_repos := r\<rparr>) = sourced za False excl so S z" for g r S
    by (simp add: sourced_def)
  ultimately show ?thesis using each_record [OF w(2)] unfolding ps by simp
qed

lemma each_claude:
  assumes "each_file (claude_step za excl so) dirs z = Inr z'"
  shows "(\<forall>rel. accounted z rel \<longrightarrow> accounted z' rel) \<and>
    (\<forall>parts \<in> set dirs. \<forall>p. found so [] (rel_of parts) parts p \<longrightarrow> excl (rel_of p) \<or> accounted z' (rel_of p)) \<and>
    (\<forall>S. sourced za False excl so S z \<and> (\<forall>parts \<in> set dirs. Collect (found so [] (rel_of parts) parts) \<subseteq> S) \<longrightarrow>
       sourced za False excl so S z')"
  using assms
proof (induction dirs arbitrary: z)
  case (Cons d ds)
  then obtain z1 where z1: "claude_step za excl so d z = Inr z1" "each_file (claude_step za excl so) ds z1 = Inr z'"
    by (auto split: sum.splits)
  from claude_step_accounts [OF z1(1)] Cons.IH [OF z1(2)] show ?case by (simp add: Ball_def) blast
qed simp

lemma project_subdir_spec:
  assumes "project_subdir so parts = Inr ds"
  shows "q \<in> set ds \<longleftrightarrow> q = parts \<and> is_folder so (rel_of parts)"
  using assms unfolding project_subdir_def is_folder_def by (cases "so_include so (rel_of parts)") auto

lemma try_each_concat:
  assumes "try_each f xs = Inr yss" "\<And>x ys. f x = Inr ys \<Longrightarrow> q \<in> S ys \<longleftrightarrow> P x"
  shows "(\<exists>ys \<in> set yss. q \<in> S ys) \<longleftrightarrow> (\<exists>x \<in> set xs. P x)"
proof -
  from assms(1) have "list_all2 (\<lambda>x ys. f x = Inr ys) xs yss" by (simp add: try_each_Inr_iff)
  then show ?thesis by (induction rule: list_all2_induct) (use assms(2) in auto)
qed

definition project_entry :: "source_obs \<Rightarrow> pystr list \<Rightarrow> pystr \<times> child \<Rightarrow> bool" where
  "project_entry so parts e \<longleftrightarrow>
     (\<exists>name git l sub. e = (name, CDir (DObs git l)) \<and> directory_is_git_repo git = Inr False \<and>
        sub \<in> set SYNCED_SUBDIRS \<and> parts = [u ''projects'', name, sub] \<and> is_folder so (rel_of parts))"

lemma project_dirs_one:
  assumes "project_dirs so e = Inr d"
  shows "parts \<in> set (fst d) \<longleftrightarrow> project_entry so parts e"
proof -
  obtain name c where e: "e = (name, c)" by (cases e)
  show ?thesis
  proof (cases "\<exists>git l. c = CDir (DObs git l) \<and> directory_is_git_repo git = Inr False")
    case True
    then obtain git l where c: "c = CDir (DObs git l)" "directory_is_git_repo git = Inr False" by blast
    obtain ds where ds: "try_each (\<lambda>sub. project_subdir so [u ''projects'', name, sub]) SYNCED_SUBDIRS = Inr ds"
      "d = (concat ds, [])"
      using assms unfolding project_dirs_def by (auto simp: e c split: sum.splits)
    have "(\<exists>ys \<in> set ds. parts \<in> set ys) \<longleftrightarrow>
      (\<exists>sub \<in> set SYNCED_SUBDIRS. parts = [u ''projects'', name, sub] \<and> is_folder so (rel_of [u ''projects'', name, sub]))"
      by (rule try_each_concat [OF ds(1)]) (rule project_subdir_spec)
    then show ?thesis by (auto simp: ds(2) project_entry_def e c)
  next
    case False
    then have "\<not> project_entry so parts e" by (auto simp: project_entry_def e)
    moreover have "fst d = []"
    proof (cases c)
      case (CDir x)
      with False assms show ?thesis unfolding project_dirs_def
        by (cases x) (auto simp: e split: sum.splits bool.splits)
    qed (use assms in \<open>auto simp: project_dirs_def e\<close>)
    ultimately show ?thesis by simp
  qed
qed

lemma project_dirs_spec:
  assumes "try_each (project_dirs so) (sort_key fst es) = Inr ds" "so_projects so = Some es"
    "nested_repo_root (so_above so (u ''projects'')) [] [u ''projects''] = Inr None" "is_folder so (u ''projects'')"
  shows "parts \<in> set (concat (map fst ds)) \<longleftrightarrow> project_folder so parts"
proof -
  have "(\<exists>d \<in> set ds. parts \<in> set (fst d)) \<longleftrightarrow> (\<exists>e \<in> set (sort_key fst es). project_entry so parts e)"
    by (rule try_each_concat [OF assms(1)]) (rule project_dirs_one)
  also have "\<dots> \<longleftrightarrow> project_folder so parts"
    using assms(2-4) unfolding project_folder_def project_entry_def by fastforce
  finally show ?thesis by simp
qed

text \<open>A walker's result against what its source selects.\<close>

definition complete_scan :: "scan_args \<Rightarrow> bool \<Rightarrow> (pystr \<Rightarrow> bool) \<Rightarrow> source_obs \<Rightarrow> (pystr list \<Rightarrow> bool) \<Rightarrow> source_scan \<Rightarrow> bool" where
  "complete_scan za muse excl so sel z \<longleftrightarrow>
     (\<forall>p. sel p \<and> \<not> excl (rel_of p) \<longrightarrow>
        accounted z (rel_of p) \<or> (\<exists>q. sel q \<and> twin so q p \<and> settled_path muse excl z q)) \<and>
     sourced za muse excl so (Collect sel) z"

lemma complete_empty:
  assumes "\<And>p. \<not> sel p"
  shows "complete_scan za muse excl so sel (empty_scan\<lparr>zs_repos := roots\<rparr>)" "complete_scan za muse excl so sel empty_scan"
  using assms by (simp_all add: complete_scan_def sourced_def empty_scan_def)

lemma complete_steps:
  assumes "each_file (file_step za muse excl so) (sorted_files (wk_files w)) (after_walk w) = Inr z"
    "\<And>p. p \<in> set (wk_files w) \<longleftrightarrow> sel p"
  shows "complete_scan za muse excl so sel z"
proof -
  have ps: "set (sorted_files (wk_files w)) = Collect sel" using assms(2) by (auto simp: sorted_files_def)
  have "zs_seen (after_walk w) = []" by (simp add: after_walk_def empty_scan_def)
  from each_file_step [OF assms(1) this sourced_empty] show ?thesis
    unfolding complete_scan_def tracked_def ps mem_Collect_eq Ball_def Bex_def by blast
qed

lemma generic_complete:
  assumes "walk_generic_source za cfg so = Inr z"
  shows "complete_scan za False (is_excluded (sc_exclude cfg) (marker_prefixes so) (sc_include cfg)) so
    (\<lambda>p. so_root so = Done () \<and> selected_generic cfg so p) z"
proof (cases "so_root so")
  case (Done _)
  obtain skip where skip: "so_markers so = Inr skip" using assms Done unfolding walk_generic_source_def by (auto split: sum.splits)
  then have mp: "marker_prefixes so = skip" by (simp add: marker_prefixes_def)
  show ?thesis
  proof (cases "under_skip_prefix [] skip")
    case True
    with assms Done skip have "z = empty_scan" by (simp add: walk_generic_source_def)
    moreover have "\<not> selected_generic cfg so p" for p using True by (simp add: selected_generic_def mp)
    ultimately show ?thesis by (simp add: complete_empty)
  next
    case False
    obtain ws vs where w: "try_each (collect_include za skip so) (sc_dirs cfg) = Inr ws"
      "try_each (collect_file skip so) (sc_files cfg) = Inr vs"
      "each_file (file_step za False (is_excluded (sc_exclude cfg) skip (sc_include cfg)) so)
        (sorted_files (wk_files (all_walked (ws @ vs)))) (after_walk (all_walked (ws @ vs))) = Inr z"
      using assms Done skip False unfolding walk_generic_source_def by (auto simp: Let_def split: sum.splits)
    have d: "(\<exists>x \<in> set ws. p \<in> set (wk_files x)) \<longleftrightarrow> (\<exists>name \<in> set (sc_dirs cfg).
        included so skip name (path_parts name) \<and> is_folder so name \<and> found so skip name (path_parts name) p)" for p
      by (rule try_each_concat [OF w(1)]) (rule collect_include_files)
    have f: "(\<exists>x \<in> set vs. p \<in> set (wk_files x)) \<longleftrightarrow> (\<exists>name \<in> set (sc_files cfg).
        included so skip name (butlast (path_parts name)) \<and> p = path_parts name \<and>
        (\<exists>st. so_include so name = Done st \<and> fs_kind st = KReg))" for p
      by (rule try_each_concat [OF w(2)]) (rule collect_file_files)
    have "p \<in> set (wk_files (all_walked (ws @ vs))) \<longleftrightarrow> so_root so = Done () \<and> selected_generic cfg so p" for p
      unfolding all_walked_files set_append bex_Un d f selected_generic_def mp Let_def using False Done by simp
    from complete_steps [OF w(3) this] show ?thesis by (simp add: mp)
  qed
next
  case Vanished
  with assms have "z = empty_scan" by (simp add: walk_generic_source_def)
  with Vanished show ?thesis by (simp add: complete_empty)
next
  case Failing
  with assms show ?thesis by (simp add: walk_generic_source_def)
qed

lemma muse_complete:
  assumes "walk_muse_source za cfg so = Inr z"
  shows "complete_scan za True (is_excluded (MUSE_EXCLUDE_PATTERNS @ sc_exclude cfg) [] []) so
    (\<lambda>p. so_root so = Done () \<and> selected_muse so p) z"
proof (cases "so_root so")
  case (Done _)
  obtain ws where w: "try_each (collect_muse za so) MUSE_SYNCED_SUBDIRS = Inr ws"
    "each_file (file_step za True (is_excluded (MUSE_EXCLUDE_PATTERNS @ sc_exclude cfg) [] []) so)
       (sorted_files (wk_files (all_walked ws))) (after_walk (all_walked ws)) = Inr z"
    using assms Done unfolding walk_muse_source_def by (auto simp: Let_def split: sum.splits)
  have one: "p \<in> set (wk_files w') \<longleftrightarrow> is_folder so name \<and> found so [] name (path_parts name) p"
    if "collect_muse za so name = Inr w'" for name w' p
    using that collect_files [of za "[]" so name "path_parts name" w' p] unfolding collect_muse_def is_folder_def
    by (auto simp: nothing_def split: call.splits if_splits)
  have "(\<exists>x \<in> set ws. p \<in> set (wk_files x)) \<longleftrightarrow>
      (\<exists>name \<in> set MUSE_SYNCED_SUBDIRS. is_folder so name \<and> found so [] name (path_parts name) p)" for p
    by (rule try_each_concat [OF w(1)]) (rule one)
  then have "p \<in> set (wk_files (all_walked ws)) \<longleftrightarrow> so_root so = Done () \<and> selected_muse so p" for p
    by (simp add: all_walked_files selected_muse_def Done)
  from complete_steps [OF w(2) this] show ?thesis .
next
  case Vanished
  with assms have "z = empty_scan" by (simp add: walk_muse_source_def)
  with Vanished show ?thesis by (simp add: complete_empty)
next
  case Failing
  with assms show ?thesis by (simp add: walk_muse_source_def)
qed

lemma claude_complete:
  assumes "walk_claude_source za cfg so = Inr z"
  shows "complete_scan za False (is_excluded (sc_exclude cfg) [] []) so (selected_claude so) z"
proof (cases "is_folder so (u ''projects'') \<and> nested_repo_root (so_above so (u ''projects'')) [] [u ''projects''] = Inr None")
  case True
  then obtain es ds where w: "so_projects so = Some es" "try_each (project_dirs so) (sort_key fst es) = Inr ds"
    "each_file (claude_step za (is_excluded (sc_exclude cfg) [] []) so) (concat (map fst ds))
       (empty_scan\<lparr>zs_repos := concat (map snd ds)\<rparr>) = Inr z"
    using assms unfolding walk_claude_source_def is_folder_def by (auto split: option.splits sum.splits)
  have dirs: "set (concat (map fst ds)) = Collect (project_folder so)"
    using project_dirs_spec [OF w(2,1)] True by blast
  have s0: "sourced za False (is_excluded (sc_exclude cfg) [] []) so (Collect (selected_claude so))
      (empty_scan\<lparr>zs_repos := concat (map snd ds)\<rparr>)" by (simp add: sourced_def empty_scan_def)
  have "Collect (found so [] (rel_of parts) parts) \<subseteq> Collect (selected_claude so)" if "project_folder so parts" for parts
    using that by (auto simp: selected_claude_def)
  with each_claude [OF w(3)] s0 show ?thesis
    unfolding dirs complete_scan_def selected_claude_def mem_Collect_eq Ball_def by blast
next
  case False
  then have none: "\<not> selected_claude so p" for p by (auto simp: selected_claude_def project_folder_def)
  have "\<exists>roots. z = empty_scan\<lparr>zs_repos := roots\<rparr>"
    using assms False unfolding walk_claude_source_def is_folder_def
    by (auto simp: empty_scan_def split: call.splits if_splits sum.splits option.splits)
  with complete_empty(1) [OF none] show ?thesis by auto
qed

lemma scan_complete:
  assumes "walk_source za cfg so = Inr z"
  shows "complete_scan za (sc_type cfg = u ''muse'') (excluded_in cfg so) so (selected cfg so) z"
proof -
  consider (c) "sc_type cfg = u ''claude''" "walk_claude_source za cfg so = Inr z"
    | (m) "sc_type cfg = u ''muse''" "walk_muse_source za cfg so = Inr z"
    | (g) "sc_type cfg = u ''generic''" "walk_generic_source za cfg so = Inr z"
    using assms unfolding walk_source_def Let_def by (auto split: if_splits option.splits sum.splits)
  then show ?thesis
  proof cases
    case c
    have "excluded_in cfg so = is_excluded (sc_exclude cfg) [] []" "selected cfg so = selected_claude so"
      using c(1) by (simp_all add: fun_eq_iff excluded_in_def selected_def)
    with claude_complete [OF c(2)] c(1) show ?thesis by simp
  next
    case m
    have "excluded_in cfg so = is_excluded (MUSE_EXCLUDE_PATTERNS @ sc_exclude cfg) [] []"
      "selected cfg so = (\<lambda>p. so_root so = Done () \<and> selected_muse so p)"
      using m(1) by (simp_all add: fun_eq_iff excluded_in_def selected_def)
    with muse_complete [OF m(2)] m(1) show ?thesis by simp
  next
    case g
    have "excluded_in cfg so = is_excluded (sc_exclude cfg) (marker_prefixes so) (sc_include cfg)"
      "selected cfg so = (\<lambda>p. so_root so = Done () \<and> selected_generic cfg so p)"
      using g(1) by (simp_all add: fun_eq_iff excluded_in_def selected_def)
    with generic_complete [OF g(2)] g(1) show ?thesis by simp
  qed
qed

lemma walk_sources_files:
  assumes "walk_sources za obs cfgs sources nested held = Inr (sources', nested', held')"
    "map_of sources' name = Some sd"
  shows "map_of sources name = Some sd \<or>
    (\<exists>cfg z. cfg \<in> set cfgs \<and> sc_name cfg = name \<and> walk_source za cfg (obs name) = Inr z \<and> sd_files sd = zs_files z)"
  using assms
proof (induction cfgs arbitrary: sources nested held)
  case (Cons cfg cfgs)
  then obtain z where z: "walk_source za cfg (obs (sc_name cfg)) = Inr z" by (auto split: sum.splits)
  let ?sources = "AList.update (sc_name cfg) \<lparr>sd_base_path = JStr (so_base (obs (sc_name cfg))), sd_files = zs_files z\<rparr> sources"
  have rec: "walk_sources za obs cfgs ?sources (add_roots (sc_name cfg) (zs_repos z) nested)
      (map_option (add_held (sc_name cfg) z) held) = Inr (sources', nested', held')"
    using Cons.prems(1) z by simp
  from Cons.IH [OF rec Cons.prems(2)] show ?case
  proof (elim disjE exE conjE)
    assume "map_of ?sources name = Some sd"
    with z show ?thesis by (cases "name = sc_name cfg") auto
  qed auto
qed simp

lemma build_files:
  assumes "build_manifest_v2 za obs did dname now cfgs = Inr sc" "files_at (s_manifest sc) name rel = Some info"
  shows "\<exists>cfg z. cfg \<in> set cfgs \<and> sc_name cfg = name \<and> walk_source za cfg (obs name) = Inr z \<and>
    map_of (zs_files z) rel = Some info"
proof -
  obtain sources nested held where w: "walk_sources za obs cfgs [] [] (if za_hold za then Some ([], []) else None) = Inr (sources, nested, held)"
    "sources_of (s_manifest sc) = sources"
    using assms(1) unfolding build_manifest_v2_def by (auto simp: sources_of_def split: sum.splits)
  from assms(2) obtain sd where sd: "map_of sources name = Some sd" "map_of (sd_files sd) rel = Some info"
    unfolding files_at_def w(2) files_in_def by (auto split: option.splits)
  from walk_sources_files [OF w(1) sd(1)] sd(2) show ?thesis by fastforce
qed

section \<open>Properties\<close>

text \<open>C12. A strict scan that succeeds omits nothing silently. Every file the walker of a source can reach --
  listed as a regular file under a selected folder, with no link, no nested checkout and no skipped
  folder on the way -- and that is not excluded is in the result: it is recorded, or held with a reason,
  or reported as skipped, or it is another name of a file of the source (the same inode) that is. (In a
  muse source that other name may be an excluded one.)\<close>

theorem scan_accounts_for_every_file:
  assumes "walk_source za cfg so = Inr z" "selected cfg so p" "\<not> excluded_in cfg so (join_with [47] p)"
  shows "accounted z (join_with [47] p) \<or>
    (\<exists>q. selected cfg so q \<and> twin so q p \<and>
      (accounted z (join_with [47] q) \<or> sc_type cfg = u ''muse'' \<and> excluded_in cfg so (join_with [47] q)))"
  using scan_complete [OF assms(1)] assms(2,3) unfolding complete_scan_def settled_path_def by blast

text \<open>C13. A scan publishes only what its sources select. Every file of the manifest \<open>build_manifest_v2\<close>
  returns was collected by the walker of the source of that name, is not excluded by its patterns, its
  markers or its include list, and carries digest, size and mtime of a revision accepted by one of the
  two reads; by the privacy checks of that read it lies below no link, and in a muse source it has one
  link only.\<close>

theorem scan_publishes_only_selected:
  assumes "build_manifest_v2 za obs did dname now cfgs = Inr sc" "files_at (s_manifest sc) name rel = Some info"
  shows "\<exists>cfg p fr. cfg \<in> set cfgs \<and> sc_name cfg = name \<and> rel = join_with [47] p \<and> selected cfg (obs name) p \<and>
    \<not> excluded_in cfg (obs name) rel \<and> info = info_of fr \<and>
    (read_file_revision (read_args_for za (sc_type cfg = u ''muse'') rel) (so_read1 (obs name) p) = Accepted fr \<or>
     read_file_revision (read_args_for za (sc_type cfg = u ''muse'') rel) (so_read2 (obs name) p) = Accepted fr)"
proof -
  from build_files [OF assms] obtain cfg z where c: "cfg \<in> set cfgs" "sc_name cfg = name"
    "walk_source za cfg (obs name) = Inr z" "map_of (zs_files z) rel = Some info" by blast
  from scan_complete [OF c(3)] c(4) obtain p where p: "selected cfg (obs name) p" "rel = join_with [47] p"
    "published_well za (sc_type cfg = u ''muse'') (excluded_in cfg (obs name)) (obs name) p info"
    unfolding complete_scan_def sourced_def by blast
  from p(3) obtain fr where fr: "\<not> excluded_in cfg (obs name) rel" "info = info_of fr"
    "read_for za (sc_type cfg = u ''muse'') (obs name) p = Accepted fr" unfolding published_well_def p(2) by blast
  from fr(3) have "read_file_revision (read_args_for za (sc_type cfg = u ''muse'') rel) (so_read1 (obs name) p) = Accepted fr \<or>
     read_file_revision (read_args_for za (sc_type cfg = u ''muse'') rel) (so_read2 (obs name) p) = Accepted fr"
    unfolding read_for_def read_twice_def p(2) by (auto split: read_result.splits)
  with c p fr show ?thesis by blast
qed

definition scan_tree :: dobs where
  "scan_tree = DObs Missing (Entries
     [(u ''b.md'', CFile), (u ''a.md'', CFile), (u ''x.tmp'', CFile), (u ''link'', CLink), (u ''late'', CGone),
      (u ''sub'', CDir (DObs Missing (Entries [(u ''c.md'', CFile)]))),
      (u ''repo'', CDir (DObs Dir (Entries [(u ''d.md'', CFile)])))])"

definition scan_obs :: source_obs where
  "scan_obs = \<lparr>so_base = u ''/home/n'', so_root = Done (), so_markers = Inr [], so_projects = None, so_above = (\<lambda>_ _. Missing),
     so_include = (\<lambda>_. Done (quiet_stat\<lparr>fs_kind := KDir\<rparr>)), so_start = (\<lambda>_ _. Missing), so_dir = (\<lambda>_. scan_tree),
     so_link = (\<lambda>_ _. Reg), so_stat = (\<lambda>p. Done (quiet_stat\<lparr>fs_ino := length (last p) + 10 * length p\<rparr>)),
     so_again = (\<lambda>_. Vanished), so_read1 = (\<lambda>p. quiet_read\<lparr>ro_path1 := Vanished\<rparr>), so_read2 = (\<lambda>p. quiet_read)\<rparr>"

definition scan_env :: scan_args where
  "scan_env = \<lparr>za_sha = (\<lambda>d. map uint d), za_iso = (\<lambda>t. [t]), za_max = 9, za_hold = True\<rparr>"

definition scan_cfg :: walk_cfg where
  "scan_cfg = \<lparr>sc_name = u ''n'', sc_type = u ''generic'', sc_path = u ''~/n'', sc_exclude = [], sc_include = [],
     sc_dirs = [u ''notes''], sc_files = []\<rparr>"

definition scan_result :: source_scan where
  "scan_result = (case walk_source scan_env scan_cfg scan_obs of Inr z \<Rightarrow> z | Inl _ \<Rightarrow> empty_scan)"

lemma scan_selected: "selected scan_cfg scan_obs [u ''notes'', u ''b.md'']"
proof -
  have n: "path_parts (u ''notes'') = [u ''notes'']" by code_simp
  have "entered_dir [] [u ''notes''] Missing" unfolding entered_dir_def by code_simp
  then have "listed [] [u ''notes''] scan_tree ([u ''notes''] @ [u ''b.md'']) CFile"
    unfolding scan_tree_def by (rule listed.here) simp
  then have "found scan_obs [] (u ''notes'') [u ''notes''] [u ''notes'', u ''b.md'']"
    by (simp add: found_def scan_obs_def)
  moreover have "included scan_obs [] (u ''notes'') [u ''notes'']" unfolding included_def by code_simp
  moreover have "is_folder scan_obs (u ''notes'')" by (simp add: is_folder_def scan_obs_def)
  moreover have "\<not> under_skip_prefix [] []" by code_simp
  ultimately have "selected_generic scan_cfg scan_obs [u ''notes'', u ''b.md'']"
    by (auto simp: selected_generic_def scan_cfg_def marker_prefixes_def scan_obs_def n)
  moreover have "sc_type scan_cfg = u ''generic''" "so_root scan_obs = Done ()" by (simp_all add: scan_cfg_def scan_obs_def)
  ultimately show ?thesis by (simp add: selected_def)
qed

theorem scan_accounts_for_every_file_witness:
  "map_of (zs_files scan_result) (u ''notes/b.md'') = None \<and>
   (accounted scan_result (join_with [47] [u ''notes'', u ''b.md'']) \<or>
    (\<exists>q. twin scan_obs q [u ''notes'', u ''b.md''] \<and> accounted scan_result (join_with [47] q)))"
proof -
  have run: "walk_source scan_env scan_cfg scan_obs = Inr scan_result" by code_simp
  have "\<not> excluded_in scan_cfg scan_obs (join_with [47] [u ''notes'', u ''b.md''])" by code_simp
  from scan_accounts_for_every_file [OF run scan_selected this]
  have "accounted scan_result (join_with [47] [u ''notes'', u ''b.md'']) \<or>
    (\<exists>q. twin scan_obs q [u ''notes'', u ''b.md''] \<and> accounted scan_result (join_with [47] q))"
    by (auto simp: scan_cfg_def)
  moreover have "map_of (zs_files scan_result) (u ''notes/b.md'') = None" by code_simp
  ultimately show ?thesis by blast
qed

definition built_scan :: scan where
  "built_scan = (case build_manifest_v2 scan_env (\<lambda>_. scan_obs) (u ''d'') (u ''D'') (u ''t'') [scan_cfg] of
     Inr sc \<Rightarrow> sc | Inl _ \<Rightarrow> \<lparr>s_manifest = \<lparr>m_timestamp = [], m_rest = [], m_sources = None, m_tombstones = []\<rparr>,
       s_nested = [], s_held = None\<rparr>)"

theorem scan_publishes_only_selected_witness:
  "\<exists>p. u ''notes/sub/c.md'' = join_with [47] p \<and> selected scan_cfg scan_obs p"
proof -
  have run: "build_manifest_v2 scan_env (\<lambda>_. scan_obs) (u ''d'') (u ''D'') (u ''t'') [scan_cfg] = Inr built_scan" by code_simp
  have "files_at (s_manifest built_scan) (u ''n'') (u ''notes/sub/c.md'') \<noteq> None" by code_simp
  then obtain info where "files_at (s_manifest built_scan) (u ''n'') (u ''notes/sub/c.md'') = Some info" by blast
  from scan_publishes_only_selected [OF run this] show ?thesis by auto
qed

end
