(* ===== verification/Devices.thy ===== *)
theory Devices
  imports Fetch
begin

text \<open>
  The fleet as a pull sees it: the device records of the storage folder (\<open>devices.py\<close>), the refusal of
  fleets with a device from before the conflict inversion, the choice of the peers to pull from and the
  prefetch of their manifests (\<open>pullflow.py\<close>). Every record is read once, with an outcome of its own.
  \<open>packaging.version\<close> is a parameter: a parser of versions into a linear order.
\<close>

section \<open>The inventory\<close>

type_synonym device = "(pystr, json) dict"

datatype drop_reason = Unreadable | NotAnObject | BadDeviceId | BadDeviceName

record inventory =
  iv_valid :: "device list"
  iv_dropped :: "(pystr \<times> drop_reason) list"
  iv_vanished :: "pystr list"
  iv_foreign :: "pystr list"

definition empty_inventory :: inventory where
  "empty_inventory = \<lparr>iv_valid = [], iv_dropped = [], iv_vanished = [], iv_foreign = []\<rparr>"

text \<open>\<open>json.loads\<close> of the bytes; \<open>None\<close> for a \<open>ValueError\<close>. Nesting beyond the recursion limit escapes.\<close>

datatype decoded = Decoded json | NotJson | TooDeep

record device_env =
  de_wide :: "bytes \<Rightarrow> pystr option"
  de_lim :: nat
  de_nonzero :: "pystr \<Rightarrow> bool"

definition decode_device :: "device_env \<Rightarrow> bytes \<Rightarrow> decoded" where
  "decode_device env data =
     (case decode_json_bytes (de_wide env) data of
        None \<Rightarrow> NotJson
      | Some s \<Rightarrow>
          (case json_loads (de_lim env) s of
             Inr v \<Rightarrow> Decoded v
           | Inl JSONRecursionError \<Rightarrow> TooDeep
           | Inl _ \<Rightarrow> NotJson))"

definition check_device :: "pystr \<Rightarrow> pystr \<Rightarrow> json \<Rightarrow> inventory \<Rightarrow> inventory" where
  "check_device key key_id v iv =
     (case as_obj v of
        None \<Rightarrow> iv\<lparr>iv_dropped := iv_dropped iv @ [(key, NotAnObject)]\<rparr>
      | Some d \<Rightarrow>
          (case as_str (dget d (u ''device_id'') JNull) of
             None \<Rightarrow> iv\<lparr>iv_dropped := iv_dropped iv @ [(key, BadDeviceId)]\<rparr>
           | Some did \<Rightarrow>
               if did = [] then iv\<lparr>iv_dropped := iv_dropped iv @ [(key, BadDeviceId)]\<rparr>
               else if did \<noteq> key_id then iv\<lparr>iv_foreign := iv_foreign iv @ [key]\<rparr>
               else
                 (case as_str (dget d (u ''device_name'') JNull) of
                    None \<Rightarrow> iv\<lparr>iv_dropped := iv_dropped iv @ [(key, BadDeviceName)]\<rparr>
                  | Some _ \<Rightarrow> iv\<lparr>iv_valid := iv_valid iv @ [d]\<rparr>)))"

text \<open>The file name of a key: \<open>key.rsplit("/", 1)[-1]\<close>.\<close>

definition key_name :: "pystr \<Rightarrow> pystr" where
  "key_name key = last (split_on 47 key)"

text \<open>\<open>inventory_devices\<close> over the listed keys; \<open>None\<close> when the recursion limit escapes.\<close>

fun inventory_keys ::
  "device_env \<Rightarrow> (pystr \<Rightarrow> storage_error + bytes) \<Rightarrow> pystr list \<Rightarrow> inventory \<Rightarrow> inventory option" where
  "inventory_keys env get [] iv = Some iv"
| "inventory_keys env get (key # keys) iv =
     (case (if is_conflict_name (key_name key) then None else parse_device_key key) of
        None \<Rightarrow> inventory_keys env get keys (iv\<lparr>iv_foreign := iv_foreign iv @ [key]\<rparr>)
      | Some key_id \<Rightarrow>
          (case get key of
             Inl (NotFound _) \<Rightarrow> inventory_keys env get keys (iv\<lparr>iv_vanished := iv_vanished iv @ [key_id]\<rparr>)
           | Inl _ \<Rightarrow> inventory_keys env get keys (iv\<lparr>iv_dropped := iv_dropped iv @ [(key, Unreadable)]\<rparr>)
           | Inr data \<Rightarrow>
               (case decode_device env data of
                  TooDeep \<Rightarrow> None
                | NotJson \<Rightarrow> inventory_keys env get keys (iv\<lparr>iv_dropped := iv_dropped iv @ [(key, Unreadable)]\<rparr>)
                | Decoded v \<Rightarrow> inventory_keys env get keys (check_device key key_id v iv))))"

definition inventory_devices :: "device_env \<Rightarrow> (pystr \<Rightarrow> storage_error + bytes) \<Rightarrow> dnode \<Rightarrow> inventory option" where
  "inventory_devices env get root = inventory_keys env get (list_keys root DEVICES_PREFIX) empty_inventory"

definition did_of :: "device \<Rightarrow> pystr" where
  "did_of d = (case as_str (dget d (u ''device_id'') JNull) of Some s \<Rightarrow> s | None \<Rightarrow> [])"

section \<open>Registration\<close>

datatype device_error = RecordNotJson | RecordTooDeep | RecordTypeError | BadKey key_error | PutRefused

text \<open>\<open>dumps\<close> is \<open>json.dumps(data, indent=2).encode("utf-8")\<close>. An existing entry is left alone; an
  \<open>OSError\<close> of the folder is no \<open>StorageError\<close> and escapes.\<close>

definition register_device ::
  "(device \<Rightarrow> bytes) \<Rightarrow> pystr \<Rightarrow> dnode \<Rightarrow> pystr \<Rightarrow> pystr \<Rightarrow> device_error + dnode" where
  "register_device dumps now root device_id device_name =
     (case device_key device_id of
        Inl e \<Rightarrow> Inl (BadKey e)
      | Inr key \<Rightarrow>
          (let data = [(u ''device_id'', JStr device_id), (u ''device_name'', JStr device_name), (u ''registered'', JStr now)]
           in case put_exclusive root key (dumps data) of
                Inl OSRefused \<Rightarrow> Inl PutRefused
              | Inl _ \<Rightarrow> Inr root
              | Inr root' \<Rightarrow> Inr root'))"

text \<open>\<open>update_last_seen\<close> with the lock held: \<open>get\<close> is the read, \<open>version\<close> the running \<open>__version__\<close>.
  A record that is not an object is a \<open>TypeError\<close> of the assignment; a record that does not decode
  escapes too, only the storage error of the read is silent.\<close>

definition stamp :: "pystr \<Rightarrow> pystr \<Rightarrow> device \<Rightarrow> device" where
  "stamp now version d =
     AList.update (u ''last_seen_version'') (JStr version) (AList.update (u ''last_seen'') (JStr now) d)"

definition update_last_seen ::
  "device_env \<Rightarrow> (device \<Rightarrow> bytes) \<Rightarrow> pystr \<Rightarrow> pystr \<Rightarrow> (pystr \<Rightarrow> storage_error + bytes) \<Rightarrow> dnode \<Rightarrow> pystr \<Rightarrow> device_error + dnode" where
  "update_last_seen env dumps now version get root device_id =
     (case device_key device_id of
        Inl e \<Rightarrow> Inl (BadKey e)
      | Inr key \<Rightarrow>
          (case get key of
             Inl _ \<Rightarrow> Inr root
           | Inr data \<Rightarrow>
               (case decode_device env data of
                  NotJson \<Rightarrow> Inl RecordNotJson
                | TooDeep \<Rightarrow> Inl RecordTooDeep
                | Decoded v \<Rightarrow>
                    (case as_obj v of
                       None \<Rightarrow> Inl RecordTypeError
                     | Some d \<Rightarrow>
                         (case backend_put root key (dumps (stamp now version d)) of
                            Inl _ \<Rightarrow> Inl PutRefused
                          | Inr root' \<Rightarrow> Inr root')))))"

text \<open>\<open>generate_unique_short_device_id\<close> over the ids drawn.\<close>

fun generate_unique_short_device_id :: "pystr set \<Rightarrow> pystr list \<Rightarrow> pystr \<Rightarrow> pystr" where
  "generate_unique_short_device_id existing [] last_drawn = last_drawn"
| "generate_unique_short_device_id existing (candidate # draws) last_drawn =
     (if candidate \<notin> existing then candidate else generate_unique_short_device_id existing draws candidate)"

definition lookup_device_by_short_id :: "device list \<Rightarrow> pystr \<Rightarrow> device option \<times> nat" where
  "lookup_device_by_short_id devices short_id =
     (let matches = filter (\<lambda>d. take (length short_id) (did_of d) = short_id) devices
      in case matches of [d] \<Rightarrow> (Some d, 1) | _ \<Rightarrow> (None, length matches))"

section \<open>The version gate\<close>

definition INVERSION_MIN_VERSION :: pystr where
  "INVERSION_MIN_VERSION = u ''0.9.2''"

text \<open>Whether a decoded value is true in Python; \<open>nonzero\<close> reads a float literal.\<close>

fun json_truthy :: "(pystr \<Rightarrow> bool) \<Rightarrow> json \<Rightarrow> bool" where
  "json_truthy nonzero JNull = False"
| "json_truthy nonzero (JBool b) = b"
| "json_truthy nonzero (JInt n) = (n \<noteq> 0)"
| "json_truthy nonzero (JFloat lit) = nonzero lit"
| "json_truthy nonzero (JStr s) = (s \<noteq> [])"
| "json_truthy nonzero (JList vs) = (vs \<noteq> [])"
| "json_truthy nonzero (JObj d) = (d \<noteq> [])"

datatype refusal = CorruptEntry pystr drop_reason | MissingVersion pystr | MalformedVersion pystr | OldVersion pystr

definition refuse_device ::
  "device_env \<Rightarrow> (pystr \<Rightarrow> 'v::linorder option) \<Rightarrow> 'v \<Rightarrow> pystr \<Rightarrow> device \<Rightarrow> refusal list" where
  "refuse_device env parse_version threshold me d =
     (if did_of d = me then []
      else if \<not> json_truthy (de_nonzero env) (dget d (u ''last_seen'') JNull) then []
      else
        (case as_str (dget d (u ''last_seen_version'') JNull) of
           None \<Rightarrow> [MissingVersion (did_of d)]
         | Some s \<Rightarrow>
             if s = [] then [MissingVersion (did_of d)]
             else
               (case parse_version s of
                  None \<Rightarrow> [MalformedVersion (did_of d)]
                | Some v \<Rightarrow> if v < threshold then [OldVersion (did_of d)] else [])))"

text \<open>\<open>_check_fleet_version_or_refuse\<close>: the refusals; the pull goes on only when there are none.\<close>

definition fleet_refusals ::
  "device_env \<Rightarrow> (pystr \<Rightarrow> 'v::linorder option) \<Rightarrow> pystr \<Rightarrow> inventory \<Rightarrow> refusal list" where
  "fleet_refusals env parse_version me iv =
     (case parse_version INVERSION_MIN_VERSION of
        None \<Rightarrow> []
      | Some threshold \<Rightarrow>
          map (\<lambda>(key, reason). CorruptEntry key reason) (iv_dropped iv) @
          concat (map (refuse_device env parse_version threshold me) (iv_valid iv)))"

section \<open>Choosing peers and fetching their manifests\<close>

definition select_devices :: "pystr \<Rightarrow> pystr option \<Rightarrow> inventory \<Rightarrow> device list \<times> device list" where
  "select_devices me from_device iv =
     (let all_devices = iv_valid iv
      in (all_devices,
          case from_device of
            Some f \<Rightarrow> if f = [] then filter (\<lambda>d. did_of d \<noteq> me) all_devices else filter (\<lambda>d. did_of d = f) all_devices
          | None \<Rightarrow> filter (\<lambda>d. did_of d \<noteq> me) all_devices))"

type_synonym cache = "(pystr, manifest option) dict"

record prefetched =
  pf_cache :: cache
  pf_corrupt :: "pystr list"
  pf_vanished :: "pystr list"

fun prefetch_manifests ::
  "(pystr \<Rightarrow> fetch_error + manifest_fetch) \<Rightarrow> pystr list \<Rightarrow> prefetched \<Rightarrow> fetch_error + prefetched" where
  "prefetch_manifests fetch [] pf = Inr pf"
| "prefetch_manifests fetch (did # dids) pf =
     (case fetch did of
        Inl e \<Rightarrow> Inl e
      | Inr f \<Rightarrow>
          prefetch_manifests fetch dids
            \<lparr>pf_cache = AList.update did (if mf_status f = StatusOk then mf_manifest f else None) (pf_cache pf),
             pf_corrupt = (if mf_status f = StatusCorrupt then pf_corrupt pf @ [did] else pf_corrupt pf),
             pf_vanished = (if mf_status f = StatusMissing \<and> mf_vanished f then pf_vanished pf @ [did] else pf_vanished pf)\<rparr>)"

section \<open>Laws\<close>

lemma parse_device_key_inj: "parse_device_key k = Some d \<Longrightarrow> parse_device_key k' = Some d \<Longrightarrow> k = k'"
  by (simp add: parse_device_key_iff)

text \<open>A key that names the device \<open>id\<close>, and where the inventory puts it.\<close>

definition names_device :: "pystr \<Rightarrow> pystr \<Rightarrow> bool" where
  "names_device key did \<longleftrightarrow> parse_device_key key = Some did \<and> \<not> is_conflict_name (key_name key)"

definition read_record :: "device_env \<Rightarrow> (pystr \<Rightarrow> storage_error + bytes) \<Rightarrow> pystr \<Rightarrow> json option" where
  "read_record env get key =
     (case get key of Inl _ \<Rightarrow> None | Inr data \<Rightarrow> (case decode_device env data of Decoded v \<Rightarrow> Some v | _ \<Rightarrow> None))"

definition classified :: "device_env \<Rightarrow> (pystr \<Rightarrow> storage_error + bytes) \<Rightarrow> inventory \<Rightarrow> pystr \<Rightarrow> pystr \<Rightarrow> bool" where
  "classified env get iv key did \<longleftrightarrow>
     (did \<in> set (iv_vanished iv) \<and> (\<exists>b. get key = Inl (NotFound b))) \<or>
     (\<exists>reason. (key, reason) \<in> set (iv_dropped iv)) \<or>
     (key \<in> set (iv_foreign iv) \<and> (\<exists>d. read_record env get key = Some (JObj d) \<and> did_of d \<noteq> did)) \<or>
     (\<exists>d \<in> set (iv_valid iv). did_of d = did \<and> read_record env get key = Some (JObj d))"

definition extends :: "inventory \<Rightarrow> inventory \<Rightarrow> bool" where
  "extends iv iv' \<longleftrightarrow>
     set (iv_valid iv) \<subseteq> set (iv_valid iv') \<and> set (iv_dropped iv) \<subseteq> set (iv_dropped iv') \<and>
     set (iv_vanished iv) \<subseteq> set (iv_vanished iv') \<and> set (iv_foreign iv) \<subseteq> set (iv_foreign iv')"

lemma extends_trans: "extends a b \<Longrightarrow> extends b c \<Longrightarrow> extends a c"
  unfolding extends_def by blast

lemma classified_extends: "classified env get iv key did \<Longrightarrow> extends iv iv' \<Longrightarrow> classified env get iv' key did"
  unfolding classified_def extends_def by blast

lemma check_device_cases:
  obtains d where "v = JObj d" "did_of d = key_id" "key_id \<noteq> []" "as_str (dget d (u ''device_name'') JNull) \<noteq> None"
      "check_device key key_id v iv = iv\<lparr>iv_valid := iv_valid iv @ [d]\<rparr>"
  | reason where "check_device key key_id v iv = iv\<lparr>iv_dropped := iv_dropped iv @ [(key, reason)]\<rparr>"
  | d where "v = JObj d" "did_of d \<noteq> key_id" "check_device key key_id v iv = iv\<lparr>iv_foreign := iv_foreign iv @ [key]\<rparr>"
proof (cases "as_obj v")
  case None
  with that(2) show thesis by (simp add: check_device_def)
next
  case (Some d)
  show thesis
  proof (cases "as_str (dget d (u ''device_id'') JNull)")
    case None
    with Some that(2) show thesis by (simp add: check_device_def)
  next
    case did: (Some did)
    have e: "v = JObj d" "did_of d = did" using Some did by (simp_all add: did_of_def)
    show thesis
    proof (cases "did = [] \<or> did \<noteq> key_id")
      case True
      with Some did e that(2) [of BadDeviceId] that(3) [of d] show thesis
        by (cases "did = []") (simp_all add: check_device_def)
    next
      case False
      then have k: "did = key_id" "key_id \<noteq> []" by auto
      show thesis
      proof (cases "as_str (dget d (u ''device_name'') JNull)")
        case None
        with Some did k have "check_device key key_id v iv = iv\<lparr>iv_dropped := iv_dropped iv @ [(key, BadDeviceName)]\<rparr>"
          by (simp add: check_device_def del: as_str_None)
        then show thesis by (rule that(2))
      next
        case name: (Some n)
        with Some did k have "check_device key key_id v iv = iv\<lparr>iv_valid := iv_valid iv @ [d]\<rparr>"
          by (simp add: check_device_def)
        from that(1) [OF e(1) _ k(2) _ this] e(2) k name show thesis by simp
      qed
    qed
  qed
qed

text \<open>One key is read: it is foreign by its name, or classified, and adds at most the device it names.\<close>

lemma inventory_step:
  assumes "inventory_keys env get (key # keys) iv = Some iv'"
  obtains iv1 new where "inventory_keys env get keys iv1 = Some iv'" "extends iv iv1" "iv_valid iv1 = iv_valid iv @ new"
    "\<forall>did. names_device key did \<longrightarrow> classified env get iv1 key did"
    "new = [] \<or> (\<exists>d. new = [d] \<and> names_device key (did_of d) \<and> read_record env get key = Some (JObj d))"
proof (cases "is_conflict_name (key_name key) \<or> parse_device_key key = None")
  case True
  then have none: "(if is_conflict_name (key_name key) then None else parse_device_key key) = None" by auto
  show thesis
  proof (rule that)
    show "inventory_keys env get keys (iv\<lparr>iv_foreign := iv_foreign iv @ [key]\<rparr>) = Some iv'" using assms none by simp
    show "\<forall>did. names_device key did \<longrightarrow> classified env get (iv\<lparr>iv_foreign := iv_foreign iv @ [key]\<rparr>) key did"
      using True by (auto simp: names_device_def)
  qed (auto simp: extends_def)
next
  case False
  then obtain id where id: "parse_device_key key = Some id" "\<not> is_conflict_name (key_name key)" by auto
  have only: "did = id" if "names_device key did" for did using that id by (simp add: names_device_def)
  note step = assms [unfolded inventory_keys.simps if_not_P [OF id(2)] id(1) option.case]
  show thesis
  proof (cases "get key")
    case (Inl e)
    show thesis
    proof (cases "\<exists>b. e = NotFound b")
      case True
      then obtain b where b: "e = NotFound b" by blast
      show thesis
      proof (rule that)
        show "inventory_keys env get keys (iv\<lparr>iv_vanished := iv_vanished iv @ [id]\<rparr>) = Some iv'"
          using step Inl b by simp
        show "\<forall>did. names_device key did \<longrightarrow> classified env get (iv\<lparr>iv_vanished := iv_vanished iv @ [id]\<rparr>) key did"
          using only Inl b by (auto simp: classified_def)
      qed (auto simp: extends_def)
    next
      case False
      then have "(case e of NotFound b \<Rightarrow> x | _ \<Rightarrow> y) = y" for x y :: "inventory option" by (cases e) auto
      show thesis
      proof (rule that)
        show "inventory_keys env get keys (iv\<lparr>iv_dropped := iv_dropped iv @ [(key, Unreadable)]\<rparr>) = Some iv'"
          using step Inl False by (cases e) auto
      qed (auto simp: extends_def classified_def)
    qed
  next
    case (Inr data)
    show thesis
    proof (cases "decode_device env data")
      case (Decoded v)
      have run: "inventory_keys env get keys (check_device key id v iv) = Some iv'" using step Inr Decoded by simp
      have rr: "read_record env get key = Some v" by (simp add: read_record_def Inr Decoded)
      show thesis
      proof (rule check_device_cases [of v id key iv])
        fix d assume c: "v = JObj d" "did_of d = id" "check_device key id v iv = iv\<lparr>iv_valid := iv_valid iv @ [d]\<rparr>"
        show thesis
        proof (rule that [OF run, of "[d]"])
          show "\<forall>did. names_device key did \<longrightarrow> classified env get (check_device key id v iv) key did"
            using only c rr by (auto simp: classified_def)
        qed (use c id rr in \<open>auto simp: extends_def names_device_def\<close>)
      next
        fix reason assume c: "check_device key id v iv = iv\<lparr>iv_dropped := iv_dropped iv @ [(key, reason)]\<rparr>"
        show thesis by (rule that [OF run, of "[]"]) (auto simp: c extends_def classified_def)
      next
        fix d assume c: "v = JObj d" "did_of d \<noteq> id" "check_device key id v iv = iv\<lparr>iv_foreign := iv_foreign iv @ [key]\<rparr>"
        show thesis
        proof (rule that [OF run, of "[]"])
          show "\<forall>did. names_device key did \<longrightarrow> classified env get (check_device key id v iv) key did"
            using only c rr by (auto simp: classified_def)
        qed (auto simp: c(3) extends_def)
      qed
    next
      case NotJson
      show thesis
      proof (rule that)
        show "inventory_keys env get keys (iv\<lparr>iv_dropped := iv_dropped iv @ [(key, Unreadable)]\<rparr>) = Some iv'"
          using step Inr NotJson by simp
      qed (auto simp: extends_def classified_def)
    next
      case TooDeep
      with step Inr show thesis by simp
    qed
  qed
qed

lemma inventory_laws:
  assumes "inventory_keys env get keys iv = Some iv'" "distinct keys"
  shows "extends iv iv' \<and> (\<forall>key \<in> set keys. \<forall>did. names_device key did \<longrightarrow> classified env get iv' key did) \<and>
    (\<exists>new. iv_valid iv' = iv_valid iv @ new \<and> distinct (map did_of new) \<and>
       (\<forall>d \<in> set new. \<exists>key \<in> set keys. names_device key (did_of d) \<and> read_record env get key = Some (JObj d)))"
  using assms
proof (induction keys arbitrary: iv)
  case (Cons key keys)
  obtain iv1 new1 where st: "inventory_keys env get keys iv1 = Some iv'" "extends iv iv1" "iv_valid iv1 = iv_valid iv @ new1"
    "\<forall>did. names_device key did \<longrightarrow> classified env get iv1 key did"
    "new1 = [] \<or> (\<exists>d. new1 = [d] \<and> names_device key (did_of d) \<and> read_record env get key = Some (JObj d))"
    by (rule inventory_step [OF Cons.prems(1)], rule that)
  from Cons.IH [OF st(1)] Cons.prems(2) obtain new where ih: "extends iv1 iv'"
    "\<forall>key \<in> set keys. \<forall>did. names_device key did \<longrightarrow> classified env get iv' key did"
    "iv_valid iv' = iv_valid iv1 @ new" "distinct (map did_of new)"
    "\<forall>d \<in> set new. \<exists>key \<in> set keys. names_device key (did_of d) \<and> read_record env get key = Some (JObj d)" by auto
  have "distinct (map did_of (new1 @ new))"
  proof -
    have "did_of d \<noteq> did_of d1" if "d1 \<in> set new1" "d \<in> set new" for d d1
    proof
      assume eq: "did_of d = did_of d1"
      from st(5) that(1) have "names_device key (did_of d1)" by auto
      moreover from ih(5) that(2) obtain k where "k \<in> set keys" "names_device k (did_of d)" by blast
      ultimately have "k = key" "k \<in> set keys" using eq parse_device_key_inj [of k "did_of d" key] by (simp_all add: names_device_def)
      with Cons.prems(2) show False by simp
    qed
    with ih(4) st(5) show ?thesis by (auto simp: image_iff) (metis)+
  qed
  moreover have "extends iv iv'" using st(2) ih(1) by (rule extends_trans)
  moreover have "\<forall>k \<in> set (key # keys). \<forall>did. names_device k did \<longrightarrow> classified env get iv' k did"
    using ih(2) st(4) classified_extends [OF _ ih(1)] by auto
  moreover have "\<forall>d \<in> set (new1 @ new). \<exists>k \<in> set (key # keys). names_device k (did_of d) \<and> read_record env get k = Some (JObj d)"
    using st(5) ih(5) by auto
  ultimately show ?case using ih(3) st(3) by (metis append.assoc)
qed (auto simp: extends_def)

text \<open>A folder lists no key twice.\<close>

lemma distinct_walk_entries:
  assumes "distinct (map fst es)" "\<And>e. e \<in> set es \<Longrightarrow> distinct (g e)"
    "\<And>e q. e \<in> set es \<Longrightarrow> q \<in> set (g e) \<Longrightarrow> \<exists>qs. q = path @ fst e # qs"
  shows "distinct (concat (map g es))"
  using assms
proof (induction es)
  case (Cons e es)
  have "set (g e) \<inter> set (concat (map g es)) = {}"
  proof (rule ccontr)
    assume "set (g e) \<inter> set (concat (map g es)) \<noteq> {}"
    then obtain q e' where q: "q \<in> set (g e)" "e' \<in> set es" "q \<in> set (g e')" by auto
    from Cons.prems(3) [of e q] Cons.prems(3) [of e' q] q have "fst e = fst e'" by auto
    with q(2) Cons.prems(1) show False by force
  qed
  with Cons show ?case by auto
qed simp

lemma walk_below: "wf_node n \<Longrightarrow> q \<in> set (walk foreign path inside n) \<Longrightarrow> \<exists>qs. q = path @ qs"
  using walk_spec [of n q foreign path inside] by blast

lemma walk_distinct: "wf_node n \<Longrightarrow> distinct (walk foreign path inside n)"
proof (induction foreign path inside n rule: walk.induct)
  case (2 foreign path inside es)
  let ?g = "\<lambda>(name, child). (case child of Folder _ \<Rightarrow> (if foreign \<or> \<not> (inside \<or> is_foreign_name name)
             then walk foreign (path @ [name]) (inside \<or> is_foreign_name name) child else [])
        | File _ \<Rightarrow> (if (inside \<or> is_foreign_name name) = foreign then [path @ [name]] else []))"
  have "distinct (concat (map ?g es))"
  proof (rule distinct_walk_entries)
    show "distinct (map fst es)" using "2.prems" by (simp add: distinct_keys_def)
    fix e assume e: "e \<in> set es"
    obtain name child where nc: "e = (name, child)" by (cases e)
    with "2.prems" e have wf: "wf_node child" by auto
    let ?w = "walk foreign (path @ [name]) (inside \<or> is_foreign_name name) child"
    have sub: "set (?g e) \<subseteq> insert (path @ [name]) (set ?w)" unfolding nc
      by (cases child) (auto simp del: walk.simps)
    show "distinct (?g e)"
    proof (cases child)
      case (Folder fs)
      have "distinct ?w" if "foreign \<or> \<not> (inside \<or> is_foreign_name name)"
        by (rule "2.IH" [OF e nc [symmetric] Folder that wf])
      then show ?thesis unfolding nc Folder by (simp del: walk.simps)
    qed (simp add: nc)
    show "\<exists>qs. q = path @ fst e # qs" if "q \<in> set (?g e)" for q
    proof -
      from that sub consider "q = path @ [name]" | "q \<in> set ?w" by blast
      then show ?thesis
      proof cases
        case 2
        from walk_below [OF wf this] show ?thesis by (auto simp: nc)
      qed (auto simp: nc)
    qed
  qed
  then show ?case by (simp only: walk.simps)
qed simp

lemma walk_parts_plain:
  assumes "wf_node root" "node_at root base = Some dir" "q \<in> set (walk foreign base inside dir)"
  shows "\<forall>p \<in> set q. plain_name p"
proof -
  from wf_node_at [OF assms(1,2)] have wf: "wf_node dir" by (rule conjunct1)
  from walk_spec [OF wf, THEN iffD1, OF assms(3)] obtain qs where q: "q = base @ qs" "file_at dir qs \<noteq> None"
    by (elim exE conjE)
  from q(2) obtain d where "node_at dir qs = Some (File d)" unfolding file_at_node by (elim exE)
  with q(1) assms(2) have "node_at root q = Some (File d)" by (simp add: node_at_append)
  from wf_node_at [OF assms(1) this] show ?thesis by (rule conjunct2)
qed

lemma list_keys_distinct:
  assumes "wf_node root"
  shows "distinct (list_keys root prefix)"
proof -
  have "distinct (map (join_with [47]) (walk False base False dir))" if at: "node_at root base = Some dir" for base dir
  proof -
    have "inj_on (join_with [47]) (set (walk False base False dir))"
    proof (rule inj_on_inverseI)
      fix x assume "x \<in> set (walk False base False dir)"
      from walk_parts_plain [OF assms at this] show "path_parts (join_with [47] x) = x"
        by (intro path_parts_join) (auto simp: plain_name_def)
    qed
    with walk_distinct [OF conjunct1 [OF wf_node_at [OF assms at]]] show ?thesis by (simp add: distinct_map)
  qed
  then show ?thesis unfolding list_keys_def walk_keys_def distinct_sort by (simp split: option.split)
qed

section \<open>Registration\<close>

text \<open>Registering twice keeps the first record.\<close>

lemma register_device_keeps:
  assumes "device_key device_id = Inr key" "node_at root (path_parts key) \<noteq> None"
  shows "register_device dumps now root device_id name = Inr root"
  using assms by (auto simp: register_device_def put_exclusive_def)

section \<open>The gate\<close>

lemma refuse_device_none:
  assumes "refuse_device env parse_version threshold me d = []"
  shows "did_of d = me \<or> \<not> json_truthy (de_nonzero env) (dget d (u ''last_seen'') JNull) \<or>
    (\<exists>s v. as_str (dget d (u ''last_seen_version'') JNull) = Some s \<and> parse_version s = Some v \<and> threshold \<le> v)"
proof (cases "did_of d = me \<or> \<not> json_truthy (de_nonzero env) (dget d (u ''last_seen'') JNull)")
  case False
  then have run: "refuse_device env parse_version threshold me d =
      (case as_str (dget d (u ''last_seen_version'') JNull) of
         None \<Rightarrow> [MissingVersion (did_of d)]
       | Some s \<Rightarrow> if s = [] then [MissingVersion (did_of d)]
           else (case parse_version s of
                   None \<Rightarrow> [MalformedVersion (did_of d)]
                 | Some v \<Rightarrow> if v < threshold then [OldVersion (did_of d)] else []))"
    by (simp add: refuse_device_def)
  with assms obtain s v where "as_str (dget d (u ''last_seen_version'') JNull) = Some s" "parse_version s = Some v" "\<not> v < threshold"
    by (simp split: option.splits if_splits)
  then show ?thesis by auto
qed blast

text \<open>A push stamps its record so that the gate of every peer lets it through.\<close>

lemma stamp_accepted:
  assumes "parse_version version = Some v" "threshold \<le> v" "version \<noteq> []"
  shows "refuse_device env parse_version threshold me (stamp now version d) = []"
proof -
  have "dget (stamp now version d) (u ''last_seen_version'') JNull = JStr version"
    by (simp add: stamp_def dget_def update_conv)
  with assms show ?thesis by (simp add: refuse_device_def leD)
qed

text \<open>C32. When the version gate of a pull raises no refusal, every key of the devices folder that names a
  device is accounted for: its record vanished during the read, it is the record of another device under
  the wrong name, or it is a valid record of that device, and then the device is this one, never pushed,
  or last pushed with a version at or above the threshold. No device is listed twice.\<close>

theorem fleet_gate:
  assumes "wf_node root"
    and "inventory_devices env get root = Some iv"
    and "parse_version INVERSION_MIN_VERSION = Some (threshold :: 'v::linorder)"
    and "fleet_refusals env parse_version me iv = []"
  shows "distinct (map did_of (iv_valid iv)) \<and>
    (\<forall>key \<in> set (list_keys root DEVICES_PREFIX). \<forall>did. names_device key did \<longrightarrow>
       (did \<in> set (iv_vanished iv) \<and> (\<exists>b. get key = Inl (NotFound b))) \<or>
       (key \<in> set (iv_foreign iv) \<and> (\<exists>d. read_record env get key = Some (JObj d) \<and> did_of d \<noteq> did)) \<or>
       (\<exists>d \<in> set (iv_valid iv). did_of d = did \<and> read_record env get key = Some (JObj d) \<and>
          (did = me \<or> \<not> json_truthy (de_nonzero env) (dget d (u ''last_seen'') JNull) \<or>
           (\<exists>s v. as_str (dget d (u ''last_seen_version'') JNull) = Some s \<and> parse_version s = Some v \<and> threshold \<le> v))))"
proof -
  note laws = inventory_laws [OF assms(2) [unfolded inventory_devices_def] list_keys_distinct [OF assms(1)]]
  have none: "iv_dropped iv = []" "\<forall>d \<in> set (iv_valid iv). refuse_device env parse_version threshold me d = []"
    using assms(3,4) by (auto simp: fleet_refusals_def)
  have "distinct (map did_of (iv_valid iv))" using laws by (auto simp: empty_inventory_def)
  moreover have "classified env get iv key did" if "key \<in> set (list_keys root DEVICES_PREFIX)" "names_device key did" for key did
    using laws that by blast
  moreover have "did_of d = me \<or> \<not> json_truthy (de_nonzero env) (dget d (u ''last_seen'') JNull) \<or>
    (\<exists>s v. as_str (dget d (u ''last_seen_version'') JNull) = Some s \<and> parse_version s = Some v \<and> threshold \<le> v)"
    if "d \<in> set (iv_valid iv)" for d
    using none(2) that by (intro refuse_device_none) blast
  ultimately show ?thesis
    unfolding classified_def none(1) by (intro conjI ballI allI impI) (assumption, simp (no_asm_use) only: list.set(1) empty_iff ex_simps, blast)
qed

text \<open>A fleet of three: this device, one that never pushed and one at version 0.10.1; a fourth record
  carries the id of another device.\<close>

definition demo_record :: "pystr \<Rightarrow> pystr \<Rightarrow> bytes" where
  "demo_record did rest = map of_int
     (u ''{'' @ [34] @ u ''device_id'' @ [34, 58, 34] @ did @ [34, 44, 34] @ u ''device_name'' @ [34, 58, 34, 34] @ rest @ u ''}'')"

definition demo_fleet :: dnode where
  "demo_fleet = Folder [(u ''devices'', Folder
     [(u ''aa.json'', File (demo_record (u ''aa'') [])),
      (u ''bb.json'', File (demo_record (u ''bb'') [])),
      (u ''cc.json'', File (demo_record (u ''cc'')
         ([44, 34] @ u ''last_seen'' @ [34, 58, 49, 44, 34] @ u ''last_seen_version'' @ [34, 58, 34] @ u ''0.10.1'' @ [34]))),
      (u ''dd.json'', File (demo_record (u ''ee'') []))])]"

definition demo_get :: "pystr \<Rightarrow> storage_error + bytes" where
  "demo_get key = (case stored demo_fleet key of None \<Rightarrow> Inl (NotFound False) | Some d \<Rightarrow> Inr d)"

definition demo_device_env :: device_env where
  "demo_device_env = \<lparr>de_wide = (\<lambda>_. None), de_lim = 50, de_nonzero = (\<lambda>_. True)\<rparr>"

text \<open>Versions of three numbers.\<close>

definition demo_version :: "pystr \<Rightarrow> int option" where
  "demo_version s = (case map (\<lambda>p. foldl (\<lambda>n c. 10 * n + (c - 48)) 0 p) (split_on 46 s) of
     [a, b, c] \<Rightarrow> Some (10000 * a + 100 * b + c) | _ \<Rightarrow> None)"

lemma demo_fleet_inventory:
  "map did_of (iv_valid (the (inventory_devices demo_device_env demo_get demo_fleet))) = [u ''aa'', u ''bb'', u ''cc'']"
  "iv_foreign (the (inventory_devices demo_device_env demo_get demo_fleet)) = [u ''devices/dd.json'']"
  "inventory_devices demo_device_env demo_get demo_fleet \<noteq> None"
  "fleet_refusals demo_device_env demo_version (u ''aa'') (the (inventory_devices demo_device_env demo_get demo_fleet)) = []"
  "wf_node demo_fleet" "demo_version INVERSION_MIN_VERSION = Some 902"
  by code_simp+

lemma demo_fleet_names:
  "u ''devices/cc.json'' \<in> set (list_keys demo_fleet DEVICES_PREFIX)" "names_device (u ''devices/cc.json'') (u ''cc'')"
  "iv_vanished (the (inventory_devices demo_device_env demo_get demo_fleet)) = []"
  by code_simp+

theorem fleet_gate_witness:
  "distinct (map did_of (iv_valid (the (inventory_devices demo_device_env demo_get demo_fleet)))) \<and>
   (\<exists>d \<in> set (iv_valid (the (inventory_devices demo_device_env demo_get demo_fleet))).
      did_of d = u ''cc'' \<and> read_record demo_device_env demo_get (u ''devices/cc.json'') = Some (JObj d))"
proof -
  let ?iv = "the (inventory_devices demo_device_env demo_get demo_fleet)"
  have run: "inventory_devices demo_device_env demo_get demo_fleet = Some ?iv"
    using demo_fleet_inventory(3) by (rule option.collapse [symmetric])
  note gate = fleet_gate [OF demo_fleet_inventory(5) run demo_fleet_inventory(6,4)]
  from gate [THEN conjunct2, rule_format, OF demo_fleet_names(1,2)]
  have "\<exists>d \<in> set (iv_valid ?iv). did_of d = u ''cc'' \<and> read_record demo_device_env demo_get (u ''devices/cc.json'') = Some (JObj d)"
    unfolding demo_fleet_names(3) demo_fleet_inventory(2) by (auto simp: u_def)
  with gate [THEN conjunct1] show ?thesis by (rule conjI)
qed

end
