(* ===== verification/PullCore.thy ===== *)
theory PullCore
  imports Devices Planner
begin

text \<open>
  The whole pull, \<open>_pull_core\<close> of \<open>pullflow.py\<close>: the version gate, the choice of the peers, the manifests of
  the fleet behind the disabled-source filter, the consumer gate and the case-collision filter, the
  tombstones of the fleet, the preview of the dry run and the fail mode, and the loop over peers and
  sources with one shared record of deferred bumps. Printing, the history log, fsync and the sweep that
  renames conflict files of the old format are left out.
\<close>

section \<open>Checkouts above incoming paths\<close>

text \<open>\<open>nested_repo_roots_for_paths\<close>: the folders above a path are probed from the top until one is
  missing, no folder, a link or a checkout. \<open>tree\<close> is \<open>lstat\<close> below the resolved base, \<open>git\<close> the probe of
  a folder.\<close>

fun checkout_above :: "tree \<Rightarrow> (pystr list \<Rightarrow> bool) \<Rightarrow> pystr list \<Rightarrow> pystr list \<Rightarrow> pystr list option" where
  "checkout_above tree git upper [] = None"
| "checkout_above tree git upper (part # parts) =
     (if part \<in> {[], u ''.'', u ''..''} then None
      else if tree (upper @ [part]) \<noteq> Dir then None
      else if git (upper @ [part]) then Some (upper @ [part])
      else checkout_above tree git (upper @ [part]) parts)"

definition nested_repo_roots_for_paths :: "tree \<Rightarrow> (pystr list \<Rightarrow> bool) \<Rightarrow> pystr list \<Rightarrow> pystr list" where
  "nested_repo_roots_for_paths tree git rels =
     sort (remdups (map (join_with [47])
       (List.map_filter (\<lambda>rel. checkout_above tree git [] (butlast (split_on 47 rel))) rels)))"

type_synonym manifests = "(pystr, manifest option) dict"

definition all_manifests :: "manifests \<Rightarrow> manifest list" where
  "all_manifests ms = List.map_filter snd ms"

text \<open>The incoming paths of a source: files and tombstones of every peer.\<close>

definition incoming_paths :: "manifests \<Rightarrow> pystr \<Rightarrow> pystr list" where
  "incoming_paths ms name =
     concat (map (\<lambda>m. dkeys (files_in (sources_of m) name) @
       map (snd \<circ> split_key) (filter (\<lambda>key. fst (split_key key) = name) (dkeys (m_tombstones m)))) (all_manifests ms))"

definition incoming_nested_roots ::
  "(pystr \<Rightarrow> tree) \<Rightarrow> (pystr \<Rightarrow> pystr list \<Rightarrow> bool) \<Rightarrow> source_cfg list \<Rightarrow> manifests \<Rightarrow> path_sets" where
  "incoming_nested_roots tree git srcs ms =
     fold (\<lambda>src. put_patterns (sc_name src)
       (nested_repo_roots_for_paths (tree (sc_name src)) (git (sc_name src)) (incoming_paths ms (sc_name src)))) srcs []"

section \<open>Case collisions\<close>

text \<open>\<open>path.stat()\<close> and \<open>alt.samefile(path)\<close>.\<close>

datatype probe_out = ProbeMissing | ProbeFailed | ProbeOk bool

function detect_case_insensitive_fs :: "(path \<Rightarrow> probe_out) \<Rightarrow> (path \<Rightarrow> path \<Rightarrow> probe_out) \<Rightarrow> (pystr \<Rightarrow> pystr) \<Rightarrow> path \<Rightarrow> bool" where
  "detect_case_insensitive_fs stat samefile swapcase p =
     (case stat p of
        ProbeFailed \<Rightarrow> True
      | ProbeMissing \<Rightarrow> if p = [] then True else detect_case_insensitive_fs stat samefile swapcase (butlast p)
      | ProbeOk _ \<Rightarrow>
          if p = [] \<or> swapcase (last p) = last p then True
          else
            (case samefile (butlast p @ [swapcase (last p)]) p of
               ProbeMissing \<Rightarrow> False
             | ProbeFailed \<Rightarrow> True
             | ProbeOk same \<Rightarrow> same))"
  by pat_completeness auto
termination by (relation "measure (\<lambda>(_, _, _, p). length p)") auto

text \<open>The clusters of one source: paths of any peer with one casefold.\<close>

definition collision_clusters :: "(pystr \<Rightarrow> pystr) \<Rightarrow> manifests \<Rightarrow> pystr \<Rightarrow> (pystr, pystr list) dict" where
  "collision_clusters casefold ms name =
     (let paths = remdups (concat (map (\<lambda>m. dkeys (files_in (sources_of m) name)) (all_manifests ms)))
      in filter (\<lambda>(_, cluster). length cluster > 1)
           (map (\<lambda>key. (key, sort (filter (\<lambda>p. casefold p = key) paths))) (remdups (map casefold paths))))"

type_synonym collisions = "(pystr, (pystr, pystr list) dict) dict"

definition detect_pull_case_collisions ::
  "(pystr \<Rightarrow> pystr) \<Rightarrow> (path \<Rightarrow> bool) \<Rightarrow> manifests \<Rightarrow> (pystr, path) dict \<Rightarrow> collisions" where
  "detect_pull_case_collisions casefold insensitive ms roots =
     List.map_filter (\<lambda>(name, base).
       (if \<not> insensitive base then None
        else (case collision_clusters casefold ms name of [] \<Rightarrow> None | cs \<Rightarrow> Some (name, cs)))) roots"

definition dropped_paths :: "collisions \<Rightarrow> pystr \<Rightarrow> pystr list" where
  "dropped_paths cols name = concat (map (tl \<circ> snd) (dget cols name []))"

definition drop_case_collisions :: "collisions \<Rightarrow> manifest \<Rightarrow> manifest" where
  "drop_case_collisions cols m =
     (if cols = [] then m
      else m\<lparr>m_sources := Some (map_sources (\<lambda>name. filter_files (\<lambda>rel. rel \<notin> set (dropped_paths cols name))) (sources_of m))\<rparr>)"

section \<open>The manifests a pull works on\<close>

datatype conflict_mode = Prompt | KeepBothMode | FailMode

record pull_config =
  pc_me :: pystr
  pc_from :: "pystr option"
  pc_source :: "pystr option"
  pc_mode :: conflict_mode
  pc_dry_run :: bool
  pc_quiet :: bool
  pc_disabled :: "pystr list"
  pc_sources :: "source_cfg list"
  pc_gate_sources :: "source_cfg list"
  pc_root :: "source_cfg \<Rightarrow> path"
  pc_tree :: "pystr \<Rightarrow> tree"
  pc_git :: "pystr \<Rightarrow> pystr list \<Rightarrow> bool"
  pc_markers :: "source_cfg \<Rightarrow> snapshot_error + pystr list"
  pc_insensitive :: "path \<Rightarrow> bool"
  pc_casefold :: "pystr \<Rightarrow> pystr"

definition local_sources :: "pull_config \<Rightarrow> (pystr, path) dict" where
  "local_sources cfg = fold (\<lambda>src. AList.update (sc_name src) (pc_root cfg src)) (pc_sources cfg) []"

definition each_manifest :: "(manifest \<Rightarrow> manifest) \<Rightarrow> manifests \<Rightarrow> manifests" where
  "each_manifest f = map (\<lambda>(did, m). (did, map_option f m))"

definition pull_gate :: "pull_config \<Rightarrow> manifests \<Rightarrow> snapshot_error + gate" where
  "pull_gate cfg ms =
     (case build_exclude_map (pc_markers cfg) (incoming_nested_roots (pc_tree cfg) (pc_git cfg) (pc_sources cfg) ms)
             (pc_gate_sources cfg) ([], []) of
        Inl e \<Rightarrow> Inl e
      | Inr (exclude, skip) \<Rightarrow>
          Inr \<lparr>g_exclude = exclude, g_skip = skip, g_include = build_include_map (pc_gate_sources cfg)\<rparr>)"

definition admit :: "pull_config \<Rightarrow> manifests \<Rightarrow> snapshot_error + manifests" where
  "admit cfg ms =
     (let ms = each_manifest (filter_disabled_sources (pc_disabled cfg)) ms
      in case pull_gate cfg ms of
           Inl e \<Rightarrow> Inl e
         | Inr g \<Rightarrow>
             (let ms = each_manifest (filter_excluded_paths g) ms;
                  cols = detect_pull_case_collisions (pc_casefold cfg) (pc_insensitive cfg) ms (local_sources cfg)
              in Inr (each_manifest (drop_case_collisions cols) ms)))"

section \<open>The loop\<close>

record source_result =
  sr_device :: pystr
  sr_source :: pystr
  sr_outcomes :: "apply_outcome \<Rightarrow> pystr list"
  sr_bytes :: nat

definition OUTCOMES :: "apply_outcome list" where
  "OUTCOMES = [Written, Merged, MergedLcs, Skipped, Conflicted, Unchanged, Failed, Waiting]"

definition had_changes :: "source_result \<Rightarrow> bool" where
  "had_changes r \<longleftrightarrow> list_ex (\<lambda>out. out \<noteq> Unchanged \<and> sr_outcomes r out \<noteq> []) OUTCOMES"

definition applied :: "source_result \<Rightarrow> bool" where
  "applied r \<longleftrightarrow> list_ex (\<lambda>out. out \<notin> {Unchanged, Waiting} \<and> sr_outcomes r out \<noteq> []) OUTCOMES"

text \<open>\<open>pa_changed\<close> belongs to the device in hand; \<open>pa_cleaned\<close> are the devices whose manifest copies are
  cleaned up, in order.\<close>

record pull_acc =
  pa_tree :: ltree
  pa_pending :: "(path, int) dict option"
  pa_results :: "source_result list"
  pa_unknown :: "(pystr \<times> pystr) list"
  pa_changed :: bool
  pa_cleaned :: "pystr list"

definition fresh_reporter :: "(path, int) dict option \<Rightarrow> reporter" where
  "fresh_reporter pending = \<lparr>rp_outcomes = empty_outcomes, rp_pending = pending, rp_touched = [], rp_bytes = 0,
     rp_rel = [], rp_local = [], rp_resolved = [], rp_recorded = None\<rparr>"

definition selected_source :: "pystr option \<Rightarrow> pystr \<Rightarrow> bool" where
  "selected_source wanted name \<longleftrightarrow> (case wanted of None \<Rightarrow> True | Some w \<Rightarrow> w = [] \<or> name = w)"

definition pull_source ::
  "apply_env \<Rightarrow> pystr option \<Rightarrow> (pystr, path) dict \<Rightarrow> tombstones \<Rightarrow> pystr \<Rightarrow> pystr \<times> source_data \<Rightarrow> pull_acc \<Rightarrow>
     apply_exc option \<times> pull_acc" where
  "pull_source env wanted roots tombs did e acc =
     (case e of (name, sd) \<Rightarrow>
        if \<not> selected_source wanted name then (None, acc)
        else
          (case map_of roots name of
             None \<Rightarrow> (None, acc\<lparr>pa_unknown := pa_unknown acc @ [(name, did)]\<rparr>)
           | Some base \<Rightarrow>
               (case pull_one_source env base name tombs did (sd_files sd)
                       \<lparr>st_tree = pa_tree acc, st_rep = fresh_reporter (pa_pending acc)\<rparr> of
                  (x, s) \<Rightarrow>
                    (let r = \<lparr>sr_device = did, sr_source = name, sr_outcomes = rp_outcomes (st_rep s), sr_bytes = rp_bytes (st_rep s)\<rparr>;
                         acc = acc\<lparr>pa_tree := st_tree s,
                           pa_pending := (if pa_pending acc = None then None else rp_pending (st_rep s))\<rparr>
                     in if x = None \<and> \<not> had_changes r then (None, acc)
                        else (x, acc\<lparr>pa_results := pa_results acc @ [r],
                                   pa_changed := pa_changed acc \<or> (x = None \<and> applied r)\<rparr>)))))"

fun pull_sources ::
  "apply_env \<Rightarrow> pystr option \<Rightarrow> (pystr, path) dict \<Rightarrow> tombstones \<Rightarrow> pystr \<Rightarrow> (pystr, source_data) dict \<Rightarrow> pull_acc \<Rightarrow>
     apply_exc option \<times> pull_acc" where
  "pull_sources env wanted roots tombs did [] acc = (None, acc)"
| "pull_sources env wanted roots tombs did (e # es) acc =
     (case pull_source env wanted roots tombs did e acc of
        (Some x, acc) \<Rightarrow> (Some x, acc)
      | (None, acc) \<Rightarrow> pull_sources env wanted roots tombs did es acc)"

definition device_failed :: "pystr \<Rightarrow> pull_acc \<Rightarrow> bool" where
  "device_failed did acc \<longleftrightarrow>
     list_ex (\<lambda>r. sr_device r = did \<and> (sr_outcomes r Failed \<noteq> [] \<or> sr_outcomes r Waiting \<noteq> [])) (pa_results acc)"

fun pull_devices ::
  "apply_env \<Rightarrow> pystr option \<Rightarrow> (pystr, path) dict \<Rightarrow> tombstones \<Rightarrow> manifests \<Rightarrow> pystr list \<Rightarrow> pull_acc \<Rightarrow>
     apply_exc option \<times> pull_acc" where
  "pull_devices env wanted roots tombs ms [] acc = (None, acc)"
| "pull_devices env wanted roots tombs ms (did # dids) acc =
     (case dget ms did None of
        None \<Rightarrow> pull_devices env wanted roots tombs ms dids acc
      | Some m \<Rightarrow>
          (case pull_sources env wanted roots tombs did (sources_of m) (acc\<lparr>pa_changed := False\<rparr>) of
             (Some x, acc) \<Rightarrow> (Some x, acc)
           | (None, acc) \<Rightarrow>
               pull_devices env wanted roots tombs ms dids
                 (if pa_changed acc \<and> \<not> device_failed did acc then acc\<lparr>pa_cleaned := pa_cleaned acc @ [did]\<rparr> else acc)))"

section \<open>The plan\<close>

fun plan_sources ::
  "apply_env \<Rightarrow> ltree \<Rightarrow> pystr option \<Rightarrow> (pystr, path) dict \<Rightarrow> tombstones \<Rightarrow> (pystr, source_data) dict \<Rightarrow> states \<Rightarrow>
     prediction list \<times> states" where
  "plan_sources env L wanted roots tombs [] states = ([], states)"
| "plan_sources env L wanted roots tombs ((name, sd) # es) states =
     (case (if selected_source wanted name then map_of roots name else None) of
        None \<Rightarrow> plan_sources env L wanted roots tombs es states
      | Some base \<Rightarrow>
          (case predict_all env L base (filter (\<lambda>(rel, _). \<not> is_tombstoned name rel tombs) (sd_files sd)) states of
             (prs, states) \<Rightarrow>
               (case plan_sources env L wanted roots tombs es states of (prs', states) \<Rightarrow> (prs @ prs', states))))"

fun plan_pull ::
  "apply_env \<Rightarrow> ltree \<Rightarrow> pystr option \<Rightarrow> (pystr, path) dict \<Rightarrow> tombstones \<Rightarrow> manifests \<Rightarrow> pystr list \<Rightarrow> states \<Rightarrow> prediction list" where
  "plan_pull env L wanted roots tombs ms [] states = []"
| "plan_pull env L wanted roots tombs ms (did # dids) states =
     (case dget ms did None of
        None \<Rightarrow> plan_pull env L wanted roots tombs ms dids states
      | Some m \<Rightarrow>
          (case plan_sources env L wanted roots tombs (sources_of m) states of
             (prs, states) \<Rightarrow> prs @ plan_pull env L wanted roots tombs ms dids states))"

section \<open>The pull\<close>

text \<open>How a pull ends: refused by the version gate, without the device asked for, without peers, by an
  exception of a fetch or of the markers, by predicted conflicts, as a preview, or after the loop.\<close>

datatype pull_end =
    RefusedFleet "refusal list"
  | DeviceNotFound
  | NoPeers
  | FetchRaised fetch_error
  | MarkersRefused snapshot_error
  | WouldConflict "prediction list"
  | Previewed "prediction list"
  | Interrupted apply_exc pull_acc
  | Pulled pull_acc

definition pull_start :: "pull_config \<Rightarrow> ltree \<Rightarrow> pull_acc" where
  "pull_start cfg L = \<lparr>pa_tree = L, pa_pending = (if pc_mode cfg = Prompt then Some [] else None), pa_results = [],
     pa_unknown = [], pa_changed = False, pa_cleaned = []\<rparr>"

definition drain_pending :: "apply_env \<Rightarrow> (path, int) dict option \<Rightarrow> ltree \<Rightarrow> ltree" where
  "drain_pending env pending L = drain_inline_bumps env \<lparr>st_tree = L, st_rep = fresh_reporter pending\<rparr>"

definition pull_loop :: "pull_config \<Rightarrow> apply_env \<Rightarrow> tombstones \<Rightarrow> manifests \<Rightarrow> pystr list \<Rightarrow> ltree \<Rightarrow> pull_end \<times> ltree" where
  "pull_loop cfg env tombs ms dids L =
     (let env = env\<lparr>ae_interactive := (pc_mode cfg = Prompt)\<rparr>
      in case pull_devices env (pc_source cfg) (local_sources cfg) tombs ms dids (pull_start cfg L) of
           (Some x, acc) \<Rightarrow> (Interrupted x acc, pa_tree acc)
         | (None, acc) \<Rightarrow> (Pulled acc, drain_pending env (pa_pending acc) (pa_tree acc)))"

definition pull_core ::
  "pull_config \<Rightarrow> device_env \<Rightarrow> (pystr \<Rightarrow> 'v::linorder option) \<Rightarrow> apply_env \<Rightarrow> inventory \<Rightarrow>
     (pystr \<Rightarrow> fetch_error + manifest_fetch) \<Rightarrow> ltree \<Rightarrow> pull_end \<times> ltree" where
  "pull_core cfg denv parse_version env iv fetch L =
     (case fleet_refusals denv parse_version (pc_me cfg) iv of
        r # rs \<Rightarrow> (RefusedFleet (r # rs), L)
      | [] \<Rightarrow>
          (case select_devices (pc_me cfg) (pc_from cfg) iv of
             (all_devices, targets) \<Rightarrow>
               if targets = [] then
                 (case pc_from cfg of
                    Some f \<Rightarrow>
                      if f \<noteq> [] \<and> f \<notin> set (iv_vanished iv) \<and> \<not> pc_quiet cfg then (DeviceNotFound, L) else (NoPeers, L)
                  | None \<Rightarrow> (NoPeers, L))
               else
                 (case prefetch_manifests fetch (map did_of all_devices @ iv_vanished iv)
                         \<lparr>pf_cache = [], pf_corrupt = [], pf_vanished = []\<rparr> of
                    Inl e \<Rightarrow> (FetchRaised e, L)
                  | Inr pf \<Rightarrow>
                      (case admit cfg (pf_cache pf) of
                         Inl e \<Rightarrow> (MarkersRefused e, L)
                       | Inr ms \<Rightarrow>
                           (let tombs = collect_tombstones (ae_fromiso env) (ae_now env) (dkeys ms) (\<lambda>did. dget ms did None);
                                dids = map did_of targets;
                                plan = plan_pull env L (pc_source cfg) (local_sources cfg) tombs ms dids []
                            in if pc_mode cfg = FailMode \<and> fail_mode_refusals plan \<noteq> []
                               then (WouldConflict (fail_mode_refusals plan), L)
                               else if pc_dry_run cfg then (Previewed plan, L)
                               else pull_loop cfg env tombs ms dids L)))))"

section \<open>Laws of the filters\<close>

lemma each_manifest_at [simp]: "map_of (each_manifest f ms) did = map_option (map_option f) (map_of ms did)"
  by (induction ms) (auto simp: each_manifest_def)

lemma drop_case_files:
  "wf_manifest m \<Longrightarrow> files_at (drop_case_collisions cols m) name rel =
     (if cols \<noteq> [] \<and> rel \<in> set (dropped_paths cols name) then None else files_at m name rel)"
proof (cases "map_of (sources_of m) name")
  case (Some sd)
  assume "wf_manifest m"
  with Some have "distinct_keys (sd_files sd)" by (auto simp: wf_manifest_def dest: wf_source_files)
  with Some show ?thesis
    by (auto simp: drop_case_collisions_def files_at_def files_in_def map_of_map_sources filter_files_def map_of_dict_filter
        split: option.split)
qed (simp add: drop_case_collisions_def files_at_def files_in_def map_of_map_sources)

lemma drop_case_wf:
  assumes "wf_manifest m"
  shows "wf_manifest (drop_case_collisions cols m)"
proof -
  have "wf_sources (map_sources (\<lambda>name. filter_files (\<lambda>rel. rel \<notin> set (dropped_paths cols name))) (sources_of m))"
    using assms by (intro wf_sources_map) (auto simp: wf_manifest_def filter_files_def distinct_keys_filter)
  with assms show ?thesis by (simp add: drop_case_collisions_def wf_manifest_def)
qed

lemma drop_case_tombstones [simp]: "m_tombstones (drop_case_collisions cols m) = m_tombstones m"
  by (simp add: drop_case_collisions_def)

text \<open>The prefetched manifests are those of the fetches.\<close>

lemma prefetch_laws:
  assumes "prefetch_manifests fetch dids pf = Inr pf'"
  shows "\<forall>did m. map_of (pf_cache pf') did = Some (Some m) \<longrightarrow> map_of (pf_cache pf) did = Some (Some m) \<or>
    (\<exists>f. fetch did = Inr f \<and> mf_status f = StatusOk \<and> mf_manifest f = Some m)"
  using assms
proof (induction dids arbitrary: pf)
  case (Cons did dids)
  obtain f where f: "fetch did = Inr f" using Cons.prems by (auto split: sum.splits)
  with Cons.prems have run: "prefetch_manifests fetch dids
      \<lparr>pf_cache = AList.update did (if mf_status f = StatusOk then mf_manifest f else None) (pf_cache pf),
       pf_corrupt = (if mf_status f = StatusCorrupt then pf_corrupt pf @ [did] else pf_corrupt pf),
       pf_vanished = (if mf_status f = StatusMissing \<and> mf_vanished f then pf_vanished pf @ [did] else pf_vanished pf)\<rparr> = Inr pf'"
    by simp
  from Cons.IH [OF run] f show ?case by (auto split: if_splits)
qed simp

text \<open>What a pull may take from the fleet, before the gate: paths of peers in selected, configured and
  enabled sources.\<close>

definition offered :: "pull_config \<Rightarrow> (pystr \<Rightarrow> fetch_error + manifest_fetch) \<Rightarrow> pystr \<Rightarrow> pystr \<Rightarrow> path \<Rightarrow> pystr \<Rightarrow> bool" where
  "offered cfg fetch did name base rel \<longleftrightarrow>
     (case pc_from cfg of Some f \<Rightarrow> (if f = [] then did \<noteq> pc_me cfg else did = f) | None \<Rightarrow> did \<noteq> pc_me cfg) \<and>
     map_of (local_sources cfg) name = Some base \<and> selected_source (pc_source cfg) name \<and>
     name \<notin> set (pc_disabled cfg) \<and> name \<notin> set RETIRED_SOURCE_NAMES \<and>
     (\<exists>f m. fetch did = Inr f \<and> mf_status f = StatusOk \<and> mf_manifest f = Some m \<and> files_at m name rel \<noteq> None)"

text \<open>The fleet as the gate sees it.\<close>

definition fleet_manifests :: "pull_config \<Rightarrow> (pystr \<Rightarrow> fetch_error + manifest_fetch) \<Rightarrow> inventory \<Rightarrow> manifests" where
  "fleet_manifests cfg fetch iv =
     (case prefetch_manifests fetch (map did_of (iv_valid iv) @ iv_vanished iv) \<lparr>pf_cache = [], pf_corrupt = [], pf_vanished = []\<rparr> of
        Inl _ \<Rightarrow> []
      | Inr pf \<Rightarrow> each_manifest (filter_disabled_sources (pc_disabled cfg)) (pf_cache pf))"

text \<open>Passing the gate, and no device's active tombstone against it.\<close>

definition cleared :: "pull_config \<Rightarrow> apply_env \<Rightarrow> manifests \<Rightarrow> pystr \<Rightarrow> pystr \<Rightarrow> bool" where
  "cleared cfg env ms name rel \<longleftrightarrow>
     (\<exists>g. pull_gate cfg ms = Inr g \<and> \<not> gate_excluded g name rel) \<and>
     (58 \<notin> set name \<longrightarrow> (\<forall>did m info. map_of ms did = Some (Some m) \<and> map_of (m_tombstones m) (tomb_key name rel) = Some info \<longrightarrow>
        \<not> is_active_tombstone (ae_fromiso env) (cutoff_at (ae_now env)) info))"

lemma split_tombstone_key: "58 \<notin> set name \<Longrightarrow> split_key (tomb_key name rel) = (name, rel)"
proof -
  assume a: "58 \<notin> set name"
  have "takeWhile (\<lambda>c. c \<noteq> 58) (name @ 58 # rel) = name" "after_colon (name @ 58 # rel) = rel"
    using a by (induction name) (auto simp: after_colon_def)
  then show ?thesis by (simp add: split_key_def tomb_key_def)
qed

lemma collected_none:
  assumes "map_of (collect_tombstones fromiso now dids fetch) k = None" "did \<in> set dids" "fetch did = Some m"
    "map_of (m_tombstones m) k = Some info"
  shows "\<not> is_active_tombstone fromiso (cutoff_at now) info"
proof
  assume a: "is_active_tombstone fromiso (cutoff_at now) info"
  from assms(4) have "(k, info) \<in> set (m_tombstones m)" by (rule map_of_SomeD)
  with a assms(2,3) have "(k, info) \<in> set (active_entries fromiso (cutoff_at now) dids fetch)"
    by (simp add: active_entries_def) (rule bexI [of _ did]; simp)
  with keep_newest_dom [of "active_entries fromiso (cutoff_at now) dids fetch" "[]" k] assms(1)
  show False by (force simp: collect_tombstones_eq)
qed

section \<open>Laws of the loop\<close>

text \<open>The lists a pull goes through: device, source, root and files.\<close>

type_synonym pull_list = "pystr \<times> pystr \<times> path \<times> files"

definition pull_lists :: "pystr option \<Rightarrow> (pystr, path) dict \<Rightarrow> manifests \<Rightarrow> pystr list \<Rightarrow> pull_list set" where
  "pull_lists wanted roots ms dids =
     {(did, name, base, sd_files sd) | did name base sd m. did \<in> set dids \<and> dget ms did None = Some m \<and>
        (name, sd) \<in> set (sources_of m) \<and> selected_source wanted name \<and> map_of roots name = Some base}"

definition good_lists :: "pull_list set \<Rightarrow> bool" where
  "good_lists A \<longleftrightarrow> (\<forall>(did, name, base, files) \<in> A. base \<noteq> [] \<and> good_list base files)"

text \<open>What becomes of an entry over several lists, and where new content comes from.\<close>

definition kept :: "pull_list set \<Rightarrow> path \<Rightarrow> lentry \<Rightarrow> ltree \<Rightarrow> bool" where
  "kept A q e L' \<longleftrightarrow>
     map_of L' q = Some e \<or>
     (\<exists>d t d' t'. e = LFile d t \<and> map_of L' q = Some (LFile d' t') \<and> set (split_lines d) \<subseteq> set (split_lines d') \<and>
        (\<exists>(did, name, base, files) \<in> A. \<exists>rel info. (rel, info) \<in> set files \<and> q = local_path base rel \<and> should_merge rel)) \<or>
     ((\<exists>d t. e = LFile d t \<or> e = LLink (Some d)) \<and>
        (\<exists>(did, name, base, files) \<in> A. \<exists>rel info. (rel, info) \<in> set files \<and> replaceable (local_path base rel) (take 8 did) q))"

definition new_from :: "pull_list set \<Rightarrow> tombstones \<Rightarrow> path \<Rightarrow> bool" where
  "new_from A tombs q \<longleftrightarrow>
     (\<exists>(did, name, base, files) \<in> A. written_for base (filter (\<lambda>(rel, info). \<not> is_tombstoned name rel tombs) files) q)"

definition preserves :: "pull_list set \<Rightarrow> tombstones \<Rightarrow> ltree \<Rightarrow> ltree \<Rightarrow> bool" where
  "preserves A tombs L L' \<longleftrightarrow>
     (\<forall>q e. map_of L q = Some e \<longrightarrow> kept A q e L') \<and>
     (\<forall>q. content L q = None \<and> content L' q \<noteq> None \<longrightarrow> new_from A tombs q)"

lemma kept_refl [simp]: "map_of L q = Some e \<Longrightarrow> kept A q e L"
  by (simp add: kept_def)

lemma preserves_refl [simp]: "preserves A tombs L L"
  unfolding preserves_def by (intro conjI allI impI kept_refl) (assumption, blast)

lemma entry_kept_kept: "entry_kept base did files q e L' \<Longrightarrow> (did, name, base, files) \<in> A \<Longrightarrow> kept A q e L'"
  unfolding entry_kept_def kept_def by (elim disjE) (rule disjI1, assumption, rule disjI2, rule disjI1, blast, rule disjI2, rule disjI2, blast)

lemma kept_trans:
  assumes "kept A q e L1" "\<And>e1. map_of L1 q = Some e1 \<Longrightarrow> kept A q e1 L2"
  shows "kept A q e L2"
proof -
  from assms(1) [unfolded kept_def]
  consider (same) "map_of L1 q = Some e"
    | (merged) d t d' t' where "e = LFile d t" "map_of L1 q = Some (LFile d' t')" "set (split_lines d) \<subseteq> set (split_lines d')"
        "\<exists>(did, name, base, files) \<in> A. \<exists>rel info. (rel, info) \<in> set files \<and> q = local_path base rel \<and> should_merge rel"
    | (old) "\<exists>d t. e = LFile d t \<or> e = LLink (Some d)"
        "\<exists>(did, name, base, files) \<in> A. \<exists>rel info. (rel, info) \<in> set files \<and> replaceable (local_path base rel) (take 8 did) q"
    by (elim disjE exE conjE) blast+
  then show ?thesis
  proof cases
    case same
    then show ?thesis by (rule assms(2))
  next
    case merged
    from assms(2) [OF merged(2), unfolded kept_def] show ?thesis
    proof (elim disjE)
      assume "map_of L2 q = Some (LFile d' t')"
      with merged show ?thesis unfolding kept_def by blast
    next
      assume "\<exists>d1 t1 d2 t2. LFile d' t' = LFile d1 t1 \<and> map_of L2 q = Some (LFile d2 t2) \<and>
        set (split_lines d1) \<subseteq> set (split_lines d2) \<and>
        (\<exists>(did, name, base, files) \<in> A. \<exists>rel info. (rel, info) \<in> set files \<and> q = local_path base rel \<and> should_merge rel)"
      then obtain d2 t2 where "map_of L2 q = Some (LFile d2 t2)" "set (split_lines d') \<subseteq> set (split_lines d2)" by blast
      with subset_trans [OF merged(3)] have "\<exists>d1 t1 d' t'. e = LFile d1 t1 \<and> map_of L2 q = Some (LFile d' t') \<and>
        set (split_lines d1) \<subseteq> set (split_lines d')" using merged(1) by blast
      with merged(4) show ?thesis unfolding kept_def by blast
    next
      assume "(\<exists>d t. LFile d' t' = LFile d t \<or> LFile d' t' = LLink (Some d)) \<and>
        (\<exists>(did, name, base, files) \<in> A. \<exists>rel info. (rel, info) \<in> set files \<and> replaceable (local_path base rel) (take 8 did) q)"
      then have "\<exists>(did, name, base, files) \<in> A. \<exists>rel info. (rel, info) \<in> set files \<and> replaceable (local_path base rel) (take 8 did) q"
        by (rule conjunct2)
      with merged(1) show ?thesis unfolding kept_def by (intro disjI2 conjI) blast+
    qed
  next
    case old
    then show ?thesis unfolding kept_def by (intro disjI2 conjI)
  qed
qed

lemma preserves_trans:
  assumes "preserves A tombs L L1" "preserves A tombs L1 L2"
  shows "preserves A tombs L L2"
  unfolding preserves_def
proof (intro conjI allI impI)
  fix q e assume "map_of L q = Some e"
  with assms(1) have "kept A q e L1" by (simp add: preserves_def)
  then show "kept A q e L2" by (rule kept_trans) (use assms(2) in \<open>simp add: preserves_def\<close>)
next
  fix q assume q: "content L q = None \<and> content L2 q \<noteq> None"
  with assms show "new_from A tombs q" by (cases "content L1 q = None") (simp_all add: preserves_def)
qed

definition leads :: "pull_list set \<Rightarrow> tombstones \<Rightarrow> pull_acc \<Rightarrow> pull_acc \<Rightarrow> bool" where
  "leads A tombs acc acc' \<longleftrightarrow> preserves A tombs (pa_tree acc) (pa_tree acc') \<and> (pa_pending acc = None \<longrightarrow> pa_pending acc' = None)"

lemma leads_refl [simp]: "leads A tombs acc acc" "leads A tombs acc (acc\<lparr>pa_changed := c\<rparr>)" "leads A tombs acc (acc\<lparr>pa_cleaned := cs\<rparr>)"
  by (simp_all add: leads_def)

lemma leads_trans: "leads A tombs a b \<Longrightarrow> leads A tombs b c \<Longrightarrow> leads A tombs a c"
  unfolding leads_def using preserves_trans by blast

lemma pull_source_preserves:
  assumes "pull_source env wanted roots tombs did (name, sd) acc = (x, acc')" "\<not> ae_interactive env" "set_order (ae_iter env)"
    "\<And>base. selected_source wanted name \<Longrightarrow> map_of roots name = Some base \<Longrightarrow>
       (did, name, base, sd_files sd) \<in> A \<and> base \<noteq> [] \<and> good_list base (sd_files sd)"
  shows "leads A tombs acc acc'"
proof (cases "selected_source wanted name \<and> map_of roots name \<noteq> None")
  case True
  then obtain base where sel: "selected_source wanted name" "map_of roots name = Some base" by blast
  note A = assms(4) [OF sel]
  let ?s = "\<lparr>st_tree = pa_tree acc, st_rep = fresh_reporter (pa_pending acc)\<rparr>"
  obtain y s where run: "pull_one_source env base name tombs did (sd_files sd) ?s = (y, s)" by (metis prod.collapse)
  have res: "pa_tree acc' = st_tree s" "pa_pending acc = None \<longrightarrow> pa_pending acc' = None"
    using assms(1) sel run by (auto simp: pull_source_def Let_def split: if_splits)
  from pull_one_source_keeps [OF run assms(2,3)] A have
    k: "\<And>q e. map_of (pa_tree acc) q = Some e \<Longrightarrow> entry_kept base did (sd_files sd) q e (st_tree s)" and
    n: "\<And>q. content (pa_tree acc) q = None \<Longrightarrow> content (st_tree s) q \<noteq> None \<Longrightarrow>
      written_for base (filter (\<lambda>(rel, info). \<not> is_tombstoned name rel tombs) (sd_files sd)) q" by auto
  have "preserves A tombs (pa_tree acc) (st_tree s)"
    unfolding preserves_def new_from_def using entry_kept_kept [OF k conjunct1 [OF A]] n A by blast
  with res show ?thesis by (simp add: leads_def)
next
  case False
  with assms(1) show ?thesis by (auto simp: pull_source_def leads_def split: if_splits option.splits)
qed

lemma pull_sources_preserves:
  assumes "pull_sources env wanted roots tombs did srcs acc = (x, acc')" "\<not> ae_interactive env" "set_order (ae_iter env)"
    "\<And>name sd base. (name, sd) \<in> set srcs \<Longrightarrow> selected_source wanted name \<Longrightarrow> map_of roots name = Some base \<Longrightarrow>
       (did, name, base, sd_files sd) \<in> A \<and> base \<noteq> [] \<and> good_list base (sd_files sd)"
  shows "leads A tombs acc acc'"
  using assms(1,4)
proof (induction srcs arbitrary: acc)
  case (Cons e es)
  obtain name sd where e: "e = (name, sd)" by (cases e)
  obtain y acc1 where st: "pull_source env wanted roots tombs did (name, sd) acc = (y, acc1)" by (metis prod.collapse)
  have one: "leads A tombs acc acc1"
    by (rule pull_source_preserves [OF st assms(2,3)]) (rule Cons.prems(2); simp add: e)
  show ?case
  proof (cases y)
    case None
    with Cons.prems(1) st e have run: "pull_sources env wanted roots tombs did es acc1 = (x, acc')" by simp
    have "leads A tombs acc1 acc'"
      by (rule Cons.IH [OF run]) (rule Cons.prems(2); simp)
    from leads_trans [OF one this] show ?thesis .
  next
    case (Some z)
    with Cons.prems(1) st e one show ?thesis by simp
  qed
qed simp

lemma pull_devices_preserves:
  assumes "pull_devices env wanted roots tombs ms dids acc = (x, acc')" "\<not> ae_interactive env" "set_order (ae_iter env)"
    "pull_lists wanted roots ms dids \<subseteq> A" "good_lists A"
  shows "leads A tombs acc acc'"
  using assms(1,4)
proof (induction dids arbitrary: acc)
  case (Cons did dids)
  have "pull_lists wanted roots ms dids \<subseteq> pull_lists wanted roots ms (did # dids)" unfolding pull_lists_def by auto
  with Cons.prems(2) have sub: "pull_lists wanted roots ms dids \<subseteq> A" by (rule subset_trans [rotated])
  show ?case
  proof (cases "dget ms did None")
    case None
    with Cons.prems(1) have "pull_devices env wanted roots tombs ms dids acc = (x, acc')" by simp
    from Cons.IH [OF this sub] show ?thesis .
  next
    case (Some m)
    obtain y acc1 where st: "pull_sources env wanted roots tombs did (sources_of m) (acc\<lparr>pa_changed := False\<rparr>) = (y, acc1)"
      by (metis prod.collapse)
    have mem: "(did, name, base, sd_files sd) \<in> A \<and> base \<noteq> [] \<and> good_list base (sd_files sd)"
      if "(name, sd) \<in> set (sources_of m)" "selected_source wanted name" "map_of roots name = Some base" for name sd base
    proof -
      have "(did, name, base, sd_files sd) \<in> pull_lists wanted roots ms (did # dids)"
        using that Some by (auto simp: pull_lists_def)
      with Cons.prems(2) have "(did, name, base, sd_files sd) \<in> A" by blast
      with assms(5) show ?thesis by (auto simp: good_lists_def)
    qed
    have one: "leads A tombs acc acc1"
      by (rule leads_trans [OF leads_refl(2) pull_sources_preserves [OF st assms(2,3) mem]])
    show ?thesis
    proof (cases y)
      case None
      let ?acc2 = "if pa_changed acc1 \<and> \<not> device_failed did acc1 then acc1\<lparr>pa_cleaned := pa_cleaned acc1 @ [did]\<rparr> else acc1"
      from Cons.prems(1) Some st None have "pull_devices env wanted roots tombs ms dids ?acc2 = (x, acc')" by simp
      from Cons.IH [OF this sub] have "leads A tombs ?acc2 acc'" .
      moreover have "leads A tombs acc1 ?acc2" by simp
      ultimately have "leads A tombs acc1 acc'" by (rule leads_trans [rotated])
      from leads_trans [OF one this] show ?thesis .
    next
      case (Some z)
      with Cons.prems(1) \<open>dget ms did None = Some m\<close> st have "acc' = acc1" by simp
      with one show ?thesis by (simp only:)
    qed
  qed
qed simp

section \<open>Laws of the pull\<close>

lemma good_list_sub:
  assumes "good_list base F" "set G \<subseteq> set F" "distinct_keys G"
  shows "good_list base G"
proof -
  from assms(1) have inj: "inj_on (local_path base \<circ> fst) (set F)" by (simp add: good_list_def distinct_map)
  have "distinct G" using assms(3) by (simp add: distinct_keys_def distinct_map)
  with inj_on_subset [OF inj assms(2)] assms(1,2) show ?thesis by (auto simp: good_list_def distinct_map)
qed

text \<open>What the load boundary and the file systems grant of the fleet's manifests: distinct keys, and ordinary
  file names that stay apart below a configured root.\<close>

definition sound_fleet :: "pull_config \<Rightarrow> (pystr \<Rightarrow> fetch_error + manifest_fetch) \<Rightarrow> bool" where
  "sound_fleet cfg fetch \<longleftrightarrow>
     (\<forall>did f m. fetch did = Inr f \<and> mf_manifest f = Some m \<longrightarrow> wf_manifest m \<and>
        (\<forall>name base. map_of (local_sources cfg) name = Some base \<longrightarrow>
           base \<noteq> [] \<and> good_list base (filter (\<lambda>(rel, _). \<not> conflict_shaped rel) (files_in (sources_of m) name))))"

lemma admit_laws:
  assumes "admit cfg ms0 = Inr ms" "map_of ms did = Some (Some m')"
    "\<And>did m. map_of ms0 did = Some (Some m) \<Longrightarrow> wf_manifest m"
  obtains m g where "map_of ms0 did = Some (Some m)" "wf_manifest m'"
    "pull_gate cfg (each_manifest (filter_disabled_sources (pc_disabled cfg)) ms0) = Inr g"
    "\<And>name rel info. files_at m' name rel = Some info \<Longrightarrow> files_at m name rel = Some info \<and>
       name \<notin> set (pc_disabled cfg) \<and> name \<notin> set RETIRED_SOURCE_NAMES \<and> \<not> gate_excluded g name rel"
    "\<And>name rel. 58 \<notin> set name \<Longrightarrow> \<not> gate_excluded g name rel \<Longrightarrow>
       map_of (m_tombstones m') (tomb_key name rel) = map_of (m_tombstones m) (tomb_key name rel)"
proof -
  let ?d = "filter_disabled_sources (pc_disabled cfg)"
  obtain g where g: "pull_gate cfg (each_manifest ?d ms0) = Inr g"
    using assms(1) by (auto simp: admit_def Let_def split: sum.splits)
  obtain cols where ms: "ms = each_manifest (drop_case_collisions cols) (each_manifest (filter_excluded_paths g) (each_manifest ?d ms0))"
    using assms(1) g by (auto simp: admit_def Let_def)
  from assms(2) obtain m where m: "map_of ms0 did = Some (Some m)"
    "m' = drop_case_collisions cols (filter_excluded_paths g (?d m))" by (auto simp: ms)
  have wf: "wf_manifest m" "wf_manifest (?d m)" "wf_manifest (filter_excluded_paths g (?d m))"
    using assms(3) [OF m(1)] by (simp_all add: filter_facts)
  show thesis
  proof (rule that [OF m(1) _ g])
    show "wf_manifest m'" unfolding m(2) by (rule drop_case_wf [OF wf(3)])
    show "files_at m name rel = Some info \<and> name \<notin> set (pc_disabled cfg) \<and> name \<notin> set RETIRED_SOURCE_NAMES \<and>
        \<not> gate_excluded g name rel" if "files_at m' name rel = Some info" for name rel info
      using that unfolding m(2) drop_case_files [OF wf(3)] filter_excluded_files [OF wf(2)] filter_disabled_files [OF wf(1)]
      by (simp split: if_splits)
    show "map_of (m_tombstones m') (tomb_key name rel) = map_of (m_tombstones m) (tomb_key name rel)"
      if "58 \<notin> set name" "\<not> gate_excluded g name rel" for name rel
      using that unfolding m(2) by (simp add: filter_excluded_tombstones [OF wf(2)] split_tombstone_key)
  qed
qed

lemma files_in_at:
  "wf_manifest m \<Longrightarrow> (name, sd) \<in> set (sources_of m) \<Longrightarrow> distinct_keys (sd_files sd) \<and>
     ((rel, info) \<in> set (sd_files sd) \<longleftrightarrow> files_at m name rel = Some info)"
  by (auto simp: wf_manifest_def wf_sources_def files_at_def files_in_def distinct_keys_def)

lemma admit_entry:
  assumes "prefetch_manifests fetch (map did_of (iv_valid iv) @ iv_vanished iv) \<lparr>pf_cache = [], pf_corrupt = [], pf_vanished = []\<rparr> = Inr pf"
    "admit cfg (pf_cache pf) = Inr ms" "sound_fleet cfg fetch" "map_of ms did = Some (Some m')"
  obtains f m g where "fetch did = Inr f" "mf_status f = StatusOk" "mf_manifest f = Some m" "wf_manifest m'"
    "pull_gate cfg (fleet_manifests cfg fetch iv) = Inr g"
    "map_of (fleet_manifests cfg fetch iv) did = Some (Some (filter_disabled_sources (pc_disabled cfg) m))"
    "\<And>name rel info. files_at m' name rel = Some info \<Longrightarrow> files_at m name rel = Some info \<and>
       name \<notin> set (pc_disabled cfg) \<and> name \<notin> set RETIRED_SOURCE_NAMES \<and> \<not> gate_excluded g name rel"
    "\<And>name rel. 58 \<notin> set name \<Longrightarrow> \<not> gate_excluded g name rel \<Longrightarrow>
       map_of (m_tombstones m') (tomb_key name rel) = map_of (m_tombstones m) (tomb_key name rel)"
proof -
  have pf: "\<exists>f. fetch did = Inr f \<and> mf_status f = StatusOk \<and> mf_manifest f = Some m" if "map_of (pf_cache pf) did = Some (Some m)" for did m
    using prefetch_laws [OF assms(1), rule_format, OF that] by simp
  have wf: "wf_manifest m" if "map_of (pf_cache pf) did = Some (Some m)" for did m
    using pf [OF that] assms(3) by (auto simp: sound_fleet_def)
  have fleet: "fleet_manifests cfg fetch iv = each_manifest (filter_disabled_sources (pc_disabled cfg)) (pf_cache pf)"
    by (simp add: fleet_manifests_def assms(1))
  show thesis
  proof (rule admit_laws [OF assms(2,4) wf])
    fix m g
    assume m: "map_of (pf_cache pf) did = Some (Some m)" and A: "wf_manifest m'"
      "pull_gate cfg (each_manifest (filter_disabled_sources (pc_disabled cfg)) (pf_cache pf)) = Inr g"
      "\<And>name rel info. files_at m' name rel = Some info \<Longrightarrow> files_at m name rel = Some info \<and>
       name \<notin> set (pc_disabled cfg) \<and> name \<notin> set RETIRED_SOURCE_NAMES \<and> \<not> gate_excluded g name rel"
      "\<And>name rel. 58 \<notin> set name \<Longrightarrow> \<not> gate_excluded g name rel \<Longrightarrow>
       map_of (m_tombstones m') (tomb_key name rel) = map_of (m_tombstones m) (tomb_key name rel)"
    from pf [OF m] obtain f where f: "fetch did = Inr f" "mf_status f = StatusOk" "mf_manifest f = Some m" by (elim exE conjE)
    show thesis
      by (rule that [OF f A(1) _ _ A(3,4)]) (simp_all add: fleet A(2) m)
  qed
qed

text \<open>The lists of a pull that goes through: good, offered and, where no tombstone of the fleet stands
  against a path, cleared.\<close>

lemma admitted_cleared:
  assumes "prefetch_manifests fetch (map did_of (iv_valid iv) @ iv_vanished iv) \<lparr>pf_cache = [], pf_corrupt = [], pf_vanished = []\<rparr> = Inr pf"
    "admit cfg (pf_cache pf) = Inr ms" "sound_fleet cfg fetch"
    "pull_gate cfg (fleet_manifests cfg fetch iv) = Inr g" "\<not> gate_excluded g name rel"
    "map_of (collect_tombstones (ae_fromiso env) (ae_now env) (dkeys ms) (\<lambda>did. dget ms did None)) (tomb_key name rel) = None"
  shows "cleared cfg env (fleet_manifests cfg fetch iv) name rel"
  unfolding cleared_def
proof (intro conjI impI allI)
  show "\<exists>g. pull_gate cfg (fleet_manifests cfg fetch iv) = Inr g \<and> \<not> gate_excluded g name rel"
    by (rule exI [of _ g]) (simp add: assms(4,5))
  fix did1 m1 info1
  assume n: "58 \<notin> set name"
    and t: "map_of (fleet_manifests cfg fetch iv) did1 = Some (Some m1) \<and> map_of (m_tombstones m1) (tomb_key name rel) = Some info1"
  obtain m2 where m2: "map_of ms did1 = Some (Some m2)"
    using assms(1,2) t by (auto simp: admit_def Let_def fleet_manifests_def split: sum.splits)
  show "\<not> is_active_tombstone (ae_fromiso env) (cutoff_at (ae_now env)) info1"
  proof (rule admit_entry [OF assms(1-3) m2])
    fix m3 g3
    assume g3: "pull_gate cfg (fleet_manifests cfg fetch iv) = Inr g3"
      and B: "map_of (fleet_manifests cfg fetch iv) did1 = Some (Some (filter_disabled_sources (pc_disabled cfg) m3))"
        "\<And>name rel. 58 \<notin> set name \<Longrightarrow> \<not> gate_excluded g3 name rel \<Longrightarrow>
           map_of (m_tombstones m2) (tomb_key name rel) = map_of (m_tombstones m3) (tomb_key name rel)"
    from g3 assms(4,5) have "\<not> gate_excluded g3 name rel" by simp
    from B(2) [OF n this] B(1) t have s: "map_of (m_tombstones m2) (tomb_key name rel) = Some info1" by simp
    have "did1 \<in> set (dkeys ms)" "dget ms did1 None = Some m2" using m2 by (auto simp: dget_def)
    from collected_none [OF assms(6) this s]
    show "\<not> is_active_tombstone (ae_fromiso env) (cutoff_at (ae_now env)) info1" .
  qed
qed

lemma pull_lists_member:
  assumes "(did, name, base, files) \<in> pull_lists wanted roots ms dids"
  obtains sd m where "did \<in> set dids" "map_of ms did = Some (Some m)" "(name, sd) \<in> set (sources_of m)"
    "selected_source wanted name" "map_of roots name = Some base" "files = sd_files sd"
proof -
  from assms obtain sd m where "did \<in> set dids" "dget ms did None = Some m" "(name, sd) \<in> set (sources_of m)"
    "selected_source wanted name" "map_of roots name = Some base" "files = sd_files sd"
    unfolding pull_lists_def by blast
  then show thesis by (intro that) (simp_all add: dget_def split: option.splits)
qed

lemma targets_not_me:
  assumes "did \<in> set (map did_of (snd (select_devices me from_device iv)))"
  shows "case from_device of Some f \<Rightarrow> (if f = [] then did \<noteq> me else did = f) | None \<Rightarrow> did \<noteq> me"
proof (cases from_device)
  case (Some f)
  with assms show ?thesis by (cases "f = []") (auto simp: select_devices_def Let_def)
qed (use assms in \<open>auto simp: select_devices_def Let_def\<close>)

lemma pull_lists_laws:
  assumes "prefetch_manifests fetch (map did_of (iv_valid iv) @ iv_vanished iv) \<lparr>pf_cache = [], pf_corrupt = [], pf_vanished = []\<rparr> = Inr pf"
    "admit cfg (pf_cache pf) = Inr ms" "sound_fleet cfg fetch"
    "(did, name, base, files) \<in> pull_lists (pc_source cfg) (local_sources cfg) ms
       (map did_of (snd (select_devices (pc_me cfg) (pc_from cfg) iv)))"
    "tombs = collect_tombstones (ae_fromiso env) (ae_now env) (dkeys ms) (\<lambda>did. dget ms did None)"
  shows "base \<noteq> [] \<and> good_list base files \<and>
    (\<forall>(rel, info) \<in> set files. offered cfg fetch did name base rel \<and>
       (\<not> is_tombstoned name rel tombs \<longrightarrow> cleared cfg env (fleet_manifests cfg fetch iv) name rel))"
proof -
  obtain sd m' where L: "did \<in> set (map did_of (snd (select_devices (pc_me cfg) (pc_from cfg) iv)))"
    "map_of ms did = Some (Some m')" "(name, sd) \<in> set (sources_of m')" "selected_source (pc_source cfg) name"
    "map_of (local_sources cfg) name = Some base" "files = sd_files sd"
    by (rule pull_lists_member [OF assms(4)])
  obtain f m g where A: "fetch did = Inr f" "mf_status f = StatusOk" "mf_manifest f = Some m" "wf_manifest m'"
    "pull_gate cfg (fleet_manifests cfg fetch iv) = Inr g"
    "\<And>name rel info. files_at m' name rel = Some info \<Longrightarrow> files_at m name rel = Some info \<and>
       name \<notin> set (pc_disabled cfg) \<and> name \<notin> set RETIRED_SOURCE_NAMES \<and> \<not> gate_excluded g name rel"
  proof (rule admit_entry [OF assms(1-3) L(2)])
    fix f m g
    assume "fetch did = Inr f" "mf_status f = StatusOk" "mf_manifest f = Some m" "wf_manifest m'"
      "pull_gate cfg (fleet_manifests cfg fetch iv) = Inr g"
      "\<And>name rel info. files_at m' name rel = Some info \<Longrightarrow> files_at m name rel = Some info \<and>
         name \<notin> set (pc_disabled cfg) \<and> name \<notin> set RETIRED_SOURCE_NAMES \<and> \<not> gate_excluded g name rel"
    then show thesis by (rule that)
  qed
  note fi = files_in_at [OF A(4) L(3)]
  have at: "files_at m name rel = Some info" "name \<notin> set (pc_disabled cfg)" "name \<notin> set RETIRED_SOURCE_NAMES"
    "\<not> gate_excluded g name rel" if "(rel, info) \<in> set files" for rel info
  proof -
    have "files_at m' name rel = Some info" using fi [of rel info] that L(6) by simp
    from A(6) [OF this] show "files_at m name rel = Some info" "name \<notin> set (pc_disabled cfg)"
      "name \<notin> set RETIRED_SOURCE_NAMES" "\<not> gate_excluded g name rel" by simp_all
  qed
  let ?F = "filter (\<lambda>(rel, _). \<not> conflict_shaped rel) (files_in (sources_of m) name)"
  have base: "base \<noteq> []" "good_list base ?F"
    using assms(3) [unfolded sound_fleet_def, THEN spec, THEN spec, THEN spec, THEN mp, OF conjI [OF A(1,3)],
        THEN conjunct2, THEN spec, THEN spec, THEN mp, OF L(5)] by (rule conjunct1, rule conjunct2)
  have "set files \<subseteq> set ?F"
  proof
    fix e assume e: "e \<in> set files"
    obtain rel info where e': "e = (rel, info)" by (cases e)
    from at(1,4) [OF e [unfolded e']] have "files_at m name rel = Some info" "\<not> conflict_shaped rel"
      by (simp_all add: gate_excluded_def split: if_splits)
    then show "e \<in> set ?F" by (simp add: e' files_at_def map_of_SomeD)
  qed
  moreover have "distinct_keys files" unfolding L(6) by (rule fi [THEN conjunct1])
  ultimately have good: "good_list base files" by (rule good_list_sub [OF base(2)])
  have target: "case pc_from cfg of Some f \<Rightarrow> (if f = [] then did \<noteq> pc_me cfg else did = f) | None \<Rightarrow> did \<noteq> pc_me cfg"
    by (rule targets_not_me [OF L(1)])
  have offer: "offered cfg fetch did name base rel" if "(rel, info) \<in> set files" for rel info
  proof -
    have "\<exists>f m. fetch did = Inr f \<and> mf_status f = StatusOk \<and> mf_manifest f = Some m \<and> files_at m name rel \<noteq> None"
      by (rule exI [of _ f], rule exI [of _ m]) (simp add: A(1-3) at(1) [OF that])
    with at(2,3) [OF that] target L(4,5) show ?thesis unfolding offered_def by (intro conjI)
  qed
  have clear: "cleared cfg env (fleet_manifests cfg fetch iv) name rel"
    if "(rel, info) \<in> set files" "\<not> is_tombstoned name rel tombs" for rel info
    by (rule admitted_cleared [OF assms(1-3) A(5) at(4) [OF that(1)]])
      (use that(2) in \<open>simp add: is_tombstoned_def assms(5)\<close>)
  show ?thesis
  proof (intro conjI ballI, rule base(1), rule good)
    fix e assume e: "e \<in> set files"
    show "case e of (rel, info) \<Rightarrow> offered cfg fetch did name base rel \<and>
       (\<not> is_tombstoned name rel tombs \<longrightarrow> cleared cfg env (fleet_manifests cfg fetch iv) name rel)"
    proof (cases e)
      case (Pair rel info)
      with offer clear e show ?thesis by simp
    qed
  qed
qed

lemma drain_none [simp]: "drain_pending env None L = L"
  by (simp add: drain_pending_def drain_inline_bumps_def fresh_reporter_def)

text \<open>How a pull ends: before the loop with the disk as it was, or after the loop over the lists.\<close>

lemma pull_core_cases:
  assumes "pull_core cfg denv parse_version env iv fetch L = (r, L')" "pc_mode cfg \<noteq> Prompt" "set_order (ae_iter env)" "sound_fleet cfg fetch"
  obtains (still) "L' = L"
  | (run) A tombs where "preserves A tombs L L'" "\<exists>acc. r = Pulled acc \<or> (\<exists>x. r = Interrupted x acc)"
      "\<And>did name base files rel info. (did, name, base, files) \<in> A \<Longrightarrow> (rel, info) \<in> set files \<Longrightarrow>
         offered cfg fetch did name base rel \<and>
         (\<not> is_tombstoned name rel tombs \<longrightarrow> cleared cfg env (fleet_manifests cfg fetch iv) name rel)"
proof -
  let ?sel = "select_devices (pc_me cfg) (pc_from cfg) iv"
  let ?dids = "map did_of (snd ?sel)"
  have all: "fst ?sel = iv_valid iv" by (simp add: select_devices_def Let_def)
  consider (early) "L' = L"
    | (loop) pf ms tombs where
        "prefetch_manifests fetch (map did_of (iv_valid iv) @ iv_vanished iv) \<lparr>pf_cache = [], pf_corrupt = [], pf_vanished = []\<rparr> = Inr pf"
        "admit cfg (pf_cache pf) = Inr ms" "tombs = collect_tombstones (ae_fromiso env) (ae_now env) (dkeys ms) (\<lambda>did. dget ms did None)"
        "pull_loop cfg env tombs ms ?dids L = (r, L')"
    using assms(1) all unfolding pull_core_def Let_def
    by (cases ?sel) (auto split: list.splits if_splits option.splits sum.splits)
  then show thesis
  proof cases
    case early
    then show thesis by (rule still)
  next
    case loop
    let ?env = "env\<lparr>ae_interactive := (pc_mode cfg = Prompt)\<rparr>"
    let ?A = "pull_lists (pc_source cfg) (local_sources cfg) ms ?dids"
    obtain x acc where d: "pull_devices ?env (pc_source cfg) (local_sources cfg) tombs ms ?dids (pull_start cfg L) = (x, acc)"
      by (metis prod.collapse)
    note laws = pull_lists_laws [OF loop(1,2) assms(4) _ loop(3)]
    have good: "good_lists ?A" unfolding good_lists_def using laws by blast
    have "leads ?A tombs (pull_start cfg L) acc"
      by (rule pull_devices_preserves [OF d _ _ subset_refl good]) (use assms(2,3) in simp_all)
    with assms(2) have p: "preserves ?A tombs L (pa_tree acc)" "pa_pending acc = None" by (simp_all add: leads_def pull_start_def)
    have r: "L' = pa_tree acc \<and> (\<exists>acc. r = Pulled acc \<or> (\<exists>x. r = Interrupted x acc))"
      using loop(4) d p(2) by (auto simp: pull_loop_def Let_def split: option.splits)
    show thesis
    proof (rule run [of ?A tombs])
      show "preserves ?A tombs L L'" using p(1) r by simp
      show "\<exists>acc. r = Pulled acc \<or> (\<exists>x. r = Interrupted x acc)" using r by (rule conjunct2)
      fix did name base files rel info
      assume "(did, name, base, files) \<in> ?A" "(rel, info) \<in> set files"
      with laws show "offered cfg fetch did name base rel \<and>
         (\<not> is_tombstoned name rel tombs \<longrightarrow> cleared cfg env (fleet_manifests cfg fetch iv) name rel)" by blast
    qed
  qed
qed

lemma kept_cases:
  assumes "kept A q e L'"
  obtains (same) "map_of L' q = Some e"
  | (merged) d t d' t' did name base files rel info where "e = LFile d t" "map_of L' q = Some (LFile d' t')"
      "set (split_lines d) \<subseteq> set (split_lines d')" "(did, name, base, files) \<in> A" "(rel, info) \<in> set files"
      "q = local_path base rel" "should_merge rel"
  | (old) did name base files rel info where "\<exists>d t. e = LFile d t \<or> e = LLink (Some d)" "(did, name, base, files) \<in> A"
      "(rel, info) \<in> set files" "replaceable (local_path base rel) (take 8 did) q"
  using assms unfolding kept_def by (elim disjE exE conjE bexE) (auto split: prod.splits)

section \<open>The property\<close>


text \<open>This device \<open>aa\<close> pulls from \<open>bb\<close>, which offers three files, and from \<open>cc\<close>, which deleted one of them.\<close>

definition fleet_source :: source_cfg where
  "fleet_source = \<lparr>sc_name = u ''claude'', sc_type = u ''generic'', sc_path = u ''/src'', sc_exclude = [], sc_include = []\<rparr>"

definition fleet_config :: pull_config where
  "fleet_config = \<lparr>pc_me = u ''aa'', pc_from = None, pc_source = None, pc_mode = KeepBothMode, pc_dry_run = False, pc_quiet = False,
     pc_disabled = [], pc_sources = [fleet_source], pc_gate_sources = [fleet_source], pc_root = (\<lambda>_. [u ''src'']),
     pc_tree = (\<lambda>_ _. Missing), pc_git = (\<lambda>_ _. False), pc_markers = (\<lambda>_. Inr []),
     pc_insensitive = detect_case_insensitive_fs (\<lambda>_. ProbeOk True) (\<lambda>_ _. ProbeOk False) (map (\<lambda>c. if 97 \<le> c then c - 32 else c + 32)),
     pc_casefold = id\<rparr>"

definition fleet_manifest :: "files \<Rightarrow> tombstones \<Rightarrow> manifest" where
  "fleet_manifest fs ts = \<lparr>m_timestamp = u ''2026-01-02T03:04:05+00:00'', m_rest = [],
     m_sources = Some [(u ''claude'', \<lparr>sd_base_path = JStr (u ''/src''), sd_files = fs\<rparr>)], m_tombstones = ts\<rparr>"

definition fleet_tombs :: tombstones where
  "fleet_tombs = [(u ''claude:c.md'', [(u ''deleted_at'', JStr (u ''2026-01-01T00:00:00+00:00''))])]"

definition fleet_fetch :: "pystr \<Rightarrow> fetch_error + manifest_fetch" where
  "fleet_fetch did = Inr (if did = u ''bb'' \<or> did = u ''cc''
     then \<lparr>mf_status = StatusOk, mf_manifest = Some (if did = u ''bb'' then fleet_manifest pull_remote [] else fleet_manifest [] fleet_tombs),
            mf_newer = None, mf_copies_only = False, mf_vanished = False\<rparr>
     else \<lparr>mf_status = StatusMissing, mf_manifest = None, mf_newer = None, mf_copies_only = False, mf_vanished = False\<rparr>)"

definition fleet_inventory :: inventory where
  "fleet_inventory = the (inventory_devices demo_device_env demo_get demo_fleet)"

definition fleet_run :: "pull_end \<times> ltree" where
  "fleet_run = pull_core fleet_config demo_device_env demo_version pull_env fleet_inventory fleet_fetch (st_tree pull_state)"

lemma fleet_sound: "sound_fleet fleet_config fleet_fetch"
proof -
  have roots: "local_sources fleet_config = [(u ''claude'', [u ''src''])]"
    by (simp add: local_sources_def fleet_config_def fleet_source_def)
  have good: "good_list [u ''src''] (filter (\<lambda>(rel, _). \<not> conflict_shaped rel) pull_remote)"
    unfolding good_list_def ordinary_def by code_simp
  have "distinct_keys pull_remote" by (rule distinct_remote [OF pull_run_hyps(3)])
  then have "wf_manifest m \<and> good_list [u ''src''] (filter (\<lambda>(rel, _). \<not> conflict_shaped rel) (files_in (sources_of m) (u ''claude'')))"
    if "m = fleet_manifest pull_remote [] \<or> m = fleet_manifest [] fleet_tombs" for m
  proof -
    have "files_in (sources_of (fleet_manifest fs ts)) (u ''claude'') = fs" "distinct_keys fs \<Longrightarrow> distinct_keys ts \<Longrightarrow> wf_manifest (fleet_manifest fs ts)"
      for fs ts by (simp_all add: fleet_manifest_def wf_manifest_def wf_sources_def sources_of_def files_in_def)
    moreover have "good_list [u ''src''] []" "distinct_keys fleet_tombs" by (simp_all add: good_list_def fleet_tombs_def)
    ultimately show ?thesis using that good \<open>distinct_keys pull_remote\<close> by auto
  qed
  then show ?thesis
    unfolding sound_fleet_def roots by (simp add: fleet_fetch_def)
qed


end
