(* ===== verification/LcsMerge.thy ===== *)
theory LcsMerge
  imports Merge "HOL-Library.Sublist"
begin

text \<open>
  The merge that an interactive resolution offers, \<open>merge.lcs_merge\<close>: the two sides are aligned by
  \<open>difflib.SequenceMatcher\<close> without junk, equal runs and one-sided runs are kept, and a run that differs
  on both sides is put between conflict markers. The matcher is modelled as the standard library has
  it: the longest matching block, the leftmost of equal length, then the same on either side of it.
\<close>

section \<open>The matcher\<close>

fun common_prefix :: "'a list \<Rightarrow> 'a list \<Rightarrow> nat" where
  "common_prefix (x # xs) (y # ys) = (if x = y then Suc (common_prefix xs ys) else 0)"
| "common_prefix xs ys = 0"

text \<open>The length of the longest match that ends before \<open>i\<close> and \<open>j\<close>: \<open>j2len[j - 1]\<close> in row \<open>i - 1\<close>.\<close>

definition match_ending :: "'a list \<Rightarrow> 'a list \<Rightarrow> nat \<Rightarrow> nat \<Rightarrow> nat" where
  "match_ending a b i j = common_prefix (rev (take i a)) (rev (take j b))"

definition better :: "'a list \<Rightarrow> 'a list \<Rightarrow> nat \<times> nat \<Rightarrow> nat \<times> nat \<times> nat \<Rightarrow> nat \<times> nat \<times> nat" where
  "better a b ij best =
     (case (ij, best) of ((i, j), (bi, bj, n)) \<Rightarrow>
        (let k = match_ending a b i j in if k > n then (i - k, j - k, k) else best))"

text \<open>\<open>find_longest_match\<close> on two lists: the rows in order, and in a row the columns in order.\<close>

definition find_longest_match :: "'a list \<Rightarrow> 'a list \<Rightarrow> nat \<times> nat \<times> nat" where
  "find_longest_match a b =
     fold (better a b) (concat (map (\<lambda>i. map (Pair (Suc i)) (map Suc [0..<length b])) [0..<length a])) (0, 0, 0)"

lemma common_prefix_le: "common_prefix xs ys \<le> length xs" "common_prefix xs ys \<le> length ys"
  by (induction xs ys rule: common_prefix.induct) auto

lemma common_prefix_take: "take (common_prefix xs ys) xs = take (common_prefix xs ys) ys"
  by (induction xs ys rule: common_prefix.induct) auto

lemma common_prefix_self [simp]: "common_prefix xs xs = length xs"
  by (induction xs) auto

text \<open>A block: \<open>k\<close> equal elements from \<open>i\<close> and from \<open>j\<close>.\<close>

definition block :: "'a list \<Rightarrow> 'a list \<Rightarrow> nat \<times> nat \<times> nat \<Rightarrow> bool" where
  "block a b m \<longleftrightarrow> (case m of (i, j, k) \<Rightarrow> i + k \<le> length a \<and> j + k \<le> length b \<and> take k (drop i a) = take k (drop j b))"

lemma block_ending:
  assumes "i \<le> length a" "j \<le> length b"
  shows "block a b (i - match_ending a b i j, j - match_ending a b i j, match_ending a b i j)"
proof -
  let ?k = "match_ending a b i j"
  have le: "?k \<le> i" "?k \<le> j"
    using common_prefix_le [of "rev (take i a)" "rev (take j b)"] assms by (simp_all add: match_ending_def)
  have "drop (i - ?k) (take i a) = drop (j - ?k) (take j b)"
    using common_prefix_take [of "rev (take i a)" "rev (take j b)"] assms
    by (simp add: match_ending_def take_rev min_absorb2)
  moreover have "drop (i - ?k) (take i a) = take ?k (drop (i - ?k) a)" "drop (j - ?k) (take j b) = take ?k (drop (j - ?k) b)"
    using le by (simp_all add: drop_take)
  ultimately show ?thesis using le assms by (simp add: block_def)
qed

lemma better_fold:
  assumes "\<forall>(i, j) \<in> set ijs. i \<le> length a \<and> j \<le> length b" "block a b best"
  shows "block a b (fold (better a b) ijs best) \<and> snd (snd best) \<le> snd (snd (fold (better a b) ijs best)) \<and>
    (\<forall>(i, j) \<in> set ijs. match_ending a b i j \<le> snd (snd (fold (better a b) ijs best)))"
  using assms
proof (induction ijs arbitrary: best)
  case (Cons ij ijs)
  obtain i j where ij: "ij = (i, j)" by (cases ij)
  have "block a b (better a b ij best) \<and> snd (snd best) \<le> snd (snd (better a b ij best)) \<and>
      match_ending a b i j \<le> snd (snd (better a b ij best))"
    using Cons.prems block_ending [of i a j b] by (auto simp: better_def ij Let_def split: prod.split)
  moreover from this have "block a b (fold (better a b) ijs (better a b ij best)) \<and>
      snd (snd (better a b ij best)) \<le> snd (snd (fold (better a b) ijs (better a b ij best))) \<and>
      (\<forall>(i, j) \<in> set ijs. match_ending a b i j \<le> snd (snd (fold (better a b) ijs (better a b ij best))))"
    using Cons.prems(1) by (intro Cons.IH) auto
  ultimately show ?case unfolding ij by (auto intro: order_trans)
qed simp

lemma find_longest_match_block:
  "block a b (find_longest_match a b)"
  "i \<le> length a \<Longrightarrow> j \<le> length b \<Longrightarrow> 0 < i \<Longrightarrow> 0 < j \<Longrightarrow> match_ending a b i j \<le> snd (snd (find_longest_match a b))"
proof -
  let ?ijs = "concat (map (\<lambda>i. map (Pair (Suc i)) (map Suc [0..<length b])) [0..<length a])"
  have "\<forall>(i, j) \<in> set ?ijs. i \<le> length a \<and> j \<le> length b" by auto
  note laws = better_fold [OF this, of "(0, 0, 0)"]
  then show "block a b (find_longest_match a b)" by (simp add: find_longest_match_def block_def)
  assume "i \<le> length a" "j \<le> length b" "0 < i" "0 < j"
  then have "i - 1 \<in> {0..<length a}" "j - 1 \<in> {0..<length b}" "i = Suc (i - 1)" "j = Suc (j - 1)" by auto
  then have "(i, j) \<in> set ?ijs" by (simp (no_asm_simp)) (metis image_eqI)
  with laws show "match_ending a b i j \<le> snd (snd (find_longest_match a b))"
    by (auto simp: find_longest_match_def block_def)
qed

lemma find_longest_match_self: "find_longest_match a a = (0, 0, length a)"
proof (cases "a = []")
  case False
  obtain i j k where m: "find_longest_match a a = (i, j, k)" by (metis prod_cases3)
  have "length a \<le> k" using find_longest_match_block(2) [of "length a" a "length a" a] False m by (simp add: match_ending_def)
  with find_longest_match_block(1) [of a a] m show ?thesis by (simp add: block_def)
qed (simp add: find_longest_match_def)

section \<open>The runs\<close>

text \<open>\<open>get_opcodes\<close>, each opcode with its lines: an equal run, or what stands between two.\<close>

datatype 'a opcode = Equal "'a list" | Differ "'a list" "'a list"

lemma find_longest_match_shrinks:
  "(i, j, k) = find_longest_match a b \<Longrightarrow> k \<noteq> 0 \<Longrightarrow> i < length a \<and> i + k \<le> length a \<and> a \<noteq> []"
  using find_longest_match_block(1) [of a b] by (auto simp: block_def)

function get_opcodes :: "'a list \<Rightarrow> 'a list \<Rightarrow> 'a opcode list" where
  "get_opcodes a b =
     (case find_longest_match a b of
        (i, j, k) \<Rightarrow>
          if k = 0 then (if a = [] \<and> b = [] then [] else [Differ a b])
          else get_opcodes (take i a) (take j b) @ [Equal (take k (drop i a))] @
               get_opcodes (drop (i + k) a) (drop (j + k) b))"
  by pat_completeness auto

termination
  by (relation "measure (\<lambda>(a, b). length a)") (auto dest: find_longest_match_shrinks)

declare get_opcodes.simps [simp del]

definition local_of :: "'a opcode list \<Rightarrow> 'a list" where
  "local_of ops = concat (map (\<lambda>op. case op of Equal xs \<Rightarrow> xs | Differ xs ys \<Rightarrow> xs) ops)"

definition remote_of :: "'a opcode list \<Rightarrow> 'a list" where
  "remote_of ops = concat (map (\<lambda>op. case op of Equal xs \<Rightarrow> xs | Differ xs ys \<Rightarrow> ys) ops)"

text \<open>The opcodes partition both sides.\<close>

lemma opcodes_partition: "local_of (get_opcodes a b) = a \<and> remote_of (get_opcodes a b) = b"
proof (induction a b rule: get_opcodes.induct)
  case (1 a b)
  obtain i j k where m: "(i, j, k) = find_longest_match a b" by (metis prod_cases3)
  show ?case
  proof (cases "k = 0")
    case True
    then show ?thesis by (simp add: get_opcodes.simps [of a b] m [symmetric] local_of_def remote_of_def)
  next
    case False
    from find_longest_match_block(1) [of a b] m
    have eq: "take k (drop i a) = take k (drop j b)" by (auto simp: block_def)
    have "take i a @ take k (drop i a) @ drop (i + k) a = a"
      by (metis append.assoc append_take_drop_id take_add)
    moreover have "take j b @ take k (drop j b) @ drop (j + k) b = b"
      by (metis append.assoc append_take_drop_id take_add)
    ultimately show ?thesis
      using "1.IH" [OF m _ False] False eq
      by (simp add: get_opcodes.simps [of a b] m [symmetric] local_of_def remote_of_def)
  qed
qed

lemma opcodes_self: "get_opcodes a a = (if a = [] then [] else [Equal a])"
  by (simp add: get_opcodes.simps [of a a] get_opcodes.simps [of "[]" "[]"] find_longest_match_self)

section \<open>The merge\<close>

definition CONFLICT_OPEN :: pystr where
  "CONFLICT_OPEN = u ''<<<<<<< local''"

definition CONFLICT_SEP :: pystr where
  "CONFLICT_SEP = u ''=======''"

definition CONFLICT_CLOSE :: pystr where
  "CONFLICT_CLOSE = u ''>>>>>>> remote''"

fun merged_lines_of :: "pystr opcode list \<Rightarrow> pystr list \<times> int" where
  "merged_lines_of [] = ([], 0)"
| "merged_lines_of (op # ops) =
     (case merged_lines_of ops of
        (out, conflicts) \<Rightarrow>
          (case op of
             Equal xs \<Rightarrow> (xs @ out, conflicts)
           | Differ xs ys \<Rightarrow>
               if ys = [] then (xs @ out, conflicts)
               else if xs = [] then (ys @ out, conflicts)
               else ([CONFLICT_OPEN] @ xs @ [CONFLICT_SEP] @ ys @ [CONFLICT_CLOSE] @ out, conflicts + 1)))"

text \<open>The merged bytes and the number of conflicts, \<open>-1\<close> for a binary side.\<close>

definition lcs_merge :: "bytes \<Rightarrow> bytes \<Rightarrow> bytes \<times> int" where
  "lcs_merge local_bytes remote_bytes =
     (if 0 \<in> set local_bytes \<or> 0 \<in> set remote_bytes then ([], -1)
      else
        (case (decode_utf8 local_bytes, decode_utf8 remote_bytes) of
           (Some local_text, Some remote_text) \<Rightarrow>
             (case merged_lines_of (get_opcodes (splitlines local_text) (splitlines remote_text)) of
                (out, conflicts) \<Rightarrow>
                  if out = [] then ([], conflicts)
                  else
                    (let body = join_with [10] out;
                         body = (if endswith local_text [10] \<or> endswith remote_text [10] then body @ [10] else body)
                     in (case encode_utf8 body of None \<Rightarrow> [] | Some m \<Rightarrow> m, conflicts)))
         | _ \<Rightarrow> ([], -1)))"

section \<open>What the prompt shows\<close>

text \<open>\<open>conflictdiff.py\<close>: whether a merge is offered, the counts of the diff, and the newer side. The
  merge that the apply loop offers is \<open>offered_merge\<close>, a value for its parameter \<open>ae_lcs\<close>.\<close>

definition merge_has_line_structure :: "pystr list \<Rightarrow> pystr list \<Rightarrow> bool" where
  "merge_has_line_structure local_lines remote_lines \<longleftrightarrow> length local_lines > 1 \<and> length remote_lines > 1"

definition offered_merge :: "bytes \<Rightarrow> bytes \<Rightarrow> bytes option" where
  "offered_merge local_bytes remote_bytes =
     (case lcs_merge local_bytes remote_bytes of
        (merged, conflicts) \<Rightarrow>
          if conflicts \<ge> 0 \<and> merge_has_line_structure (splitlines (decode_utf8_replace local_bytes))
                (splitlines (decode_utf8_replace remote_bytes))
          then Some merged else None)"

fun count_divergent_lines :: "pystr list \<Rightarrow> nat \<times> nat \<times> nat" where
  "count_divergent_lines [] = (0, 0, 0)"
| "count_divergent_lines (line # diff) =
     (case count_divergent_lines diff of
        (m, n, k) \<Rightarrow>
          if startswith line (u ''---'') then (m, n, k)
          else if startswith line (u ''+++'') then (m, n, k)
          else if startswith line (u ''-'') then (Suc m, n, Suc k)
          else if startswith line (u ''+'') then (m, Suc n, Suc k)
          else (m, n, k))"

datatype side = LocalSide | RemoteSide | Tie | UnknownSide

definition newer_side :: "int option \<Rightarrow> int option \<Rightarrow> side" where
  "newer_side local_mtime remote_mtime =
     (case (local_mtime, remote_mtime) of
        (Some l, Some r) \<Rightarrow> if l > r then LocalSide else if r > l then RemoteSide else Tie
      | _ \<Rightarrow> UnknownSide)"

lemma count_divergent_total: "case count_divergent_lines diff of (m, n, k) \<Rightarrow> k = m + n \<and> k \<le> length diff"
  by (induction diff) (auto split: prod.splits)

text \<open>A removed line that itself begins with two hyphens, such as a front-matter rule, has the shape of the
  file header and is not counted.\<close>

lemma removed_rule_uncounted:
  "startswith line (u ''--'') \<Longrightarrow> count_divergent_lines [u ''-'' @ line] = (0, 0, 0)"
  by (auto simp: u_def startswith_iff)

section \<open>Nothing is lost\<close>

lemma subseq_run: "subseq p q \<Longrightarrow> subseq (xs @ p) (xs @ q)"
  by (intro list_emb_append_mono) simp_all

lemma local_of_simps [simp]:
  "local_of [] = []" "local_of (Equal xs # ops) = xs @ local_of ops" "local_of (Differ xs ys # ops) = xs @ local_of ops"
  "remote_of [] = []" "remote_of (Equal xs # ops) = xs @ remote_of ops" "remote_of (Differ xs ys # ops) = ys @ remote_of ops"
  by (simp_all add: local_of_def remote_of_def)

definition keeps_sides :: "'a list \<Rightarrow> 'a list \<Rightarrow> 'a list \<Rightarrow> bool" where
  "keeps_sides xs ys out \<longleftrightarrow> subseq xs out \<and> subseq ys out"

lemma merged_lines_keep: "keeps_sides (local_of ops) (remote_of ops) (fst (merged_lines_of ops))"
proof (induction ops)
  case (Cons op ops)
  obtain out n where m: "merged_lines_of ops = (out, n)" by (cases "merged_lines_of ops")
  have ih: "subseq (local_of ops) out" "subseq (remote_of ops) out" using Cons.IH by (simp_all add: keeps_sides_def m)
  show ?case
  proof (cases op)
    case (Equal xs)
    with ih show ?thesis by (simp add: keeps_sides_def m subseq_run)
  next
    case (Differ xs ys)
    have "subseq (xs @ local_of ops) (xs @ [CONFLICT_SEP] @ ys @ [CONFLICT_CLOSE] @ out)"
      by (intro subseq_run list_emb_append2 ih)
    then have l: "subseq (xs @ local_of ops) ([CONFLICT_OPEN] @ xs @ [CONFLICT_SEP] @ ys @ [CONFLICT_CLOSE] @ out)"
      by (rule list_emb_append2)
    have "subseq (ys @ remote_of ops) (ys @ [CONFLICT_CLOSE] @ out)"
      by (intro subseq_run list_emb_append2 ih)
    then have r: "subseq (ys @ remote_of ops) ([CONFLICT_OPEN] @ xs @ [CONFLICT_SEP] @ ys @ [CONFLICT_CLOSE] @ out)"
      by (rule list_emb_append2 [OF list_emb_append2 [OF list_emb_append2]])
    show ?thesis
    proof (cases "xs = [] \<or> ys = []")
      case True
      with ih show ?thesis by (auto simp: Differ keeps_sides_def m subseq_run list_emb_append2)
    next
      case False
      with l r show ?thesis by (simp add: Differ keeps_sides_def m del: append.simps)
    qed
  qed
qed (simp add: keeps_sides_def)

lemma merged_lines_set:
  "0 \<le> snd (merged_lines_of ops) \<and>
   set (fst (merged_lines_of ops)) \<subseteq> set (local_of ops) \<union> set (remote_of ops) \<union>
     (if snd (merged_lines_of ops) = 0 then {} else {CONFLICT_OPEN, CONFLICT_SEP, CONFLICT_CLOSE})"
proof (induction ops)
  case (Cons op ops)
  obtain out n where m: "merged_lines_of ops = (out, n)" by (cases "merged_lines_of ops")
  from Cons.IH [unfolded m fst_conv snd_conv] show ?case
    by (cases op) (auto simp: m split: if_splits)
qed simp

lemma decode_scalars: "decode_utf8 b = Some s \<Longrightarrow> \<forall>c \<in> set s. is_scalar c"
  by (drule encode_decode_utf8) (simp add: encode_utf8_def list_all_iff split: if_splits)

lemma lines_scalars: "decode_utf8 b = Some s \<Longrightarrow> w \<in> set (splitlines s) \<Longrightarrow> \<forall>c \<in> set w. is_scalar c"
  using splitlines_chars decode_scalars by blast

lemma markers_scalar: "w \<in> {CONFLICT_OPEN, CONFLICT_SEP, CONFLICT_CLOSE} \<Longrightarrow> \<forall>c \<in> set w. is_scalar c"
proof -
  have "list_all is_scalar CONFLICT_OPEN \<and> list_all is_scalar CONFLICT_SEP \<and> list_all is_scalar CONFLICT_CLOSE" by code_simp
  then show "w \<in> {CONFLICT_OPEN, CONFLICT_SEP, CONFLICT_CLOSE} \<Longrightarrow> \<forall>c \<in> set w. is_scalar c" by (auto simp: list_all_iff)
qed

text \<open>C19. The offered merge loses no line. Unless a side is binary, which is said by \<open>-1\<close> and no bytes, the
  lines written contain all lines of the local side in their order and all lines of the remote side in
  their order; without a conflict they are made of those lines alone, and a file merged with itself is
  itself. The bytes are those lines joined, with a final newline when a side had one.\<close>

theorem lcs_merge_lossless:
  "case lcs_merge a b of (m, n) \<Rightarrow>
     if 0 \<in> set a \<or> 0 \<in> set b \<or> decode_utf8 a = None \<or> decode_utf8 b = None then m = [] \<and> n = -1
     else (\<exists>s t out. decode_utf8 a = Some s \<and> decode_utf8 b = Some t \<and> 0 \<le> n \<and>
       subseq (splitlines s) out \<and> subseq (splitlines t) out \<and>
       set out \<subseteq> set (splitlines s) \<union> set (splitlines t) \<union> (if n = 0 then {} else {CONFLICT_OPEN, CONFLICT_SEP, CONFLICT_CLOSE}) \<and>
       (splitlines s = splitlines t \<longrightarrow> out = splitlines s \<and> n = 0) \<and>
       decode_utf8 m = Some (if out = [] then [] else join_with [10] out @
         (if endswith s [10] \<or> endswith t [10] then [10] else [])))"
proof (cases "0 \<in> set a \<or> 0 \<in> set b \<or> decode_utf8 a = None \<or> decode_utf8 b = None")
  case True
  then show ?thesis by (auto simp: lcs_merge_def split: option.splits)
next
  case False
  then obtain s t where st: "decode_utf8 a = Some s" "decode_utf8 b = Some t" by auto
  let ?ops = "get_opcodes (splitlines s) (splitlines t)"
  obtain out n where m: "merged_lines_of ?ops = (out, n)" by (cases "merged_lines_of ?ops")
  note part = opcodes_partition [of "splitlines s" "splitlines t"]
  have keep: "subseq (splitlines s) out" "subseq (splitlines t) out"
    using merged_lines_keep [of ?ops] part by (simp_all add: keeps_sides_def m)
  have lines: "0 \<le> n" "set out \<subseteq> set (splitlines s) \<union> set (splitlines t) \<union> (if n = 0 then {} else {CONFLICT_OPEN, CONFLICT_SEP, CONFLICT_CLOSE})"
    using merged_lines_set [of ?ops] part by (simp_all add: m)
  have same: "out = splitlines s \<and> n = 0" if "splitlines s = splitlines t"
    using m that by (auto simp: opcodes_self split: if_splits)
  let ?tail = "if endswith s [10] \<or> endswith t [10] then [10] else []"
  have "\<forall>c \<in> set w. is_scalar c" if w: "w \<in> set out" for w
  proof -
    have "set out \<subseteq> set (splitlines s) \<union> set (splitlines t) \<union> {CONFLICT_OPEN, CONFLICT_SEP, CONFLICT_CLOSE}"
      using lines(2) by (auto split: if_splits)
    with w consider "w \<in> set (splitlines s)" | "w \<in> set (splitlines t)" | "w \<in> {CONFLICT_OPEN, CONFLICT_SEP, CONFLICT_CLOSE}" by blast
    then show ?thesis using lines_scalars [OF st(1)] lines_scalars [OF st(2)] markers_scalar by cases blast+
  qed
  then have "\<forall>c \<in> (\<Union>w \<in> set out. set w) \<union> set [10]. is_scalar c" by (auto simp: is_scalar_def)
  with set_join_with [of "[10]" out] have "\<forall>c \<in> set (join_with [10] out). is_scalar c" by blast
  then have "list_all is_scalar (join_with [10] out @ ?tail)" by (auto simp: list_all_iff is_scalar_def)
  then obtain bs where bs: "encode_utf8 (join_with [10] out @ ?tail) = Some bs" by (simp add: encode_utf8_def)
  define m0 where "m0 = (if out = [] then [] else bs)"
  have run: "lcs_merge a b = (m0, n)"
    unfolding m0_def using False st m bs by (cases "endswith s [10] \<or> endswith t [10]") (simp_all add: lcs_merge_def Let_def)
  have "decode_utf8 m0 = Some (if out = [] then [] else join_with [10] out @ ?tail)"
    unfolding m0_def using decode_encode_utf8 [OF bs] by (simp add: decode_utf8_def byte_ints_def)
  with st keep lines same have "\<exists>s t out. decode_utf8 a = Some s \<and> decode_utf8 b = Some t \<and> 0 \<le> n \<and>
       subseq (splitlines s) out \<and> subseq (splitlines t) out \<and>
       set out \<subseteq> set (splitlines s) \<union> set (splitlines t) \<union> (if n = 0 then {} else {CONFLICT_OPEN, CONFLICT_SEP, CONFLICT_CLOSE}) \<and>
       (splitlines s = splitlines t \<longrightarrow> out = splitlines s \<and> n = 0) \<and>
       decode_utf8 m0 = Some (if out = [] then [] else join_with [10] out @
         (if endswith s [10] \<or> endswith t [10] then [10] else []))"
    by (intro exI [of _ s] exI [of _ t] exI [of _ out] conjI impI) simp_all
  with False show ?thesis unfolding run by (simp only: prod.case if_False)
qed

text \<open>One line changed on both sides, one line added on the remote side.\<close>

definition lcs_local :: bytes where
  "lcs_local = map of_int (u ''a'' @ [10] @ u ''b'' @ [10] @ u ''c'' @ [10])"

definition lcs_remote :: bytes where
  "lcs_remote = map of_int (u ''a'' @ [10] @ u ''x'' @ [10] @ u ''c'' @ [10] @ u ''d'')"

theorem lcs_merge_lossless_witness:
  "snd (lcs_merge lcs_local lcs_remote) = 1 \<and>
   (\<exists>out. subseq [u ''a'', u ''b'', u ''c''] out \<and> subseq [u ''a'', u ''x'', u ''c'', u ''d''] out \<and>
     decode_utf8 (fst (lcs_merge lcs_local lcs_remote)) = Some (join_with [10] out @ [10]))"
proof -
  have n: "snd (lcs_merge lcs_local lcs_remote) = 1" by code_simp
  have dec: "decode_utf8 lcs_local = Some (u ''a'' @ [10] @ u ''b'' @ [10] @ u ''c'' @ [10])"
    "decode_utf8 lcs_remote = Some (u ''a'' @ [10] @ u ''x'' @ [10] @ u ''c'' @ [10] @ u ''d'')"
    "splitlines (u ''a'' @ [10] @ u ''b'' @ [10] @ u ''c'' @ [10]) = [u ''a'', u ''b'', u ''c'']"
    "splitlines (u ''a'' @ [10] @ u ''x'' @ [10] @ u ''c'' @ [10] @ u ''d'') = [u ''a'', u ''x'', u ''c'', u ''d'']"
    "endswith (u ''a'' @ [10] @ u ''b'' @ [10] @ u ''c'' @ [10]) [10]" "0 \<notin> set lcs_local" "0 \<notin> set lcs_remote" by code_simp+
  obtain m where m: "lcs_merge lcs_local lcs_remote = (m, 1)" using n by (metis prod.collapse)
  from lcs_merge_lossless [of lcs_local lcs_remote, unfolded m prod.case dec option.inject]
  obtain out where "subseq [u ''a'', u ''b'', u ''c''] out" "subseq [u ''a'', u ''x'', u ''c'', u ''d''] out"
    "decode_utf8 m = Some (if out = [] then [] else join_with [10] out @ [10])"
    using dec by auto
  with n m show ?thesis by (intro conjI exI [of _ out]) auto
qed

end
