(* ===== verification/Locks.thy ===== *)
theory Locks
  imports Prelude
begin

text \<open>
  The lock of the program, \<open>lockfile.py\<close>, as a system of processes over the kernel's advisory locks: an
  event is one system call of \<open>acquire_lock\<close> or \<open>release_lock\<close>, or the death of a process, which closes its
  descriptors. The lock file is created once and never unlinked, so its path always names one inode. An
  open file is a process and a descriptor; \<open>flock\<close> belongs to it. A path is the key of \<open>_resolve_key\<close>.
\<close>

section \<open>States and events\<close>

text \<open>Where a process stands in \<open>acquire_lock\<close>: outside, with the file open, or with the lock but before
  its registration in \<open>_LOCK_FDS\<close>.\<close>

datatype stand = Outside | Opened pystr nat | Flocked pystr nat

record proc =
  pr_alive :: bool
  pr_fd :: nat
  pr_held :: "(pystr, nat) dict"
  pr_stand :: stand

record locks =
  lk_dir :: "(pystr, nat) dict"
  lk_fresh :: nat
  lk_flock :: "(nat, nat \<times> nat) dict"
  lk_body :: "(nat, nat) dict"
  lk_procs :: "nat \<Rightarrow> proc"

definition no_locks :: locks where
  "no_locks = \<lparr>lk_dir = [], lk_fresh = 0, lk_flock = [], lk_body = [],
     lk_procs = (\<lambda>_. \<lparr>pr_alive = True, pr_fd = 0, pr_held = [], pr_stand = Outside\<rparr>)\<rparr>"

datatype lock_event =
    OpenLock nat pystr
  | OpenFails nat pystr
  | TryFlock nat
  | FlockFails nat
  | WritePid nat
  | WritePidFails nat
  | ReleaseLock nat pystr
  | Crash nat

definition with_proc :: "nat \<Rightarrow> (proc \<Rightarrow> proc) \<Rightarrow> locks \<Rightarrow> locks" where
  "with_proc p f s = s\<lparr>lk_procs := (lk_procs s)(p := f (lk_procs s p))\<rparr>"

text \<open>The inode behind a path.\<close>

definition inode_of :: "locks \<Rightarrow> pystr \<Rightarrow> nat option" where
  "inode_of s key = map_of (lk_dir s) key"

definition unlock :: "nat \<Rightarrow> locks \<Rightarrow> locks" where
  "unlock ino s = s\<lparr>lk_flock := AList.delete ino (lk_flock s)\<rparr>"

text \<open>\<open>None\<close> is an event that cannot happen in the state. A second acquisition by the same process and a
  failed open raise; a busy or failing \<open>flock\<close> and a failing write of the pid close the file and raise.\<close>

fun lock_step :: "lock_event \<Rightarrow> locks \<Rightarrow> locks option" where
  "lock_step (OpenLock p key) s =
     (let pr = lk_procs s p in
      if \<not> pr_alive pr \<or> pr_stand pr \<noteq> Outside then None
      else if map_of (pr_held pr) key \<noteq> None then Some s
      else
        (let s = (if inode_of s key = None
                  then s\<lparr>lk_dir := AList.update key (lk_fresh s) (lk_dir s), lk_fresh := Suc (lk_fresh s)\<rparr> else s)
         in Some (with_proc p (\<lambda>pr. pr\<lparr>pr_fd := Suc (pr_fd pr), pr_stand := Opened key (pr_fd pr)\<rparr>) s)))"
| "lock_step (OpenFails p key) s =
     (if pr_alive (lk_procs s p) \<and> pr_stand (lk_procs s p) = Outside then Some s else None)"
| "lock_step (TryFlock p) s =
     (case pr_stand (lk_procs s p) of
        Opened key fd \<Rightarrow>
          (case inode_of s key of
             None \<Rightarrow> None
           | Some ino \<Rightarrow>
               (if map_of (lk_flock s) ino = None
                then Some (with_proc p (\<lambda>pr. pr\<lparr>pr_stand := Flocked key fd\<rparr>) (s\<lparr>lk_flock := AList.update ino (p, fd) (lk_flock s)\<rparr>))
                else Some (with_proc p (\<lambda>pr. pr\<lparr>pr_stand := Outside\<rparr>) s)))
      | _ \<Rightarrow> None)"
| "lock_step (FlockFails p) s =
     (case pr_stand (lk_procs s p) of
        Opened key fd \<Rightarrow> Some (with_proc p (\<lambda>pr. pr\<lparr>pr_stand := Outside\<rparr>) s)
      | _ \<Rightarrow> None)"
| "lock_step (WritePid p) s =
     (case pr_stand (lk_procs s p) of
        Flocked key fd \<Rightarrow>
          (case inode_of s key of
             None \<Rightarrow> None
           | Some ino \<Rightarrow>
               Some (with_proc p (\<lambda>pr. pr\<lparr>pr_held := AList.update key fd (pr_held pr), pr_stand := Outside\<rparr>)
                 (s\<lparr>lk_body := AList.update ino p (lk_body s)\<rparr>)))
      | _ \<Rightarrow> None)"
| "lock_step (WritePidFails p) s =
     (case pr_stand (lk_procs s p) of
        Flocked key fd \<Rightarrow>
          (case inode_of s key of
             None \<Rightarrow> None
           | Some ino \<Rightarrow> Some (with_proc p (\<lambda>pr. pr\<lparr>pr_stand := Outside\<rparr>) (unlock ino s)))
      | _ \<Rightarrow> None)"
| "lock_step (ReleaseLock p key) s =
     (let pr = lk_procs s p in
      if \<not> pr_alive pr \<or> pr_stand pr \<noteq> Outside then None
      else
        (case (map_of (pr_held pr) key, inode_of s key) of
           (Some fd, Some ino) \<Rightarrow>
             Some (with_proc p (\<lambda>pr. pr\<lparr>pr_held := AList.delete key (pr_held pr)\<rparr>) (unlock ino s))
         | _ \<Rightarrow> Some s))"
| "lock_step (Crash p) s =
     (if \<not> pr_alive (lk_procs s p) then None
      else Some (with_proc p (\<lambda>pr. pr\<lparr>pr_alive := False, pr_held := [], pr_stand := Outside\<rparr>)
             (s\<lparr>lk_flock := filter (\<lambda>(ino, own). fst own \<noteq> p) (lk_flock s)\<rparr>)))"

inductive reachable :: "locks \<Rightarrow> bool" where
  start: "reachable no_locks"
| step: "reachable s \<Longrightarrow> lock_step e s = Some s' \<Longrightarrow> reachable s'"

text \<open>A sequence of events.\<close>

fun lock_run :: "lock_event list \<Rightarrow> locks \<Rightarrow> locks option" where
  "lock_run [] s = Some s"
| "lock_run (e # es) s = (case lock_step e s of None \<Rightarrow> None | Some s' \<Rightarrow> lock_run es s')"

definition holds :: "locks \<Rightarrow> nat \<Rightarrow> pystr \<Rightarrow> bool" where
  "holds s p key \<longleftrightarrow> map_of (pr_held (lk_procs s p)) key \<noteq> None"

section \<open>The invariant\<close>

text \<open>Who is registered or about to be has the lock on the inode of the path; who has a lock is alive and
  registered or about to be; paths have inodes of their own.\<close>

definition claims :: "locks \<Rightarrow> nat \<Rightarrow> pystr \<Rightarrow> nat \<Rightarrow> bool" where
  "claims s p key fd \<longleftrightarrow> pr_alive (lk_procs s p) \<and>
     (map_of (pr_held (lk_procs s p)) key = Some fd \<or> pr_stand (lk_procs s p) = Flocked key fd)"

definition lock_inv :: "locks \<Rightarrow> bool" where
  "lock_inv s \<longleftrightarrow>
     distinct_keys (lk_flock s) \<and>
     inj_on (inode_of s) (dom (inode_of s)) \<and> (\<forall>key ino. inode_of s key = Some ino \<longrightarrow> ino < lk_fresh s) \<and>
     (\<forall>p. \<not> pr_alive (lk_procs s p) \<longrightarrow> pr_held (lk_procs s p) = [] \<and> pr_stand (lk_procs s p) = Outside) \<and>
     (\<forall>p key fd. pr_stand (lk_procs s p) = Opened key fd \<longrightarrow> inode_of s key \<noteq> None \<and> map_of (pr_held (lk_procs s p)) key = None) \<and>
     (\<forall>p key fd. pr_stand (lk_procs s p) = Flocked key fd \<longrightarrow> map_of (pr_held (lk_procs s p)) key = None) \<and>
     (\<forall>p key fd. claims s p key fd \<longrightarrow> (\<exists>ino. inode_of s key = Some ino \<and> map_of (lk_flock s) ino = Some (p, fd))) \<and>
     (\<forall>ino p fd. map_of (lk_flock s) ino = Some (p, fd) \<longrightarrow> (\<exists>key. inode_of s key = Some ino \<and> claims s p key fd))"

lemma map_of_filter_values:
  "distinct_keys al \<Longrightarrow> map_of (filter (\<lambda>(k, v). Q v) al) k =
     (case map_of al k of Some v \<Rightarrow> if Q v then Some v else None | None \<Rightarrow> None)"
proof (induction al)
  case (Cons a al)
  obtain k' v where "a = (k', v)"
    by (cases a)
  then show ?case
    using Cons by (auto simp: distinct_keys_def map_of_eq_None_iff split: option.splits)
qed simp

lemma with_proc_simps [simp]:
  "lk_dir (with_proc p f s) = lk_dir s" "lk_fresh (with_proc p f s) = lk_fresh s"
  "lk_flock (with_proc p f s) = lk_flock s" "lk_body (with_proc p f s) = lk_body s"
  "lk_procs (with_proc p f s) q = (if q = p then f (lk_procs s p) else lk_procs s q)"
  "inode_of (with_proc p f s) = inode_of s"
  by (auto simp: with_proc_def inode_of_def)

lemma unlock_simps [simp]:
  "lk_dir (unlock i s) = lk_dir s" "lk_fresh (unlock i s) = lk_fresh s" "lk_procs (unlock i s) = lk_procs s"
  "map_of (lk_flock (unlock i s)) = (map_of (lk_flock s))(i := None)" "inode_of (unlock i s) = inode_of s"
  by (auto simp: unlock_def inode_of_def delete_conv')

lemma inode_of_simps [simp]:
  "inode_of (s\<lparr>lk_flock := f\<rparr>) = inode_of s" "inode_of (s\<lparr>lk_body := b\<rparr>) = inode_of s"
  "inode_of (s\<lparr>lk_dir := AList.update k i (lk_dir s), lk_fresh := n\<rparr>) = (inode_of s)(k := Some i)"
  by (auto simp: inode_of_def update_conv')

text \<open>The invariant, one law at a time.\<close>

lemma lock_invD:
  assumes "lock_inv s"
  shows lock_inv_distinct: "distinct_keys (lk_flock s)"
    and lock_inv_inj: "inode_of s key = Some i \<Longrightarrow> inode_of s key' = Some i \<Longrightarrow> key' = key"
    and lock_inv_fresh: "inode_of s key = Some i \<Longrightarrow> i < lk_fresh s"
    and lock_inv_dead: "\<not> pr_alive (lk_procs s p) \<Longrightarrow> pr_held (lk_procs s p) = [] \<and> pr_stand (lk_procs s p) = Outside"
    and lock_inv_opened: "pr_stand (lk_procs s p) = Opened key fd \<Longrightarrow> inode_of s key \<noteq> None \<and> map_of (pr_held (lk_procs s p)) key = None"
    and lock_inv_flocked: "pr_stand (lk_procs s p) = Flocked key fd \<Longrightarrow> map_of (pr_held (lk_procs s p)) key = None"
    and lock_inv_claim: "claims s p key fd \<Longrightarrow> \<exists>ino. inode_of s key = Some ino \<and> map_of (lk_flock s) ino = Some (p, fd)"
    and lock_inv_owner: "map_of (lk_flock s) i = Some (p, fd) \<Longrightarrow> \<exists>key. inode_of s key = Some i \<and> claims s p key fd"
  using assms unfolding lock_inv_def inj_on_def by (blast | metis domI)+

lemma lock_invI:
  assumes "distinct_keys (lk_flock s)"
    "\<And>key key' i. inode_of s key = Some i \<Longrightarrow> inode_of s key' = Some i \<Longrightarrow> key' = key"
    "\<And>key i. inode_of s key = Some i \<Longrightarrow> i < lk_fresh s"
    "\<And>p. \<not> pr_alive (lk_procs s p) \<Longrightarrow> pr_held (lk_procs s p) = [] \<and> pr_stand (lk_procs s p) = Outside"
    "\<And>p key fd. pr_stand (lk_procs s p) = Opened key fd \<Longrightarrow> inode_of s key \<noteq> None \<and> map_of (pr_held (lk_procs s p)) key = None"
    "\<And>p key fd. pr_stand (lk_procs s p) = Flocked key fd \<Longrightarrow> map_of (pr_held (lk_procs s p)) key = None"
    "\<And>p key fd. claims s p key fd \<Longrightarrow> \<exists>ino. inode_of s key = Some ino \<and> map_of (lk_flock s) ino = Some (p, fd)"
    "\<And>i p fd. map_of (lk_flock s) i = Some (p, fd) \<Longrightarrow> \<exists>key. inode_of s key = Some i \<and> claims s p key fd"
  shows "lock_inv s"
  using assms unfolding lock_inv_def inj_on_def by (auto simp: dom_def)

text \<open>A step of one process that moves no lock and changes no claim.\<close>

lemma with_proc_keeps_inv:
  assumes inv: "lock_inv s" and pr: "f (lk_procs s p) = pr'"
    and alive: "pr_alive pr'" "pr_alive (lk_procs s p)"
    and opened: "\<And>key fd. pr_stand pr' = Opened key fd \<Longrightarrow> inode_of s key \<noteq> None \<and> map_of (pr_held pr') key = None"
    and flocked: "\<And>key fd. pr_stand pr' = Flocked key fd \<Longrightarrow> map_of (pr_held pr') key = None"
    and same: "\<And>key fd. (map_of (pr_held pr') key = Some fd \<or> pr_stand pr' = Flocked key fd) \<longleftrightarrow> claims s p key fd"
  shows "lock_inv (with_proc p f s)"
proof -
  have c: "claims (with_proc p f s) = claims s"
    using same alive by (intro ext) (auto simp: claims_def pr)
  show ?thesis
    using lock_invD [OF inv] opened flocked alive
    by (intro lock_invI) (auto simp: c pr split: if_splits)
qed

text \<open>Taking and giving up the lock of a path.\<close>

lemma claims_unique:
  "lock_inv s \<Longrightarrow> claims s p key fd \<Longrightarrow> claims s q key fd' \<Longrightarrow> p = q \<and> fd = fd'"
  using lock_inv_claim [of s p key fd] lock_inv_claim [of s q key fd'] by auto

lemma take_lock_keeps_inv:
  assumes inv: "lock_inv s" and stand: "pr_stand (lk_procs s p) = Opened key fd"
    and ino: "inode_of s key = Some i" and free: "map_of (lk_flock s) i = None"
  shows "lock_inv (with_proc p (\<lambda>pr. pr\<lparr>pr_stand := Flocked key fd\<rparr>) (s\<lparr>lk_flock := AList.update i (p, fd) (lk_flock s)\<rparr>))"
    (is "lock_inv ?s")
proof -
  have alive: "pr_alive (lk_procs s p)"
    using lock_inv_dead [OF inv, of p] stand by auto
  have c: "claims ?s q k f \<longleftrightarrow> claims s q k f \<or> q = p \<and> k = key \<and> f = fd" for q k f
    using stand alive by (auto simp: claims_def)
  have m: "map_of (lk_flock ?s) = (map_of (lk_flock s))(i := Some (p, fd))"
    by (simp add: update_conv')
  show ?thesis
  proof (rule lock_invI)
    fix q k f
    show "claims ?s q k f \<Longrightarrow> \<exists>ino. inode_of ?s k = Some ino \<and> map_of (lk_flock ?s) ino = Some (q, f)"
      using lock_inv_claim [OF inv, of q k f] ino free by (cases "q = p \<and> k = key \<and> f = fd") (auto simp: c m)
  next
    fix j q f
    show "map_of (lk_flock ?s) j = Some (q, f) \<Longrightarrow> \<exists>k. inode_of ?s k = Some j \<and> claims ?s q k f"
      using lock_inv_owner [OF inv, of j q f] ino by (auto simp: c m split: if_splits)
  qed (use lock_invD [OF inv] stand in \<open>auto simp: distinct_keys_def distinct_update split: if_splits\<close>)
qed

lemma give_up_keeps_inv:
  assumes inv: "lock_inv s" and mine: "claims s p key fd" and ino: "inode_of s key = Some i"
    and pr: "f (lk_procs s p) = pr'" and alive: "pr_alive pr'" and out: "pr_stand pr' = Outside"
    and rest: "\<And>k fd. map_of (pr_held pr') k = Some fd \<longleftrightarrow> claims s p k fd \<and> k \<noteq> key"
  shows "lock_inv (with_proc p f (unlock i s))" (is "lock_inv ?s")
proof -
  have c: "claims ?s q k e \<longleftrightarrow> claims s q k e \<and> k \<noteq> key" for q k e
  proof (cases "q = p")
    case True
    then show ?thesis
      using rest [of k e] alive out by (simp add: claims_def [of ?s] pr)
  next
    case False
    then have "claims ?s q k e \<longleftrightarrow> claims s q k e"
      by (simp add: claims_def)
    then show ?thesis
      using claims_unique [OF inv mine, of q e] False by auto
  qed
  show ?thesis
  proof (rule lock_invI)
    fix q k e
    show "claims ?s q k e \<Longrightarrow> \<exists>ino. inode_of ?s k = Some ino \<and> map_of (lk_flock ?s) ino = Some (q, e)"
      using lock_inv_claim [OF inv, of q k e] lock_inv_inj [OF inv ino, of k] by (cases "inode_of s k = Some i") (auto simp: c)
  next
    fix j q e
    show "map_of (lk_flock ?s) j = Some (q, e) \<Longrightarrow> \<exists>k. inode_of ?s k = Some j \<and> claims ?s q k e"
      using lock_inv_owner [OF inv, of j q e] ino by (auto simp: c split: if_splits)
  qed (use lock_invD [OF inv] out alive pr in
      \<open>auto simp: unlock_def distinct_keys_def distinct_delete split: if_splits\<close>)
qed

lemma crash_keeps_inv:
  assumes inv: "lock_inv s"
  shows "lock_inv (with_proc p (\<lambda>pr. pr\<lparr>pr_alive := False, pr_held := [], pr_stand := Outside\<rparr>)
           (s\<lparr>lk_flock := filter (\<lambda>(ino, own). fst own \<noteq> p) (lk_flock s)\<rparr>))" (is "lock_inv ?s")
proof -
  have c: "claims ?s q k e \<longleftrightarrow> claims s q k e \<and> q \<noteq> p" for q k e
    by (auto simp: claims_def)
  have m: "map_of (lk_flock ?s) j = Some (q, e) \<longleftrightarrow> map_of (lk_flock s) j = Some (q, e) \<and> q \<noteq> p" for j q e
    using map_of_filter_values [OF lock_inv_distinct [OF inv], of "\<lambda>own. fst own \<noteq> p" j]
    by (auto split: option.splits)
  show ?thesis
  proof (rule lock_invI)
    show "distinct_keys (lk_flock ?s)"
      using lock_inv_distinct [OF inv] by (simp add: distinct_keys_def distinct_map_filter)
    fix q k e
    show "claims ?s q k e \<Longrightarrow> \<exists>ino. inode_of ?s k = Some ino \<and> map_of (lk_flock ?s) ino = Some (q, e)"
      using lock_inv_claim [OF inv, of q k e] by (auto simp only: c m) auto
  next
    fix j q e
    show "map_of (lk_flock ?s) j = Some (q, e) \<Longrightarrow> \<exists>k. inode_of ?s k = Some j \<and> claims ?s q k e"
      using lock_inv_owner [OF inv, of j q e] by (auto simp only: c m) auto
  qed (use lock_inv_inj [OF inv] lock_inv_fresh [OF inv] lock_inv_dead [OF inv] lock_inv_opened [OF inv]
      lock_inv_flocked [OF inv] in \<open>auto split: if_splits\<close>)
qed

lemma create_file_keeps_inv:
  assumes inv: "lock_inv s" and none: "inode_of s key = None"
  shows "lock_inv (s\<lparr>lk_dir := AList.update key (lk_fresh s) (lk_dir s), lk_fresh := Suc (lk_fresh s)\<rparr>)"
    (is "lock_inv ?s")
proof -
  have c: "claims ?s = claims s"
    by (intro ext) (simp add: claims_def)
  have fresh: "inode_of s k \<noteq> Some (lk_fresh s)" for k
    using lock_inv_fresh [OF inv, of k] by auto
  show ?thesis
  proof (rule lock_invI)
    fix k k' i
    assume a: "inode_of ?s k = Some i" "inode_of ?s k' = Some i"
    show "k' = k"
      using a lock_inv_inj [OF inv, of k i k'] fresh [of k] fresh [of k'] by (simp split: if_splits)
  next
    fix k i
    assume a: "inode_of ?s k = Some i"
    show "i < lk_fresh ?s"
      using a lock_inv_fresh [OF inv, of k i] by (simp split: if_splits)
  next
    fix q k e
    assume "claims ?s q k e"
    then obtain i where "inode_of s k = Some i" "map_of (lk_flock s) i = Some (q, e)"
      using lock_inv_claim [OF inv, of q k e] by (auto simp: c)
    then show "\<exists>ino. inode_of ?s k = Some ino \<and> map_of (lk_flock ?s) ino = Some (q, e)"
      using none by (intro exI [of _ i]) auto
  next
    fix j q e
    assume "map_of (lk_flock ?s) j = Some (q, e)"
    then obtain k where "inode_of s k = Some j" "claims s q k e"
      using lock_inv_owner [OF inv, of j q e] by auto
    then show "\<exists>k. inode_of ?s k = Some j \<and> claims ?s q k e"
      using none by (intro exI [of _ k]) (auto simp: c)
  next
    fix q k e
    assume "pr_stand (lk_procs ?s q) = Opened k e"
    then show "inode_of ?s k \<noteq> None \<and> map_of (pr_held (lk_procs ?s q)) k = None"
      using lock_inv_opened [OF inv, of q k e] by simp
  next
    fix q k e
    assume "pr_stand (lk_procs ?s q) = Flocked k e"
    then show "map_of (pr_held (lk_procs ?s q)) k = None"
      using lock_inv_flocked [OF inv, of q k e] by simp
  next
    fix q
    assume "\<not> pr_alive (lk_procs ?s q)"
    then show "pr_held (lk_procs ?s q) = [] \<and> pr_stand (lk_procs ?s q) = Outside"
      using lock_inv_dead [OF inv, of q] by simp
  next
    show "distinct_keys (lk_flock ?s)"
      using lock_inv_distinct [OF inv] by simp
  qed
qed

lemma alive_if_busy: "lock_inv s \<Longrightarrow> pr_stand (lk_procs s p) \<noteq> Outside \<Longrightarrow> pr_alive (lk_procs s p)"
  using lock_inv_dead [of s p] by auto

lemma lock_inv_body [simp]: "lock_inv (s\<lparr>lk_body := b\<rparr>) = lock_inv s" "claims (s\<lparr>lk_body := b\<rparr>) = claims s"
  by (simp_all add: lock_inv_def claims_def fun_eq_iff)

lemma lock_step_keeps_inv:
  assumes inv: "lock_inv s" and step: "lock_step e s = Some s'"
  shows "lock_inv s'"
proof (cases e)
  case (OpenLock p key)
  have alive: "pr_alive (lk_procs s p)" "pr_stand (lk_procs s p) = Outside"
    using step OpenLock by (auto simp: Let_def split: if_splits)
  show ?thesis
  proof (cases "map_of (pr_held (lk_procs s p)) key")
    case (Some fd)
    then show ?thesis
      using step OpenLock alive inv by (auto simp: Let_def)
  next
    case None
    let ?t = "if inode_of s key = None
              then s\<lparr>lk_dir := AList.update key (lk_fresh s) (lk_dir s), lk_fresh := Suc (lk_fresh s)\<rparr> else s"
    have t: "lock_inv ?t" "lk_procs ?t = lk_procs s" "inode_of ?t key \<noteq> None"
      using create_file_keeps_inv [OF inv, of key] inv by auto
    have "s' = with_proc p (\<lambda>pr. pr\<lparr>pr_fd := Suc (pr_fd pr), pr_stand := Opened key (pr_fd pr)\<rparr>) ?t"
      using step OpenLock alive None by (simp add: Let_def)
    then show ?thesis
      using t alive None by (auto intro!: with_proc_keeps_inv simp: claims_def)
  qed
next
  case (OpenFails p key)
  then show ?thesis
    using step inv by (auto split: if_splits)
next
  case (TryFlock p)
  then obtain key fd i where k: "pr_stand (lk_procs s p) = Opened key fd" "inode_of s key = Some i"
    using step by (auto split: stand.splits option.splits)
  then show ?thesis
    using step TryFlock inv take_lock_keeps_inv [OF inv k] alive_if_busy [OF inv, of p]
    by (auto split: if_splits intro!: with_proc_keeps_inv simp: claims_def)
next
  case (FlockFails p)
  then obtain key fd where "pr_stand (lk_procs s p) = Opened key fd"
    using step by (auto split: stand.splits)
  then show ?thesis
    using step FlockFails inv alive_if_busy [OF inv, of p]
    by (auto intro!: with_proc_keeps_inv simp: claims_def)
next
  case (Crash p)
  then show ?thesis
    using step crash_keeps_inv [OF inv, of p] by (auto split: if_splits)
next
  case (WritePid p)
  then obtain key fd i where k: "pr_stand (lk_procs s p) = Flocked key fd" "inode_of s key = Some i"
    using step by (auto split: stand.splits option.splits)
  then show ?thesis
    using step WritePid inv alive_if_busy [OF inv, of p] lock_inv_flocked [OF inv k(1)]
    by (auto intro!: with_proc_keeps_inv simp: claims_def update_conv' split: if_splits)
next
  case (WritePidFails p)
  then obtain key fd i where k: "pr_stand (lk_procs s p) = Flocked key fd" "inode_of s key = Some i"
    using step by (auto split: stand.splits option.splits)
  have "claims s p key fd"
    using k alive_if_busy [OF inv, of p] by (simp add: claims_def)
  then show ?thesis
    using step WritePidFails k alive_if_busy [OF inv, of p] lock_inv_flocked [OF inv k(1)]
    by (auto intro!: give_up_keeps_inv [OF inv] simp: claims_def)
next
  case (ReleaseLock p key)
  have alive: "pr_alive (lk_procs s p)" "pr_stand (lk_procs s p) = Outside"
    using step ReleaseLock by (auto simp: Let_def split: if_splits)
  show ?thesis
  proof (cases "\<exists>fd i. map_of (pr_held (lk_procs s p)) key = Some fd \<and> inode_of s key = Some i")
    case True
    then obtain fd i where k: "map_of (pr_held (lk_procs s p)) key = Some fd" "inode_of s key = Some i"
      by auto
    have "claims s p key fd"
      using k alive by (simp add: claims_def)
    then show ?thesis
      using step ReleaseLock k alive
      by (auto intro!: give_up_keeps_inv [OF inv] simp: claims_def delete_conv' Let_def split: if_splits)
  next
    case False
    then show ?thesis
      using step ReleaseLock alive inv by (auto simp: Let_def split: option.splits)
  qed
qed

lemma reachable_inv: "reachable s \<Longrightarrow> lock_inv s"
proof (induction rule: reachable.induct)
  case start
  show ?case
    by (rule lock_invI) (auto simp: no_locks_def inode_of_def claims_def)
next
  case (step s e s')
  then show ?case
    using lock_step_keeps_inv by blast
qed

section \<open>The lock is exclusive and never stranded\<close>

lemma reachable_lock_run: "reachable s \<Longrightarrow> lock_run es s = Some s' \<Longrightarrow> reachable s'"
  by (induction es s rule: lock_run.induct) (auto split: option.splits intro: reachable.step)

lemma holds_claims: "lock_inv s \<Longrightarrow> holds s p key \<Longrightarrow> \<exists>fd. claims s p key fd"
  using lock_inv_dead [of s p] by (cases "pr_alive (lk_procs s p)") (auto simp: holds_def claims_def)

lemma free_iff_no_claim:
  "lock_inv s \<Longrightarrow> inode_of s key = Some i \<Longrightarrow> map_of (lk_flock s) i = None \<longleftrightarrow> \<not> (\<exists>q fd. claims s q key fd)"
  using lock_inv_claim [of s _ key] lock_inv_owner [of s i] lock_inv_inj [of s key i]
  by (metis not_None_eq option.inject prod.exhaust)

lemma try_answers:
  assumes "lock_inv s" and "pr_stand (lk_procs s p) = Opened key fd"
  shows "\<exists>s'. lock_step (TryFlock p) s = Some s' \<and>
    pr_stand (lk_procs s' p) = (if \<exists>q fd. claims s q key fd then Outside else Flocked key fd)"
proof -
  obtain i where i: "inode_of s key = Some i"
    using lock_inv_opened [OF assms] by auto
  show ?thesis
    using assms i free_iff_no_claim [OF assms(1) i] by (auto split: option.splits)
qed

lemma owner_gone_frees:
  assumes inv: "lock_inv s" and held: "holds s p key" and inv': "lock_inv s'"
    and q: "\<And>q. q \<noteq> p \<Longrightarrow> lk_procs s' q = lk_procs s q" and p: "\<And>fd. \<not> claims s' p key fd"
  shows "\<not> claims s' q key fd"
proof
  assume c: "claims s' q key fd"
  then have ne: "q \<noteq> p"
    using p by auto
  then have "claims s q key fd"
    using c q by (simp add: claims_def)
  then show False
    using holds_claims [OF inv held] claims_unique [OF inv] ne by blast
qed

lemma release_frees:
  assumes inv: "lock_inv s" and held: "holds s p key" and out: "pr_stand (lk_procs s p) = Outside"
  shows "\<exists>s'. lock_step (ReleaseLock p key) s = Some s' \<and> (\<forall>q fd. \<not> claims s' q key fd)"
proof -
  obtain fd where c: "claims s p key fd" "map_of (pr_held (lk_procs s p)) key = Some fd" "pr_alive (lk_procs s p)"
    using holds_claims [OF inv held] out by (auto simp: claims_def)
  then obtain i where "inode_of s key = Some i"
    using lock_inv_claim [OF inv] by blast
  then obtain s' where s': "lock_step (ReleaseLock p key) s = Some s'"
    "s' = with_proc p (\<lambda>pr. pr\<lparr>pr_held := AList.delete key (pr_held pr)\<rparr>) (unlock i s)"
    using c out by simp
  have "\<not> claims s' q key fd" for q fd
    by (rule owner_gone_frees [OF inv held lock_step_keeps_inv [OF inv s'(1)]])
      (use out in \<open>simp_all add: s'(2) claims_def delete_conv'\<close>)
  then show ?thesis
    using s'(1) by blast
qed

lemma crash_frees:
  assumes inv: "lock_inv s" and held: "holds s p key"
  shows "\<exists>s'. lock_step (Crash p) s = Some s' \<and> (\<forall>q fd. \<not> claims s' q key fd)"
proof -
  have alive: "pr_alive (lk_procs s p)"
    using holds_claims [OF inv held] by (auto simp: claims_def)
  then obtain s' where s': "lock_step (Crash p) s = Some s'"
    "s' = with_proc p (\<lambda>pr. pr\<lparr>pr_alive := False, pr_held := [], pr_stand := Outside\<rparr>)
       (s\<lparr>lk_flock := filter (\<lambda>(ino, own). fst own \<noteq> p) (lk_flock s)\<rparr>)"
    by simp
  have "\<not> claims s' q key fd" for q fd
    by (rule owner_gone_frees [OF inv held lock_step_keeps_inv [OF inv s'(1)]]) (simp_all add: s'(2) claims_def)
  then show ?thesis
    using s'(1) by blast
qed

text \<open>C33. In every reachable state at most one process holds the lock of a path. A process at its \<open>flock\<close>
  gets the lock exactly if nobody holds it or is registering it, and a holder that releases the lock or
  dies leaves nobody with a claim to it: a crash never strands a lock.\<close>

theorem lock_exclusive:
  assumes "reachable s"
  shows "(holds s p key \<longrightarrow> holds s q key \<longrightarrow> p = q) \<and>
    (\<forall>fd. pr_stand (lk_procs s p) = Opened key fd \<longrightarrow>
      (\<exists>s'. lock_step (TryFlock p) s = Some s' \<and>
        pr_stand (lk_procs s' p) = (if \<exists>q fd. claims s q key fd then Outside else Flocked key fd))) \<and>
    (holds s p key \<longrightarrow> pr_stand (lk_procs s p) = Outside \<longrightarrow>
      (\<exists>s'. lock_step (ReleaseLock p key) s = Some s' \<and> (\<forall>q fd. \<not> claims s' q key fd))) \<and>
    (holds s p key \<longrightarrow> (\<exists>s'. lock_step (Crash p) s = Some s' \<and> (\<forall>q fd. \<not> claims s' q key fd)))"
proof -
  note inv = reachable_inv [OF assms]
  have "holds s p key \<longrightarrow> holds s q key \<longrightarrow> p = q"
    using holds_claims [OF inv] claims_unique [OF inv] by blast
  then show ?thesis
    using try_answers [OF inv] release_frees [OF inv] crash_frees [OF inv] by blast
qed

text \<open>Process 1 holds the lock when process 2 tries it; process 2 is refused.\<close>

definition demo_locks :: locks where
  "demo_locks = the (lock_run [OpenLock 1 [7], OpenLock 2 [7], TryFlock 1, WritePid 1] no_locks)"

lemma demo_locks_value:
  "lock_run [OpenLock 1 [7], OpenLock 2 [7], TryFlock 1, WritePid 1] no_locks = Some demo_locks \<and>
   holds demo_locks 1 [7] \<and> pr_stand (lk_procs demo_locks 2) = Opened [7] 0 \<and>
   claims demo_locks 1 [7] 0"
  by (simp add: demo_locks_def no_locks_def with_proc_def inode_of_def holds_def claims_def Let_def)

theorem lock_exclusive_witness:
  "holds demo_locks 1 [7] \<and> \<not> holds demo_locks 2 [7] \<and>
   (\<exists>s'. lock_step (TryFlock 2) demo_locks = Some s' \<and> pr_stand (lk_procs s' 2) = Outside)"
proof -
  have r: "reachable demo_locks"
    using reachable_lock_run [OF reachable.start] demo_locks_value by blast
  have "\<exists>q fd. claims demo_locks q [7] fd"
    using demo_locks_value by blast
  then show ?thesis
    using lock_exclusive [OF r, of 1 "[7]" 2] lock_exclusive [OF r, of 2 "[7]" 1] demo_locks_value by simp
qed

end
