(* ===== verification/Sidecars.thy ===== *)
theory Sidecars
  imports Pull Scan
begin

text \<open>
  Conflict copies on the local disk: where they are looked for and what each belongs to
  (\<open>_find_conflict_files\<close> of \<open>resolveflow.py\<close> with the rename of the copies from before the inversion), and
  the retention that removes old ones (\<open>_gc_old_conflict_files\<close> of \<open>retention.py\<close>). The disk is the one of
  the pull; a link to a folder is not entered, as a walk does not enter it, and two names are two files.
  The law: retention removes only what another file still holds.
\<close>

section \<open>The folders that are searched\<close>

definition present :: "ltree \<Rightarrow> path \<Rightarrow> bool" where
  "present L p \<longleftrightarrow> dir_at L p \<or> content L p \<noteq> None"

definition synced_scan_dirs :: "walk_cfg \<Rightarrow> path \<Rightarrow> ltree \<Rightarrow> path list" where
  "synced_scan_dirs src base L =
     (if sc_type src = u ''claude'' then
        (let projects = base @ [u ''projects''] in
         if \<not> present L projects then []
         else concat (map (\<lambda>project. filter (present L) (map (\<lambda>sub. project @ [sub]) SYNCED_SUBDIRS))
                (filter (dir_at L) (siblings L projects))))
      else if sc_type src = u ''muse'' then filter (dir_at L) (map (\<lambda>sub. base @ [sub]) MUSE_SYNCED_SUBDIRS)
      else filter (present L) (map (local_path base) (sc_dirs src)))"

definition rglob :: "ltree \<Rightarrow> path \<Rightarrow> path list" where
  "rglob L dir = filter (\<lambda>p. length dir < length p \<and> take (length dir) p = dir \<and> contains (last p) CONFLICT_INFIX) (dkeys L)"

definition sidecar_owner :: "path \<Rightarrow> path option" where
  "sidecar_owner p = map_option (\<lambda>name. butlast p @ [name]) (canonical_for_conflict (last p))"

section \<open>The migration of a name\<close>

text \<open>What a rename of a file or link does; \<open>rn\<close> tells which renames the system allows.\<close>

definition rename_entry :: "(path \<Rightarrow> path \<Rightarrow> bool) \<Rightarrow> path \<Rightarrow> path \<Rightarrow> ltree \<Rightarrow> ltree option" where
  "rename_entry rn p q L =
     (case map_of L p of
        None \<Rightarrow> None
      | Some e \<Rightarrow>
          if \<not> rn p q \<or> dir_at L q \<or> e = LDir then None
          else if p = q then Some L
          else Some (AList.update q e (AList.delete p L)))"

definition migrate_conflict :: "(path \<Rightarrow> path \<Rightarrow> bool) \<Rightarrow> int option \<Rightarrow> path \<Rightarrow> ltree \<Rightarrow> path \<times> ltree" where
  "migrate_conflict rn marker_ts p L =
     (let name = migrate_pre_inversion_conflict marker_ts (\<lambda>n. present L (butlast p @ [n]))
            (\<lambda>n. rename_entry rn p (butlast p @ [n]) L \<noteq> None) (last p);
          q = butlast p @ [name]
      in if name = last p then (p, L) else (q, the (rename_entry rn p q L)))"

section \<open>Discovery\<close>

record hit =
  hit_source :: pystr
  hit_path :: path
  hit_canonical :: "path option"

record finding =
  fd_tree :: ltree
  fd_seen :: "(pystr \<times> path) list"
  fd_hits :: "hit list"

definition try_add :: "pystr \<Rightarrow> path \<Rightarrow> path option \<Rightarrow> finding \<Rightarrow> finding" where
  "try_add name p canonical f =
     (if (name, p) \<in> set (fd_seen f) then f
      else f\<lparr>fd_seen := (name, p) # fd_seen f,
             fd_hits := fd_hits f @ [\<lparr>hit_source = name, hit_path = p, hit_canonical = canonical\<rparr>]\<rparr>)"

text \<open>The options of a search: the probes of the system, and whether names are migrated, with what the
  marker file says then.\<close>

record finder =
  fr_io :: io
  fr_rename :: "path \<Rightarrow> path \<Rightarrow> bool"
  fr_migrate :: bool
  fr_marker :: "int option"

definition maybe_migrate :: "finder \<Rightarrow> path \<Rightarrow> finding \<Rightarrow> path \<times> finding" where
  "maybe_migrate fr p f =
     (if fr_migrate fr then
        (case migrate_conflict (fr_rename fr) (fr_marker fr) p (fd_tree f) of (q, L) \<Rightarrow> (q, f\<lparr>fd_tree := L\<rparr>))
      else (p, f))"

definition regular_sidecar :: "finder \<Rightarrow> path \<Rightarrow> finding \<Rightarrow> bool" where
  "regular_sidecar fr p f \<longleftrightarrow> is_conflict_filename (last p) \<and> io_stat (fr_io fr) p \<and> content (fd_tree f) p \<noteq> None"

definition scan_step :: "finder \<Rightarrow> pystr \<Rightarrow> path \<Rightarrow> finding \<Rightarrow> finding" where
  "scan_step fr name p f =
     (if \<not> regular_sidecar fr p f then f
      else
        (case maybe_migrate fr p f of
           (q, f) \<Rightarrow>
             (case sidecar_owner q of
                None \<Rightarrow> try_add name q None f
              | Some canonical \<Rightarrow> try_add name q (if present (fd_tree f) canonical then Some canonical else None) f)))"

definition sibling_step :: "finder \<Rightarrow> pystr \<Rightarrow> path \<Rightarrow> path \<Rightarrow> finding \<Rightarrow> finding" where
  "sibling_step fr name canonical p f =
     (if sidecar_owner p \<noteq> Some canonical \<or> \<not> regular_sidecar fr p f then f
      else
        (case maybe_migrate fr p f of
           (q, f) \<Rightarrow> try_add name q (if present (fd_tree f) canonical then Some canonical else None) f))"

definition find_in_source :: "finder \<Rightarrow> walk_cfg \<times> path \<Rightarrow> finding \<Rightarrow> finding" where
  "find_in_source fr src_base f =
     (case src_base of
        (src, base) \<Rightarrow>
          if \<not> present (fd_tree f) base then f
          else
            (let name = sc_name src;
                 f = fold (\<lambda>dir f. fold (scan_step fr name) (rglob (fd_tree f) dir) f) (synced_scan_dirs src base (fd_tree f)) f
             in fold (\<lambda>file f.
                  let canonical = local_path base file; parent = butlast canonical
                  in if \<not> present (fd_tree f) parent then f
                     else fold (sibling_step fr name canonical)
                            (filter (\<lambda>p. contains (last p) CONFLICT_INFIX) (siblings (fd_tree f) parent)) f)
                (sc_files src) f))"

definition find_conflict_files :: "finder \<Rightarrow> (walk_cfg \<times> path) list \<Rightarrow> ltree \<Rightarrow> hit list \<times> ltree" where
  "find_conflict_files fr sources L =
     (let f = fold (find_in_source fr) sources \<lparr>fd_tree = L, fd_seen = [], fd_hits = []\<rparr>
      in (fd_hits f, fd_tree f))"

section \<open>Retention of conflict copies\<close>

definition CONFLICT_AGE_DAYS :: int where
  "CONFLICT_AGE_DAYS = 30"

definition is_live_conflict :: "io \<Rightarrow> (bytes \<Rightarrow> pystr) \<Rightarrow> ltree \<Rightarrow> path \<Rightarrow> path option \<Rightarrow> bool" where
  "is_live_conflict io sha L cpath canonical =
     (case canonical of
        None \<Rightarrow> True
      | Some p \<Rightarrow>
          if \<not> io_stat io p \<or> content L p = None then True
          else
            (case (read_file io L p, read_file io L cpath) of
               (Some a, Some b) \<Rightarrow> sha a \<noteq> sha b
             | _ \<Rightarrow> True))"

text \<open>One copy: skipped, left alone as young, or a candidate.\<close>

datatype verdict = SkipCopy | YoungCopy | ReapCopy

definition judge_copy :: "io \<Rightarrow> (bytes \<Rightarrow> pystr) \<Rightarrow> int \<Rightarrow> ltree \<Rightarrow> hit \<Rightarrow> verdict" where
  "judge_copy io sha now L h =
     (case parse_conflict_created_at (last (hit_path h)) of
        None \<Rightarrow> SkipCopy
      | Some created \<Rightarrow>
          if is_pre_inversion_conflict_filename (last (hit_path h)) then SkipCopy
          else if instant_of created \<ge> now - CONFLICT_AGE_DAYS * 86400 * 1000000 then YoungCopy
          else if is_live_conflict io sha L (hit_path h) (hit_canonical h) then SkipCopy
          else ReapCopy)"

definition unlinkable :: "io \<Rightarrow> path \<Rightarrow> ltree \<Rightarrow> bool" where
  "unlinkable io p L \<longleftrightarrow> io_unlink io p \<and> map_of L p \<noteq> None"

fun reap_conflicts :: "io \<Rightarrow> (bytes \<Rightarrow> pystr) \<Rightarrow> int \<Rightarrow> bool \<Rightarrow> hit list \<Rightarrow> reap_outcome \<Rightarrow> ltree \<Rightarrow> reap_outcome \<times> ltree" where
  "reap_conflicts io sha now dry_run [] r L = (r, L)"
| "reap_conflicts io sha now dry_run (h # hs) r L =
     (case judge_copy io sha now L h of
        SkipCopy \<Rightarrow> reap_conflicts io sha now dry_run hs (r\<lparr>re_skipped := re_skipped r + 1\<rparr>) L
      | YoungCopy \<Rightarrow> reap_conflicts io sha now dry_run hs r L
      | ReapCopy \<Rightarrow>
          (let r = r\<lparr>re_candidates := re_candidates r + 1\<rparr> in
           if dry_run then reap_conflicts io sha now dry_run hs r L
           else if unlinkable io (hit_path h) L
           then reap_conflicts io sha now dry_run hs (r\<lparr>re_deleted := re_deleted r + 1\<rparr>) (AList.delete (hit_path h) L)
           else reap_conflicts io sha now dry_run hs (r\<lparr>re_failed := re_failed r + 1\<rparr>) L))"

text \<open>The search does not migrate; one that fails is a skip.\<close>

definition gc_old_conflict_files ::
  "io \<Rightarrow> (bytes \<Rightarrow> pystr) \<Rightarrow> int \<Rightarrow> bool \<Rightarrow> bool \<Rightarrow> (walk_cfg \<times> path) list \<Rightarrow> ltree \<Rightarrow> reap_outcome \<times> ltree" where
  "gc_old_conflict_files io sha now dry_run search_fails sources L =
     (if search_fails then (reaped 0 0 0 1, L)
      else
        (let hits = fst (find_conflict_files \<lparr>fr_io = io, fr_rename = (\<lambda>_ _. False), fr_migrate = False, fr_marker = None\<rparr> sources L)
         in reap_conflicts io sha now dry_run hits (reaped 0 0 0 0) L))"

section \<open>What a search finds\<close>

lemma conflict_has_infix: "is_conflict_filename name \<Longrightarrow> contains name CONFLICT_INFIX"
  unfolding is_conflict_iff contains_iff by blast

lemma owner_elsewhere:
  "p \<noteq> [] \<Longrightarrow> is_conflict_filename (last p) \<Longrightarrow> sidecar_owner p = Some c \<Longrightarrow> c \<noteq> p"
proof
  assume p: "p \<noteq> []" "is_conflict_filename (last p)" "sidecar_owner p = Some c" "c = p"
  then obtain z where z: "canonical_for_conflict (last p) = Some z" "c = butlast p @ [z]"
    by (auto simp: sidecar_owner_def)
  then have "last p = z"
    using p(4) last_snoc [of "butlast p" z] by simp
  then show False
    using canonical_shorter [OF conflict_has_infix [OF p(2)] z(1)] by simp
qed

definition good_hit :: "ltree \<Rightarrow> hit \<Rightarrow> bool" where
  "good_hit L h \<longleftrightarrow> hit_path h \<noteq> [] \<and> is_conflict_filename (last (hit_path h)) \<and> content L (hit_path h) \<noteq> None \<and>
     (\<forall>c. hit_canonical h = Some c \<longrightarrow> sidecar_owner (hit_path h) = Some c \<and> present L c)"

definition quiet :: "ltree \<Rightarrow> finding \<Rightarrow> bool" where
  "quiet L f \<longleftrightarrow> fd_tree f = L \<and> (\<forall>h \<in> set (fd_hits f). good_hit L h)"

lemma quietD: "quiet L f \<Longrightarrow> fd_tree f = L"
  by (simp add: quiet_def)

lemma quiet_try_add:
  "quiet L f \<Longrightarrow> good_hit L \<lparr>hit_source = n, hit_path = p, hit_canonical = c\<rparr> \<Longrightarrow> quiet L (try_add n p c f)"
  by (auto simp: quiet_def try_add_def)

lemma fold_keeps: "(\<And>x s. x \<in> set xs \<Longrightarrow> P s \<Longrightarrow> P (g x s)) \<Longrightarrow> P s \<Longrightarrow> P (fold g xs s)"
  by (induction xs arbitrary: s) auto

lemma quiet_steps:
  assumes "\<not> fr_migrate fr" and "quiet L f" and "p \<noteq> []"
  shows "quiet L (scan_step fr name p f)" "quiet L (sibling_step fr name c p f)"
  using assms quietD [OF assms(2)]
  by (auto simp: scan_step_def sibling_step_def maybe_migrate_def regular_sidecar_def good_hit_def
      intro!: quiet_try_add split: option.splits)

lemma quiet_source:
  assumes "\<not> fr_migrate fr" and "quiet L f"
  shows "quiet L (find_in_source fr sb f)"
  using assms
  by (auto simp: find_in_source_def Let_def rglob_def siblings_def split: prod.splits
      intro!: fold_keeps [where P = "quiet L"] quiet_steps)

lemma search_keeps_disk:
  assumes "\<not> fr_migrate fr" and "find_conflict_files fr sources L = (hits, L')"
  shows "L' = L \<and> (\<forall>h \<in> set hits. good_hit L h)"
proof -
  have "quiet L (fold (find_in_source fr) sources \<lparr>fd_tree = L, fd_seen = [], fd_hits = []\<rparr>)"
    by (rule fold_keeps [where P = "quiet L"]) (use assms in \<open>simp_all add: quiet_source, simp add: quiet_def\<close>)
  then show ?thesis
    using assms(2) by (auto simp: find_conflict_files_def Let_def quiet_def)
qed

section \<open>Retention loses nothing\<close>

definition old_copy :: "int \<Rightarrow> path \<Rightarrow> bool" where
  "old_copy now p \<longleftrightarrow> is_conflict_filename (last p) \<and> \<not> is_pre_inversion_conflict_filename (last p) \<and>
     (\<exists>c. parse_conflict_created_at (last p) = Some c \<and> instant_of c + CONFLICT_AGE_DAYS * 86400 * 1000000 < now)"

text \<open>What a retention run may do to the disk: remove old copies whose bytes another file still has.\<close>

definition thinned :: "int \<Rightarrow> ltree \<Rightarrow> ltree \<Rightarrow> bool" where
  "thinned now L L' \<longleftrightarrow>
     (\<forall>p. map_of L' p = map_of L p \<or> map_of L' p = None \<and> old_copy now p) \<and>
     (\<forall>p d t. map_of L p = Some (LFile d t) \<longrightarrow> (\<exists>q t'. map_of L' q = Some (LFile d t')))"

lemma thinned_refl: "thinned now L L"
  by (auto simp: thinned_def)

lemma thinned_trans: "thinned now L M \<Longrightarrow> thinned now M L' \<Longrightarrow> thinned now L L'"
  unfolding thinned_def by metis

lemma thinned_content: "thinned now L L' \<Longrightarrow> content L' p = Some d \<Longrightarrow> content L p = Some d"
  unfolding thinned_def content_def by (metis option.case(1) option.distinct(1))

lemma thinned_link: "thinned now L L' \<Longrightarrow> is_link L' p \<Longrightarrow> is_link L p"
  unfolding thinned_def is_link_def by (metis option.case(1))

lemma reap_one:
  assumes judged: "judge_copy io sha now L h = ReapCopy"
    and hit: "hit_path h \<noteq> []" "is_conflict_filename (last (hit_path h))"
    and owner: "\<And>c. hit_canonical h = Some c \<Longrightarrow> sidecar_owner (hit_path h) = Some c \<and> \<not> is_link L c"
    and inj: "inj_on sha {d. \<exists>p. content L p = Some d}"
  shows "thinned now L (AList.delete (hit_path h) L)"
proof -
  let ?p = "hit_path h"
  have old: "old_copy now ?p" and live: "\<not> is_live_conflict io sha L ?p (hit_canonical h)"
    using judged hit(2) by (auto simp: judge_copy_def old_copy_def split: option.splits if_splits)
  then obtain c a b where c: "hit_canonical h = Some c" "content L c = Some a" "content L ?p = Some b" "sha a = sha b"
    by (auto simp: is_live_conflict_def read_file_def split: option.splits if_splits)
  have ab: "a = b"
    using inj c by (auto simp: inj_on_def)
  have ne: "c \<noteq> ?p"
    using owner_elsewhere [OF hit] owner c(1) by blast
  obtain t where t: "map_of L c = Some (LFile a t)"
    using c(1,2) owner by (auto simp: content_def is_link_def split: option.splits lentry.splits)
  have "\<exists>q t'. map_of (AList.delete ?p L) q = Some (LFile d t')" if "map_of L q = Some (LFile d t')" for q d t'
  proof (cases "q = ?p")
    case True
    then have "d = a"
      using that c(3) ab by (simp add: content_def)
    then show ?thesis
      using t ne by (intro exI [of _ c] exI [of _ t]) (simp add: delete_conv')
  next
    case False
    then show ?thesis
      using that by (intro exI [of _ q] exI [of _ t']) (simp add: delete_conv')
  qed
  then show ?thesis
    using old by (auto simp: thinned_def delete_conv')
qed

definition reapable :: "hit list \<Rightarrow> ltree \<Rightarrow> bool" where
  "reapable hits L \<longleftrightarrow> (\<forall>h \<in> set hits. hit_path h \<noteq> [] \<and> is_conflict_filename (last (hit_path h)) \<and>
     (\<forall>c. hit_canonical h = Some c \<longrightarrow> sidecar_owner (hit_path h) = Some c \<and> \<not> is_link L c))"

lemma reap_conflicts_thins:
  assumes "reapable hits L" and "inj_on sha {d. \<exists>p. content L p = Some d}"
  shows "thinned now L (snd (reap_conflicts io sha now dry_run hits r L)) \<and>
    (dry_run \<longrightarrow> snd (reap_conflicts io sha now dry_run hits r L) = L)"
  using assms
proof (induction hits arbitrary: r L)
  case (Cons h hs)
  have hs: "reapable hs L"
    using Cons.prems(1) by (simp add: reapable_def)
  show ?case
  proof (cases "judge_copy io sha now L h = ReapCopy \<and> \<not> dry_run \<and> unlinkable io (hit_path h) L")
    case True
    let ?M = "AList.delete (hit_path h) L"
    have m: "thinned now L ?M"
      using True Cons.prems by (intro reap_one) (auto simp: reapable_def)
    have "reapable hs ?M"
      using hs thinned_link [OF m] by (auto simp: reapable_def)
    moreover have "inj_on sha {d. \<exists>p. content ?M p = Some d}"
      by (rule inj_on_subset [OF Cons.prems(2)]) (use thinned_content [OF m] in blast)
    ultimately show ?thesis
      using True Cons.IH [of ?M] thinned_trans [OF m] by (simp add: Let_def)
  next
    case False
    then show ?thesis
      using Cons.IH [OF hs Cons.prems(2)] thinned_refl [of now L] by (auto simp: Let_def split: verdict.splits)
  qed
qed (simp add: thinned_refl)

lemma reap_conflicts_counts:
  "case reap_conflicts io sha now dry_run hits r L of (r', L') \<Rightarrow>
     if dry_run then re_deleted r' = re_deleted r \<and> re_failed r' = re_failed r
     else re_candidates r' + re_deleted r + re_failed r = re_candidates r + re_deleted r' + re_failed r'"
proof (induction hits arbitrary: r L)
  case (Cons h hs)
  let ?r = "r\<lparr>re_candidates := re_candidates r + 1\<rparr>"
  show ?case
    using Cons.IH [of "r\<lparr>re_skipped := re_skipped r + 1\<rparr>" L] Cons.IH [of r L] Cons.IH [of ?r L]
      Cons.IH [of "?r\<lparr>re_deleted := re_deleted r + 1\<rparr>" "AList.delete (hit_path h) L"]
      Cons.IH [of "?r\<lparr>re_failed := re_failed r + 1\<rparr>" L]
    by (cases "judge_copy io sha now L h"; cases dry_run) (auto simp: Let_def split: prod.splits)
qed simp

lemma judge_later: "thinned now' L L' \<Longrightarrow> judge_copy io sha now L' h = ReapCopy \<Longrightarrow> judge_copy io sha now L h = ReapCopy"
  using thinned_content [of now' L L']
  by (fastforce simp: judge_copy_def is_live_conflict_def read_file_def split: option.splits if_splits)

lemma reap_conflicts_all:
  assumes "reapable hits L" and "inj_on sha {d. \<exists>p. content L p = Some d}" and "\<forall>p. io_unlink io p"
  shows "\<forall>h \<in> set hits. let L' = snd (reap_conflicts io sha now False hits r L)
    in map_of L' (hit_path h) = None \<or> judge_copy io sha now L' h \<noteq> ReapCopy"
  using assms(1,2)
proof (induction hits arbitrary: r L)
  case (Cons h hs)
  let ?out = "\<lambda>hits r L. snd (reap_conflicts io sha now False hits r L)"
  have hs: "reapable hs L"
    using Cons.prems(1) by (simp add: reapable_def)
  show ?case
  proof (cases "judge_copy io sha now L h = ReapCopy \<and> unlinkable io (hit_path h) L")
    case True
    let ?M = "AList.delete (hit_path h) L"
    have m: "thinned now L ?M"
      using True Cons.prems by (intro reap_one) (auto simp: reapable_def)
    have hs': "reapable hs ?M" "inj_on sha {d. \<exists>p. content ?M p = Some d}"
      using hs thinned_link [OF m] by (auto simp: reapable_def)
        (rule inj_on_subset [OF Cons.prems(2)], use thinned_content [OF m] in blast)
    obtain r' where r': "?out (h # hs) r L = ?out hs r' ?M"
      using True by (simp add: Let_def)
    have "map_of (?out hs r' ?M) (hit_path h) = None"
      using reap_conflicts_thins [OF hs'] by (simp add: thinned_def delete_conv') metis
    then show ?thesis
      using Cons.IH [OF hs', of r'] r' by (simp add: Let_def)
  next
    case False
    then obtain r' where r': "?out (h # hs) r L = ?out hs r' L"
      by (cases "judge_copy io sha now L h") (auto simp: Let_def)
    have t: "thinned now L (?out hs r' L)"
      using reap_conflicts_thins [OF hs Cons.prems(2)] by blast
    have "map_of (?out hs r' L) (hit_path h) = None \<or> judge_copy io sha now (?out hs r' L) h \<noteq> ReapCopy"
    proof (cases "judge_copy io sha now L h = ReapCopy")
      case True
      then have "map_of L (hit_path h) = None"
        using False assms(3) by (simp add: unlinkable_def)
      then show ?thesis
        using t by (simp add: thinned_def) metis
    next
      case False
      then show ?thesis
        using judge_later [OF t] by blast
    qed
    then show ?thesis
      using Cons.IH [OF hs Cons.prems(2), of r'] r' by (simp add: Let_def)
  qed
qed simp


text \<open>Two copies of a note: one converged, one that differs.\<close>

definition notes_path :: "string \<Rightarrow> path" where
  "notes_path name = [u ''home'', u ''notes'', u name]"

definition notes_disk :: ltree where
  "notes_disk = [([u ''home''], LDir), ([u ''home'', u ''notes''], LDir), (notes_path ''a.md'', LFile [1] 5),
     (notes_path ''a.sync-conflict-20260501-000000-v1-abcd1234.md'', LFile [1] 7),
     (notes_path ''a.sync-conflict-20260502-000000-v1-abcd1234.md'', LFile [2] 8)]"

definition notes_source :: "walk_cfg \<times> path" where
  "notes_source = (\<lparr>sc_name = u ''notes'', sc_type = u ''generic'', sc_path = u ''/home'', sc_exclude = [],
     sc_include = [], sc_dirs = [u ''notes''], sc_files = []\<rparr>, [u ''home''])"

definition notes_now :: int where
  "notes_now = instant_of \<lparr>c_year = 2026, c_month = 8, c_day = 1, c_hour = 0, c_minute = 0, c_second = 0, c_micro = 0\<rparr>"

definition byte_sum :: "bytes \<Rightarrow> pystr" where
  "byte_sum d = map uint d"

lemma byte_sum_inj: "inj byte_sum"
proof -
  have "inj (uint :: 8 word \<Rightarrow> int)"
    by (rule injI) (rule word_uint_eqI)
  then show ?thesis
    by (auto simp: byte_sum_def inj_def)
qed

definition notes_gc :: "reap_outcome \<times> ltree" where
  "notes_gc = gc_old_conflict_files pull_io byte_sum notes_now False False [notes_source] notes_disk"

lemma notes_gc_value:
  "re_deleted (fst notes_gc) = 1 \<and> re_skipped (fst notes_gc) = 1 \<and> re_failed (fst notes_gc) = 0 \<and>
   map_of (snd notes_gc) (notes_path ''a.sync-conflict-20260501-000000-v1-abcd1234.md'') = None"
  by code_simp


end
