(* ===== verification/Resolve.thy ===== *)
theory Resolve
  imports Sidecars LcsMerge
begin

text \<open>
  The interactive resolution of conflicts, \<open>_resolve_interactive_loop\<close> of \<open>resolveflow.py\<close>: one prompt per
  conflict copy and what each reply does to the disk. What is printed is left out; a reply is the text
  after \<open>strip\<close> and \<open>lower\<close>, the empty one the default, and the end of the input aborts, as in typer.
  The laws: only the conflict's own files change, and content leaves the disk only where a reply gives
  it up.
\<close>

section \<open>Promotion to a name of its own\<close>

record resolve_env =
  rv_apply :: apply_env
  rv_rename :: "path \<Rightarrow> path \<Rightarrow> bool"
  rv_link :: "path \<Rightarrow> path \<Rightarrow> bool"
  rv_now :: "path \<Rightarrow> civil"
  rv_hex :: "path \<Rightarrow> nat \<Rightarrow> pystr"
  rv_replies :: "path \<Rightarrow> pystr list"

definition promote_target_path :: "ltree \<Rightarrow> path \<Rightarrow> bool \<Rightarrow> pystr option \<Rightarrow> civil \<Rightarrow> pystr \<Rightarrow> path" where
  "promote_target_path L canonical is_pre_inversion peer_short now hex =
     (let ts = strftime_stamp now; stem = py_stem (last canonical); suffix = py_suffix (last canonical);
          short = (case peer_short of None \<Rightarrow> u ''unknown'' | Some s \<Rightarrow> if s = [] then u ''unknown'' else s);
          base_name = (if is_pre_inversion then stem @ u ''.local-'' @ ts else stem @ u ''.from-'' @ short @ u ''-'' @ ts);
          target = butlast canonical @ [base_name @ suffix]
      in if present L target then butlast canonical @ [base_name @ u ''-'' @ hex @ suffix] else target)"

text \<open>\<open>os.link\<close> refuses a name that is taken, by whatever; the second try has a name of its own.\<close>

definition link_entry :: "(path \<Rightarrow> path \<Rightarrow> bool) \<Rightarrow> path \<Rightarrow> path \<Rightarrow> ltree \<Rightarrow> ltree option" where
  "link_entry ln p q L =
     (case map_of L p of
        None \<Rightarrow> None
      | Some e \<Rightarrow> if e = LDir \<or> map_of L q \<noteq> None \<or> \<not> ln p q then None else Some (AList.update q e L))"

definition promote_conflict_file :: "resolve_env \<Rightarrow> path \<Rightarrow> path \<Rightarrow> ltree \<Rightarrow> path option \<times> ltree" where
  "promote_conflict_file rv cpath target L =
     (let other = butlast target @ [py_stem (last target) @ u ''-'' @ rv_hex rv cpath 1 @ py_suffix (last target)];
          target = (if map_of L target = None then target else other)
      in case link_entry (rv_link rv) cpath target L of
           None \<Rightarrow> (None, L)
         | Some L' \<Rightarrow>
             if io_unlink (ae_io (rv_apply rv)) cpath then (Some target, AList.delete cpath L') else (None, L'))"

section \<open>One conflict\<close>

datatype resolve_stop = ExitOne | AbortAll

datatype tally = Settled | Troubled | LeftAlone

type_synonym resolve_out = "(resolve_stop + tally) \<times> ltree"

definition is_reply :: "pystr \<Rightarrow> string \<Rightarrow> string \<Rightarrow> bool" where
  "is_reply reply short long \<longleftrightarrow> reply = u short \<or> reply = u long"

definition or_default :: "pystr \<Rightarrow> pystr" where
  "or_default reply = (if reply = [] then u ''s'' else reply)"

definition moved :: "ltree \<Rightarrow> ltree option \<Rightarrow> resolve_out" where
  "moved L r = (case r of None \<Rightarrow> (Inr Troubled, L) | Some L' \<Rightarrow> (Inr Settled, L'))"

definition removed :: "io \<Rightarrow> path \<Rightarrow> ltree \<Rightarrow> ltree option" where
  "removed io p L = (if unlinkable io p L then Some (AList.delete p L) else None)"

text \<open>A copy whose canonical file was not there when the search ran.\<close>

definition resolve_orphan :: "resolve_env \<Rightarrow> path \<Rightarrow> ltree \<Rightarrow> resolve_out" where
  "resolve_orphan rv cpath L =
     (case rv_replies rv cpath of
        [] \<Rightarrow> (Inl AbortAll, L)
      | reply # _ \<Rightarrow>
          (let choice = or_default reply in
           if is_reply choice ''p'' ''promote'' then
             (case sidecar_owner cpath of
                None \<Rightarrow> (Inr Troubled, L)
              | Some target \<Rightarrow> moved L (rename_entry (rv_rename rv) cpath target L))
           else if is_reply choice ''d'' ''delete'' then moved L (removed (ae_io (rv_apply rv)) cpath L)
           else (Inr LeftAlone, L)))"

text \<open>The prompt of a pair: the newer side stands for the side that is newer, and asks again in a tie.\<close>

fun read_choice :: "side \<Rightarrow> pystr list \<Rightarrow> resolve_stop + pystr" where
  "read_choice nside [] = Inl AbortAll"
| "read_choice nside (reply # replies) =
     (let choice = or_default reply in
      if choice = u ''c'' \<or> choice = u ''f'' then Inl ExitOne
      else if is_reply choice ''n'' ''newer'' then
        (case nside of
           LocalSide \<Rightarrow> Inr (u ''l'')
         | RemoteSide \<Rightarrow> Inr (u ''r'')
         | _ \<Rightarrow> read_choice nside replies)
      else Inr choice)"

definition stat_or_epoch :: "apply_env \<Rightarrow> ltree \<Rightarrow> path \<Rightarrow> int" where
  "stat_or_epoch env L p = (case local_mtime env L p of None \<Rightarrow> EPOCH | Some t \<Rightarrow> t)"

definition bump :: "apply_env \<Rightarrow> path \<Rightarrow> int \<Rightarrow> ltree \<Rightarrow> ltree" where
  "bump env canonical peer_mtime = bump_canonical_mtime_post_resolve env (canonical, peer_mtime)"

definition keep_local :: "resolve_env \<Rightarrow> path \<Rightarrow> path \<Rightarrow> ltree \<Rightarrow> resolve_out" where
  "keep_local rv cpath canonical L =
     (let env = rv_apply rv; pre = is_pre_inversion_conflict_filename (last cpath);
          peer_mtime = stat_or_epoch env L (if pre then canonical else cpath)
      in moved L (map_option (bump env canonical peer_mtime)
           (if pre then rename_entry (rv_rename rv) cpath canonical L else removed (ae_io env) cpath L)))"

definition keep_remote :: "resolve_env \<Rightarrow> path \<Rightarrow> path \<Rightarrow> ltree \<Rightarrow> resolve_out" where
  "keep_remote rv cpath canonical L =
     moved L (if is_pre_inversion_conflict_filename (last cpath) then removed (ae_io (rv_apply rv)) cpath L
              else rename_entry (rv_rename rv) cpath canonical L)"

definition accept_merge :: "resolve_env \<Rightarrow> path \<Rightarrow> path \<Rightarrow> bytes option \<Rightarrow> ltree \<Rightarrow> resolve_out" where
  "accept_merge rv cpath canonical offered L =
     (let env = rv_apply rv in
      case offered of
        None \<Rightarrow> (Inr LeftAlone, L)
      | Some merged \<Rightarrow>
          (case atomic_write (ae_io env) L canonical merged (ae_now env) of
             None \<Rightarrow> (Inr Troubled, L)
           | Some L' \<Rightarrow> (Inr Settled, unlink (ae_io env) cpath L')))"

definition keep_both :: "resolve_env \<Rightarrow> path \<Rightarrow> path \<Rightarrow> ltree \<Rightarrow> resolve_out" where
  "keep_both rv cpath canonical L =
     (let env = rv_apply rv; pre = is_pre_inversion_conflict_filename (last cpath);
          peer_mtime = (if pre then EPOCH else stat_or_epoch env L cpath);
          target = promote_target_path L canonical pre (parse_conflict_device_short (last cpath)) (rv_now rv cpath)
                     (rv_hex rv cpath 0)
      in case promote_conflict_file rv cpath target L of
           (None, L') \<Rightarrow> (Inr Troubled, L')
         | (Some _, L') \<Rightarrow> (Inr Settled, if \<not> pre \<and> peer_mtime > EPOCH then bump env canonical peer_mtime L' else L'))"

definition local_side :: "path \<Rightarrow> path \<Rightarrow> path" where
  "local_side cpath canonical = (if is_pre_inversion_conflict_filename (last cpath) then cpath else canonical)"

definition remote_side :: "path \<Rightarrow> path \<Rightarrow> path" where
  "remote_side cpath canonical = (if is_pre_inversion_conflict_filename (last cpath) then canonical else cpath)"

definition pair_choice :: "resolve_env \<Rightarrow> path \<Rightarrow> path \<Rightarrow> ltree \<Rightarrow> resolve_stop + pystr" where
  "pair_choice rv cpath canonical L =
     read_choice (newer_side (local_mtime (rv_apply rv) L (local_side cpath canonical))
                             (local_mtime (rv_apply rv) L (remote_side cpath canonical))) (rv_replies rv cpath)"

definition resolve_pair :: "resolve_env \<Rightarrow> path \<Rightarrow> path \<Rightarrow> ltree \<Rightarrow> resolve_out" where
  "resolve_pair rv cpath canonical L =
     (let io = ae_io (rv_apply rv) in
      case (read_file io L (local_side cpath canonical), read_file io L (remote_side cpath canonical)) of
        (Some local_bytes, Some remote_bytes) \<Rightarrow>
          (case pair_choice rv cpath canonical L of
             Inl stop \<Rightarrow> (Inl stop, L)
           | Inr choice \<Rightarrow>
               if is_reply choice ''l'' ''local'' then keep_local rv cpath canonical L
               else if is_reply choice ''r'' ''remote'' then keep_remote rv cpath canonical L
               else if is_reply choice ''m'' ''merge'' then
                 accept_merge rv cpath canonical (offered_merge local_bytes remote_bytes) L
               else if is_reply choice ''p'' ''promote'' then keep_both rv cpath canonical L
               else if is_reply choice ''a'' ''abort'' then (Inl AbortAll, L)
               else (Inr LeftAlone, L))
      | _ \<Rightarrow> (Inr Troubled, L))"

definition resolve_one :: "resolve_env \<Rightarrow> hit \<Rightarrow> ltree \<Rightarrow> resolve_out" where
  "resolve_one rv h L =
     (case hit_canonical h of
        None \<Rightarrow> resolve_orphan rv (hit_path h) L
      | Some canonical \<Rightarrow> resolve_pair rv (hit_path h) canonical L)"

text \<open>The walk: how it ended, what was resolved, what failed, and the disk.\<close>

fun resolve_interactive_loop :: "resolve_env \<Rightarrow> hit list \<Rightarrow> ltree \<Rightarrow> resolve_stop option \<times> nat \<times> nat \<times> ltree" where
  "resolve_interactive_loop rv [] L = (None, 0, 0, L)"
| "resolve_interactive_loop rv (h # hs) L =
     (case resolve_one rv h L of
        (Inl stop, L') \<Rightarrow> (Some stop, 0, 0, L')
      | (Inr out, L') \<Rightarrow>
          (case resolve_interactive_loop rv hs L' of
             (stop, resolved, failed, L'') \<Rightarrow>
               (stop, resolved + (if out = Settled then 1 else 0), failed + (if out = Troubled then 1 else 0), L'')))"

section \<open>What a step does to the contents\<close>

definition contents :: "ltree \<Rightarrow> bytes set" where
  "contents L = {d. \<exists>p. content L p = Some d}"

text \<open>The paths a conflict may touch besides a free one, and what its reply gives up.\<close>

definition own_paths :: "hit \<Rightarrow> path set" where
  "own_paths h = {hit_path h} \<union> set_option (hit_canonical h) \<union> set_option (sidecar_owner (hit_path h))"

definition given_up :: "resolve_env \<Rightarrow> hit \<Rightarrow> ltree \<Rightarrow> bytes set" where
  "given_up rv h L =
     (let cpath = hit_path h in
      case hit_canonical h of
        None \<Rightarrow>
          (case rv_replies rv cpath of
             [] \<Rightarrow> {}
           | reply # _ \<Rightarrow>
               if is_reply reply ''p'' ''promote'' then \<Union>target \<in> set_option (sidecar_owner cpath). set_option (content L target)
               else if is_reply reply ''d'' ''delete'' then set_option (content L cpath) else {})
      | Some canonical \<Rightarrow>
          (case pair_choice rv cpath canonical L of
             Inl _ \<Rightarrow> {}
           | Inr choice \<Rightarrow>
               if is_reply choice ''l'' ''local'' then set_option (content L (remote_side cpath canonical))
               else if is_reply choice ''r'' ''remote'' then set_option (content L (local_side cpath canonical))
               else if is_reply choice ''m'' ''merge'' then set_option (content L canonical) \<union> set_option (content L cpath)
               else {}))"

definition keeps_but :: "bytes set \<Rightarrow> path set \<Rightarrow> ltree \<Rightarrow> ltree \<Rightarrow> bool" where
  "keeps_but lost own L L' \<longleftrightarrow> contents L \<subseteq> contents L' \<union> lost \<and>
     (\<forall>p. p \<notin> own \<longrightarrow> map_of L p \<noteq> None \<longrightarrow> map_of L' p = map_of L p)"

lemma keeps_but_refl [simp]: "keeps_but lost own L L"
  by (simp add: keeps_but_def)

lemma keeps_but_mono: "keeps_but lost own L L' \<Longrightarrow> lost \<subseteq> lost' \<Longrightarrow> own \<subseteq> own' \<Longrightarrow> keeps_but lost' own' L L'"
  unfolding keeps_but_def by blast

lemma keeps_but_trans:
  "keeps_but lost own L M \<Longrightarrow> keeps_but lost' own' M L' \<Longrightarrow> keeps_but (lost \<union> lost') (own \<union> own') L L'"
  unfolding keeps_but_def by (intro conjI allI impI; force)

lemma content_bump [simp]: "content (bump env c t L) p = content L p"
  by (auto simp: bump_def bump_canonical_mtime_post_resolve_def content_def map_of_alist_update
      split: option.splits lentry.splits)

lemma bump_others: "p \<noteq> c \<Longrightarrow> map_of (bump env c t L) p = map_of L p"
  by (auto simp: bump_def bump_canonical_mtime_post_resolve_def map_of_alist_update split: option.splits lentry.splits)

lemma keeps_but_bump: "keeps_but lost own L L' \<Longrightarrow> c \<in> own \<Longrightarrow> keeps_but lost own L (bump env c t L')"
  unfolding keeps_but_def contents_def content_bump using bump_others by metis

lemma contentsI: "content L p = Some d \<Longrightarrow> d \<in> contents L"
  by (auto simp: contents_def)

lemma keeps_butI:
  assumes "\<And>p d. content L p = Some d \<Longrightarrow> d \<notin> lost \<Longrightarrow> \<exists>q. content L' q = Some d"
    and "\<And>p. p \<notin> own \<Longrightarrow> map_of L p \<noteq> None \<Longrightarrow> map_of L' p = map_of L p"
  shows "keeps_but lost own L L'"
  using assms unfolding keeps_but_def contents_def by blast

lemma rename_keeps:
  assumes "rename_entry rn p q L = Some L'"
  shows "keeps_but (set_option (content L q)) {p, q} L L'"
proof (cases "p = q")
  case True
  then show ?thesis
    using assms by (auto simp: rename_entry_def split: option.splits if_splits)
next
  case False
  then obtain e where e: "map_of L p = Some e" "L' = AList.update q e (AList.delete p L)"
    using assms by (auto simp: rename_entry_def split: option.splits if_splits)
  have at: "content L' x = (if x = q then content L p else if x = p then None else content L x)" for x
    using False e by (simp add: content_def map_of_alist_update delete_conv')
  show ?thesis
  proof (rule keeps_butI)
    fix x d
    assume x: "content L x = Some d" "d \<notin> set_option (content L q)"
    show "\<exists>y. content L' y = Some d"
    proof (cases "x = p")
      case True
      then show ?thesis
        using x at by (intro exI [of _ q]) simp
    next
      case False
      then show ?thesis
        using x at by (intro exI [of _ x]) auto
    qed
  next
    fix x
    assume "x \<notin> {p, q}"
    then show "map_of L' x = map_of L x"
      using e by (simp add: map_of_alist_update delete_conv')
  qed
qed

lemma removed_keeps:
  assumes "removed io p L = Some L'"
  shows "keeps_but (set_option (content L p)) {p} L L'"
proof (rule keeps_butI)
  have L': "L' = AList.delete p L"
    using assms by (auto simp: removed_def split: if_splits)
  fix x d
  assume x: "content L x = Some d" "d \<notin> set_option (content L p)"
  then have "x \<noteq> p"
    by auto
  then show "\<exists>y. content L' y = Some d"
    using x L' by (intro exI [of _ x]) (simp add: content_def delete_conv')
qed (use assms in \<open>auto simp: removed_def delete_conv' split: if_splits\<close>)

lemma unlink_keeps: "keeps_but (set_option (content L p)) {p} L (unlink io p L)"
  using removed_keeps [of io p L] by (cases "map_of L p") (auto simp: removed_def unlinkable_def unlink_def delete_id)

lemma link_keeps:
  assumes "link_entry ln p q L = Some L'"
  shows "keeps_but {} {} L L' \<and> content L' q = content L p \<and> p \<noteq> q \<and> content L' p = content L p"
proof -
  obtain e where e: "map_of L p = Some e" "map_of L q = None" "L' = AList.update q e L"
    using assms by (auto simp: link_entry_def split: option.splits if_splits)
  have "keeps_but {} {} L L'"
  proof (rule keeps_butI)
    fix x d
    assume x: "content L x = Some d"
    then have "x \<noteq> q"
      using e(2) by (auto simp: content_def)
    then show "\<exists>y. content L' y = Some d"
      using x e(3) by (intro exI [of _ x]) (simp add: content_def map_of_alist_update)
  qed (use e in \<open>auto simp: map_of_alist_update\<close>)
  then show ?thesis
    using e by (auto simp: content_def map_of_alist_update)
qed

lemma promote_keeps:
  assumes "promote_conflict_file rv cpath target L = (r, L')"
  shows "keeps_but {} {cpath} L L'"
proof -
  obtain q where q: "promote_conflict_file rv cpath target L =
      (case link_entry (rv_link rv) cpath q L of
           None \<Rightarrow> (None, L)
         | Some L' \<Rightarrow> if io_unlink (ae_io (rv_apply rv)) cpath then (Some q, AList.delete cpath L') else (None, L'))"
    by (auto simp: promote_conflict_file_def Let_def)
  show ?thesis
  proof (cases "link_entry (rv_link rv) cpath q L")
    case None
    then show ?thesis
      using assms q by auto
  next
    case (Some M)
    note m = link_keeps [OF Some]
    have M: "keeps_but {} {cpath} L M"
      using m keeps_but_mono by blast
    have del: "keeps_but {} {cpath} M (AList.delete cpath M)"
    proof (rule keeps_butI)
      fix x d
      assume x: "content M x = Some d"
      have "content M cpath = content M q"
        using m by simp
      then show "\<exists>y. content (AList.delete cpath M) y = Some d"
        using x m by (cases "x = cpath"; intro exI [of _ "if x = cpath then q else x"]) (auto simp: content_def delete_conv')
    qed (simp add: delete_conv')
    then show ?thesis
      using keeps_but_trans [OF M del] M assms q Some by (auto split: if_splits)
  qed
qed

lemma merge_keeps:
  assumes "accept_merge rv cpath canonical offered L = (r, L')"
  shows "keeps_but (if r = Inr Settled then set_option (content L canonical) \<union> set_option (content L cpath) else {})
    {cpath, canonical} L L'"
proof (cases "r = Inr Settled")
  case False
  then show ?thesis
    using assms by (auto simp: accept_merge_def Let_def split: option.splits)
next
  case True
  then obtain m t M where m: "atomic_write (ae_io (rv_apply rv)) L canonical m t = Some M"
    "L' = unlink (ae_io (rv_apply rv)) cpath M"
    using assms by (auto simp: accept_merge_def Let_def split: option.splits)
  then have M: "M = AList.update canonical (LFile m t) L"
    by (auto simp: atomic_write_def split: if_splits)
  have "keeps_but (set_option (content L canonical) \<union> set_option (content L cpath)) {cpath, canonical} L L'"
  proof (rule keeps_butI)
    fix x d
    assume x: "content L x = Some d" "d \<notin> set_option (content L canonical) \<union> set_option (content L cpath)"
    then have "x \<noteq> canonical" "x \<noteq> cpath"
      by auto
    then show "\<exists>y. content L' y = Some d"
      using x m(2) M by (intro exI [of _ x]) (simp add: unlink_def content_def map_of_alist_update delete_conv')
  qed (use m(2) M in \<open>simp add: unlink_def map_of_alist_update delete_conv'\<close>)
  then show ?thesis
    using True by simp
qed

lemma moved_keeps:
  assumes "moved L r = (out, L')" and "\<And>M. r = Some M \<Longrightarrow> keeps_but lost own L M"
  shows "keeps_but (if out = Inr Settled then lost else {}) own L L'"
  using assms by (auto simp: moved_def split: option.splits)

lemma keep_local_keeps:
  assumes "keep_local rv cpath canonical L = (r, L')"
  shows "keeps_but (if r = Inr Settled then set_option (content L (remote_side cpath canonical)) else {}) {cpath, canonical} L L'"
  unfolding remote_side_def
proof (rule moved_keeps)
  show "moved L (map_option (bump (rv_apply rv) canonical (stat_or_epoch (rv_apply rv) L
      (if is_pre_inversion_conflict_filename (last cpath) then canonical else cpath)))
      (if is_pre_inversion_conflict_filename (last cpath) then rename_entry (rv_rename rv) cpath canonical L
       else removed (ae_io (rv_apply rv)) cpath L)) = (r, L')"
    using assms by (simp add: keep_local_def Let_def)
  have "keeps_but (set_option (content L cpath)) {cpath, canonical} L N" if "removed (ae_io (rv_apply rv)) cpath L = Some N" for N
    using removed_keeps [OF that] keeps_but_mono by blast
  then show "keeps_but (set_option (content L (if is_pre_inversion_conflict_filename (last cpath) then canonical else cpath)))
      {cpath, canonical} L M"
    if "map_option (bump (rv_apply rv) canonical (stat_or_epoch (rv_apply rv) L
      (if is_pre_inversion_conflict_filename (last cpath) then canonical else cpath)))
      (if is_pre_inversion_conflict_filename (last cpath) then rename_entry (rv_rename rv) cpath canonical L
       else removed (ae_io (rv_apply rv)) cpath L) = Some M" for M
    using that rename_keeps [of "rv_rename rv" cpath canonical L]
    by (auto intro!: keeps_but_bump split: if_splits)
qed

lemma keep_remote_keeps:
  assumes "keep_remote rv cpath canonical L = (r, L')"
  shows "keeps_but (if r = Inr Settled then set_option (content L (local_side cpath canonical)) else {}) {cpath, canonical} L L'"
proof (rule moved_keeps [OF assms [unfolded keep_remote_def]])
  fix M
  assume "(if is_pre_inversion_conflict_filename (last cpath) then removed (ae_io (rv_apply rv)) cpath L
      else rename_entry (rv_rename rv) cpath canonical L) = Some M"
  then show "keeps_but (set_option (content L (local_side cpath canonical))) {cpath, canonical} L M"
    using rename_keeps [of "rv_rename rv" cpath canonical L M] removed_keeps [of "ae_io (rv_apply rv)" cpath L M]
    by (auto simp: local_side_def intro: keeps_but_mono split: if_splits)
qed

lemma keep_both_keeps:
  assumes "keep_both rv cpath canonical L = (r, L')"
  shows "keeps_but {} {cpath, canonical} L L'"
proof -
  obtain q M target where m: "promote_conflict_file rv cpath target L = (q, M)"
    "L' = M \<or> (\<exists>t. L' = bump (rv_apply rv) canonical t M)"
    using assms by (auto simp: keep_both_def Let_def split: prod.splits option.splits if_splits)
  have "keeps_but {} {cpath, canonical} L M"
    using promote_keeps [OF m(1)] keeps_but_mono by blast
  then show ?thesis
    using m(2) by (auto intro: keeps_but_bump)
qed

lemma reply_default: "is_reply (or_default reply) ''p'' ''promote'' = is_reply reply ''p'' ''promote''"
  "is_reply (or_default reply) ''d'' ''delete'' = is_reply reply ''d'' ''delete''"
  by (auto simp: is_reply_def or_default_def u_def)

lemma orphan_keeps:
  assumes "resolve_orphan rv cpath L = (r, L')" and "hit_canonical h = None" and "hit_path h = cpath"
  shows "keeps_but (if r = Inr Settled then given_up rv h L else {}) (own_paths h) L L'"
proof (cases "rv_replies rv cpath")
  case Nil
  then show ?thesis
    using assms(1) by (simp add: resolve_orphan_def)
next
  case (Cons reply replies)
  note run = assms(1) [unfolded resolve_orphan_def Cons list.case Let_def reply_default]
  show ?thesis
  proof (cases "is_reply reply ''p'' ''promote''")
    case True
    show ?thesis
    proof (cases "sidecar_owner cpath")
      case None
      then show ?thesis
        using run True by simp
    next
      case (Some target)
      have "moved L (rename_entry (rv_rename rv) cpath target L) = (r, L')"
        using run True Some by simp
      then have "keeps_but (if r = Inr Settled then set_option (content L target) else {}) {cpath, target} L L'"
        by (rule moved_keeps) (rule rename_keeps)
      moreover have "given_up rv h L = set_option (content L target)" "{cpath, target} \<subseteq> own_paths h"
        using True Some Cons assms(2,3) by (auto simp: given_up_def own_paths_def)
      ultimately show ?thesis
        using keeps_but_mono [OF _ order_refl] by metis
    qed
  next
    case notp: False
    show ?thesis
    proof (cases "is_reply reply ''d'' ''delete''")
      case True
      have "moved L (removed (ae_io (rv_apply rv)) cpath L) = (r, L')"
        using run True notp by simp
      then have "keeps_but (if r = Inr Settled then set_option (content L cpath) else {}) {cpath} L L'"
        using moved_keeps removed_keeps by blast
      then show ?thesis
        using True notp Cons assms(2,3) by (auto simp: given_up_def own_paths_def elim: keeps_but_mono)
    next
      case False
      then show ?thesis
        using run notp by simp
    qed
  qed
qed

lemma pair_keeps:
  assumes "resolve_pair rv cpath canonical L = (r, L')" and "hit_canonical h = Some canonical" and "hit_path h = cpath"
  shows "keeps_but (if r = Inr Settled then given_up rv h L else {}) (own_paths h) L L'"
proof (cases "r = Inl ExitOne \<or> r = Inl AbortAll \<or> L' = L")
  case True
  moreover have "L' = L" if "r = Inl stop" for stop
    using assms(1) that
    by (auto simp: resolve_pair_def keep_local_def keep_remote_def accept_merge_def keep_both_def moved_def Let_def
        split: option.splits sum.splits if_splits prod.splits)
  ultimately show ?thesis
    by auto
next
  case False
  obtain a b where ab: "read_file (ae_io (rv_apply rv)) L (local_side cpath canonical) = Some a"
    "read_file (ae_io (rv_apply rv)) L (remote_side cpath canonical) = Some b"
    using assms(1) False by (auto simp: resolve_pair_def Let_def split: option.splits)
  obtain x where x: "pair_choice rv cpath canonical L = Inr x"
    using assms(1) False ab by (cases "pair_choice rv cpath canonical L") (auto simp: resolve_pair_def Let_def)
  have own: "{cpath, canonical} \<subseteq> own_paths h"
    using assms(2,3) by (auto simp: own_paths_def)
  note run = assms(1) [unfolded resolve_pair_def Let_def ab x option.case prod.case sum.case]
  note up = given_up_def [of rv h L, unfolded assms(2,3) option.case x sum.case Let_def]
  consider (l) "is_reply x ''l'' ''local''" | (r) "\<not> is_reply x ''l'' ''local''" "is_reply x ''r'' ''remote''"
    | (m) "\<not> is_reply x ''l'' ''local''" "\<not> is_reply x ''r'' ''remote''" "is_reply x ''m'' ''merge''"
    | (p) "\<not> is_reply x ''l'' ''local''" "\<not> is_reply x ''r'' ''remote''" "\<not> is_reply x ''m'' ''merge''" "is_reply x ''p'' ''promote''"
    | (skip) "L' = L"
    using run by (auto split: if_splits)
  then show ?thesis
  proof cases
    case l
    then have k: "keep_local rv cpath canonical L = (r, L')" "given_up rv h L = set_option (content L (remote_side cpath canonical))"
      using run up by simp_all
    show ?thesis
      unfolding k(2) by (rule keeps_but_mono [OF keep_local_keeps [OF k(1)] order_refl own])
  next
    case r
    then have k: "keep_remote rv cpath canonical L = (r, L')" "given_up rv h L = set_option (content L (local_side cpath canonical))"
      using run up by simp_all
    show ?thesis
      unfolding k(2) by (rule keeps_but_mono [OF keep_remote_keeps [OF k(1)] order_refl own])
  next
    case m
    then have k: "accept_merge rv cpath canonical (offered_merge a b) L = (r, L')"
      "given_up rv h L = set_option (content L canonical) \<union> set_option (content L cpath)"
      using run up by simp_all
    show ?thesis
      unfolding k(2) by (rule keeps_but_mono [OF merge_keeps [OF k(1)] order_refl own])
  next
    case p
    then have "keeps_but {} {cpath, canonical} L L'"
      using run keep_both_keeps by simp
    then show ?thesis
      by (rule keeps_but_mono) (use own in auto)
  next
    case skip
    then show ?thesis
      by simp
  qed
qed

lemma step_keeps_rest:
  "resolve_one rv h L = (r, L') \<Longrightarrow> keeps_but (if r = Inr Settled then given_up rv h L else {}) (own_paths h) L L'"
  using orphan_keeps [OF _ _ refl] pair_keeps [OF _ _ refl]
  unfolding resolve_one_def by (cases "hit_canonical h") (simp_all only: option.case)

section \<open>The walk loses only what replies give up\<close>

text \<open>What the settled conflicts of a walk gave up, each on the disk it met.\<close>

fun surrendered :: "resolve_env \<Rightarrow> hit list \<Rightarrow> ltree \<Rightarrow> bytes set" where
  "surrendered rv [] L = {}"
| "surrendered rv (h # hs) L =
     (case resolve_one rv h L of
        (Inl stop, L') \<Rightarrow> {}
      | (Inr out, L') \<Rightarrow> (if out = Settled then given_up rv h L else {}) \<union> surrendered rv hs L')"

lemma step_unchanged:
  assumes "resolve_one rv h L = (r, L')" and "r \<noteq> Inr Settled" "r \<noteq> Inr Troubled"
  shows "L' = L"
proof (cases "hit_canonical h")
  case None
  then show ?thesis
    using assms by (auto simp: resolve_one_def resolve_orphan_def moved_def Let_def split: list.splits option.splits if_splits)
next
  case (Some c)
  then show ?thesis
    using assms
    by (auto simp: resolve_one_def resolve_pair_def keep_local_def keep_remote_def accept_merge_def keep_both_def
        moved_def Let_def split: option.splits sum.splits if_splits prod.splits)
qed

lemma loop_keeps:
  "case resolve_interactive_loop rv hits L of (stop, resolved, failed, L') \<Rightarrow>
     keeps_but (surrendered rv hits L) (\<Union>h \<in> set hits. own_paths h) L L' \<and>
     resolved + failed \<le> length hits \<and> (resolved = 0 \<and> failed = 0 \<longrightarrow> L' = L)"
proof (induction hits arbitrary: L)
  case (Cons h hs)
  obtain r M where one: "resolve_one rv h L = (r, M)"
    by fastforce
  note kept = step_keeps_rest [OF one]
  show ?case
  proof (cases r)
    case (Inl stop)
    then have "M = L"
      using step_unchanged [OF one] by simp
    then show ?thesis
      using one Inl by simp
  next
    case (Inr out)
    obtain stop m n L' where rest: "resolve_interactive_loop rv hs M = (stop, m, n, L')"
      by (cases "resolve_interactive_loop rv hs M") auto
    have "keeps_but (surrendered rv hs M) (\<Union>h \<in> set hs. own_paths h) M L'"
      and n: "m + n \<le> length hs" "m = 0 \<and> n = 0 \<longrightarrow> L' = M"
      using Cons.IH [of M] by (simp_all add: rest)
    note keeps_but_trans [OF kept this(1)]
    moreover have "M = L" if "out = LeftAlone"
      using step_unchanged [OF one] Inr that by simp
    ultimately show ?thesis
      using one rest Inr n by (cases out) auto
  qed
qed simp


text \<open>Two copies whose canonical file is gone are both found without one. Promoting the first makes the
  canonical file, and promoting the second renames over it.\<close>

lemma rename_free:
  "map_of L p = Some (LFile d t) \<Longrightarrow> p \<noteq> q \<Longrightarrow> \<not> dir_at L q \<Longrightarrow> rn p q \<Longrightarrow>
   rename_entry rn p q L = Some (AList.update q (LFile d t) (AList.delete p L))"
  by (simp add: rename_entry_def)

text \<open>C36. Promoting two copies of one missing file loses the first: when a search finds two copies of a file
  that is not there and both are promoted, the walk reports two resolved conflicts, the file holds the
  bytes of the second copy, and the bytes of the first are gone unless another file had them.\<close>

theorem second_promotion_overwrites:
  assumes owner: "sidecar_owner p = Some t" "sidecar_owner q = Some t" and paths: "p \<noteq> q" "p \<noteq> t" "q \<noteq> t"
    and files: "map_of L p = Some (LFile a m)" "map_of L q = Some (LFile b n)" "map_of L t = None"
    and only: "\<forall>x. content L x = Some a \<longrightarrow> x = p" and ok: "\<forall>x y. rv_rename rv x y"
    and replies: "rv_replies rv p = [u ''p'']" "rv_replies rv q = [u ''p'']"
  shows "\<exists>L'. resolve_interactive_loop rv [\<lparr>hit_source = s, hit_path = p, hit_canonical = None\<rparr>,
      \<lparr>hit_source = s, hit_path = q, hit_canonical = None\<rparr>] L = (None, 2, 0, L') \<and>
    map_of L' t = Some (LFile b n) \<and> a \<notin> contents L'"
proof -
  let ?M = "AList.update t (LFile a m) (AList.delete p L)"
  let ?L = "AList.update t (LFile b n) (AList.delete q ?M)"
  have yes: "is_reply (or_default (u ''p'')) ''p'' ''promote''"
    by (simp add: is_reply_def or_default_def u_def)
  have free: "\<not> dir_at L t" "\<not> dir_at ?M t"
    using files(3) by (simp_all add: dir_at_def map_of_alist_update)
  have q: "map_of ?M q = Some (LFile b n)"
    using files(2) paths by (simp add: map_of_alist_update delete_conv')
  have "rename_entry (rv_rename rv) p t L = Some ?M"
    by (rule rename_free [where rn = "rv_rename rv", OF files(1) paths(2) free(1)]) (use ok in blast)
  moreover have "rename_entry (rv_rename rv) q t ?M = Some ?L"
    by (rule rename_free [where rn = "rv_rename rv", OF q paths(3) free(2)]) (use ok in blast)
  ultimately have one: "resolve_one rv \<lparr>hit_source = s, hit_path = p, hit_canonical = None\<rparr> L = (Inr Settled, ?M)"
    "resolve_one rv \<lparr>hit_source = s, hit_path = q, hit_canonical = None\<rparr> ?M = (Inr Settled, ?L)"
    using owner replies yes by (simp_all add: resolve_one_def resolve_orphan_def moved_def)
  have "content ?L x \<noteq> Some a" for x
  proof -
    have "b \<noteq> a"
      using only [rule_format, of q] files(2) paths(1) by (auto simp: content_def)
    then show ?thesis
      using only paths files by (auto simp: content_def map_of_alist_update delete_conv' split: if_splits)
  qed
  then have "a \<notin> contents ?L"
    by (simp add: contents_def)
  then show ?thesis
    by (intro exI [of _ ?L]) (simp add: one map_of_alist_update)
qed

section \<open>A walk\<close>

definition copy1 :: path where
  "copy1 = notes_path ''a.sync-conflict-20260501-000000-v1-abcd1234.md''"

definition copy2 :: path where
  "copy2 = notes_path ''a.sync-conflict-20260502-000000-v1-abcd1234.md''"

definition walk_env :: "string \<Rightarrow> resolve_env" where
  "walk_env reply = \<lparr>rv_apply = pull_env, rv_rename = (\<lambda>_ _. True), rv_link = (\<lambda>_ _. True), rv_now = (\<lambda>_. sample_time),
     rv_hex = (\<lambda>_ _. u ''ab12''), rv_replies = (\<lambda>p. [u reply])\<rparr>"

definition walk_finder :: finder where
  "walk_finder = \<lparr>fr_io = pull_io, fr_rename = (\<lambda>_ _. True), fr_migrate = True, fr_marker = Some 0\<rparr>"

text \<open>The user keeps the remote side of the second copy; the first has the bytes of the note.\<close>

definition walk_hits :: "hit list" where
  "walk_hits = fst (find_conflict_files walk_finder [notes_source] notes_disk)"

definition walked_notes :: "resolve_stop option \<times> nat \<times> nat \<times> ltree" where
  "walked_notes = resolve_interactive_loop (walk_env ''r'') walk_hits notes_disk"

lemma walked_notes_value:
  "walk_hits = [\<lparr>hit_source = u ''notes'', hit_path = copy1, hit_canonical = Some (notes_path ''a.md'')\<rparr>,
     \<lparr>hit_source = u ''notes'', hit_path = copy2, hit_canonical = Some (notes_path ''a.md'')\<rparr>] \<and>
   fst (snd walked_notes) = 2 \<and> content (snd (snd (snd walked_notes))) (notes_path ''a.md'') = Some [2]"
  by code_simp

lemma walked_notes_gave_up:
  "given_up (walk_env ''r'') (hd walk_hits) notes_disk = {[1]} \<and>
   surrendered (walk_env ''r'') walk_hits notes_disk = {[1]}"
  by code_simp


definition orphans_disk :: ltree where
  "orphans_disk = [([u ''home''], LDir), ([u ''home'', u ''notes''], LDir), (copy1, LFile [1] 7), (copy2, LFile [2] 8)]"

lemma orphans_found:
  "fst (find_conflict_files walk_finder [notes_source] orphans_disk) =
     [\<lparr>hit_source = u ''notes'', hit_path = copy1, hit_canonical = None\<rparr>,
      \<lparr>hit_source = u ''notes'', hit_path = copy2, hit_canonical = None\<rparr>] \<and>
   sidecar_owner copy1 = Some (notes_path ''a.md'') \<and> sidecar_owner copy2 = Some (notes_path ''a.md'') \<and>
   copy1 \<noteq> copy2 \<and> copy1 \<noteq> notes_path ''a.md'' \<and> copy2 \<noteq> notes_path ''a.md'' \<and>
   map_of orphans_disk (notes_path ''a.md'') = None"
  by code_simp

theorem second_promotion_overwrites_witness:
  "\<exists>L'. resolve_interactive_loop (walk_env ''p'') (fst (find_conflict_files walk_finder [notes_source] orphans_disk)) orphans_disk =
      (None, 2, 0, L') \<and> [1] \<notin> contents L'"
proof -
  have f: "map_of orphans_disk copy1 = Some (LFile [1] 7)" "map_of orphans_disk copy2 = Some (LFile [2] 8)"
    by code_simp+
  have only: "\<forall>x. content orphans_disk x = Some [1] \<longrightarrow> x = copy1"
    by (auto simp: content_def orphans_disk_def split: if_splits)
  have env: "\<forall>x y. rv_rename (walk_env ''p'') x y" "rv_replies (walk_env ''p'') copy1 = [u ''p'']"
    "rv_replies (walk_env ''p'') copy2 = [u ''p'']"
    by (simp_all add: walk_env_def)
  note o = orphans_found
  note lost = second_promotion_overwrites [where s = "u ''notes''", OF _ _ _ _ _ f _ only env]
  show ?thesis
    unfolding conjunct1 [OF o] using lost o by blast
qed

end
