(* ===== verification/Sources.thy ===== *)
theory Sources
  imports Pull Scan
begin

text \<open>
  The configured sources, \<open>config.py\<close>: the validation of a parsed configuration file, the built-in
  sources, and the resolution of what is selected and what is available (\<open>_configured_sources\<close>,
  \<open>resolve_sources\<close>). A parsed TOML value is a value of the JSON type; what the code asks the system about
  paths are observations of a \<open>host\<close>. The laws: the selection has one source per name, none that is
  disabled or retired, and consent-bound sources only where they are configured.
\<close>

section \<open>The built-in sources\<close>

definition GENERATED_HOST_SKILL_GLOBS :: "pystr list" where
  "GENERATED_HOST_SKILL_GLOBS =
    [u ''skills/roadmap/*'', u ''skills/full-review/*'', u ''skills/test-plan/*'', u ''skills/pair-review/*'',
     u ''skills/review-apparatus/*'']"

definition GSTACK_GENERATOR_GLOBS :: "pystr list" where
  "GSTACK_GENERATOR_GLOBS =
    [u ''projects/*/venv/*'', u ''projects/*/.venv/*'', u ''projects/*/*.app/*'', u ''projects/*/.qa-evidence/*'', u ''*.zip'',
     u ''*.tar'', u ''*.tgz'', u ''*.tar.gz'', u ''*.tar.xz'', u ''*.tar.bz2'', u ''*.tar.zst'', u ''*.whl'', u ''*.so'',
     u ''*.dylib'', u ''*.pak'', u ''*.dmg'']"

definition GSTACK_ARTIFACT_DIRS :: "pystr list" where
  "GSTACK_ARTIFACT_DIRS =
    [u ''checkpoints'', u ''checkpoint-pointers'', u ''ceo-plans'', u ''plans'', u ''designs'', u ''specs'', u ''briefs'',
     u ''cards'', u ''handoffs'', u ''deploy-reports'']"

definition GSTACK_DOCUMENT_EXTENSIONS :: "pystr list" where
  "GSTACK_DOCUMENT_EXTENSIONS =
    [u ''md'', u ''txt'', u ''html'', u ''css'', u ''json'', u ''jsonl'', u ''png'', u ''jpg'', u ''jpeg'', u ''gif'', u ''svg'',
     u ''webp'', u ''pdf'', u ''patch'', u ''diff'']"

definition GSTACK_INCLUDE_PATTERNS :: "pystr list" where
  "GSTACK_INCLUDE_PATTERNS =
    [u ''retro-context.md'', u ''greptile-history.md'', u ''.completeness-intro-seen'', u ''.telemetry-prompted'',
     u ''.proactive-prompted'', u ''.welcome-seen'', u ''.codex-desc-healed'', u ''retros/**''] @
    concat (map (\<lambda>directory. map (\<lambda>extension. u ''projects/*/'' @ directory @ u ''/**/*.'' @ extension)
      GSTACK_DOCUMENT_EXTENSIONS) GSTACK_ARTIFACT_DIRS) @
    [u ''projects/*/pair-review/deploy.md'', u ''projects/*/pair-review/report.md'', u ''projects/*/pair-review/parked-bugs.md'',
     u ''projects/*/learnings.jsonl'', u ''projects/*/decisions.jsonl'', u ''projects/*/decisions.archive.jsonl'',
     u ''projects/*/timeline.jsonl'', u ''projects/*/greptile-history.md'', u ''projects/*/land-and-deploy.jsonl'',
     u ''projects/*/land-deploy.jsonl'', u ''projects/*/health-history.jsonl'', u ''projects/*/canary-history.jsonl'',
     u ''projects/*/distillation-proposals.json'', u ''projects/*/.former-slugs'', u ''projects/*/reviews.jsonl'',
     u ''projects/*/resources-shown.jsonl'', u ''projects/*/*-reviews.jsonl'', u ''projects/*/*-autoplan-*.md'',
     u ''projects/*/*-test-plan-*.md'', u ''projects/*/*-card.md'', u ''projects/*/driver-handoff-*.md'', u ''analytics/**'',
     u ''projects/*/question-log.jsonl'', u ''projects/*/question-events.jsonl'', u ''projects/*/question-preferences.json'',
     u ''projects/*/taste-profile.json'']"

definition jstrs :: "pystr list \<Rightarrow> json" where
  "jstrs xs = JList (map JStr xs)"

definition DEFAULT_SOURCES :: "(pystr, json) dict list" where
  "DEFAULT_SOURCES =
    [
     [(u ''name'', JStr (u ''claude'')),
      (u ''path'', JStr (u ''~/.claude'')),
      (u ''type'', JStr (u ''claude''))],
     [(u ''name'', JStr (u ''mm-events'')),
      (u ''path'', JStr (u ''~/.local/share/mind-meld'')),
      (u ''type'', JStr (u ''generic'')),
      (u ''include_dirs'', jstrs [u ''events'']),
      (u ''exclude_patterns'', jstrs [])],
     [(u ''name'', JStr (u ''gstack'')),
      (u ''path'', JStr (u ''~/.gstack'')),
      (u ''type'', JStr (u ''generic'')),
      (u ''include_dirs'', jstrs [u ''projects'', u ''analytics'', u ''retros'']),
      (u ''include_patterns'', jstrs GSTACK_INCLUDE_PATTERNS),
      (u ''include_files'', jstrs [u ''retro-context.md'', u ''greptile-history.md'', u ''.completeness-intro-seen'', u ''.telemetry-prompted'',
         u ''.proactive-prompted'', u ''.welcome-seen'', u ''.codex-desc-healed'']),
      (u ''exclude_patterns'', jstrs ([u ''config.yaml'', u ''projects/*/repo-mode.json'', u ''projects/*/land-deploy-confirmed'',
         u ''analytics/.last-sync-*'', u ''projects/*/decisions.active.json'', u ''projects/*/brain-cache/*'',
         u ''projects/*/pair-review/session.yaml''] @ GSTACK_GENERATOR_GLOBS))],
     [(u ''name'', JStr (u ''gstack-extend'')),
      (u ''path'', JStr (u ''~/.gstack-extend'')),
      (u ''type'', JStr (u ''generic'')),
      (u ''include_dirs'', jstrs [u ''projects'']),
      (u ''include_files'', jstrs []),
      (u ''exclude_patterns'', jstrs [])],
     [(u ''name'', JStr (u ''codex'')),
      (u ''path'', JStr (u ''~/.codex'')),
      (u ''type'', JStr (u ''generic'')),
      (u ''include_dirs'', jstrs [u ''skills'', u ''plugins'']),
      (u ''include_files'', jstrs [u ''AGENTS.md'']),
      (u ''exclude_patterns'', jstrs ([u ''skills/gstack-*'', u ''skills/log-work/*'', u ''skills/retro-fleet/*'', u ''skills/.system/*''] @ GENERATED_HOST_SKILL_GLOBS))],
     [(u ''name'', JStr (u ''muse'')),
      (u ''path'', JStr (u ''~/.local/share/muse'')),
      (u ''type'', JStr (u ''muse''))],
     [(u ''name'', JStr (u ''agy'')),
      (u ''path'', JStr (u ''~/.gemini/config'')),
      (u ''type'', JStr (u ''generic'')),
      (u ''include_dirs'', jstrs [u ''skills'', u ''rules'']),
      (u ''include_files'', jstrs [u ''AGENTS.md'', u ''GEMINI.md'']),
      (u ''exclude_patterns'', jstrs ([u ''skills/gstack-*'', u ''skills/log-work/*'', u ''skills/retro-fleet/*''] @ GENERATED_HOST_SKILL_GLOBS))]]"

definition source_str :: "(pystr, json) dict \<Rightarrow> string \<Rightarrow> pystr" where
  "source_str src k = (case map_of src (u k) of Some (JStr s) \<Rightarrow> s | _ \<Rightarrow> [])"

definition source_name :: "(pystr, json) dict \<Rightarrow> pystr" where
  "source_name src = source_str src ''name''"

definition source_path :: "(pystr, json) dict \<Rightarrow> pystr" where
  "source_path src = source_str src ''path''"

definition get_default_source :: "pystr \<Rightarrow> (pystr, json) dict option" where
  "get_default_source name = find (\<lambda>src. source_name src = name) DEFAULT_SOURCES"

section \<open>Validation\<close>

datatype config_error = ConfigError

definition require :: "bool \<Rightarrow> config_error + unit" where
  "require b = (if b then Inr () else Inl ConfigError)"

definition is_str :: "json \<Rightarrow> bool" where
  "is_str v \<longleftrightarrow> as_str v \<noteq> None"

fun str_list :: "json \<Rightarrow> bool" where
  "str_list (JList vs) = list_all is_str vs"
| "str_list _ = False"

text \<open>One entry of \<open>sync.sources\<close>, after the names met so far; an entry with a retired name is passed
  over.\<close>

definition check_source_entry :: "pystr list \<Rightarrow> json \<Rightarrow> config_error + pystr list" where
  "check_source_entry seen v =
     (case v of
        JObj src \<Rightarrow>
          (let has = (\<lambda>k. map_of src (u k) \<noteq> None); text_at = (\<lambda>k. case map_of src (u k) of Some x \<Rightarrow> is_str x | None \<Rightarrow> False);
               name = source_name src; ty = source_str src ''type''
           in if text_at ''name'' \<and> name \<in> set RETIRED_SOURCE_NAMES then Inr seen
              else if \<not> (text_at ''name'' \<and> text_at ''path'' \<and> text_at ''type'') then Inl ConfigError
              else if ty = u ''grok'' then Inl ConfigError
              else if ty = u ''muse'' \<and> name \<noteq> u ''muse'' then Inl ConfigError
              else if name = u ''muse'' \<and> (ty \<noteq> u ''muse'' \<or> has ''include_dirs'' \<or> has ''include_files'') then Inl ConfigError
              else if name \<in> set seen then Inl ConfigError
              else if has ''exclude_patterns'' \<and> \<not> str_list (the (map_of src (u ''exclude_patterns''))) then Inl ConfigError
              else if has ''include_patterns'' \<and>
                  (ty \<noteq> u ''generic'' \<or> \<not> str_list (the (map_of src (u ''include_patterns'')))) then Inl ConfigError
              else Inr (name # seen))
      | _ \<Rightarrow> Inl ConfigError)"

fun check_source_entries :: "pystr list \<Rightarrow> json list \<Rightarrow> config_error + unit" where
  "check_source_entries seen [] = Inr ()"
| "check_source_entries seen (v # vs) =
     (case check_source_entry seen v of Inl e \<Rightarrow> Inl e | Inr seen' \<Rightarrow> check_source_entries seen' vs)"

definition validate_sources :: "json \<Rightarrow> config_error + unit" where
  "validate_sources v = (case v of JList vs \<Rightarrow> check_source_entries [] vs | _ \<Rightarrow> Inl ConfigError)"

definition validate_disabled_sources :: "json \<Rightarrow> config_error + unit" where
  "validate_disabled_sources v = require (str_list v)"

definition validate_skills :: "json \<Rightarrow> config_error + unit" where
  "validate_skills v =
     (case v of
        JObj d \<Rightarrow>
          require ((case map_of d (u ''maintain_links'') of None \<Rightarrow> True | Some (JBool _) \<Rightarrow> True | _ \<Rightarrow> False) \<and>
            (case map_of d (u ''agents'') of None \<Rightarrow> True | Some x \<Rightarrow> str_list x \<and> x \<noteq> JList []))
      | _ \<Rightarrow> Inl ConfigError)"

text \<open>\<open>absolute\<close> tells whether a path is absolute after the expansion of a tilde; \<open>None\<close> is an unknown
  user.\<close>

definition validate_repo_roots :: "(pystr \<Rightarrow> bool option) \<Rightarrow> json \<Rightarrow> config_error + unit" where
  "validate_repo_roots absolute v =
     (case v of
        JList vs \<Rightarrow> require (str_list v \<and> (\<forall>x \<in> set vs. case x of JStr p \<Rightarrow> p \<noteq> [] \<and> absolute p = Some True | _ \<Rightarrow> False))
      | _ \<Rightarrow> Inl ConfigError)"

definition budget :: "(pystr, json) dict \<Rightarrow> string \<Rightarrow> int option" where
  "budget retro k = (case map_of retro (u k) of Some (JInt n) \<Rightarrow> Some n | _ \<Rightarrow> None)"

definition budget_in :: "(pystr, json) dict \<Rightarrow> string \<Rightarrow> int \<Rightarrow> int \<Rightarrow> bool" where
  "budget_in retro k lo hi \<longleftrightarrow>
     map_of retro (u k) = None \<or> (case budget retro k of Some n \<Rightarrow> lo \<le> n \<and> n \<le> hi | None \<Rightarrow> False)"

definition DEFAULT_HOST_USAGE_AUTOPUSH_BUDGET_MS :: int where
  "DEFAULT_HOST_USAGE_AUTOPUSH_BUDGET_MS = 250"

definition DEFAULT_HOST_USAGE_INTERACTIVE_BUDGET_MS :: int where
  "DEFAULT_HOST_USAGE_INTERACTIVE_BUDGET_MS = 500"

definition budget_or :: "(pystr, json) dict \<Rightarrow> string \<Rightarrow> int \<Rightarrow> int" where
  "budget_or retro k n = (case budget retro k of Some m \<Rightarrow> m | None \<Rightarrow> n)"

text \<open>The attended ceilings in force: the capture budget when set, and the older key when set or alone.\<close>

definition budget_ceilings :: "(pystr, json) dict \<Rightarrow> int list" where
  "budget_ceilings retro =
     (let capture = (if map_of retro (u ''capture_budget_ms'') = None then [] else [budget_or retro ''capture_budget_ms'' 0])
      in capture @ (if map_of retro (u ''host_usage_interactive_budget_ms'') \<noteq> None \<or> capture = []
           then [budget_or retro ''host_usage_interactive_budget_ms'' DEFAULT_HOST_USAGE_INTERACTIVE_BUDGET_MS] else []))"

definition autopush_budget :: "(pystr, json) dict \<Rightarrow> int" where
  "autopush_budget retro = budget_or retro ''host_usage_autopush_budget_ms'' DEFAULT_HOST_USAGE_AUTOPUSH_BUDGET_MS"

definition validate_retro :: "(pystr \<Rightarrow> bool option) \<Rightarrow> (pystr, json) dict \<Rightarrow> config_error + unit" where
  "validate_retro absolute retro =
     (if \<not> budget_in retro ''host_usage_autopush_budget_ms'' 100 5000 then Inl ConfigError
      else if \<not> budget_in retro ''host_usage_interactive_budget_ms'' 250 5000 then Inl ConfigError
      else if \<not> budget_in retro ''capture_budget_ms'' 250 60000 then Inl ConfigError
      else if autopush_budget retro > Min (set (budget_ceilings retro)) then Inl ConfigError
      else if (case map_of retro (u ''cursor_host_usage'') of None \<Rightarrow> False | Some (JBool _) \<Rightarrow> False | _ \<Rightarrow> True) then Inl ConfigError
      else (case map_of retro (u ''repo_roots'') of None \<Rightarrow> Inr () | Some v \<Rightarrow> validate_repo_roots absolute v))"

text \<open>\<open>"field" in config[section]\<close> of a table, and of a string or a list the test of a part.\<close>

definition REQUIRED_FIELDS :: "(string \<times> string list) list" where
  "REQUIRED_FIELDS = [(''device'', [''id'', ''name'']), (''storage'', [''path''])]"

definition holds_field :: "json \<Rightarrow> string \<Rightarrow> bool" where
  "holds_field v k =
     (case v of JObj d \<Rightarrow> map_of d (u k) \<noteq> None | JStr s \<Rightarrow> contains s (u k) | JList vs \<Rightarrow> JStr (u k) \<in> set vs | _ \<Rightarrow> False)"

definition table :: "(pystr, json) dict \<Rightarrow> string \<Rightarrow> (pystr, json) dict" where
  "table config k = (case map_of config (u k) of Some (JObj d) \<Rightarrow> d | _ \<Rightarrow> [])"

definition check_at :: "(pystr, json) dict \<Rightarrow> string \<Rightarrow> (json \<Rightarrow> config_error + unit) \<Rightarrow> config_error + unit" where
  "check_at d k f = (case map_of d (u k) of None \<Rightarrow> Inr () | Some v \<Rightarrow> f v)"

definition validate :: "(pystr \<Rightarrow> bool option) \<Rightarrow> (pystr, json) dict \<Rightarrow> config_error + unit" where
  "validate absolute config =
     check_each id
       [require (\<forall>(section, fields) \<in> set REQUIRED_FIELDS. case map_of config (u section) of
                   None \<Rightarrow> False | Some v \<Rightarrow> \<forall>field \<in> set fields. holds_field v field),
        check_at (table config ''sync'') ''sources'' validate_sources,
        check_at (table config ''sync'') ''disabled_sources'' validate_disabled_sources,
        (case map_of config (u ''retro'') of Some (JObj retro) \<Rightarrow> validate_retro absolute retro | _ \<Rightarrow> Inr ()),
        check_at config ''skills'' validate_skills]"

section \<open>Candidates\<close>

text \<open>What a resolution asks the system: the expansion of a tilde and the absolute form of a path, the
  resolved form of an explicit path (\<open>None\<close> when it cannot be resolved), one \<open>stat\<close> per probed path, the
  sessions folder of agy, the folder of the event log and whether its default root is missing and can be
  made, and whether making it went well.\<close>

datatype stat_out = StatOk | StatMissing | StatFails

datatype preview_out = AlreadyThere | WouldCreate | CannotCreate

record host =
  ho_expand :: "pystr \<Rightarrow> pystr"
  ho_absolute :: "pystr \<Rightarrow> pystr"
  ho_resolve :: "pystr \<Rightarrow> pystr option"
  ho_home :: "pystr \<Rightarrow> stat_out"
  ho_stat :: "pystr \<Rightarrow> stat_out"
  ho_agy_sessions :: bool
  ho_default_events :: "pystr \<Rightarrow> bool"
  ho_preview :: "pystr \<Rightarrow> preview_out"
  ho_bootstrap_ok :: "pystr \<Rightarrow> bool"

datatype resolve_error = RConfig | RSnapshot

definition disabled_names :: "(pystr, json) dict \<Rightarrow> pystr list" where
  "disabled_names sync =
     (case map_of sync (u ''disabled_sources'') of Some (JList vs) \<Rightarrow> map (\<lambda>v. case v of JStr s \<Rightarrow> s | _ \<Rightarrow> []) vs | _ \<Rightarrow> [])"

definition with_path :: "(pystr, json) dict \<Rightarrow> pystr \<Rightarrow> (pystr, json) dict" where
  "with_path src p = AList.update (u ''path'') (JStr p) src"

text \<open>The explicit list; an internal root keeps its own name, as a link there is the user's routing.\<close>

fun explicit_sources :: "host \<Rightarrow> bool \<Rightarrow> pystr list \<Rightarrow> json list \<Rightarrow> resolve_error + (pystr, json) dict list" where
  "explicit_sources ho strict disabled [] = Inr []"
| "explicit_sources ho strict disabled (v # vs) =
     (case v of
        JObj src \<Rightarrow>
          if source_name src \<in> set RETIRED_SOURCE_NAMES \<or> source_name src \<in> set disabled
          then explicit_sources ho strict disabled vs
          else
            (case ho_resolve ho (source_path src) of
               None \<Rightarrow> Inl (if strict then RSnapshot else RConfig)
             | Some p \<Rightarrow>
                 (let p = (if source_name src \<in> set MM_INTERNAL_SOURCE_NAMES
                           then ho_absolute ho (ho_expand ho (source_path src)) else p)
                  in map_sum id ((#) (with_path src p)) (explicit_sources ho strict disabled vs)))
      | _ \<Rightarrow> Inl RConfig)"

definition expanded :: "host \<Rightarrow> (pystr, json) dict \<Rightarrow> (pystr, json) dict" where
  "expanded ho src = with_path src (ho_expand ho (source_path src))"

definition default_sources :: "host \<Rightarrow> pystr list \<Rightarrow> (pystr, json) dict list" where
  "default_sources ho disabled =
     filter (\<lambda>s. source_str s ''type'' \<noteq> u ''muse'' \<and> source_name s \<noteq> u ''agy'' \<or> source_name s \<in> set disabled)
       (map (expanded ho) DEFAULT_SOURCES)"

definition legacy_claude :: "host \<Rightarrow> pystr \<Rightarrow> resolve_error + (pystr, json) dict list" where
  "legacy_claude ho dir =
     (case ho_resolve ho dir of
        None \<Rightarrow> Inl RConfig
      | Some p \<Rightarrow> Inr [[(u ''name'', JStr (u ''claude'')), (u ''path'', JStr p), (u ''type'', JStr (u ''claude''))]])"

text \<open>A known folder below the home directory adds its built-in source to a list that is not the user's.\<close>

definition auto_detect :: "host \<Rightarrow> pystr list \<Rightarrow> pystr \<Rightarrow> (pystr, json) dict list \<Rightarrow> (pystr, json) dict list" where
  "auto_detect ho disabled name srcs =
     (if name \<in> set disabled \<or> name \<in> set (map source_name srcs) \<or> ho_home ho (u ''.'' @ name) \<noteq> StatOk then srcs
      else (case get_default_source name of None \<Rightarrow> srcs | Some d \<Rightarrow> srcs @ [expanded ho d]))"

definition configured_sources :: "host \<Rightarrow> bool \<Rightarrow> (pystr, json) dict \<Rightarrow> resolve_error + (pystr, json) dict list \<times> bool" where
  "configured_sources ho strict config =
     (let sync = table config ''sync''; disabled = disabled_names sync;
          detect = fold (auto_detect ho disabled) [u ''gstack'', u ''gstack-extend'', u ''codex'']
      in case map_of sync (u ''sources'') of
           Some v \<Rightarrow>
             (case v of
                JList vs \<Rightarrow> map_sum id (\<lambda>srcs. (srcs, True)) (explicit_sources ho strict disabled vs)
              | _ \<Rightarrow> Inl RConfig)
         | None \<Rightarrow>
             (case map_of sync (u ''claude_dir'') of
                Some dir \<Rightarrow>
                  map_sum id (\<lambda>srcs. (detect srcs, False)) (legacy_claude ho (case dir of JStr s \<Rightarrow> s | _ \<Rightarrow> []))
              | None \<Rightarrow> Inr (detect (default_sources ho disabled), False)))"

section \<open>Resolution\<close>

record resolution =
  rs_selected :: "(pystr, json) dict list"
  rs_available :: "(pystr, json) dict list"
  rs_explicit :: bool
  rs_would_create :: "pystr list"

definition source_path_available :: "host \<Rightarrow> bool \<Rightarrow> pystr \<Rightarrow> pystr \<Rightarrow> resolve_error + bool" where
  "source_path_available ho strict name p =
     (case ho_stat ho p of
        StatOk \<Rightarrow> Inr True
      | StatMissing \<Rightarrow> Inr (name = u ''agy'' \<and> p = ho_expand ho (u ''~/.gemini/config'') \<and> ho_agy_sessions ho)
      | StatFails \<Rightarrow> if strict then Inl RSnapshot else Inr False)"

text \<open>The default root of the event log: made, or named as one a push would make.\<close>

fun would_create :: "host \<Rightarrow> bool \<Rightarrow> bool \<Rightarrow> (pystr, json) dict list \<Rightarrow> resolve_error + pystr list" where
  "would_create ho strict bootstrap [] = Inr []"
| "would_create ho strict bootstrap (src # srcs) =
     (let name = source_name src; p = source_path src in
      if name \<notin> set MM_INTERNAL_SOURCE_NAMES \<or> \<not> ho_default_events ho p then would_create ho strict bootstrap srcs
      else if bootstrap then
        (if strict \<and> \<not> ho_bootstrap_ok ho p then Inl RSnapshot else would_create ho strict bootstrap srcs)
      else
        (case ho_preview ho p of
           AlreadyThere \<Rightarrow> would_create ho strict bootstrap srcs
         | WouldCreate \<Rightarrow> map_sum id ((#) name) (would_create ho strict bootstrap srcs)
         | CannotCreate \<Rightarrow> if strict then Inl RSnapshot else would_create ho strict bootstrap srcs))"

fun filter_available :: "host \<Rightarrow> bool \<Rightarrow> pystr list \<Rightarrow> (pystr, json) dict list \<Rightarrow> resolve_error + (pystr, json) dict list" where
  "filter_available ho strict created [] = Inr []"
| "filter_available ho strict created (src # srcs) =
     (if source_name src \<in> set created then map_sum id ((#) src) (filter_available ho strict created srcs)
      else
        (case source_path_available ho strict (source_name src) (source_path src) of
           Inl e \<Rightarrow> Inl e
         | Inr b \<Rightarrow> map_sum id (\<lambda>rest. if b then src # rest else rest) (filter_available ho strict created srcs)))"

definition resolve_sources :: "host \<Rightarrow> bool \<Rightarrow> bool \<Rightarrow> (pystr, json) dict \<Rightarrow> resolve_error + resolution" where
  "resolve_sources ho strict bootstrap config =
     (case configured_sources ho strict config of
        Inl e \<Rightarrow> Inl e
      | Inr (configured, explicit) \<Rightarrow>
          (case validate_sources (JList (map JObj configured)) of
             Inl e \<Rightarrow> Inl RConfig
           | Inr _ \<Rightarrow>
               (let disabled = disabled_names (table config ''sync'');
                    srcs = filter (\<lambda>s. source_name s \<notin> set disabled) configured
                in case would_create ho strict bootstrap srcs of
                     Inl e \<Rightarrow> Inl e
                   | Inr created \<Rightarrow>
                       (case filter_available ho strict created srcs of
                          Inl e \<Rightarrow> Inl e
                        | Inr available \<Rightarrow>
                            Inr \<lparr>rs_selected = srcs, rs_available = available, rs_explicit = explicit,
                                 rs_would_create = created\<rparr>))))"

definition get_sources :: "host \<Rightarrow> bool \<Rightarrow> bool \<Rightarrow> (pystr, json) dict \<Rightarrow> resolve_error + (pystr, json) dict list" where
  "get_sources ho strict bootstrap config = map_sum id rs_available (resolve_sources ho strict bootstrap config)"

section \<open>Laws of a resolution\<close>

lemma with_path_fields [simp]: "source_name (with_path src p) = source_name src" "source_path (with_path src p) = p"
  by (simp_all add: source_name_def source_path_def source_str_def with_path_def map_of_alist_update u_def)

lemma expanded_name [simp]: "source_name (expanded ho src) = source_name src"
  by (simp add: expanded_def)

lemma checked_names:
  assumes "check_source_entries seen (map JObj srcs) = Inr ()" and "\<forall>s \<in> set srcs. source_name s \<notin> set RETIRED_SOURCE_NAMES"
  shows "distinct (map source_name srcs) \<and> set (map source_name srcs) \<inter> set seen = {}"
  using assms
proof (induction srcs arbitrary: seen)
  case (Cons src srcs)
  obtain seen' where c: "check_source_entry seen (JObj src) = Inr seen'"
    using Cons.prems(1) by (auto split: sum.splits)
  have "seen' = source_name src # seen \<and> source_name src \<notin> set seen"
    using c Cons.prems(2) by (simp add: check_source_entry_def Let_def split: if_splits)
  then show ?case
    using Cons.IH [of seen'] Cons.prems c by auto
qed simp

lemma explicit_sources_from:
  "explicit_sources ho strict disabled vs = Inr srcs \<Longrightarrow> s \<in> set srcs \<Longrightarrow>
   \<exists>src p. JObj src \<in> set vs \<and> s = with_path src p \<and> source_name s \<notin> set RETIRED_SOURCE_NAMES \<and> source_name s \<notin> set disabled"
proof (induction vs arbitrary: srcs)
  case (Cons v vs)
  obtain src where v: "v = JObj src"
    using Cons.prems(1) by (cases v) auto
  show ?case
  proof (cases "source_name src \<in> set RETIRED_SOURCE_NAMES \<or> source_name src \<in> set disabled")
    case True
    then show ?thesis
      using Cons.IH [of srcs] Cons.prems v by auto
  next
    case False
    then obtain p rest where r: "srcs = with_path src p # rest" "explicit_sources ho strict disabled vs = Inr rest"
      using Cons.prems(1) v by (auto simp: Let_def map_sum_def split: option.splits sum.splits if_splits)
    show ?thesis
    proof (cases "s = with_path src p")
      case True
      then show ?thesis
        using False v by auto
    next
      case neq: False
      then show ?thesis
        using Cons.IH [OF r(2)] Cons.prems(2) r(1) by auto
    qed
  qed
qed simp

lemma default_names: "set (map source_name DEFAULT_SOURCES) \<inter> set RETIRED_SOURCE_NAMES = {}"
  by code_simp

lemma consent_bound: "s \<in> set DEFAULT_SOURCES \<Longrightarrow> source_name s = u ''muse'' \<Longrightarrow> source_str s ''type'' = u ''muse''"
proof -
  have "list_all (\<lambda>s. source_name s = u ''muse'' \<longrightarrow> source_str s ''type'' = u ''muse'') DEFAULT_SOURCES"
    by code_simp
  then show "s \<in> set DEFAULT_SOURCES \<Longrightarrow> source_name s = u ''muse'' \<Longrightarrow> source_str s ''type'' = u ''muse''"
    by (auto simp: list_all_iff)
qed

definition detectable :: "pystr list" where
  "detectable = [u ''gstack'', u ''gstack-extend'', u ''codex'']"

lemma auto_detect_names:
  "s \<in> set (fold (auto_detect ho disabled) names srcs) \<Longrightarrow> s \<in> set srcs \<or> source_name s \<in> set names"
proof (induction names arbitrary: srcs)
  case (Cons name names)
  have "source_name d = name" if "get_default_source name = Some d" for d
    using that by (auto simp: get_default_source_def find_Some_iff)
  then have "t \<in> set srcs \<or> source_name t = name" if "t \<in> set (auto_detect ho disabled name srcs)" for t
    using that by (auto simp: auto_detect_def split: if_splits option.splits)
  then show ?case
    using Cons.IH [of "auto_detect ho disabled name srcs"] Cons.prems by auto
qed simp

lemma default_sources_names:
  assumes "s \<in> set (default_sources ho disabled)" and "source_name s \<notin> set disabled"
  shows "source_name s \<notin> set RETIRED_SOURCE_NAMES \<and> source_name s \<noteq> u ''muse'' \<and> source_name s \<noteq> u ''agy''"
proof -
  obtain d where d: "d \<in> set DEFAULT_SOURCES" "s = expanded ho d"
    using assms(1) by (auto simp: default_sources_def)
  have t: "source_str s ''type'' = source_str d ''type''"
    using d(2) by (simp add: expanded_def with_path_def source_str_def map_of_alist_update u_def)
  have "source_name s \<notin> set RETIRED_SOURCE_NAMES"
    using default_names d by auto
  then show ?thesis
    using assms consent_bound [OF d(1)] d(2) t by (auto simp: default_sources_def)
qed

lemma configured_names:
  assumes "configured_sources ho strict config = Inr (srcs, explicit)" and "s \<in> set srcs"
    and "source_name s \<notin> set (disabled_names (table config ''sync''))"
  shows "source_name s \<notin> set RETIRED_SOURCE_NAMES \<and>
    (if explicit then \<exists>vs src p. map_of (table config ''sync'') (u ''sources'') = Some (JList vs) \<and> JObj src \<in> set vs \<and> s = with_path src p
     else map_of (table config ''sync'') (u ''sources'') = None \<and> source_name s \<noteq> u ''muse'' \<and> source_name s \<noteq> u ''agy'')"
proof -
  let ?sync = "table config ''sync''"
  have d: "name \<notin> set RETIRED_SOURCE_NAMES \<and> name \<noteq> u ''muse'' \<and> name \<noteq> u ''agy''" if "name \<in> set detectable" for name
    using that by (auto simp: detectable_def RETIRED_SOURCE_NAMES_def u_def)
  show ?thesis
  proof (cases "map_of ?sync (u ''sources'')")
    case (Some v)
    then obtain vs where v: "v = JList vs" "explicit" "explicit_sources ho strict (disabled_names ?sync) vs = Inr srcs"
      using assms(1) by (auto simp: configured_sources_def Let_def map_sum_def split: json.splits sum.splits)
    then show ?thesis
      using explicit_sources_from [OF v(3) assms(2)] Some by auto
  next
    case None
    obtain base where b: "srcs = fold (auto_detect ho (disabled_names ?sync)) detectable base" "\<not> explicit"
      "base = default_sources ho (disabled_names ?sync) \<or> (\<exists>dir. legacy_claude ho dir = Inr base)"
      using assms(1) None
      by (auto simp: configured_sources_def Let_def map_sum_def detectable_def split: option.splits sum.splits)
    then consider "s \<in> set base" | "source_name s \<in> set detectable"
      using auto_detect_names assms(2) by blast
    then show ?thesis
    proof cases
      case 1
      have "source_name s = u ''claude''" if "legacy_claude ho dir = Inr base" for dir
        using that 1 by (auto simp: legacy_claude_def source_name_def source_str_def split: option.splits)
      then show ?thesis
        using b(2,3) None 1 default_sources_names [OF _ assms(3)]
        by (auto simp: RETIRED_SOURCE_NAMES_def u_def)
    next
      case 2
      then show ?thesis
        using d b(2) None by auto
    qed
  qed
qed

lemma default_source_known: "s \<in> set (default_sources ho disabled) \<Longrightarrow> source_name s \<in> set (map source_name DEFAULT_SOURCES)"
  by (auto simp: default_sources_def)

lemma configured_not_retired:
  assumes "configured_sources ho strict config = Inr (srcs, explicit)" and "s \<in> set srcs"
  shows "source_name s \<notin> set RETIRED_SOURCE_NAMES"
proof (cases "source_name s \<in> set (disabled_names (table config ''sync''))")
  case False
  then show ?thesis
    using configured_names [OF assms] by blast
next
  case True
  let ?sync = "table config ''sync''"
  show ?thesis
  proof (cases "map_of ?sync (u ''sources'')")
    case (Some v)
    then show ?thesis
      using assms explicit_sources_from
      by (fastforce simp: configured_sources_def Let_def map_sum_def split: json.splits sum.splits)
  next
    case None
    obtain base where b: "srcs = fold (auto_detect ho (disabled_names ?sync)) detectable base"
      "base = default_sources ho (disabled_names ?sync) \<or> (\<exists>dir. legacy_claude ho dir = Inr base)"
      using assms(1) None
      by (auto simp: configured_sources_def Let_def map_sum_def detectable_def split: option.splits sum.splits)
    then consider "s \<in> set base" | "source_name s \<in> set detectable"
      using auto_detect_names assms(2) by blast
    then show ?thesis
    proof cases
      case 1
      have "source_name s = u ''claude''" if "legacy_claude ho dir = Inr base" for dir
        using that 1 by (auto simp: legacy_claude_def source_name_def source_str_def split: option.splits)
      then show ?thesis
        using b(2) 1 default_source_known [of s ho] default_names by (auto simp: RETIRED_SOURCE_NAMES_def u_def)
    next
      case 2
      then show ?thesis
        by (auto simp: detectable_def RETIRED_SOURCE_NAMES_def u_def)
    qed
  qed
qed

lemma would_create_names:
  "would_create ho strict bootstrap srcs = Inr names \<Longrightarrow>
   set names \<subseteq> set MM_INTERNAL_SOURCE_NAMES \<inter> set (map source_name srcs) \<and> (bootstrap \<longrightarrow> names = [])"
  by (induction srcs arbitrary: names)
    (fastforce simp: Let_def map_sum_def split: if_splits preview_out.splits sum.splits)+

lemma filter_available_spec:
  "filter_available ho strict created srcs = Inr available \<Longrightarrow>
   set available \<subseteq> set srcs \<and>
   (\<forall>s \<in> set srcs. s \<notin> set available \<longrightarrow> source_name s \<notin> set created \<and>
      (ho_stat ho (source_path s) = StatMissing \<or> \<not> strict \<and> ho_stat ho (source_path s) = StatFails))"
proof (induction srcs arbitrary: available)
  case (Cons src srcs)
  then show ?case
    by (auto simp: map_sum_def source_path_available_def split: if_splits sum.splits stat_out.splits)
qed simp

text \<open>C37. A resolution selects every source once and only what the configuration permits: no selected
  source is disabled or retired, names are distinct, a source of an explicit list is an entry of that
  list with at most its path changed, and without an explicit list neither muse nor agy is ever
  selected. What is available was selected; in strict mode a selected source is left out only when its
  folder is missing, never because it could not be read; and only the internal root may be promised
  without existing, and not when roots are made.\<close>

theorem selection_permitted:
  assumes "resolve_sources ho strict bootstrap config = Inr r"
  shows "distinct (map source_name (rs_selected r)) \<and>
    (\<forall>s \<in> set (rs_selected r). source_name s \<notin> set RETIRED_SOURCE_NAMES \<and>
       source_name s \<notin> set (disabled_names (table config ''sync'')) \<and>
       (if rs_explicit r then \<exists>vs src p. map_of (table config ''sync'') (u ''sources'') = Some (JList vs) \<and>
          JObj src \<in> set vs \<and> s = with_path src p
        else source_name s \<noteq> u ''muse'' \<and> source_name s \<noteq> u ''agy'')) \<and>
    set (rs_available r) \<subseteq> set (rs_selected r) \<and>
    (\<forall>s \<in> set (rs_selected r). s \<notin> set (rs_available r) \<longrightarrow>
       ho_stat ho (source_path s) = StatMissing \<or> \<not> strict \<and> ho_stat ho (source_path s) = StatFails) \<and>
    set (rs_would_create r) \<subseteq> set MM_INTERNAL_SOURCE_NAMES \<and> (bootstrap \<longrightarrow> rs_would_create r = [])"
proof -
  obtain configured explicit created available where
    c: "configured_sources ho strict config = Inr (configured, explicit)"
    and v: "check_source_entries [] (map JObj configured) = Inr ()"
    and w: "would_create ho strict bootstrap (rs_selected r) = Inr created"
    and a: "filter_available ho strict created (rs_selected r) = Inr available"
    and r: "rs_selected r = filter (\<lambda>s. source_name s \<notin> set (disabled_names (table config ''sync''))) configured"
      "rs_available r = available" "rs_explicit r = explicit" "rs_would_create r = created"
    using assms by (auto simp: resolve_sources_def validate_sources_def Let_def split: sum.splits prod.splits)
  have "distinct (map source_name configured)"
    using checked_names [OF v] configured_not_retired [OF c] by blast
  then have "distinct (map source_name (rs_selected r))"
    unfolding r(1) by (rule distinct_map_filter)
  moreover have "\<forall>s \<in> set (rs_selected r). source_name s \<notin> set RETIRED_SOURCE_NAMES \<and>
       source_name s \<notin> set (disabled_names (table config ''sync'')) \<and>
       (if rs_explicit r then \<exists>vs src p. map_of (table config ''sync'') (u ''sources'') = Some (JList vs) \<and>
          JObj src \<in> set vs \<and> s = with_path src p
        else source_name s \<noteq> u ''muse'' \<and> source_name s \<noteq> u ''agy'')"
    using configured_names [OF c] r(1,3) by auto
  moreover have "set created \<subseteq> set MM_INTERNAL_SOURCE_NAMES" "bootstrap \<longrightarrow> created = []"
    using would_create_names [OF w] by auto
  moreover have "set available \<subseteq> set (rs_selected r)"
    "\<forall>s \<in> set (rs_selected r). s \<notin> set available \<longrightarrow>
       ho_stat ho (source_path s) = StatMissing \<or> \<not> strict \<and> ho_stat ho (source_path s) = StatFails"
    using filter_available_spec [OF a] by simp_all
  ultimately show ?thesis
    unfolding r(2,4) by (intro conjI)
qed

text \<open>An explicit list with a disabled and a retired entry.\<close>

definition sample_host :: host where
  "sample_host = \<lparr>ho_expand = id, ho_absolute = id, ho_resolve = Some, ho_home = (\<lambda>_. StatOk),
     ho_stat = (\<lambda>p. if p = u ''/gone'' then StatMissing else StatOk), ho_agy_sessions = False,
     ho_default_events = (\<lambda>_. False), ho_preview = (\<lambda>_. AlreadyThere), ho_bootstrap_ok = (\<lambda>_. True)\<rparr>"

definition sample_entry :: "string \<Rightarrow> string \<Rightarrow> json" where
  "sample_entry name p = JObj [(u ''name'', JStr (u name)), (u ''path'', JStr (u p)), (u ''type'', JStr (u ''generic''))]"

definition sample_config :: "(pystr, json) dict" where
  "sample_config = [(u ''sync'', JObj [(u ''sources'', JList [sample_entry ''notes'' ''/notes'', sample_entry ''old'' ''/gone'',
     sample_entry ''off'' ''/off'', sample_entry ''grok'' ''/grok'']), (u ''disabled_sources'', JList [JStr (u ''off'')])])]"

lemma sample_resolution:
  "map_sum id (\<lambda>r. (map source_name (rs_selected r), map source_name (rs_available r)))
     (resolve_sources sample_host True True sample_config) = Inr ([u ''notes'', u ''old''], [u ''notes''])"
  by code_simp

theorem selection_permitted_witness:
  "\<exists>r. resolve_sources sample_host True True sample_config = Inr r \<and>
     map source_name (rs_selected r) = [u ''notes'', u ''old''] \<and> distinct (map source_name (rs_selected r)) \<and>
     rs_would_create r = []"
proof -
  obtain r where r: "resolve_sources sample_host True True sample_config = Inr r"
    "map source_name (rs_selected r) = [u ''notes'', u ''old'']"
    using sample_resolution by (cases "resolve_sources sample_host True True sample_config") auto
  show ?thesis
    using selection_permitted [OF r(1)] r by (intro exI [of _ r]) simp
qed

end
