(* ===== verification/PushCore.thy ===== *)
theory PushCore
  imports Sources Upload Fetch Devices
begin

text \<open>
  A whole push, \<open>_push_core\<close> of \<open>cli.py\<close>: the resolution of the sources, the published manifest or what
  stands in for it, the sources kept because they were published, the scan and the snapshot, the decision
  that there is something to push, the second look at the event log after it was written, and the upload
  and publication. Usage capture, skill links, printing, the sidecar and the maintenance after the
  acceptance are left out. The laws: whatever ends a push, the manifest in the storage folder is the old
  one or a complete new one, and a published source that is gone refuses.
\<close>

section \<open>Sources kept because they were published\<close>

definition strings_at :: "(pystr, json) dict \<Rightarrow> string \<Rightarrow> pystr list" where
  "strings_at src k = (case map_of src (u k) of Some (JList vs) \<Rightarrow> map (\<lambda>v. case v of JStr s \<Rightarrow> s | _ \<Rightarrow> []) vs | _ \<Rightarrow> [])"

definition typed_source :: "(pystr, json) dict \<Rightarrow> walk_cfg" where
  "typed_source src =
     \<lparr>sc_name = source_name src, sc_type = source_str src ''type'', sc_path = source_path src,
      sc_exclude = strings_at src ''exclude_patterns'', sc_include = strings_at src ''include_patterns'',
      sc_dirs = strings_at src ''include_dirs'', sc_files = strings_at src ''include_files''\<rparr>"

definition published_names :: "manifest option \<Rightarrow> pystr list" where
  "published_names prior = dkeys (prior_sources prior)"

definition published_files :: "manifest option \<Rightarrow> pystr \<Rightarrow> files" where
  "published_files prior name = files_in (prior_sources prior) name"

definition retain_prior_default_sources :: "host \<Rightarrow> (pystr, json) dict \<Rightarrow> manifest option \<Rightarrow> resolution \<Rightarrow> resolution" where
  "retain_prior_default_sources ho config prior r =
     (if rs_explicit r \<or> prior = None then r
      else
        (let disabled = disabled_names (table config ''sync'');
             keep = (\<lambda>name selected.
               if name \<in> set (map source_name selected) \<or> name \<in> set disabled then selected
               else (case get_default_source name of None \<Rightarrow> selected | Some d \<Rightarrow> selected @ [expanded ho d]))
         in r\<lparr>rs_selected := fold keep (published_names prior) (rs_selected r)\<rparr>))"

definition include_prior_host_if_needed ::
  "host \<Rightarrow> (pystr, json) dict \<Rightarrow> resolution \<Rightarrow> manifest option \<Rightarrow> pystr \<Rightarrow> (pystr, json) dict list \<Rightarrow>
     snapshot_error + (pystr, json) dict list" where
  "include_prior_host_if_needed ho config r prior name srcs =
     (if published_files prior name = [] then Inr srcs
      else if name \<in> set (disabled_names (table config ''sync'')) \<or> name \<in> set (map source_name srcs) then Inr srcs
      else
        (let found = find (\<lambda>s. source_name s = name) (rs_selected r);
             cfg = (case found of Some s \<Rightarrow> Some s
               | None \<Rightarrow> if rs_explicit r then None else map_option (expanded ho) (get_default_source name))
         in case cfg of
              None \<Rightarrow> Inr srcs
            | Some s \<Rightarrow> if ho_stat ho (ho_expand ho (source_path s)) = StatOk then Inr (srcs @ [s]) else Inl SnapshotError))"

definition refuse_unavailable_selected_sources ::
  "resolution \<Rightarrow> manifest option \<Rightarrow> (pystr, json) dict list \<Rightarrow> snapshot_error + unit" where
  "refuse_unavailable_selected_sources r prior available =
     (if \<exists>s \<in> set (rs_selected r). source_name s \<notin> set (map source_name available) \<and> published_files prior (source_name s) \<noteq> []
      then Inl SnapshotError else Inr ())"

section \<open>Drift of modification times\<close>

definition newer_mtime :: "(pystr \<Rightarrow> py_dt option) \<Rightarrow> file_info \<Rightarrow> file_info \<Rightarrow> bool" where
  "newer_mtime fromiso mine theirs \<longleftrightarrow>
     fi_sha256 mine = fi_sha256 theirs \<and>
     (case (fi_mtime mine, fi_mtime theirs) of
        (Some a, Some b) \<Rightarrow>
          a \<noteq> [] \<and> b \<noteq> [] \<and>
          (case (mtime_from_manifest fromiso a, mtime_from_manifest fromiso b) of (Some x, Some y) \<Rightarrow> x > y | _ \<Rightarrow> False)
      | _ \<Rightarrow> False)"

definition has_mtime_only_changes_vs_remote ::
  "(pystr \<Rightarrow> py_dt option) \<Rightarrow> manifest \<Rightarrow> (pystr, source_data) dict \<Rightarrow> bool" where
  "has_mtime_only_changes_vs_remote fromiso local_m remote_sources \<longleftrightarrow>
     (\<exists>(name, sd) \<in> set (sources_of local_m). \<exists>(rel, info) \<in> set (sd_files sd).
        case map_of (files_in remote_sources name) rel of None \<Rightarrow> False | Some r \<Rightarrow> newer_mtime fromiso info r)"

section \<open>The second look at the event log\<close>

definition carry_frozen :: "files \<Rightarrow> pystr list \<Rightarrow> files \<Rightarrow> pystr list \<times> files" where
  "carry_frozen previous frozen seen =
     (filter (\<lambda>rel. map_of seen rel = None) frozen,
      fold (\<lambda>rel fs. case map_of previous rel of
          Some i \<Rightarrow> if map_of seen rel = None then AList.update rel i fs else fs
        | None \<Rightarrow> fs) frozen seen)"

definition freeze_held :: "pystr list \<Rightarrow> files \<Rightarrow> pystr list \<Rightarrow> pystr list \<times> files \<Rightarrow> pystr list \<times> files" where
  "freeze_held roots previous held st =
     fold (\<lambda>rel st. case st of
         (frozen, fs) \<Rightarrow>
           (case map_of previous rel of
              Some i \<Rightarrow>
                if roots \<noteq> [] \<and> map_of fs rel = None \<and> under_skip_prefix rel roots
                then (List.insert rel frozen, AList.update rel i fs) else (frozen, fs)
            | None \<Rightarrow> (frozen, fs))) held st"

definition carry_source ::
  "manifest \<Rightarrow> path_sets \<Rightarrow> hold_map \<Rightarrow> pystr \<times> source_data \<Rightarrow> path_sets \<times> (pystr, source_data) dict \<Rightarrow>
     path_sets \<times> (pystr, source_data) dict" where
  "carry_source local_m nested held e st =
     (case e of
        (name, data) \<Rightarrow>
          (case st of
             (frozen, out) \<Rightarrow>
               (let previous = files_in (sources_of local_m) name
                in case freeze_held (dget nested name []) previous (dkeys (dget held name []))
                          (carry_frozen previous (dget frozen name []) (sd_files data)) of
                     (fr, fs) \<Rightarrow> (AList.update name fr frozen, out @ [(name, data\<lparr>sd_files := fs\<rparr>)]))))"

text \<open>\<open>sc\<close> is the scan of the internal sources after the tail; \<open>env\<close> has the probes of that moment.\<close>

definition rescan_step :: "push_env \<Rightarrow> scan \<Rightarrow> snapshot \<Rightarrow> snapshot_error + snapshot" where
  "rescan_step env sc sn =
     (case fold (carry_source (sn_local sn) (s_nested sc) (sn_held sn)) (sources_of (s_manifest sc)) (sn_frozen sn, []) of
        (frozen, out) \<Rightarrow>
          (let events = (s_manifest sc)\<lparr>m_sources := Some out\<rparr>;
               rest = dict_filter (\<lambda>name _. map_of out name = None) (sn_held sn)
           in case (if s_held sc = None then Inr (events, sn_held sn)
                    else map_sum id (\<lambda>(m, h). (m, dict_update rest h)) (hold_step env sc events (sn_prior sn) frozen)) of
                Inl e \<Rightarrow> Inl e
              | Inr (events, held) \<Rightarrow>
                  (let local_m = (sn_local sn)\<lparr>m_sources := Some (dict_update (sources_of (sn_local sn)) (sources_of events))\<rparr>
                   in case prove_omitted_paths_absent (pe_alpha env) (pe_sources env) (pe_root_ok env) (pe_tree env)
                             local_m (sn_prior sn) of
                        Inl e \<Rightarrow> Inl e
                      | Inr _ \<Rightarrow> Inr (sn\<lparr>sn_local := local_m, sn_frozen := frozen, sn_held := held\<rparr>))))"

section \<open>The push\<close>

text \<open>The surroundings of a push: the configuration, the system, the storage operations with their
  environment, the fetch, the recovery material, the two scans with the probes of their moments, and
  whether a catch-up of the activity log is due.\<close>

record push_world =
  pw_config :: "(pystr, json) dict"
  pw_host :: host
  pw_dry_run :: bool
  pw_up :: upload_env
  pw_name :: pystr
  pw_dumps :: "device \<Rightarrow> bytes"
  pw_now :: int
  pw_now_iso :: pystr
  pw_serialize :: "manifest \<Rightarrow> bytes"
  pw_fetch :: "dnode \<Rightarrow> fetch_error + manifest_fetch"
  pw_chash :: "manifest \<Rightarrow> pystr"
  pw_sidecar :: "manifest option"
  pw_peers :: "dnode \<Rightarrow> fetch_error + tombstones"
  pw_scan :: "bool \<Rightarrow> walk_cfg list \<Rightarrow> scan_error + scan"
  pw_rescan :: "bool \<Rightarrow> walk_cfg list \<Rightarrow> path_sets \<Rightarrow> scan_error + scan"
  pw_markers :: "source_cfg \<Rightarrow> snapshot_error + pystr list"
  pw_alpha :: "int \<Rightarrow> bool"
  pw_tree :: "nat \<Rightarrow> pystr \<Rightarrow> tree"
  pw_root_ok :: "nat \<Rightarrow> pystr \<Rightarrow> bool"
  pw_catchup :: bool

datatype push_stop =
    StopDevice device_error
  | StopResolve resolve_error
  | StopFetch fetch_error
  | StopNewer
  | StopRecover recover_error
  | StopScan scan_error
  | StopSnapshot push_error
  | StopUpload upload_error

datatype push_end = PushStopped push_stop | NoSources | NothingToPush | DryRunDone | Published manifest

definition ensure_device_registered :: "push_world \<Rightarrow> dnode \<Rightarrow> device_error + dnode" where
  "ensure_device_registered pw store =
     (if pw_dry_run pw then Inr store
      else
        (case device_key (ue_device (pw_up pw)) of
           Inl e \<Rightarrow> Inl (BadKey e)
         | Inr key \<Rightarrow>
             if backend_exists store key then Inr store
             else register_device (pw_dumps pw) (pw_now_iso pw) store (ue_device (pw_up pw)) (pw_name pw)))"

definition skipped_internal :: "host \<Rightarrow> resolution \<Rightarrow> (pystr, json) dict list" where
  "skipped_internal ho r =
     filter (\<lambda>s. source_name s \<in> set MM_INTERNAL_SOURCE_NAMES \<and> source_name s \<notin> set (map source_name (rs_available r)) \<and>
         \<not> ho_default_events ho (source_path s)) (rs_selected r)"

definition recovering :: "manifest_fetch \<Rightarrow> bool" where
  "recovering f \<longleftrightarrow> mf_status f = StatusCorrupt \<or> mf_copies_only f \<or> mf_vanished f"

definition fetched_manifest :: "manifest_fetch \<Rightarrow> manifest option" where
  "fetched_manifest f = (if mf_status f = StatusOk then mf_manifest f else None)"

definition base_cfgs :: "walk_cfg list \<Rightarrow> source_cfg list" where
  "base_cfgs cfgs = map source_cfg.truncate cfgs"

text \<open>The arguments of the snapshot at moment \<open>n\<close>.\<close>

definition snapshot_env ::
  "push_world \<Rightarrow> nat \<Rightarrow> walk_cfg list \<Rightarrow> walk_cfg list \<Rightarrow> pystr list \<Rightarrow> gate \<Rightarrow> (file_info \<Rightarrow> bool) option \<Rightarrow> push_env" where
  "snapshot_env pw n cfgs proof_cfgs intended g keep =
     \<lparr>pe_sources = base_cfgs cfgs, pe_proof = base_cfgs proof_cfgs, pe_intended = intended, pe_gate = g,
      pe_alpha = pw_alpha pw, pe_tree = pw_tree pw n, pe_root_ok = pw_root_ok pw n, pe_keep = keep\<rparr>"

definition blob_stored :: "pystr \<Rightarrow> dnode \<Rightarrow> file_info \<Rightarrow> bool" where
  "blob_stored dev store info =
     (case blob_key dev (JStr (fi_sha256 info)) of Inl _ \<Rightarrow> False | Inr key \<Rightarrow> backend_exists store key)"

definition push_gate :: "push_world \<Rightarrow> walk_cfg list \<Rightarrow> snapshot_error + gate" where
  "push_gate pw cfgs =
     (case build_exclude_map (pw_markers pw) [] (base_cfgs cfgs) ([], []) of
        Inl e \<Rightarrow> Inl e
      | Inr (exclude, skip) \<Rightarrow> Inr \<lparr>g_exclude = exclude, g_skip = skip, g_include = build_include_map (base_cfgs cfgs)\<rparr>)"

text \<open>What there is to push against the manifest of the fetch, and the sources that were advertised.\<close>

definition worth_pushing :: "push_world \<Rightarrow> manifest_fetch \<Rightarrow> pystr list \<Rightarrow> manifest \<Rightarrow> bool" where
  "worth_pushing pw f advertised local_m \<longleftrightarrow>
     (let remote_sources = prior_sources (fetched_manifest f);
          substantive = iter_source_diffs local_m remote_sources None True \<noteq> []
      in substantive \<or> has_mtime_only_changes_vs_remote (ue_fromiso (pw_up pw)) local_m remote_sources \<or> recovering f \<or>
         set (dkeys (sources_of local_m)) \<noteq> set advertised \<or> pw_catchup pw)"

definition second_look ::
  "push_world \<Rightarrow> bool \<Rightarrow> walk_cfg list \<Rightarrow> push_env \<Rightarrow> path_sets \<Rightarrow> snapshot \<Rightarrow> push_stop + snapshot" where
  "second_look pw hold cfgs env nested sn =
     (let internal = filter (\<lambda>s. sc_name s \<in> set MM_INTERNAL_SOURCE_NAMES) cfgs
      in if internal = [] then Inr sn
         else
           (case pw_rescan pw hold internal nested of
              Inl e \<Rightarrow> Inl (StopScan e)
            | Inr sc \<Rightarrow>
                (case rescan_step env sc sn of
                   Inl e \<Rightarrow> Inl (StopSnapshot (RefusedSnapshot e))
                 | Inr sn' \<Rightarrow>
                     (case generate_tombstones (ue_fromiso (pw_up pw)) (pw_now pw) (pw_now_iso pw) (sn_local sn') (sn_prior sn')
                             (ue_device (pw_up pw)) of
                        Inl e \<Rightarrow> Inl (StopSnapshot (RefusedManifest e))
                      | Inr ts \<Rightarrow> Inr (sn'\<lparr>sn_local := (sn_local sn')\<lparr>m_tombstones := ts\<rparr>\<rparr>)))))"

text \<open>From the final sources on.\<close>

definition push_sources ::
  "push_world \<Rightarrow> manifest_fetch \<Rightarrow> manifest option \<Rightarrow> resolution \<Rightarrow> (pystr, json) dict list \<Rightarrow> dnode \<Rightarrow> push_end \<times> dnode" where
  "push_sources pw f prior r srcs store =
     (let up = (pw_up pw)\<lparr>ue_allow_hold := \<not> recovering f\<rparr>; dev = ue_device up; cfgs = map typed_source srcs;
          intended = map source_name (rs_selected r) @ map source_name srcs;
          proof_cfgs = (if pw_dry_run pw then filter (\<lambda>s. sc_name s \<notin> set (rs_would_create r)) cfgs else cfgs);
          keep = (if mf_status f = StatusOk \<and> \<not> mf_copies_only f then None else Some (blob_stored dev store))
      in case pw_scan pw (\<not> recovering f) cfgs of
           Inl e \<Rightarrow> (PushStopped (StopScan e), store)
         | Inr sc \<Rightarrow>
             (case push_gate pw cfgs of
                Inl e \<Rightarrow> (PushStopped (StopSnapshot (RefusedSnapshot e)), store)
              | Inr g \<Rightarrow>
                  (case push_snapshot (ue_fromiso up) (pw_now pw) (pw_now_iso pw) dev
                          (snapshot_env pw 0 cfgs proof_cfgs intended g keep) sc prior of
                     Inl e \<Rightarrow> (PushStopped (StopSnapshot e), store)
                   | Inr sn \<Rightarrow>
                       if \<not> worth_pushing pw f (published_names prior) (sn_local sn) then (NothingToPush, store)
                       else if pw_dry_run pw then (DryRunDone, store)
                       else
                         (case second_look pw (\<not> recovering f) cfgs
                                 (snapshot_env pw 1 cfgs cfgs intended g keep) (s_nested sc) sn of
                            Inl e \<Rightarrow> (PushStopped e, store)
                          | Inr sn' \<Rightarrow>
                              (case push_publish up (pw_now pw) (pw_now_iso pw) (pw_serialize pw) (fetched_manifest f) (sn_prior sn')
                                      (sn_frozen sn') (sn_held sn') (sn_local sn') store of
                                 (Inl e, store') \<Rightarrow> (PushStopped (StopUpload e), store')
                               | (Inr m, store') \<Rightarrow> (Published m, store'))))))"

definition push_core :: "push_world \<Rightarrow> dnode \<Rightarrow> push_end \<times> dnode" where
  "push_core pw store =
     (let ho = pw_host pw; config = pw_config pw in
      case ensure_device_registered pw store of
        Inl e \<Rightarrow> (PushStopped (StopDevice e), store)
      | Inr store \<Rightarrow>
      (case resolve_sources ho True (\<not> pw_dry_run pw) config of
        Inl e \<Rightarrow> (PushStopped (StopResolve e), store)
      | Inr r \<Rightarrow>
      (let skipped = skipped_internal ho r;
           r = r\<lparr>rs_selected := filter (\<lambda>s. s \<notin> set skipped) (rs_selected r)\<rparr>
       in if rs_selected r = [] \<and> skipped = [] then (NoSources, store)
          else
      (case pw_fetch pw store of
        Inl e \<Rightarrow> (PushStopped (StopFetch e), store)
      | Inr f \<Rightarrow>
      if mf_newer f \<noteq> None then (PushStopped StopNewer, store)
      else
      (case recover_prior_manifest (pw_chash pw) f (pw_sidecar pw) (pw_peers pw store) of
        Inl e \<Rightarrow> (PushStopped (StopRecover e), store)
      | Inr prior \<Rightarrow>
      (let r = retain_prior_default_sources ho config prior r in
      (case include_prior_host_if_needed ho config r prior (u ''muse'') (rs_available r) of
        Inl e \<Rightarrow> (PushStopped (StopSnapshot (RefusedSnapshot e)), store)
      | Inr srcs \<Rightarrow>
      (case include_prior_host_if_needed ho config r prior (u ''agy'') srcs of
        Inl e \<Rightarrow> (PushStopped (StopSnapshot (RefusedSnapshot e)), store)
      | Inr srcs \<Rightarrow>
      (case refuse_unavailable_selected_sources r prior srcs of
        Inl e \<Rightarrow> (PushStopped (StopSnapshot (RefusedSnapshot e)), store)
      | Inr _ \<Rightarrow>
          if srcs = [] \<and> skipped = [] then (NoSources, store)
          else push_sources pw f prior r srcs store)))))))))"

section \<open>Laws\<close>

text \<open>Entries that are carried rather than scanned -- below a checkout, or held -- have their blob.\<close>

definition carried_stored :: "pystr \<Rightarrow> dnode \<Rightarrow> manifest \<Rightarrow> path_sets \<Rightarrow> hold_map \<Rightarrow> bool" where
  "carried_stored dev store l fr held \<longleftrightarrow>
     (\<forall>name rel i. files_at l name rel = Some i \<longrightarrow>
        rel \<in> set (dget fr name []) \<or> is_held held name rel \<longrightarrow> has_blob dev store i)"

text \<open>A published entry has its blob when it may be carried: because files may be held, or because the
  gate on recovered entries lets it pass.\<close>

definition vouched ::
  "pystr \<Rightarrow> dnode \<Rightarrow> (file_info \<Rightarrow> bool) option \<Rightarrow> bool \<Rightarrow> manifest option \<Rightarrow> bool" where
  "vouched dev store keep hold prior \<longleftrightarrow>
     (\<forall>name rel i. map_of (files_in (prior_sources prior) name) rel = Some i \<longrightarrow>
        hold \<or> (case keep of None \<Rightarrow> True | Some k \<Rightarrow> k i) \<longrightarrow> has_blob dev store i)"

lemma prior_sources_Some [simp]: "prior_sources (Some p) = sources_of p"
  by (simp add: prior_sources_def)

lemma not_held_Nil [simp]: "\<not> is_held [] name rel"
  by (simp add: is_held_def dget_def)

lemma hold_step_none: "hold_step env sc l prior fr = Inr (l', held) \<Longrightarrow> s_held sc = None \<Longrightarrow> held = [] \<and> l' = l"
  by (simp add: hold_step_def)

lemma hold_step_wants_source:
  assumes "hold_step env sc l prior fr = Inr (l', held)" "is_held held name rel"
  shows "map_of (sources_of l) name \<noteq> None"
proof (cases "s_held sc")
  case None
  with hold_step_none [OF assms(1)] assms(2) show ?thesis by simp
next
  case (Some hc)
  obtain h c where hc: "hc = (h, c)" by (cases hc)
  from assms(1) Some hc have "inject_held_entries (pe_gate env) (vanished_probe env) l prior h c fr = Inr (l', held)"
    by (simp add: hold_step_def)
  from inject_held(1) [OF this, of name rel] assms(2) show ?thesis by (simp add: hold_result_def)
qed

lemma prior_step_frozen:
  assumes "prior_step env sc prior = Inr sn" "wf_manifest prior" "wf_manifest (s_manifest sc)"
    "distinct_keys (s_nested sc)" "rel \<in> set (dget (sn_frozen sn) name [])" "files_at prior name rel = Some i"
    "pe_keep env = Some k"
  shows "k i"
proof -
  define p1 where "p1 = filter_unselected_sources (pe_intended env) prior"
  define p2 where "p2 = filter_excluded_paths (pe_gate env) p1"
  obtain l1 fr where fz: "freeze_nested_checkout_entries (pe_keep env) (s_manifest sc) p2 (s_nested sc) = (l1, fr)"
    by fastforce
  have fr: "sn_frozen sn = fr"
    using assms(1) fz unfolding p2_def p1_def by (auto simp: prior_step_def Let_def split: sum.splits prod.splits)
  have w1: "wf_manifest p1" unfolding p1_def by (rule filter_source_wf [OF assms(2)])
  have w2: "wf_manifest p2" unfolding p2_def by (rule filter_excluded_wf [OF w1])
  have f2: "files_at p2 name rel = (if name \<in> set (pe_intended env) \<and> name \<notin> set RETIRED_SOURCE_NAMES \<and>
      \<not> gate_excluded (pe_gate env) name rel then files_at prior name rel else None)"
    unfolding p2_def p1_def
    by (simp add: filter_excluded_files [OF filter_source_wf(1) [OF assms(2)]] filter_unselected_files [OF assms(2)])
  from freeze_nested(1) [OF fz assms(3) w2 assms(4), of name rel] assms(5) obtain info where
    "files_at p2 name rel = Some info" "freezes (pe_keep env) (m_tombstones p2) name (dget (s_nested sc) name []) rel info"
    by (auto simp: frozen_result_def fr)
  with f2 assms(6,7) show ?thesis by (auto simp: freezes_def split: if_splits)
qed

lemma set_tombstones_wf:
  "wf_manifest m \<Longrightarrow> distinct_keys ts \<Longrightarrow> wf_manifest (m\<lparr>m_tombstones := ts\<rparr>)"
  by (simp add: wf_manifest_def)

lemma files_at_tombstones [simp]: "files_at (m\<lparr>m_tombstones := ts\<rparr>) name rel = files_at m name rel"
  by (simp add: files_at_def)

lemma generated_distinct:
  assumes "generate_tombstones fromiso now now_iso l prior dev = Inr ts" "\<And>r. prior = Some r \<Longrightarrow> wf_manifest r"
  shows "distinct_keys ts"
proof (cases prior)
  case None
  with assms(1) show ?thesis by (simp add: generate_tombstones_def distinct_keys_def)
next
  case (Some r)
  with assms show ?thesis by (auto simp: wf_manifest_def intro: generate_tombstones_distinct)
qed

lemma snapshot_carried:
  assumes "push_snapshot fromiso now now_iso dev env sc prior = Inr sn"
    and "\<forall>p. prior = Some p \<longrightarrow> wf_manifest p" "wf_manifest (s_manifest sc)" "distinct_keys (s_nested sc)"
    and v: "vouched dev store (pe_keep env) (s_held sc \<noteq> None) prior"
  shows "wf_manifest (sn_local sn)" "carried_stored dev store (sn_local sn) (sn_frozen sn) (sn_held sn)"
    "\<And>r. sn_prior sn = Some r \<Longrightarrow> wf_manifest r"
    "\<And>name rel i. map_of (files_in (prior_sources (sn_prior sn)) name) rel = Some i \<Longrightarrow>
       map_of (files_in (prior_sources prior) name) rel = Some i"
    "s_held sc = None \<Longrightarrow> sn_held sn = []"
proof -
  have "wf_manifest (sn_local sn) \<and> carried_stored dev store (sn_local sn) (sn_frozen sn) (sn_held sn) \<and>
    (\<forall>r. sn_prior sn = Some r \<longrightarrow> wf_manifest r) \<and>
    (\<forall>name rel i. map_of (files_in (prior_sources (sn_prior sn)) name) rel = Some i \<longrightarrow>
       map_of (files_in (prior_sources prior) name) rel = Some i) \<and> (s_held sc = None \<longrightarrow> sn_held sn = [])"
  proof (cases prior)
    case None
    from assms(1) None obtain l' h ts where h: "hold_step env sc (s_manifest sc) None [] = Inr (l', h)"
      and g: "generate_tombstones fromiso now now_iso l' None dev = Inr ts"
      and sn: "sn = \<lparr>sn_local = l'\<lparr>m_tombstones := ts\<rparr>, sn_prior = None, sn_frozen = [], sn_held = h\<rparr>"
      by (auto simp: push_snapshot_def push_scan_def split: sum.splits)
    note hr = hold_step_result [OF h]
    have "wf_manifest l'" by (rule hr(3) [OF assms(3)])
    moreover have "distinct_keys ts" using generated_distinct [OF g] by simp
    moreover have "\<not> (is_held h name rel \<and> files_at l' name rel \<noteq> None)" for name rel
      using hr(1,2) [of name rel] by (auto simp: prior_sources_def files_in_def)
    ultimately show ?thesis using hold_step_none [OF h]
      by (auto simp: sn carried_stored_def dget_def wf_manifest_def None)
  next
    case (Some p)
    note wp = assms(2) [rule_format, OF Some]
    from assms(1) Some obtain sn0 ts where ps: "prior_step env sc p = Inr sn0"
      and g: "generate_tombstones fromiso now now_iso (sn_local sn0) (sn_prior sn0) dev = Inr ts"
      and sn: "sn = sn0\<lparr>sn_local := (sn_local sn0)\<lparr>m_tombstones := ts\<rparr>\<rparr>"
      by (auto simp: push_snapshot_def push_scan_def split: sum.splits)
    from prior_step_built [OF ps wp assms(3,4)] obtain remote where b: "built env sc p sn0 remote" ..
    note r = builtD [OF b]
    have rp: "files_at remote name rel = Some i \<Longrightarrow> files_at p name rel = Some i" for name rel i
      unfolding r(4) by (simp split: if_splits)
    have none: "sn_held sn0 = []" if "s_held sc = None"
      using ps that by (auto simp: prior_step_def hold_step_def Let_def split: prod.splits sum.splits)
    have "has_blob dev store i" if f: "files_at (sn_local sn0) name rel = Some i"
      and c: "rel \<in> set (dget (sn_frozen sn0) name []) \<or> is_held (sn_held sn0) name rel" for name rel i
    proof (cases "rel \<in> set (dget (sn_frozen sn0) name [])")
      case True
      with f r(6) [of name rel] r(7) [OF True] have p: "files_at p name rel = Some i" by simp
      have "case pe_keep env of None \<Rightarrow> True | Some k \<Rightarrow> k i"
      proof (cases "pe_keep env")
        case (Some k)
        with prior_step_frozen [OF ps wp assms(3,4) True p Some] show ?thesis by simp
      qed simp
      with v p show ?thesis by (auto simp: vouched_def Some files_at_def)
    next
      case False
      with c have h: "is_held (sn_held sn0) name rel" by blast
      have sh: "s_held sc \<noteq> None"
      proof
        assume "s_held sc = None"
        from none [OF this] h show False by simp
      qed
      from ps obtain l1 l2 fr held where ho: "hold_step env sc l1 (Some remote) fr = Inr (l2, held)"
        and s0: "sn_local sn0 = l2" "sn_held sn0 = held" using r(1)
        by (auto simp: prior_step_def Let_def split: prod.splits sum.splits)
      have "files_at l1 name rel = None" using hold_step_result(2) [OF ho] h s0 by simp
      with hold_step_result(1) [OF ho, of name rel] h f s0 have "files_at remote name rel = Some i"
        by (simp add: files_at_def)
      from rp [OF this] v sh show ?thesis by (auto simp: vouched_def Some files_at_def)
    qed
    then have "carried_stored dev store (sn_local sn0) (sn_frozen sn0) (sn_held sn0)"
      unfolding carried_stored_def by blast
    moreover have "wf_manifest ((sn_local sn0)\<lparr>m_tombstones := ts\<rparr>)"
      by (rule set_tombstones_wf [OF r(3) generated_distinct [OF g]]) (use r(1,2) in simp)
    ultimately show ?thesis using r(1,2) rp none by (auto simp: sn carried_stored_def Some files_at_def)
  qed
  then show "wf_manifest (sn_local sn)" "carried_stored dev store (sn_local sn) (sn_frozen sn) (sn_held sn)"
    "\<And>r. sn_prior sn = Some r \<Longrightarrow> wf_manifest r"
    "\<And>name rel i. map_of (files_in (prior_sources (sn_prior sn)) name) rel = Some i \<Longrightarrow>
       map_of (files_in (prior_sources prior) name) rel = Some i"
    "s_held sc = None \<Longrightarrow> sn_held sn = []" by blast+
qed

text \<open>The second look. Every entry of the rescanned sources is scanned, or carried from the snapshot.\<close>

lemma carry_frozen_spec:
  assumes "carry_frozen previous frozen seen = (fr, fs)"
  shows "map_of fs rel = (case map_of seen rel of Some i \<Rightarrow> Some i
      | None \<Rightarrow> if rel \<in> set frozen then map_of previous rel else None)"
    and "rel \<in> set fr \<longleftrightarrow> rel \<in> set frozen \<and> map_of seen rel = None"
    and "distinct_keys seen \<Longrightarrow> distinct_keys fs"
proof -
  have g: "(\<forall>rel. map_of (fold (\<lambda>rel fs. case map_of previous rel of
          Some i \<Rightarrow> if map_of seen rel = None then AList.update rel i fs else fs
        | None \<Rightarrow> fs) frozen acc) rel =
      (if rel \<in> set frozen \<and> map_of seen rel = None \<and> map_of previous rel \<noteq> None then map_of previous rel else map_of acc rel)) \<and>
    (distinct_keys acc \<longrightarrow> distinct_keys (fold (\<lambda>rel fs. case map_of previous rel of
          Some i \<Rightarrow> if map_of seen rel = None then AList.update rel i fs else fs
        | None \<Rightarrow> fs) frozen acc))" for acc
  proof (induction frozen arbitrary: acc)
    case Nil
    then show ?case by simp
  next
    case (Cons q frozen)
    show ?case
    proof (cases "map_of previous q")
      case None
      with Cons [of acc] show ?thesis by auto
    next
      case (Some i)
      with Cons [of acc] Cons [of "AList.update q i acc"] show ?thesis
        by (auto simp: distinct_keys_update)
    qed
  qed
  from assms have fs: "fs = fold (\<lambda>rel fs. case map_of previous rel of
          Some i \<Rightarrow> if map_of seen rel = None then AList.update rel i fs else fs
        | None \<Rightarrow> fs) frozen seen" and fr: "fr = filter (\<lambda>rel. map_of seen rel = None) frozen"
    by (simp_all add: carry_frozen_def)
  show "map_of fs rel = (case map_of seen rel of Some i \<Rightarrow> Some i
      | None \<Rightarrow> if rel \<in> set frozen then map_of previous rel else None)"
    using g [of seen] by (auto simp: fs split: option.split)
  show "rel \<in> set fr \<longleftrightarrow> rel \<in> set frozen \<and> map_of seen rel = None" by (auto simp: fr)
  show "distinct_keys seen \<Longrightarrow> distinct_keys fs" using g [of seen] by (simp add: fs)
qed

lemma freeze_held_spec:
  assumes "freeze_held roots previous held (fr, fs) = (fr', fs')"
  shows "rel \<in> set fr' \<longleftrightarrow> rel \<in> set fr \<or>
      (rel \<in> set held \<and> roots \<noteq> [] \<and> map_of fs rel = None \<and> map_of previous rel \<noteq> None \<and> under_skip_prefix rel roots)"
    and "map_of fs' rel = (case map_of fs rel of Some i \<Rightarrow> Some i
      | None \<Rightarrow> if rel \<in> set held \<and> roots \<noteq> [] \<and> under_skip_prefix rel roots then map_of previous rel else None)"
    and "distinct_keys fs \<Longrightarrow> distinct_keys fs'"
proof -
  have "(rel \<in> set fr' \<longleftrightarrow> rel \<in> set fr \<or>
      (rel \<in> set held \<and> roots \<noteq> [] \<and> map_of fs rel = None \<and> map_of previous rel \<noteq> None \<and> under_skip_prefix rel roots)) \<and>
    (map_of fs' rel = (case map_of fs rel of Some i \<Rightarrow> Some i
      | None \<Rightarrow> if rel \<in> set held \<and> roots \<noteq> [] \<and> under_skip_prefix rel roots then map_of previous rel else None)) \<and>
    (distinct_keys fs \<longrightarrow> distinct_keys fs')"
    using assms unfolding freeze_held_def
  proof (induction held arbitrary: fr fs)
    case Nil
    then show ?case by (auto split: option.split)
  next
    case (Cons q held)
    define c where "c \<longleftrightarrow> roots \<noteq> [] \<and> map_of fs q = None \<and> under_skip_prefix q roots \<and> map_of previous q \<noteq> None"
    define fr1 where "fr1 = (if c then List.insert q fr else fr)"
    define fs1 where "fs1 = (if c then AList.update q (the (map_of previous q)) fs else fs)"
    from Cons.prems have "fold (\<lambda>rel st. case st of
         (frozen, fs) \<Rightarrow>
           (case map_of previous rel of
              Some i \<Rightarrow>
                if roots \<noteq> [] \<and> map_of fs rel = None \<and> under_skip_prefix rel roots
                then (List.insert rel frozen, AList.update rel i fs) else (frozen, fs)
            | None \<Rightarrow> (frozen, fs))) held (fr1, fs1) = (fr', fs')"
      by (cases "map_of previous q"; cases "roots \<noteq> [] \<and> map_of fs q = None \<and> under_skip_prefix q roots")
        (auto simp: fr1_def fs1_def c_def)
    note IH = Cons.IH [OF this]
    have f1: "map_of fs1 r = (if r = q \<and> c then map_of previous q else map_of fs r)" for r
      by (auto simp: fs1_def c_def)
    have k1: "r \<in> set fr1 \<longleftrightarrow> r \<in> set fr \<or> (r = q \<and> c)" for r by (auto simp: fr1_def)
    have d1: "distinct_keys fs \<Longrightarrow> distinct_keys fs1" by (auto simp: fs1_def distinct_keys_update)
    show ?case
    proof (intro conjI impI)
      show "rel \<in> set fr' \<longleftrightarrow> rel \<in> set fr \<or> (rel \<in> set (q # held) \<and> roots \<noteq> [] \<and> map_of fs rel = None \<and>
          map_of previous rel \<noteq> None \<and> under_skip_prefix rel roots)"
        using IH [THEN conjunct1] unfolding f1 k1 by (auto simp: c_def)
      show "map_of fs' rel = (case map_of fs rel of Some i \<Rightarrow> Some i
          | None \<Rightarrow> if rel \<in> set (q # held) \<and> roots \<noteq> [] \<and> under_skip_prefix rel roots then map_of previous rel else None)"
        using IH [THEN conjunct2, THEN conjunct1] unfolding f1
        by (cases "map_of fs rel"; cases "map_of previous rel") (auto simp: c_def split: if_splits option.splits)
      show "distinct_keys fs'" if "distinct_keys fs" using IH d1 [OF that] by blast
    qed
  qed
  then show "rel \<in> set fr' \<longleftrightarrow> rel \<in> set fr \<or>
      (rel \<in> set held \<and> roots \<noteq> [] \<and> map_of fs rel = None \<and> map_of previous rel \<noteq> None \<and> under_skip_prefix rel roots)"
    "map_of fs' rel = (case map_of fs rel of Some i \<Rightarrow> Some i
      | None \<Rightarrow> if rel \<in> set held \<and> roots \<noteq> [] \<and> under_skip_prefix rel roots then map_of previous rel else None)"
    "distinct_keys fs \<Longrightarrow> distinct_keys fs'" by blast+
qed

definition carried_one ::
  "manifest \<Rightarrow> path_sets \<Rightarrow> hold_map \<Rightarrow> path_sets \<Rightarrow> pystr \<Rightarrow> files \<Rightarrow> pystr list \<times> files" where
  "carried_one l nested held frozen name seen =
     freeze_held (dget nested name []) (files_in (sources_of l) name) (dkeys (dget held name []))
       (carry_frozen (files_in (sources_of l) name) (dget frozen name []) seen)"

lemma carry_sources:
  assumes "fold (carry_source l nested held) srcs (frozen, out) = (frozen', out')" "distinct_keys srcs"
  shows "\<exists>out1. out' = out @ out1 \<and> map fst out1 = map fst srcs \<and>
    (\<forall>name. case map_of srcs name of
        None \<Rightarrow> dget frozen' name [] = dget frozen name []
      | Some sd \<Rightarrow> dget frozen' name [] = fst (carried_one l nested held frozen name (sd_files sd)) \<and>
          map_of out1 name = Some (sd\<lparr>sd_files := snd (carried_one l nested held frozen name (sd_files sd))\<rparr>))"
  using assms
proof (induction srcs arbitrary: frozen out)
  case Nil
  then show ?case by simp
next
  case (Cons e srcs)
  obtain n sd where e: "e = (n, sd)" by (cases e)
  define fr where "fr = fst (carried_one l nested held frozen n (sd_files sd))"
  define fs where "fs = snd (carried_one l nested held frozen n (sd_files sd))"
  have "carry_source l nested held e (frozen, out) = (AList.update n fr frozen, out @ [(n, sd\<lparr>sd_files := fs\<rparr>)])"
    by (simp add: carry_source_def e fr_def fs_def carried_one_def Let_def split: prod.split)
  with Cons.prems have f: "fold (carry_source l nested held) srcs (AList.update n fr frozen, out @ [(n, sd\<lparr>sd_files := fs\<rparr>)]) =
      (frozen', out')" by simp
  have d: "distinct_keys srcs" "map_of srcs n = None"
    using Cons.prems(2) by (auto simp: distinct_keys_def e map_of_eq_None_iff)
  from Cons.IH [OF f d(1)] obtain out1 where o: "out' = out @ (n, sd\<lparr>sd_files := fs\<rparr>) # out1" "map fst out1 = map fst srcs"
    and h: "\<And>name. case map_of srcs name of
        None \<Rightarrow> dget frozen' name [] = dget (AList.update n fr frozen) name []
      | Some sd \<Rightarrow> dget frozen' name [] = fst (carried_one l nested held (AList.update n fr frozen) name (sd_files sd)) \<and>
          map_of out1 name =
            Some (sd\<lparr>sd_files := snd (carried_one l nested held (AList.update n fr frozen) name (sd_files sd))\<rparr>)" by auto
  have same: "name \<noteq> n \<Longrightarrow> carried_one l nested held (AList.update n fr frozen) name x = carried_one l nested held frozen name x"
    for name x by (simp add: carried_one_def)
  show ?case
  proof (intro exI [of _ "(n, sd\<lparr>sd_files := fs\<rparr>) # out1"] conjI allI)
    fix name
    show "case map_of (e # srcs) name of
        None \<Rightarrow> dget frozen' name [] = dget frozen name []
      | Some sd2 \<Rightarrow> dget frozen' name [] = fst (carried_one l nested held frozen name (sd_files sd2)) \<and>
          map_of ((n, sd\<lparr>sd_files := fs\<rparr>) # out1) name =
            Some (sd2\<lparr>sd_files := snd (carried_one l nested held frozen name (sd_files sd2))\<rparr>)"
    proof (cases "name = n")
      case True
      with h [of n] d(2) show ?thesis by (simp add: e fr_def fs_def)
    next
      case False
      with h [of name] same [OF False] show ?thesis by (simp add: e split: option.splits)
    qed
  qed (use o e in simp_all)
qed

lemma carried_one_spec:
  assumes "carried_one l nested held frozen name seen = (fr, fs)" "map_of fs rel = Some i"
  shows "map_of seen rel = Some i \<and> rel \<notin> set fr \<or>
    files_at l name rel = Some i \<and> map_of seen rel = None \<and> (rel \<in> set (dget frozen name []) \<or> is_held held name rel)"
proof -
  obtain fr1 fs1 where c: "carry_frozen (files_in (sources_of l) name) (dget frozen name []) seen = (fr1, fs1)" by fastforce
  have f: "freeze_held (dget nested name []) (files_in (sources_of l) name) (dkeys (dget held name [])) (fr1, fs1) = (fr, fs)"
    using assms(1) by (simp add: carried_one_def c)
  have h: "rel \<in> set (dkeys (dget held name [])) \<longleftrightarrow> is_held held name rel" by (simp add: is_held_def dom_def)
  note A = carry_frozen_spec(1,2) [OF c, of rel] and B = freeze_held_spec(1,2) [OF f, of rel, unfolded h]
  show ?thesis
  proof (cases "map_of seen rel")
    case (Some j)
    with A B assms(2) show ?thesis by simp
  next
    case None
    with A B assms(2) show ?thesis
      by (cases "map_of fs1 rel"; cases "rel \<in> set (dget frozen name [])"; cases "map_of (files_in (sources_of l) name) rel")
        (auto simp: files_at_def split: if_splits)
  qed
qed

lemma carried_one_distinct:
  assumes "carried_one l nested held frozen name seen = (fr, fs)" "distinct_keys seen"
  shows "distinct_keys fs"
proof -
  obtain fr1 fs1 where c: "carry_frozen (files_in (sources_of l) name) (dget frozen name []) seen = (fr1, fs1)" by fastforce
  from assms(1) freeze_held_spec(3) [OF _ carry_frozen_spec(3) [OF c assms(2)]] show ?thesis
    by (simp add: carried_one_def c)
qed

lemma wf_sourcesI:
  assumes "distinct_keys srcs" "\<And>n sd. map_of srcs n = Some sd \<Longrightarrow> distinct_keys (sd_files sd)"
  shows "wf_sources srcs"
  unfolding wf_sources_def
proof (intro conjI ballI)
  fix e assume "e \<in> set srcs"
  then have "map_of srcs (fst e) = Some (snd e)"
    using assms(1) by (intro map_of_is_SomeI) (simp_all add: distinct_keys_def)
  with assms(2) show "case e of (name, sd) \<Rightarrow> distinct_keys (sd_files sd)" by (auto split: prod.split)
qed (rule assms(1))

lemma hold_sources_shape:
  "hold_sources g missing ps tombs held candidates frozen names (l, sv) = Inr (l', sv') \<Longrightarrow>
     dom (map_of (sources_of l')) = dom (map_of (sources_of l)) \<and> (distinct_keys sv \<longrightarrow> distinct_keys sv')"
proof (induction names arbitrary: l sv)
  case Nil
  then show ?case by simp
next
  case (Cons name names)
  from Cons.prems obtain l1 sv1 where
    h: "hold_source g missing ps tombs held candidates frozen name (l, sv) = Inr (l1, sv1)" and
    f: "hold_sources g missing ps tombs held candidates frozen names (l1, sv1) = Inr (l', sv')"
    by (auto split: sum.splits)
  have "dom (map_of (sources_of l1)) = dom (map_of (sources_of l)) \<and> (distinct_keys sv \<longrightarrow> distinct_keys sv1)"
  proof (cases "map_of (sources_of l) name")
    case None
    with h show ?thesis by (simp add: hold_source_def)
  next
    case (Some sd)
    from h Some obtain fs kept where "l1 = set_source_files name fs l"
      "sv1 = (if kept = [] then sv else AList.update name kept sv)"
      by (auto simp: hold_source_def Let_def split: sum.splits prod.splits)
    then show ?thesis using Some
      by (auto simp: set_source_files_map_of dom_def distinct_keys_update)
  qed
  with Cons.IH [OF f] show ?case by auto
qed

lemma hold_step_shape:
  assumes "hold_step env sc l prior fr = Inr (l', held)"
  shows "dom (map_of (sources_of l')) = dom (map_of (sources_of l))" "distinct_keys held"
proof -
  have "dom (map_of (sources_of l')) = dom (map_of (sources_of l)) \<and> distinct_keys held"
  proof (cases "s_held sc")
    case None
    with hold_step_none [OF assms] show ?thesis by (simp add: distinct_keys_def)
  next
    case (Some hc)
    obtain h c where "hc = (h, c)" by (cases hc)
    with assms Some show ?thesis using hold_sources_shape
      by (fastforce simp: hold_step_def inject_held_entries_def distinct_keys_def)
  qed
  then show "dom (map_of (sources_of l')) = dom (map_of (sources_of l))" "distinct_keys held" by blast+
qed

text \<open>The rescanned part of the snapshot: its manifest before and after the held files.\<close>

lemma rescan_events:
  assumes f: "fold (carry_source l (s_nested sc) h0) (sources_of (s_manifest sc)) (fr0, []) = (fr, out)"
    and "wf_manifest (s_manifest sc)" and ev: "events = (s_manifest sc)\<lparr>m_sources := Some out\<rparr>"
  shows "wf_manifest events" "dom (map_of (sources_of events)) = dom (map_of (sources_of (s_manifest sc)))"
    "name \<notin> dom (map_of (sources_of events)) \<Longrightarrow> dget fr name [] = dget fr0 name []"
    "name \<in> dom (map_of (sources_of events)) \<Longrightarrow> files_at events name rel = Some i \<Longrightarrow>
       rel \<notin> set (dget fr name []) \<or>
       files_at l name rel = Some i \<and> (rel \<in> set (dget fr0 name []) \<or> is_held h0 name rel)"
proof -
  have ws: "wf_sources (sources_of (s_manifest sc))" "distinct_keys (m_tombstones (s_manifest sc))"
    using assms(2) by (simp_all add: wf_manifest_def)
  then have "distinct_keys (sources_of (s_manifest sc))" by (simp add: wf_sources_def)
  from carry_sources [OF f this] have k: "map fst out = map fst (sources_of (s_manifest sc))"
    and o: "\<And>name. case map_of (sources_of (s_manifest sc)) name of
        None \<Rightarrow> dget fr name [] = dget fr0 name []
      | Some sd \<Rightarrow> dget fr name [] = fst (carried_one l (s_nested sc) h0 fr0 name (sd_files sd)) \<and>
          map_of out name = Some (sd\<lparr>sd_files := snd (carried_one l (s_nested sc) h0 fr0 name (sd_files sd))\<rparr>)"
    by auto
  have src: "sources_of events = out" by (simp add: ev)
  have d: "dom (map_of out) = dom (map_of (sources_of (s_manifest sc)))"
    using arg_cong [OF k, of set] by (simp add: dom_map_of_conv_image_fst)
  have from_sd: "\<exists>sd. map_of (sources_of (s_manifest sc)) n = Some sd \<and> dget fr n [] = fst (carried_one l (s_nested sc) h0 fr0 n (sd_files sd)) \<and>
      sd_files sd' = snd (carried_one l (s_nested sc) h0 fr0 n (sd_files sd))" if m: "map_of out n = Some sd'" for n sd'
  proof -
    from m d obtain sd where "map_of (sources_of (s_manifest sc)) n = Some sd" by blast
    with o [of n] m show ?thesis by auto
  qed
  have "wf_sources out"
  proof (rule wf_sourcesI)
    show "distinct_keys out" using k ws(1) by (simp add: wf_sources_def distinct_keys_def)
    fix n sd' assume "map_of out n = Some sd'"
    from from_sd [OF this] obtain sd where sd: "map_of (sources_of (s_manifest sc)) n = Some sd"
      "sd_files sd' = snd (carried_one l (s_nested sc) h0 fr0 n (sd_files sd))" by blast
    from carried_one_distinct [OF surjective_pairing wf_source_files [OF ws(1) sd(1)]] sd(2)
    show "distinct_keys (sd_files sd')" by simp
  qed
  then show "wf_manifest events" using ws(2) by (simp add: ev wf_manifest_def)
  show "dom (map_of (sources_of events)) = dom (map_of (sources_of (s_manifest sc)))" by (simp add: src d)
  show "dget fr name [] = dget fr0 name []" if "name \<notin> dom (map_of (sources_of events))"
    using o [of name] that d src by (auto split: option.splits)
  assume n: "name \<in> dom (map_of (sources_of events))" and fi: "files_at events name rel = Some i"
  then obtain sd' where m: "map_of out name = Some sd'" by (auto simp: src)
  from from_sd [OF m] obtain sd where sd0: "map_of (sources_of (s_manifest sc)) name = Some sd"
    and sd: "dget fr name [] = fst (carried_one l (s_nested sc) h0 fr0 name (sd_files sd))"
      "sd_files sd' = snd (carried_one l (s_nested sc) h0 fr0 name (sd_files sd))" by blast
  have "map_of (snd (carried_one l (s_nested sc) h0 fr0 name (sd_files sd))) rel = Some i"
    using fi m sd(2) by (simp add: files_at_def files_in_def src)
  from carried_one_spec [OF surjective_pairing this]
  show "rel \<notin> set (dget fr name []) \<or>
       files_at l name rel = Some i \<and> (rel \<in> set (dget fr0 name []) \<or> is_held h0 name rel)"
    using sd(1) by auto
qed

lemma map_of_key_filter: "map_of (dict_filter (\<lambda>n _. P n) d) k = (if P k then map_of d k else None)"
  by (induction d) (auto simp: dict_filter_def)

lemma is_held_update:
  assumes "distinct_keys h" "is_held (dict_update (dict_filter (\<lambda>n _. P n) h0) h) name rel"
  shows "is_held h name rel \<or> P name \<and> is_held h0 name rel"
  using assms
  by (auto simp: is_held_def dget_def map_of_dict_update map_of_rev_distinct map_of_key_filter
      split: option.splits if_splits)

lemma rescan_carried:
  assumes r: "rescan_step env sc sn = Inr sn'"
    and w: "wf_manifest (s_manifest sc)" "wf_manifest (sn_local sn)"
    and c: "carried_stored dev store (sn_local sn) (sn_frozen sn) (sn_held sn)"
    and none: "s_held sc = None \<longrightarrow> sn_held sn = []"
    and v: "\<forall>name rel i. s_held sc \<noteq> None \<and>
      map_of (files_in (prior_sources (sn_prior sn)) name) rel = Some i \<longrightarrow> has_blob dev store i"
  shows "wf_sources (sources_of (sn_local sn'))" "sn_prior sn' = sn_prior sn"
    "carried_stored dev store (sn_local sn') (sn_frozen sn') (sn_held sn')"
proof -
  obtain fr out where f: "fold (carry_source (sn_local sn) (s_nested sc) (sn_held sn)) (sources_of (s_manifest sc))
      (sn_frozen sn, []) = (fr, out)" by fastforce
  define events where "events = (s_manifest sc)\<lparr>m_sources := Some out\<rparr>"
  have src: "sources_of events = out" by (simp add: events_def)
  note e = rescan_events [OF f w(1) events_def]
  obtain events2 h held' where hs: "hold_step env sc events (sn_prior sn) fr = Inr (events2, h)"
    and hh: "\<And>name rel. is_held held' name rel \<Longrightarrow>
      is_held h name rel \<or> map_of out name = None \<and> is_held (sn_held sn) name rel"
    and sn': "sn' = sn\<lparr>sn_local := (sn_local sn)\<lparr>m_sources := Some (dict_update (sources_of (sn_local sn)) (sources_of events2))\<rparr>,
      sn_frozen := fr, sn_held := held'\<rparr>"
  proof (cases "s_held sc")
    case None
    with r f have "sn' = sn\<lparr>sn_local := (sn_local sn)\<lparr>m_sources := Some (dict_update (sources_of (sn_local sn)) (sources_of events))\<rparr>,
      sn_frozen := fr, sn_held := sn_held sn\<rparr>"
      by (simp add: rescan_step_def events_def Let_def split: sum.splits)
    with that [of events "[]" "sn_held sn"] mp [OF none None] None show ?thesis by (simp add: hold_step_def)
  next
    case (Some hc)
    with r f obtain events2 h where hs: "hold_step env sc events (sn_prior sn) fr = Inr (events2, h)"
      and "sn' = sn\<lparr>sn_local := (sn_local sn)\<lparr>m_sources := Some (dict_update (sources_of (sn_local sn)) (sources_of events2))\<rparr>,
      sn_frozen := fr, sn_held := dict_update (dict_filter (\<lambda>name _. map_of out name = None) (sn_held sn)) h\<rparr>"
      by (cases "hold_step env sc ((s_manifest sc)\<lparr>m_sources := Some out\<rparr>) (sn_prior sn) fr")
        (auto simp: rescan_step_def events_def Let_def split: sum.splits)
    with that [OF hs is_held_update [OF hold_step_shape(2) [OF hs], of "\<lambda>name. map_of out name = None"]] show ?thesis by blast
  qed
  note hr = hold_step_result [OF hs]
  have we: "wf_manifest events2" by (rule hr(3) [OF e(1)])
  then have de: "distinct_keys (sources_of events2)" and wes: "wf_sources (sources_of events2)"
    by (simp_all add: wf_manifest_def wf_sources_def)
  have wl: "wf_sources (sources_of (sn_local sn))" using w(2) by (simp add: wf_manifest_def)
  have look: "map_of (sources_of (sn_local sn')) n = (case map_of (sources_of events2) n of
      Some sd \<Rightarrow> Some sd | None \<Rightarrow> map_of (sources_of (sn_local sn)) n)" for n
    by (simp add: sn' map_of_dict_update map_of_rev_distinct [OF de])
  show "sn_prior sn' = sn_prior sn" by (simp add: sn')
  show "wf_sources (sources_of (sn_local sn'))"
  proof (rule wf_sourcesI)
    show "distinct_keys (sources_of (sn_local sn'))"
      using wl by (simp add: sn' distinct_keys_dict_update wf_sources_def)
    show "distinct_keys (sd_files sd)" if "map_of (sources_of (sn_local sn')) n = Some sd" for n sd
      using that wf_source_files [OF wes] wf_source_files [OF wl] by (auto simp: look split: option.splits)
  qed
  have dom: "dom (map_of (sources_of events2)) = dom (map_of (sources_of events))" by (rule hold_step_shape(1) [OF hs])
  show "carried_stored dev store (sn_local sn') (sn_frozen sn') (sn_held sn')"
    unfolding carried_stored_def
  proof (intro allI impI)
    fix name rel i
    assume fi: "files_at (sn_local sn') name rel = Some i"
      and ca: "rel \<in> set (dget (sn_frozen sn') name []) \<or> is_held (sn_held sn') name rel"
    have ca2: "rel \<in> set (dget fr name []) \<or> is_held held' name rel" using ca by (simp add: sn')
    show "has_blob dev store i"
    proof (cases "name \<in> dom (map_of (sources_of events2))")
      case True
      then have fe: "files_at events2 name rel = Some i"
        using fi by (auto simp: files_at_def files_in_def look)
      have n: "name \<in> dom (map_of (sources_of events))" using True dom by simp
      show ?thesis
      proof (cases "files_at events name rel")
        case None
        with hr(1) [of name rel] fe have p: "is_held h name rel"
          "map_of (files_in (prior_sources (sn_prior sn)) name) rel = Some i" by (auto split: if_splits)
        have "s_held sc \<noteq> None"
        proof
          assume "s_held sc = None"
          from hold_step_none [OF hs this] p(1) show False by simp
        qed
        with v p(2) show ?thesis by blast
      next
        case (Some j)
        with hr(1) [of name rel] fe have j: "files_at events name rel = Some i" by simp
        have "\<not> is_held h name rel" using hr(2) [of name rel] Some by auto
        with ca2 hh [of name rel] n have "rel \<in> set (dget fr name [])" by (auto simp: src)
        with e(4) [OF n j] c show ?thesis unfolding carried_stored_def by blast
      qed
    next
      case False
      then have n: "name \<notin> dom (map_of (sources_of events))" "map_of (sources_of events2) name = None" using dom by auto
      have fo: "files_at (sn_local sn) name rel = Some i"
        using fi n(2) by (simp add: files_at_def files_in_def look)
      have "\<not> is_held h name rel" using hold_step_wants_source [OF hs] n(1) by blast
      with ca2 hh [of name rel] e(3) [OF n(1)] have
        "rel \<in> set (dget (sn_frozen sn) name []) \<or> is_held (sn_held sn) name rel" by auto
      with fo c show ?thesis unfolding carried_stored_def by blast
    qed
  qed
qed

text \<open>A publication that fails leaves everything but the blobs as it was.\<close>

lemma publish_refused:
  assumes "push_publish env now now_iso serialize real_remote prior frozen held local_m s = (Inl e, s')"
    and "wf_node s" "good_device (ue_device env)" "wf_manifest local_m" "wf_sources (prior_sources real_remote)"
    and "\<forall>name. blobs_at (ue_device env) s (files_in (prior_sources real_remote) name)"
    and "carried_stored (ue_device env) s local_m frozen held"
  shows "grows s s'"
proof -
  obtain r s1 where u1: "push_upload env real_remote frozen held local_m s = (r, s1)" by fastforce
  have "s' = s1"
    using assms(1) u1 by (auto simp: push_publish_def publish_manifest_def split: prod.splits sum.splits if_splits)
  with push_upload_ok [OF u1 assms(2-5)] assms(6,7) show ?thesis unfolding carried_stored_def by blast
qed

lemma merge_source_wf:
  assumes "wf_sources acc" "distinct_keys (sd_files sd)"
  shows "wf_sources (merge_source (n, sd) acc)"
proof (rule wf_sourcesI)
  show "distinct_keys (merge_source (n, sd) acc)"
    using assms(1) by (simp add: merge_source_def Let_def distinct_keys_update wf_sources_def)
  show "distinct_keys (sd_files sd2)" if "map_of (merge_source (n, sd) acc) m = Some sd2" for m sd2
    using that assms wf_source_files [OF assms(1)]
    by (auto simp: merge_source_def Let_def intro!: distinct_keys_dict_update split: if_splits option.splits)
qed

lemma merge_sources_wf: "wf_sources acc \<Longrightarrow> (\<And>n sd. (n, sd) \<in> set srcs \<Longrightarrow> distinct_keys (sd_files sd)) \<Longrightarrow>
    wf_sources (fold merge_source srcs acc)"
proof (induction srcs arbitrary: acc)
  case (Cons e srcs)
  obtain n sd where e: "e = (n, sd)" by (cases e)
  have "wf_sources (merge_source (n, sd) acc)" by (rule merge_source_wf) (use Cons.prems e in auto)
  from Cons.IH [OF this] Cons.prems(2) show ?case by (fastforce simp: e)
qed simp

lemma merge_tombs_distinct: "merge_tombs ts acc = Inr acc' \<Longrightarrow> distinct_keys acc \<Longrightarrow> distinct_keys acc'"
  by (induction ts acc rule: merge_tombs.induct) (auto simp: distinct_keys_update split: option.splits sum.splits if_splits)

lemma merge_tombs_all_distinct: "merge_tombs_all ms acc = Inr acc' \<Longrightarrow> distinct_keys acc \<Longrightarrow> distinct_keys acc'"
  by (induction ms acc rule: merge_tombs_all.induct) (auto dest: merge_tombs_distinct split: sum.splits)

lemma merge_manifests_wf:
  assumes "merge_manifests chash ms = Inr r" "\<forall>m \<in> set ms. wf_manifest m"
  shows "wf_manifest r"
proof -
  let ?ms = "sort_key (merge_key chash) ms"
  from assms(1) obtain ts where ts: "merge_tombs_all ?ms [] = Inr ts"
    and r: "sources_of r = fold merge_source (concat (map sources_of ?ms)) []" "m_tombstones r = ts"
    by (auto simp: merge_manifests_def Let_def split: sum.splits)
  have "distinct_keys ts" using merge_tombs_all_distinct [OF ts] by (simp add: distinct_keys_def)
  moreover have "wf_sources (fold merge_source (concat (map sources_of ?ms)) [])"
  proof (rule merge_sources_wf)
    show "wf_sources []" by (simp add: wf_sources_def distinct_keys_def)
    show "distinct_keys (sd_files sd)" if "(n, sd) \<in> set (concat (map sources_of ?ms))" for n sd
      using that assms(2) by (fastforce simp: wf_manifest_def wf_sources_def)
  qed
  ultimately show ?thesis by (simp add: wf_manifest_def r)
qed

lemma recovered_wf:
  assumes "recover_prior_manifest chash f sidecar peers = Inr (Some p)"
    and f: "\<And>m. mf_status f = StatusOk \<Longrightarrow> mf_manifest f = Some m \<Longrightarrow> wf_manifest m"
    and s: "\<And>m. sidecar = Some m \<Longrightarrow> wf_manifest m"
    and t: "\<And>ts. peers = Inr ts \<Longrightarrow> distinct_keys ts"
  shows "wf_manifest p"
proof -
  consider (canonical) "mf_status f = StatusOk" "mf_manifest f = Some p"
    | (merged) m m2 where "mf_status f = StatusOk" "mf_manifest f = Some m" "sidecar = Some m2"
        "merge_manifests chash [m, m2] = Inr p"
    | (sidecar) "sidecar = Some p"
    | (peers) ts where "peers = Inr ts" "p = \<lparr>m_timestamp = [], m_rest = [], m_sources = Some [], m_tombstones = ts\<rparr>"
    using assms(1) by (auto simp: recover_prior_manifest_def split: if_splits option.splits sum.splits)
  then show ?thesis
  proof cases
    case canonical
    then show ?thesis by (rule f)
  next
    case merged
    show ?thesis by (rule merge_manifests_wf [OF merged(4)]) (use f [OF merged(1,2)] s [OF merged(3)] in simp)
  next
    case sidecar
    then show ?thesis by (rule s)
  next
    case peers
    with t [OF peers(1)] show ?thesis by (simp add: wf_manifest_def wf_sources_def sources_of_def distinct_keys_def)
  qed
qed

text \<open>A carried entry may be published: the prior manifest is the one that was fetched, or every carried
  entry was looked up in the folder.\<close>

lemma recovered_vouched:
  assumes "recover_prior_manifest chash f sidecar peers = Inr prior"
    and m: "\<And>m name. fetched_manifest f = Some m \<Longrightarrow> blobs_at dev store (files_in (sources_of m) name)"
    and b: "\<And>i. blob_stored dev store i \<Longrightarrow> has_blob dev store i"
    and h: "hold \<Longrightarrow> \<not> recovering f"
  shows "vouched dev store
    (if mf_status f = StatusOk \<and> \<not> mf_copies_only f then None else Some (blob_stored dev store)) hold prior"
proof (cases "mf_status f = StatusOk \<and> \<not> mf_copies_only f")
  case True
  then have p: "prior = fetched_manifest f" using assms(1) by (simp add: recover_prior_manifest_def fetched_manifest_def)
  have "has_blob dev store i" if "map_of (files_in (prior_sources prior) name) rel = Some i" for name rel i
  proof (cases "fetched_manifest f")
    case None
    with that p show ?thesis by (simp add: prior_sources_def files_in_def)
  next
    case (Some fm)
    with m [OF Some, of name] that p show ?thesis by (simp add: blobs_at_def)
  qed
  then show ?thesis by (simp add: vouched_def)
next
  case False
  have "\<not> hold" if "prior \<noteq> None"
  proof
    assume hold
    with h False have "mf_status f = StatusMissing" "\<not> mf_vanished f"
      by (auto simp: recovering_def intro: fetch_status.exhaust [of "mf_status f"])
    with assms(1) False that show False by (auto simp: recover_prior_manifest_def)
  qed
  moreover have "prior = None \<Longrightarrow> files_in (prior_sources prior) name = []" for name
    by (simp add: prior_sources_def files_in_def)
  ultimately show ?thesis using b False by (cases prior) (auto simp: vouched_def)
qed

text \<open>What a push relies on from its scans: every path once, and held files exactly when asked for.\<close>

definition sound_scan :: "bool \<Rightarrow> scan_error + scan \<Rightarrow> bool" where
  "sound_scan hold r \<longleftrightarrow> (case r of Inl _ \<Rightarrow> True
     | Inr sc \<Rightarrow> wf_manifest (s_manifest sc) \<and> distinct_keys (s_nested sc) \<and> (s_held sc = None \<longleftrightarrow> \<not> hold))"

definition sound_scans :: "push_world \<Rightarrow> bool" where
  "sound_scans pw \<longleftrightarrow> (\<forall>hold cfgs. sound_scan hold (pw_scan pw hold cfgs)) \<and>
     (\<forall>hold cfgs nested. sound_scan hold (pw_rescan pw hold cfgs nested))"

lemma second_look_carried:
  assumes l: "second_look pw hold cfgs env nested sn = Inr sn'" and ss: "sound_scans pw"
    and w: "wf_manifest (sn_local sn)" and pr: "\<forall>r. sn_prior sn = Some r \<longrightarrow> wf_manifest r"
    and c: "carried_stored dev store (sn_local sn) (sn_frozen sn) (sn_held sn)"
    and none: "\<not> hold \<longrightarrow> sn_held sn = []"
    and v: "\<forall>name rel i. hold \<and> map_of (files_in (prior_sources (sn_prior sn)) name) rel = Some i \<longrightarrow> has_blob dev store i"
  shows "wf_manifest (sn_local sn') \<and> carried_stored dev store (sn_local sn') (sn_frozen sn') (sn_held sn')"
proof (cases "filter (\<lambda>s. sc_name s \<in> set MM_INTERNAL_SOURCE_NAMES) cfgs = []")
  case True
  with l w c show ?thesis by (simp add: second_look_def)
next
  case False
  let ?internal = "filter (\<lambda>s. sc_name s \<in> set MM_INTERNAL_SOURCE_NAMES) cfgs"
  obtain sc sn1 ts where sc: "pw_rescan pw hold ?internal nested = Inr sc"
    and r: "rescan_step env sc sn = Inr sn1"
    and g: "generate_tombstones (ue_fromiso (pw_up pw)) (pw_now pw) (pw_now_iso pw) (sn_local sn1) (sn_prior sn1)
              (ue_device (pw_up pw)) = Inr ts"
    and sn': "sn' = sn1\<lparr>sn_local := (sn_local sn1)\<lparr>m_tombstones := ts\<rparr>\<rparr>"
    using l [unfolded second_look_def Let_def if_not_P [OF False]] by (auto split: sum.splits)
  have "sound_scan hold (Inr sc)" using ss sc unfolding sound_scans_def by metis
  then have s: "wf_manifest (s_manifest sc)" "s_held sc = None \<longleftrightarrow> \<not> hold" by (simp_all add: sound_scan_def)
  have n: "s_held sc = None \<longrightarrow> sn_held sn = []" using s(2) none by simp
  have v': "\<forall>name rel i. s_held sc \<noteq> None \<and>
      map_of (files_in (prior_sources (sn_prior sn)) name) rel = Some i \<longrightarrow> has_blob dev store i" using s(2) v by simp
  note rc = rescan_carried [OF r s(1) w c n v']
  have "distinct_keys ts" by (rule generated_distinct [OF g]) (use rc(2) pr in simp)
  with rc(1,3) show ?thesis
    by (simp add: sn' wf_manifest_def carried_stored_def)
qed

text \<open>What a push may do to the folder, by the way it ends.\<close>

definition push_effect :: "push_world \<Rightarrow> dnode \<Rightarrow> push_end \<Rightarrow> dnode \<Rightarrow> bool" where
  "push_effect pw s e s' \<longleftrightarrow>
     (let up = pw_up pw; dev = ue_device up in
      (\<forall>k. storage_key k \<and> stored s k \<noteq> None \<longrightarrow> stored s' k \<noteq> None) \<and>
      (\<forall>k. storage_key k \<and> \<not> startswith k DATA_PREFIX \<and> stored s' k \<noteq> stored s k \<longrightarrow>
         (\<exists>m. e = Published m) \<and> manifest_key dev = Inr k) \<and>
      (\<forall>m. e = Published m \<longrightarrow>
         (\<forall>name rel i. files_at m name rel = Some i \<longrightarrow> has_blob dev s' i) \<and>
         (\<exists>k. manifest_key dev = Inr k \<and> stored s' k = Some (ue_enc up [] (pw_serialize pw m)))) \<and>
      (pw_dry_run pw \<longrightarrow> s' = s))"

lemma push_effect_same: "(\<And>m. e \<noteq> Published m) \<Longrightarrow> push_effect pw s e s"
  by (simp add: push_effect_def Let_def)

lemma push_effect_grows: "grows s s' \<Longrightarrow> \<not> pw_dry_run pw \<Longrightarrow> (\<And>m. e \<noteq> Published m) \<Longrightarrow> push_effect pw s e s'"
  by (auto simp: push_effect_def Let_def grows_def)

lemma push_effect_published:
  assumes p: "push_publish ((pw_up pw)\<lparr>ue_allow_hold := a\<rparr>) now now_iso (pw_serialize pw) rr prior frozen held local_m s = (Inr m, s')"
    and dr: "\<not> pw_dry_run pw" and w: "wf_node s" and d: "good_device (ue_device (pw_up pw))" and wl: "wf_manifest local_m"
    and r: "wf_sources (prior_sources rr)" "\<forall>name. blobs_at (ue_device (pw_up pw)) s (files_in (prior_sources rr) name)"
    and c: "carried_stored (ue_device (pw_up pw)) s local_m frozen held"
  shows "push_effect pw s (Published m) s'"
proof -
  let ?dev = "ue_device (pw_up pw)"
  have c': "\<forall>name rel i. files_at local_m name rel = Some i \<and>
      (rel \<in> set (dget frozen name []) \<or> is_held held name rel) \<longrightarrow> has_blob ?dev s i"
    using c unfolding carried_stored_def by blast
  from publish_accepted [OF p w] d wl r c'
  obtain s1 k where blobs: "\<And>name rel i. files_at m name rel = Some i \<Longrightarrow> has_blob ?dev s' i"
    and k: "manifest_key ?dev = Inr k" "stored s' k = Some (ue_enc (pw_up pw) [] (pw_serialize pw m))"
    and g: "grows s s1" and same: "\<And>k. storage_key k \<Longrightarrow> manifest_key ?dev \<noteq> Inr k \<Longrightarrow> stored s' k = stored s1 k"
    by auto
  have "stored s' q \<noteq> None" if "storage_key q" "stored s q \<noteq> None" for q
  proof (cases "q = k")
    case True
    with k(2) show ?thesis by simp
  next
    case False
    with same [OF that(1)] k(1) g that show ?thesis by (simp add: grows_def)
  qed
  moreover have "manifest_key ?dev = Inr q" if "storage_key q" "\<not> startswith q DATA_PREFIX" "stored s' q \<noteq> stored s q" for q
    using same [OF that(1)] g that by (auto simp: grows_def)
  ultimately show ?thesis using blobs k dr by (simp add: push_effect_def Let_def)
qed

lemma push_sources_effect:
  assumes e: "push_sources pw f prior r srcs s = (e, s')"
    and w: "wf_node s" "good_device (ue_device (pw_up pw))" and ss: "sound_scans pw"
    and f: "\<And>m. fetched_manifest f = Some m \<Longrightarrow> wf_manifest m \<and> (\<forall>name. blobs_at (ue_device (pw_up pw)) s (files_in (sources_of m) name))"
    and rp: "recover_prior_manifest chash f sidecar peers = Inr prior"
    and wp: "\<forall>p. prior = Some p \<longrightarrow> wf_manifest p"
    and b: "\<And>i. blob_stored (ue_device (pw_up pw)) s i \<Longrightarrow> has_blob (ue_device (pw_up pw)) s i"
  shows "push_effect pw s e s'"
proof -
  let ?up = "(pw_up pw)\<lparr>ue_allow_hold := \<not> recovering f\<rparr>" and ?dev = "ue_device (pw_up pw)" and ?hold = "\<not> recovering f"
  let ?keep = "if mf_status f = StatusOk \<and> \<not> mf_copies_only f then None else Some (blob_stored ?dev s)"
  define cfgs where "cfgs = map typed_source srcs"
  define env where "env = (\<lambda>proof_cfgs g. snapshot_env pw 0 cfgs proof_cfgs (map source_name (rs_selected r) @ map source_name srcs) g ?keep)"
  consider (stop) "s' = s" "\<And>m. e \<noteq> Published m"
    | (publish) pc sc g sn env2 sn' where "pw_scan pw ?hold cfgs = Inr sc"
        "push_snapshot (ue_fromiso ?up) (pw_now pw) (pw_now_iso pw) ?dev (env pc g) sc prior = Inr sn" "\<not> pw_dry_run pw"
        "second_look pw ?hold cfgs env2 (s_nested sc) sn = Inr sn'"
        "(e, s') = (case push_publish ?up (pw_now pw) (pw_now_iso pw) (pw_serialize pw) (fetched_manifest f) (sn_prior sn')
            (sn_frozen sn') (sn_held sn') (sn_local sn') s of
           (Inl e, store') \<Rightarrow> (PushStopped (StopUpload e), store') | (Inr m, store') \<Rightarrow> (Published m, store'))"
    using e [unfolded push_sources_def Let_def, folded cfgs_def]
    by (simp add: env_def split: sum.splits if_splits) blast+
  then show ?thesis
  proof cases
    case stop
    with push_effect_same [of e] show ?thesis by simp
  next
    case publish
    have "sound_scan ?hold (Inr sc)" using ss publish(1) unfolding sound_scans_def by metis
    then have sc: "wf_manifest (s_manifest sc)" "distinct_keys (s_nested sc)" "s_held sc = None \<longleftrightarrow> \<not> ?hold"
      by (simp_all add: sound_scan_def)
    have "vouched ?dev s ?keep ?hold prior" by (rule recovered_vouched [OF rp]) (use f b in auto)
    then have v: "vouched ?dev s (pe_keep (env pc g)) (s_held sc \<noteq> None) prior" using sc(3) by (simp add: env_def snapshot_env_def)
    note sn = snapshot_carried [OF publish(2) wp sc(1,2) v]
    have hv: "\<forall>name rel i. ?hold \<and> map_of (files_in (prior_sources (sn_prior sn)) name) rel = Some i \<longrightarrow> has_blob ?dev s i"
      using v sn(4) sc(3) unfolding vouched_def by blast
    have none: "\<not> ?hold \<longrightarrow> sn_held sn = []" using sn(5) sc(3) by simp
    have wr: "\<forall>r. sn_prior sn = Some r \<longrightarrow> wf_manifest r" using sn(3) by blast
    from second_look_carried [OF publish(4) ss sn(1) wr sn(2) none hv]
    have l: "wf_manifest (sn_local sn')" "carried_stored ?dev s (sn_local sn') (sn_frozen sn') (sn_held sn')" by blast+
    have r: "wf_sources (prior_sources (fetched_manifest f))" "\<forall>name. blobs_at ?dev s (files_in (prior_sources (fetched_manifest f)) name)"
      using f by (cases "fetched_manifest f"; simp add: prior_sources_def wf_sources_def distinct_keys_def files_in_def blobs_at_def wf_manifest_def)+
    obtain res store2 where p: "push_publish ?up (pw_now pw) (pw_now_iso pw) (pw_serialize pw) (fetched_manifest f) (sn_prior sn')
            (sn_frozen sn') (sn_held sn') (sn_local sn') s = (res, store2)" by fastforce
    show ?thesis
    proof (cases res)
      case (Inl er)
      with publish(5) p have es: "e = PushStopped (StopUpload er)" "s' = store2" by simp_all
      have "grows s s'" by (rule publish_refused [OF p [unfolded Inl, folded es(2)] w(1)]) (use w(2) l r in simp_all)
      with push_effect_grows [OF _ publish(3)] es(1) show ?thesis by simp
    next
      case (Inr m)
      with publish(5) p have es: "e = Published m" "s' = store2" by simp_all
      show ?thesis unfolding es
        by (rule push_effect_published [OF p [unfolded Inr] publish(3) w l(1) r l(2)])
    qed
  qed
qed

lemma retained:
  "set (rs_selected r) \<subseteq> set (rs_selected (retain_prior_default_sources ho config prior r))"
  "\<not> rs_explicit r \<Longrightarrow> name \<in> set (published_names prior) \<Longrightarrow> name \<notin> set (disabled_names (table config ''sync'')) \<Longrightarrow>
     get_default_source name = Some d \<Longrightarrow> prior \<noteq> None \<Longrightarrow>
     name \<in> source_name ` set (rs_selected (retain_prior_default_sources ho config prior r))"
  "rs_available (retain_prior_default_sources ho config prior r) = rs_available r"
proof -
  define keep where "keep = (\<lambda>name selected.
      if name \<in> set (map source_name selected) \<or> name \<in> set (disabled_names (table config ''sync'')) then selected
      else (case get_default_source name of None \<Rightarrow> selected | Some d \<Rightarrow> selected @ [expanded ho d]))"
  have mono: "set sel \<subseteq> set (fold keep names sel)" for names sel
    by (induction names arbitrary: sel) (fastforce simp: keep_def split: option.splits)+
  have sel: "rs_selected (retain_prior_default_sources ho config prior r) =
      (if rs_explicit r \<or> prior = None then rs_selected r else fold keep (published_names prior) (rs_selected r))"
    by (simp add: retain_prior_default_sources_def keep_def Let_def)
  show "set (rs_selected r) \<subseteq> set (rs_selected (retain_prior_default_sources ho config prior r))"
    using mono by (simp add: sel)
  show "rs_available (retain_prior_default_sources ho config prior r) = rs_available r"
    by (simp add: retain_prior_default_sources_def Let_def)
  assume a: "\<not> rs_explicit r" "name \<in> set (published_names prior)" "name \<notin> set (disabled_names (table config ''sync''))"
    "get_default_source name = Some d" "prior \<noteq> None"
  have "source_name d = name" using a(4) by (auto simp: get_default_source_def find_Some_iff)
  then have step: "name \<in> source_name ` set (keep name sel)" for sel
    using a(3,4) by (auto simp: keep_def)
  have "name \<in> set names \<Longrightarrow> name \<in> source_name ` set (fold keep names sel)" for names sel
  proof (induction names arbitrary: sel)
    case (Cons n names)
    show ?case
    proof (cases "n = name")
      case True
      with step [of sel] mono [of "keep name sel" names] show ?thesis by auto
    next
      case False
      with Cons show ?thesis by simp
    qed
  qed simp
  with a show "name \<in> source_name ` set (rs_selected (retain_prior_default_sources ho config prior r))"
    unfolding sel by auto
qed

lemma included_names:
  "include_prior_host_if_needed ho config r prior name srcs = Inr srcs' \<Longrightarrow>
     set (map source_name srcs') \<subseteq> insert name (set (map source_name srcs))"
proof -
  have "source_name d = name" if "get_default_source name = Some d" for d
    using that by (auto simp: get_default_source_def find_Some_iff)
  then show "include_prior_host_if_needed ho config r prior name srcs = Inr srcs' \<Longrightarrow>
     set (map source_name srcs') \<subseteq> insert name (set (map source_name srcs))"
    by (auto simp: include_prior_host_if_needed_def Let_def find_Some_iff split: if_splits option.splits)
qed

section \<open>Properties\<close>



text \<open>A push of two files of one source, one of them published before and one that changes while it is
  uploaded and settles.\<close>

definition core_blob :: pystr where
  "core_blob = replicate 64 97 @ u ''.enc''"

definition core_store :: dnode where
  "core_store = Folder [(u ''data'', Folder [(u ''mac1'', Folder [(core_blob, File [1])])]),
     (u ''devices'', Folder [(u ''mac1.json'', File [7])])]"

definition core_prior :: manifest where
  "core_prior = up_local\<lparr>m_sources := Some [(u ''notes'', \<lparr>sd_base_path = JStr (u ''/notes''), sd_files = [(u ''a.md'', up_file)]\<rparr>)]\<rparr>"

definition core_local :: manifest where
  "core_local = up_local\<lparr>m_sources := Some [(u ''notes'', \<lparr>sd_base_path = JStr (u ''/notes''),
     sd_files = [(u ''a.md'', up_file), (u ''b.md'', up_file)]\<rparr>)]\<rparr>"

definition core_scan :: "bool \<Rightarrow> scan_error + scan" where
  "core_scan hold = Inr \<lparr>s_manifest = core_local, s_nested = [], s_held = (if hold then Some ([], []) else None)\<rparr>"

definition core_world :: push_world where
  "core_world = \<lparr>pw_config = sample_config, pw_host = sample_host, pw_dry_run = False, pw_up = up_env, pw_name = u ''Mac'',
     pw_dumps = (\<lambda>_. [7]), pw_now = 0, pw_now_iso = u ''now'', pw_serialize = (\<lambda>_. [9]),
     pw_fetch = (\<lambda>_. Inr \<lparr>mf_status = StatusOk, mf_manifest = Some core_prior, mf_newer = None, mf_copies_only = False, mf_vanished = False\<rparr>),
     pw_chash = (\<lambda>_. []), pw_sidecar = None, pw_peers = (\<lambda>_. Inr []), pw_scan = (\<lambda>hold _. core_scan hold),
     pw_rescan = (\<lambda>hold _ _. core_scan hold), pw_markers = (\<lambda>_. Inr []), pw_alpha = (\<lambda>_. True),
     pw_tree = (\<lambda>_ _ _. Missing), pw_root_ok = (\<lambda>_ _. True), pw_catchup = False\<rparr>"

lemma core_registered: "ensure_device_registered core_world core_store = Inr core_store"
  by code_simp

lemma core_node:
  assumes "blob_key (u ''mac1'') v = Inr k" "node_at core_store (path_parts k) \<noteq> None"
  shows "node_at core_store (path_parts k) = Some (File [1])"
proof -
  from assms(1) obtain sh where sh: "sha_shape sh" "k = DATA_PREFIX @ u ''mac1'' @ u ''/'' @ sh @ u ''.enc''"
    by (auto simp: blob_key_Inr_iff)
  have "47 \<notin> set (sh @ u ''.enc'')" using sha_shape_no_sep [OF sh(1)] by (auto simp: u_def)
  then have "split_on 47 k = [u ''data'', u ''mac1'', sh @ u ''.enc'']"
    unfolding sh(2) using split_data_key [of "u ''mac1''" "sh @ u ''.enc''"] by (simp add: u_def)
  then have "path_parts k = [u ''data'', u ''mac1'', sh @ u ''.enc'']" by (simp add: path_parts_def u_def)
  with assms(2) show ?thesis by (auto simp: core_store_def u_def split: if_splits)
qed

lemma core_sound:
  "sound_scans core_world" "good_device (ue_device (pw_up core_world))" "wf_node core_store" "wf_manifest core_prior"
  "\<forall>name. blobs_at (u ''mac1'') core_store (files_in (sources_of core_prior) name)"
  "\<forall>i. blob_stored (u ''mac1'') core_store i \<longrightarrow> has_blob (u ''mac1'') core_store i"
proof -
  have w: "wf_manifest core_local" "wf_manifest core_prior"
    by (simp_all add: core_local_def core_prior_def up_local_def wf_manifest_def wf_sources_def sources_of_def distinct_keys_def u_def)
  have "sound_scan hold (core_scan hold)" for hold
    using w by (simp add: sound_scan_def core_scan_def distinct_keys_def)
  then show "sound_scans core_world" by (simp add: sound_scans_def core_world_def)
  show "wf_manifest core_prior" by (rule w)
  show "good_device (ue_device (pw_up core_world))" using up_local_wf(3) by (simp add: core_world_def up_env_def)
  show "wf_node core_store" by (simp add: core_store_def core_blob_def plain_name_def distinct_keys_def u_def)
  show held: "\<forall>i. blob_stored (u ''mac1'') core_store i \<longrightarrow> has_blob (u ''mac1'') core_store i"
    using core_node by (fastforce simp: blob_stored_def has_blob_def stored_def file_at_def backend_exists_def split: sum.splits)
  have "blob_stored (u ''mac1'') core_store up_file" by code_simp
  with held have "has_blob (u ''mac1'') core_store up_file" by blast
  then show "\<forall>name. blobs_at (u ''mac1'') core_store (files_in (sources_of core_prior) name)"
    by (auto simp: blobs_at_def files_in_def core_prior_def up_local_def sources_of_def split: if_splits)
qed

lemma core_run:
  obtains m s' where "push_core core_world core_store = (Published m, s')"
    "map_option fi_sha256 (files_at m (u ''notes'') (u ''b.md'')) = Some (replicate 64 98)"
proof -
  have "case push_core core_world core_store of
      (Published m, s') \<Rightarrow> map_option fi_sha256 (files_at m (u ''notes'') (u ''b.md'')) = Some (replicate 64 98) | _ \<Rightarrow> False"
    by code_simp
  then show ?thesis using that by (auto split: prod.splits push_end.splits)
qed


text \<open>The same Mac after the folder of a published source went away.\<close>

definition lost_prior :: manifest where
  "lost_prior = up_local\<lparr>m_sources := Some [(u ''old'', \<lparr>sd_base_path = JStr (u ''/gone''), sd_files = [(u ''a.md'', up_file)]\<rparr>)]\<rparr>"

definition lost_world :: push_world where
  "lost_world = core_world\<lparr>pw_fetch := (\<lambda>_. Inr \<lparr>mf_status = StatusOk, mf_manifest = Some lost_prior, mf_newer = None,
     mf_copies_only = False, mf_vanished = False\<rparr>)\<rparr>"


end
